(* ===== verification/Prelude.thy ===== *)
theory Prelude
  imports Main "HOL-Library.Monad_Syntax" "HOL-Library.Word"
begin

unbundle bit_operations_syntax

text \<open>
  Shared vocabulary of the picasso runtime development.

  \<^item> C integers: \<open>size_t\<close>, pointers and the signed widths are \<open>int\<close>s, with the
    conversions \<open>u64\<close>, \<open>s64\<close>, \<open>s32\<close> written where a value can leave its range.
  \<^item> The process memory is split by access type: a plane of 8-byte cells (\<open>mem\<close>, indexed by
    byte address; headers, links and pointers) and a plane of bytes (\<open>bytes\<close>; string and
    element data).
  \<^item> \<open>seg\<close> and \<open>ring\<close> abstract doubly linked structures in the cell plane to
    lists. The allocator's bins (links at offsets 16/24 and 32/40) and the runtime's wait queues
    (links at offsets 0/8) are both instances.
  \<^item> The error monad is \<open>option\<close>: \<open>None\<close> is a failed \<open>assert\<close>, an
    \<open>abort\<close>, or an access the C standard leaves undefined.
\<close>

section \<open>Collections of simplification rules\<close>

named_theorems chunk_simps \<open>chunk header reads after chunk header writes\<close>
named_theorems state_simps \<open>projections of runtime states after updates\<close>

section \<open>C integers\<close>

type_synonym addr = int
type_synonym mem = "addr \<Rightarrow> int"
type_synonym bytes = "addr \<Rightarrow> int"

definition u64 :: "int \<Rightarrow> int" where
  "u64 x = x mod 2 ^ 64"

definition u32 :: "int \<Rightarrow> int" where
  "u32 x = x mod 2 ^ 32"

definition u8 :: "int \<Rightarrow> int" where
  "u8 x = x mod 2 ^ 8"

definition s64 :: "int \<Rightarrow> int" where
  "s64 x = (x + 2 ^ 63) mod 2 ^ 64 - 2 ^ 63"

definition s32 :: "int \<Rightarrow> int" where
  "s32 x = (x + 2 ^ 31) mod 2 ^ 32 - 2 ^ 31"

abbreviation (input) NULL :: addr where
  "NULL \<equiv> 0"

lemma u64_id [simp]: "0 \<le> x \<Longrightarrow> x < 2 ^ 64 \<Longrightarrow> u64 x = x"
  by (simp add: u64_def)

lemma u64_range [simp]: "0 \<le> u64 x" "u64 x < 2 ^ 64"
  by (simp_all add: u64_def)

lemma u32_id [simp]: "0 \<le> x \<Longrightarrow> x < 2 ^ 32 \<Longrightarrow> u32 x = x"
  by (simp add: u32_def)

lemma u8_id [simp]: "0 \<le> x \<Longrightarrow> x < 256 \<Longrightarrow> u8 x = x"
  by (simp add: u8_def)

lemma s64_id [simp]: "- (2 ^ 63) \<le> x \<Longrightarrow> x < 2 ^ 63 \<Longrightarrow> s64 x = x"
  by (simp add: s64_def)

lemma s32_id [simp]: "- (2 ^ 31) \<le> x \<Longrightarrow> x < 2 ^ 31 \<Longrightarrow> s32 x = x"
  by (simp add: s32_def)

lemma s32_range: "- (2 ^ 31) \<le> s32 x" "s32 x < 2 ^ 31"
proof -
  have "0 \<le> (x + 2 ^ 31) mod 2 ^ 32" "(x + 2 ^ 31) mod 2 ^ 32 < 2 ^ 32" by simp_all
  then show "- (2 ^ 31) \<le> s32 x" "s32 x < 2 ^ 31" by (simp_all add: s32_def)
qed

lemma s64_range: "- (2 ^ 63) \<le> s64 x" "s64 x < 2 ^ 63"
proof -
  have "0 \<le> (x + 2 ^ 63) mod 2 ^ 64" "(x + 2 ^ 63) mod 2 ^ 64 < 2 ^ 64" by simp_all
  then show "- (2 ^ 63) \<le> s64 x" "s64 x < 2 ^ 63" by (simp_all add: s64_def)
qed

section \<open>Bits of flag words\<close>

lemma bit_int_1: "bit (1::int) n \<longleftrightarrow> n = 0"
  by (simp add: bit_1_iff)

lemma bit_int_2: "bit (2::int) n \<longleftrightarrow> n = 1"
  using bit_exp_iff [where 'a = int, of 1 n] by auto

lemma bit_int_4: "bit (4::int) n \<longleftrightarrow> n = 2"
  using bit_exp_iff [where 'a = int, of 2 n] by auto

lemma bit_int_7: "bit (7::int) n \<longleftrightarrow> n < 3"
  using bit_mask_iff [where 'a = int, of 3 n] by (simp add: mask_eq_exp_minus_1)

lemma bit_int_15: "bit (15::int) n \<longleftrightarrow> n < 4"
  using bit_mask_iff [where 'a = int, of 4 n] by (simp add: mask_eq_exp_minus_1)

lemma bit_int_m2: "bit (- 2::int) n \<longleftrightarrow> n \<noteq> 0"
  using bit_not_iff [of "1::int" n] by (simp add: bit_int_1)

lemma bit_int_m3: "bit (- 3::int) n \<longleftrightarrow> n \<noteq> 1"
  using bit_not_iff [of "2::int" n] by (simp add: bit_int_2)

lemma bit_int_m5: "bit (- 5::int) n \<longleftrightarrow> n \<noteq> 2"
  using bit_not_iff [of "4::int" n] by (simp add: bit_int_4)

lemma bit_int_m8: "bit (- 8::int) n \<longleftrightarrow> 3 \<le> n"
  using bit_not_iff [of "7::int" n] by (auto simp: bit_int_7)

lemma bit_int_m16: "bit (- 16::int) n \<longleftrightarrow> 4 \<le> n"
  using bit_not_iff [of "15::int" n] by (auto simp: bit_int_15)

lemmas flag_bits = bit_and_iff bit_or_iff bit_int_1 bit_int_2 bit_int_4 bit_int_7 bit_int_15
  bit_int_m2 bit_int_m3 bit_int_m5 bit_int_m8 bit_int_m16

lemma and_7_mod: "(x::int) AND 7 = x mod 8"
proof -
  have "x AND mask 3 = take_bit 3 x" by (simp add: take_bit_eq_mask)
  then show ?thesis by (simp add: take_bit_eq_mod mask_eq_exp_minus_1)
qed

lemma and_15_mod: "(x::int) AND 15 = x mod 16"
proof -
  have "x AND mask 4 = take_bit 4 x" by (simp add: take_bit_eq_mask)
  then show ?thesis by (simp add: take_bit_eq_mod mask_eq_exp_minus_1)
qed

lemma and_m8: "(x::int) AND - 8 = x - x mod 8"
proof -
  have "x = (x AND 7) + (x AND - 8)"
    by (subst disjunctive_add) (auto simp: flag_bits intro!: bit_eqI)
  then show ?thesis by (simp add: and_7_mod)
qed

lemma and_m16: "(x::int) AND - 16 = x - x mod 16"
proof -
  have "x = (x AND 15) + (x AND - 16)"
    by (subst disjunctive_add) (auto simp: flag_bits intro!: bit_eqI)
  then show ?thesis by (simp add: and_15_mod)
qed

lemma or_flags:
  fixes x :: int
  assumes "x mod 8 = 0" "0 \<le> f" "f < 8"
  shows "x OR f = x + f"
proof -
  have x: "x AND 7 = 0" using assms by (simp add: and_7_mod)
  have f: "f AND - 8 = 0" using assms by (simp add: and_m8)
  have "\<not> bit x n \<or> \<not> bit f n" for n
    using arg_cong [OF x, of "\<lambda>y. bit y n"] arg_cong [OF f, of "\<lambda>y. bit y n"]
    by (auto simp: flag_bits)
  then show ?thesis by (simp add: disjunctive_add)
qed

section \<open>Memory\<close>

definition zero_region :: "addr \<Rightarrow> int \<Rightarrow> (addr \<Rightarrow> int) \<Rightarrow> addr \<Rightarrow> int" where
  "zero_region a n m = (\<lambda>x. if a \<le> x \<and> x < a + n then 0 else m x)"

lemma zero_region_out [simp]: "x < a \<or> a + n \<le> x \<Longrightarrow> zero_region a n m x = m x"
  by (auto simp: zero_region_def)

lemma zero_region_in [simp]: "a \<le> x \<Longrightarrow> x < a + n \<Longrightarrow> zero_region a n m x = 0"
  by (simp add: zero_region_def)

definition write_bytes :: "addr \<Rightarrow> int list \<Rightarrow> bytes \<Rightarrow> bytes" where
  "write_bytes a bs m = (\<lambda>x. if a \<le> x \<and> x < a + int (length bs) then bs ! nat (x - a) else m x)"

definition read_bytes :: "bytes \<Rightarrow> addr \<Rightarrow> nat \<Rightarrow> int list" where
  "read_bytes m a n = map (\<lambda>i. m (a + int i)) [0..<n]"

lemma length_read_bytes [simp]: "length (read_bytes m a n) = n"
  by (simp add: read_bytes_def)

lemma nth_read_bytes [simp]: "i < n \<Longrightarrow> read_bytes m a n ! i = m (a + int i)"
  by (simp add: read_bytes_def)

lemma write_bytes_out [simp]: "x < a \<or> a + int (length bs) \<le> x \<Longrightarrow> write_bytes a bs m x = m x"
  by (auto simp: write_bytes_def)

lemma read_write_bytes: "read_bytes (write_bytes a bs m) a (length bs) = bs"
  by (rule nth_equalityI) (simp_all add: write_bytes_def)

lemma read_bytes_cong:
  "(\<And>x. a \<le> x \<Longrightarrow> x < a + int n \<Longrightarrow> m x = m' x) \<Longrightarrow> read_bytes m a n = read_bytes m' a n"
  by (rule nth_equalityI) simp_all

lemma read_bytes_append:
  "read_bytes m a (i + j) = read_bytes m a i @ read_bytes m (a + int i) j"
  by (rule nth_equalityI) (auto simp: nth_append algebra_simps of_nat_diff)

lemma read_bytes_write_disjoint:
  assumes "a + int n \<le> b \<or> b + int (length bs) \<le> a"
  shows "read_bytes (write_bytes b bs m) a n = read_bytes m a n"
  using assms by (intro read_bytes_cong) (auto simp: write_bytes_def)

section \<open>Linked structures in the cell plane\<close>

text \<open>
  \<open>spaced w S\<close>: the objects of \<open>S\<close> lie at least \<open>w\<close> bytes apart, so a field of
  one is never a field of another.
\<close>

definition spaced :: "int \<Rightarrow> addr set \<Rightarrow> bool" where
  "spaced w S \<longleftrightarrow> (\<forall>p\<in>S. \<forall>q\<in>S. p < q \<longrightarrow> p + w \<le> q)"

lemma spaced_subset: "spaced w S \<Longrightarrow> T \<subseteq> S \<Longrightarrow> spaced w T"
  by (auto simp: spaced_def)

lemma spaced_cell:
  assumes "spaced w S" "p \<in> S" "q \<in> S" "0 \<le> i" "i < w" "0 \<le> j" "j < w"
  shows "p + i = q + j \<longleftrightarrow> p = q \<and> i = j"
proof (cases "p = q")
  case False
  then consider "p < q" | "q < p" by linarith
  then show ?thesis using assms by cases (fastforce simp: spaced_def)+
qed simp

text \<open>
  \<open>seg m f b p xs q\<close>: starting at \<open>p\<close>, the forward links at offset \<open>f\<close> run through
  \<open>xs\<close> to \<open>q\<close>, and the backward links at offset \<open>b\<close> run the other way.
\<close>

fun seg :: "mem \<Rightarrow> int \<Rightarrow> int \<Rightarrow> addr \<Rightarrow> addr list \<Rightarrow> addr \<Rightarrow> bool" where
  "seg m f b p [] q \<longleftrightarrow> m (p + f) = q \<and> m (q + b) = p"
| "seg m f b p (x # xs) q \<longleftrightarrow> m (p + f) = x \<and> m (x + b) = p \<and> seg m f b x xs q"

definition ring :: "mem \<Rightarrow> int \<Rightarrow> int \<Rightarrow> addr \<Rightarrow> addr list \<Rightarrow> bool" where
  "ring m f b h xs \<longleftrightarrow> seg m f b h xs h"

lemma seg_append: "seg m f b p (xs @ x # ys) q \<longleftrightarrow> seg m f b p xs x \<and> seg m f b x ys q"
  by (induction xs arbitrary: p) auto

lemma seg_cong:
  assumes "\<And>a. a = p \<or> a \<in> set xs \<Longrightarrow> m' (a + f) = m (a + f)"
    and "\<And>a. a = q \<or> a \<in> set xs \<Longrightarrow> m' (a + b) = m (a + b)"
  shows "seg m' f b p xs q = seg m f b p xs q"
  using assms by (induction xs arbitrary: p) auto

lemma ring_cong:
  assumes "\<And>a. a = h \<or> a \<in> set xs \<Longrightarrow> m' (a + f) = m (a + f)"
    and "\<And>a. a = h \<or> a \<in> set xs \<Longrightarrow> m' (a + b) = m (a + b)"
  shows "ring m' f b h xs = ring m f b h xs"
  unfolding ring_def using assms by (rule seg_cong)

lemma seg_last: "seg m f b p xs q \<Longrightarrow> m (q + b) = last (p # xs)"
  by (induction xs arbitrary: p) auto

lemma seg_first: "seg m f b p xs q \<Longrightarrow> m (p + f) = hd (xs @ [q])"
  by (cases xs) auto

lemma ring_first: "ring m f b h xs \<Longrightarrow> m (h + f) = hd (xs @ [h])"
  by (simp add: ring_def seg_first)

lemma ring_last: "ring m f b h xs \<Longrightarrow> m (h + b) = last (h # xs)"
  unfolding ring_def by (rule seg_last)

text \<open>
  \<open>link_between m f b p x q\<close> is the four-assignment splice of \<open>x\<close> between the
  neighbours \<open>p\<close> and \<open>q\<close>.
\<close>

definition link_between :: "mem \<Rightarrow> int \<Rightarrow> int \<Rightarrow> addr \<Rightarrow> addr \<Rightarrow> addr \<Rightarrow> mem" where
  "link_between m f b p x q = m(x + f := q, x + b := p, q + b := x, p + f := x)"

lemma seg_splice:
  assumes sp: "spaced w S" and S: "{x, p, e} \<union> set ys \<subseteq> S"
    and off: "0 \<le> f" "f < w" "0 \<le> b" "b < w" "f \<noteq> b"
    and fresh: "x \<noteq> p" "x \<noteq> e" "x \<notin> set ys" and d: "distinct ys" "p \<notin> set ys" "e \<notin> set ys"
    and s: "seg m f b p ys e"
  shows "seg (link_between m f b p x (hd (ys @ [e]))) f b p (x # ys) e"
proof -
  let ?q = "hd (ys @ [e])"
  let ?m = "link_between m f b p x ?q"
  note cell = spaced_cell [OF sp]
  have q: "?q \<in> S" using S by (cases ys) auto
  have xq: "x \<noteq> ?q" using fresh by (cases ys) auto
  have f_upd: "?m (a + f) = (if a = p then x else if a = x then ?q else m (a + f))"
    if "a \<in> S" for a
    using that S q off by (auto simp: link_between_def cell fresh)
  have b_upd: "?m (a + b) = (if a = ?q then x else if a = x then p else m (a + b))"
    if "a \<in> S" for a
    using that S q off by (auto simp: link_between_def cell fresh xq)
  have rest: "seg ?m f b x ys e"
  proof (cases ys)
    case Nil
    then show ?thesis using f_upd b_upd S fresh by auto
  next
    case (Cons y zs)
    have "seg ?m f b y zs e = seg m f b y zs e"
    proof (rule seg_cong)
      fix a assume "a = y \<or> a \<in> set zs"
      then show "?m (a + f) = m (a + f)" using Cons S d fresh by (subst f_upd) auto
    next
      fix a assume "a = e \<or> a \<in> set zs"
      then show "?m (a + b) = m (a + b)" using Cons S d fresh by (subst b_upd) auto
    qed
    then show ?thesis using Cons s S fresh f_upd b_upd by auto
  qed
  then show ?thesis using f_upd b_upd S fresh xq by auto
qed

lemma ring_link_between:
  assumes sp: "spaced w S" and S: "{x, h} \<union> set xs \<union> set ys \<subseteq> S"
    and off: "0 \<le> f" "f < w" "0 \<le> b" "b < w" "f \<noteq> b"
    and fresh: "x \<notin> set (h # xs @ ys)" and d: "distinct (h # xs @ ys)"
    and r: "ring m f b h (xs @ ys)"
  shows "ring (link_between m f b (last (h # xs)) x (hd (ys @ [h]))) f b h (xs @ x # ys)"
proof (cases xs rule: rev_cases)
  case Nil
  then show ?thesis
    using assms seg_splice [OF sp, of x h h ys f b m] by (auto simp: ring_def)
next
  case (snoc zs p)
  let ?m = "link_between m f b p x (hd (ys @ [h]))"
  note cell = spaced_cell [OF sp]
  have q: "hd (ys @ [h]) \<in> S" "hd (ys @ [h]) \<noteq> p" "hd (ys @ [h]) \<notin> set zs"
    using S d snoc by (cases ys; auto)+
  have split: "seg m f b h zs p" "seg m f b p ys h"
    using r snoc by (simp_all add: ring_def seg_append)
  have "seg ?m f b h zs p = seg m f b h zs p"
  proof (rule seg_cong)
    fix a assume "a = h \<or> a \<in> set zs"
    then show "?m (a + f) = m (a + f)"
      using snoc S d fresh q off by (auto simp: link_between_def cell)
  next
    fix a assume "a = p \<or> a \<in> set zs"
    then show "?m (a + b) = m (a + b)"
      using snoc S d fresh q off by (auto simp: link_between_def cell)
  qed
  moreover have "seg ?m f b p (x # ys) h"
    using S fresh d snoc split off by (intro seg_splice [OF sp]) auto
  ultimately show ?thesis using snoc split by (simp add: ring_def seg_append)
qed

text \<open>
  \<open>unlink_node m f b x\<close> takes \<open>x\<close> out of its ring and clears its two links.
\<close>

definition unlink_node :: "mem \<Rightarrow> int \<Rightarrow> int \<Rightarrow> addr \<Rightarrow> mem" where
  "unlink_node m f b x = m(m (x + f) + b := m (x + b), m (x + b) + f := m (x + f), x + b := 0, x + f := 0)"

lemma ring_neighbours:
  assumes "ring m f b h (xs @ x # ys)"
  shows "m (x + f) = hd (ys @ [h])" "m (x + b) = last (h # xs)"
  using assms seg_first [of m f b x ys h] seg_last [of m f b h xs x]
  by (auto simp: ring_def seg_append)

lemma ring_unlink_node:
  assumes sp: "spaced w S" and S: "{x, h} \<union> set xs \<union> set ys \<subseteq> S"
    and off: "0 \<le> f" "f < w" "0 \<le> b" "b < w" "f \<noteq> b"
    and d: "distinct (h # xs @ x # ys)"
    and r: "ring m f b h (xs @ x # ys)"
  shows "ring (unlink_node m f b x) f b h (xs @ ys)"
proof -
  let ?m = "unlink_node m f b x"
  let ?p = "last (h # xs)" and ?q = "hd (ys @ [h])"
  note cell = spaced_cell [OF sp]
  note nb = ring_neighbours [OF r]
  have pq: "?p \<in> S" "?q \<in> S" "?p \<noteq> x" "?q \<noteq> x"
    using S d by (cases xs rule: rev_cases; cases ys; auto)+
  have f_upd: "?m (a + f) = (if a = x then 0 else if a = ?p then ?q else m (a + f))"
    if "a \<in> S" for a
    using that S pq off by (auto simp: unlink_node_def cell nb simp del: last.simps)
  have b_upd: "?m (a + b) = (if a = x then 0 else if a = ?q then ?p else m (a + b))"
    if "a \<in> S" for a
    using that S pq off by (auto simp: unlink_node_def cell nb simp del: last.simps)
  have sg: "seg m f b h xs x" "seg m f b x ys h" using r by (simp_all add: ring_def seg_append)
  have suffix: "seg ?m f b ?p ys h"
  proof (cases ys)
    case Nil
    then show ?thesis using f_upd b_upd S d pq by (auto simp del: last.simps)
  next
    case (Cons y zs)
    have py: "?p \<notin> set ys" using d by (cases xs rule: rev_cases) auto
    have "seg ?m f b y zs h = seg m f b y zs h"
    proof (rule seg_cong)
      fix a assume "a = y \<or> a \<in> set zs"
      then show "?m (a + f) = m (a + f)" using Cons S d py by (subst f_upd) auto
    next
      fix a assume "a = h \<or> a \<in> set zs"
      then show "?m (a + b) = m (a + b)" using Cons S d by (subst b_upd) auto
    qed
    then show ?thesis using Cons sg S d pq f_upd b_upd py by (auto simp del: last.simps)
  qed
  show ?thesis
  proof (cases xs rule: rev_cases)
    case Nil
    then show ?thesis using suffix by (simp add: ring_def)
  next
    case (snoc zs p)
    have qz: "?q \<notin> set zs" "?q \<noteq> p" using d snoc by (cases ys; auto)+
    have "seg ?m f b h zs p = seg m f b h zs p"
    proof (rule seg_cong)
      fix a assume "a = h \<or> a \<in> set zs"
      then show "?m (a + f) = m (a + f)" using snoc S d by (subst f_upd) auto
    next
      fix a assume "a = p \<or> a \<in> set zs"
      then show "?m (a + b) = m (a + b)" using snoc S d qz by (subst b_upd) auto
    qed
    then show ?thesis using snoc suffix sg by (simp add: ring_def seg_append)
  qed
qed

text \<open>Both splices only write link fields of the node and of its two neighbours.\<close>

lemma link_between_frame:
  assumes "a \<noteq> x + f" "a \<noteq> x + b" "a \<noteq> q + b" "a \<noteq> p + f"
  shows "link_between m f b p x q a = m a"
  using assms by (simp add: link_between_def)

lemma unlink_node_frame:
  assumes "a \<noteq> x + f" "a \<noteq> x + b" "a \<noteq> m (x + f) + b" "a \<noteq> m (x + b) + f"
  shows "unlink_node m f b x a = m a"
  using assms by (simp add: unlink_node_def)

end
