(* ===== verification/Alloc.thy ===== *)
theory Alloc
  imports Prelude
begin

text \<open>
  The arena allocator, \<^verbatim>\<open>src/runtime/src/alloc.c\<close> and
  \<^verbatim>\<open>src/runtime/headers/alloc.h\<close>: chunk headers with boundary tags, fast bins,
  the unsorted bin, small and large bins, the top chunk, heap growth and coalescing.

  A \<open>free_chunk_t\<close> at address \<open>p\<close> is its six cells: \<open>prev_size\<close> at \<open>p\<close>, \<open>size\<close>
  (with the flag bits) at \<open>p + 8\<close>, \<open>fd\<close> at \<open>p + 16\<close>, \<open>bk\<close> at \<open>p + 24\<close>,
  \<open>next_sizeptr\<close> at \<open>p + 32\<close> and \<open>prev_sizeptr\<close> at \<open>p + 40\<close>. The payload starts at
  \<open>p + 16\<close>, so the links of a free chunk live in its payload, as in the C code.

  \<open>mmap\<close> and \<open>munmap\<close> are the operating system's: they are fields of the parameter
  \<open>os\<close>. The arena mutex is held around \<open>allocate\<close> and \<open>release\<close>, so each call is one
  step of the model. Diagnostics (\<open>perror\<close>, \<open>Debug\<close>) have no effect on the state.
\<close>

section \<open>Constants and data\<close>

definition HEADER_SIZE :: int where [simp]: "HEADER_SIZE = 16"
definition MIN_PAYLOAD_SIZE :: int where [simp]: "MIN_PAYLOAD_SIZE = 32"
definition MMAP_THRESHOLD :: int where [simp]: "MMAP_THRESHOLD = 131072"
definition FASTBINS_COUNT :: int where [simp]: "FASTBINS_COUNT = 7"
definition SMALLBINS_COUNT :: int where [simp]: "SMALLBINS_COUNT = 32"
definition LARGEBINS_COUNT :: int where [simp]: "LARGEBINS_COUNT = 64"
definition HEAP_BASE_SIZE :: int where [simp]: "HEAP_BASE_SIZE = 1024 * 1024"
definition HEAP_EXPONENTIAL_GROWTH_LIMIT :: int where
  [simp]: "HEAP_EXPONENTIAL_GROWTH_LIMIT = 64 * 1024 * 1024"
definition HEAP_CONSTANT_GROWTH :: int where [simp]: "HEAP_CONSTANT_GROWTH = 64 * 1024 * 1024"
definition MAX_HEAP_GROWTH_ITERATIONS :: nat where [simp]: "MAX_HEAP_GROWTH_ITERATIONS = 159"
definition HEAP_BOUNDARY_SIZE :: int where [simp]: "HEAP_BOUNDARY_SIZE = 32"
definition PREV_IN_USE_FLAG_MASK :: int where [simp]: "PREV_IN_USE_FLAG_MASK = 1"
definition GC_MARK_FLAG_MASK :: int where [simp]: "GC_MARK_FLAG_MASK = 2"
definition CURR_IN_USE_FLAG_MASK :: int where [simp]: "CURR_IN_USE_FLAG_MASK = 4"
definition MMAP_ALLOCATED_FLAG_MASK :: int where [simp]: "MMAP_ALLOCATED_FLAG_MASK = 2"
definition SIZE_BITS :: int where [simp]: "SIZE_BITS = 7"
definition sizeof_free_chunk_t :: int where [simp]: "sizeof_free_chunk_t = 48"

text \<open>\<open>sizeof(arena_t)\<close> with the 48-byte \<open>pthread_mutex_t\<close> of the AArch64 ABI.\<close>

definition sizeof_arena_t :: int where [simp]: "sizeof_arena_t = 3456"

record arena_t =
  fastbins :: "addr list"
  top_chunk :: addr
  unsortedbin :: addr
  smallbins :: "addr list"
  largebins :: "addr list"
  heap_expo_growth_iters :: int
  heap_constant_growth_iters :: int
  alloced_heaps :: "(addr \<times> addr) list"

record heap_state =
  hmem :: mem
  hbytes :: bytes
  arena :: arena_t
  maps :: "(addr \<times> int) list"

record os =
  page_size :: int
  os_mmap :: "(addr \<times> int) list \<Rightarrow> int \<Rightarrow> addr option"
  os_munmap :: "(addr \<times> int) list \<Rightarrow> addr \<Rightarrow> int \<Rightarrow> (addr \<times> int) list"

definition put_mem :: "mem \<Rightarrow> heap_state \<Rightarrow> heap_state" where
  "put_mem m s = s\<lparr>hmem := m\<rparr>"

definition upd_arena :: "(arena_t \<Rightarrow> arena_t) \<Rightarrow> heap_state \<Rightarrow> heap_state" where
  "upd_arena f s = s\<lparr>arena := f (arena s)\<rparr>"

section \<open>Sizes, flags and neighbours\<close>

definition align16 :: "int \<Rightarrow> int" where
  "align16 sz = u64 (sz + 15) AND NOT 15"

definition align_page :: "os \<Rightarrow> int \<Rightarrow> int" where
  "align_page os sz = u64 (sz + page_size os - 1) AND NOT (page_size os - 1)"

definition alloc_memory :: "os \<Rightarrow> int \<Rightarrow> heap_state \<Rightarrow> addr \<times> heap_state" where
  "alloc_memory os sz s =
     (case os_mmap os (maps s) sz of
        None \<Rightarrow> (NULL, s)
      | Some p \<Rightarrow> (p, s\<lparr>hmem := zero_region p sz (hmem s), hbytes := zero_region p sz (hbytes s),
                       maps := (p, sz) # maps s\<rparr>))"

definition is_prev_inuse :: "mem \<Rightarrow> addr \<Rightarrow> bool" where
  "is_prev_inuse m fc \<longleftrightarrow> m (fc + 8) AND PREV_IN_USE_FLAG_MASK \<noteq> 0"

definition set_prev_inuse :: "mem \<Rightarrow> addr \<Rightarrow> mem" where
  "set_prev_inuse m fc = m(fc + 8 := m (fc + 8) OR PREV_IN_USE_FLAG_MASK)"

definition unset_prev_inuse :: "mem \<Rightarrow> addr \<Rightarrow> mem" where
  "unset_prev_inuse m fc = m(fc + 8 := m (fc + 8) AND NOT PREV_IN_USE_FLAG_MASK)"

definition is_curr_inuse :: "mem \<Rightarrow> addr \<Rightarrow> bool" where
  "is_curr_inuse m fc \<longleftrightarrow> m (fc + 8) AND CURR_IN_USE_FLAG_MASK \<noteq> 0"

definition set_curr_inuse :: "mem \<Rightarrow> addr \<Rightarrow> mem" where
  "set_curr_inuse m fc = m(fc + 8 := m (fc + 8) OR CURR_IN_USE_FLAG_MASK)"

definition unset_curr_inuse :: "mem \<Rightarrow> addr \<Rightarrow> mem" where
  "unset_curr_inuse m fc = m(fc + 8 := m (fc + 8) AND NOT CURR_IN_USE_FLAG_MASK)"

definition is_mmap_alloced :: "mem \<Rightarrow> addr \<Rightarrow> bool" where
  "is_mmap_alloced m fc \<longleftrightarrow> m (fc + 8) AND MMAP_ALLOCATED_FLAG_MASK \<noteq> 0"

definition set_mmap_flag :: "mem \<Rightarrow> addr \<Rightarrow> mem" where
  "set_mmap_flag m fc = m(fc + 8 := m (fc + 8) OR MMAP_ALLOCATED_FLAG_MASK)"

definition unset_mmap_flag :: "mem \<Rightarrow> addr \<Rightarrow> mem" where
  "unset_mmap_flag m fc = m(fc + 8 := m (fc + 8) AND NOT MMAP_ALLOCATED_FLAG_MASK)"

definition get_size :: "mem \<Rightarrow> addr \<Rightarrow> int" where
  "get_size m fc = s64 (m (fc + 8) AND NOT SIZE_BITS)"

definition get_prev_size :: "mem \<Rightarrow> addr \<Rightarrow> int" where
  "get_prev_size m fc = s64 (m fc AND NOT SIZE_BITS)"

definition get_size_flags :: "mem \<Rightarrow> addr \<Rightarrow> int" where
  "get_size_flags m fc = m (fc + 8) AND SIZE_BITS"

definition get_prev_size_flags :: "mem \<Rightarrow> addr \<Rightarrow> int" where
  "get_prev_size_flags m fc = m fc AND SIZE_BITS"

definition set_size :: "mem \<Rightarrow> addr \<Rightarrow> int \<Rightarrow> int \<Rightarrow> mem" where
  "set_size m fc sz flags = m(fc + 8 := u64 sz OR u64 flags)"

definition set_prev_size :: "mem \<Rightarrow> addr \<Rightarrow> int \<Rightarrow> int \<Rightarrow> mem option" where
  "set_prev_size m fc sz flags = (if sz = 0 then None else Some (m(fc := u64 sz OR u64 flags)))"

definition next_chunk :: "mem \<Rightarrow> addr \<Rightarrow> addr" where
  "next_chunk m fc = fc + HEADER_SIZE + get_size m fc"

definition prev_chunk :: "mem \<Rightarrow> addr \<Rightarrow> addr" where
  "prev_chunk m fc = fc - HEADER_SIZE - get_prev_size m fc"

definition set_fdbk_to :: "mem \<Rightarrow> addr \<Rightarrow> addr \<Rightarrow> mem" where
  "set_fdbk_to m fc v = m(fc + 24 := v, fc + 16 := v)"

definition set_nextprev_sizeptr_to :: "mem \<Rightarrow> addr \<Rightarrow> addr \<Rightarrow> mem" where
  "set_nextprev_sizeptr_to m fc v = m(fc + 40 := v, fc + 32 := v)"

text \<open>The \<open>(size_t)get_size(fc)\<close> of the bin code.\<close>

definition get_usize :: "mem \<Rightarrow> addr \<Rightarrow> int" where
  "get_usize m fc = u64 (get_size m fc)"

definition alloc_chunk :: "os \<Rightarrow> int \<Rightarrow> heap_state \<Rightarrow> (addr \<times> heap_state) option" where
  "alloc_chunk os sz s =
     (let total_size = align16 (u64 (sz + HEADER_SIZE));
          (fc, s) = alloc_memory os total_size s
      in if fc = NULL then None
         else let m = set_size (hmem s) fc sz MMAP_ALLOCATED_FLAG_MASK;
                  m = set_fdbk_to m fc NULL
              in Some (fc, put_mem m s))"

section \<open>List surgery\<close>

definition unlink_chunk_from_fdlist :: "mem \<Rightarrow> addr \<Rightarrow> mem" where
  "unlink_chunk_from_fdlist m p =
     (if m (p + 24) = NULL \<or> m (p + 16) = NULL then m
      else let m = m(m (p + 16) + 24 := m (p + 24));
               m = m(m (p + 24) + 16 := m (p + 16))
           in m(p + 24 := NULL, p + 16 := NULL))"

definition unlink_chunk_from_sortedlist :: "mem \<Rightarrow> addr \<Rightarrow> mem" where
  "unlink_chunk_from_sortedlist m p =
     (if m (p + 40) = NULL \<or> m (p + 32) = NULL then m
      else let m = m(m (p + 40) + 32 := m (p + 32));
               m = m(m (p + 32) + 40 := m (p + 40))
           in m(p + 40 := NULL, p + 32 := NULL))"

definition insert_into_fdlist :: "mem \<Rightarrow> addr \<Rightarrow> addr \<Rightarrow> mem" where
  "insert_into_fdlist m head p =
     (let m = m(p + 16 := m (head + 16));
          m = m(p + 24 := head);
          m = m(m (head + 16) + 24 := p)
      in m(head + 16 := p))"

section \<open>Bin indices\<close>

definition get_smallbin_index :: "int \<Rightarrow> int" where
  "get_smallbin_index sz = s32 (u64 (drop_bit 4 sz - 1))"

text \<open>\<open>__builtin_clzl\<close> of a nonzero \<open>unsigned long\<close>: 64 minus the number of significant bits.\<close>

function bit_width :: "int \<Rightarrow> int" where
  "bit_width x = (if x \<le> 0 then 0 else 1 + bit_width (x div 2))"
  by pat_completeness auto
termination by (relation "measure nat") auto

definition clzl :: "int \<Rightarrow> int" where
  "clzl x = 64 - bit_width x"

definition floor_log2 :: "int \<Rightarrow> int" where
  "floor_log2 x = s32 (8 * 8 - 1 - clzl x)"

definition get_largebin_index :: "int \<Rightarrow> int" where
  "get_largebin_index sz =
     (if sz < 512 then - 1
      else if sz \<le> 64 * 1024 then
        (let idx = s32 (drop_bit 6 (sz - 512)) in if idx > 31 then 31 else idx)
      else
        (let lg = floor_log2 sz;
             idx = 32 + (lg - 16);
             idx = (if idx < 32 then 32 else idx)
         in if idx > 63 then 63 else idx))"

section \<open>Heap growth\<close>

definition next_heap_size :: "arena_t \<Rightarrow> int \<times> arena_t" where
  "next_heap_size a =
     (if push_bit (nat (heap_expo_growth_iters a)) HEAP_BASE_SIZE \<le> HEAP_EXPONENTIAL_GROWTH_LIMIT
      then (push_bit (nat (heap_expo_growth_iters a)) HEAP_BASE_SIZE,
            a\<lparr>heap_expo_growth_iters := heap_expo_growth_iters a + 1\<rparr>)
      else (HEAP_EXPONENTIAL_GROWTH_LIMIT + HEAP_CONSTANT_GROWTH * heap_constant_growth_iters a,
            a\<lparr>heap_constant_growth_iters := heap_constant_growth_iters a + 1\<rparr>))"

definition grow_heap :: "os \<Rightarrow> heap_state \<Rightarrow> heap_state option" where
  "grow_heap os s = do {
     let (next_size, a) = next_heap_size (arena s);
     (new_block, s) \<leftarrow> alloc_chunk os (next_size + HEAP_BOUNDARY_SIZE) (s\<lparr>arena := a\<rparr>);
     let m = unset_mmap_flag (hmem s) new_block;
     let m = set_size m new_block next_size PREV_IN_USE_FLAG_MASK;
     let boundary = new_block + HEADER_SIZE + next_size;
     let m = set_size m boundary 0 (CURR_IN_USE_FLAG_MASK OR PREV_IN_USE_FLAG_MASK);
     let m = set_fdbk_to m boundary NULL;
     if length (alloced_heaps (arena s)) < MAX_HEAP_GROWTH_ITERATIONS
     then Some (s\<lparr>hmem := m,
                  arena := (arena s)\<lparr>top_chunk := new_block,
                                     alloced_heaps := alloced_heaps (arena s) @
                                       [(new_block, new_block + next_size + HEADER_SIZE)]\<rparr>\<rparr>)
     else None
   }"

section \<open>Inserting into bins\<close>

definition insert_into_fastbin :: "heap_state \<Rightarrow> addr \<Rightarrow> heap_state" where
  "insert_into_fastbin s fc =
     (let sz = get_usize (hmem s) fc;
          idx = s32 (u64 (drop_bit 4 sz - 1))
      in if 0 \<le> idx \<and> idx < FASTBINS_COUNT then
           let m = (hmem s)(fc + 16 := fastbins (arena s) ! nat idx);
               s = upd_arena (\<lambda>a. a\<lparr>fastbins := (fastbins a)[nat idx := fc]\<rparr>) s
           in put_mem (unset_curr_inuse m fc) s
         else s)"

definition insert_into_smallbin :: "heap_state \<Rightarrow> addr \<Rightarrow> heap_state option" where
  "insert_into_smallbin s fc =
     (let sz = get_usize (hmem s) fc;
          idx = get_smallbin_index sz
      in if 0 \<le> idx \<and> idx < SMALLBINS_COUNT
         then Some (put_mem (insert_into_fdlist (hmem s) (smallbins (arena s) ! nat idx) fc) s)
         else None)"

partial_function (option) ceil_loop :: "mem \<Rightarrow> addr \<Rightarrow> int \<Rightarrow> addr \<Rightarrow> addr option" where
  [code]: "ceil_loop m head sz ceil_chunk =
     (if ceil_chunk \<noteq> head \<and> get_usize m ceil_chunk < sz
      then ceil_loop m head sz (m (ceil_chunk + 32))
      else Some ceil_chunk)"

definition insert_into_largebin :: "heap_state \<Rightarrow> addr \<Rightarrow> heap_state option" where
  "insert_into_largebin s fc = do {
     let m = hmem s;
     let sz = get_usize m fc;
     let idx = get_largebin_index sz;
     if 0 \<le> idx \<and> idx < LARGEBINS_COUNT \<and> largebins (arena s) ! nat idx \<noteq> NULL then do {
       let head = largebins (arena s) ! nat idx;
       ceil_chunk \<leftarrow> ceil_loop m head sz (m (head + 32));
       let floor_chunk = m (ceil_chunk + 40);
       let m = m(fc + 32 := ceil_chunk);
       let m = m(fc + 40 := floor_chunk);
       let m = m(ceil_chunk + 40 := fc);
       let m = m(floor_chunk + 32 := fc);
       Some (put_mem (insert_into_fdlist m head fc) s)
     } else None
   }"

definition insert_into_unsortedbin :: "heap_state \<Rightarrow> addr \<Rightarrow> heap_state option" where
  "insert_into_unsortedbin s fc = do {
     let head = unsortedbin (arena s);
     if head = NULL then None
     else do {
       let m = unset_curr_inuse (hmem s) fc;
       let m = unset_prev_inuse m (next_chunk m fc);
       let next_fc = next_chunk m fc;
       m \<leftarrow> set_prev_size m next_fc (get_size m fc) (get_prev_size_flags m next_fc);
       let m = (if get_size m fc > 16 then set_nextprev_sizeptr_to m fc NULL else m);
       Some (put_mem (insert_into_fdlist m head fc) s)
     }
   }"

section \<open>Searching bins\<close>

definition fastbin_search :: "heap_state \<Rightarrow> int \<Rightarrow> addr \<times> heap_state" where
  "fastbin_search s requested_size =
     (let idx = s32 (u64 (drop_bit 4 requested_size - 1))
      in if 0 \<le> idx \<and> idx < FASTBINS_COUNT \<and> fastbins (arena s) ! nat idx \<noteq> NULL then
           let victim = fastbins (arena s) ! nat idx;
               s = upd_arena (\<lambda>a. a\<lparr>fastbins := (fastbins a)[nat idx := hmem s (victim + 16)]\<rparr>) s;
               m = (hmem s)(victim + 16 := NULL);
               m = set_curr_inuse m victim
           in (victim, put_mem m s)
         else (NULL, s))"

definition smallbin_search :: "heap_state \<Rightarrow> int \<Rightarrow> addr \<times> heap_state" where
  "smallbin_search s requested_size =
     (let idx = get_smallbin_index (u64 requested_size)
      in if 0 \<le> idx \<and> idx < SMALLBINS_COUNT then
           let head = smallbins (arena s) ! nat idx; m = hmem s
           in if m (head + 16) \<noteq> head then
                let victim = m (head + 16);
                    m = unlink_chunk_from_fdlist m victim;
                    m = set_curr_inuse m victim;
                    m = set_prev_inuse m (next_chunk m victim)
                in (victim, put_mem m s)
              else (NULL, s)
         else (NULL, s))"

text \<open>
  The block that the unsorted and the large bin search share word for word: an unlinked chunk
  that is big enough is either split, its remainder going to the unsorted bin, or handed out whole.
\<close>

definition take_or_split :: "heap_state \<Rightarrow> addr \<Rightarrow> int \<Rightarrow> heap_state option" where
  "take_or_split s cur requested_size = do {
     let m = hmem s;
     let curr_size = get_usize m cur;
     let remainder_chunk_size = curr_size - requested_size;
     if remainder_chunk_size \<ge> MIN_PAYLOAD_SIZE + HEADER_SIZE then do {
       let remainder_payload_size = remainder_chunk_size - HEADER_SIZE;
       let remainder = cur + HEADER_SIZE + requested_size;
       let m = set_size m remainder remainder_payload_size PREV_IN_USE_FLAG_MASK;
       m \<leftarrow> set_prev_size m (next_chunk m remainder) remainder_payload_size 0;
       s \<leftarrow> insert_into_unsortedbin (put_mem m s) remainder;
       let m = set_size (hmem s) cur requested_size (get_size_flags (hmem s) cur);
       Some (put_mem (set_curr_inuse m cur) s)
     } else do {
       let m = set_curr_inuse m cur;
       Some (put_mem (set_prev_inuse m (next_chunk m cur)) s)
     }
   }"

partial_function (option) largebin_scan :: "mem \<Rightarrow> addr \<Rightarrow> int \<Rightarrow> addr \<Rightarrow> addr option" where
  [code]: "largebin_scan m head requested_size cur =
     (if cur = head then Some NULL
      else if get_usize m cur \<ge> requested_size then Some cur
      else largebin_scan m head requested_size (m (cur + 32)))"

function largebin_loop :: "heap_state \<Rightarrow> int \<Rightarrow> nat \<Rightarrow> (addr \<times> heap_state) option" where
  "largebin_loop s requested_size i =
     (if 64 \<le> i then Some (NULL, s)
      else do {
        let head = largebins (arena s) ! i;
        if head = NULL then None
        else if head = hmem s (head + 32) then largebin_loop s requested_size (Suc i)
        else do {
          cur \<leftarrow> largebin_scan (hmem s) head requested_size (hmem s (head + 32));
          if cur = NULL then largebin_loop s requested_size (Suc i)
          else do {
            let m = unlink_chunk_from_fdlist (hmem s) cur;
            let m = unlink_chunk_from_sortedlist m cur;
            s \<leftarrow> take_or_split (put_mem m s) cur requested_size;
            Some (cur, s)
          }
        }
      })"
  by pat_completeness auto
termination by (relation "measure (\<lambda>(s, n, i). 64 - i)") auto

definition largebin_search :: "heap_state \<Rightarrow> int \<Rightarrow> (addr \<times> heap_state) option" where
  "largebin_search s requested_size =
     (let idx = get_largebin_index requested_size
      in if idx < 0 \<or> idx \<ge> LARGEBINS_COUNT then Some (NULL, s)
         else largebin_loop s requested_size (nat idx))"

partial_function (option) unsortedbin_loop ::
  "heap_state \<Rightarrow> addr \<Rightarrow> int \<Rightarrow> addr \<Rightarrow> (addr \<times> heap_state) option" where
  [code]: "unsortedbin_loop s head requested_size cur =
     (if cur = head then Some (NULL, s)
      else do {
        let next_fc = hmem s (cur + 16);
        let s = put_mem (unlink_chunk_from_fdlist (hmem s) cur) s;
        let curr_size = get_usize (hmem s) cur;
        if curr_size \<ge> requested_size then do {
          s \<leftarrow> take_or_split s cur requested_size;
          Some (cur, s)
        } else do {
          s \<leftarrow> (if curr_size < 16 * SMALLBINS_COUNT then insert_into_smallbin s cur
                else insert_into_largebin s cur);
          unsortedbin_loop s head requested_size next_fc
        }
      })"

definition unsortedbin_search :: "heap_state \<Rightarrow> int \<Rightarrow> (addr \<times> heap_state) option" where
  "unsortedbin_search s requested_size =
     (let head = unsortedbin (arena s)
      in unsortedbin_loop s head requested_size (hmem s (head + 16)))"

definition carve_from_top_chunk :: "os \<Rightarrow> heap_state \<Rightarrow> int \<Rightarrow> (addr \<times> heap_state) option" where
  "carve_from_top_chunk os s requested_size = do {
     s \<leftarrow> (if top_chunk (arena s) = NULL then grow_heap os s else Some s);
     let m = hmem s;
     let cur = top_chunk (arena s);
     let curr_size = get_usize m cur;
     if curr_size \<ge> requested_size then do {
       let remainder_chunk_size = curr_size - requested_size;
       if remainder_chunk_size \<ge> MIN_PAYLOAD_SIZE + HEADER_SIZE then do {
         let remainder_payload_size = remainder_chunk_size - HEADER_SIZE;
         let remainder = cur + HEADER_SIZE + requested_size;
         let m = set_size m remainder remainder_payload_size PREV_IN_USE_FLAG_MASK;
         m \<leftarrow> set_prev_size m (next_chunk m remainder) remainder_payload_size 0;
         let m = set_size m cur requested_size (get_size_flags m cur);
         let m = set_curr_inuse m cur;
         Some (cur, upd_arena (\<lambda>a. a\<lparr>top_chunk := remainder\<rparr>) (put_mem m s))
       } else do {
         let m = set_curr_inuse m cur;
         let m = set_prev_inuse m (next_chunk m cur);
         Some (cur, upd_arena (\<lambda>a. a\<lparr>top_chunk := NULL\<rparr>) (put_mem m s))
       }
     } else Some (NULL, s)
   }"

section \<open>Allocation\<close>

definition payload_size_of :: "int \<Rightarrow> int" where
  "payload_size_of requested_size =
     (let payload_size = align16 requested_size
      in if payload_size < MIN_PAYLOAD_SIZE then MIN_PAYLOAD_SIZE else payload_size)"

definition allocate_locked :: "os \<Rightarrow> int \<Rightarrow> heap_state \<Rightarrow> (addr \<times> heap_state) option" where
  "allocate_locked os requested_size s =
     (if requested_size = 0 then Some (NULL, s)
      else do {
        let payload_size = payload_size_of requested_size;
        (victim, s) \<leftarrow> (if payload_size \<ge> MMAP_THRESHOLD then alloc_chunk os payload_size s
                         else Some (NULL, s));
        let (victim, s) = (if victim = NULL \<and> payload_size \<le> 16 * FASTBINS_COUNT
                           then fastbin_search s payload_size else (victim, s));
        let (victim, s) = (if victim = NULL \<and> payload_size < 16 * SMALLBINS_COUNT
                           then smallbin_search s payload_size else (victim, s));
        (victim, s) \<leftarrow> (if victim = NULL then unsortedbin_search s payload_size else Some (victim, s));
        (victim, s) \<leftarrow> (if victim = NULL then largebin_search s payload_size else Some (victim, s));
        (victim, s) \<leftarrow> (if victim = NULL then carve_from_top_chunk os s payload_size
                         else Some (victim, s));
        (victim, s) \<leftarrow> (if victim = NULL then do {
                           s \<leftarrow> insert_into_unsortedbin s (top_chunk (arena s));
                           let s = upd_arena (\<lambda>a. a\<lparr>top_chunk := NULL\<rparr>) s;
                           carve_from_top_chunk os s payload_size
                         } else Some (victim, s));
        Some (victim + HEADER_SIZE, s)
      })"

text \<open>\<open>allocate\<close> is \<open>_allocate\<close> with the arena mutex held.\<close>

definition allocate :: "os \<Rightarrow> int \<Rightarrow> heap_state \<Rightarrow> (addr \<times> heap_state) option" where
  "allocate os requested_size s = allocate_locked os requested_size s"

section \<open>Release\<close>

definition forward_coalesce :: "heap_state \<Rightarrow> addr \<Rightarrow> (addr \<times> heap_state) option" where
  "forward_coalesce s fc = do {
     let m = hmem s;
     let next_fc = next_chunk m fc;
     if is_curr_inuse m next_fc \<or> get_size m next_fc \<le> 16 * FASTBINS_COUNT then Some (fc, s)
     else if next_fc = top_chunk (arena s) then do {
       let updated_size = u64 (get_usize m fc + HEADER_SIZE + get_usize m next_fc);
       let m = set_size m fc updated_size (get_size_flags m fc);
       m \<leftarrow> set_prev_size m (next_chunk m fc) updated_size 0;
       Some (NULL, upd_arena (\<lambda>a. a\<lparr>top_chunk := fc\<rparr>) (put_mem m s))
     } else do {
       let m = unlink_chunk_from_fdlist m next_fc;
       let m = unlink_chunk_from_sortedlist m next_fc;
       let updated_size = u64 (get_usize m fc + HEADER_SIZE + get_usize m next_fc);
       let m = set_size m fc updated_size (get_size_flags m fc);
       let next_fc = next_chunk m fc;
       m \<leftarrow> set_prev_size m next_fc updated_size (get_prev_size_flags m next_fc);
       Some (fc, put_mem m s)
     }
   }"

definition backward_coalesce :: "heap_state \<Rightarrow> addr \<Rightarrow> (addr \<times> heap_state) option" where
  "backward_coalesce s fc = do {
     let m = hmem s;
     if is_prev_inuse m fc then Some (fc, s)
     else do {
       let prev_fc = prev_chunk m fc;
       if get_size m prev_fc \<le> 16 then Some (fc, s)
       else do {
         let m = unlink_chunk_from_fdlist m prev_fc;
         let m = unlink_chunk_from_sortedlist m prev_fc;
         let updated_size = u64 (get_usize m prev_fc + HEADER_SIZE + get_usize m fc);
         let m = set_size m prev_fc updated_size (get_size_flags m prev_fc);
         let fc = next_chunk m prev_fc;
         m \<leftarrow> set_prev_size m fc updated_size (get_prev_size_flags m fc);
         Some (prev_fc, put_mem m s)
       }
     }
   }"

definition coalesce :: "heap_state \<Rightarrow> addr \<Rightarrow> (addr \<times> heap_state) option" where
  "coalesce s fc = do {
     (fc, s) \<leftarrow> backward_coalesce s fc;
     forward_coalesce s fc
   }"

definition release_locked :: "os \<Rightarrow> addr \<Rightarrow> heap_state \<Rightarrow> heap_state option" where
  "release_locked os ptr s =
     (if ptr = NULL then Some s
      else do {
        let fc = ptr - HEADER_SIZE;
        let sz = get_usize (hmem s) fc;
        if sz = 0 then None
        else if sz \<ge> MMAP_THRESHOLD then
          Some (s\<lparr>maps := os_munmap os (maps s) fc (u64 (sz + HEADER_SIZE))\<rparr>)
        else if sz \<le> 16 * FASTBINS_COUNT then Some (insert_into_fastbin s fc)
        else do {
          (merged_chunk, s) \<leftarrow> coalesce s fc;
          if merged_chunk \<noteq> NULL then insert_into_unsortedbin s merged_chunk else Some s
        }
      })"

text \<open>\<open>release\<close> is \<open>_release\<close> with the arena mutex held.\<close>

definition release :: "os \<Rightarrow> addr \<Rightarrow> heap_state \<Rightarrow> heap_state option" where
  "release os ptr s = release_locked os ptr s"

section \<open>Creating an arena\<close>

definition init_smallbin :: "addr \<Rightarrow> nat \<Rightarrow> mem \<Rightarrow> mem" where
  "init_smallbin cur i m =
     (let fc = cur + 48 * int i in (set_fdbk_to m fc fc)(fc + 8 := 0))"

definition init_largebin :: "addr \<Rightarrow> nat \<Rightarrow> mem \<Rightarrow> mem" where
  "init_largebin cur i m =
     (let fc = cur + 48 * int i
      in (set_nextprev_sizeptr_to (set_fdbk_to m fc fc) fc fc)(fc + 8 := 0))"

definition arena_create :: "os \<Rightarrow> heap_state \<Rightarrow> heap_state option" where
  "arena_create os s = do {
     let needed = sizeof_arena_t + SMALLBINS_COUNT * sizeof_free_chunk_t +
                  LARGEBINS_COUNT * sizeof_free_chunk_t + sizeof_free_chunk_t;
     let (block, s) = alloc_memory os (align_page os needed) s;
     if block = NULL then None
     else do {
       let cur = block + sizeof_arena_t;
       let m = fold (init_smallbin cur) [0..<32] (hmem s);
       let lcurr = cur + SMALLBINS_COUNT * sizeof_free_chunk_t;
       let m = fold (init_largebin lcurr) [0..<64] m;
       let ufc = lcurr + LARGEBINS_COUNT * sizeof_free_chunk_t;
       let m = (set_fdbk_to m ufc ufc)(ufc + 8 := 0);
       grow_heap os (s\<lparr>hmem := m,
         arena := \<lparr>fastbins = replicate 7 NULL, top_chunk = NULL, unsortedbin = ufc,
                   smallbins = map (\<lambda>i. cur + 48 * int i) [0..<32],
                   largebins = map (\<lambda>i. lcurr + 48 * int i) [0..<64],
                   heap_expo_growth_iters = 0, heap_constant_growth_iters = 0,
                   alloced_heaps = []\<rparr>\<rparr>)
     }
   }"

end
