(* ===== verification/Chunk.thy ===== *)
theory Chunk
  imports Alloc
begin

text \<open>
  Reads of chunk header fields after writes of header and link fields. Every header function
  looks at one cell, so the rules reduce to "same cell or another cell"; the
  \<open>chunk_simps\<close> collection carries them into the arena proofs.
\<close>

section \<open>Which cell a field reads\<close>

lemma get_size_cong: "m' (x + 8) = m (x + 8) \<Longrightarrow> get_size m' x = get_size m x"
  by (simp add: get_size_def)

lemma get_prev_size_cong: "m' x = m x \<Longrightarrow> get_prev_size m' x = get_prev_size m x"
  by (simp add: get_prev_size_def)

lemma is_curr_inuse_cong: "m' (x + 8) = m (x + 8) \<Longrightarrow> is_curr_inuse m' x = is_curr_inuse m x"
  by (simp add: is_curr_inuse_def)

lemma is_prev_inuse_cong: "m' (x + 8) = m (x + 8) \<Longrightarrow> is_prev_inuse m' x = is_prev_inuse m x"
  by (simp add: is_prev_inuse_def)

section \<open>Flag words\<close>

lemma and_not_seven [simp]:
  "((x::int) OR 4) AND - 8 = x AND - 8" "(x OR 1) AND - 8 = x AND - 8" "(x OR 2) AND - 8 = x AND - 8"
  "(x AND - 5) AND - 8 = x AND - 8" "(x AND - 2) AND - 8 = x AND - 8" "(x AND - 3) AND - 8 = x AND - 8"
  by (rule bit_eqI; auto simp: flag_bits)+

lemma flag_reads [simp]:
  "((x::int) OR 4) AND 4 = 4" "(x AND - 5) AND 4 = 0" "(x OR 1) AND 4 = x AND 4" "(x AND - 2) AND 4 = x AND 4"
  "(x OR 1) AND 1 = 1" "(x AND - 2) AND 1 = 0" "(x OR 4) AND 1 = x AND 1" "(x AND - 5) AND 1 = x AND 1"
  by (rule bit_eqI; auto simp: flag_bits)+

lemma get_size_word: "m (x + 8) = w \<Longrightarrow> get_size m x = s64 (w AND - 8)"
  by (simp add: get_size_def)

lemma size_word:
  assumes "0 \<le> v" "v < 2 ^ 62" "v mod 16 = 0" "0 \<le> f" "f < 8"
  shows "u64 v OR u64 f = v + f" and "s64 ((v + f) AND - 8) = v"
    and "(v + f) AND 4 = f AND 4" and "(v + f) AND 1 = f AND 1" and "(v + f) AND 7 = f"
proof -
  have v8: "v mod 8 = 0" using assms(3) by presburger
  have e: "v + f = v OR f" using or_flags [OF v8] assms by simp
  have "u64 v = v" using assms by simp
  moreover have "u64 f = f" using assms by simp
  ultimately show "u64 v OR u64 f = v + f" using e by simp
  have "(v + f) mod 8 = f" using v8 assms by presburger
  then show "s64 ((v + f) AND - 8) = v" and seven: "(v + f) AND 7 = f"
    using assms by (simp_all add: and_m8 and_7_mod)
  have "(v + f) AND 4 = ((v + f) AND 7) AND 4" "(v + f) AND 1 = ((v + f) AND 7) AND 1"
    by (rule bit_eqI; auto simp: flag_bits)+
  then show "(v + f) AND 4 = f AND 4" "(v + f) AND 1 = f AND 1" using seven by simp_all
qed

lemma flags_range: "0 \<le> get_size_flags m x" "get_size_flags m x < 8"
  "0 \<le> get_prev_size_flags m x" "get_prev_size_flags m x < 8"
  by (simp_all add: get_size_flags_def get_prev_size_flags_def and_7_mod)

lemma get_size_range: "- (2 ^ 63) \<le> get_size m x" "get_size m x < 2 ^ 63"
  unfolding get_size_def by (rule s64_range)+

lemma get_usize_eq [simp]: "0 \<le> get_size m x \<Longrightarrow> get_usize m x = get_size m x"
  using get_size_range [of m x] by (simp add: get_usize_def)

section \<open>Setters\<close>

lemma set_size_apply:
  assumes "0 \<le> v" "v < 2 ^ 62" "v mod 16 = 0" "0 \<le> f" "f < 8"
  shows "set_size m p v f = m(p + 8 := v + f)"
  using size_word [OF assms] by (simp add: set_size_def)

lemma set_prev_size_apply:
  assumes "0 < v" "v < 2 ^ 62" "v mod 16 = 0" "0 \<le> f" "f < 8"
  shows "set_prev_size m p v f = Some (m(p := v + f))"
  using size_word [of v f] assms by (simp add: set_prev_size_def)

lemma get_size_set_size [chunk_simps]:
  assumes "0 \<le> v" "v < 2 ^ 62" "v mod 16 = 0" "0 \<le> f" "f < 8"
  shows "get_size (set_size m p v f) x = (if x = p then v else get_size m x)"
  using size_word [OF assms] by (auto simp: set_size_def get_size_def)

lemma is_curr_inuse_set_size [chunk_simps]:
  assumes "0 \<le> v" "v < 2 ^ 62" "v mod 16 = 0" "0 \<le> f" "f < 8"
  shows "is_curr_inuse (set_size m p v f) x = (if x = p then f AND 4 \<noteq> 0 else is_curr_inuse m x)"
  using size_word [OF assms] by (auto simp: set_size_def is_curr_inuse_def)

lemma is_prev_inuse_set_size [chunk_simps]:
  assumes "0 \<le> v" "v < 2 ^ 62" "v mod 16 = 0" "0 \<le> f" "f < 8"
  shows "is_prev_inuse (set_size m p v f) x = (if x = p then f AND 1 \<noteq> 0 else is_prev_inuse m x)"
  using size_word [OF assms] by (auto simp: set_size_def is_prev_inuse_def)

lemma get_size_flag_ops [chunk_simps]:
  "get_size (set_curr_inuse m p) x = get_size m x"
  "get_size (unset_curr_inuse m p) x = get_size m x"
  "get_size (set_prev_inuse m p) x = get_size m x"
  "get_size (unset_prev_inuse m p) x = get_size m x"
  by (simp_all add: get_size_def set_curr_inuse_def unset_curr_inuse_def set_prev_inuse_def
        unset_prev_inuse_def)

lemma is_curr_inuse_flag_ops [chunk_simps]:
  "is_curr_inuse (set_curr_inuse m p) x \<longleftrightarrow> x = p \<or> is_curr_inuse m x"
  "is_curr_inuse (unset_curr_inuse m p) x \<longleftrightarrow> x \<noteq> p \<and> is_curr_inuse m x"
  "is_curr_inuse (set_prev_inuse m p) x \<longleftrightarrow> is_curr_inuse m x"
  "is_curr_inuse (unset_prev_inuse m p) x \<longleftrightarrow> is_curr_inuse m x"
  by (auto simp: is_curr_inuse_def set_curr_inuse_def unset_curr_inuse_def set_prev_inuse_def
        unset_prev_inuse_def)

lemma is_prev_inuse_flag_ops [chunk_simps]:
  "is_prev_inuse (set_curr_inuse m p) x \<longleftrightarrow> is_prev_inuse m x"
  "is_prev_inuse (unset_curr_inuse m p) x \<longleftrightarrow> is_prev_inuse m x"
  "is_prev_inuse (set_prev_inuse m p) x \<longleftrightarrow> x = p \<or> is_prev_inuse m x"
  "is_prev_inuse (unset_prev_inuse m p) x \<longleftrightarrow> x \<noteq> p \<and> is_prev_inuse m x"
  by (auto simp: is_prev_inuse_def set_curr_inuse_def unset_curr_inuse_def set_prev_inuse_def
        unset_prev_inuse_def)

lemma next_chunk_flag_ops [chunk_simps]:
  "next_chunk (set_curr_inuse m p) x = next_chunk m x"
  "next_chunk (unset_curr_inuse m p) x = next_chunk m x"
  "next_chunk (set_prev_inuse m p) x = next_chunk m x"
  "next_chunk (unset_prev_inuse m p) x = next_chunk m x"
  by (simp_all add: next_chunk_def chunk_simps)

lemma flag_ops_other_cell [chunk_simps]:
  "a \<noteq> p + 8 \<Longrightarrow> set_curr_inuse m p a = m a"
  "a \<noteq> p + 8 \<Longrightarrow> unset_curr_inuse m p a = m a"
  "a \<noteq> p + 8 \<Longrightarrow> set_prev_inuse m p a = m a"
  "a \<noteq> p + 8 \<Longrightarrow> unset_prev_inuse m p a = m a"
  "a \<noteq> p + 8 \<Longrightarrow> set_size m p v f a = m a"
  by (simp_all add: set_curr_inuse_def unset_curr_inuse_def set_prev_inuse_def unset_prev_inuse_def
        set_size_def)

lemma get_prev_size_word:
  assumes "m x = v + f" "0 \<le> v" "v < 2 ^ 62" "v mod 16 = 0" "0 \<le> f" "f < 8"
  shows "get_prev_size m x = v"
  using assms size_word(2) [of v f] by (simp add: get_prev_size_def)

section \<open>Requested sizes\<close>

lemma align16_eq: "align16 n = u64 (n + 15) - u64 (n + 15) mod 16"
  by (simp add: align16_def and_m16)

lemma align16_exact:
  assumes "0 \<le> n" "n < 2 ^ 64 - 15"
  shows "align16 n mod 16 = 0" "n \<le> align16 n" "align16 n < n + 16"
proof -
  have e: "align16 n = n + 15 - (n + 15) mod 16" using assms by (simp add: align16_eq)
  show "align16 n mod 16 = 0" unfolding e by presburger
  have "0 \<le> (n + 15) mod 16" "(n + 15) mod 16 < 16" by simp_all
  then show "n \<le> align16 n" "align16 n < n + 16" unfolding e by linarith+
qed

lemma align16_multiple [simp]: "0 \<le> n \<Longrightarrow> n < 2 ^ 64 - 15 \<Longrightarrow> n mod 16 = 0 \<Longrightarrow> align16 n = n"
  using align16_exact [of n] by presburger

lemma payload_size_of_props:
  assumes "0 < n" "n < 2 ^ 62"
  shows "payload_size_of n mod 16 = 0" "n \<le> payload_size_of n" "32 \<le> payload_size_of n"
    "payload_size_of n < n + 48"
  using align16_exact [of n] assms by (auto simp: payload_size_of_def Let_def)

lemma bin_index:
  assumes "16 \<le> n" "n < 2 ^ 34"
  shows "s32 (u64 (drop_bit 4 n - 1)) = n div 16 - 1"
proof -
  have "drop_bit 4 n = n div 16" by (simp add: drop_bit_eq_div)
  moreover have "0 \<le> n div 16 - 1" "n div 16 - 1 < 2 ^ 31" using assms by auto
  ultimately show ?thesis by simp
qed

end
