(* ===== verification/Arena.thy ===== *)
theory Arena
  imports Chunk
begin

text \<open>
  The invariant of an arena. The abstract state of an arena is a \<open>ghost\<close>: the set of chunks
  with their sizes, the heap boundaries, the directly mapped chunks, and the contents of every
  bin as lists. A memory and an arena record implement a ghost when the
  \<^item> ghost itself is well formed (\<open>shape\<close>: chunks do not overlap, they tile, every chunk is in
    exactly one of the classes in use, fast, binned, loose, top),
  \<^item> chunk headers agree with it (\<open>hdr_ok\<close>: sizes, in-use flags, boundary tags), and
  \<^item> links agree with it (\<open>link_ok\<close>: the bins are rings and chains over the ghost's lists).
  The theory shows that every header and list operation of the allocator takes an implemented
  ghost to an implemented ghost.
\<close>

section \<open>The abstract state\<close>

record ghost =
  gC :: "addr set"
  gB :: "addr set"
  gM :: "addr set"
  gU :: "addr set"
  gL :: "addr set"
  gsz :: "addr \<Rightarrow> int"
  gfl :: "nat \<Rightarrow> addr list"
  gbl :: "addr \<Rightarrow> addr list"
  gsl :: "addr \<Rightarrow> addr list"

definition heads :: "arena_t \<Rightarrow> addr set" where
  "heads A = insert (unsortedbin A) (set (smallbins A) \<union> set (largebins A))"

definition gF :: "ghost \<Rightarrow> addr set" where
  "gF G = (\<Union>i\<in>{..<7}. set (gfl G i))"

definition gD :: "arena_t \<Rightarrow> ghost \<Rightarrow> addr set" where
  "gD A G = (\<Union>h\<in>heads A. set (gbl G h))"

definition gT :: "arena_t \<Rightarrow> addr set" where
  "gT A = {top_chunk A} - {0}"

definition objs :: "arena_t \<Rightarrow> ghost \<Rightarrow> addr set" where
  "objs A G = gC G \<union> gB G \<union> gM G \<union> heads A"

definition gext :: "ghost \<Rightarrow> addr \<Rightarrow> int" where
  "gext G x = (if x \<in> gC G \<union> gM G then 16 + gsz G x else 48)"

definition gnext :: "ghost \<Rightarrow> addr \<Rightarrow> addr" where
  "gnext G x = x + 16 + gsz G x"

section \<open>Well-formed ghosts\<close>

definition bins_ok :: "arena_t \<Rightarrow> bool" where
  "bins_ok A \<longleftrightarrow> length (fastbins A) = 7 \<and> length (smallbins A) = 32 \<and> length (largebins A) = 64 \<and>
     distinct (unsortedbin A # smallbins A @ largebins A)"

definition kinds_ok :: "arena_t \<Rightarrow> ghost \<Rightarrow> bool" where
  "kinds_ok A G \<longleftrightarrow> gC G \<inter> gB G = {} \<and> gC G \<inter> gM G = {} \<and> gB G \<inter> gM G = {} \<and>
     heads A \<inter> (gC G \<union> gB G \<union> gM G) = {}"

definition part_ok :: "arena_t \<Rightarrow> ghost \<Rightarrow> bool" where
  "part_ok A G \<longleftrightarrow> gC G = gU G \<union> gL G \<union> gF G \<union> gD A G \<union> gT A \<and>
     gU G \<inter> (gL G \<union> gF G \<union> gD A G \<union> gT A) = {} \<and> gL G \<inter> (gF G \<union> gD A G \<union> gT A) = {} \<and>
     gF G \<inter> (gD A G \<union> gT A) = {} \<and> gD A G \<inter> gT A = {}"

definition lists_ok :: "arena_t \<Rightarrow> ghost \<Rightarrow> bool" where
  "lists_ok A G \<longleftrightarrow>
     (\<forall>i<7. distinct (gfl G i)) \<and> (\<forall>i<7. \<forall>j<7. i \<noteq> j \<longrightarrow> set (gfl G i) \<inter> set (gfl G j) = {}) \<and>
     (\<forall>h\<in>heads A. distinct (gbl G h)) \<and>
     (\<forall>h\<in>heads A. \<forall>k\<in>heads A. h \<noteq> k \<longrightarrow> set (gbl G h) \<inter> set (gbl G k) = {}) \<and>
     (\<forall>h\<in>set (largebins A). distinct (gsl G h) \<and> set (gsl G h) = set (gbl G h) \<and>
        sorted (map (gsz G) (gsl G h)))"

definition layout_ok :: "arena_t \<Rightarrow> ghost \<Rightarrow> bool" where
  "layout_ok A G \<longleftrightarrow>
     (\<forall>x\<in>objs A G. \<forall>y\<in>objs A G. x < y \<longrightarrow> x + gext G x \<le> y) \<and>
     (\<forall>x\<in>objs A G. 0 < x \<and> x + gext G x < 2 ^ 62) \<and>
     (\<forall>x\<in>gC G. 32 \<le> gsz G x \<and> gsz G x mod 16 = 0 \<and> x mod 16 = 0 \<and> gnext G x \<in> gC G \<union> gB G) \<and>
     (\<forall>x\<in>gM G. 131072 \<le> gsz G x \<and> gsz G x mod 16 = 0 \<and> x mod 16 = 0)"

definition class_ok :: "arena_t \<Rightarrow> ghost \<Rightarrow> bool" where
  "class_ok A G \<longleftrightarrow> (\<forall>i<7. \<forall>x\<in>set (gfl G i). gsz G x = 16 * (int i + 1)) \<and>
     (\<forall>i<32. \<forall>x\<in>set (gbl G (smallbins A ! i)). gsz G x = 16 * (int i + 1))"

definition shape :: "arena_t \<Rightarrow> ghost \<Rightarrow> bool" where
  "shape A G \<longleftrightarrow> bins_ok A \<and> kinds_ok A G \<and> part_ok A G \<and> lists_ok A G \<and> layout_ok A G \<and> class_ok A G"

lemma shapeD:
  assumes "shape A G"
  shows "bins_ok A" "kinds_ok A G" "part_ok A G" "lists_ok A G" "layout_ok A G" "class_ok A G"
  using assms by (simp_all add: shape_def)

lemma bin_unique:
  "lists_ok A G \<Longrightarrow> h \<in> heads A \<Longrightarrow> k \<in> heads A \<Longrightarrow> x \<in> set (gbl G h) \<Longrightarrow> x \<in> set (gbl G k) \<Longrightarrow> h = k"
  unfolding lists_ok_def by (metis disjoint_iff)

lemma bin_distinct: "lists_ok A G \<Longrightarrow> h \<in> heads A \<Longrightarrow> distinct (gbl G h)"
  by (simp add: lists_ok_def)

lemma fast_unique:
  "lists_ok A G \<Longrightarrow> i < 7 \<Longrightarrow> j < 7 \<Longrightarrow> x \<in> set (gfl G i) \<Longrightarrow> x \<in> set (gfl G j) \<Longrightarrow> i = j"
  unfolding lists_ok_def by (metis disjoint_iff)

lemma fast_distinct: "lists_ok A G \<Longrightarrow> i < 7 \<Longrightarrow> distinct (gfl G i)"
  by (simp add: lists_ok_def)

lemma lists_sorted:
  "lists_ok A G \<Longrightarrow> h \<in> set (largebins A) \<Longrightarrow>
     distinct (gsl G h) \<and> set (gsl G h) = set (gbl G h) \<and> sorted (map (gsz G) (gsl G h))"
  by (simp add: lists_ok_def)

lemma lists_okI:
  assumes "\<And>i. i < 7 \<Longrightarrow> distinct (gfl G i)"
    and "\<And>i j x. i < 7 \<Longrightarrow> j < 7 \<Longrightarrow> x \<in> set (gfl G i) \<Longrightarrow> x \<in> set (gfl G j) \<Longrightarrow> i = j"
    and "\<And>h. h \<in> heads A \<Longrightarrow> distinct (gbl G h)"
    and "\<And>h k x. h \<in> heads A \<Longrightarrow> k \<in> heads A \<Longrightarrow> x \<in> set (gbl G h) \<Longrightarrow> x \<in> set (gbl G k) \<Longrightarrow> h = k"
    and "\<And>h. h \<in> set (largebins A) \<Longrightarrow>
      distinct (gsl G h) \<and> set (gsl G h) = set (gbl G h) \<and> sorted (map (gsz G) (gsl G h))"
  shows "lists_ok A G"
  unfolding lists_ok_def
  using assms(1,3,5) assms(2) assms(4) by (simp add: disjoint_iff) blast

section \<open>Memory implementing a ghost\<close>

text \<open>
  \<open>X\<close> is the set of chunks whose size field is stale, which happens inside a split only.
\<close>

definition hdr_ok :: "mem \<Rightarrow> arena_t \<Rightarrow> ghost \<Rightarrow> addr set \<Rightarrow> bool" where
  "hdr_ok m A G X \<longleftrightarrow>
     (\<forall>x\<in>gC G \<union> gM G. x \<notin> X \<longrightarrow> get_size m x = gsz G x) \<and>
     (\<forall>x\<in>gB G. is_curr_inuse m x) \<and>
     (\<forall>x\<in>gU G. x \<notin> X \<longrightarrow> is_curr_inuse m x) \<and>
     (\<forall>x\<in>gD A G \<union> gF G. \<not> is_curr_inuse m x) \<and>
     (\<forall>x\<in>gC G. \<not> is_prev_inuse m x \<longrightarrow>
        (\<exists>c\<in>gD A G \<union> gL G. gnext G c = x \<and> get_prev_size m x = gsz G c))"

fun chain :: "mem \<Rightarrow> addr \<Rightarrow> addr list \<Rightarrow> bool" where
  "chain m p [] \<longleftrightarrow> p = 0"
| "chain m p (x # xs) \<longleftrightarrow> p = x \<and> chain m (m (x + 16)) xs"

definition link_ok :: "mem \<Rightarrow> arena_t \<Rightarrow> ghost \<Rightarrow> bool" where
  "link_ok m A G \<longleftrightarrow>
     (\<forall>i<7. chain m (fastbins A ! i) (gfl G i)) \<and>
     (\<forall>h\<in>heads A. ring m 16 24 h (gbl G h)) \<and>
     (\<forall>h\<in>set (largebins A). ring m 32 40 h (gsl G h)) \<and>
     (\<forall>h\<in>heads A - set (largebins A). \<forall>x\<in>set (gbl G h). m (x + 32) = 0 \<and> m (x + 40) = 0)"

definition minv :: "mem \<Rightarrow> arena_t \<Rightarrow> ghost \<Rightarrow> addr set \<Rightarrow> bool" where
  "minv m A G X \<longleftrightarrow> shape A G \<and> hdr_ok m A G X \<and> link_ok m A G"

lemma minvD:
  assumes "minv m A G X"
  shows "shape A G" "hdr_ok m A G X" "link_ok m A G"
  using assms by (simp_all add: minv_def)

section \<open>Separation\<close>

lemma shape_gext:
  assumes "shape A G" "x \<in> objs A G"
  shows "48 \<le> gext G x"
proof -
  have l: "layout_ok A G" using shapeD [OF assms(1)] by blast
  show ?thesis
  proof (cases "x \<in> gC G \<union> gM G")
    case True
    then show ?thesis using l unfolding gext_def layout_ok_def by force
  qed (simp add: gext_def)
qed

lemma shape_spaced:
  assumes "shape A G"
  shows "spaced 48 (objs A G)"
  unfolding spaced_def
proof (intro ballI impI)
  fix p q assume "p \<in> objs A G" "q \<in> objs A G" "p < q"
  then have "p + gext G p \<le> q" "48 \<le> gext G p"
    using shapeD(5) [OF assms] shape_gext [OF assms] by (auto simp: layout_ok_def)
  then show "p + 48 \<le> q" by linarith
qed

lemma shape_pos:
  assumes "shape A G" "x \<in> objs A G"
  shows "0 < x"
  using shapeD(5) [OF assms(1)] assms(2) by (simp add: layout_ok_def)

text \<open>\<open>changes_in m m' W K\<close>: \<open>m'\<close> differs from \<open>m\<close> only in fields \<open>K\<close> of objects \<open>W\<close>.\<close>

definition changes_in :: "mem \<Rightarrow> mem \<Rightarrow> addr set \<Rightarrow> int set \<Rightarrow> bool" where
  "changes_in m m' W K \<longleftrightarrow> (\<forall>a. m' a \<noteq> m a \<longrightarrow> (\<exists>x\<in>W. \<exists>k\<in>K. a = x + k))"

lemma changes_in_refl [simp]: "changes_in m m W K"
  by (simp add: changes_in_def)

lemma changes_in_upd: "changes_in m m' W K \<Longrightarrow> x \<in> W \<Longrightarrow> k \<in> K \<Longrightarrow> changes_in m (m'(x + k := v)) W K"
  by (auto simp: changes_in_def)

lemma changes_in_mono: "changes_in m m' W K \<Longrightarrow> W \<subseteq> W' \<Longrightarrow> K \<subseteq> K' \<Longrightarrow> changes_in m m' W' K'"
  by (fastforce simp: changes_in_def)

lemma changes_in_trans:
  "changes_in m m' W K \<Longrightarrow> changes_in m' m'' W K \<Longrightarrow> changes_in m m'' W K"
  unfolding changes_in_def by metis

lemma changes_in_cell:
  assumes "changes_in m m' W K" "spaced 48 O'" "W \<subseteq> O'" "y \<in> O'" "K \<subseteq> {0..<48}" "0 \<le> j" "j < 48"
    and "y \<notin> W \<or> j \<notin> K"
  shows "m' (y + j) = m (y + j)"
proof (rule ccontr)
  assume "m' (y + j) \<noteq> m (y + j)"
  then obtain x k where xk: "x \<in> W" "k \<in> K" "y + j = x + k"
    using assms(1) by (auto simp: changes_in_def)
  then have "x \<in> O'" "0 \<le> k" "k < 48" using assms(3,5) by auto
  then have "y = x \<and> j = k"
    using spaced_cell [OF assms(2,4), of x j k] xk(3) assms(6,7) by simp
  then show False using xk assms(8) by simp
qed

definition payload :: "ghost \<Rightarrow> addr \<Rightarrow> addr set" where
  "payload G u = {u + 16 ..< u + 16 + gsz G u}"

lemma cell_not_in_payload:
  assumes "shape A G" "x \<in> objs A G" "u \<in> gC G \<union> gM G" "0 \<le> k" "k < 48" "x \<noteq> u \<or> k < 16"
  shows "x + k \<notin> payload G u"
proof (cases "x = u")
  case True
  then show ?thesis using assms by (auto simp: payload_def)
next
  case False
  have u: "u \<in> objs A G" using assms(3) by (auto simp: objs_def)
  have lay: "\<forall>x\<in>objs A G. \<forall>y\<in>objs A G. x < y \<longrightarrow> x + gext G x \<le> y"
    using shapeD(5) [OF assms(1)] by (simp add: layout_ok_def)
  have eu: "gext G u = 16 + gsz G u" using assms(3) by (auto simp: gext_def)
  have ex: "48 \<le> gext G x" using shape_gext [OF assms(1,2)] .
  from False consider "x < u" | "u < x" by linarith
  then show ?thesis
  proof cases
    case 1
    then have "x + gext G x \<le> u" using lay assms(2) u by blast
    then show ?thesis using ex assms by (auto simp: payload_def)
  next
    case 2
    then have "u + gext G u \<le> x" using lay assms(2) u by blast
    then show ?thesis using eu assms by (auto simp: payload_def)
  qed
qed

lemma changes_in_payload:
  assumes "changes_in m m' W K" "shape A G" "W \<subseteq> objs A G" "K \<subseteq> {0..<48}"
    and "u \<in> gC G \<union> gM G" "u \<notin> W \<or> K \<subseteq> {0..<16}" "a \<in> payload G u"
  shows "m' a = m a"
proof (rule ccontr)
  assume "m' a \<noteq> m a"
  then obtain x k where xk: "x \<in> W" "k \<in> K" "a = x + k"
    using assms(1) by (auto simp: changes_in_def)
  have "x + k \<notin> payload G u"
    using xk assms(3,4,6) by (intro cell_not_in_payload [OF assms(2) _ assms(5)]) auto
  then show False using xk assms(7) by simp
qed

section \<open>Frames\<close>

lemma hdr_ok_cong:
  assumes "\<And>x. x \<in> objs A G \<Longrightarrow> m' x = m x" "\<And>x. x \<in> objs A G \<Longrightarrow> m' (x + 8) = m (x + 8)"
    and sub: "gU G \<union> gD A G \<union> gF G \<subseteq> gC G"
  shows "hdr_ok m' A G X = hdr_ok m A G X"
proof -
  have O: "x \<in> gC G \<or> x \<in> gM G \<or> x \<in> gB G \<or> x \<in> gU G \<or> x \<in> gD A G \<or> x \<in> gF G \<Longrightarrow> x \<in> objs A G" for x
    using sub by (auto simp: objs_def)
  have eq: "get_size m' x = get_size m x" "is_curr_inuse m' x = is_curr_inuse m x"
    "is_prev_inuse m' x = is_prev_inuse m x" "get_prev_size m' x = get_prev_size m x"
    if "x \<in> gC G \<or> x \<in> gM G \<or> x \<in> gB G \<or> x \<in> gU G \<or> x \<in> gD A G \<or> x \<in> gF G" for x
    using assms(1,2) [OF O [OF that]]
    by (simp_all cong: get_size_cong is_curr_inuse_cong is_prev_inuse_cong get_prev_size_cong
          add: get_size_def is_curr_inuse_def is_prev_inuse_def get_prev_size_def)
  show ?thesis unfolding hdr_ok_def ball_Un using eq by (simp cong: ball_cong)
qed

lemma part_sub:
  assumes "shape A G"
  shows "gU G \<union> gD A G \<union> gF G \<subseteq> gC G" "gL G \<subseteq> gC G" "gT A \<subseteq> gC G"
  using shapeD(3) [OF assms] by (auto simp: part_ok_def)

lemma objs_D: "h \<in> heads A \<Longrightarrow> x \<in> set (gbl G h) \<Longrightarrow> shape A G \<Longrightarrow> x \<in> objs A G"
  using part_sub by (fastforce simp: gD_def objs_def)

lemma hdr_ok_links:
  assumes "shape A G" "changes_in m m' W {16, 24, 32, 40}" "W \<subseteq> objs A G"
  shows "hdr_ok m' A G X = hdr_ok m A G X"
proof (rule hdr_ok_cong)
  note cell = changes_in_cell [OF assms(2) shape_spaced [OF assms(1)] assms(3)]
  show "m' x = m x" if "x \<in> objs A G" for x using cell [OF that, of 0] by auto
  show "m' (x + 8) = m (x + 8)" if "x \<in> objs A G" for x using cell [OF that, of 8] by auto
qed (rule part_sub [OF assms(1)])

lemma chain_cong: "(\<And>x. x \<in> set xs \<Longrightarrow> m' (x + 16) = m (x + 16)) \<Longrightarrow> chain m' p xs = chain m p xs"
  by (induction xs arbitrary: p) auto

lemma link_ok_cong:
  assumes "\<And>x k. x \<in> heads A \<union> gD A G \<union> gF G \<Longrightarrow> k \<in> {16, 24, 32, 40} \<Longrightarrow> m' (x + k) = m (x + k)"
    and ls: "lists_ok A G"
  shows "link_ok m' A G = link_ok m A G"
proof -
  have c: "chain m' p (gfl G i) = chain m p (gfl G i)" if "i < 7" for i p
    using that assms(1) by (intro chain_cong) (auto simp: gF_def)
  have r: "ring m' 16 24 h (gbl G h) = ring m 16 24 h (gbl G h)" if "h \<in> heads A" for h
    using that assms(1) by (intro ring_cong) (auto simp: gD_def)
  have lh: "h \<in> heads A" if "h \<in> set (largebins A)" for h using that by (simp add: heads_def)
  have s: "ring m' 32 40 h (gsl G h) = ring m 32 40 h (gsl G h)" if "h \<in> set (largebins A)" for h
    using that lh ls assms(1) by (intro ring_cong) (auto simp: gD_def lists_ok_def)
  have z: "(\<forall>h\<in>heads A - set (largebins A). \<forall>x\<in>set (gbl G h). m' (x + 32) = 0 \<and> m' (x + 40) = 0) =
    (\<forall>h\<in>heads A - set (largebins A). \<forall>x\<in>set (gbl G h). m (x + 32) = 0 \<and> m (x + 40) = 0)"
  proof (intro ball_cong refl)
    fix h x assume "h \<in> heads A - set (largebins A)" "x \<in> set (gbl G h)"
    then have "x \<in> gD A G" by (auto simp: gD_def)
    then show "(m' (x + 32) = 0 \<and> m' (x + 40) = 0) = (m (x + 32) = 0 \<and> m (x + 40) = 0)"
      using assms(1) by simp
  qed
  show ?thesis unfolding link_ok_def z using c r s by simp
qed

lemma link_ok_headers:
  assumes "shape A G" "changes_in m m' W {0, 8}" "W \<subseteq> objs A G"
  shows "link_ok m' A G = link_ok m A G"
proof (rule link_ok_cong)
  fix x k assume "x \<in> heads A \<union> gD A G \<union> gF G" "k \<in> {16, 24, 32, 40::int}"
  then show "m' (x + k) = m (x + k)"
    using part_sub [OF assms(1)]
    by (intro changes_in_cell [OF assms(2) shape_spaced [OF assms(1)] assms(3)]) (auto simp: objs_def)
qed (rule shapeD [OF assms(1)])

end
