(* ===== verification/ArenaLists.thy ===== *)
theory ArenaLists
  imports Arena
begin

text \<open>
  Taking chunks out of bins and putting them into bins: the pointer surgery of
  \<open>unlink_chunk_from_fdlist\<close>, \<open>unlink_chunk_from_sortedlist\<close>, \<open>insert_into_fdlist\<close> and
  \<open>insert_into_largebin\<close> refines removal from and insertion into the ghost's lists.
\<close>

section \<open>The C list operations as ring operations\<close>

lemma unlink_fdlist_eq:
  assumes sp: "spaced 48 S" and S: "{c, h} \<union> set xs \<union> set ys \<subseteq> S" and pos: "\<And>x. x \<in> S \<Longrightarrow> 0 < x"
    and d: "distinct (h # xs @ c # ys)" and r: "ring m 16 24 h (xs @ c # ys)"
  shows "unlink_chunk_from_fdlist m c = unlink_node m 16 24 c"
proof -
  note nb = ring_neighbours [OF r]
  have p: "last (h # xs) \<in> S" "last (h # xs) \<noteq> c" and q: "hd (ys @ [h]) \<in> S" "hd (ys @ [h]) \<noteq> c"
    using S d by (cases xs rule: rev_cases; cases ys; auto)+
  have c: "c \<in> S" using S by simp
  have ne: "m (c + 16) + 24 \<noteq> c + 24" "m (c + 16) + 24 \<noteq> c + 16"
    using spaced_cell [OF sp q(1) c, of 24 16] q nb by auto
  show ?thesis
    using ne pos [OF p(1)] pos [OF q(1)] nb
    by (simp add: unlink_chunk_from_fdlist_def unlink_node_def Let_def)
qed

lemma unlink_sortedlist_eq:
  assumes sp: "spaced 48 S" and S: "{c, h} \<union> set xs \<union> set ys \<subseteq> S" and pos: "\<And>x. x \<in> S \<Longrightarrow> 0 < x"
    and d: "distinct (h # xs @ c # ys)" and r: "ring m 32 40 h (xs @ c # ys)"
  shows "unlink_chunk_from_sortedlist m c = unlink_node m 32 40 c"
proof -
  note nb = ring_neighbours [OF r]
  have p: "last (h # xs) \<in> S" "last (h # xs) \<noteq> c" and q: "hd (ys @ [h]) \<in> S" "hd (ys @ [h]) \<noteq> c"
    using S d by (cases xs rule: rev_cases; cases ys; auto)+
  have c: "c \<in> S" using S by simp
  have ne: "m (c + 40) + 32 \<noteq> c + 32" "m (c + 40) + 32 \<noteq> c + 40"
    using spaced_cell [OF sp p(1) c, of 32 40] p nb by auto
  have ne2: "m (c + 40) + 32 \<noteq> m (c + 32) + 40"
    using spaced_cell [OF sp p(1) q(1), of 32 40] nb by auto
  show ?thesis
    using ne ne2 pos [OF p(1)] pos [OF q(1)] nb
    by (simp add: unlink_chunk_from_sortedlist_def unlink_node_def Let_def fun_upd_twist)
qed

lemma insert_fdlist_eq:
  assumes sp: "spaced 48 S" and S: "{c, h} \<union> set ys \<subseteq> S"
    and c: "c \<notin> set (h # ys)" and r: "ring m 16 24 h ys"
  shows "insert_into_fdlist m h c = link_between m 16 24 h c (hd (ys @ [h]))"
proof -
  have f: "m (h + 16) = hd (ys @ [h])" using ring_first [OF r] .
  have "h + 16 \<noteq> c + 16" "h + 16 \<noteq> c + 24"
    using spaced_cell [OF sp, of h c 16 24] S c by auto
  then show ?thesis by (simp add: insert_into_fdlist_def link_between_def Let_def f)
qed

lemma unlink_node_changes:
  assumes r: "ring m f b h (xs @ c # ys)"
  shows "changes_in m (unlink_node m f b c) ({c, h} \<union> set xs \<union> set ys) {f, b}"
proof -
  let ?W = "{c, h} \<union> set xs \<union> set ys"
  have pq: "last (h # xs) \<in> ?W" "hd (ys @ [h]) \<in> ?W"
    by (cases xs rule: rev_cases; simp) (cases ys; simp)
  show ?thesis unfolding unlink_node_def using pq ring_neighbours [OF r]
    by (intro changes_in_upd changes_in_refl) auto
qed

lemma link_between_changes:
  assumes "p \<in> W" "x \<in> W" "q \<in> W"
  shows "changes_in m (link_between m f b p x q) W {f, b}"
  unfolding link_between_def using assms by (intro changes_in_upd changes_in_refl) auto

section \<open>Removal\<close>

definition g_unlink :: "addr \<Rightarrow> addr \<Rightarrow> ghost \<Rightarrow> ghost" where
  "g_unlink h c G = G\<lparr>gbl := (gbl G)(h := remove1 c (gbl G h)),
     gsl := (gsl G)(h := remove1 c (gsl G h)), gL := insert c (gL G)\<rparr>"

lemma g_unlink_simps [simp]:
  "gC (g_unlink h c G) = gC G" "gB (g_unlink h c G) = gB G" "gM (g_unlink h c G) = gM G"
  "gU (g_unlink h c G) = gU G" "gsz (g_unlink h c G) = gsz G" "gfl (g_unlink h c G) = gfl G"
  "gL (g_unlink h c G) = insert c (gL G)" "gF (g_unlink h c G) = gF G"
  "objs A (g_unlink h c G) = objs A G" "gext (g_unlink h c G) = gext G"
  "gnext (g_unlink h c G) = gnext G" "payload (g_unlink h c G) = payload G"
  by (simp_all add: g_unlink_def gF_def objs_def gext_def gnext_def payload_def fun_eq_iff)

lemma gbl_unlink: "gbl (g_unlink h c G) k = (if k = h then remove1 c (gbl G h) else gbl G k)"
  and gsl_unlink: "gsl (g_unlink h c G) k = (if k = h then remove1 c (gsl G h) else gsl G k)"
  by (simp_all add: g_unlink_def)

lemma gD_unlink:
  assumes "lists_ok A G" "h \<in> heads A" "c \<in> set (gbl G h)"
  shows "gD A (g_unlink h c G) = gD A G - {c}"
proof -
  have "set (gbl (g_unlink h c G) k) = set (gbl G k) - {c}" if "k \<in> heads A" for k
    using bin_distinct [OF assms(1,2)] bin_unique [OF assms(1,2) that assms(3)]
    by (auto simp: gbl_unlink)
  then show ?thesis by (auto simp: gD_def)
qed

lemma shape_unlink:
  assumes s: "shape A G" and h: "h \<in> heads A" and c: "c \<in> set (gbl G h)"
  shows "shape A (g_unlink h c G)"
proof -
  note sh = shapeD [OF s]
  note D = gD_unlink [OF sh(4) h c]
  have cD: "c \<in> gD A G" using h c by (auto simp: gD_def)
  have "part_ok A (g_unlink h c G)" using sh(3) cD by (auto simp: part_ok_def D)
  moreover have "kinds_ok A (g_unlink h c G)" using sh(2) by (simp add: kinds_ok_def)
  moreover have "lists_ok A (g_unlink h c G)"
  proof -
    have nc: "c \<notin> set (gbl G k)" if "k \<in> heads A" "k \<noteq> h" for k
      using bin_unique [OF sh(4) h that(1) c] that(2) by blast
    have b: "set (gbl (g_unlink h c G) k) = set (gbl G k) - {c}" "distinct (gbl (g_unlink h c G) k)"
      if "k \<in> heads A" for k
      using bin_distinct [OF sh(4) that] nc [OF that] by (cases "k = h"; simp add: gbl_unlink)+
    have "set (gsl (g_unlink h c G) k) = set (gsl G k) - {c}" "distinct (gsl (g_unlink h c G) k)"
      "sorted (map (gsz G) (gsl (g_unlink h c G) k))" if "k \<in> set (largebins A)" for k
    proof -
      have k: "k \<in> heads A" "distinct (gsl G k)" "set (gsl G k) = set (gbl G k)"
        "sorted (map (gsz G) (gsl G k))"
        using sh(4) that by (auto simp: lists_ok_def heads_def)
      show "set (gsl (g_unlink h c G) k) = set (gsl G k) - {c}"
        using k nc [OF k(1)] by (cases "k = h") (simp_all add: gsl_unlink)
      show "distinct (gsl (g_unlink h c G) k)" using k by (cases "k = h") (simp_all add: gsl_unlink)
      show "sorted (map (gsz G) (gsl (g_unlink h c G) k))"
        using k by (cases "k = h") (simp_all add: gsl_unlink sorted_map_remove1)
    qed
    note srt = this
    show ?thesis
    proof (rule lists_okI)
      show "distinct (gfl (g_unlink h c G) i)" if "i < 7" for i
        using fast_distinct [OF sh(4) that] by simp
      show "i = j" if "i < 7" "j < 7" "x \<in> set (gfl (g_unlink h c G) i)" "x \<in> set (gfl (g_unlink h c G) j)"
        for i j x using fast_unique [OF sh(4) that(1,2)] that(3,4) by simp
      show "distinct (gbl (g_unlink h c G) k)" if "k \<in> heads A" for k by (rule b(2) [OF that])
      show "k = l" if "k \<in> heads A" "l \<in> heads A" "x \<in> set (gbl (g_unlink h c G) k)"
        "x \<in> set (gbl (g_unlink h c G) l)" for k l x
        using that b(1) [OF that(1)] b(1) [OF that(2)] bin_unique [OF sh(4) that(1,2)] by blast
      show "distinct (gsl (g_unlink h c G) k) \<and> set (gsl (g_unlink h c G) k) = set (gbl (g_unlink h c G) k) \<and>
        sorted (map (gsz (g_unlink h c G)) (gsl (g_unlink h c G) k))" if "k \<in> set (largebins A)" for k
        using srt [OF that] b(1) [of k] lists_sorted [OF sh(4) that] that by (simp add: heads_def)
    qed
  qed
  moreover have "layout_ok A (g_unlink h c G)" using sh(5) by (simp add: layout_ok_def)
  moreover have "class_ok A (g_unlink h c G)"
    using sh(6) by (auto simp: class_ok_def gbl_unlink dest!: subsetD [OF set_remove1_subset] split: if_splits)
  ultimately show ?thesis using sh(1) by (simp add: shape_def)
qed

lemma hdr_unlink:
  assumes "lists_ok A G" "h \<in> heads A" "c \<in> set (gbl G h)" "hdr_ok m A G X"
  shows "hdr_ok m A (g_unlink h c G) X"
proof -
  have "gD A (g_unlink h c G) \<union> insert c (gL G) = gD A G \<union> gL G"
    using gD_unlink [OF assms(1-3)] assms(2,3) by (auto simp: gD_def)
  then show ?thesis
    using assms(4) gD_unlink [OF assms(1-3)] unfolding hdr_ok_def by (auto simp del: Un_insert_right)
qed

text \<open>Link fields outside the ring being changed keep their values.\<close>

lemma bin_disjoint:
  assumes "shape A G" "h \<in> heads A" "k \<in> heads A" "h \<noteq> k" "x = k \<or> x \<in> set (gbl G k)"
  shows "x \<notin> insert h (set (gbl G h))"
proof -
  have "set (gbl G h) \<inter> set (gbl G k) = {}"
    using shapeD(4) [OF assms(1)] assms by (auto simp: lists_ok_def)
  moreover have "k \<notin> gC G" "h \<notin> gC G"
    using shapeD(2) [OF assms(1)] assms by (auto simp: kinds_ok_def)
  moreover have "set (gbl G h) \<subseteq> gC G" "set (gbl G k) \<subseteq> gC G"
    using part_sub(1) [OF assms(1)] assms by (auto simp: gD_def)
  ultimately show ?thesis using assms by auto
qed

lemma ring_objs:
  assumes "shape A G" "h \<in> heads A"
  shows "insert h (set (gbl G h)) \<subseteq> objs A G" "distinct (h # gbl G h)"
proof -
  show "insert h (set (gbl G h)) \<subseteq> objs A G"
    using objs_D [OF assms(2) _ assms(1)] assms(2) by (auto simp: objs_def)
  have "set (gbl G h) \<subseteq> gC G" using part_sub(1) [OF assms(1)] assms by (auto simp: gD_def)
  then show "distinct (h # gbl G h)"
    using shapeD(2,4) [OF assms(1)] assms by (auto simp: kinds_ok_def lists_ok_def)
qed

lemma ring_sorted_objs:
  assumes "shape A G" "h \<in> set (largebins A)"
  shows "h \<in> heads A" "distinct (h # gsl G h)" "set (gsl G h) = set (gbl G h)"
  using ring_objs [OF assms(1), of h] shapeD(4) [OF assms(1)] assms(2)
  by (auto simp: heads_def lists_ok_def)

lemma in_heads_large: "h \<in> set (largebins A) \<Longrightarrow> h \<in> heads A"
  by (simp add: heads_def)

text \<open>
  The links of every bin but \<open>h\<close>, and of the fast bins, survive changes of the link fields of
  \<open>h\<close>'s ring and of chunks outside all bins.
\<close>

lemma link_others:
  assumes s: "shape A G" and ch: "changes_in m m' W K" and K: "K \<subseteq> {16, 24, 32, 40}"
    and W: "W \<subseteq> objs A G" "W \<inter> (gD A G \<union> heads A \<union> gF G) \<subseteq> insert h (set (gbl G h))"
    and h: "h \<in> heads A" and l: "link_ok m A G"
  shows "i < 7 \<Longrightarrow> chain m' (fastbins A ! i) (gfl G i)"
    and "k \<in> heads A \<Longrightarrow> k \<noteq> h \<Longrightarrow> ring m' 16 24 k (gbl G k)"
    and "k \<in> set (largebins A) \<Longrightarrow> k \<noteq> h \<Longrightarrow> ring m' 32 40 k (gsl G k)"
    and "k \<in> heads A - set (largebins A) \<Longrightarrow> k \<noteq> h \<Longrightarrow> x \<in> set (gbl G k) \<Longrightarrow> m' (x + 32) = 0 \<and> m' (x + 40) = 0"
    and "K \<subseteq> {16, 24} \<Longrightarrow> h \<in> set (largebins A) \<Longrightarrow> ring m' 32 40 h (gsl G h)"
    and "K \<subseteq> {32, 40} \<Longrightarrow> ring m' 16 24 h (gbl G h)"
proof -
  have K48: "K \<subseteq> {0..<48}" using K by auto
  note cell = changes_in_cell [OF ch shape_spaced [OF s] W(1) _ K48]
  have outside: "x \<notin> W" if "k \<in> heads A" "k \<noteq> h" "x = k \<or> x \<in> set (gbl G k)" for k x
    using bin_disjoint [OF s h that(1) that(2) [symmetric] that(3)] W(2) that h by (auto simp: gD_def)
  have fast: "x \<notin> W" if "x \<in> gF G" for x
  proof -
    have "x \<notin> gD A G" "x \<in> gC G" using shapeD(3) [OF s] that by (auto simp: part_ok_def)
    then have "x \<notin> insert h (set (gbl G h))"
      using h shapeD(2) [OF s] by (auto simp: gD_def kinds_ok_def)
    then show ?thesis using W(2) that by auto
  qed
  show "chain m' (fastbins A ! i) (gfl G i)" if "i < 7"
  proof -
    have "chain m' (fastbins A ! i) (gfl G i) = chain m (fastbins A ! i) (gfl G i)"
    proof (rule chain_cong)
      fix x assume "x \<in> set (gfl G i)"
      then have "x \<in> gF G" using that by (auto simp: gF_def)
      then show "m' (x + 16) = m (x + 16)"
        using fast part_sub(1) [OF s] by (intro cell) (auto simp: objs_def)
    qed
    then show ?thesis using l that by (simp add: link_ok_def)
  qed
  show "ring m' 16 24 k (gbl G k)" if k: "k \<in> heads A" "k \<noteq> h"
  proof -
    have "ring m' 16 24 k (gbl G k) = ring m 16 24 k (gbl G k)"
      using ring_objs(1) [OF s k(1)] outside [OF k] by (intro ring_cong; intro cell; auto)
    then show ?thesis using l k by (simp add: link_ok_def)
  qed
  show "ring m' 32 40 k (gsl G k)" if k: "k \<in> set (largebins A)" "k \<noteq> h"
  proof -
    have "ring m' 32 40 k (gsl G k) = ring m 32 40 k (gsl G k)"
      using ring_objs(1) [OF s in_heads_large [OF k(1)]] outside [OF in_heads_large [OF k(1)] k(2)]
        ring_sorted_objs(3) [OF s k(1)]
      by (intro ring_cong; intro cell; auto)
    then show ?thesis using l k by (simp add: link_ok_def)
  qed
  show "m' (x + 32) = 0 \<and> m' (x + 40) = 0"
    if "k \<in> heads A - set (largebins A)" "k \<noteq> h" "x \<in> set (gbl G k)"
  proof -
    have "x \<in> objs A G" "x \<notin> W" using outside [of k x] ring_objs(1) [OF s, of k] that by auto
    then have "m' (x + 32) = m (x + 32)" "m' (x + 40) = m (x + 40)" by (intro cell; simp)+
    then show ?thesis using l that by (auto simp: link_ok_def)
  qed
  show "ring m' 32 40 h (gsl G h)" if "K \<subseteq> {16, 24}" "h \<in> set (largebins A)"
  proof -
    have "ring m' 32 40 h (gsl G h) = ring m 32 40 h (gsl G h)"
      using ring_objs(1) [OF s h] ring_sorted_objs(3) [OF s that(2)] that(1)
      by (intro ring_cong; intro cell; auto)
    then show ?thesis using l that by (simp add: link_ok_def)
  qed
  show "ring m' 16 24 h (gbl G h)" if "K \<subseteq> {32, 40}"
  proof -
    have "ring m' 16 24 h (gbl G h) = ring m 16 24 h (gbl G h)"
      using ring_objs(1) [OF s h] that by (intro ring_cong; intro cell; auto)
    then show ?thesis using l h by (simp add: link_ok_def)
  qed
qed

lemma fd_unlink_ring:
  assumes s: "shape A G" and l: "link_ok m A G" and h: "h \<in> heads A" and c: "c \<in> set (gbl G h)"
  defines "m' \<equiv> unlink_chunk_from_fdlist m c"
  shows "ring m' 16 24 h (remove1 c (gbl G h))"
    and "changes_in m m' (insert h (set (gbl G h))) {16, 24}"
proof -
  obtain xs ys where e: "gbl G h = xs @ c # ys" using split_list [OF c] by blast
  note ro = ring_objs [OF s h]
  have r: "ring m 16 24 h (xs @ c # ys)" using l h e by (auto simp: link_ok_def)
  have d: "distinct (h # xs @ c # ys)" and S: "{c, h} \<union> set xs \<union> set ys \<subseteq> objs A G"
    using ro e by auto
  have eq: "m' = unlink_node m 16 24 c" unfolding m'_def
    by (rule unlink_fdlist_eq [OF shape_spaced [OF s] S shape_pos [OF s] d r])
  show "ring m' 16 24 h (remove1 c (gbl G h))"
    using ring_unlink_node [OF shape_spaced [OF s] S _ _ _ _ _ d r] d e eq by (simp add: remove1_append)
  show "changes_in m m' (insert h (set (gbl G h))) {16, 24}"
    using unlink_node_changes [OF r] eq e by (auto elim: changes_in_mono)
qed

lemma sorted_unlink_ring:
  assumes s: "shape A G" and r: "ring m 32 40 h (gsl G h)" and h: "h \<in> set (largebins A)"
    and c: "c \<in> set (gsl G h)"
  defines "m' \<equiv> unlink_chunk_from_sortedlist m c"
  shows "ring m' 32 40 h (remove1 c (gsl G h))"
    and "changes_in m m' (insert h (set (gbl G h))) {32, 40}"
proof -
  note so = ring_sorted_objs [OF s h]
  obtain xs ys where e: "gsl G h = xs @ c # ys" using split_list [OF c] by blast
  note ro = ring_objs [OF s so(1)]
  have sub: "{c, h} \<union> set xs \<union> set ys = insert h (set (gbl G h))" using so e by auto
  have d: "distinct (h # xs @ c # ys)" and S: "{c, h} \<union> set xs \<union> set ys \<subseteq> objs A G"
    using so ro e sub by auto
  have r': "ring m 32 40 h (xs @ c # ys)" using r e by simp
  have eq: "m' = unlink_node m 32 40 c" unfolding m'_def
    by (rule unlink_sortedlist_eq [OF shape_spaced [OF s] S shape_pos [OF s] d r'])
  show "ring m' 32 40 h (remove1 c (gsl G h))"
    using ring_unlink_node [OF shape_spaced [OF s] S _ _ _ _ _ d r'] d e eq by (simp add: remove1_append)
  show "changes_in m m' (insert h (set (gbl G h))) {32, 40}"
    using unlink_node_changes [OF r'] eq sub by simp
qed

lemma unlink_fd_ok:
  assumes inv: "minv m A G X" and h: "h \<in> heads A - set (largebins A)" and c: "c \<in> set (gbl G h)"
  defines "m' \<equiv> unlink_chunk_from_fdlist m c"
  shows "minv m' A (g_unlink h c G) X"
    and "changes_in m m' (insert h (set (gbl G h))) {16, 24}"
    and "m' (c + 32) = 0" "m' (c + 40) = 0"
proof -
  note s = minvD(1) [OF inv] and l = minvD(3) [OF inv]
  have hh: "h \<in> heads A" using h by simp
  note fd = fd_unlink_ring [OF s l hh c, folded m'_def]
  show ch: "changes_in m m' (insert h (set (gbl G h))) {16, 24}" by (rule fd(2))
  have W: "insert h (set (gbl G h)) \<subseteq> objs A G" by (rule ring_objs(1) [OF s hh])
  note oth = link_others [OF s ch _ W _ hh l]
  have "m' (x + 32) = 0 \<and> m' (x + 40) = 0" if x: "x \<in> set (gbl G h)" for x
  proof -
    have "x \<in> objs A G" using W x by auto
    then have "m' (x + 32) = m (x + 32)" "m' (x + 40) = m (x + 40)"
      using changes_in_cell [OF ch shape_spaced [OF s] W] by simp_all
    then show ?thesis using l h x by (auto simp: link_ok_def)
  qed
  note nul = this
  show "m' (c + 32) = 0" "m' (c + 40) = 0" using nul [OF c] by auto
  have "link_ok m' A (g_unlink h c G)"
    unfolding link_ok_def using oth(1,2,3,4) fd(1) h nul
    by (auto simp: gbl_unlink gsl_unlink dest!: subsetD [OF set_remove1_subset])
  moreover have "hdr_ok m' A (g_unlink h c G) X"
    using hdr_unlink [OF shapeD(4) [OF s] hh c] hdr_ok_links [OF s changes_in_mono [OF ch] W] minvD(2) [OF inv]
    by simp
  ultimately show "minv m' A (g_unlink h c G) X"
    using shape_unlink [OF s hh c] by (simp add: minv_def)
qed

lemma unlink_sorted_noop:
  "m (c + 40) = 0 \<Longrightarrow> unlink_chunk_from_sortedlist m c = m"
  by (simp add: unlink_chunk_from_sortedlist_def)

lemma unlink_both_ok:
  assumes inv: "minv m A G X" and h: "h \<in> heads A" and c: "c \<in> set (gbl G h)"
  defines "m' \<equiv> unlink_chunk_from_sortedlist (unlink_chunk_from_fdlist m c) c"
  shows "minv m' A (g_unlink h c G) X"
    and "changes_in m m' (insert h (set (gbl G h))) {16, 24, 32, 40}"
proof -
  note s = minvD(1) [OF inv] and l = minvD(3) [OF inv]
  have "minv m' A (g_unlink h c G) X \<and> changes_in m m' (insert h (set (gbl G h))) {16, 24, 32, 40}"
  proof (cases "h \<in> set (largebins A)")
    case False
    then have h': "h \<in> heads A - set (largebins A)" using h by simp
    note fd = unlink_fd_ok [OF inv h' c]
    have "m' = unlink_chunk_from_fdlist m c" unfolding m'_def by (rule unlink_sorted_noop [of "unlink_chunk_from_fdlist m c" c, OF fd(4)])
    then show ?thesis using fd(1) changes_in_mono [OF fd(2), of "insert h (set (gbl G h))" "{16, 24, 32, 40}"] by simp
  next
    case True
    let ?m1 = "unlink_chunk_from_fdlist m c"
    let ?W = "insert h (set (gbl G h))"
    note fd = fd_unlink_ring [OF s l h c]
    have W: "?W \<subseteq> objs A G" by (rule ring_objs(1) [OF s h])
    have r1: "ring ?m1 32 40 h (gsl G h)" using link_others(5) [OF s fd(2) _ W _ h l] True by simp
    have cs: "c \<in> set (gsl G h)" using ring_sorted_objs(3) [OF s True] c by simp
    note so = sorted_unlink_ring [OF s r1 True cs, folded m'_def]
    have ch: "changes_in m m' ?W {16, 24, 32, 40}"
      using changes_in_trans [OF changes_in_mono [OF fd(2)] changes_in_mono [OF so(2)], of ?W "{16, 24, 32, 40}"]
      by simp
    have "ring m' 16 24 h (remove1 c (gbl G h)) = ring ?m1 16 24 h (remove1 c (gbl G h))"
      using W by (intro ring_cong; intro changes_in_cell [OF so(2) shape_spaced [OF s] W])
        (auto dest!: subsetD [OF set_remove1_subset])
    note r = this [THEN iffD2, OF fd(1)]
    note oth = link_others [OF s ch _ W _ h l]
    have "link_ok m' A (g_unlink h c G)"
      unfolding link_ok_def using oth(1,2,3,4) r so(1) True by (auto simp: gbl_unlink gsl_unlink)
    moreover have "hdr_ok m' A (g_unlink h c G) X"
      using hdr_unlink [OF shapeD(4) [OF s] h c] hdr_ok_links [OF s ch W] minvD(2) [OF inv] by simp
    ultimately show ?thesis using shape_unlink [OF s h c] ch by (simp add: minv_def)
  qed
  then show "minv m' A (g_unlink h c G) X"
    and "changes_in m m' (insert h (set (gbl G h))) {16, 24, 32, 40}" by simp_all
qed

section \<open>Insertion\<close>

definition g_insert :: "addr \<Rightarrow> addr \<Rightarrow> ghost \<Rightarrow> ghost" where
  "g_insert h c G = G\<lparr>gbl := (gbl G)(h := c # gbl G h),
     gsl := (gsl G)(h := insort_key (gsz G) c (gsl G h)), gL := gL G - {c}\<rparr>"

lemma g_insert_simps [simp]:
  "gC (g_insert h c G) = gC G" "gB (g_insert h c G) = gB G" "gM (g_insert h c G) = gM G"
  "gU (g_insert h c G) = gU G" "gsz (g_insert h c G) = gsz G" "gfl (g_insert h c G) = gfl G"
  "gL (g_insert h c G) = gL G - {c}" "gF (g_insert h c G) = gF G"
  "objs A (g_insert h c G) = objs A G" "gext (g_insert h c G) = gext G"
  "gnext (g_insert h c G) = gnext G" "payload (g_insert h c G) = payload G"
  by (simp_all add: g_insert_def gF_def objs_def gext_def gnext_def payload_def fun_eq_iff)

lemma gbl_insert: "gbl (g_insert h c G) k = (if k = h then c # gbl G h else gbl G k)"
  and gsl_insert: "gsl (g_insert h c G) k = (if k = h then insort_key (gsz G) c (gsl G h) else gsl G k)"
  by (simp_all add: g_insert_def)

lemma gD_insert: "h \<in> heads A \<Longrightarrow> gD A (g_insert h c G) = insert c (gD A G)"
  by (auto simp: gD_def gbl_insert split: if_splits)

lemma loose_not_binned:
  assumes "shape A G" "c \<in> gL G" "h \<in> heads A"
  shows "c \<notin> set (gbl G h)" "c \<notin> heads A" "c \<notin> gF G" "c \<notin> gD A G" "c \<in> objs A G" "c \<in> gC G"
  using shapeD(2,3) [OF assms(1)] assms(2,3)
  by (auto simp: part_ok_def kinds_ok_def gD_def objs_def)

lemma shape_insert:
  assumes s: "shape A G" and hh: "h \<in> heads A" and c: "c \<in> gL G"
    and cl: "\<And>i. i < 32 \<Longrightarrow> h = smallbins A ! i \<Longrightarrow> gsz G c = 16 * (int i + 1)"
  shows "shape A (g_insert h c G)"
proof -
  note sh = shapeD [OF s]
  note D = gD_insert [OF hh, of c G] and nb = loose_not_binned [OF s c]
  have "part_ok A (g_insert h c G)" using sh(3) c nb(3,4) [OF hh] by (auto simp: part_ok_def D)
  moreover have "kinds_ok A (g_insert h c G)" using sh(2) by (simp add: kinds_ok_def)
  moreover have "lists_ok A (g_insert h c G)"
  proof (rule lists_okI)
    show "distinct (gfl (g_insert h c G) i)" if "i < 7" for i
      using fast_distinct [OF sh(4) that] by simp
    show "i = j" if "i < 7" "j < 7" "x \<in> set (gfl (g_insert h c G) i)" "x \<in> set (gfl (g_insert h c G) j)"
      for i j x using fast_unique [OF sh(4) that(1,2)] that(3,4) by simp
    show "distinct (gbl (g_insert h c G) k)" if "k \<in> heads A" for k
      using bin_distinct [OF sh(4) that] nb(1) [OF hh] by (cases "k = h") (simp_all add: gbl_insert)
    show "k = l" if "k \<in> heads A" "l \<in> heads A" "x \<in> set (gbl (g_insert h c G) k)"
      "x \<in> set (gbl (g_insert h c G) l)" for k l x
      using that bin_unique [OF sh(4) that(1,2), of x] nb(1) [OF that(1)] nb(1) [OF that(2)]
      by (auto simp: gbl_insert split: if_splits)
    show "distinct (gsl (g_insert h c G) k) \<and> set (gsl (g_insert h c G) k) = set (gbl (g_insert h c G) k) \<and>
      sorted (map (gsz (g_insert h c G)) (gsl (g_insert h c G) k))" if "k \<in> set (largebins A)" for k
    proof (cases "k = h")
      case True
      have "c \<notin> set (gsl G h)" using lists_sorted [OF sh(4) that] nb(1) [OF hh] True by simp
      then show ?thesis
        using lists_sorted [OF sh(4) that] True
        by (simp add: gbl_insert gsl_insert set_insort_key distinct_insort sorted_insort_key)
    qed (use lists_sorted [OF sh(4) that] in \<open>simp add: gbl_insert gsl_insert\<close>)
  qed
  moreover have "layout_ok A (g_insert h c G)" using sh(5) by (simp add: layout_ok_def)
  moreover have "class_ok A (g_insert h c G)" using sh(6) cl by (auto simp: class_ok_def gbl_insert)
  ultimately show ?thesis using sh(1) by (simp add: shape_def)
qed

lemma hdr_insert:
  assumes "h \<in> heads A" "c \<in> gL G" "hdr_ok m A G X" "\<not> is_curr_inuse m c"
  shows "hdr_ok m A (g_insert h c G) X"
  using assms unfolding hdr_ok_def gD_insert [OF assms(1)] by auto

lemma insert_fd_ring:
  assumes s: "shape A G" and r: "ring m 16 24 h (gbl G h)" and h: "h \<in> heads A" and c: "c \<in> gL G"
  defines "m' \<equiv> insert_into_fdlist m h c"
  shows "ring m' 16 24 h (c # gbl G h)"
    and "changes_in m m' (insert c (insert h (set (gbl G h)))) {16, 24}"
proof -
  note ro = ring_objs [OF s h] and nb = loose_not_binned [OF s c h]
  have S: "{c, h} \<union> set [] \<union> set (gbl G h) \<subseteq> objs A G" using ro nb by auto
  have cf: "c \<notin> set (h # gbl G h)" using nb h by auto
  have eq: "m' = link_between m 16 24 h c (hd (gbl G h @ [h]))" unfolding m'_def
    using insert_fdlist_eq [OF shape_spaced [OF s] _ cf r] S by simp
  show "ring m' 16 24 h (c # gbl G h)"
    using ring_link_between [OF shape_spaced [OF s] S, of 16 24 m] cf ro(2) r eq by auto
  have q: "hd (gbl G h @ [h]) \<in> insert h (set (gbl G h))" by (cases "gbl G h") auto
  show "changes_in m m' (insert c (insert h (set (gbl G h)))) {16, 24}"
    unfolding eq using q by (intro link_between_changes) auto
qed

lemma insert_fd_ok:
  assumes inv: "minv m A G X" and h: "h \<in> heads A - set (largebins A)" and c: "c \<in> gL G"
    and cl: "\<And>i. i < 32 \<Longrightarrow> h = smallbins A ! i \<Longrightarrow> gsz G c = 16 * (int i + 1)"
    and nul: "m (c + 32) = 0" "m (c + 40) = 0" and cu: "\<not> is_curr_inuse m c"
  defines "m' \<equiv> insert_into_fdlist m h c"
  shows "minv m' A (g_insert h c G) X"
    and "changes_in m m' (insert c (insert h (set (gbl G h)))) {16, 24}"
proof -
  note s = minvD(1) [OF inv] and l = minvD(3) [OF inv]
  have hh: "h \<in> heads A" using h by simp
  let ?W = "insert c (insert h (set (gbl G h)))"
  have r: "ring m 16 24 h (gbl G h)" using l hh by (simp add: link_ok_def)
  note fd = insert_fd_ring [OF s r hh c, folded m'_def]
  show ch: "changes_in m m' ?W {16, 24}" by (rule fd(2))
  note nb = loose_not_binned [OF s c hh]
  have W: "?W \<subseteq> objs A G" using ring_objs(1) [OF s hh] nb(5) by auto
  have W2: "?W \<inter> (gD A G \<union> heads A \<union> gF G) \<subseteq> insert h (set (gbl G h))" using nb by auto
  note oth = link_others [OF s ch _ W W2 hh l]
  have nul': "m' (x + 32) = 0 \<and> m' (x + 40) = 0" if x: "x \<in> set (c # gbl G h)" for x
  proof -
    have "x \<in> objs A G" using W x by auto
    then have "m' (x + 32) = m (x + 32)" "m' (x + 40) = m (x + 40)"
      using changes_in_cell [OF ch shape_spaced [OF s] W] by simp_all
    then show ?thesis using l h x nul by (auto simp: link_ok_def)
  qed
  have "link_ok m' A (g_insert h c G)"
    unfolding link_ok_def using oth(1,2,3,4) fd(1) h nul' by (auto simp: gbl_insert gsl_insert)
  moreover have "hdr_ok m' A (g_insert h c G) X"
  proof -
    have e: "m' (c + 8) = m (c + 8)"
      using changes_in_cell [OF ch shape_spaced [OF s] W nb(5), of 8] by simp
    show ?thesis
      using hdr_ok_links [OF s changes_in_mono [OF ch subset_refl] W] minvD(2) [OF inv] cu is_curr_inuse_cong [of m' c m, OF e]
      by (intro hdr_insert hh c) simp_all
  qed
  ultimately show "minv m' A (g_insert h c G) X"
    using shape_insert [OF s hh c cl] by (simp add: minv_def)
qed

section \<open>Insertion into a large bin\<close>

lemma insort_key_split:
  "insort_key f x xs = takeWhile (\<lambda>y. f y < f x) xs @ x # dropWhile (\<lambda>y. f y < f x) xs"
  by (induction xs) (auto simp: not_le)

lemma ceil_loop_seg:
  assumes "seg m 32 40 p ys h" "h \<notin> set ys" "\<And>y. y \<in> set ys \<Longrightarrow> get_usize m y = f y"
  shows "ceil_loop m h sz (m (p + 32)) = Some (hd (dropWhile (\<lambda>y. f y < sz) ys @ [h]))"
  using assms by (induction ys arbitrary: p) (auto simp: ceil_loop.simps)

lemma size_binned:
  assumes "minv m A G X" "c \<in> gC G" "c \<notin> X"
  shows "get_size m c = gsz G c" "get_usize m c = gsz G c" "32 \<le> gsz G c" "gsz G c < 2 ^ 62"
    "gsz G c mod 16 = 0" "next_chunk m c = gnext G c"
proof -
  note s = minvD(1) [OF assms(1)]
  show e: "get_size m c = gsz G c" using minvD(2) [OF assms(1)] assms by (simp add: hdr_ok_def)
  show "32 \<le> gsz G c" "gsz G c mod 16 = 0" using shapeD(5) [OF s] assms by (simp_all add: layout_ok_def)
  then show "get_usize m c = gsz G c" using e by simp
  have "0 < c \<and> c + gext G c < 2 ^ 62" using shapeD(5) [OF s] assms by (simp add: layout_ok_def objs_def)
  then show "gsz G c < 2 ^ 62" using assms(2) by (auto simp: gext_def)
  show "next_chunk m c = gnext G c" using e by (simp add: next_chunk_def gnext_def)
qed

lemma largebin_index_range:
  assumes "512 \<le> n"
  shows "0 \<le> get_largebin_index n" "get_largebin_index n < 64"
proof -
  have "0 \<le> get_largebin_index n \<and> get_largebin_index n < 64"
  proof (cases "n \<le> 64 * 1024")
    case True
    have "drop_bit 6 (n - 512) = (n - 512) div 64" by (simp add: drop_bit_eq_div)
    moreover have "0 \<le> (n - 512) div 64" "(n - 512) div 64 < 2 ^ 31" using assms True by auto
    ultimately show ?thesis using assms True by (simp add: get_largebin_index_def Let_def)
  qed (use assms in \<open>simp add: get_largebin_index_def Let_def\<close>)
  then show "0 \<le> get_largebin_index n" "get_largebin_index n < 64" by simp_all
qed

lemma insert_sorted_ring:
  assumes s: "shape A G" and r: "ring m 32 40 h (gsl G h)" and h: "h \<in> set (largebins A)" and c: "c \<in> gL G"
    and sz: "\<And>y. y \<in> set (gbl G h) \<Longrightarrow> get_usize m y = gsz G y" "sz = gsz G c"
  obtains cl fl where "ceil_loop m h sz (m (h + 32)) = Some cl" "m (cl + 40) = fl"
    "ring (link_between m 32 40 fl c cl) 32 40 h (insort_key (gsz G) c (gsl G h))"
    "cl \<in> insert h (set (gbl G h))" "fl \<in> insert h (set (gbl G h))"
proof -
  let ?P = "\<lambda>y. gsz G y < gsz G c"
  let ?xs = "takeWhile ?P (gsl G h)" and ?ys = "dropWhile ?P (gsl G h)"
  note so = ring_sorted_objs [OF s h]
  note nb = loose_not_binned [OF s c so(1)]
  have W: "insert h (set (gbl G h)) \<subseteq> objs A G" by (rule ring_objs(1) [OF s so(1)])
  have e: "?xs @ ?ys = gsl G h" by simp
  have sub: "set ?xs \<subseteq> set (gbl G h)" "set ?ys \<subseteq> set (gbl G h)"
    using so(3) by (auto dest: set_takeWhileD set_dropWhileD)
  have cl: "ceil_loop m h sz (m (h + 32)) = Some (hd (?ys @ [h]))"
    using ceil_loop_seg [of m h "gsl G h" h "gsz G" sz] r so sz by (simp add: ring_def)
  have fl: "m (hd (?ys @ [h]) + 40) = last (h # ?xs)"
  proof (cases "?ys")
    case Nil
    then show ?thesis using ring_last [OF r] e by (metis append_Nil append_Nil2 list.sel(1))
  next
    case (Cons y zs)
    then show ?thesis using ring_neighbours(2) [of m 32 40 h ?xs y zs] r e by simp
  qed
  have "ring (link_between m 32 40 (last (h # ?xs)) c (hd (?ys @ [h]))) 32 40 h (?xs @ c # ?ys)"
  proof (rule ring_link_between [OF shape_spaced [OF s]])
    show "{c, h} \<union> set ?xs \<union> set ?ys \<subseteq> objs A G" using W nb(5) sub by blast
    show "c \<notin> set (h # ?xs @ ?ys)" using so nb by auto
    show "distinct (h # ?xs @ ?ys)" unfolding e by (rule so(2))
    show "ring m 32 40 h (?xs @ ?ys)" unfolding e by (rule r)
  qed simp_all
  moreover have "hd (?ys @ [h]) \<in> insert h (set (gbl G h))"
    using sub(2) hd_in_set [of "?ys @ [h]"] by auto
  moreover have "last (h # ?xs) \<in> insert h (set (gbl G h))"
    using sub(1) last_in_set [of "h # ?xs"] by auto
  ultimately show ?thesis using that [OF cl fl] by (simp only: insort_key_split)
qed

lemma insert_both_ok:
  assumes inv: "minv m A G X" and h: "h \<in> set (largebins A)" and c: "c \<in> gL G" and cu: "\<not> is_curr_inuse m c"
    and r: "ring (link_between m 32 40 fl c cl) 32 40 h (insort_key (gsz G) c (gsl G h))"
    and nbs: "cl \<in> insert h (set (gbl G h))" "fl \<in> insert h (set (gbl G h))"
  defines "m' \<equiv> insert_into_fdlist (link_between m 32 40 fl c cl) h c"
  shows "minv m' A (g_insert h c G) X"
    and "changes_in m m' (insert c (insert h (set (gbl G h)))) {16, 24, 32, 40}"
proof -
  note s = minvD(1) [OF inv] and l = minvD(3) [OF inv]
  let ?W = "insert c (insert h (set (gbl G h)))" and ?m1 = "link_between m 32 40 fl c cl"
  have hh: "h \<in> heads A" by (rule in_heads_large [OF h])
  note nb = loose_not_binned [OF s c hh] and sp = shape_spaced [OF s]
  have W: "?W \<subseteq> objs A G" using ring_objs(1) [OF s hh] nb(5) by auto
  have W2: "?W \<inter> (gD A G \<union> heads A \<union> gF G) \<subseteq> insert h (set (gbl G h))" using nb by auto
  have ch1: "changes_in m ?m1 ?W {32, 40}" using nbs by (intro link_between_changes) auto
  have r1: "ring ?m1 16 24 h (gbl G h)" by (rule link_others(6) [OF s ch1 _ W W2 hh l]) simp_all
  note fd = insert_fd_ring [OF s r1 hh c, folded m'_def]
  show ch: "changes_in m m' ?W {16, 24, 32, 40}"
    using changes_in_trans [OF changes_in_mono [OF ch1] changes_in_mono [OF fd(2)], of ?W "{16, 24, 32, 40}"]
    by simp
  note oth = link_others [OF s ch _ W W2 hh l]
  have "ring m' 32 40 h (insort_key (gsz G) c (gsl G h)) = ring ?m1 32 40 h (insort_key (gsz G) c (gsl G h))"
    using W ring_sorted_objs(3) [OF s h]
    by (intro ring_cong; intro changes_in_cell [OF fd(2) sp W]) (auto simp: set_insort_key)
  then have "link_ok m' A (g_insert h c G)"
    unfolding link_ok_def using oth(1,2,3,4) fd(1) r h by (auto simp: gbl_insert gsl_insert)
  moreover have "hdr_ok m' A (g_insert h c G) X"
  proof -
    have e: "m' (c + 8) = m (c + 8)" using changes_in_cell [OF ch sp W nb(5), of 8] by simp
    show ?thesis
      using hdr_ok_links [OF s ch W] minvD(2) [OF inv] cu is_curr_inuse_cong [of m' c m, OF e]
      by (intro hdr_insert hh c) simp_all
  qed
  moreover have "shape A (g_insert h c G)"
  proof (rule shape_insert [OF s hh c])
    fix i :: nat assume i: "i < 32" "h = smallbins A ! i"
    have b: "bins_ok A" by (rule shapeD(1) [OF s])
    then have "smallbins A ! i \<in> set (smallbins A)" using i by (intro nth_mem) (simp add: bins_ok_def)
    then have "h \<in> set (smallbins A)" using i by simp
    then have "False" using b h by (auto simp: bins_ok_def)
    then show "gsz G c = 16 * (int i + 1)" ..
  qed
  ultimately show "minv m' A (g_insert h c G) X" by (simp add: minv_def)
qed

lemma insert_into_largebin_ok:
  assumes inv: "minv (hmem s) (arena s) G {}" and c: "c \<in> gL G" and cu: "\<not> is_curr_inuse (hmem s) c"
    and sz: "512 \<le> gsz G c"
  obtains m' h where "insert_into_largebin s c = Some (put_mem m' s)" "h \<in> set (largebins (arena s))"
    "minv m' (arena s) (g_insert h c G) {}"
    "changes_in (hmem s) m' (insert c (insert h (set (gbl G h)))) {16, 24, 32, 40}"
proof -
  let ?m = "hmem s" and ?A = "arena s"
  note sh = minvD(1) [OF inv]
  have cC: "c \<in> gC G" using part_sub(2) [OF sh] c by auto
  note szc = size_binned [OF inv cC]
  define idx where "idx = get_largebin_index (gsz G c)"
  have idx: "0 \<le> idx" "idx < 64" unfolding idx_def using largebin_index_range [OF sz] by simp_all
  define h where "h = largebins ?A ! nat idx"
  have h: "h \<in> set (largebins ?A)"
    unfolding h_def using idx shapeD(1) [OF sh] by (intro nth_mem) (simp add: bins_ok_def)
  have hh: "h \<in> heads ?A" by (rule in_heads_large [OF h])
  have pos: "h \<noteq> 0" using shape_pos [OF sh, of h] hh by (auto simp: objs_def)
  have r: "ring ?m 32 40 h (gsl G h)" using minvD(3) [OF inv] h by (simp add: link_ok_def)
  have us: "get_usize ?m y = gsz G y" if "y \<in> set (gbl G h)" for y
    using size_binned(2) [OF inv, of y] part_sub(1) [OF sh] that hh by (auto simp: gD_def)
  obtain cl fl where cf: "ceil_loop ?m h (gsz G c) (?m (h + 32)) = Some cl" "?m (cl + 40) = fl"
    "ring (link_between ?m 32 40 fl c cl) 32 40 h (insort_key (gsz G) c (gsl G h))"
    "cl \<in> insert h (set (gbl G h))" "fl \<in> insert h (set (gbl G h))"
    using insert_sorted_ring [OF sh r h c us refl] by blast
  note ok = insert_both_ok [OF inv h c cu cf(3,4,5)]
  have "insert_into_largebin s c = Some (put_mem (insert_into_fdlist (link_between ?m 32 40 fl c cl) h c) s)"
    using szc idx pos cf(1,2)
    by (simp add: insert_into_largebin_def Let_def idx_def [symmetric] h_def [symmetric] link_between_def)
  then show ?thesis using that [OF _ h ok] by simp
qed

end
