(* ===== verification/ArenaOps.thy ===== *)
theory ArenaOps
  imports ArenaLists
begin

text \<open>
  Moves of chunks between the classes of the ghost, splits and merges: the steps from which every
  allocator operation is composed. Each step is shown to keep the invariant \<open>minv\<close>, and the
  operations' writes are shown to stay out of the payload of every block in use.
\<close>

section \<open>Moving chunks between classes\<close>

definition g_class :: "addr set \<Rightarrow> addr set \<Rightarrow> ghost \<Rightarrow> ghost" where
  "g_class U L G = G\<lparr>gU := U, gL := L\<rparr>"

lemma g_class_simps [simp]:
  "gC (g_class U L G) = gC G" "gB (g_class U L G) = gB G" "gM (g_class U L G) = gM G"
  "gU (g_class U L G) = U" "gL (g_class U L G) = L" "gsz (g_class U L G) = gsz G"
  "gfl (g_class U L G) = gfl G" "gbl (g_class U L G) = gbl G" "gsl (g_class U L G) = gsl G"
  "gF (g_class U L G) = gF G" "gD A (g_class U L G) = gD A G" "objs A (g_class U L G) = objs A G"
  "gext (g_class U L G) = gext G" "gnext (g_class U L G) = gnext G" "payload (g_class U L G) = payload G"
  by (simp_all add: g_class_def gF_def gD_def objs_def gext_def gnext_def payload_def fun_eq_iff)

lemma top_simps [simp]:
  "heads (A\<lparr>top_chunk := t\<rparr>) = heads A" "gD (A\<lparr>top_chunk := t\<rparr>) G = gD A G"
  "objs (A\<lparr>top_chunk := t\<rparr>) G = objs A G" "gT (A\<lparr>top_chunk := t\<rparr>) = {t} - {0}"
  by (simp_all add: heads_def gD_def objs_def gT_def)

lemma shape_class:
  assumes "shape A G" "U \<union> L \<union> ({t} - {0}) = gU G \<union> gL G \<union> gT A" "U \<inter> L = {}" "t \<notin> U" "t \<notin> L"
  shows "shape (A\<lparr>top_chunk := t\<rparr>) (g_class U L G)"
proof -
  note s = shapeD [OF assms(1)]
  have "part_ok (A\<lparr>top_chunk := t\<rparr>) (g_class U L G)"
    using s(3) assms(2-) unfolding part_ok_def by simp blast
  then show ?thesis
    using s by (simp add: shape_def bins_ok_def kinds_ok_def lists_ok_def layout_ok_def class_ok_def)
qed

lemma hdr_class:
  assumes "hdr_ok m A G X" "\<And>x. x \<in> U \<Longrightarrow> x \<notin> X \<Longrightarrow> x \<notin> gU G \<Longrightarrow> is_curr_inuse m x"
    and "\<And>c. c \<in> gL G \<Longrightarrow> c \<notin> L \<Longrightarrow> gnext G c \<in> gC G \<Longrightarrow> is_prev_inuse m (gnext G c)"
  shows "hdr_ok m (A\<lparr>top_chunk := t\<rparr>) (g_class U L G) X"
  using assms unfolding hdr_ok_def by simp (metis Un_iff)

lemma link_class: "link_ok m (A\<lparr>top_chunk := t\<rparr>) (g_class U L G) = link_ok m A G"
  by (simp add: link_ok_def)

lemma minv_class:
  assumes "minv m A G X" "U \<union> L \<union> ({t} - {0}) = gU G \<union> gL G \<union> gT A" "U \<inter> L = {}" "t \<notin> U" "t \<notin> L"
    and "\<And>x. x \<in> U \<Longrightarrow> x \<notin> X \<Longrightarrow> x \<notin> gU G \<Longrightarrow> is_curr_inuse m x"
    and "\<And>c. c \<in> gL G \<Longrightarrow> c \<notin> L \<Longrightarrow> gnext G c \<in> gC G \<Longrightarrow> is_prev_inuse m (gnext G c)"
  shows "minv m (A\<lparr>top_chunk := t\<rparr>) (g_class U L G) X"
  using assms(1) shape_class [OF minvD(1) [OF assms(1)] assms(2-5)]
    hdr_class [OF minvD(2) [OF assms(1)] assms(6,7)] by (simp add: minv_def link_class)

lemma minv_top_zero: "minv m A G X \<Longrightarrow> 0 \<notin> gC G"
  using shape_pos [of A G 0] by (auto simp: minv_def objs_def)

lemma classes_apart:
  assumes "minv m A G X"
  shows "gU G \<inter> gL G = {}" "top_chunk A \<notin> gU G" "top_chunk A \<notin> gL G" "0 \<notin> gU G" "0 \<notin> gL G"
proof -
  have p: "part_ok A G" using shapeD(3) [OF minvD(1) [OF assms]] .
  have z: "0 \<notin> gC G" by (rule minv_top_zero [OF assms])
  show "gU G \<inter> gL G = {}" using p by (auto simp: part_ok_def)
  show zz: "0 \<notin> gU G" "0 \<notin> gL G" using p z by (auto simp: part_ok_def)
  show "top_chunk A \<notin> gU G" "top_chunk A \<notin> gL G"
    using p zz by (cases "top_chunk A = 0"; fastforce simp: part_ok_def gT_def)+
qed

text \<open>The four moves the allocator makes.\<close>

lemma move_alloc:
  assumes inv: "minv m A G X" and c: "c \<in> gL G" "c \<in> X \<or> is_curr_inuse m c"
    "gnext G c \<in> gC G \<Longrightarrow> is_prev_inuse m (gnext G c)"
  shows "minv m A (g_class (insert c (gU G)) (gL G - {c}) G) X"
proof -
  note p = classes_apart [OF inv]
  have "minv m (A\<lparr>top_chunk := top_chunk A\<rparr>) (g_class (insert c (gU G)) (gL G - {c}) G) X"
  proof (rule minv_class [OF inv])
    show "insert c (gU G) \<union> (gL G - {c}) \<union> ({top_chunk A} - {0}) = gU G \<union> gL G \<union> gT A"
      using c(1) by (auto simp: gT_def)
    show "top_chunk A \<notin> insert c (gU G)" using p c(1) by blast
  qed (use p c in blast)+
  then show ?thesis by simp
qed

lemma move_free:
  assumes inv: "minv m A G X" and c: "c \<in> gU G"
  shows "minv m A (g_class (gU G - {c}) (insert c (gL G)) G) X"
proof -
  note p = classes_apart [OF inv]
  have "minv m (A\<lparr>top_chunk := top_chunk A\<rparr>) (g_class (gU G - {c}) (insert c (gL G)) G) X"
  proof (rule minv_class [OF inv])
    show "(gU G - {c}) \<union> insert c (gL G) \<union> ({top_chunk A} - {0}) = gU G \<union> gL G \<union> gT A"
      using c by (auto simp: gT_def)
    show "top_chunk A \<notin> insert c (gL G)" using p c by blast
  qed (use p c in blast)+
  then show ?thesis by simp
qed

lemma move_from_top:
  assumes inv: "minv m A G X" and t: "top_chunk A \<noteq> 0"
  shows "minv m (A\<lparr>top_chunk := 0\<rparr>) (g_class (gU G) (insert (top_chunk A) (gL G)) G) X"
proof (rule minv_class [OF inv])
  note p = classes_apart [OF inv]
  show "gU G \<union> insert (top_chunk A) (gL G) \<union> ({0} - {0}) = gU G \<union> gL G \<union> gT A"
    using t by (auto simp: gT_def)
  show "gU G \<inter> insert (top_chunk A) (gL G) = {}" "0 \<notin> gU G" "0 \<notin> insert (top_chunk A) (gL G)"
    using p t by auto
qed blast+

lemma move_to_top:
  assumes inv: "minv m A G X" and t: "top_chunk A = 0" and c: "c \<in> gL G"
    "gnext G c \<in> gC G \<Longrightarrow> is_prev_inuse m (gnext G c)"
  shows "minv m (A\<lparr>top_chunk := c\<rparr>) (g_class (gU G) (gL G - {c}) G) X"
proof (rule minv_class [OF inv])
  note q = classes_apart [OF inv]
  show "gU G \<union> (gL G - {c}) \<union> ({c} - {0}) = gU G \<union> gL G \<union> gT A" using t q c by (auto simp: gT_def)
  show "c \<notin> gU G" using q c by blast
qed (use classes_apart [OF inv] c in blast)+

section \<open>Writing header words\<close>

lemma minv_word8:
  assumes inv: "minv m A G X" and c: "c \<in> objs A G" and X: "X - {c} \<subseteq> X'"
    and sz: "c \<in> gC G \<union> gM G \<Longrightarrow> c \<notin> X' \<Longrightarrow> get_size (m(c + 8 := w)) c = gsz G c"
    and cu: "c \<in> gB G \<union> gU G \<Longrightarrow> c \<notin> X' \<or> c \<in> gB G \<Longrightarrow> is_curr_inuse (m(c + 8 := w)) c"
    and ncu: "c \<in> gD A G \<union> gF G \<Longrightarrow> \<not> is_curr_inuse (m(c + 8 := w)) c"
    and pu: "c \<in> gC G \<Longrightarrow> \<not> is_prev_inuse (m(c + 8 := w)) c \<Longrightarrow>
      \<exists>d\<in>gD A G \<union> gL G. gnext G d = c \<and> get_prev_size m c = gsz G d"
  shows "minv (m(c + 8 := w)) A G X'"
proof -
  note s = minvD(1) [OF inv] and h = minvD(2) [OF inv]
  let ?m = "m(c + 8 := w)"
  have ch: "changes_in m ?m {c} {0, 8}" by (intro changes_in_upd) simp_all
  have "hdr_ok ?m A G X'"
  proof -
    have ps: "get_prev_size ?m x = get_prev_size m x" if "x \<in> gC G" for x
      using spaced_cell [OF shape_spaced [OF s], of x c 0 8] c that
      by (intro get_prev_size_cong) (auto simp: objs_def)
    have o: "get_size ?m x = get_size m x" "is_curr_inuse ?m x = is_curr_inuse m x"
      "is_prev_inuse ?m x = is_prev_inuse m x" if "x \<noteq> c" for x
      using that by (auto intro!: get_size_cong is_curr_inuse_cong is_prev_inuse_cong)
    have 1: "get_size ?m x = gsz G x" if "x \<in> gC G \<union> gM G" "x \<notin> X'" for x
      using that sz o X h by (cases "x = c") (auto simp: hdr_ok_def)
    have 2: "is_curr_inuse ?m x" if "x \<in> gB G" for x
      using that cu o h by (cases "x = c") (auto simp: hdr_ok_def)
    have 3: "is_curr_inuse ?m x" if "x \<in> gU G" "x \<notin> X'" for x
      using that cu o X h by (cases "x = c") (auto simp: hdr_ok_def)
    have 4: "\<not> is_curr_inuse ?m x" if "x \<in> gD A G \<union> gF G" for x
      using that ncu o h by (cases "x = c") (auto simp: hdr_ok_def)
    have 5: "\<exists>d\<in>gD A G \<union> gL G. gnext G d = x \<and> get_prev_size ?m x = gsz G d"
      if "x \<in> gC G" "\<not> is_prev_inuse ?m x" for x
      using that pu o ps [OF that(1)] h by (cases "x = c") (auto simp: hdr_ok_def)
    show ?thesis unfolding hdr_ok_def using 1 2 3 4 5 by blast
  qed
  then show ?thesis using s minvD(3) [OF inv] link_ok_headers [OF s ch] c by (simp add: minv_def)
qed

lemma minv_word0:
  assumes inv: "minv m A G X" and x: "x \<in> objs A G"
    and pu: "x \<in> gC G \<Longrightarrow> \<not> is_prev_inuse m x \<Longrightarrow>
      \<exists>d\<in>gD A G \<union> gL G. gnext G d = x \<and> get_prev_size (m(x := w)) x = gsz G d"
  shows "minv (m(x := w)) A G X"
proof -
  note s = minvD(1) [OF inv] and h = minvD(2) [OF inv]
  let ?m = "m(x := w)"
  have ch: "changes_in m ?m {x} {0, 8}" using changes_in_upd [where m = m and m' = m and x = x and k = 0 and W = "{x}" and K = "{0, 8}" and v = w] by simp
  have "hdr_ok ?m A G X"
  proof -
    have o: "get_size ?m y = get_size m y" "is_curr_inuse ?m y = is_curr_inuse m y"
      "is_prev_inuse ?m y = is_prev_inuse m y" if "y \<in> objs A G" for y
      using spaced_cell [OF shape_spaced [OF s], of y x 8 0] that x
      by (auto intro!: get_size_cong is_curr_inuse_cong is_prev_inuse_cong)
    have sub: "y \<in> objs A G" if "y \<in> gC G \<union> gM G \<union> gB G \<union> gU G \<union> gD A G \<union> gF G" for y
      using that part_sub [OF s] by (auto simp: objs_def)
    have 5: "\<exists>d\<in>gD A G \<union> gL G. gnext G d = y \<and> get_prev_size ?m y = gsz G d"
      if "y \<in> gC G" "\<not> is_prev_inuse ?m y" for y
    proof (cases "y = x")
      case True
      then show ?thesis using that pu o [OF x] by auto
    next
      case False
      then have "get_prev_size ?m y = get_prev_size m y" by (intro get_prev_size_cong) simp
      then show ?thesis using that o(3) [OF sub] h by (auto simp: hdr_ok_def)
    qed
    show ?thesis using h o sub 5 unfolding hdr_ok_def by (simp add: ball_Un)
  qed
  then show ?thesis using s minvD(3) [OF inv] link_ok_headers [OF s ch] x by (simp add: minv_def)
qed

lemma cu_not_stored: "minv m A G X \<Longrightarrow> c \<in> gL G \<union> gU G \<Longrightarrow> c \<notin> gD A G \<and> c \<notin> gF G \<and> c \<in> gC G \<and> c \<notin> gB G \<and> c \<in> objs A G"
  using shapeD(2,3) [OF minvD(1)] by (fastforce simp: part_ok_def kinds_ok_def objs_def)

lemma prev_free:
  "minv m A G X \<Longrightarrow> x \<in> gC G \<Longrightarrow> \<not> is_prev_inuse m x \<Longrightarrow>
     \<exists>d\<in>gD A G \<union> gL G. gnext G d = x \<and> get_prev_size m x = gsz G d"
  using minvD(2) by (auto simp: hdr_ok_def)

lemma minv_set_cu:
  assumes inv: "minv m A G X" and c: "c \<in> gL G"
  shows "minv (set_curr_inuse m c) A G X"
proof -
  note st = cu_not_stored [OF inv, of c] and apart = classes_apart [OF inv]
  have e: "set_curr_inuse m c = m(c + 8 := m (c + 8) OR 4)" by (simp add: set_curr_inuse_def)
  show ?thesis unfolding e
  proof (rule minv_word8 [OF inv])
    show "get_size (m(c + 8 := m (c + 8) OR 4)) c = gsz G c" if "c \<in> gC G \<union> gM G" "c \<notin> X"
      using minvD(2) [OF inv] that get_size_flag_ops(1) [of m c c] e by (simp add: hdr_ok_def)
    show "\<exists>d\<in>gD A G \<union> gL G. gnext G d = c \<and> get_prev_size m c = gsz G d"
      if "c \<in> gC G" "\<not> is_prev_inuse (m(c + 8 := m (c + 8) OR 4)) c"
      using prev_free [OF inv that(1)] that(2) is_prev_inuse_flag_ops(1) [of m c c] e by simp
  qed (use st c apart in auto)
qed

lemma minv_unset_cu:
  assumes inv: "minv m A G X" and c: "c \<in> gL G"
  shows "minv (unset_curr_inuse m c) A G X"
proof -
  note st = cu_not_stored [OF inv, of c] and apart = classes_apart [OF inv]
  have e: "unset_curr_inuse m c = m(c + 8 := m (c + 8) AND - 5)" by (simp add: unset_curr_inuse_def)
  show ?thesis unfolding e
  proof (rule minv_word8 [OF inv])
    show "get_size (m(c + 8 := m (c + 8) AND - 5)) c = gsz G c" if "c \<in> gC G \<union> gM G" "c \<notin> X"
      using minvD(2) [OF inv] that get_size_flag_ops(2) [of m c c] e by (simp add: hdr_ok_def)
    show "\<exists>d\<in>gD A G \<union> gL G. gnext G d = c \<and> get_prev_size m c = gsz G d"
      if "c \<in> gC G" "\<not> is_prev_inuse (m(c + 8 := m (c + 8) AND - 5)) c"
      using prev_free [OF inv that(1)] that(2) is_prev_inuse_flag_ops(2) [of m c c] e by simp
  qed (use st c apart in auto)
qed

lemma minv_set_pu:
  assumes inv: "minv m A G X" and x: "x \<in> gC G \<union> gB G"
  shows "minv (set_prev_inuse m x) A G X"
proof -
  have e: "set_prev_inuse m x = m(x + 8 := m (x + 8) OR 1)" by (simp add: set_prev_inuse_def)
  note h = minvD(2) [OF inv]
  show ?thesis unfolding e
  proof (rule minv_word8 [OF inv])
    show "get_size (m(x + 8 := m (x + 8) OR 1)) x = gsz G x" if "x \<in> gC G \<union> gM G" "x \<notin> X"
      using h that get_size_flag_ops(3) [of m x x] e by (simp add: hdr_ok_def)
    show "\<exists>d\<in>gD A G \<union> gL G. gnext G d = x \<and> get_prev_size m x = gsz G d"
      if "x \<in> gC G" "\<not> is_prev_inuse (m(x + 8 := m (x + 8) OR 1)) x"
      using that(2) is_prev_inuse_flag_ops(3) [of m x x] e by simp
  qed (use x h e is_curr_inuse_flag_ops(3) [of m x x] in \<open>auto simp: hdr_ok_def objs_def\<close>)
qed

lemma gnext_object: "minv m A G X \<Longrightarrow> c \<in> gC G \<Longrightarrow> gnext G c \<in> gC G \<union> gB G \<and> gnext G c \<in> objs A G"
  using shapeD(5) [OF minvD(1)] by (fastforce simp: layout_ok_def objs_def)

lemma gsz_range:
  assumes "minv m A G X" "c \<in> gC G"
  shows "32 \<le> gsz G c" "gsz G c < 2 ^ 62" "gsz G c mod 16 = 0" "c mod 16 = 0"
proof -
  have l: "layout_ok A G" by (rule shapeD(5) [OF minvD(1) [OF assms(1)]])
  show "32 \<le> gsz G c" "gsz G c mod 16 = 0" "c mod 16 = 0" using l assms(2) by (simp_all add: layout_ok_def)
  have "0 < c \<and> c + gext G c < 2 ^ 62" using l assms(2) by (simp add: layout_ok_def objs_def)
  then show "gsz G c < 2 ^ 62" using assms(2) by (auto simp: gext_def)
qed

text \<open>Boundary tags: recording the size of a loose chunk in its right neighbour.\<close>

lemma minv_tag:
  assumes inv: "minv m A G X" and c: "c \<in> gL G" and f: "0 \<le> f" "f < 8"
  shows "minv (m(gnext G c := gsz G c + f)) A G X"
proof -
  have cC: "c \<in> gC G" using cu_not_stored [OF inv, of c] c by simp
  have "get_prev_size (m(gnext G c := gsz G c + f)) (gnext G c) = gsz G c"
    using gsz_range [OF inv cC] f by (intro get_prev_size_word) simp_all
  then show ?thesis using gnext_object [OF inv cC] c by (intro minv_word0 [OF inv]) auto
qed

lemma minv_tag_free:
  assumes inv: "minv m A G X" and c: "c \<in> gL G" and tag: "get_prev_size m (gnext G c) = gsz G c"
  shows "minv (unset_prev_inuse m (gnext G c)) A G X"
proof -
  let ?x = "gnext G c"
  have e: "unset_prev_inuse m ?x = m(?x + 8 := m (?x + 8) AND - 2)" by (simp add: unset_prev_inuse_def)
  have cC: "c \<in> gC G" using cu_not_stored [OF inv, of c] c by simp
  note x = gnext_object [OF inv cC] and h = minvD(2) [OF inv]
  show ?thesis unfolding e
  proof (rule minv_word8 [OF inv])
    show "get_size (m(?x + 8 := m (?x + 8) AND - 2)) ?x = gsz G ?x" if "?x \<in> gC G \<union> gM G" "?x \<notin> X"
      using h that get_size_flag_ops(4) [of m ?x ?x] e by (simp add: hdr_ok_def)
    show "\<exists>d\<in>gD A G \<union> gL G. gnext G d = ?x \<and> get_prev_size m ?x = gsz G d"
      using c tag by auto
  qed (use x h e is_curr_inuse_flag_ops(4) [of m ?x ?x] in \<open>auto simp: hdr_ok_def\<close>)
qed

lemma minv_loose_link:
  assumes inv: "minv m A G X" and c: "c \<in> gL G" and k: "k \<in> {16, 24, 32, 40}"
  shows "minv (m(c + k := v)) A G X"
proof -
  note s = minvD(1) [OF inv]
  let ?m = "m(c + k := v)"
  have ch: "changes_in m ?m {c} {16, 24, 32, 40}" using k by (intro changes_in_upd) simp_all
  note st = cu_not_stored [OF inv, of c]
  have W: "{c} \<subseteq> objs A G" using st c by simp
  have "link_ok ?m A G = link_ok m A G"
  proof (rule link_ok_cong)
    fix x j assume x: "x \<in> heads A \<union> gD A G \<union> gF G" and j: "j \<in> {16, 24, 32, 40::int}"
    have "x \<noteq> c" using x st c shapeD(2) [OF s] by (auto simp: kinds_ok_def)
    moreover have "x \<in> objs A G" using x part_sub [OF s] by (auto simp: objs_def)
    ultimately show "?m (x + j) = m (x + j)"
      using j by (intro changes_in_cell [OF ch shape_spaced [OF s] W]) auto
  qed (rule shapeD [OF s])
  then show ?thesis
    using inv hdr_ok_links [OF s ch W] by (simp add: minv_def)
qed

section \<open>Protected payload\<close>

definition region :: "ghost \<Rightarrow> addr set" where
  "region G = (\<Union>u\<in>gU G \<union> gM G. payload G u)"

definition foot :: "arena_t \<Rightarrow> ghost \<Rightarrow> addr set" where
  "foot A G = (\<Union>x\<in>gC G \<union> gB G \<union> heads A. {x..<x + gext G x})"

text \<open>
  \<open>kinv P R m0 m A G X\<close>: the invariant holds, all objects of the heaps lie in \<open>P\<close>, \<open>R\<close> is payload of
  blocks in use, and \<open>m\<close> still has the contents of \<open>m0\<close> there.
\<close>

definition kinv :: "addr set \<Rightarrow> addr set \<Rightarrow> mem \<Rightarrow> mem \<Rightarrow> arena_t \<Rightarrow> ghost \<Rightarrow> addr set \<Rightarrow> bool" where
  "kinv P R m0 m A G X \<longleftrightarrow> minv m A G X \<and> foot A G \<subseteq> P \<and> R \<subseteq> region G \<and> (\<forall>a\<in>R. m a = m0 a)"

lemma kinvD: "kinv P R m0 m A G X \<Longrightarrow> minv m A G X"
  by (simp add: kinv_def)

lemma kinv_step:
  assumes k: "kinv P R m0 m A G X" and ch: "changes_in m m' W K" and W: "W \<subseteq> objs A G" and K: "K \<subseteq> {0..<48}"
    and d: "W \<inter> (gU G \<union> gM G) = {} \<or> K \<subseteq> {0..<16}" and inv': "minv m' A' G' X'" and R: "region G \<subseteq> region G'"
    and F: "foot A' G' \<subseteq> foot A G"
  shows "kinv P R m0 m' A' G' X'"
proof -
  note s = minvD(1) [OF kinvD [OF k]]
  have "m' a = m a" if "a \<in> R" for a
  proof -
    obtain u where u: "u \<in> gU G \<union> gM G" "a \<in> payload G u"
      using k \<open>a \<in> R\<close> unfolding kinv_def region_def by blast
    show ?thesis
      using changes_in_payload [OF ch s W K, of u a] u d part_sub(1) [OF s] by blast
  qed
  then show ?thesis using k inv' R F by (auto simp: kinv_def)
qed

lemma kinv_ghost:
  "kinv P R m0 m A G X \<Longrightarrow> minv m A' G' X' \<Longrightarrow> region G \<subseteq> region G' \<Longrightarrow>
     foot A' G' \<subseteq> foot A G \<Longrightarrow> kinv P R m0 m A' G' X'"
  by (auto simp: kinv_def)

lemma region_class: "gU G \<subseteq> U \<Longrightarrow> region G \<subseteq> region (g_class U L G)"
  by (auto simp: region_def)

lemma foot_simps [simp]:
  "foot A (g_class U L G) = foot A G" "foot A (g_insert h c G) = foot A G" "foot A (g_unlink h c G) = foot A G"
  "foot (A\<lparr>top_chunk := t\<rparr>) G = foot A G"
  by (simp_all add: foot_def)

lemma region_insert [simp]: "region (g_insert h c G) = region G"
  and region_unlink [simp]: "region (g_unlink h c G) = region G"
  by (simp_all add: region_def)

lemma kinv_loose:
  assumes "kinv P R m0 m A G X" "c \<in> gL G"
  shows "c \<in> objs A G" "c \<in> gC G" "c \<notin> gU G" "c \<notin> gM G" "gnext G c \<in> objs A G" "gnext G c \<in> gC G \<union> gB G"
    "c \<notin> gD A G" "c \<notin> gF G"
proof -
  note inv = kinvD [OF assms(1)]
  show c: "c \<in> objs A G" "c \<in> gC G" "c \<notin> gD A G" "c \<notin> gF G"
    using cu_not_stored [OF inv, of c] assms(2) by simp_all
  show "c \<notin> gU G" using classes_apart(1) [OF inv] assms(2) by auto
  show "c \<notin> gM G" using shapeD(2) [OF minvD(1) [OF inv]] c by (auto simp: kinds_ok_def)
  show "gnext G c \<in> objs A G" "gnext G c \<in> gC G \<union> gB G" using gnext_object [OF inv c(2)] by simp_all
qed

lemma kinv_set_cu:
  assumes "kinv P R m0 m A G X" "c \<in> gL G"
  shows "kinv P R m0 (set_curr_inuse m c) A G X"
proof (rule kinv_step [OF assms(1), where W = "{c}" and K = "{8}"])
  show "changes_in m (set_curr_inuse m c) {c} {8}" by (simp add: set_curr_inuse_def changes_in_upd)
qed (use minv_set_cu [OF kinvD [OF assms(1)]] kinv_loose [OF assms] assms(2) in auto)

lemma kinv_unset_cu:
  assumes "kinv P R m0 m A G X" "c \<in> gL G"
  shows "kinv P R m0 (unset_curr_inuse m c) A G X"
proof (rule kinv_step [OF assms(1), where W = "{c}" and K = "{8}"])
  show "changes_in m (unset_curr_inuse m c) {c} {8}" by (simp add: unset_curr_inuse_def changes_in_upd)
qed (use minv_unset_cu [OF kinvD [OF assms(1)]] kinv_loose [OF assms] assms(2) in auto)

lemma kinv_set_pu: "kinv P R m0 m A G X \<Longrightarrow> x \<in> gC G \<union> gB G \<Longrightarrow> kinv P R m0 (set_prev_inuse m x) A G X"
  by (rule kinv_step [where W = "{x}" and K = "{8}", OF _ _ _ _ _ minv_set_pu [OF kinvD]])
    (auto simp: set_prev_inuse_def objs_def intro: changes_in_upd)

lemma kinv_tag:
  assumes "kinv P R m0 m A G X" "c \<in> gL G" "0 \<le> f" "f < 8"
  shows "kinv P R m0 (m(gnext G c := gsz G c + f)) A G X"
proof (rule kinv_step [OF assms(1), where W = "{gnext G c}" and K = "{0}"])
  show "changes_in m (m(gnext G c := gsz G c + f)) {gnext G c} {0}"
    by (simp add: changes_in_def)
qed (use minv_tag [OF kinvD [OF assms(1)]] kinv_loose [OF assms(1,2)] assms in auto)

lemma kinv_tag_free:
  assumes "kinv P R m0 m A G X" "c \<in> gL G" "get_prev_size m (gnext G c) = gsz G c"
  shows "kinv P R m0 (unset_prev_inuse m (gnext G c)) A G X"
proof (rule kinv_step [OF assms(1), where W = "{gnext G c}" and K = "{8}"])
  show "changes_in m (unset_prev_inuse m (gnext G c)) {gnext G c} {8}"
    by (simp add: unset_prev_inuse_def changes_in_upd)
qed (use minv_tag_free [OF kinvD [OF assms(1)]] kinv_loose [OF assms(1,2)] assms in auto)

lemma kinv_loose_link:
  assumes "kinv P R m0 m A G X" "c \<in> gL G" "k \<in> {16, 24, 32, 40}"
  shows "kinv P R m0 (m(c + k := v)) A G X"
proof (rule kinv_step [OF assms(1), where W = "{c}" and K = "{16, 24, 32, 40}"])
  show "changes_in m (m(c + k := v)) {c} {16, 24, 32, 40}" using assms(3) by (simp add: changes_in_upd)
qed (use minv_loose_link [OF kinvD [OF assms(1)] assms(2,3)] kinv_loose [OF assms(1,2)] in auto)

section \<open>Bins\<close>

lemma ring_not_live:
  assumes inv: "minv m A G X" and h: "h \<in> heads A"
  shows "insert h (set (gbl G h)) \<inter> (gU G \<union> gM G) = {}"
proof -
  note sh = shapeD [OF minvD(1) [OF inv]]
  have "set (gbl G h) \<subseteq> gD A G" using h by (auto simp: gD_def)
  moreover have "gD A G \<inter> gU G = {}" "gD A G \<subseteq> gC G" "gU G \<subseteq> gC G" using sh(3) by (auto simp: part_ok_def)
  moreover have "gC G \<inter> gM G = {}" "h \<notin> gC G" "h \<notin> gM G" using sh(2) h by (auto simp: kinds_ok_def)
  ultimately show ?thesis by blast
qed

lemma kinv_unlink_both:
  assumes k: "kinv P R m0 m A G X" and h: "h \<in> heads A" and c: "c \<in> set (gbl G h)"
  shows "kinv P R m0 (unlink_chunk_from_sortedlist (unlink_chunk_from_fdlist m c) c) A (g_unlink h c G) X"
proof -
  note inv = kinvD [OF k]
  note u = unlink_both_ok [OF inv h c]
  show ?thesis
    using ring_objs(1) [OF minvD(1) [OF inv] h] ring_not_live [OF inv h]
    by (intro kinv_step [OF k u(2) _ _ _ u(1)]) auto
qed

lemma kinv_unlink_fd:
  assumes k: "kinv P R m0 m A G X" and h: "h \<in> heads A - set (largebins A)" and c: "c \<in> set (gbl G h)"
  shows "kinv P R m0 (unlink_chunk_from_fdlist m c) A (g_unlink h c G) X"
proof -
  note inv = kinvD [OF k]
  note u = unlink_fd_ok [OF inv h c]
  have hh: "h \<in> heads A" using h by simp
  show ?thesis
    using ring_objs(1) [OF minvD(1) [OF inv] hh] ring_not_live [OF inv hh]
    by (intro kinv_step [OF k u(2) _ _ _ u(1)]) auto
qed

lemma kinv_insert_fd:
  assumes k: "kinv P R m0 m A G X" and h: "h \<in> heads A - set (largebins A)" and c: "c \<in> gL G"
    and cl: "\<And>i. i < 32 \<Longrightarrow> h = smallbins A ! i \<Longrightarrow> gsz G c = 16 * (int i + 1)"
    and nul: "m (c + 32) = 0" "m (c + 40) = 0" and cu: "\<not> is_curr_inuse m c"
  shows "kinv P R m0 (insert_into_fdlist m h c) A (g_insert h c G) X"
proof -
  note inv = kinvD [OF k]
  note u = insert_fd_ok [OF inv h c cl nul cu]
  have hh: "h \<in> heads A" using h by simp
  show ?thesis
    using ring_objs(1) [OF minvD(1) [OF inv] hh] ring_not_live [OF inv hh] kinv_loose [OF k c]
    by (intro kinv_step [OF k u(2) _ _ _ u(1)]) auto
qed

lemma unsorted_head:
  assumes "minv m A G X"
  shows "unsortedbin A \<in> heads A - set (largebins A)" "unsortedbin A \<noteq> 0"
    "i < 32 \<Longrightarrow> unsortedbin A \<noteq> smallbins A ! i"
proof -
  have b: "bins_ok A" by (rule shapeD(1) [OF minvD(1) [OF assms]])
  then show h: "unsortedbin A \<in> heads A - set (largebins A)" by (auto simp: bins_ok_def heads_def)
  show "unsortedbin A \<noteq> 0"
    using shape_pos [OF minvD(1) [OF assms], of "unsortedbin A"] h by (auto simp: objs_def)
  show "unsortedbin A \<noteq> smallbins A ! i" if "i < 32"
    using b that nth_mem [of i "smallbins A"] by (auto simp: bins_ok_def)
qed

section \<open>Watched headers\<close>

text \<open>
  What an operation leaves of the headers of other chunks. \<open>inner G y\<close>: \<open>y\<close> is a chunk, or the header of a former
  chunk that now lies inside another one, behind its link fields. \<open>same_hdr m m' y\<close>: size, in-use flag and
  mark bit at \<open>y\<close> are the same. \<open>watch n Z m G m' G'\<close>: this holds for all of \<open>Z\<close>, and all of its chunks but \<open>n\<close> are still chunks.
\<close>

definition inner :: "ghost \<Rightarrow> addr \<Rightarrow> bool" where
  "inner G y \<longleftrightarrow> y \<in> gC G \<or> (\<exists>u\<in>gC G. u + 48 \<le> y \<and> y + 16 \<le> gnext G u)"

definition same_hdr :: "mem \<Rightarrow> mem \<Rightarrow> addr \<Rightarrow> bool" where
  "same_hdr m m' y \<longleftrightarrow> get_size m' y = get_size m y \<and> is_curr_inuse m' y = is_curr_inuse m y \<and> m' y AND 2 = m y AND 2"

definition watch :: "addr \<Rightarrow> addr set \<Rightarrow> mem \<Rightarrow> ghost \<Rightarrow> mem \<Rightarrow> ghost \<Rightarrow> bool" where
  "watch n Z m G m' G' \<longleftrightarrow> gC G \<inter> Z - {n} \<subseteq> gC G' \<and> (\<forall>y\<in>Z. inner G y \<longrightarrow> inner G' y \<and> same_hdr m m' y)"

lemma same_hdr_refl [simp]: "same_hdr m m y"
  by (simp add: same_hdr_def)

lemma same_hdr_trans: "same_hdr m m1 y \<Longrightarrow> same_hdr m1 m2 y \<Longrightarrow> same_hdr m m2 y"
  by (simp add: same_hdr_def)

lemma same_hdr_cells: "m' y = m y \<Longrightarrow> m' (y + 8) = m (y + 8) \<Longrightarrow> same_hdr m m' y"
  by (simp add: same_hdr_def get_size_def is_curr_inuse_def)

lemma watch_trans: "watch n Z m G m1 G1 \<Longrightarrow> watch n Z m1 G1 m2 G2 \<Longrightarrow> watch n Z m G m2 G2"
  unfolding watch_def using same_hdr_trans by blast

lemma inner_cong: "gC G' = gC G \<Longrightarrow> gsz G' = gsz G \<Longrightarrow> inner G' y = inner G y"
  by (simp add: inner_def gnext_def)

lemma watchI: "gC G' = gC G \<Longrightarrow> gsz G' = gsz G \<Longrightarrow> (\<And>y. y \<in> Z \<Longrightarrow> inner G y \<Longrightarrow> same_hdr m m' y) \<Longrightarrow> watch n Z m G m' G'"
  using inner_cong [of G' G] by (auto simp: watch_def)

lemma inner_cell:
  assumes s: "shape A G" and y: "inner G y" and x: "x \<in> objs A G" and k: "0 \<le> k" "k < 48" "j \<in> {0, 8}"
  shows "y + j = x + k \<longleftrightarrow> y = x \<and> j = k"
proof (cases "y \<in> gC G")
  case True
  then show ?thesis using spaced_cell [OF shape_spaced [OF s] _ x, of y j k] k by (auto simp: objs_def)
next
  case False
  then obtain u where u: "u \<in> gC G" "u + 48 \<le> y" "y + 16 \<le> gnext G u" using y by (auto simp: inner_def)
  have uo: "u \<in> objs A G" "gext G u = 16 + gsz G u" using u(1) by (simp_all add: objs_def gext_def)
  have "x = u \<or> x + gext G x \<le> u \<or> u + gext G u \<le> x" using shapeD(5) [OF s] x uo(1) unfolding layout_ok_def by (metis linorder_neqE)
  then show ?thesis using u uo(2) shape_gext [OF s x] k by (auto simp: gnext_def)
qed

lemma hdr_links:
  assumes s: "shape A G" and y: "inner G y" and ch: "changes_in m m' W K" "W \<subseteq> objs A G" "K \<subseteq> {16..<48}"
  shows "same_hdr m m' y"
proof (rule same_hdr_cells)
  have "m' (y + j) = m (y + j)" if "j \<in> {0, 8}" for j
  proof (rule ccontr)
    assume "m' (y + j) \<noteq> m (y + j)"
    then obtain x k where xk: "x \<in> W" "k \<in> K" "y + j = x + k" using ch(1) by (auto simp: changes_in_def)
    then have "0 \<le> k" "k < 48" "16 \<le> k" "x \<in> objs A G" using ch(2,3) by auto
    then show False using inner_cell [OF s y, of x k j] xk(3) that by auto
  qed
  from this [of 0] this [of 8] show "m' y = m y" "m' (y + 8) = m (y + 8)" by simp_all
qed

lemma hdr_size:
  assumes s: "shape A G" and y: "inner G y" and x: "x \<in> objs A G" "x \<noteq> y"
  shows "same_hdr m (m(x + 8 := v)) y"
  using inner_cell [OF s y x(1), of 8 0] inner_cell [OF s y x(1), of 8 8] x(2) by (intro same_hdr_cells) auto

lemma hdr_prev:
  assumes s: "shape A G" and y: "inner G y" and x: "x \<in> objs A G"
  shows "same_hdr m (unset_prev_inuse m x) y"
  using inner_cell [OF s y x, of 8 0] by (simp add: same_hdr_def chunk_simps)

lemma hdr_tag:
  assumes s: "shape A G" and y: "inner G y" and x: "x \<in> objs A G"
    and t: "0 \<le> t" "t < 2 ^ 62" "t mod 16 = 0" and f: "f = m x AND 7 \<or> x \<noteq> y"
  shows "same_hdr m (m(x := t + f)) y"
proof (cases "x = y")
  case True
  have "f = m x AND 7" using f True by simp
  moreover have "0 \<le> m x AND 7" "m x AND 7 < 8" by (simp_all add: and_7_mod)
  ultimately have f8: "0 \<le> f" "f < 8" "f = m x AND 7" by simp_all
  have "(t + f) AND 2 = ((t + f) AND 7) AND 2" "(m x AND 7) AND 2 = m x AND 2" by (rule bit_eqI; auto simp: flag_bits)+
  then have "(t + f) AND 2 = m x AND 2" using size_word(5) [OF t f8(1,2)] f8(3) by simp
  then show ?thesis using True by (simp add: same_hdr_def get_size_def is_curr_inuse_def)
next
  case False
  then show ?thesis using inner_cell [OF s y x, of 0 0] inner_cell [OF s y x, of 0 8] by (intro same_hdr_cells) auto
qed

lemma insert_into_unsortedbin_watch:
  assumes k: "kinv P R m0 (hmem s) (arena s) G X" and c: "c \<in> gL G" "c \<notin> X" "c \<notin> Z"
  obtains m' where "insert_into_unsortedbin s c = Some (put_mem m' s)"
    "kinv P R m0 m' (arena s) (g_insert (unsortedbin (arena s)) c G) X"
    "watch n Z (hmem s) G m' (g_insert (unsortedbin (arena s)) c G)"
proof -
  let ?A = "arena s" and ?x = "gnext G c" and ?u = "unsortedbin (arena s)"
  note lo = kinv_loose [OF k c(1)] and sz = size_binned [OF kinvD [OF k] kinv_loose(2) [OF k c(1)] c(2)]
  have x: "?x \<ge> c + 48" and big: "\<not> gsz G c \<le> 16" using sz by (simp_all add: gnext_def)
  define m1 where "m1 = unset_curr_inuse (hmem s) c"
  define f where "f = get_prev_size_flags (unset_prev_inuse m1 ?x) ?x"
  define m2 where "m2 = unset_prev_inuse (m1(?x := gsz G c + f)) ?x"
  define m3 where "m3 = m2(c + 40 := 0, c + 32 := 0)"
  have f: "0 \<le> f" "f < 8" unfolding f_def by (rule flags_range)+
  have k1: "kinv P R m0 m1 ?A G X" unfolding m1_def by (rule kinv_unset_cu [OF k c(1)])
  have tag: "get_prev_size (m1(?x := gsz G c + f)) ?x = gsz G c"
    using sz f by (intro get_prev_size_word) simp_all
  have k2: "kinv P R m0 m2 ?A G X" unfolding m2_def
    by (rule kinv_tag_free [OF kinv_tag [OF k1 c(1) f] c(1) tag])
  have k3: "kinv P R m0 m3 ?A G X" unfolding m3_def
    by (intro kinv_loose_link k2 c(1)) simp_all
  have cu: "\<not> is_curr_inuse m3 c"
    using x by (simp add: m3_def m2_def m1_def is_curr_inuse_def unset_prev_inuse_def unset_curr_inuse_def)
  have e: "set_prev_size (unset_prev_inuse m1 ?x) ?x (gsz G c) f = Some m2"
    using sz f by (simp add: set_prev_size_apply m2_def unset_prev_inuse_def fun_upd_twist)
  have kf: "kinv P R m0 (insert_into_fdlist m3 ?u c) ?A (g_insert ?u c G) X"
    by (rule kinv_insert_fd [OF k3 unsorted_head(1) [OF kinvD [OF k]] c(1) _ _ _ cu])
      (use unsorted_head(3) [OF kinvD [OF k]] in \<open>auto simp: m3_def\<close>)
  have ins: "insert_into_unsortedbin s c = Some (put_mem (insert_into_fdlist m3 ?u c) s)"
    using unsorted_head(2) [OF kinvD [OF k]] big e size_binned(1) [OF kinvD [OF k2] lo(2) c(2)]
    by (simp add: insert_into_unsortedbin_def Let_def m1_def [symmetric] f_def [symmetric]
        next_chunk_flag_ops get_size_flag_ops m3_def set_nextprev_sizeptr_to_def
        size_binned [OF kinvD [OF k1] lo(2) c(2)])
  have sh: "shape ?A G" by (rule minvD(1) [OF kinvD [OF k]])
  have hd: "?u \<in> heads ?A" using unsorted_head(1) [OF kinvD [OF k]] by simp
  have "same_hdr (hmem s) (insert_into_fdlist m3 ?u c) y" if y: "y \<in> Z" "inner G y" for y
  proof -
    have f7: "f = m1 ?x AND 7" using inner_cell [OF sh _ lo(5), of ?x 8 0] unset_prev_inuse_def by (simp add: f_def get_prev_size_flags_def chunk_simps)
    have "c \<noteq> y" using y(1) c(3) by auto
    then have h1: "same_hdr (hmem s) m1 y" unfolding m1_def unset_curr_inuse_def by (rule hdr_size [OF sh y(2) lo(1)])
    have h2: "same_hdr m1 (m1(?x := gsz G c + f)) y" by (rule hdr_tag [OF sh y(2) lo(5)]) (use sz f7 in auto)
    have h3: "same_hdr (m1(?x := gsz G c + f)) m2 y" unfolding m2_def by (rule hdr_prev [OF sh y(2) lo(5)])
    have h4: "same_hdr m2 m3 y" unfolding m3_def
      by (rule hdr_links [OF sh y(2), where W = "{c}" and K = "{32, 40}"]) (use lo in \<open>auto intro!: changes_in_upd\<close>)
    have "same_hdr m3 (insert_into_fdlist m3 ?u c) y"
    proof (rule hdr_links [OF sh y(2) insert_fd_ring(2) [OF sh _ hd c(1)]])
      show "ring m3 16 24 ?u (gbl G ?u)" using minvD(3) [OF kinvD [OF k3]] hd by (simp add: link_ok_def)
      show "insert c (insert ?u (set (gbl G ?u))) \<subseteq> objs ?A G" using ring_objs(1) [OF sh hd] lo(1) by auto
    qed auto
    with h1 h2 h3 h4 show ?thesis by (blast intro: same_hdr_trans)
  qed
  then have "watch n Z (hmem s) G (insert_into_fdlist m3 ?u c) (g_insert ?u c G)" by (intro watchI) simp_all
  with that kf ins show ?thesis by blast
qed

lemma insert_into_unsortedbin_ok:
  assumes k: "kinv P R m0 (hmem s) (arena s) G X" and c: "c \<in> gL G" "c \<notin> X"
  obtains m' where "insert_into_unsortedbin s c = Some (put_mem m' s)"
    "kinv P R m0 m' (arena s) (g_insert (unsortedbin (arena s)) c G) X"
  by (rule insert_into_unsortedbin_watch [OF k c, of "{}"]) (auto intro: that)


section \<open>Splitting a chunk\<close>

definition g_split :: "addr \<Rightarrow> int \<Rightarrow> ghost \<Rightarrow> ghost" where
  "g_split c n G = G\<lparr>gC := insert (c + 16 + n) (gC G), gL := insert (c + 16 + n) (gL G),
     gsz := (gsz G)(c := n, c + 16 + n := gsz G c - n - 16)\<rparr>"

lemma g_split_simps [simp]:
  "gC (g_split c n G) = insert (c + 16 + n) (gC G)" "gB (g_split c n G) = gB G" "gM (g_split c n G) = gM G"
  "gU (g_split c n G) = gU G" "gL (g_split c n G) = insert (c + 16 + n) (gL G)"
  "gsz (g_split c n G) = (gsz G)(c := n, c + 16 + n := gsz G c - n - 16)"
  "gfl (g_split c n G) = gfl G" "gbl (g_split c n G) = gbl G" "gsl (g_split c n G) = gsl G"
  "gF (g_split c n G) = gF G" "gD A (g_split c n G) = gD A G"
  "objs A (g_split c n G) = insert (c + 16 + n) (objs A G)"
  by (auto simp: g_split_def gF_def gD_def objs_def)

lemma inside_not_object:
  assumes "shape A G" "c \<in> gC G" "c < x" "x < c + 16 + gsz G c"
  shows "x \<notin> objs A G"
proof
  assume "x \<in> objs A G"
  then have "c + gext G c \<le> x" using shapeD(5) [OF assms(1)] assms(2,3) by (auto simp: layout_ok_def objs_def)
  then show False using assms by (simp add: gext_def)
qed

lemma objs_apart:
  assumes "shape A G" "x \<in> objs A G" "y \<in> objs A G" "x < y"
  shows "x + gext G x \<le> y"
  using shapeD(5) [OF assms(1)] assms by (auto simp: layout_ok_def)

lemma gnext_inj:
  assumes s: "shape A G" and "c \<in> gC G" "d \<in> gC G" "gnext G c = gnext G d"
  shows "c = d"
proof (rule ccontr)
  assume "c \<noteq> d"
  then consider "c < d" | "d < c" by linarith
  then show False
    using objs_apart [OF s, of c d] objs_apart [OF s, of d c] assms shape_gext [OF s, of c] shape_gext [OF s, of d]
    by cases (auto simp: gnext_def gext_def objs_def)
qed

text \<open>Sizes of chunks outside the bins do not matter to the bins.\<close>

lemma lists_ok_sizes:
  assumes l: "lists_ok A G" and e: "gfl G' = gfl G" "gbl G' = gbl G" "gsl G' = gsl G"
    and sz: "\<And>x. x \<in> gD A G \<Longrightarrow> gsz G' x = gsz G x"
  shows "lists_ok A G'"
proof -
  have "map (gsz G') (gsl G h) = map (gsz G) (gsl G h)" if "h \<in> set (largebins A)" for h
  proof (rule map_cong [OF refl])
    fix x assume "x \<in> set (gsl G h)"
    then have "x \<in> gD A G" using lists_sorted [OF l that] that by (auto simp: gD_def heads_def)
    then show "gsz G' x = gsz G x" using sz by blast
  qed
  then show ?thesis using l unfolding lists_ok_def e by (simp del: map_eq_conv)
qed

lemma class_ok_sizes:
  assumes b: "bins_ok A" and c: "class_ok A G" and e: "gfl G' = gfl G" "gbl G' = gbl G"
    and sz: "\<And>x. x \<in> gD A G \<union> gF G \<Longrightarrow> gsz G' x = gsz G x"
  shows "class_ok A G'"
proof -
  have h: "smallbins A ! i \<in> heads A" if "i < 32" for i
    using that b nth_mem [of i "smallbins A"] by (auto simp: bins_ok_def heads_def)
  have "gsz G' x = gsz G x" if "i < 7" "x \<in> set (gfl G i)" for i x
    using that by (intro sz) (auto simp: gF_def)
  moreover have "gsz G' x = gsz G x" if "i < 32" "x \<in> set (gbl G (smallbins A ! i))" for i x
    using that h by (intro sz) (auto simp: gD_def)
  ultimately show ?thesis using c unfolding class_ok_def e by simp
qed

lemma layout_split:
  assumes s: "shape A G" and cC: "c \<in> gC G" and n: "32 \<le> n" "n mod 16 = 0" "n + 48 \<le> gsz G c"
  shows "layout_ok A (g_split c n G)"
proof -
  note sh = shapeD [OF s]
  let ?r = "c + 16 + n" and ?G = "g_split c n G"
  have r: "?r \<notin> objs A G" using n by (intro inside_not_object [OF s cC]) auto
  have rn: "?r \<notin> gC G" "?r \<notin> gB G" "?r \<notin> gM G" "?r \<notin> heads A" using r by (auto simp: objs_def)
  have cO: "c \<in> objs A G" using cC by (simp add: objs_def)
  have cr: "c \<noteq> ?r" "gext G c = 16 + gsz G c" using n cC by (auto simp: gext_def)
  have ext: "gext ?G x = (if x = c then 16 + n else if x = ?r then gsz G c - n else gext G x)" for x
    using rn cC n by (auto simp: gext_def)
  have le: "x + gext ?G x \<le> x + gext G x" if "x \<noteq> ?r" for x using that ext [of x] cr n by auto
  have 1: "x + gext ?G x \<le> y" if x: "x \<in> objs A ?G" and y: "y \<in> objs A ?G" and lt: "x < y" for x y
  proof (cases "y = ?r")
    case True
    show ?thesis
    proof (cases "x = c")
      case True
      then show ?thesis using \<open>y = ?r\<close> ext [of c] n by simp
    next
      case False
      have xO: "x \<in> objs A G" using x lt True by auto
      have "x < c" using inside_not_object [OF s cC, of x] xO lt True False n by fastforce
      then have "x + gext G x \<le> c" using objs_apart [OF s xO cO] by simp
      then show ?thesis using le [of x] lt True n by simp
    qed
  next
    case False
    then have yO: "y \<in> objs A G" using y by simp
    show ?thesis
    proof (cases "x = ?r")
      case True
      have "c < y" using lt True n by simp
      then have "c + 16 + gsz G c \<le> y" using objs_apart [OF s cO yO] cr by simp
      then show ?thesis using True ext [of ?r] cr n by simp
    next
      case xr: False
      then have "x + gext G x \<le> y" using objs_apart [OF s _ yO lt] x by simp
      then show ?thesis using le [OF xr] by linarith
    qed
  qed
  have 2: "0 < x \<and> x + gext ?G x < 2 ^ 62" if x: "x \<in> objs A ?G" for x
  proof -
    have c2: "0 < c" "c + gext G c < 2 ^ 62" using sh(5) cO by (simp_all add: layout_ok_def)
    show ?thesis
    proof (cases "x = ?r")
      case True
      then show ?thesis using c2 ext [of ?r] cr n by auto
    next
      case False
      then show ?thesis using le [OF False] sh(5) x by (fastforce simp: layout_ok_def)
    qed
  qed
  have 3: "32 \<le> gsz ?G x \<and> gsz ?G x mod 16 = 0 \<and> x mod 16 = 0 \<and> gnext ?G x \<in> gC ?G \<union> gB ?G"
    if x: "x \<in> gC ?G" for x
  proof -
    have lc: "gsz G c mod 16 = 0" "c mod 16 = 0" "gnext G c \<in> gC G \<union> gB G"
      using sh(5) cC by (simp_all add: layout_ok_def)
    have "(gsz G c - n - 16) mod 16 = 0" "?r mod 16 = 0" using lc n by presburger+
    then show ?thesis using x lc n cr(1) sh(5)
      by (auto simp: gnext_def layout_ok_def algebra_simps)
  qed
  have 4: "131072 \<le> gsz ?G x \<and> gsz ?G x mod 16 = 0 \<and> x mod 16 = 0" if x: "x \<in> gM ?G" for x
    using x sh(2,5) cC rn by (auto simp: layout_ok_def kinds_ok_def)
  show ?thesis unfolding layout_ok_def using 1 2 3 4 by blast
qed

lemma shape_split:
  assumes s: "shape A G" and c: "c \<in> gL G" and n: "32 \<le> n" "n mod 16 = 0" "n + 48 \<le> gsz G c"
  shows "shape A (g_split c n G)"
proof -
  note sh = shapeD [OF s]
  let ?r = "c + 16 + n" and ?G = "g_split c n G"
  have cC: "c \<in> gC G" and cD: "c \<notin> gD A G" "c \<notin> gF G" using part_sub [OF s] c sh(3) by (auto simp: part_ok_def)
  have r: "?r \<notin> objs A G" using n by (intro inside_not_object [OF s cC]) auto
  have rn: "?r \<notin> gC G" "?r \<notin> gB G" "?r \<notin> gM G" "?r \<notin> heads A" using r by (auto simp: objs_def)
  have rp: "?r \<notin> gU G" "?r \<notin> gL G" "?r \<notin> gF G" "?r \<notin> gD A G" "?r \<notin> gT A"
    using rn sh(3) by (auto simp: part_ok_def)
  have same: "gsz ?G x = gsz G x" if "x \<in> gD A G \<union> gF G" for x using that rp cD by auto
  have "kinds_ok A ?G" using sh(2) rn by (auto simp: kinds_ok_def)
  moreover have "part_ok A ?G" using sh(3) rp unfolding part_ok_def by auto
  moreover have "lists_ok A ?G" "class_ok A ?G"
    using lists_ok_sizes [OF sh(4), of ?G] class_ok_sizes [OF sh(1,6), of ?G] same by auto
  moreover have "layout_ok A ?G" by (rule layout_split [OF s cC n])
  ultimately show ?thesis using sh(1) by (simp add: shape_def)
qed

lemma cell_outside_chunk:
  assumes "shape A G" "c \<in> gC G" "x \<in> objs A G" "x \<noteq> c \<or> k < 16" "0 \<le> k" "k < 48" "a \<in> payload G c"
  shows "x + k \<noteq> a"
  using cell_not_in_payload [OF assms(1,3), of c k] assms by auto

lemma payload_disjoint:
  assumes s: "shape A G" and "u \<in> gC G \<union> gM G" "v \<in> gC G \<union> gM G" "u \<noteq> v"
  shows "payload G u \<inter> payload G v = {}"
proof -
  have o: "u \<in> objs A G" "v \<in> objs A G" "gext G u = 16 + gsz G u" "gext G v = 16 + gsz G v"
    using assms(2,3) by (auto simp: objs_def gext_def)
  consider "u < v" | "v < u" using assms(4) by linarith
  then show ?thesis
    using objs_apart [OF s o(1,2)] objs_apart [OF s o(2,1)] o by cases (auto simp: payload_def)
qed

lemma hdr_split:
  assumes inv: "minv m A G X" and c: "c \<in> gL G" and n: "32 \<le> n" "n mod 16 = 0" "n + 48 \<le> gsz G c"
    and out0: "\<And>x. x \<in> objs A G \<Longrightarrow> x \<noteq> gnext G c \<Longrightarrow> m' x = m x"
    and out8: "\<And>x. x \<in> objs A G \<Longrightarrow> m' (x + 8) = m (x + 8)"
    and rs: "get_size m' (c + 16 + n) = gsz G c - n - 16" and pu: "is_prev_inuse m' (c + 16 + n)"
    and ys: "get_prev_size m' (gnext G c) = gsz G c - n - 16"
  shows "hdr_ok m' A (g_split c n G) (insert c X)"
proof -
  note s = minvD(1) [OF inv] and h = minvD(2) [OF inv]
  let ?G = "g_split c n G" and ?y = "gnext G c"
  define r where "r = c + 16 + n"
  define q where "q = gsz G c - n - 16"
  note rs = rs [folded r_def q_def] and pu = pu [folded r_def] and ys = ys [folded q_def]
  have cC: "c \<in> gC G" using part_sub [OF s] c by auto
  have rO: "r \<notin> objs A G" unfolding r_def using n by (intro inside_not_object [OF s cC]) auto
  have sub: "x \<in> objs A G" if "x \<in> gC G \<union> gM G \<union> gB G \<union> gD A G \<union> gF G \<union> gU G" for x
    using that part_sub [OF s] by (auto simp: objs_def)
  have eq: "get_size m' x = get_size m x" "is_curr_inuse m' x = is_curr_inuse m x"
    "is_prev_inuse m' x = is_prev_inuse m x" if "x \<in> objs A G" for x
    using out8 [OF that] by (simp_all add: get_size_def is_curr_inuse_def is_prev_inuse_def)
  have 1: "get_size m' x = gsz ?G x" if "x \<in> gC ?G \<union> gM ?G" "x \<notin> insert c X" for x
    using that rs eq [OF sub] h rO by (cases "x = r") (auto simp: hdr_ok_def r_def q_def)
  have 5: "\<exists>d\<in>gD A ?G \<union> gL ?G. gnext ?G d = x \<and> get_prev_size m' x = gsz ?G d"
    if x: "x \<in> gC ?G" "\<not> is_prev_inuse m' x" for x
  proof (cases "x = ?y")
    case True
    have "gnext ?G r = ?y" "gsz ?G r = q" "r \<in> gL ?G" by (simp_all add: gnext_def r_def q_def)
    then show ?thesis using True ys by blast
  next
    case False
    have xC: "x \<in> gC G" using x pu by (auto simp: r_def)
    then have "\<not> is_prev_inuse m x" using x eq [OF sub] by simp
    then obtain d where d: "d \<in> gD A G \<union> gL G" "gnext G d = x" "get_prev_size m x = gsz G d"
      using prev_free [OF inv xC] by blast
    have "d \<in> gC G" using d part_sub [OF s] by auto
    then have "d \<noteq> r" "d \<noteq> c" using rO d False by (auto simp: objs_def)
    then have "gsz ?G d = gsz G d" by (simp add: r_def)
    moreover have "get_prev_size m' x = get_prev_size m x"
      using out0 [OF sub False] xC by (intro get_prev_size_cong) simp
    ultimately show ?thesis using d by (intro bexI [of _ d]) (auto simp: gnext_def)
  qed
  show ?thesis unfolding hdr_ok_def using 1 5 h eq(2) [OF sub] by (auto simp: hdr_ok_def)
qed

lemma region_sizes:
  assumes "gU G \<union> gM G \<subseteq> gU G' \<union> gM G'" "\<And>u. u \<in> gU G \<union> gM G \<Longrightarrow> gsz G' u = gsz G u"
  shows "region G \<subseteq> region G'"
  unfolding region_def using assms by (fastforce simp: payload_def)

lemma foot_split:
  assumes s: "shape A G" and c: "c \<in> gC G" and n: "32 \<le> n" "n mod 16 = 0" "n + 48 \<le> gsz G c"
  shows "foot A (g_split c n G) \<subseteq> foot A G"
proof
  fix a assume "a \<in> foot A (g_split c n G)"
  then obtain x where x: "x \<in> insert (c + 16 + n) (gC G \<union> gB G \<union> heads A)" "x \<le> a" "a < x + gext (g_split c n G) x"
    by (auto simp: foot_def)
  have r: "c + 16 + n \<notin> objs A G" using n by (intro inside_not_object [OF s c]) auto
  show "a \<in> foot A G"
  proof (cases "x = c \<or> x = c + 16 + n")
    case True
    then have "c \<le> a" "a < c + gext G c" using x c n by (auto simp: gext_def split: if_splits)
    then show ?thesis using c unfolding foot_def by fastforce
  next
    case False
    then have "gext (g_split c n G) x = gext G x" by (simp add: gext_def)
    then show ?thesis using x False unfolding foot_def by fastforce
  qed
qed

lemma kinv_split:
  assumes k: "kinv P R m0 m A G X" and c: "c \<in> gL G" and n: "32 \<le> n" "n mod 16 = 0" "n + 48 \<le> gsz G c"
  defines "r \<equiv> c + 16 + n" and "q \<equiv> gsz G c - n - 16"
  defines "m' \<equiv> m(r + 8 := q + 1, gnext G c := q)"
  shows "kinv P R m0 m' A (g_split c n G) (insert c X)" and "is_prev_inuse m' r"
proof -
  note inv = kinvD [OF k] and lo = kinv_loose [OF k c]
  note s = minvD(1) [OF inv] and h = minvD(2) [OF inv]
  let ?G = "g_split c n G" and ?y = "gnext G c"
  have sz: "gsz G c < 2 ^ 62" "gsz G c mod 16 = 0" using gsz_range [OF inv lo(2)] by simp_all
  have q: "0 < q" "q < 2 ^ 62" "q mod 16 = 0" using n sz unfolding q_def by presburger+
  have yr: "?y = r + 16 + q" by (simp add: gnext_def r_def q_def)
  have rp: "r + 8 \<in> payload G c" using n by (simp add: payload_def r_def)
  have rO: "r \<notin> objs A G" unfolding r_def using n by (intro inside_not_object [OF s lo(2)]) auto
  have out: "m' (x + j) = m (x + j)"
    if "x \<in> objs A G" "x \<noteq> c \<or> j < 16" "0 \<le> j" "j < 48" "x \<noteq> ?y \<or> j \<noteq> 0" for x j
    using cell_outside_chunk [OF s lo(2) that(1-4) rp] spaced_cell [OF shape_spaced [OF s] that(1) lo(5), of j 0] that
    by (auto simp: m'_def)
  have out0: "m' x = m x" if "x \<in> objs A G" "x \<noteq> ?y" for x using out [OF that(1), of 0] that by simp
  have out8: "m' (x + 8) = m (x + 8)" if "x \<in> objs A G" for x using out [OF that, of 8] by simp
  have rw: "m' (r + 8) = q + 1" using yr q by (simp add: m'_def)
  have yw: "m' ?y = q" by (simp add: m'_def)
  show pu: "is_prev_inuse m' r" using size_word(4) [of q 1] q rw by (simp add: is_prev_inuse_def)
  have rs: "get_size m' r = q" using size_word(2) [of q 1] q rw by (simp add: get_size_def)
  have ys: "get_prev_size m' ?y = q" using get_prev_size_word [of m' ?y q 0] q yw by simp
  have sub: "x \<in> objs A G" if "x \<in> gC G \<union> gM G \<union> gB G \<union> gD A G \<union> gF G \<union> gU G" for x
    using that part_sub [OF s] by (auto simp: objs_def)
  have "link_ok m' A G = link_ok m A G"
  proof (rule link_ok_cong)
    fix x j assume x: "x \<in> heads A \<union> gD A G \<union> gF G" and j: "j \<in> {16, 24, 32, 40::int}"
    have "x \<in> objs A G" "x \<noteq> c" using x lo sub shapeD(2) [OF s] by (auto simp: objs_def kinds_ok_def)
    then show "m' (x + j) = m (x + j)" using j by (intro out) auto
  qed (rule shapeD [OF s])
  then have lk: "link_ok m' A ?G" using minvD(3) [OF inv] by (simp add: link_ok_def)
  have hd: "hdr_ok m' A ?G (insert c X)"
    using hdr_split [OF inv c n, of m', folded r_def q_def] out0 out8 rs pu ys by blast
  have "m' a = m a" if a: "a \<in> R" for a
  proof -
    obtain u where u: "u \<in> gU G \<union> gM G" "a \<in> payload G u" using k a unfolding kinv_def region_def by blast
    have uC: "u \<in> gC G \<union> gM G" "u \<noteq> c" using u lo part_sub [OF s] by auto
    have "a \<noteq> r + 8" using payload_disjoint [OF s uC(1) _ uC(2)] lo(2) rp u by auto
    moreover have "a \<noteq> ?y" using cell_not_in_payload [OF s lo(5) uC(1), of 0] u by auto
    ultimately show ?thesis by (simp add: m'_def)
  qed
  moreover have "region G \<subseteq> region ?G"
    using lo rO sub by (intro region_sizes) (auto simp: r_def)
  ultimately show "kinv P R m0 m' A ?G (insert c X)"
    using k lk hd shape_split [OF s c n] foot_split [OF s lo(2) n] by (auto simp: kinv_def minv_def)
qed

section \<open>Merging two neighbours\<close>

definition g_merge :: "addr \<Rightarrow> addr \<Rightarrow> ghost \<Rightarrow> ghost" where
  "g_merge c d G = G\<lparr>gC := gC G - {d}, gL := gL G - {d}, gsz := (gsz G)(c := gsz G c + 16 + gsz G d)\<rparr>"

lemma g_merge_simps [simp]:
  "gC (g_merge c d G) = gC G - {d}" "gB (g_merge c d G) = gB G" "gM (g_merge c d G) = gM G"
  "gU (g_merge c d G) = gU G" "gL (g_merge c d G) = gL G - {d}"
  "gsz (g_merge c d G) = (gsz G)(c := gsz G c + 16 + gsz G d)"
  "gfl (g_merge c d G) = gfl G" "gbl (g_merge c d G) = gbl G" "gsl (g_merge c d G) = gsl G"
  "gF (g_merge c d G) = gF G" "gD A (g_merge c d G) = gD A G"
  by (auto simp: g_merge_def gF_def gD_def)

lemma objs_merge: "shape A G \<Longrightarrow> d \<in> gC G \<Longrightarrow> objs A (g_merge c d G) = objs A G - {d}"
  using shapeD(2) by (fastforce simp: objs_def kinds_ok_def)

lemma layout_merge:
  assumes s: "shape A G" and c: "c \<in> gC G" and d: "d \<in> gC G" "gnext G c = d"
  shows "layout_ok A (g_merge c d G)"
proof -
  note sh = shapeD [OF s]
  let ?G = "g_merge c d G"
  note o = objs_merge [OF s d(1), of c]
  have oc: "c \<in> objs A G" "d \<in> objs A G" "c \<notin> gM G" using c d sh(2) by (auto simp: objs_def kinds_ok_def)
  have lay: "32 \<le> gsz G x \<and> gsz G x mod 16 = 0 \<and> x mod 16 = 0 \<and> gnext G x \<in> gC G \<union> gB G" if "x \<in> gC G" for x
    using sh(5) that by (simp add: layout_ok_def)
  have cd: "d = c + 16 + gsz G c" "c < d" "c \<noteq> d" using d lay [OF c] by (auto simp: gnext_def)
  have e: "gext G c = 16 + gsz G c" "gext G d = 16 + gsz G d" using c d by (simp_all add: gext_def)
  have ext: "gext ?G x = (if x = c then 32 + gsz G c + gsz G d else gext G x)" if "x \<noteq> d" for x
    using that c cd by (auto simp: gext_def)
  have 1: "x + gext ?G x \<le> y" if x: "x \<in> objs A ?G" and y: "y \<in> objs A ?G" and lt: "x < y" for x y
  proof (cases "x = c")
    case True
    have yO: "y \<in> objs A G" "y \<noteq> d" using y o by auto
    have "d \<le> y" using objs_apart [OF s oc(1) yO(1)] lt True e cd by simp
    then have "d + gext G d \<le> y" using objs_apart [OF s oc(2) yO(1)] yO(2) by simp
    then show ?thesis using True ext [of c] cd e by simp
  next
    case False
    then show ?thesis using objs_apart [OF s, of x y] x y lt o ext [of x] by auto
  qed
  have 2: "0 < x \<and> x + gext ?G x < 2 ^ 62" if x: "x \<in> objs A ?G" for x
  proof -
    have "0 < x" "x + gext G x < 2 ^ 62" "d + gext G d < 2 ^ 62"
      using sh(5) x oc o by (auto simp: layout_ok_def)
    then show ?thesis using x o ext [of x] cd e by auto
  qed
  have 3: "32 \<le> gsz ?G x \<and> gsz ?G x mod 16 = 0 \<and> x mod 16 = 0 \<and> gnext ?G x \<in> gC ?G \<union> gB ?G"
    if x: "x \<in> gC ?G" for x
  proof (cases "x = c")
    case True
    have "(gsz G c + 16 + gsz G d) mod 16 = 0" using lay [OF c] lay [OF d(1)] by (simp add: mod_eq_0_iff_dvd)
    moreover have "gnext ?G c = gnext G d" using cd by (simp add: gnext_def)
    moreover have "gnext G d \<noteq> d" using lay [OF d(1)] by (simp add: gnext_def)
    ultimately show ?thesis using True lay [OF c] lay [OF d(1)] by simp
  next
    case False
    then have xC: "x \<in> gC G" and nx: "gnext ?G x = gnext G x" using x by (auto simp: gnext_def)
    have "gnext G x \<noteq> d" using gnext_inj [OF s xC c] d False by auto
    then show ?thesis using lay [OF xC] False nx by simp
  qed
  have 4: "131072 \<le> gsz ?G x \<and> gsz ?G x mod 16 = 0 \<and> x mod 16 = 0" if x: "x \<in> gM ?G" for x
    using x sh(5) oc(3) by (auto simp: layout_ok_def)
  show ?thesis unfolding layout_ok_def using 1 2 3 4 by blast
qed

lemma shape_merge:
  assumes s: "shape A G" and c: "c \<in> gL G" and d: "d \<in> gL G" "gnext G c = d"
  shows "shape A (g_merge c d G)"
proof -
  note sh = shapeD [OF s]
  let ?G = "g_merge c d G"
  have C: "c \<in> gC G" "d \<in> gC G" using part_sub [OF s] c d by auto
  have dn: "d \<notin> gU G" "d \<notin> gF G" "d \<notin> gD A G" "d \<notin> gT A" "c \<notin> gD A G \<union> gF G"
    using sh(3) c d by (auto simp: part_ok_def)
  have "kinds_ok A ?G" using sh(2) by (auto simp: kinds_ok_def)
  moreover have "part_ok A ?G"
  proof -
    have "gC ?G = gU ?G \<union> gL ?G \<union> gF ?G \<union> gD A ?G \<union> gT A" using sh(3) dn by (auto simp: part_ok_def)
    then show ?thesis using sh(3) by (auto simp: part_ok_def)
  qed
  moreover have "lists_ok A ?G" "class_ok A ?G"
    using dn by (intro lists_ok_sizes [OF sh(4)] class_ok_sizes [OF sh(1,6)]; auto)+
  moreover have "layout_ok A ?G" by (rule layout_merge [OF s C d(2)])
  ultimately show ?thesis using sh(1) by (simp add: shape_def)
qed

lemma flags_keep:
  assumes "m' (c + 8) = t + get_size_flags m c" "0 \<le> t" "t < 2 ^ 62" "t mod 16 = 0"
  shows "is_prev_inuse m' c = is_prev_inuse m c" "is_curr_inuse m' c = is_curr_inuse m c" "get_size m' c = t"
proof -
  note f = flags_range(1,2) [of m c]
  note w = size_word [OF assms(2-4) f]
  have 1: "get_size_flags m c AND 1 = m (c + 8) AND 1" "get_size_flags m c AND 4 = m (c + 8) AND 4"
    by (rule bit_eqI; auto simp: get_size_flags_def flag_bits)+
  show "is_prev_inuse m' c = is_prev_inuse m c" "is_curr_inuse m' c = is_curr_inuse m c" "get_size m' c = t"
    using w 1 assms(1) by (simp_all add: is_prev_inuse_def is_curr_inuse_def get_size_def)
qed

lemma hdr_merge:
  assumes inv: "minv m A G X" and c: "c \<in> gL G" and d: "d \<in> gL G" "gnext G c = d"
    and out0: "\<And>x. x \<in> objs A G \<Longrightarrow> x \<noteq> gnext G d \<Longrightarrow> m' x = m x"
    and out8: "\<And>x. x \<in> objs A G \<Longrightarrow> x \<noteq> c \<Longrightarrow> m' (x + 8) = m (x + 8)"
    and cs: "get_size m' c = gsz G c + 16 + gsz G d" and cp: "is_prev_inuse m' c = is_prev_inuse m c"
    and tag: "get_prev_size m' (gnext G d) = gsz G c + 16 + gsz G d"
  shows "hdr_ok m' A (g_merge c d G) X"
proof -
  note s = minvD(1) [OF inv] and h = minvD(2) [OF inv]
  let ?G = "g_merge c d G"
  have C: "c \<in> gC G" "d \<in> gC G" using part_sub [OF s] c d by auto
  have cn: "c \<notin> gU G" "c \<notin> gF G" "c \<notin> gD A G" "c \<notin> gB G"
    using cu_not_stored [OF inv, of c] classes_apart(1) [OF inv] c by auto
  have sub: "x \<in> objs A G" if "x \<in> gC G \<union> gM G \<union> gB G \<union> gD A G \<union> gF G \<union> gU G" for x
    using that part_sub [OF s] by (auto simp: objs_def)
  have eq: "get_size m' x = get_size m x" "is_curr_inuse m' x = is_curr_inuse m x"
    "is_prev_inuse m' x = is_prev_inuse m x" if "x \<in> objs A G" "x \<noteq> c" for x
    using out8 [OF that] by (simp_all add: get_size_def is_curr_inuse_def is_prev_inuse_def)
  have 1: "get_size m' x = gsz ?G x" if "x \<in> gC ?G \<union> gM ?G" "x \<notin> X" for x
  proof (cases "x = c")
    case False
    then show ?thesis using that eq(1) [OF sub, of x] h unfolding hdr_ok_def by auto
  qed (simp add: cs)
  have 2: "is_curr_inuse m' x = is_curr_inuse m x" if "x \<in> gB G \<union> gU G \<union> gD A G \<union> gF G" for x
    using that cn by (intro eq sub) auto
  have 5: "\<exists>e\<in>gD A ?G \<union> gL ?G. gnext ?G e = x \<and> get_prev_size m' x = gsz ?G e"
    if x: "x \<in> gC ?G" "\<not> is_prev_inuse m' x" for x
  proof (cases "x = gnext G d")
    case True
    have "gnext ?G c = gnext G d" using d by (simp add: gnext_def)
    moreover have "c \<noteq> d" using d C shapeD(5) [OF s] by (fastforce simp: gnext_def layout_ok_def)
    ultimately show ?thesis using True tag c by (intro bexI [of _ c]) auto
  next
    case False
    have xC: "x \<in> gC G" "x \<noteq> d" using x by auto
    have "\<not> is_prev_inuse m x" using x cp eq [OF sub] xC by (cases "x = c") auto
    then obtain e where e: "e \<in> gD A G \<union> gL G" "gnext G e = x" "get_prev_size m x = gsz G e"
      using prev_free [OF inv xC(1)] by blast
    have "e \<noteq> c" "e \<noteq> d" using e d xC False by auto
    moreover have "get_prev_size m' x = get_prev_size m x"
      using out0 [OF sub False] xC by (intro get_prev_size_cong) simp
    ultimately show ?thesis using e by (intro bexI [of _ e]) (auto simp: gnext_def)
  qed
  show ?thesis unfolding hdr_ok_def using 1 2 5 h by (auto simp: hdr_ok_def)
qed

lemma foot_merge:
  assumes s: "shape A G" and c: "c \<in> gC G" and d: "d \<in> gC G" "gnext G c = d"
  shows "foot A (g_merge c d G) \<subseteq> foot A G"
proof
  fix a assume a: "a \<in> foot A (g_merge c d G)"
  have "d \<notin> gB G" "d \<notin> heads A" using d(1) shapeD(2) [OF s] unfolding kinds_ok_def by blast+
  with a obtain x where x: "x \<in> gC G \<union> gB G \<union> heads A" "x \<noteq> d" "x \<le> a" "a < x + gext (g_merge c d G) x"
    unfolding foot_def by auto
  show "a \<in> foot A G"
  proof (cases "x = c")
    case True
    then have "a < d \<or> d \<le> a \<and> a < d + gext G d" using x c d by (auto simp: gext_def gnext_def)
    moreover have "a \<in> {c..<c + gext G c}" if "a < d" using that True x c d by (simp add: gext_def gnext_def)
    ultimately show ?thesis using c d unfolding foot_def by fastforce
  next
    case False
    then have "gext (g_merge c d G) x = gext G x" using x by (simp add: gext_def)
    then show ?thesis using x unfolding foot_def by fastforce
  qed
qed

lemma kinv_merge:
  assumes k: "kinv P R m0 m A G X" and c: "c \<in> gL G" and d: "d \<in> gL G" "gnext G c = d" and f: "0 \<le> f" "f < 8"
  defines "t \<equiv> gsz G c + 16 + gsz G d"
  defines "m' \<equiv> m(c + 8 := t + get_size_flags m c, gnext G d := t + f)"
  shows "kinv P R m0 m' A (g_merge c d G) X" and "0 < t" "t < 2 ^ 62" "t mod 16 = 0"
    and "is_prev_inuse m' (gnext G d) = is_prev_inuse m (gnext G d)"
proof -
  note inv = kinvD [OF k] and lo = kinv_loose [OF k c] and ld = kinv_loose [OF k d(1)]
  note s = minvD(1) [OF inv]
  let ?y = "gnext G d"
  have szc: "32 \<le> gsz G c" "gsz G c mod 16 = 0" and szd: "32 \<le> gsz G d" "gsz G d mod 16 = 0"
    using gsz_range [OF inv lo(2)] gsz_range [OF inv ld(2)] by simp_all
  have "0 < c" "d + gext G d < 2 ^ 62" using shapeD(5) [OF s] lo ld by (simp_all add: layout_ok_def)
  then show t: "0 < t" "t < 2 ^ 62" "t mod 16 = 0"
    using szc szd d ld(2) by (auto simp: t_def gext_def gnext_def mod_eq_0_iff_dvd)
  have y: "?y = c + 16 + t" using d by (simp add: gnext_def t_def)
  have out: "m' (x + j) = m (x + j)"
    if "x \<in> objs A G" "x \<noteq> c \<or> j \<noteq> 8" "0 \<le> j" "j < 48" "x \<noteq> ?y \<or> j \<noteq> 0" for x j
    using spaced_cell [OF shape_spaced [OF s] that(1) lo(1), of j 8]
      spaced_cell [OF shape_spaced [OF s] that(1) ld(5), of j 0] that by (auto simp: m'_def)
  have out0: "m' x = m x" if "x \<in> objs A G" "x \<noteq> ?y" for x using out [OF that(1), of 0] that by simp
  have out8: "m' (x + 8) = m (x + 8)" if "x \<in> objs A G" "x \<noteq> c" for x using out [OF that(1), of 8] that by simp
  have "?y \<noteq> c" using y t by simp
  then show "is_prev_inuse m' ?y = is_prev_inuse m ?y"
    using out8 [OF ld(5)] by (simp add: is_prev_inuse_def)
  have w: "m' (c + 8) = t + get_size_flags m c" using y t by (simp add: m'_def)
  note fl = flags_keep [of m' c t m, OF w _ t(2,3)]
  have tag: "get_prev_size m' ?y = t" using t f by (intro get_prev_size_word [of m' ?y t f]) (simp_all add: m'_def)
  have hd: "hdr_ok m' A (g_merge c d G) X"
    using hdr_merge [OF inv c d, of m', folded t_def] out0 out8 fl(1,3) t(1) tag by simp
  have ch: "changes_in m m' {c, ?y} {0, 8}"
    using changes_in_upd [of m "m(c + 8 := t + get_size_flags m c)" "{c, ?y}" "{0, 8}" ?y 0 "t + f"]
    by (auto simp: m'_def changes_in_def)
  have lk: "link_ok m' A (g_merge c d G)"
    using minvD(3) [OF inv] link_ok_headers [OF s ch] lo ld by (simp add: link_ok_def)
  have "minv m' A (g_merge c d G) X" using shape_merge [OF s c d] hd lk by (simp add: minv_def)
  moreover have "region G \<subseteq> region (g_merge c d G)" using lo by (intro region_sizes) auto
  ultimately show "kinv P R m0 m' A (g_merge c d G) X"
    using lo ld foot_merge [OF s lo(2) ld(2) d(2)] by (intro kinv_step [OF k ch]) auto
qed

section \<open>Heaps\<close>

text \<open>
  A heap of a ghost is a row of neighbouring chunks, from a chunk that is the neighbour of no other to a
  boundary. Splitting and merging change the chunks of a row but not the heaps.
\<close>

definition grel :: "ghost \<Rightarrow> (addr \<times> addr) set" where
  "grel G = {(x, gnext G x) | x. x \<in> gC G}"

definition ghs :: "ghost \<Rightarrow> (addr \<times> addr) set" where
  "ghs G = {(b, e). b \<in> gC G \<and> (\<forall>y\<in>gC G. gnext G y \<noteq> b) \<and> e \<in> gB G \<and> (b, e) \<in> (grel G)\<^sup>+}"

lemma ghs_cong:
  assumes "gC G' = gC G" "gB G' = gB G" "\<And>x. x \<in> gC G \<Longrightarrow> gsz G' x = gsz G x"
  shows "ghs G' = ghs G"
proof -
  have nx: "gnext G' y = gnext G y" if "y \<in> gC G" for y using assms(3) [OF that] by (simp add: gnext_def)
  have "grel G' = grel G" unfolding grel_def assms(1) using nx by auto
  then show ?thesis unfolding ghs_def assms(1,2) using nx by auto
qed

lemma ghs_simps [simp]: "ghs (g_insert h c G) = ghs G" "ghs (g_unlink h c G) = ghs G" "ghs (g_class U L G) = ghs G"
  by (rule ghs_cong; simp)+

lemma ghs_merge:
  assumes s: "shape A G" and c: "c \<in> gC G" and d: "d \<in> gC G" "gnext G c = d"
  shows "ghs (g_merge c d G) = ghs G"
proof -
  let ?G = "g_merge c d G"
  have inj: "x = c" if "x \<in> gC G" "gnext G x = d" for x using gnext_inj [OF s that(1) c] that(2) d(2) by simp
  have up: "x < gnext G x" if "x \<in> gC G" for x using that shapeD(5) [OF s] by (auto simp: layout_ok_def gnext_def)
  have cd: "c \<noteq> d" "gnext G d \<noteq> d" "gnext G d \<noteq> c" using up [OF c] up [OF d(1)] d(2) by auto
  have nx: "gnext ?G y = (if y = c then gnext G d else gnext G y)" for y using d(2) by (auto simp: gnext_def)
  have BC: "gB G \<inter> gC G = {}" using shapeD(2) [OF s] by (auto simp: kinds_ok_def)
  have r1: "grel ?G \<subseteq> (grel G)\<^sup>+"
  proof
    fix z assume "z \<in> grel ?G"
    then obtain x where x: "z = (x, gnext ?G x)" "x \<in> gC G" by (auto simp: grel_def)
    have "(c, d) \<in> grel G" "(d, gnext G d) \<in> grel G" "(x, gnext G x) \<in> grel G" using c d x(2) by (auto simp: grel_def)
    then show "z \<in> (grel G)\<^sup>+" unfolding x(1) nx by (auto intro: trancl_trans)
  qed
  have r2: "(if x = d then (c, e) else (x, e)) \<in> (grel ?G)\<^sup>+" if "(x, e) \<in> (grel G)\<^sup>+" "e \<noteq> d" for x e
    using that
  proof (induction rule: converse_trancl_induct)
    case (base x)
    then have x: "x \<in> gC G" "e = gnext G x" by (auto simp: grel_def)
    show ?case
    proof (cases "x = d")
      case True
      have "(c, gnext ?G c) \<in> grel ?G" using c cd unfolding grel_def by auto
      then show ?thesis using True x(2) by (auto simp: nx)
    next
      case False
      then have "x \<noteq> c" using x(2) d(2) base.prems by auto
      moreover have "(x, gnext ?G x) \<in> grel ?G" using x(1) False unfolding grel_def by auto
      ultimately show ?thesis using x(2) False by (auto simp: nx)
    qed
  next
    case (step x y)
    then have x: "x \<in> gC G" "y = gnext G x" by (auto simp: grel_def)
    have ih: "(if y = d then (c, e) else (y, e)) \<in> (grel ?G)\<^sup>+" by (rule step.IH [OF step.prems])
    show ?case
    proof (cases "x = d")
      case True
      have "(c, gnext ?G c) \<in> grel ?G" using c cd unfolding grel_def by auto
      then show ?thesis using True x(2) ih cd by (auto simp: nx intro: trancl_into_trancl2)
    next
      case False
      show ?thesis
      proof (cases "y = d")
        case True
        then show ?thesis using ih inj [OF x(1)] x(2) False by simp
      next
        case yd: False
        then have "x \<noteq> c" using x(2) d(2) by auto
        then have "(x, y) \<in> grel ?G" using x False unfolding grel_def by (auto simp: nx)
        then show ?thesis using ih yd False by (auto intro: trancl_into_trancl2)
      qed
    qed
  qed
  have st: "b \<in> gC ?G \<and> (\<forall>y\<in>gC ?G. gnext ?G y \<noteq> b) \<longleftrightarrow> b \<in> gC G \<and> (\<forall>y\<in>gC G. gnext G y \<noteq> b)" for b
    using c d cd by (auto simp: nx)
  have "(b, e) \<in> ghs ?G \<longleftrightarrow> (b, e) \<in> ghs G" for b e
  proof -
    have "(b, e) \<in> (grel ?G)\<^sup>+ \<longleftrightarrow> (b, e) \<in> (grel G)\<^sup>+" if "b \<noteq> d" "e \<noteq> d"
      using r2 [of b e] that trancl_mono [OF _ r1, of "(b, e)"] by auto
    moreover have "e \<noteq> d" if "e \<in> gB G" using that d(1) BC by auto
    moreover have "b \<noteq> d" if "\<forall>y\<in>gC G. gnext G y \<noteq> b" using that c d(2) by auto
    ultimately show ?thesis using st [of b] unfolding ghs_def by auto
  qed
  then show ?thesis by auto
qed

lemma ghs_split:
  assumes s: "shape A G" and c: "c \<in> gL G" and n: "32 \<le> n" "n mod 16 = 0" "n + 48 \<le> gsz G c"
  shows "ghs (g_split c n G) = ghs G"
proof -
  let ?r = "c + 16 + n"
  have cC: "c \<in> gC G" using part_sub [OF s] c by auto
  have r: "?r \<notin> gC G" using inside_not_object [OF s cC, of ?r] n by (simp add: objs_def)
  have "ghs (g_merge c ?r (g_split c n G)) = ghs (g_split c n G)"
    by (rule ghs_merge [OF shape_split [OF s c n]]) (use cC n in \<open>simp_all add: gnext_def\<close>)
  moreover have "ghs (g_merge c ?r (g_split c n G)) = ghs G"
    by (rule ghs_cong) (use r n in auto)
  ultimately show ?thesis by simp
qed

text \<open>Every chunk is in a heap.\<close>

lemma grel_up: "shape A G \<Longrightarrow> (x, y) \<in> grel G \<Longrightarrow> x < y"
  using shapeD(5) by (fastforce simp: grel_def layout_ok_def gnext_def)

lemma grel_less: "(x, y) \<in> (grel G)\<^sup>+ \<Longrightarrow> shape A G \<Longrightarrow> x < y"
  by (induction rule: trancl_induct) (auto dest: grel_up)

lemma row_end:
  assumes s: "shape A G"
  shows "c \<in> gC G \<Longrightarrow> \<exists>e\<in>gB G. (c, e) \<in> (grel G)\<^sup>+"
proof (induction "nat (2 ^ 62 - c)" arbitrary: c rule: less_induct)
  case less
  have e: "(c, gnext G c) \<in> grel G" using less.prems by (auto simp: grel_def)
  have "c + gext G c < 2 ^ 62" "gnext G c \<in> gC G \<union> gB G" using shapeD(5) [OF s] less.prems by (auto simp: layout_ok_def objs_def)
  then have lt: "c < gnext G c" "gnext G c < 2 ^ 62" using grel_up [OF s e] less.prems by (simp_all add: gext_def gnext_def)
  show ?case
  proof (cases "gnext G c \<in> gB G")
    case False
    then have "gnext G c \<in> gC G" using \<open>gnext G c \<in> gC G \<union> gB G\<close> by blast
    then obtain b where "b \<in> gB G" "(gnext G c, b) \<in> (grel G)\<^sup>+" using less.hyps [of "gnext G c"] lt by auto
    then show ?thesis using e by (meson trancl_into_trancl2)
  qed (use e in auto)
qed

lemma row_start:
  assumes s: "shape A G"
  shows "c \<in> gC G \<Longrightarrow> \<exists>b\<in>gC G. (\<forall>y\<in>gC G. gnext G y \<noteq> b) \<and> (b, c) \<in> (grel G)\<^sup>*"
proof (induction "nat c" arbitrary: c rule: less_induct)
  case less
  show ?case
  proof (cases "\<exists>y\<in>gC G. gnext G y = c")
    case True
    then obtain y where y: "y \<in> gC G" "gnext G y = c" by blast
    then have e: "(y, c) \<in> grel G" by (auto simp: grel_def)
    have "0 < y" using shapeD(5) [OF s] y(1) by (auto simp: layout_ok_def objs_def)
    then obtain b where "b \<in> gC G" "\<forall>y\<in>gC G. gnext G y \<noteq> b" "(b, y) \<in> (grel G)\<^sup>*" using less.hyps [of y] y(1) grel_up [OF s e] by auto
    then show ?thesis using e by (meson rtrancl.rtrancl_into_rtrancl)
  qed (use less.prems in auto)
qed

lemma ghs_cover:
  assumes s: "shape A G" and c: "c \<in> gC G"
  obtains b e where "(b, e) \<in> ghs G" "(b, c) \<in> (grel G)\<^sup>*" "(c, e) \<in> (grel G)\<^sup>+"
proof -
  obtain b where b: "b \<in> gC G" "\<forall>y\<in>gC G. gnext G y \<noteq> b" "(b, c) \<in> (grel G)\<^sup>*" using row_start [OF s c] by blast
  obtain e where e: "e \<in> gB G" "(c, e) \<in> (grel G)\<^sup>+" using row_end [OF s c] by blast
  have "(b, e) \<in> (grel G)\<^sup>+" using b(3) e(2) by (rule rtrancl_trancl_trancl)
  then show ?thesis using that b e by (auto simp: ghs_def)
qed

end
