(* ===== verification/ArenaBins.thy ===== *)
theory ArenaBins
  imports ArenaOps
begin

text \<open>
  The bins as the allocator uses them: pushing to and popping from the fast bins, taking from the
  small bins, and splitting or handing out a chunk found in the unsorted or a large bin.
\<close>

section \<open>Fast bins\<close>

definition g_fast :: "nat \<Rightarrow> addr list \<Rightarrow> addr set \<Rightarrow> ghost \<Rightarrow> ghost" where
  "g_fast i xs L G = G\<lparr>gfl := (gfl G)(i := xs), gL := L\<rparr>"

lemma g_fast_simps [simp]:
  "gC (g_fast i xs L G) = gC G" "gB (g_fast i xs L G) = gB G" "gM (g_fast i xs L G) = gM G"
  "gU (g_fast i xs L G) = gU G" "gL (g_fast i xs L G) = L" "gsz (g_fast i xs L G) = gsz G"
  "gfl (g_fast i xs L G) = (gfl G)(i := xs)" "gbl (g_fast i xs L G) = gbl G" "gsl (g_fast i xs L G) = gsl G"
  "gD A (g_fast i xs L G) = gD A G" "objs A (g_fast i xs L G) = objs A G"
  "gext (g_fast i xs L G) = gext G" "gnext (g_fast i xs L G) = gnext G" "payload (g_fast i xs L G) = payload G"
  by (simp_all add: g_fast_def gD_def objs_def gext_def gnext_def payload_def fun_eq_iff)

lemma fastbins_simps [simp]:
  "heads (A\<lparr>fastbins := p\<rparr>) = heads A" "gD (A\<lparr>fastbins := p\<rparr>) G = gD A G"
  "objs (A\<lparr>fastbins := p\<rparr>) G = objs A G" "gT (A\<lparr>fastbins := p\<rparr>) = gT A"
  by (simp_all add: heads_def gD_def objs_def gT_def)

lemma ghs_fast [simp]: "ghs (g_fast i xs L G) = ghs G"
  by (rule ghs_cong; simp)

lemma gF_fast:
  assumes "lists_ok A G" "i < 7"
  shows "gF (g_fast i xs L G) = (gF G - set (gfl G i)) \<union> set xs"
  using fast_unique [OF assms(1)] assms(2) by (fastforce simp: gF_def split: if_splits)

lemma shape_fast:
  assumes s: "shape A G" and i: "i < 7" and d: "distinct xs" and L: "set xs \<union> L = set (gfl G i) \<union> gL G"
    and dj: "set xs \<inter> L = {}" and sz: "\<And>x. x \<in> set xs \<Longrightarrow> gsz G x = 16 * (int i + 1)"
  shows "shape (A\<lparr>fastbins := (fastbins A)[i := p]\<rparr>) (g_fast i xs L G)"
proof -
  note sh = shapeD [OF s]
  let ?A = "A\<lparr>fastbins := (fastbins A)[i := p]\<rparr>" and ?G = "g_fast i xs L G"
  have pt: "gL G \<inter> gF G = {}" using sh(3) by (auto simp: part_ok_def)
  have other: "x \<notin> set xs" "x \<notin> set (gfl G i)" if "j < 7" "j \<noteq> i" "x \<in> set (gfl G j)" for j x
    using fast_unique [OF sh(4) that(1) i that(3)] that L pt by (auto simp: gF_def)
  have F: "gF ?G = (gF G - set (gfl G i)) \<union> set xs" by (rule gF_fast [OF sh(4) i])
  have U: "gF ?G \<union> L = gF G \<union> gL G" unfolding F using L i by (auto simp: gF_def)
  have D: "gF ?G \<inter> L = {}" unfolding F using L dj pt by auto
  have "part_ok ?A ?G"
  proof -
    have "gC ?G = gU ?G \<union> gL ?G \<union> gF ?G \<union> gD ?A ?G \<union> gT ?A" using sh(3) U by (auto simp: part_ok_def)
    moreover have "gU G \<inter> (gL G \<union> gF G \<union> gD A G \<union> gT A) = {}" "(gL G \<union> gF G) \<inter> (gD A G \<union> gT A) = {}"
      "gD A G \<inter> gT A = {}" using sh(3) by (auto simp: part_ok_def)
    ultimately show ?thesis using U D unfolding part_ok_def by simp blast
  qed
  moreover have "lists_ok ?A ?G"
  proof (rule lists_okI)
    show "j = k" if "j < 7" "k < 7" "x \<in> set (gfl ?G j)" "x \<in> set (gfl ?G k)" for j k x
      using that other fast_unique [OF sh(4) that(1,2), of x] by (auto split: if_splits)
    show "k = l" if "k \<in> heads ?A" "l \<in> heads ?A" "x \<in> set (gbl ?G k)" "x \<in> set (gbl ?G l)" for k l x
      using bin_unique [OF sh(4), of k l x] that by simp
  qed (use sh(4) d in \<open>auto simp: lists_ok_def\<close>)
  moreover have "class_ok ?A ?G" using sh(6) sz by (auto simp: class_ok_def)
  ultimately show ?thesis using sh by (simp add: shape_def bins_ok_def kinds_ok_def layout_ok_def)
qed

text \<open>The right neighbour of a chunk that is neither binned nor loose takes it to be in use.\<close>

lemma inuse_next:
  assumes inv: "minv m A G X" and c: "c \<in> gC G" "c \<notin> gD A G" "c \<notin> gL G" "gnext G c \<in> gC G"
  shows "is_prev_inuse m (gnext G c)"
proof (rule ccontr)
  assume "\<not> is_prev_inuse m (gnext G c)"
  then obtain d where d: "d \<in> gD A G \<union> gL G" "gnext G d = gnext G c" using prev_free [OF inv c(4)] by blast
  then have "d \<in> gC G" using part_sub [OF minvD(1) [OF inv]] by auto
  then have "d = c" using gnext_inj [OF minvD(1) [OF inv] _ c(1) d(2)] by simp
  then show False using d c by simp
qed

lemma chain_other: "c \<notin> set xs \<Longrightarrow> (\<And>x. x \<in> set xs \<Longrightarrow> x + 16 \<noteq> a) \<Longrightarrow> chain (m(a := v)) p xs = chain m p xs"
  by (intro chain_cong) auto

lemma move_to_fast:
  assumes inv: "minv m A G X" and c: "c \<in> gL G" and i: "i < 7" "gsz G c = 16 * (int i + 1)"
    and m: "m (c + 16) = fastbins A ! i" "\<not> is_curr_inuse m c"
    and nx: "gnext G c \<in> gC G \<Longrightarrow> is_prev_inuse m (gnext G c)"
  shows "minv m (A\<lparr>fastbins := (fastbins A)[i := c]\<rparr>) (g_fast i (c # gfl G i) (gL G - {c}) G) X"
proof -
  note s = minvD(1) [OF inv] and h = minvD(2) [OF inv] and l = minvD(3) [OF inv]
  let ?A = "A\<lparr>fastbins := (fastbins A)[i := c]\<rparr>" and ?G = "g_fast i (c # gfl G i) (gL G - {c}) G"
  have cF: "c \<notin> set (gfl G i)" "set (gfl G i) \<inter> gL G = {}"
    using cu_not_stored [OF inv, of c] c i shapeD(3) [OF s] by (auto simp: gF_def part_ok_def)
  have sh: "shape ?A ?G"
    using c cF i fast_distinct [OF shapeD(4) [OF s] i(1)] shapeD(6) [OF s]
    by (intro shape_fast [OF s i(1)]) (auto simp: class_ok_def)
  have F: "gF ?G = insert c (gF G)" using gF_fast [OF shapeD(4) [OF s] i(1)] i by (auto simp: gF_def)
  have "hdr_ok m ?A ?G X" using h m(2) nx unfolding hdr_ok_def F by simp blast
  moreover have "link_ok m ?A ?G"
    using l m(1) i shapeD(1) [OF s] by (auto simp: link_ok_def bins_ok_def nth_list_update)
  ultimately show ?thesis using sh by (simp add: minv_def)
qed

lemma move_from_fast:
  assumes inv: "minv m A G X" and i: "i < 7" "gfl G i = c # xs"
  shows "minv m (A\<lparr>fastbins := (fastbins A)[i := m (c + 16)]\<rparr>) (g_fast i xs (insert c (gL G)) G) X"
proof -
  note s = minvD(1) [OF inv] and h = minvD(2) [OF inv] and l = minvD(3) [OF inv]
  let ?A = "A\<lparr>fastbins := (fastbins A)[i := m (c + 16)]\<rparr>" and ?G = "g_fast i xs (insert c (gL G)) G"
  have cF: "c \<in> gF G" "set xs \<inter> gL G = {}" "c \<notin> set xs" "distinct xs"
  proof -
    have sub: "set (gfl G i) \<subseteq> gF G" using i(1) unfolding gF_def by blast
    then show "c \<in> gF G" using i by simp
    show "set xs \<inter> gL G = {}" using sub i shapeD(3) [OF s] by (auto simp: part_ok_def)
    show "c \<notin> set xs" "distinct xs" using fast_distinct [OF shapeD(4) [OF s] i(1)] i by simp_all
  qed
  have sh: "shape ?A ?G"
    using cF i shapeD(6) [OF s] by (intro shape_fast [OF s i(1)]) (auto simp: class_ok_def)
  have F: "gF ?G \<subseteq> gF G" using gF_fast [OF shapeD(4) [OF s] i(1)] i by (auto simp: gF_def)
  have "hdr_ok m ?A ?G X" using h F unfolding hdr_ok_def by simp blast
  moreover have "chain m (fastbins A ! i) (c # xs)" using l i by (auto simp: link_ok_def)
  then have "link_ok m ?A ?G"
    using l i shapeD(1) [OF s] by (auto simp: link_ok_def bins_ok_def nth_list_update)
  ultimately show ?thesis using sh by (simp add: minv_def)
qed

text \<open>The header of a chunk in use or loose, as the bin code reads it.\<close>

lemma fast_index:
  assumes "n mod 16 = 0" "32 \<le> n" "n \<le> 112"
  shows "s32 (u64 (drop_bit 4 n - 1)) = n div 16 - 1" "nat (n div 16 - 1) < 7"
    "n = 16 * (int (nat (n div 16 - 1)) + 1)" "0 \<le> n div 16 - 1" "n div 16 - 1 < 7"
proof -
  obtain k where k: "n = 16 * k" using assms(1) by auto
  then have "2 \<le> k" "k \<le> 7" using assms by simp_all
  then show "s32 (u64 (drop_bit 4 n - 1)) = n div 16 - 1" "nat (n div 16 - 1) < 7"
    "n = 16 * (int (nat (n div 16 - 1)) + 1)" "0 \<le> n div 16 - 1" "n div 16 - 1 < 7"
    using bin_index [of n] k by simp_all
qed

lemma insert_into_fastbin_ok:
  assumes k: "kinv P R m0 (hmem s) (arena s) G {}" and c: "c \<in> gL G"
    and nx: "gnext G c \<in> gC G \<Longrightarrow> is_prev_inuse (hmem s) (gnext G c)" and sz: "gsz G c \<le> 112"
  obtains m' i xs where "insert_into_fastbin s c = upd_arena (\<lambda>a. a\<lparr>fastbins := (fastbins a)[i := c]\<rparr>) (put_mem m' s)"
    "kinv P R m0 m' ((arena s)\<lparr>fastbins := (fastbins (arena s))[i := c]\<rparr>) (g_fast i xs (gL G - {c}) G) {}"
proof -
  let ?A = "arena s"
  note lo = kinv_loose [OF k c] and szc = size_binned [OF kinvD [OF k] kinv_loose(2) [OF k c]]
  define i where "i = nat (gsz G c div 16 - 1)"
  note ix = fast_index [of "gsz G c", OF _ _ sz, folded i_def]
  define m' where "m' = unset_curr_inuse ((hmem s)(c + 16 := fastbins ?A ! i)) c"
  have k1: "kinv P R m0 m' ?A G {}" unfolding m'_def by (intro kinv_unset_cu kinv_loose_link k c) simp
  have w: "m' (c + 16) = fastbins ?A ! i" "\<not> is_curr_inuse m' c"
    by (simp_all add: m'_def chunk_simps)
  have pu: "is_prev_inuse m' (gnext G c) = is_prev_inuse (hmem s) (gnext G c)"
    using szc by (simp add: m'_def unset_curr_inuse_def is_prev_inuse_def gnext_def)
  have "minv m' (?A\<lparr>fastbins := (fastbins ?A)[i := c]\<rparr>) (g_fast i (c # gfl G i) (gL G - {c}) G) {}"
    using ix szc w pu nx by (intro move_to_fast [OF kinvD [OF k1] c]) simp_all
  then have "kinv P R m0 m' (?A\<lparr>fastbins := (fastbins ?A)[i := c]\<rparr>) (g_fast i (c # gfl G i) (gL G - {c}) G) {}"
    by (rule kinv_ghost [OF k1]) (simp_all add: region_def foot_def)
  moreover have "insert_into_fastbin s c = upd_arena (\<lambda>a. a\<lparr>fastbins := (fastbins a)[i := c]\<rparr>) (put_mem m' s)"
    using ix szc by (simp add: insert_into_fastbin_def Let_def m'_def i_def [symmetric] put_mem_def upd_arena_def)
  ultimately show ?thesis using that by blast
qed

section \<open>Outcomes of a search\<close>

definition same_live :: "ghost \<Rightarrow> ghost \<Rightarrow> bool" where
  "same_live G G' \<longleftrightarrow> gU G' = gU G \<and> gM G' = gM G \<and> (\<forall>u\<in>gU G \<union> gM G. gsz G' u = gsz G u)"

definition new_live :: "int \<Rightarrow> addr \<Rightarrow> ghost \<Rightarrow> ghost \<Rightarrow> bool" where
  "new_live n c G G' \<longleftrightarrow> gU G' = insert c (gU G) \<and> c \<notin> gU G \<union> gM G \<and> gM G' = gM G \<and> n \<le> gsz G' c \<and> gsz G' c < n + 48 \<and>
     (\<forall>u\<in>gU G \<union> gM G. gsz G' u = gsz G u)"

lemma same_live_refl [simp]: "same_live G G"
  by (simp add: same_live_def)

lemma same_live_trans: "same_live G G' \<Longrightarrow> same_live G' G'' \<Longrightarrow> same_live G G''"
  by (simp add: same_live_def)

lemma new_live_trans: "same_live G G' \<Longrightarrow> new_live n c G' G'' \<Longrightarrow> new_live n c G G''"
  by (simp add: same_live_def new_live_def)

lemma same_live_moves [simp]: "same_live G (g_insert h c G)" "same_live G (g_unlink h c G)"
  by (simp_all add: same_live_def)

text \<open>
  \<open>aok\<close>: the invariant between two steps of an operation, with no loose chunk. \<open>outcome\<close>: a
  search either found nothing and kept the blocks in use, or it returns one new block of at least
  \<open>n\<close> and less than \<open>n + 48\<close> bytes.
\<close>

definition aok :: "addr set \<Rightarrow> addr set \<Rightarrow> mem \<Rightarrow> heap_state \<Rightarrow> ghost \<Rightarrow> bool" where
  "aok P R m0 s G \<longleftrightarrow> kinv P R m0 (hmem s) (arena s) G {} \<and> gL G = {}"

definition growth :: "arena_t \<Rightarrow> int \<times> int \<times> (addr \<times> addr) list" where
  "growth A = (heap_expo_growth_iters A, heap_constant_growth_iters A, alloced_heaps A)"

lemma growth_simps [simp]: "growth (A\<lparr>fastbins := p\<rparr>) = growth A" "growth (A\<lparr>top_chunk := c\<rparr>) = growth A"
  by (simp_all add: growth_def)

definition outcome ::
  "addr set \<Rightarrow> addr set \<Rightarrow> mem \<Rightarrow> heap_state \<Rightarrow> ghost \<Rightarrow> int \<Rightarrow> addr \<Rightarrow> heap_state \<Rightarrow> bool" where
  "outcome P R m0 s G n c s' \<longleftrightarrow> hbytes s' = hbytes s \<and> maps s' = maps s \<and> growth (arena s') = growth (arena s) \<and>
     (\<exists>G'. aok P R m0 s' G' \<and> ghs G' = ghs G \<and> (if c = 0 then same_live G G' else new_live n c G G'))"

lemma outcome_none: "aok P R m0 s G \<Longrightarrow> outcome P R m0 s G n 0 s"
  unfolding outcome_def by auto

lemma outcomeI:
  "hbytes s' = hbytes s \<Longrightarrow> maps s' = maps s \<Longrightarrow> growth (arena s') = growth (arena s) \<Longrightarrow> aok P R m0 s' G' \<Longrightarrow> ghs G' = ghs G \<Longrightarrow> c \<noteq> 0 \<Longrightarrow> new_live n c G G' \<Longrightarrow>
     outcome P R m0 s G n c s'"
  unfolding outcome_def by auto

lemma outcome_trans:
  assumes "hbytes s1 = hbytes s \<and> maps s1 = maps s" "growth (arena s1) = growth (arena s)" "same_live G G1" "ghs G1 = ghs G"
    "outcome P R m0 s1 G1 n c s'"
  shows "outcome P R m0 s G n c s'"
proof -
  obtain G' where "hbytes s' = hbytes s1" "maps s' = maps s1" "growth (arena s') = growth (arena s1)" "aok P R m0 s' G'" "ghs G' = ghs G1"
    "if c = 0 then same_live G1 G' else new_live n c G1 G'"
    using assms(5) by (auto simp: outcome_def)
  then show ?thesis
    using assms(1-4) same_live_trans new_live_trans unfolding outcome_def by (metis (full_types))
qed

lemma put_mem_simps [simp]:
  "hmem (put_mem m s) = m" "arena (put_mem m s) = arena s" "hbytes (put_mem m s) = hbytes s" "maps (put_mem m s) = maps s"
  "put_mem m (put_mem m' s) = put_mem m s"
  by (simp_all add: put_mem_def)

lemma upd_arena_simps [simp]:
  "hmem (upd_arena f s) = hmem s" "arena (upd_arena f s) = f (arena s)" "hbytes (upd_arena f s) = hbytes s"
  "maps (upd_arena f s) = maps s"
  by (simp_all add: upd_arena_def)

text \<open>Handing out a loose chunk as it is.\<close>

lemma kinv_handout:
  assumes k: "kinv P R m0 m A G X" and c: "c \<in> gL G" "c \<notin> X"
  defines "m' \<equiv> set_prev_inuse (set_curr_inuse m c) (next_chunk (set_curr_inuse m c) c)"
  shows "kinv P R m0 m' A (g_class (insert c (gU G)) (gL G - {c}) G) X"
proof -
  note lo = kinv_loose [OF k c(1)]
  have nx': "next_chunk m c = gnext G c" by (rule size_binned(6) [OF kinvD [OF k] lo(2) c(2)])
  then have nx: "next_chunk (set_curr_inuse m c) c = gnext G c" by (simp add: chunk_simps)
  have k': "kinv P R m0 m' A G X"
    unfolding m'_def nx by (intro kinv_set_pu kinv_set_cu k c(1) lo(6))
  have "minv m' A (g_class (insert c (gU G)) (gL G - {c}) G) X"
    by (rule move_alloc [OF kinvD [OF k'] c(1)]) (simp_all add: m'_def chunk_simps nx')
  then show ?thesis by (rule kinv_ghost [OF k']) (auto simp: region_def)
qed

lemma new_live_class:
  "c \<in> gC G \<Longrightarrow> c \<notin> gU G \<Longrightarrow> c \<notin> gM G \<Longrightarrow> n \<le> gsz G c \<Longrightarrow> gsz G c < n + 48 \<Longrightarrow>
     new_live n c G (g_class (insert c (gU G)) L G)"
  by (simp add: new_live_def)

lemma smallbin_search_ok:
  assumes a: "aok P R m0 s G" and n: "n mod 16 = 0" "32 \<le> n" "n < 512" and r: "smallbin_search s n = (c, s')"
  shows "outcome P R m0 s G n c s'"
proof -
  let ?A = "arena s" and ?m = "hmem s"
  have k: "kinv P R m0 ?m ?A G {}" and L: "gL G = {}" using a by (simp_all add: aok_def)
  note inv = kinvD [OF k]
  obtain j where j: "n = 16 * j" using n(1) by auto
  have ix: "get_smallbin_index (u64 n) = j - 1" "0 \<le> j - 1" "j - 1 < 32"
    using bin_index [of n] n j by (simp_all add: get_smallbin_index_def)
  define h where "h = smallbins ?A ! nat (j - 1)"
  have b: "bins_ok ?A" by (rule shapeD(1) [OF minvD(1) [OF inv]])
  have h: "h \<in> set (smallbins ?A)" unfolding h_def using b ix by (intro nth_mem) (simp add: bins_ok_def)
  then have hh: "h \<in> heads ?A - set (largebins ?A)" using b by (auto simp: heads_def bins_ok_def)
  have ring: "ring ?m 16 24 h (gbl G h)" using minvD(3) [OF inv] hh by (simp add: link_ok_def)
  show ?thesis
  proof (cases "gbl G h")
    case Nil
    then have "?m (h + 16) = h" using ring_first [OF ring] by simp
    then have "(c, s') = (0, s)" using r ix by (simp add: smallbin_search_def Let_def h_def)
    then show ?thesis using outcome_none [OF a] by simp
  next
    case (Cons v xs)
    have hv: "?m (h + 16) = v" "v \<in> set (gbl G h)" using ring_first [OF ring] Cons by simp_all
    have "v \<noteq> h" using ring_objs(2) [OF minvD(1) [OF inv], of h] hh Cons by auto
    let ?m1 = "unlink_chunk_from_fdlist ?m v" and ?G1 = "g_unlink h v G"
    have k1: "kinv P R m0 ?m1 ?A ?G1 {}" by (rule kinv_unlink_fd [OF k hh hv(2)])
    have vL: "v \<in> gL ?G1" by simp
    note lo = kinv_loose [OF k1 vL]
    define m' where "m' = set_prev_inuse (set_curr_inuse ?m1 v) (next_chunk (set_curr_inuse ?m1 v) v)"
    have k2: "kinv P R m0 m' ?A (g_class (insert v (gU G)) (gL ?G1 - {v}) ?G1) {}"
      using kinv_handout [OF k1 vL] by (simp add: m'_def)
    have "(c, s') = (v, put_mem m' s)"
      using r ix hv \<open>v \<noteq> h\<close> by (auto simp: smallbin_search_def Let_def h_def [symmetric] m'_def)
    moreover have "v \<noteq> 0" using shape_pos [OF minvD(1) [OF kinvD [OF k1]] lo(1)] by simp
    moreover have "gsz G v = 16 * (int (nat (j - 1)) + 1)"
      using shapeD(6) [OF minvD(1) [OF inv]] ix hv(2) unfolding class_ok_def h_def by (metis nat_less_iff of_nat_numeral)
    then have "gsz G v = n" using ix j by simp
    ultimately show ?thesis
      using k2 L lo by (intro outcomeI [where G' = "g_class (insert v (gU G)) (gL ?G1 - {v}) ?G1"]) (auto simp: aok_def intro!: new_live_class [of v ?G1, simplified] simp: new_live_def)
  qed
qed

lemma fastbin_search_ok:
  assumes a: "aok P R m0 s G" and n: "n mod 16 = 0" "32 \<le> n" "n \<le> 112" and r: "fastbin_search s n = (c, s')"
  shows "outcome P R m0 s G n c s'"
proof -
  let ?A = "arena s" and ?m = "hmem s"
  have k: "kinv P R m0 ?m ?A G {}" and L: "gL G = {}" using a by (simp_all add: aok_def)
  note inv = kinvD [OF k]
  define i where "i = nat (n div 16 - 1)"
  note ix = fast_index [OF n, folded i_def]
  have ch: "chain ?m (fastbins ?A ! i) (gfl G i)" using minvD(3) [OF inv] ix by (simp add: link_ok_def)
  show ?thesis
  proof (cases "gfl G i")
    case Nil
    then have "(c, s') = (0, s)" using r ix ch by (simp add: fastbin_search_def Let_def i_def [symmetric])
    then show ?thesis using outcome_none [OF a] by simp
  next
    case (Cons v xs)
    let ?A' = "?A\<lparr>fastbins := (fastbins ?A)[i := ?m (v + 16)]\<rparr>" and ?G1 = "g_fast i xs (insert v (gL G)) G"
    have fv: "fastbins ?A ! i = v" using ch Cons by simp
    have k1: "kinv P R m0 ?m ?A' ?G1 {}"
      by (rule kinv_ghost [OF k move_from_fast [OF inv ix(2) Cons]]) (simp_all add: region_def foot_def)
    have vL: "v \<in> gL ?G1" by simp
    note lo = kinv_loose [OF k1 vL]
    define m' where "m' = set_curr_inuse (?m(v + 16 := 0)) v"
    have k2: "kinv P R m0 m' ?A' ?G1 {}" unfolding m'_def by (intro kinv_set_cu kinv_loose_link k1 vL) simp
    have vF: "v \<in> gF G" using ix(2) Cons unfolding gF_def by (metis UN_I lessThan_iff list.set_intros(1))
    have pu: "is_prev_inuse m' (gnext G v)" if "gnext G v \<in> gC G"
    proof -
      have "is_prev_inuse ?m (gnext G v)"
        using inuse_next [OF inv _ _ _ that] vF lo L shapeD(3) [OF minvD(1) [OF inv]] by (auto simp: part_ok_def)
      then show ?thesis
        using gsz_range(1) [OF inv, of v] lo by (simp add: m'_def chunk_simps is_prev_inuse_def gnext_def)
    qed
    let ?G2 = "g_class (insert v (gU G)) {} ?G1"
    have "minv m' ?A' ?G2 {}"
      using move_alloc [OF kinvD [OF k2] vL] pu L lo by (simp add: m'_def chunk_simps insert_absorb)
    then have "kinv P R m0 m' ?A' ?G2 {}" by (rule kinv_ghost [OF k2]) (auto simp: region_def)
    moreover have "gsz G v = n"
      using shapeD(6) [OF minvD(1) [OF inv]] ix Cons unfolding class_ok_def by (metis list.set_intros(1))
    moreover have "(c, s') = (v, put_mem m' (upd_arena (\<lambda>a. a\<lparr>fastbins := (fastbins a)[i := ?m (v + 16)]\<rparr>) s))"
      using r ix fv shape_pos [OF minvD(1) [OF kinvD [OF k1]] lo(1)]
      by (auto simp: fastbin_search_def Let_def i_def [symmetric] m'_def)
    moreover have "v \<noteq> 0" using shape_pos [OF minvD(1) [OF kinvD [OF k1]] lo(1)] by simp
    ultimately show ?thesis
      using L lo by (intro outcomeI [where G' = ?G2]) (auto simp: aok_def new_live_def)
  qed
qed

section \<open>Splitting\<close>

lemma kinv_resize:
  assumes k: "kinv P R m0 m A G {c}" and c: "c \<in> gU G"
  shows "kinv P R m0 (set_curr_inuse (set_size m c (gsz G c) (get_size_flags m c)) c) A G {}"
proof -
  note inv = kinvD [OF k]
  have cC: "c \<in> gC G" "c \<in> objs A G" "c \<notin> gD A G" "c \<notin> gF G" using cu_not_stored [OF inv, of c] c by auto
  note sz = gsz_range [OF inv cC(1)] and fr = flags_range(1,2) [of m c]
  define w where "w = (gsz G c + get_size_flags m c) OR 4"
  have e: "set_curr_inuse (set_size m c (gsz G c) (get_size_flags m c)) c = m(c + 8 := w)"
    using sz fr by (simp add: set_size_apply set_curr_inuse_def w_def)
  have g: "get_size (m(c + 8 := w)) c = gsz G c" "is_curr_inuse (m(c + 8 := w)) c"
    using sz fr by (simp_all add: e [symmetric] chunk_simps)
  have "is_prev_inuse (m(c + 8 := w)) c = is_prev_inuse m c"
    using flags_keep(1) [of "m(c + 8 := gsz G c + get_size_flags m c)" c "gsz G c" m] sz
    by (simp add: is_prev_inuse_def w_def)
  then have "minv (m(c + 8 := w)) A G {}"
    using g cC prev_free [OF inv cC(1)] by (intro minv_word8 [OF inv cC(2)]) auto
  then show ?thesis unfolding e
    by (intro kinv_step [OF k, where W = "{c}" and K = "{8}"]) (use cC in \<open>auto intro: changes_in_upd\<close>)
qed

lemma split_writes:
  assumes k: "kinv P R m0 m A G {}" and c: "c \<in> gL G" and n: "32 \<le> n" "n mod 16 = 0" "n + 48 \<le> gsz G c"
  shows "set_prev_size (set_size m (c + 16 + n) (gsz G c - n - 16) 1)
           (next_chunk (set_size m (c + 16 + n) (gsz G c - n - 16) 1) (c + 16 + n)) (gsz G c - n - 16) 0 =
         Some (m(c + 16 + n + 8 := gsz G c - n - 16 + 1, gnext G c := gsz G c - n - 16))"
proof -
  note sz = gsz_range [OF kinvD [OF k] kinv_loose(2) [OF k c]]
  have q: "0 < gsz G c - n - 16" "gsz G c - n - 16 < 2 ^ 62" "(gsz G c - n - 16) mod 16 = 0"
    using sz n by presburger+
  note g = get_size_set_size [of "gsz G c - n - 16" 1 m "c + 16 + n" "c + 16 + n"]
  have "next_chunk (set_size m (c + 16 + n) (gsz G c - n - 16) 1) (c + 16 + n) = gnext G c"
    using g q by (simp add: next_chunk_def gnext_def)
  then show ?thesis using q by (simp add: set_size_apply set_prev_size_apply)
qed

lemma kinv_split_alloc:
  assumes k: "kinv P R m0 m A G {}" and c: "c \<in> gL G" and n: "32 \<le> n" "n mod 16 = 0" "n + 48 \<le> gsz G c"
  defines "m' \<equiv> m(c + 16 + n + 8 := gsz G c - n - 16 + 1, gnext G c := gsz G c - n - 16)"
    and "G' \<equiv> g_class (insert c (gU G)) (gL (g_split c n G) - {c}) (g_split c n G)"
  shows "kinv P R m0 m' A G' {c}" "new_live n c G G'" "gL G' = insert (c + 16 + n) (gL G - {c})"
    "gnext G' (c + 16 + n) = gnext G c" "gC G' = insert (c + 16 + n) (gC G)" "gsz G' c = n" "c \<in> gU G'" "ghs G' = ghs G"
proof -
  note lo = kinv_loose [OF k c]
  note sp = kinv_split [OF k c n, folded m'_def]
  let ?G1 = "g_split c n G"
  have nx: "gnext ?G1 c = c + 16 + n" using n by (simp add: gnext_def)
  have "minv m' A (g_class (insert c (gU ?G1)) (gL ?G1 - {c}) ?G1) {c}"
    by (rule move_alloc [OF kinvD [OF sp(1)]]) (use sp(2) c nx in simp_all)
  then have "minv m' A G' {c}" by (simp add: G'_def)
  then show "kinv P R m0 m' A G' {c}"
    unfolding G'_def by (rule kinv_ghost [OF sp(1)]) (auto simp: region_def)
  have rO: "c + 16 + n \<notin> objs A G"
    using n by (intro inside_not_object [OF minvD(1) [OF kinvD [OF k]] lo(2)]) auto
  have "gU G \<union> gM G \<subseteq> objs A G" using part_sub(1) [OF minvD(1) [OF kinvD [OF k]]] by (auto simp: objs_def)
  then show "new_live n c G G'" using lo rO n by (auto simp: new_live_def G'_def)
  show "gL G' = insert (c + 16 + n) (gL G - {c})" using n by (auto simp: G'_def)
  show "ghs G' = ghs G" using ghs_split [OF minvD(1) [OF kinvD [OF k]] c n] by (simp add: G'_def)
qed (use n in \<open>simp_all add: G'_def gnext_def\<close>)

lemma take_or_split_ok:
  assumes k: "kinv P R m0 (hmem s) (arena s) G {}" and L: "gL G = {c}" and n: "32 \<le> n" "n mod 16 = 0" "n \<le> gsz G c"
  obtains m' where "take_or_split s c n = Some (put_mem m' s)" "outcome P R m0 s G n c (put_mem m' s)"
proof -
  let ?m = "hmem s" and ?A = "arena s"
  have c: "c \<in> gL G" using L by simp
  note lo = kinv_loose [OF k c] and sz = size_binned [OF kinvD [OF k] kinv_loose(2) [OF k c]]
  have c0: "c \<noteq> 0" using shape_pos [OF minvD(1) [OF kinvD [OF k]] lo(1)] by simp
  show ?thesis
  proof (cases "gsz G c - n \<ge> 48")
    case False
    define m' where "m' = set_prev_inuse (set_curr_inuse ?m c) (next_chunk (set_curr_inuse ?m c) c)"
    have "kinv P R m0 m' ?A (g_class (insert c (gU G)) (gL G - {c}) G) {}"
      using kinv_handout [OF k c] by (simp add: m'_def)
    then have "outcome P R m0 s G n c (put_mem m' s)"
      using L c0 lo n False by (intro outcomeI [where G' = "g_class (insert c (gU G)) (gL G - {c}) G"] new_live_class)
        (auto simp: aok_def)
    moreover have "take_or_split s c n = Some (put_mem m' s)"
      using False sz by (simp add: take_or_split_def Let_def m'_def)
    ultimately show ?thesis using that by blast
  next
    case True
    then have n3: "n + 48 \<le> gsz G c" by simp
    let ?r = "c + 16 + n" and ?q = "gsz G c - n - 16"
    define m1 where "m1 = ?m(?r + 8 := ?q + 1, gnext G c := ?q)"
    define G1 where "G1 = g_class (insert c (gU G)) (gL (g_split c n G) - {c}) (g_split c n G)"
    note sp = kinv_split_alloc [OF k c n(1,2) n3, folded m1_def G1_def]
    have k1: "kinv P R m0 (hmem (put_mem m1 s)) (arena (put_mem m1 s)) G1 {c}" using sp(1) by simp
    have r: "?r \<in> gL G1" "?r \<notin> {c}" using sp(3) n by auto
    obtain m2 where m2: "insert_into_unsortedbin (put_mem m1 s) ?r = Some (put_mem m2 s)"
      "kinv P R m0 m2 ?A (g_insert (unsortedbin ?A) ?r G1) {c}"
      using insert_into_unsortedbin_ok [OF k1 r] by auto
    let ?G2 = "g_insert (unsortedbin ?A) ?r G1"
    define m3 where "m3 = set_curr_inuse (set_size m2 c n (get_size_flags m2 c)) c"
    have "kinv P R m0 m3 ?A ?G2 {}" using kinv_resize [OF m2(2)] sp(6,7) by (simp add: m3_def)
    moreover have "gL ?G2 = {}" using sp(3) L by auto
    moreover have "new_live n c G ?G2" using sp(2) by (simp add: new_live_def)
    ultimately have "outcome P R m0 s G n c (put_mem m3 s)"
      using c0 sp(8) by (intro outcomeI [where G' = ?G2]) (auto simp: aok_def)
    moreover have "take_or_split s c n = Some (put_mem m3 s)"
      using True sz m2(1) split_writes [OF k c n(1,2) n3, folded m1_def]
      by (simp add: take_or_split_def Let_def m3_def)
    ultimately show ?thesis using that by blast
  qed
qed

section \<open>The unsorted bin\<close>

lemma unlinked_facts:
  assumes k: "kinv P R m0 m A G X" and h: "h \<in> heads A - set (largebins A)" and c: "c \<in> set (gbl G h)"
  defines "m' \<equiv> unlink_chunk_from_fdlist m c"
  shows "\<not> is_curr_inuse m' c" "m' (c + 32) = 0" "m' (c + 40) = 0"
proof -
  note inv = kinvD [OF k] and s = minvD(1) [OF kinvD [OF k]]
  note u = unlink_fd_ok [OF inv h c, folded m'_def]
  show "m' (c + 32) = 0" "m' (c + 40) = 0" by (rule u)+
  have hh: "h \<in> heads A" using h by simp
  have "m' (c + 8) = m (c + 8)"
    using changes_in_cell [OF u(2) shape_spaced [OF s] ring_objs(1) [OF s hh], of c 8] ring_objs(1) [OF s hh] c by auto
  moreover have "\<not> is_curr_inuse m c" using minvD(2) [OF inv] hh c by (auto simp: hdr_ok_def gD_def)
  ultimately show "\<not> is_curr_inuse m' c" using is_curr_inuse_cong [of m' c m] by simp
qed

lemma insert_into_smallbin_ok:
  assumes k: "kinv P R m0 (hmem s) (arena s) G {}" and c: "c \<in> gL G" and sz: "gsz G c < 512"
    and cu: "\<not> is_curr_inuse (hmem s) c" and nul: "hmem s (c + 32) = 0" "hmem s (c + 40) = 0"
  obtains m' h where "insert_into_smallbin s c = Some (put_mem m' s)" "kinv P R m0 m' (arena s) (g_insert h c G) {}"
    "h \<noteq> unsortedbin (arena s)"
proof -
  let ?A = "arena s"
  note lo = kinv_loose [OF k c] and szc = size_binned [OF kinvD [OF k] kinv_loose(2) [OF k c]]
  obtain j where j: "gsz G c = 16 * j" using szc(5) by auto
  then have jr: "2 \<le> j" "j < 32" using szc sz by simp_all
  have ix: "get_smallbin_index (gsz G c) = j - 1"
    using bin_index [of "gsz G c"] szc sz j by (simp add: get_smallbin_index_def)
  define i where "i = nat (j - 1)"
  have i: "i < 32" "gsz G c = 16 * (int i + 1)" using jr j by (simp_all add: i_def)
  define h where "h = smallbins ?A ! i"
  have b: "bins_ok ?A" by (rule shapeD(1) [OF minvD(1) [OF kinvD [OF k]]])
  have "h \<in> set (smallbins ?A)" unfolding h_def using b i by (intro nth_mem) (simp add: bins_ok_def)
  then have hh: "h \<in> heads ?A - set (largebins ?A)" and hu: "h \<noteq> unsortedbin ?A"
    using b by (auto simp: heads_def bins_ok_def)
  have "gsz G c = 16 * (int i' + 1)" if "i' < 32" "h = smallbins ?A ! i'" for i'
    using that i b nth_eq_iff_index_eq [of "smallbins ?A" i i'] by (auto simp: h_def bins_ok_def)
  then have "kinv P R m0 (insert_into_fdlist (hmem s) h c) ?A (g_insert h c G) {}"
    by (intro kinv_insert_fd [OF k hh c _ nul cu])
  moreover have "insert_into_smallbin s c = Some (put_mem (insert_into_fdlist (hmem s) h c) s)"
    using szc ix jr by (simp add: insert_into_smallbin_def Let_def h_def i_def)
  ultimately show ?thesis using that hu by blast
qed

lemma insert_into_largebin_kinv:
  assumes k: "kinv P R m0 (hmem s) (arena s) G {}" and c: "c \<in> gL G" and sz: "512 \<le> gsz G c"
    and cu: "\<not> is_curr_inuse (hmem s) c"
  obtains m' h where "insert_into_largebin s c = Some (put_mem m' s)" "kinv P R m0 m' (arena s) (g_insert h c G) {}"
    "h \<noteq> unsortedbin (arena s)"
proof -
  obtain m' h where r: "insert_into_largebin s c = Some (put_mem m' s)" "h \<in> set (largebins (arena s))"
    "minv m' (arena s) (g_insert h c G) {}"
    "changes_in (hmem s) m' (insert c (insert h (set (gbl G h)))) {16, 24, 32, 40}"
    using insert_into_largebin_ok [OF kinvD [OF k] c cu sz] .
  have hh: "h \<in> heads (arena s)" by (rule in_heads_large [OF r(2)])
  have "kinv P R m0 m' (arena s) (g_insert h c G) {}"
    using ring_objs(1) [OF minvD(1) [OF kinvD [OF k]] hh] ring_not_live [OF kinvD [OF k] hh] kinv_loose [OF k c]
    by (intro kinv_step [OF k r(4) _ _ _ r(3)]) auto
  moreover have "h \<noteq> unsortedbin (arena s)" using unsorted_head(1) [OF kinvD [OF k]] r(2) by auto
  ultimately show ?thesis using that r(1) by blast
qed

lemma unsortedbin_loop_ok:
  assumes "aok P R m0 s G" "gbl G (unsortedbin (arena s)) = xs" and n: "n mod 16 = 0" "32 \<le> n"
  shows "\<exists>c s'. unsortedbin_loop s (unsortedbin (arena s)) n (hd (xs @ [unsortedbin (arena s)])) = Some (c, s') \<and>
    outcome P R m0 s G n c s'"
  using assms(1,2)
proof (induction xs arbitrary: s G)
  case Nil
  then show ?case using outcome_none [OF Nil(1)] by (simp add: unsortedbin_loop.simps)
next
  case (Cons v xs)
  let ?A = "arena s" and ?u = "unsortedbin (arena s)" and ?m1 = "unlink_chunk_from_fdlist (hmem s) v"
  have k: "kinv P R m0 (hmem s) ?A G {}" and L: "gL G = {}" using Cons.prems by (simp_all add: aok_def)
  note inv = kinvD [OF k]
  note u = unsorted_head [OF inv]
  have uh: "?u \<in> heads ?A" using u by simp
  have vu: "v \<in> set (gbl G ?u)" "v \<noteq> ?u" "distinct (v # xs)"
    using ring_objs(2) [OF minvD(1) [OF inv] uh] Cons.prems(2) by auto
  have "ring (hmem s) 16 24 ?u ([] @ v # xs)" using minvD(3) [OF inv] uh Cons.prems(2) by (auto simp: link_ok_def)
  then have nx: "hmem s (v + 16) = hd (xs @ [?u])" by (rule ring_neighbours)
  let ?G1 = "g_unlink ?u v G" and ?s1 = "put_mem ?m1 s"
  have k1: "kinv P R m0 (hmem ?s1) (arena ?s1) ?G1 {}" using kinv_unlink_fd [OF k u(1) vu(1)] by simp
  have L1: "gL ?G1 = {v}" and vL: "v \<in> gL ?G1" using L by simp_all
  note sz = size_binned [OF kinvD [OF k1] kinv_loose(2) [OF k1 vL]]
  note uf = unlinked_facts [OF k u(1) vu(1)]
  show ?case
  proof (cases "gsz G v \<ge> n")
    case True
    obtain m' where m': "take_or_split ?s1 v n = Some (put_mem m' ?s1)" "outcome P R m0 ?s1 ?G1 n v (put_mem m' ?s1)"
      using take_or_split_ok [OF k1 L1 n(2,1)] True by auto
    have "outcome P R m0 s G n v (put_mem m' s)" using outcome_trans [OF _ _ _ _ m'(2), where s = s and G = G] by simp
    then show ?thesis using True m'(1) sz vu by (simp add: unsortedbin_loop.simps Let_def)
  next
    case False
    obtain m2 h where m2: "(if gsz G v < 512 then insert_into_smallbin ?s1 v else insert_into_largebin ?s1 v) = Some (put_mem m2 ?s1)"
      "kinv P R m0 m2 ?A (g_insert h v ?G1) {}" "h \<noteq> ?u"
    proof (cases "gsz G v < 512")
      case True
      then have "gsz ?G1 v < 512" "\<not> is_curr_inuse (hmem ?s1) v" "hmem ?s1 (v + 32) = 0" "hmem ?s1 (v + 40) = 0"
        using uf by simp_all
      from insert_into_smallbin_ok [OF k1 vL this] show ?thesis using True that by auto
    next
      case False
      then have "512 \<le> gsz ?G1 v" "\<not> is_curr_inuse (hmem ?s1) v" using uf by simp_all
      from insert_into_largebin_kinv [OF k1 vL this] show ?thesis using False that by auto
    qed
    let ?s2 = "put_mem m2 s" and ?G2 = "g_insert h v ?G1"
    have "aok P R m0 ?s2 ?G2" "gbl ?G2 (unsortedbin (arena ?s2)) = xs"
      using m2(2,3) L Cons.prems(2) vu by (simp_all add: aok_def gbl_insert gbl_unlink)
    then obtain c s' where r: "unsortedbin_loop ?s2 ?u n (hd (xs @ [?u])) = Some (c, s')" "outcome P R m0 ?s2 ?G2 n c s'"
      using Cons.IH by fastforce
    have "same_live G ?G2" by (rule same_live_trans [of G ?G1]) simp_all
    then have "outcome P R m0 s G n c s'" using outcome_trans [OF _ _ _ _ r(2), where s = s and G = G] by simp
    then show ?thesis using False r(1) m2(1) sz vu nx by (simp add: unsortedbin_loop.simps Let_def)
  qed
qed

lemma unsortedbin_search_ok:
  assumes a: "aok P R m0 s G" and n: "n mod 16 = 0" "32 \<le> n"
  obtains c s' where "unsortedbin_search s n = Some (c, s')" "outcome P R m0 s G n c s'"
proof -
  have inv: "minv (hmem s) (arena s) G {}" using a kinvD by (auto simp: aok_def)
  have "ring (hmem s) 16 24 (unsortedbin (arena s)) (gbl G (unsortedbin (arena s)))"
    using minvD(3) [OF inv] unsorted_head(1) [OF inv] by (simp add: link_ok_def)
  note f = ring_first [OF this]
  obtain c s' where "unsortedbin_loop s (unsortedbin (arena s)) n (hmem s (unsortedbin (arena s) + 16)) = Some (c, s')"
    "outcome P R m0 s G n c s'" using unsortedbin_loop_ok [OF a refl n] unfolding f by blast
  then show ?thesis using that by (simp add: unsortedbin_search_def Let_def)
qed

section \<open>The large bins\<close>

lemma largebin_scan_seg:
  assumes "seg m 32 40 p ys h" "h \<notin> set ys" "\<And>y. y \<in> set ys \<Longrightarrow> get_usize m y = f y"
  shows "\<exists>c. largebin_scan m h n (m (p + 32)) = Some c \<and> (c = 0 \<or> c \<in> set ys \<and> n \<le> f c)"
  using assms
proof (induction ys arbitrary: p)
  case Nil
  then show ?case by (simp add: largebin_scan.simps)
next
  case (Cons y ys)
  then have IH: "\<exists>c. largebin_scan m h n (m (y + 32)) = Some c \<and> (c = 0 \<or> c \<in> set ys \<and> n \<le> f c)" by auto
  have "largebin_scan m h n (m (p + 32)) = (if n \<le> f y then Some y else largebin_scan m h n (m (y + 32)))"
    using Cons.prems by (subst largebin_scan.simps) auto
  then show ?case using IH by auto
qed

lemma largebin_take_ok:
  assumes a: "aok P R m0 s G" and h: "h \<in> heads (arena s)" "c \<in> set (gbl G h)" and n: "n mod 16 = 0" "32 \<le> n" "n \<le> gsz G c"
  obtains s' where "take_or_split (put_mem (unlink_chunk_from_sortedlist (unlink_chunk_from_fdlist (hmem s) c) c) s) c n = Some s'"
    "outcome P R m0 s G n c s'"
proof -
  let ?s1 = "put_mem (unlink_chunk_from_sortedlist (unlink_chunk_from_fdlist (hmem s) c) c) s" and ?G1 = "g_unlink h c G"
  have k: "kinv P R m0 (hmem s) (arena s) G {}" and L: "gL G = {}" using a by (simp_all add: aok_def)
  have k1: "kinv P R m0 (hmem ?s1) (arena ?s1) ?G1 {}" using kinv_unlink_both [OF k h] by simp
  obtain m' where m': "take_or_split ?s1 c n = Some (put_mem m' ?s1)" "outcome P R m0 ?s1 ?G1 n c (put_mem m' ?s1)"
    using take_or_split_ok [OF k1 _ n(2,1)] L n(3) by auto
  then show ?thesis using that outcome_trans [OF _ _ _ _ m'(2), where s = s and G = G] by simp
qed

lemma largebin_loop_ok:
  assumes a: "aok P R m0 s G" and n: "n mod 16 = 0" "32 \<le> n"
  shows "\<exists>c s'. largebin_loop s n i = Some (c, s') \<and> outcome P R m0 s G n c s'"
proof (induction "64 - i" arbitrary: i)
  case 0
  then show ?case using outcome_none [OF a] by simp
next
  case (Suc d)
  have IH: "\<exists>c s'. largebin_loop s n (Suc i) = Some (c, s') \<and> outcome P R m0 s G n c s'"
    using Suc.hyps by (intro Suc.hyps(1)) simp
  have k: "kinv P R m0 (hmem s) (arena s) G {}" using a by (simp add: aok_def)
  note inv = kinvD [OF k]
  note s = minvD(1) [OF inv]
  define h where "h = largebins (arena s) ! i"
  have i: "i < 64" using Suc.hyps(2) by simp
  have h: "h \<in> set (largebins (arena s))"
    unfolding h_def using i shapeD(1) [OF s] by (intro nth_mem) (simp add: bins_ok_def)
  note so = ring_sorted_objs [OF s h]
  have h0: "h \<noteq> 0" using shape_pos [OF s, of h] so(1) by (auto simp: objs_def)
  have sg: "seg (hmem s) 32 40 h (gsl G h) h" using minvD(3) [OF inv] h by (simp add: link_ok_def ring_def)
  have us: "get_usize (hmem s) y = gsz G y" if "y \<in> set (gsl G h)" for y
    using size_binned(2) [OF inv, of y] part_sub(1) [OF s] that so by (auto simp: gD_def)
  have hn: "h \<notin> set (gsl G h)" using so by simp
  obtain c where c: "largebin_scan (hmem s) h n (hmem s (h + 32)) = Some c" "c = 0 \<or> c \<in> set (gsl G h) \<and> n \<le> gsz G c"
    using largebin_scan_seg [where f = "gsz G", OF sg hn us] by blast
  show ?case
  proof (cases "h = hmem s (h + 32) \<or> c = 0")
    case True
    then show ?thesis using IH i h0 c(1)
      by (subst (1) largebin_loop.simps) (auto simp: Let_def h_def [symmetric] simp del: largebin_loop.simps)
  next
    case False
    have cs: "c \<in> set (gbl G h)" "n \<le> gsz G c" using False c(2) so by auto
    obtain s' where s': "take_or_split (put_mem (unlink_chunk_from_sortedlist (unlink_chunk_from_fdlist (hmem s) c) c) s) c n = Some s'"
      "outcome P R m0 s G n c s'" using largebin_take_ok [OF a so(1) cs(1) n cs(2)] .
    then show ?thesis using False i h0 c(1)
      by (subst largebin_loop.simps) (auto simp: Let_def h_def [symmetric] simp del: largebin_loop.simps)
  qed
qed

lemma largebin_search_ok:
  assumes a: "aok P R m0 s G" and n: "n mod 16 = 0" "32 \<le> n"
  obtains c s' where "largebin_search s n = Some (c, s')" "outcome P R m0 s G n c s'"
proof (cases "get_largebin_index n < 0 \<or> get_largebin_index n \<ge> 64")
  case True
  then show ?thesis using that outcome_none [OF a] by (simp add: largebin_search_def Let_def)
next
  case False
  then show ?thesis
    using that largebin_loop_ok [OF a n, of "nat (get_largebin_index n)"]
    by (auto simp: largebin_search_def Let_def simp del: largebin_loop.simps)
qed

end
