(* ===== verification/ArenaHeap.thy ===== *)
theory ArenaHeap
  imports ArenaBins
begin

text \<open>
  Memory from the operating system: the documented behaviour of \<open>mmap\<close> and \<open>munmap\<close> that the
  allocator relies on, heap growth, directly mapped chunks, and carving from the top chunk.
\<close>

section \<open>The operating system's promises\<close>

definition page_up :: "int \<Rightarrow> int" where
  "page_up n = (n + 4095) div 4096 * 4096"

definition area :: "(addr \<times> int) set \<Rightarrow> addr set" where
  "area ms = (\<Union>(p, n)\<in>ms. {p..<p + page_up n})"

text \<open>
  A successful anonymous mapping consists of whole pages, is page aligned, lies in the user part of
  the address space and overlaps no existing mapping. Unmapping a whole mapping removes it and
  nothing else. Mapping may fail.
\<close>

definition mmap_ok :: "os \<Rightarrow> bool" where
  "mmap_ok os \<longleftrightarrow> (\<forall>ms n p. 0 < n \<longrightarrow> os_mmap os ms n = Some p \<longrightarrow>
     0 < p \<and> p mod 4096 = 0 \<and> p + page_up n \<le> 2 ^ 47 \<and> area (set ms) \<inter> {p..<p + page_up n} = {})"

definition munmap_ok :: "os \<Rightarrow> bool" where
  "munmap_ok os \<longleftrightarrow> (\<forall>ms p n. (p, n) \<in> set ms \<longrightarrow> set (os_munmap os ms p n) = set ms - {(p, n)})"

lemma page_up_ge: "n \<le> page_up n"
proof -
  have "(n + 4095) div 4096 * 4096 + (n + 4095) mod 4096 = n + 4095" by simp
  moreover have "(n + 4095) mod 4096 < 4096" by simp
  ultimately show ?thesis unfolding page_up_def by linarith
qed

lemma area_Un: "area (ms \<union> ns) = area ms \<union> area ns"
  by (auto simp: area_def)

lemma area_in: "(p, n) \<in> ms \<Longrightarrow> p \<le> a \<Longrightarrow> a < p + page_up n \<Longrightarrow> a \<in> area ms"
  unfolding area_def by (intro UN_I [of "(p, n)"]) simp_all

lemma area_mono: "ms \<subseteq> ns \<Longrightarrow> area ms \<subseteq> area ns"
  unfolding area_def by blast

section \<open>Fresh memory\<close>

definition fresh :: "arena_t \<Rightarrow> ghost \<Rightarrow> addr \<Rightarrow> int \<Rightarrow> bool" where
  "fresh A G p len \<longleftrightarrow> (\<forall>x\<in>objs A G. x + gext G x \<le> p \<or> p + len \<le> x)"

lemma fresh_mono: "fresh A G p len \<Longrightarrow> len' \<le> len \<Longrightarrow> fresh A G p len'"
  by (force simp: fresh_def)

lemma fresh_cell:
  assumes "shape A G" "fresh A G p len" "x \<in> objs A G" "0 \<le> j" "j < 48"
  shows "x + j < p \<or> p + len \<le> x + j"
  using assms shape_gext [OF assms(1,3)] by (force simp: fresh_def)

lemma fresh_payload:
  assumes "shape A G" "fresh A G p len" "a \<in> region G"
  shows "a < p \<or> p + len \<le> a"
proof -
  obtain u where u: "u \<in> gU G \<union> gM G" "a \<in> payload G u" using assms(3) unfolding region_def by blast
  then have "u \<in> objs A G" "gext G u = 16 + gsz G u"
    using part_sub(1) [OF assms(1)] by (auto simp: objs_def gext_def)
  then show ?thesis using assms(2) u(2) by (force simp: fresh_def payload_def)
qed

lemma minv_frame:
  assumes inv: "minv m A G X" and eq: "\<And>x j. x \<in> objs A G \<Longrightarrow> 0 \<le> j \<Longrightarrow> j < 48 \<Longrightarrow> m' (x + j) = m (x + j)"
  shows "minv m' A G X"
proof -
  note s = minvD(1) [OF inv]
  have "hdr_ok m' A G X = hdr_ok m A G X"
  proof (rule hdr_ok_cong)
    show "m' x = m x" if "x \<in> objs A G" for x using eq [OF that, of 0] by simp
  qed (use eq part_sub [OF s] in auto)
  moreover have "link_ok m' A G = link_ok m A G"
  proof (rule link_ok_cong)
    fix x k assume "x \<in> heads A \<union> gD A G \<union> gF G" "k \<in> {16, 24, 32, 40::int}"
    then show "m' (x + k) = m (x + k)" using part_sub [OF s] by (intro eq) (auto simp: objs_def)
  qed (rule shapeD [OF s])
  ultimately show ?thesis using inv by (simp add: minv_def)
qed

lemma minv_arena_cong:
  "minv m (A\<lparr>heap_expo_growth_iters := i, heap_constant_growth_iters := j, alloced_heaps := hs\<rparr>) G X = minv m A G X"
  by (simp add: minv_def shape_def bins_ok_def kinds_ok_def part_ok_def lists_ok_def layout_ok_def class_ok_def
      hdr_ok_def link_ok_def heads_def gD_def gT_def objs_def)

section \<open>A new heap\<close>

definition g_grow :: "addr \<Rightarrow> int \<Rightarrow> ghost \<Rightarrow> ghost" where
  "g_grow p n G = G\<lparr>gC := insert p (gC G), gB := insert (p + 16 + n) (gB G), gsz := (gsz G)(p := n)\<rparr>"

lemma g_grow_simps [simp]:
  "gC (g_grow p n G) = insert p (gC G)" "gB (g_grow p n G) = insert (p + 16 + n) (gB G)"
  "gM (g_grow p n G) = gM G" "gU (g_grow p n G) = gU G" "gL (g_grow p n G) = gL G"
  "gsz (g_grow p n G) = (gsz G)(p := n)" "gfl (g_grow p n G) = gfl G" "gbl (g_grow p n G) = gbl G"
  "gsl (g_grow p n G) = gsl G" "gF (g_grow p n G) = gF G" "gD A (g_grow p n G) = gD A G"
  "objs A (g_grow p n G) = insert p (insert (p + 16 + n) (objs A G))"
  by (auto simp: g_grow_def gF_def gD_def objs_def)

lemma fresh_not_object:
  assumes "shape A G" "fresh A G p len" "p \<le> x" "x < p + len"
  shows "x \<notin> objs A G"
  using fresh_cell [OF assms(1,2), of x 0] assms(3,4) by auto

lemma layout_grow:
  assumes s: "shape A G" and fr: "fresh A G p (n + 64)"
    and n: "32 \<le> n" "n mod 16 = 0" and p: "0 < p" "p mod 16 = 0" "p + n + 64 < 2 ^ 62"
  shows "layout_ok A (g_grow p n G)"
proof -
  note sh = shapeD [OF s]
  let ?G = "g_grow p n G" and ?b = "p + 16 + n"
  have new: "p \<notin> objs A G" "?b \<notin> objs A G" using fresh_not_object [OF s fr] n by auto
  then have pn: "p \<notin> gC G" "p \<notin> gM G" "?b \<notin> gC G" "?b \<notin> gM G" by (auto simp: objs_def)
  have ext: "gext ?G p = 16 + n" "gext ?G ?b = 48" "x \<noteq> p \<Longrightarrow> gext ?G x = gext G x" for x
    using pn n by (auto simp: gext_def)
  have old: "x + gext G x \<le> p \<or> p + n + 64 \<le> x" if "x \<in> objs A G" for x using fr that by (auto simp: fresh_def)
  have pos: "48 \<le> gext G x" "0 < x" "x + gext G x < 2 ^ 62" if "x \<in> objs A G" for x
    using shape_gext [OF s that] sh(5) that by (auto simp: layout_ok_def)
  have 1: "x + gext ?G x \<le> y" if xy: "x \<in> objs A ?G" "y \<in> objs A ?G" "x < y" for x y
  proof -
    consider "x = p" | "x = ?b" | "x \<in> objs A G" "x \<noteq> p" using xy(1) by auto
    then show ?thesis
    proof cases
      case 1
      then show ?thesis using xy(2,3) old [of y] pos [of y] ext n by (cases "y = ?b") auto
    next
      case 2
      then show ?thesis using xy(2,3) old [of y] pos [of y] ext n by (cases "y = p") auto
    next
      case 3
      consider "y = p" | "y = ?b" | "y \<in> objs A G" using xy(2) by auto
      then show ?thesis
        using 3 old [of x] pos [of x] ext(3) xy(3) objs_apart [OF s 3(1), of y] n by cases auto
    qed
  qed
  have 2: "0 < x \<and> x + gext ?G x < 2 ^ 62" if "x \<in> objs A ?G" for x
    using that pos [of x] ext p n by (cases "x = p"; cases "x = ?b") auto
  have 3: "32 \<le> gsz ?G x \<and> gsz ?G x mod 16 = 0 \<and> x mod 16 = 0 \<and> gnext ?G x \<in> gC ?G \<union> gB ?G" if "x \<in> gC ?G" for x
    using that n p sh(5) by (cases "x = p") (auto simp: layout_ok_def gnext_def)
  have 4: "131072 \<le> gsz ?G x \<and> gsz ?G x mod 16 = 0 \<and> x mod 16 = 0" if "x \<in> gM ?G" for x
    using that pn sh(5) by (auto simp: layout_ok_def)
  show ?thesis unfolding layout_ok_def using 1 2 3 4 by blast
qed

lemma shape_grow:
  assumes s: "shape A G" and top: "top_chunk A = 0" and fr: "fresh A G p (n + 64)"
    and n: "32 \<le> n" "n mod 16 = 0" and p: "0 < p" "p mod 16 = 0" "p + n + 64 < 2 ^ 62"
  shows "shape (A\<lparr>top_chunk := p\<rparr>) (g_grow p n G)"
proof -
  note sh = shapeD [OF s]
  let ?A = "A\<lparr>top_chunk := p\<rparr>" and ?G = "g_grow p n G" and ?b = "p + 16 + n"
  have new: "p \<notin> objs A G" "?b \<notin> objs A G" using fresh_not_object [OF s fr] n by auto
  then have pn: "p \<notin> gC G" "p \<notin> gB G" "p \<notin> gM G" "p \<notin> heads A" "?b \<notin> gC G" "?b \<notin> gB G" "?b \<notin> gM G" "?b \<notin> heads A"
    by (auto simp: objs_def)
  have pp: "p \<notin> gU G" "p \<notin> gL G" "p \<notin> gF G" "p \<notin> gD A G" using pn sh(3) by (auto simp: part_ok_def)
  have "kinds_ok ?A ?G" using sh(2) pn n unfolding kinds_ok_def by auto
  moreover have "part_ok ?A ?G" using sh(3) pp p(1) top by (auto simp: part_ok_def gT_def)
  moreover have "lists_ok A ?G" "class_ok A ?G"
    using pp by (intro lists_ok_sizes [OF sh(4)] class_ok_sizes [OF sh(1,6)]; auto)+
  then have "lists_ok ?A ?G" "class_ok ?A ?G" by (simp_all add: lists_ok_def class_ok_def)
  moreover have "layout_ok ?A ?G" using layout_grow [OF s fr n p] by (simp add: layout_ok_def)
  ultimately show ?thesis using sh(1) by (simp add: shape_def bins_ok_def)
qed

lemma minv_grow:
  assumes inv: "minv m A G {}" and top: "top_chunk A = 0" and fr: "fresh A G p (n + 64)"
    and n: "32 \<le> n" "n mod 16 = 0" and p: "0 < p" "p mod 16 = 0" "p + n + 64 < 2 ^ 62"
    and w: "get_size m p = n" "is_prev_inuse m p" "is_curr_inuse m (p + 16 + n)"
  shows "minv m (A\<lparr>top_chunk := p\<rparr>) (g_grow p n G) {}"
proof -
  note s = minvD(1) [OF inv]
  have pO: "p \<notin> objs A G" using fresh_not_object [OF s fr] n by simp
  have pn: "p \<notin> gC G" "p \<notin> gM G" using pO by (auto simp: objs_def)
  have sub: "gD A G \<union> gL G \<subseteq> gC G" using part_sub [OF s] by auto
  have "hdr_ok m (A\<lparr>top_chunk := p\<rparr>) (g_grow p n G) {}"
  proof -
    have h: "hdr_ok m A G {}" by (rule minvD(2) [OF inv])
    have 5: "\<exists>c\<in>gD A G \<union> gL G. gnext (g_grow p n G) c = x \<and> get_prev_size m x = gsz (g_grow p n G) c"
      if x: "x \<in> gC G" "\<not> is_prev_inuse m x" for x
    proof -
      obtain c where "c \<in> gD A G \<union> gL G" "gnext G c = x" "get_prev_size m x = gsz G c"
        using prev_free [OF inv x] by blast
      moreover from this have "c \<noteq> p" using sub pn by blast
      ultimately show ?thesis by (intro bexI [of _ c]) (auto simp: gnext_def)
    qed
    show ?thesis using h w 5 pn unfolding hdr_ok_def by auto
  qed
  moreover have "link_ok m (A\<lparr>top_chunk := p\<rparr>) (g_grow p n G)"
    using minvD(3) [OF inv] by (simp add: link_ok_def)
  ultimately show ?thesis using shape_grow [OF s top fr n p] by (simp add: minv_def)
qed

section \<open>A directly mapped chunk\<close>

definition g_mmap :: "addr \<Rightarrow> int \<Rightarrow> ghost \<Rightarrow> ghost" where
  "g_mmap c n G = G\<lparr>gM := insert c (gM G), gsz := (gsz G)(c := n)\<rparr>"

lemma g_mmap_simps [simp]:
  "gC (g_mmap c n G) = gC G" "gB (g_mmap c n G) = gB G" "gM (g_mmap c n G) = insert c (gM G)"
  "gU (g_mmap c n G) = gU G" "gL (g_mmap c n G) = gL G" "gsz (g_mmap c n G) = (gsz G)(c := n)"
  "gfl (g_mmap c n G) = gfl G" "gbl (g_mmap c n G) = gbl G" "gsl (g_mmap c n G) = gsl G"
  "gF (g_mmap c n G) = gF G" "gD A (g_mmap c n G) = gD A G" "objs A (g_mmap c n G) = insert c (objs A G)"
  by (auto simp: g_mmap_def gF_def gD_def objs_def)

lemma shape_mmap:
  assumes s: "shape A G" and fr: "fresh A G c (n + 16)"
    and n: "131072 \<le> n" "n mod 16 = 0" and c: "0 < c" "c mod 16 = 0" "c + n + 16 < 2 ^ 62"
  shows "shape A (g_mmap c n G)"
proof -
  note sh = shapeD [OF s]
  let ?G = "g_mmap c n G"
  have cO: "c \<notin> objs A G" using fresh_not_object [OF s fr] n by auto
  then have cn: "c \<notin> gC G" "c \<notin> gB G" "c \<notin> gM G" "c \<notin> heads A" by (auto simp: objs_def)
  have cp: "c \<notin> gU G" "c \<notin> gL G" "c \<notin> gF G" "c \<notin> gD A G" using cn sh(3) by (auto simp: part_ok_def)
  have "kinds_ok A ?G" using sh(2) cn unfolding kinds_ok_def by auto
  moreover have "part_ok A ?G" using sh(3) by (simp add: part_ok_def)
  moreover have "lists_ok A ?G" "class_ok A ?G"
    using cp by (intro lists_ok_sizes [OF sh(4)] class_ok_sizes [OF sh(1,6)]; auto)+
  moreover have "layout_ok A ?G"
  proof -
    have ext: "gext ?G c = 16 + n" "x \<noteq> c \<Longrightarrow> gext ?G x = gext G x" for x by (auto simp: gext_def)
    have old: "x + gext G x \<le> c \<or> c + n + 16 \<le> x" if "x \<in> objs A G" for x using fr that by (auto simp: fresh_def)
    have pos: "48 \<le> gext G x" "0 < x" "x + gext G x < 2 ^ 62" if "x \<in> objs A G" for x
      using shape_gext [OF s that] sh(5) that by (auto simp: layout_ok_def)
    have 1: "x + gext ?G x \<le> y" if "x \<in> objs A ?G" "y \<in> objs A ?G" "x < y" for x y
    proof (cases "x = c")
      case True
      then show ?thesis using that old [of y] pos [of y] ext by auto
    next
      case False
      then show ?thesis using that old [of x] pos [of x] ext(2) objs_apart [OF s, of x y] n by (cases "y = c") auto
    qed
    have 2: "0 < x \<and> x + gext ?G x < 2 ^ 62" if "x \<in> objs A ?G" for x
      using that pos [of x] ext c by (cases "x = c") auto
    have 3: "32 \<le> gsz ?G x \<and> gsz ?G x mod 16 = 0 \<and> x mod 16 = 0 \<and> gnext ?G x \<in> gC ?G \<union> gB ?G" if "x \<in> gC ?G" for x
    proof -
      have "x \<noteq> c" using that cn by auto
      then show ?thesis using that sh(5) by (simp add: layout_ok_def gnext_def)
    qed
    have 4: "131072 \<le> gsz ?G x \<and> gsz ?G x mod 16 = 0 \<and> x mod 16 = 0" if "x \<in> gM ?G" for x
      using that sh(5) n c by (auto simp: layout_ok_def)
    show ?thesis unfolding layout_ok_def using 1 2 3 4 by blast
  qed
  ultimately show ?thesis using sh(1) by (simp add: shape_def)
qed

lemma minv_mmap:
  assumes inv: "minv m A G {}" and fr: "fresh A G c (n + 16)" and n: "131072 \<le> n" "n mod 16 = 0"
    and c: "0 < c" "c mod 16 = 0" "c + n + 16 < 2 ^ 62" and w: "get_size m c = n"
  shows "minv m A (g_mmap c n G) {}"
proof -
  note s = minvD(1) [OF inv] and h = minvD(2) [OF inv]
  have cO: "c \<notin> objs A G" using fresh_not_object [OF s fr] n by simp
  then have cn: "c \<notin> gC G" by (auto simp: objs_def)
  have sub: "gD A G \<union> gL G \<subseteq> gC G" using part_sub [OF s] by auto
  have 5: "\<exists>d\<in>gD A G \<union> gL G. gnext (g_mmap c n G) d = x \<and> get_prev_size m x = gsz (g_mmap c n G) d"
    if x: "x \<in> gC G" "\<not> is_prev_inuse m x" for x
  proof -
    obtain d where "d \<in> gD A G \<union> gL G" "gnext G d = x" "get_prev_size m x = gsz G d"
      using prev_free [OF inv x] by blast
    moreover from this have "d \<noteq> c" using sub cn by blast
    ultimately show ?thesis by (intro bexI [of _ d]) (auto simp: gnext_def)
  qed
  have "hdr_ok m A (g_mmap c n G) {}" using h w 5 cn unfolding hdr_ok_def by auto
  moreover have "link_ok m A (g_mmap c n G)" using minvD(3) [OF inv] by (simp add: link_ok_def)
  ultimately show ?thesis using shape_mmap [OF s fr n c] by (simp add: minv_def)
qed

section \<open>The invariant of a heap state\<close>

text \<open>
  The objects of the heaps lie in mappings that are not those of the directly mapped chunks, and
  every directly mapped chunk is a mapping of its own.
\<close>

definition ment :: "ghost \<Rightarrow> (addr \<times> int) set" where
  "ment G = (\<lambda>c. (c, 16 + gsz G c)) ` gM G"

definition counts_ok :: "arena_t \<Rightarrow> bool" where
  "counts_ok A \<longleftrightarrow> (case growth A of (i, j, hs) \<Rightarrow>
     0 \<le> i \<and> i \<le> int (length hs) \<and> 0 \<le> j \<and> j \<le> int (length hs) \<and> length hs \<le> 159)"

text \<open>The registered heaps are the heaps of the ghost, each registered once.\<close>

definition heaps_ok :: "arena_t \<Rightarrow> ghost \<Rightarrow> bool" where
  "heaps_ok A G \<longleftrightarrow> set (alloced_heaps A) = ghs G \<and> distinct (alloced_heaps A)"

lemma ghs_grow:
  assumes s: "shape A G" and p: "p \<notin> objs A G" "p + 16 + n \<notin> objs A G" and n: "0 < n"
  shows "ghs (g_grow p n G) = insert (p, p + 16 + n) (ghs G)"
proof -
  let ?G = "g_grow p n G" and ?q = "p + 16 + n"
  have nx: "gnext ?G y = (if y = p then ?q else gnext G y)" for y by (simp add: gnext_def)
  have y: "gnext G y \<in> objs A G" if "y \<in> gC G" for y using that shapeD(5) [OF s] by (auto simp: layout_ok_def objs_def)
  have C: "p \<notin> gC G" "?q \<notin> gC G" "?q \<notin> gB G" "?q \<noteq> p" using p n by (auto simp: objs_def)
  have rel: "grel ?G = insert (p, ?q) (grel G)" using C by (auto simp: grel_def nx)
  have old: "x \<noteq> p \<Longrightarrow> (x, e) \<in> (grel G)\<^sup>+ \<and> e \<in> objs A G" if "(x, e) \<in> (grel ?G)\<^sup>+" for x e
    using that
  proof (induction rule: trancl_induct)
    case (base e)
    then show ?case unfolding rel using y by (auto simp: grel_def)
  next
    case (step z e)
    then have z: "(x, z) \<in> (grel G)\<^sup>+" "z \<in> objs A G" by simp_all
    have "z \<noteq> p" using z(2) p(1) by auto
    then have "(z, e) \<in> grel G" using step.hyps(2) unfolding rel by simp
    then show ?case using z(1) y by (auto simp: grel_def intro: trancl_into_trancl)
  qed
  have new: "e = ?q" if "(p, e) \<in> (grel ?G)\<^sup>+" for e
    using that
  proof (induction rule: trancl_induct)
    case (base e)
    then show ?case unfolding rel using C by (auto simp: grel_def)
  next
    case (step z e)
    then show ?case unfolding rel using C by (auto simp: grel_def)
  qed
  have up: "(grel G)\<^sup>+ \<subseteq> (grel ?G)\<^sup>+" unfolding rel by (meson subset_insertI subsetI trancl_mono)
  have st: "(\<forall>y\<in>gC ?G. gnext ?G y \<noteq> b) \<longleftrightarrow> (\<forall>y\<in>gC G. gnext G y \<noteq> b)" if "b \<in> gC G" for b using that C by (auto simp: nx)
  have sp: "(p, ?q) \<in> ghs ?G" unfolding ghs_def rel using y p n by (auto simp: nx)
  have "(b, e) \<in> ghs ?G \<longleftrightarrow> (b, e) = (p, ?q) \<or> (b, e) \<in> ghs G" for b e
  proof (cases "b = p")
    case True
    then show ?thesis using new [of e] sp C(1) by (auto simp: ghs_def)
  next
    case False
    have "(b, e) \<in> (grel ?G)\<^sup>+ \<and> e \<in> gB ?G \<longleftrightarrow> (b, e) \<in> (grel G)\<^sup>+ \<and> e \<in> gB G"
      using old [of b e] up False p(2) by auto
    then show ?thesis using False st [of b] unfolding ghs_def by auto
  qed
  then show ?thesis by auto
qed

definition arena_inv :: "heap_state \<Rightarrow> ghost \<Rightarrow> bool" where
  "arena_inv s G \<longleftrightarrow> minv (hmem s) (arena s) G {} \<and> gL G = {} \<and> ment G \<subseteq> set (maps s) \<and>
     foot (arena s) G \<subseteq> area (set (maps s) - ment G) \<and> counts_ok (arena s) \<and> heaps_ok (arena s) G"

text \<open>\<open>sok R m0 b0 s G\<close>: the invariant, with the protected payload \<open>R\<close> as in \<open>m0\<close> and \<open>b0\<close>.\<close>

definition sok :: "addr set \<Rightarrow> mem \<Rightarrow> bytes \<Rightarrow> heap_state \<Rightarrow> ghost \<Rightarrow> bool" where
  "sok R m0 b0 s G \<longleftrightarrow> arena_inv s G \<and> R \<subseteq> region G \<and> (\<forall>a\<in>R. hmem s a = m0 a \<and> hbytes s a = b0 a)"

abbreviation heap_area :: "heap_state \<Rightarrow> ghost \<Rightarrow> addr set" where
  "heap_area s G \<equiv> area (set (maps s) - ment G)"

lemma sok_aok: "sok R m0 b0 s G \<Longrightarrow> aok (heap_area s G) R m0 s G"
  by (auto simp: sok_def arena_inv_def aok_def kinv_def)

lemma ment_same: "same_live G G' \<Longrightarrow> ment G' = ment G" "new_live n c G G' \<Longrightarrow> ment G' = ment G"
  unfolding ment_def same_live_def new_live_def by auto

lemma aok_sok:
  assumes "sok R m0 b0 s G" "aok (heap_area s G) R m0 s' G'" "hbytes s' = hbytes s" "maps s' = maps s"
    "growth (arena s') = growth (arena s)" "ment G' = ment G" "ghs G' = ghs G"
  shows "sok R m0 b0 s' G'"
  using assms by (auto simp: sok_def arena_inv_def aok_def kinv_def counts_ok_def heaps_ok_def growth_def)

lemma outcome_sok:
  assumes "sok R m0 b0 s G" "outcome (heap_area s G) R m0 s G n c s'"
  obtains G' where "sok R m0 b0 s' G'" "if c = 0 then same_live G G' else new_live n c G G'"
proof -
  obtain G' where g: "hbytes s' = hbytes s" "maps s' = maps s" "growth (arena s') = growth (arena s)"
    "aok (heap_area s G) R m0 s' G'" "ghs G' = ghs G" "if c = 0 then same_live G G' else new_live n c G G'"
    using assms(2) by (auto simp: outcome_def)
  moreover have "ment G' = ment G" using g(6) ment_same by (auto split: if_splits)
  ultimately show ?thesis using that aok_sok [OF assms(1)] by blast
qed

text \<open>What the operating system hands out is fresh for the arena.\<close>

lemma mmap_fresh:
  assumes os: "mmap_ok os" and inv: "arena_inv s G" and mm: "os_mmap os (maps s) len = Some p" "0 < len"
  shows "fresh (arena s) G p (page_up len)" "0 < p" "p mod 16 = 0" "p + page_up len \<le> 2 ^ 47"
    "area (set (maps s)) \<inter> {p..<p + page_up len} = {}"
proof -
  have o: "0 < p" "p mod 4096 = 0" "p + page_up len \<le> 2 ^ 47" "area (set (maps s)) \<inter> {p..<p + page_up len} = {}"
    using os mm unfolding mmap_ok_def by blast+
  then show "0 < p" "p + page_up len \<le> 2 ^ 47" "area (set (maps s)) \<inter> {p..<p + page_up len} = {}" by simp_all
  show "p mod 16 = 0" using mod_mod_cancel [of 16 4096 p] o(2) by simp
  have s: "shape (arena s) G" using inv minvD(1) by (auto simp: arena_inv_def)
  show "fresh (arena s) G p (page_up len)" unfolding fresh_def
  proof
    fix x assume x: "x \<in> objs (arena s) G"
    have sub: "{x..<x + gext G x} \<subseteq> area (set (maps s))"
    proof (cases "x \<in> gM G")
      case True
      then have "(x, 16 + gsz G x) \<in> set (maps s)" "gext G x = 16 + gsz G x"
        using inv unfolding arena_inv_def ment_def gext_def by (blast, simp)
      then show ?thesis using page_up_ge [of "16 + gsz G x"]
        by (intro subsetI area_in [of x "16 + gsz G x"]) simp_all
    next
      case False
      then have "{x..<x + gext G x} \<subseteq> foot (arena s) G" using x unfolding foot_def objs_def by blast
      also have "\<dots> \<subseteq> area (set (maps s) - ment G)" using inv by (simp add: arena_inv_def)
      also have "\<dots> \<subseteq> area (set (maps s))" by (rule area_mono) blast
      finally show ?thesis .
    qed
    have "x \<in> {x..<x + gext G x}" using shape_gext [OF s x] by simp
    then have "x < p \<or> p + page_up len \<le> x" using sub o(4) by (meson atLeastLessThan_iff disjoint_iff not_le subsetD)
    moreover have "p < x \<or> x + gext G x \<le> p"
    proof (rule ccontr)
      assume "\<not> ?thesis"
      then have "p \<in> {x..<x + gext G x}" by simp
      then have "p \<in> area (set (maps s))" using sub by blast
      then show False using o(4) page_up_ge [of len] mm(2) by auto
    qed
    ultimately show "x + gext G x \<le> p \<or> p + page_up len \<le> x" by linarith
  qed
qed

section \<open>Mapping a chunk\<close>

definition new_blk :: "int \<Rightarrow> addr \<Rightarrow> ghost \<Rightarrow> ghost \<Rightarrow> bool" where
  "new_blk n c G G' \<longleftrightarrow> gU G' \<union> gM G' = insert c (gU G \<union> gM G) \<and> c \<notin> gU G \<union> gM G \<and> n \<le> gsz G' c \<and>
     gsz G' c < n + 48 \<and> gM G \<subseteq> gM G' \<and> gU G \<subseteq> gU G' \<and> c \<in> (if 131072 \<le> n then gM G' else gU G') \<and>
     (\<forall>u\<in>gU G \<union> gM G. gsz G' u = gsz G u)"

lemma new_live_blk: "new_live n c G G' \<Longrightarrow> n < 131072 \<Longrightarrow> new_blk n c G G'"
  by (auto simp: new_live_def new_blk_def)

lemma new_blk_trans: "same_live G G' \<Longrightarrow> new_blk n c G' G'' \<Longrightarrow> new_blk n c G G''"
  by (simp add: same_live_def new_blk_def)

definition mapped :: "addr \<Rightarrow> int \<Rightarrow> heap_state \<Rightarrow> heap_state" where
  "mapped p len s = s\<lparr>hmem := zero_region p len (hmem s), hbytes := zero_region p len (hbytes s),
     maps := (p, len) # maps s\<rparr>"

lemma mapped_simps [simp]:
  "hmem (mapped p len s) = zero_region p len (hmem s)" "hbytes (mapped p len s) = zero_region p len (hbytes s)"
  "maps (mapped p len s) = (p, len) # maps s" "arena (mapped p len s) = arena s"
  by (simp_all add: mapped_def)

lemma alloc_chunk_eq:
  assumes os: "mmap_ok os" and n: "0 < n" "n mod 16 = 0" "n < 2 ^ 47"
  shows "alloc_chunk os n s = (case os_mmap os (maps s) (n + 16) of None \<Rightarrow> None
     | Some p \<Rightarrow> Some (p, put_mem ((zero_region p (n + 16) (hmem s))(p + 8 := n + 2, p + 24 := 0, p + 16 := 0))
         (mapped p (n + 16) s)))"
proof -
  have "align16 (u64 (n + 16)) = n + 16" using n by simp
  moreover have "p \<noteq> 0" if "os_mmap os (maps s) (n + 16) = Some p" for p
  proof -
    have "0 < n + 16" using n by simp
    then have "0 < p" using os that unfolding mmap_ok_def by blast
    then show ?thesis by simp
  qed
  ultimately show ?thesis
    using n by (auto simp: alloc_chunk_def alloc_memory_def Let_def mapped_def set_size_apply set_fdbk_to_def
        put_mem_def split: option.split)
qed

lemma sok_fresh_memory:
  assumes k: "sok R m0 b0 s G" and os: "mmap_ok os" and mm: "os_mmap os (maps s) len = Some p" "0 < len"
    and m': "\<And>a. a < p \<or> p + page_up len \<le> a \<Longrightarrow> m' a = hmem s a"
  shows "minv m' (arena s) G {}" "\<And>a. a \<in> R \<Longrightarrow> m' a = m0 a \<and> zero_region p len (hbytes s) a = b0 a"
    "(p, len) \<notin> set (maps s)"
proof -
  have inv: "arena_inv s G" using k by (simp add: sok_def)
  note fr = mmap_fresh [OF os inv mm]
  have i: "minv (hmem s) (arena s) G {}" using inv by (simp add: arena_inv_def)
  show "minv m' (arena s) G {}"
    using fresh_cell [OF minvD(1) [OF i] fr(1)] by (intro minv_frame [OF i] m')
  show "m' a = m0 a \<and> zero_region p len (hbytes s) a = b0 a" if "a \<in> R" for a
  proof -
    have "a \<in> region G" using k that by (auto simp: sok_def)
    then have o: "a < p \<or> p + page_up len \<le> a" by (rule fresh_payload [OF minvD(1) [OF i] fr(1)])
    then show ?thesis using k that m' [OF o] page_up_ge [of len] by (auto simp: sok_def)
  qed
  show "(p, len) \<notin> set (maps s)"
    using fr(5) mm(2) page_up_ge [of len] area_in [of p len "set (maps s)" p] by auto
qed

lemma mmap_chunk_ok:
  assumes k: "sok R m0 b0 s G" and os: "mmap_ok os" and n: "131072 \<le> n" "n mod 16 = 0" "n < 2 ^ 41"
    and r: "alloc_chunk os n s = Some (c, s')"
  obtains G' where "sok R m0 b0 s' G'" "new_blk n c G G'" "c \<noteq> 0"
proof -
  define m' where "m' = (zero_region c (n + 16) (hmem s))(c + 8 := n + 2, c + 24 := 0, c + 16 := 0)"
  have mm: "os_mmap os (maps s) (n + 16) = Some c" "s' = put_mem m' (mapped c (n + 16) s)"
    using r alloc_chunk_eq [OF os, of n s] n by (auto simp: m'_def split: option.splits)
  have inv: "arena_inv s G" using k by (simp add: sok_def)
  have len: "0 < n + 16" using n by simp
  note fr = mmap_fresh [OF os inv mm(1) len]
  have pu: "n + 16 \<le> page_up (n + 16)" by (rule page_up_ge)
  have out: "m' a = hmem s a" if "a < c \<or> c + page_up (n + 16) \<le> a" for a
    using that pu n by (auto simp: m'_def)
  note fm = sok_fresh_memory [OF k os mm(1) len out]
  let ?G = "g_mmap c n G"
  have s: "shape (arena s) G" by (rule minvD(1) [OF fm(1)])
  have fc: "fresh (arena s) G c (n + 16)" by (rule fresh_mono [OF fr(1) pu])
  have cO: "c \<notin> objs (arena s) G" by (rule fresh_not_object [OF s fc]) (use n in auto)
  have cn: "c \<notin> gU G" "c \<notin> gM G" "c \<notin> gC G" "c \<notin> gB G" "c \<notin> heads (arena s)"
    using cO part_sub(1) [OF s] by (auto simp: objs_def)
  have "get_size m' c = n" using n size_word(2) [of n 2] by (simp add: get_size_def m'_def)
  then have mi: "minv m' (arena s) ?G {}"
    using n fr pu by (intro minv_mmap [OF fm(1) fc]) simp_all
  have me: "ment ?G = insert (c, n + 16) (ment G)" using cn by (auto simp: ment_def)
  have ft: "foot (arena s) ?G = foot (arena s) G"
    unfolding foot_def g_mmap_simps
  proof (rule SUP_cong [OF refl])
    fix x assume "x \<in> gC G \<union> gB G \<union> heads (arena s)"
    then have "x \<noteq> c" using cn by auto
    then show "{x..<x + gext ?G x} = {x..<x + gext G x}" by (simp add: gext_def)
  qed
  have "arena_inv s' ?G"
  proof -
    have "set (maps s) - ment G \<subseteq> set ((c, n + 16) # maps s) - ment ?G" using fm(3) me by auto
    then have "foot (arena s) ?G \<subseteq> area (set ((c, n + 16) # maps s) - ment ?G)"
      using inv area_mono ft unfolding arena_inv_def by blast
    moreover have "ghs ?G = ghs G" by (rule ghs_cong) (use cn in auto)
    ultimately show ?thesis using inv mi mm(2) me by (auto simp: arena_inv_def heaps_ok_def)
  qed
  moreover have "region G \<subseteq> region ?G" using cn by (intro region_sizes) auto
  ultimately have "sok R m0 b0 s' ?G" using k fm(2) mm(2) by (auto simp: sok_def)
  moreover have "new_blk n c G ?G" using cn n by (auto simp: new_blk_def)
  ultimately show ?thesis using that fr(2) by auto
qed

section \<open>Growing the heap\<close>

lemma next_heap_size_ok:
  assumes c: "counts_ok A" and r: "next_heap_size A = (n, A')"
  shows "2 ^ 20 \<le> n" "n mod 4096 = 0" "n < 2 ^ 40"
    "\<exists>i j. A' = A\<lparr>heap_expo_growth_iters := i, heap_constant_growth_iters := j\<rparr> \<and>
       0 \<le> i \<and> i \<le> int (length (alloced_heaps A)) + 1 \<and> 0 \<le> j \<and> j \<le> int (length (alloced_heaps A)) + 1"
proof -
  let ?i = "heap_expo_growth_iters A" and ?j = "heap_constant_growth_iters A"
  have cs: "0 \<le> ?i" "?i \<le> int (length (alloced_heaps A))" "0 \<le> ?j" "?j \<le> int (length (alloced_heaps A))"
    "length (alloced_heaps A) \<le> 159"
    using c by (simp_all add: counts_ok_def growth_def)
  have pb: "push_bit (nat ?i) (1048576::int) = 1048576 * 2 ^ nat ?i" by (simp add: push_bit_eq_mult)
  have all: "2 ^ 20 \<le> n \<and> n mod 4096 = 0 \<and> n < 2 ^ 40 \<and>
    (\<exists>i j. A' = A\<lparr>heap_expo_growth_iters := i, heap_constant_growth_iters := j\<rparr> \<and>
       0 \<le> i \<and> i \<le> int (length (alloced_heaps A)) + 1 \<and> 0 \<le> j \<and> j \<le> int (length (alloced_heaps A)) + 1)"
  proof (cases "1048576 * 2 ^ nat ?i \<le> (67108864::int)")
    case True
    then have n: "n = 1048576 * 2 ^ nat ?i" "A' = A\<lparr>heap_expo_growth_iters := ?i + 1, heap_constant_growth_iters := ?j\<rparr>"
      using r pb by (auto simp: next_heap_size_def)
    have "(1::int) \<le> 2 ^ nat ?i" by simp
    moreover have "n = 4096 * (256 * 2 ^ nat ?i)" using n by simp
    then have "n mod 4096 = 0" by simp
    moreover have "n < 2 ^ 40" "2 ^ 20 \<le> n" using True n by simp_all
    ultimately show ?thesis using n(2) cs by (intro conjI exI [of _ "?i + 1"] exI [of _ ?j]) simp_all
  next
    case False
    then have n: "n = 67108864 + 67108864 * ?j" "A' = A\<lparr>heap_expo_growth_iters := ?i, heap_constant_growth_iters := ?j + 1\<rparr>"
      using r pb by (auto simp: next_heap_size_def)
    have "n = 4096 * (16384 + 16384 * ?j)" using n by simp
    then have "n mod 4096 = 0" by simp
    moreover have "?j \<le> 159" using cs by linarith
    ultimately show ?thesis using n cs by (intro conjI exI [of _ ?i] exI [of _ "?j + 1"]) simp_all
  qed
  then show "2 ^ 20 \<le> n" "n mod 4096 = 0" "n < 2 ^ 40"
    "\<exists>i j. A' = A\<lparr>heap_expo_growth_iters := i, heap_constant_growth_iters := j\<rparr> \<and>
       0 \<le> i \<and> i \<le> int (length (alloced_heaps A)) + 1 \<and> 0 \<le> j \<and> j \<le> int (length (alloced_heaps A)) + 1"
    by blast+
qed

text \<open>The memory a new heap consists of: the header of the top chunk and of the boundary.\<close>

definition heap_image :: "addr \<Rightarrow> int \<Rightarrow> mem \<Rightarrow> mem" where
  "heap_image p n m = (zero_region p (n + 48) m)(p + 8 := n + 1, p + 24 := 0, p + 16 := 0,
     p + 16 + n + 8 := 5, p + 16 + n + 24 := 0, p + 16 + n + 16 := 0)"

lemma heap_image_facts:
  assumes "2 ^ 20 \<le> n" "n mod 16 = 0" "n < 2 ^ 40"
  shows "get_size (heap_image p n m) p = n" "is_prev_inuse (heap_image p n m) p"
    "is_curr_inuse (heap_image p n m) (p + 16 + n)" "a < p \<or> p + n + 64 \<le> a \<Longrightarrow> heap_image p n m a = m a"
proof -
  have w: "heap_image p n m (p + 8) = n + 1" "heap_image p n m (p + 16 + n + 8) = 5"
    using assms by (simp_all add: heap_image_def)
  show "get_size (heap_image p n m) p = n" "is_prev_inuse (heap_image p n m) p"
    using w(1) size_word(2,4) [of n 1] assms by (simp_all add: get_size_def is_prev_inuse_def)
  show "is_curr_inuse (heap_image p n m) (p + 16 + n)" using w(2) by (simp add: is_curr_inuse_def)
  show "heap_image p n m a = m a" if "a < p \<or> p + n + 64 \<le> a"
    using that assms by (auto simp: heap_image_def)
qed

lemma grow_heap_eq:
  assumes os: "mmap_ok os" and n: "2 ^ 20 \<le> n" "n mod 16 = 0" "n < 2 ^ 40" and nh: "next_heap_size (arena s) = (n, A')"
    and A': "alloced_heaps A' = alloced_heaps (arena s)"
  shows "grow_heap os s = (case os_mmap os (maps s) (n + 48) of None \<Rightarrow> None
     | Some p \<Rightarrow> if length (alloced_heaps (arena s)) < 159
         then Some ((mapped p (n + 48) s)\<lparr>hmem := heap_image p n (hmem s),
           arena := A'\<lparr>top_chunk := p, alloced_heaps := alloced_heaps A' @ [(p, p + n + 16)]\<rparr>\<rparr>)
         else None)"
proof -
  have n32: "0 < n + 32" "(n + 32) mod 16 = 0" "n + 32 < 2 ^ 47"
    using n by (simp_all add: mod_eq_0_iff_dvd)
  have img: "set_fdbk_to (set_size (set_size (unset_mmap_flag m p) p n 1) (p + 16 + n) 0 5) (p + 16 + n) 0 =
    heap_image p n (hmem s)"
    if "m = (zero_region p (n + 48) (hmem s))(p + 8 := n + 34, p + 24 := 0, p + 16 := 0)" for m p
    using n that size_word(1) [of n 1]
    by (auto simp: set_fdbk_to_def set_size_def unset_mmap_flag_def heap_image_def fun_eq_iff)
  have e: "n + 32 + 16 = n + 48" "n + 32 + 2 = n + 34" by simp_all
  note ac = alloc_chunk_eq [OF os n32, of "s\<lparr>arena := A'\<rparr>", unfolded e]
  show ?thesis
  proof (cases "os_mmap os (maps s) (n + 48)")
    case None
    then show ?thesis using nh ac by (simp add: grow_heap_def)
  next
    case (Some p)
    then show ?thesis using nh ac A' img [OF refl, of p]
      by (simp add: grow_heap_def Let_def put_mem_def mapped_def)
  qed
qed

lemma minv_grow_state:
  assumes inv: "minv m' A G {}" and top: "top_chunk A = 0" and fr: "fresh A G p (n + 64)"
    and n: "2 ^ 20 \<le> n" "n mod 16 = 0" "n < 2 ^ 40" and p: "0 < p" "p mod 16 = 0" "p + n + 64 < 2 ^ 62"
    and m': "m' = heap_image p n m"
  shows "minv m' (A\<lparr>heap_expo_growth_iters := i, heap_constant_growth_iters := j, top_chunk := p, alloced_heaps := hs\<rparr>)
    (g_grow p n G) {}"
proof -
  have "minv m' (A\<lparr>top_chunk := p\<rparr>) (g_grow p n G) {}"
    using heap_image_facts(1-3) [OF n, of p m] m' n p by (intro minv_grow [OF inv top fr]) auto
  moreover have "A\<lparr>heap_expo_growth_iters := i, heap_constant_growth_iters := j, top_chunk := p, alloced_heaps := hs\<rparr> =
    A\<lparr>top_chunk := p, heap_expo_growth_iters := i, heap_constant_growth_iters := j, alloced_heaps := hs\<rparr>"
    by (cases A) simp
  ultimately show ?thesis by (simp only: minv_arena_cong)
qed

lemma foot_grow:
  assumes s: "shape A G" and fr: "fresh A G p (n + 64)" and n: "32 \<le> n"
  shows "foot (A\<lparr>heap_expo_growth_iters := i, heap_constant_growth_iters := j, top_chunk := p, alloced_heaps := hs\<rparr>) (g_grow p n G)
    \<subseteq> foot A G \<union> {p..<p + n + 64}"
proof -
  let ?b = "p + 16 + n"
  have new: "p \<notin> objs A G" "?b \<notin> objs A G" using fresh_not_object [OF s fr] n by auto
  have ext: "gext (g_grow p n G) p = 16 + n" "gext (g_grow p n G) ?b = 48"
    "x \<in> gC G \<union> gB G \<union> heads A \<Longrightarrow> gext (g_grow p n G) x = gext G x" for x
    using new n by (auto simp: gext_def objs_def)
  show ?thesis
  proof
    fix a assume "a \<in> foot (A\<lparr>heap_expo_growth_iters := i, heap_constant_growth_iters := j, top_chunk := p, alloced_heaps := hs\<rparr>) (g_grow p n G)"
    then obtain x where x: "x = p \<or> x = ?b \<or> x \<in> gC G \<union> gB G \<union> heads A" "x \<le> a" "a < x + gext (g_grow p n G) x"
      by (auto simp: foot_def heads_def)
    then show "a \<in> foot A G \<union> {p..<p + n + 64}"
      using ext n unfolding foot_def by auto
  qed
qed

lemma grow_heap_ok:
  assumes k: "sok R m0 b0 s G" and os: "mmap_ok os" and top: "top_chunk (arena s) = 0"
    and r: "grow_heap os s = Some s'"
  obtains G' where "sok R m0 b0 s' G'" "same_live G G'" "top_chunk (arena s') \<noteq> 0" "2 ^ 20 \<le> gsz G' (top_chunk (arena s'))"
proof -
  let ?A = "arena s"
  have inv: "arena_inv s G" and cnt: "counts_ok ?A" using k by (simp_all add: sok_def arena_inv_def)
  obtain n A' where nh: "next_heap_size ?A = (n, A')" by (cases "next_heap_size ?A")
  note ns = next_heap_size_ok [OF cnt nh]
  obtain i j where A': "A' = ?A\<lparr>heap_expo_growth_iters := i, heap_constant_growth_iters := j\<rparr>"
    and ij: "0 \<le> i" "i \<le> int (length (alloced_heaps ?A)) + 1" "0 \<le> j" "j \<le> int (length (alloced_heaps ?A)) + 1"
    using ns(4) by blast
  have n16: "n mod 16 = 0" using ns(2) mod_mod_cancel [of 16 4096 n] by simp
  obtain p where p: "os_mmap os (maps s) (n + 48) = Some p" "length (alloced_heaps ?A) < 159"
    and s': "s' = (mapped p (n + 48) s)\<lparr>hmem := heap_image p n (hmem s),
      arena := A'\<lparr>top_chunk := p, alloced_heaps := alloced_heaps A' @ [(p, p + n + 16)]\<rparr>\<rparr>"
    using r grow_heap_eq [OF os ns(1) n16 ns(3) nh] A' by (auto split: option.splits if_splits)
  have len: "0 < n + 48" using ns(1) by simp
  note fr = mmap_fresh [OF os inv p(1) len]
  have pu: "page_up (n + 48) = n + 4096" using ns(2) by (auto simp: page_up_def)
  have fc: "fresh ?A G p (n + 64)" by (rule fresh_mono [OF fr(1)]) (simp add: pu)
  note fm = sok_fresh_memory [OF k os p(1) len, of "heap_image p n (hmem s)"]
  have out: "heap_image p n (hmem s) a = hmem s a" if "a < p \<or> p + page_up (n + 48) \<le> a" for a
    using that heap_image_facts(4) [OF ns(1) n16 ns(3), of a p "hmem s"] pu by auto
  let ?G = "g_grow p n G"
  have sh: "shape ?A G" using inv minvD(1) by (auto simp: arena_inv_def)
  have mi: "minv (hmem s') (arena s') ?G {}"
    using minv_grow_state [OF fm(1) [OF out] top fc ns(1) n16 ns(3) fr(2,3) _ refl] fr(4) pu s' A' by simp
  have pO: "p \<notin> objs ?A G" using fresh_not_object [OF sh fc] ns(1) by auto
  have pn: "p \<notin> gU G \<union> gM G" using pO part_sub(1) [OF sh] by (auto simp: objs_def)
  have sl: "same_live G ?G" using pn by (auto simp: same_live_def)
  have me: "ment ?G = ment G" by (rule ment_same(1) [OF sl])
  have nm: "(p, n + 48) \<notin> ment G" using fm(3) [OF out] inv by (auto simp: arena_inv_def)
  have "foot (arena s') ?G \<subseteq> foot ?A G \<union> {p..<p + n + 64}"
    using foot_grow [OF sh fc] ns(1) s' A' by simp
  moreover have "foot ?A G \<subseteq> area (set (maps s') - ment G)"
    using inv area_mono [of "set (maps s) - ment G" "set (maps s') - ment G"] s' by (auto simp: arena_inv_def)
  moreover have "{p..<p + n + 64} \<subseteq> area (set (maps s') - ment G)"
    using nm pu s' by (intro subsetI area_in [of p "n + 48"]) auto
  ultimately have ft: "foot (arena s') ?G \<subseteq> area (set (maps s') - ment ?G)" unfolding me by blast
  have "counts_ok (arena s')" using s' A' ij p(2) by (simp add: counts_ok_def growth_def)
  moreover have "heaps_ok (arena s') ?G"
  proof -
    have bO: "p + 16 + n \<notin> objs ?A G" using fresh_not_object [OF sh fc] ns(1) by auto
    have "ghs ?G = insert (p, p + 16 + n) (ghs G)" using ns(1) by (intro ghs_grow [OF sh pO bO]) simp
    moreover have "(p, p + 16 + n) \<notin> ghs G" using pO by (auto simp: ghs_def objs_def)
    ultimately show ?thesis using inv s' A' by (auto simp: heaps_ok_def arena_inv_def add.assoc add.commute)
  qed
  ultimately have "arena_inv s' ?G" using inv mi ft s' me by (auto simp: arena_inv_def)
  moreover have "region G \<subseteq> region ?G" using pn by (intro region_sizes) auto
  ultimately have "sok R m0 b0 s' ?G" using k fm(2) [OF out] s' by (auto simp: sok_def)
  then show ?thesis using that [of ?G] sl fr(2) ns(1) s' by simp
qed

lemma grow_heap_none:
  assumes k: "arena_inv s G" and os: "mmap_ok os" and r: "grow_heap os s = None"
  shows "(\<exists>len. 0 < len \<and> len \<le> 2 ^ 41 \<and> os_mmap os (maps s) len = None) \<or> 159 \<le> length (alloced_heaps (arena s))"
proof -
  have cnt: "counts_ok (arena s)" using k by (simp add: arena_inv_def)
  obtain n A' where nh: "next_heap_size (arena s) = (n, A')" by (cases "next_heap_size (arena s)")
  note ns = next_heap_size_ok [OF cnt nh]
  have n16: "n mod 16 = 0" using ns(2) mod_mod_cancel [of 16 4096 n] by simp
  have "0 < n + 48" "n + 48 \<le> 2 ^ 41" using ns(1,3) by simp_all
  moreover have "os_mmap os (maps s) (n + 48) = None \<or> 159 \<le> length (alloced_heaps (arena s))"
    using r grow_heap_eq [OF os ns(1) n16 ns(3) nh] ns(4) by (auto split: option.splits if_splits)
  ultimately show ?thesis by blast
qed

end
