(* ===== verification/ArenaAlloc.thy ===== *)
theory ArenaAlloc
  imports ArenaHeap
begin

text \<open>
  \<open>allocate\<close>: carving from the top chunk and the search through the bins, composed. The result is
  one new block, disjoint from all others, and no payload in use has changed.
\<close>

section \<open>Carving from the top chunk\<close>

lemma top_facts:
  assumes inv: "minv m A G {}" and L: "gL G = {}" and t: "top_chunk A \<noteq> 0"
  shows "top_chunk A \<in> gC G" "top_chunk A \<notin> gU G" "top_chunk A \<notin> gM G" "top_chunk A \<notin> gD A G"
    "gnext G (top_chunk A) \<in> gC G \<Longrightarrow> is_prev_inuse m (gnext G (top_chunk A))"
proof -
  note sh = shapeD [OF minvD(1) [OF inv]]
  have T: "top_chunk A \<in> gT A" using t by (simp add: gT_def)
  then show c: "top_chunk A \<in> gC G" "top_chunk A \<notin> gU G" "top_chunk A \<notin> gD A G"
    using sh(3) unfolding part_ok_def by blast+
  show "top_chunk A \<notin> gM G" using sh(2) c(1) unfolding kinds_ok_def by blast
  show "is_prev_inuse m (gnext G (top_chunk A))" if "gnext G (top_chunk A) \<in> gC G"
    by (rule inuse_next [OF inv c(1,3) _ that]) (simp add: L)
qed

lemma kinv_from_top:
  assumes k: "kinv P R m0 m A G {}" and L: "gL G = {}" and t: "top_chunk A \<noteq> 0"
  shows "kinv P R m0 m (A\<lparr>top_chunk := 0\<rparr>) (g_class (gU G) {top_chunk A} G) {}"
  using move_from_top [OF kinvD [OF k] t] L by (intro kinv_ghost [OF k]) (auto simp: region_def)

lemma kinv_to_top:
  assumes k: "kinv P R m0 m A G {}" and t: "top_chunk A = 0" and c: "c \<in> gL G"
    "gnext G c \<in> gC G \<Longrightarrow> is_prev_inuse m (gnext G c)"
  shows "kinv P R m0 m (A\<lparr>top_chunk := c\<rparr>) (g_class (gU G) (gL G - {c}) G) {}"
  using move_to_top [OF kinvD [OF k] t c] by (intro kinv_ghost [OF k]) (auto simp: region_def)

lemma carve_split:
  assumes k: "kinv P R m0 m A G {}" and L: "gL G = {}" and t: "top_chunk A = c" "c \<noteq> 0"
    and n: "32 \<le> n" "n mod 16 = 0" "n + 48 \<le> gsz G c"
  defines "m1 \<equiv> m(c + 16 + n + 8 := gsz G c - n - 16 + 1, gnext G c := gsz G c - n - 16)"
  defines "m2 \<equiv> set_curr_inuse (set_size m1 c n (get_size_flags m1 c)) c"
  obtains G' where "kinv P R m0 m2 (A\<lparr>top_chunk := c + 16 + n\<rparr>) G' {}" "gL G' = {}" "new_live n c G G'" "ghs G' = ghs G"
proof -
  let ?A = "A\<lparr>top_chunk := 0\<rparr>" and ?G0 = "g_class (gU G) {c} G" and ?r = "c + 16 + n" and ?y = "gnext G c"
  have k0: "kinv P R m0 m ?A ?G0 {}" using kinv_from_top [OF k L] t by simp
  have c0: "c \<in> gL ?G0" by simp
  have n0: "n + 48 \<le> gsz ?G0 c" using n by simp
  define G1 where "G1 = g_class (insert c (gU ?G0)) (gL (g_split c n ?G0) - {c}) (g_split c n ?G0)"
  note sp = kinv_split_alloc [OF k0 c0 n(1,2) n0, folded G1_def, unfolded g_class_simps, folded m1_def]
  have k2: "kinv P R m0 m2 ?A G1 {}" using kinv_resize [OF sp(1)] sp(6,7) by (simp add: m2_def)
  have r: "?r \<in> gL G1" "gL G1 - {?r} = {}" using sp(3) by auto
  note tf = top_facts [OF kinvD [OF k] L, unfolded t, OF t(2)]
  have y: "?y = ?r + 16 + (gsz G c - n - 16)" by (simp add: gnext_def)
  have pu: "is_prev_inuse m2 (gnext G1 ?r)" if "gnext G1 ?r \<in> gC G1"
  proof -
    have yr: "gnext G1 ?r = ?y" using sp(4) by simp
    have "?y \<noteq> ?r" "?y + 8 \<noteq> ?r + 8" "?y + 8 \<noteq> c + 8" using y n by simp_all
    then have "?y \<in> gC G" using that sp(5) yr by auto
    then have "is_prev_inuse m ?y" by (rule tf(5))
    then show ?thesis
      unfolding yr using \<open>?y + 8 \<noteq> ?r + 8\<close> \<open>?y + 8 \<noteq> c + 8\<close>
      by (simp add: m2_def m1_def is_prev_inuse_def chunk_simps)
  qed
  have "kinv P R m0 m2 (?A\<lparr>top_chunk := ?r\<rparr>) (g_class (gU G1) (gL G1 - {?r}) G1) {}"
    using pu by (intro kinv_to_top [OF k2 _ r(1)]) simp_all
  then have "kinv P R m0 m2 (A\<lparr>top_chunk := ?r\<rparr>) (g_class (gU G1) {} G1) {}" using r by simp
  moreover have "new_live n c G (g_class (gU G1) {} G1)" using sp(2) by (simp add: new_live_def)
  moreover have "ghs (g_class (gU G1) {} G1) = ghs G" using sp(8) by simp
  ultimately show ?thesis using that by force
qed

definition oom :: "os \<Rightarrow> heap_state \<Rightarrow> bool" where
  "oom os s \<longleftrightarrow> (\<exists>len. 0 < len \<and> len \<le> 2 ^ 41 \<and> os_mmap os (maps s) len = None) \<or> 159 \<le> length (alloced_heaps (arena s))"

text \<open>\<open>took\<close>: like \<open>outcome\<close>, on whole states; when nothing was found the top chunk is too small.\<close>

definition took :: "addr set \<Rightarrow> mem \<Rightarrow> bytes \<Rightarrow> ghost \<Rightarrow> int \<Rightarrow> addr \<Rightarrow> heap_state \<Rightarrow> bool" where
  "took R m0 b0 G n c s' \<longleftrightarrow> (\<exists>G'. sok R m0 b0 s' G' \<and>
     (if c = 0 then same_live G G' \<and> top_chunk (arena s') \<noteq> 0 \<and> gsz G' (top_chunk (arena s')) < n else new_live n c G G'))"

lemma carve_top_ok:
  assumes k: "sok R m0 b0 s G" and t: "top_chunk (arena s) \<noteq> 0" and n: "32 \<le> n" "n mod 16 = 0"
  obtains c s' where "carve_from_top_chunk os s n = Some (c, s')" "took R m0 b0 G n c s'"
    "2 ^ 17 \<le> gsz G (top_chunk (arena s)) \<and> n < 2 ^ 17 \<Longrightarrow> c \<noteq> 0" "maps s' = maps s" "growth (arena s') = growth (arena s)"
proof -
  let ?A = "arena s" and ?m = "hmem s" and ?P = "heap_area s G"
  define c where "c = top_chunk ?A"
  have kk: "kinv ?P R m0 ?m ?A G {}" and L: "gL G = {}" using sok_aok [OF k] by (simp_all add: aok_def)
  have c0: "c \<noteq> 0" using t by (simp add: c_def)
  note tf = top_facts [OF kinvD [OF kk] L t, folded c_def]
  note sz = size_binned [OF kinvD [OF kk] tf(1)]
  have fin: "took R m0 b0 G n c s'" if "kinv ?P R m0 (hmem s') (arena s') G' {}" "gL G' = {}" "new_live n c G G'"
    "hbytes s' = hbytes s" "maps s' = maps s" "growth (arena s') = growth ?A" "ghs G' = ghs G" for s' G'
    using that c0 aok_sok [OF k, of s' G'] ment_same(2) [OF that(3)] by (auto simp: took_def aok_def)
  consider "gsz G c < n" | "n \<le> gsz G c" "gsz G c < n + 48" | "n + 48 \<le> gsz G c" by linarith
  then show ?thesis
  proof cases
    case 1
    then have "carve_from_top_chunk os s n = Some (0, s)" using t sz by (simp add: carve_from_top_chunk_def Let_def c_def)
    moreover have "took R m0 b0 G n 0 s" using 1 k t unfolding took_def c_def by (intro exI [of _ G]) simp
    moreover have "\<not> (2 ^ 17 \<le> gsz G (top_chunk ?A) \<and> n < 2 ^ 17)" using 1 by (simp add: c_def)
    ultimately show ?thesis using that [of 0 s] by blast
  next
    case 2
    let ?A0 = "?A\<lparr>top_chunk := 0\<rparr>" and ?G0 = "g_class (gU G) {c} G"
    define m' where "m' = set_prev_inuse (set_curr_inuse ?m c) (next_chunk (set_curr_inuse ?m c) c)"
    have k0: "kinv ?P R m0 ?m ?A0 ?G0 {}" using kinv_from_top [OF kk L t] by (simp add: c_def)
    have k1: "kinv ?P R m0 m' ?A0 (g_class (insert c (gU ?G0)) (gL ?G0 - {c}) ?G0) {}"
      unfolding m'_def by (rule kinv_handout [OF k0]) simp_all
    define s' where "s' = upd_arena (\<lambda>a. a\<lparr>top_chunk := NULL\<rparr>) (put_mem m' s)"
    have "carve_from_top_chunk os s n = Some (c, s')"
      using 2 t sz by (simp add: carve_from_top_chunk_def Let_def c_def [symmetric] m'_def s'_def)
    moreover have "took R m0 b0 G n c s'"
      using k1 2 tf by (intro fin [where G' = "g_class (insert c (gU ?G0)) (gL ?G0 - {c}) ?G0"])
        (auto simp: s'_def new_live_def)
    ultimately show ?thesis using that c0 by (auto simp: s'_def)
  next
    case 3
    define m1 where "m1 = ?m(c + 16 + n + 8 := gsz G c - n - 16 + 1, gnext G c := gsz G c - n - 16)"
    define m2 where "m2 = set_curr_inuse (set_size m1 c n (get_size_flags m1 c)) c"
    obtain G' where g: "kinv ?P R m0 m2 (?A\<lparr>top_chunk := c + 16 + n\<rparr>) G' {}" "gL G' = {}" "new_live n c G G'" "ghs G' = ghs G"
      using carve_split [OF kk L _ c0 n 3] unfolding c_def m2_def m1_def by blast
    define s' where "s' = upd_arena (\<lambda>a. a\<lparr>top_chunk := c + 16 + n\<rparr>) (put_mem m2 s)"
    have k0: "kinv ?P R m0 ?m (?A\<lparr>top_chunk := 0\<rparr>) (g_class (gU G) {c} G) {}" using kinv_from_top [OF kk L t] by (simp add: c_def)
    have w: "set_prev_size (set_size ?m (c + 16 + n) (gsz G c - n - 16) 1)
       (next_chunk (set_size ?m (c + 16 + n) (gsz G c - n - 16) 1) (c + 16 + n)) (gsz G c - n - 16) 0 = Some m1"
      using split_writes [OF k0 _ n, of c] 3 by (simp add: m1_def)
    have "carve_from_top_chunk os s n = Some (c, s')"
      using 3 t sz w by (simp add: carve_from_top_chunk_def Let_def c_def [symmetric] m2_def s'_def)
    moreover have "took R m0 b0 G n c s'" using g by (intro fin [of s' G']) (simp_all add: s'_def)
    ultimately show ?thesis using that c0 by (auto simp: s'_def)
  qed
qed

lemma took_trans: "same_live G G1 \<Longrightarrow> took R m0 b0 G1 n c s' \<Longrightarrow> took R m0 b0 G n c s'"
  unfolding took_def by (metis new_live_trans same_live_trans)

lemma carve_ok:
  assumes k: "sok R m0 b0 s G" and os: "mmap_ok os" and n: "32 \<le> n" "n mod 16 = 0" "n < 2 ^ 17"
  obtains (none) "carve_from_top_chunk os s n = None" "oom os s"
  | (some) c s' where "carve_from_top_chunk os s n = Some (c, s')" "took R m0 b0 G n c s'"
      "c = 0 \<Longrightarrow> maps s' = maps s \<and> growth (arena s') = growth (arena s)" "top_chunk (arena s) = 0 \<Longrightarrow> c \<noteq> 0"
proof (cases "top_chunk (arena s) = 0")
  case False
  obtain c s' where "carve_from_top_chunk os s n = Some (c, s')" "took R m0 b0 G n c s'"
    "maps s' = maps s" "growth (arena s') = growth (arena s)"
    using carve_top_ok [OF k False n(1,2)] by metis
  then show ?thesis using some False by simp
next
  case True
  have inv: "arena_inv s G" using k by (simp add: sok_def)
  show ?thesis
  proof (cases "grow_heap os s")
    case None
    then show ?thesis using none True grow_heap_none [OF inv os None]
      by (simp add: carve_from_top_chunk_def oom_def)
  next
    case (Some s1)
    obtain G1 where g: "sok R m0 b0 s1 G1" "same_live G G1" "top_chunk (arena s1) \<noteq> 0" "2 ^ 20 \<le> gsz G1 (top_chunk (arena s1))"
      using grow_heap_ok [OF k os True Some] .
    obtain c s' where c: "carve_from_top_chunk os s1 n = Some (c, s')" "took R m0 b0 G1 n c s'"
      "2 ^ 17 \<le> gsz G1 (top_chunk (arena s1)) \<and> n < 2 ^ 17 \<Longrightarrow> c \<noteq> 0"
      using carve_top_ok [OF g(1,3) n(1,2)] by metis
    have "carve_from_top_chunk os s n = carve_from_top_chunk os s1 n"
      using True Some g(3) by (simp add: carve_from_top_chunk_def)
    then show ?thesis using some c(1,3) g(4) n(3) took_trans [OF g(2) c(2)] by auto
  qed
qed

lemma insert_into_unsortedbin_top:
  "insert_into_unsortedbin (upd_arena (\<lambda>a. a\<lparr>top_chunk := t\<rparr>) s) c =
   map_option (upd_arena (\<lambda>a. a\<lparr>top_chunk := t\<rparr>)) (insert_into_unsortedbin s c)"
  by (simp add: insert_into_unsortedbin_def Let_def put_mem_def upd_arena_def set_prev_size_def)

text \<open>Retiring a top chunk that is too small to the unsorted bin.\<close>

lemma retire_top_ok:
  assumes k: "sok R m0 b0 s G" and t: "top_chunk (arena s) \<noteq> 0"
  obtains s1 G1 where "insert_into_unsortedbin s (top_chunk (arena s)) = Some s1"
    "sok R m0 b0 (upd_arena (\<lambda>a. a\<lparr>top_chunk := NULL\<rparr>) s1) G1" "same_live G G1"
    "maps s1 = maps s" "growth (arena s1) = growth (arena s)"
proof -
  let ?c = "top_chunk (arena s)" and ?P = "heap_area s G" and ?s0 = "upd_arena (\<lambda>a. a\<lparr>top_chunk := NULL\<rparr>) s"
  have kk: "kinv ?P R m0 (hmem s) (arena s) G {}" and L: "gL G = {}" using sok_aok [OF k] by (simp_all add: aok_def)
  let ?G0 = "g_class (gU G) {?c} G"
  have k0: "kinv ?P R m0 (hmem ?s0) (arena ?s0) ?G0 {}" using kinv_from_top [OF kk L t] by simp
  have c: "?c \<in> gL ?G0" "?c \<notin> {}" by simp_all
  obtain m' where m': "insert_into_unsortedbin ?s0 ?c = Some (put_mem m' ?s0)"
    "kinv ?P R m0 m' (arena ?s0) (g_insert (unsortedbin (arena ?s0)) ?c ?G0) {}"
    using insert_into_unsortedbin_ok [OF k0 c] .
  let ?G1 = "g_insert (unsortedbin (arena ?s0)) ?c ?G0"
  obtain s1 where s1: "insert_into_unsortedbin s ?c = Some s1"
    "upd_arena (\<lambda>a. a\<lparr>top_chunk := NULL\<rparr>) s1 = put_mem m' ?s0"
    using m'(1) insert_into_unsortedbin_top [of 0 s ?c] by (cases "insert_into_unsortedbin s ?c") auto
  have mg: "maps s1 = maps s" "growth (arena s1) = growth (arena s)" "hbytes s1 = hbytes s"
    using arg_cong [OF s1(2), of maps] arg_cong [OF s1(2), of "\<lambda>x. growth (arena x)"] arg_cong [OF s1(2), of hbytes]
    by simp_all
  have sl: "same_live G ?G1" by (simp add: same_live_def)
  have "sok R m0 b0 (put_mem m' ?s0) ?G1"
    using m'(2) ment_same(1) [OF sl] by (intro aok_sok [OF k]) (simp_all add: aok_def)
  then show ?thesis using that [OF s1(1) _ sl] s1(2) mg by simp
qed

section \<open>Allocation\<close>

definition found :: "addr set \<Rightarrow> mem \<Rightarrow> bytes \<Rightarrow> heap_state \<Rightarrow> ghost \<Rightarrow> int \<Rightarrow> addr \<Rightarrow> heap_state \<Rightarrow> bool" where
  "found R m0 b0 s G n c s' \<longleftrightarrow> (c = 0 \<longrightarrow> maps s' = maps s \<and> growth (arena s') = growth (arena s)) \<and>
     (\<exists>G'. sok R m0 b0 s' G' \<and> (if c = 0 then same_live G G' else new_blk n c G G'))"

lemma found_refl: "sok R m0 b0 s G \<Longrightarrow> found R m0 b0 s G n 0 s"
  unfolding found_def by (auto intro!: exI [of _ G])

lemma found_search:
  assumes f: "found R m0 b0 s G n 0 s1"
    and o: "\<And>G1. sok R m0 b0 s1 G1 \<Longrightarrow> outcome (heap_area s1 G1) R m0 s1 G1 n c s2" and n: "n < 131072"
  shows "found R m0 b0 s G n c s2"
proof -
  obtain G1 where g: "sok R m0 b0 s1 G1" "same_live G G1" "maps s1 = maps s" "growth (arena s1) = growth (arena s)"
    using f by (auto simp: found_def)
  obtain G2 where "sok R m0 b0 s2 G2" "if c = 0 then same_live G1 G2 else new_live n c G1 G2"
    using outcome_sok [OF g(1) o [OF g(1)]] .
  moreover have "maps s2 = maps s1" "growth (arena s2) = growth (arena s1)" using o [OF g(1)] by (auto simp: outcome_def)
  ultimately show ?thesis
    using g same_live_trans [OF g(2)] new_blk_trans [OF g(2) new_live_blk [OF _ n]] unfolding found_def by (metis (full_types))
qed

text \<open>The bins, in the order \<open>_allocate\<close> asks them.\<close>

definition search_bins :: "heap_state \<Rightarrow> int \<Rightarrow> (addr \<times> heap_state) option" where
  "search_bins s n = do {
     let (v, s) = (if n \<le> 112 then fastbin_search s n else (NULL, s));
     let (v, s) = (if v = NULL \<and> n < 512 then smallbin_search s n else (v, s));
     (v, s) \<leftarrow> (if v = NULL then unsortedbin_search s n else Some (v, s));
     if v = NULL then largebin_search s n else Some (v, s)
   }"

lemma search_bins_ok:
  assumes k: "sok R m0 b0 s G" and n: "32 \<le> n" "n mod 16 = 0" "n < 131072"
  obtains c s' where "search_bins s n = Some (c, s')" "found R m0 b0 s G n c s'"
proof -
  obtain v1 s1 where 1: "(if n \<le> 112 then fastbin_search s n else (NULL, s)) = (v1, s1)" by fastforce
  have f1: "found R m0 b0 s G n v1 s1"
    using 1 n found_search [OF found_refl [OF k]] fastbin_search_ok [OF sok_aok] found_refl [OF k]
    by (auto split: if_splits)
  obtain v2 s2 where 2: "(if v1 = NULL \<and> n < 512 then smallbin_search s1 n else (v1, s1)) = (v2, s2)" by fastforce
  have f2: "found R m0 b0 s G n v2 s2"
    using 2 n f1 found_search [of R m0 b0 s G n s1] smallbin_search_ok [OF sok_aok]
    by (auto split: if_splits)
  obtain v3 s3 where 3: "(if v2 = NULL then unsortedbin_search s2 n else Some (v2, s2)) = Some (v3, s3)"
    and f3: "found R m0 b0 s G n v3 s3"
  proof (cases "v2 = 0")
    case True
    obtain G2 where "sok R m0 b0 s2 G2" using f2 by (auto simp: found_def)
    then obtain v3 s3 where u: "unsortedbin_search s2 n = Some (v3, s3)"
      using unsortedbin_search_ok [OF sok_aok n(2,1)] by metis
    have "outcome (heap_area s2 G1) R m0 s2 G1 n v3 s3" if "sok R m0 b0 s2 G1" for G1
      using unsortedbin_search_ok [OF sok_aok [OF that] n(2,1)] u by auto
    then show ?thesis using that True u found_search [of R m0 b0 s G n s2] f2 n(3) by simp
  qed (use f2 that in simp)
  obtain v4 s4 where 4: "(if v3 = NULL then largebin_search s3 n else Some (v3, s3)) = Some (v4, s4)"
    and f4: "found R m0 b0 s G n v4 s4"
  proof (cases "v3 = 0")
    case True
    obtain G2 where "sok R m0 b0 s3 G2" using f3 by (auto simp: found_def)
    then obtain v4 s4 where u: "largebin_search s3 n = Some (v4, s4)"
      using largebin_search_ok [OF sok_aok n(2,1)] by metis
    have "outcome (heap_area s3 G1) R m0 s3 G1 n v4 s4" if "sok R m0 b0 s3 G1" for G1
      using largebin_search_ok [OF sok_aok [OF that] n(2,1)] u by auto
    then show ?thesis using that True u found_search [of R m0 b0 s G n s3] f3 n(3) by simp
  qed (use f3 that in simp)
  have "search_bins s n = Some (v4, s4)" unfolding search_bins_def using 1 2 3 4 by (simp add: Let_def)
  then show ?thesis using that f4 by blast
qed

lemma allocate_small_eq:
  assumes "requested_size \<noteq> 0" "payload_size_of requested_size < MMAP_THRESHOLD"
  shows "allocate os requested_size s = do {
     (victim, s) \<leftarrow> search_bins s (payload_size_of requested_size);
     (victim, s) \<leftarrow> (if victim = NULL then carve_from_top_chunk os s (payload_size_of requested_size)
                      else Some (victim, s));
     (victim, s) \<leftarrow> (if victim = NULL then do {
                        s \<leftarrow> insert_into_unsortedbin s (top_chunk (arena s));
                        let s = upd_arena (\<lambda>a. a\<lparr>top_chunk := NULL\<rparr>) s;
                        carve_from_top_chunk os s (payload_size_of requested_size)
                      } else Some (victim, s));
     Some (victim + HEADER_SIZE, s)
   }"
  using assms
  by (auto simp: allocate_def allocate_locked_def search_bins_def Let_def split: prod.split option.split bind_splits)

lemma carve_phases_ok:
  assumes f: "found R m0 b0 s G n 0 s1" and os: "mmap_ok os" and n: "32 \<le> n" "n mod 16 = 0" "n < 2 ^ 17"
  defines "r \<equiv> do {
     (victim, s) \<leftarrow> carve_from_top_chunk os s1 n;
     (if victim = NULL then do {
        s \<leftarrow> insert_into_unsortedbin s (top_chunk (arena s));
        let s = upd_arena (\<lambda>a. a\<lparr>top_chunk := NULL\<rparr>) s;
        carve_from_top_chunk os s n
      } else Some (victim, s))
   }"
  shows "r = None \<and> oom os s \<or> (\<exists>c s' G'. r = Some (c, s') \<and> c \<noteq> 0 \<and> sok R m0 b0 s' G' \<and> new_blk n c G G')"
proof -
  obtain G1 where g1: "sok R m0 b0 s1 G1" "same_live G G1" "maps s1 = maps s" "growth (arena s1) = growth (arena s)"
    using f by (auto simp: found_def)
  have oom_cong: "oom os s2 = oom os s" if "maps s2 = maps s" "growth (arena s2) = growth (arena s)" for s2
    using that by (simp add: oom_def growth_def)
  show ?thesis
  proof (cases rule: carve_ok [OF g1(1) os n, case_names none some])
    case none
    then show ?thesis using oom_cong [OF g1(3,4)] by (simp add: r_def)
  next
    case (some c2 s2)
    obtain G2 where g2: "sok R m0 b0 s2 G2"
      "if c2 = 0 then same_live G1 G2 \<and> top_chunk (arena s2) \<noteq> 0 else new_live n c2 G1 G2"
      using some(2) by (auto simp: took_def split: if_splits)
    show ?thesis
    proof (cases "c2 = 0")
      case False
      then have "new_blk n c2 G G2" using g2(2) n(3) new_blk_trans [OF g1(2) new_live_blk] by simp
      then show ?thesis using False some(1) g2(1) by (auto simp: r_def)
    next
      case True
      have sl: "same_live G G2" "top_chunk (arena s2) \<noteq> 0" using True g2(2) same_live_trans [OF g1(2)] by auto
      have mg: "maps s2 = maps s" "growth (arena s2) = growth (arena s)" using some(3) [OF True] g1 by simp_all
      obtain s3 G3 where g3: "insert_into_unsortedbin s2 (top_chunk (arena s2)) = Some s3"
        "sok R m0 b0 (upd_arena (\<lambda>a. a\<lparr>top_chunk := NULL\<rparr>) s3) G3" "same_live G2 G3"
        "maps s3 = maps s2" "growth (arena s3) = growth (arena s2)"
        using retire_top_ok [OF g2(1) sl(2)] .
      let ?s3 = "upd_arena (\<lambda>a. a\<lparr>top_chunk := NULL\<rparr>) s3"
      have re: "r = carve_from_top_chunk os ?s3 n" using True some(1) g3(1) by (simp add: r_def Let_def)
      show ?thesis
      proof (cases rule: carve_ok [OF g3(2) os n, case_names none some])
        case none
        then show ?thesis using re oom_cong [of ?s3] mg g3 by simp
      next
        case (some c4 s4)
        have "c4 \<noteq> 0" using some(4) by simp
        then obtain G4 where "sok R m0 b0 s4 G4" "new_live n c4 G3 G4" using some(2) by (auto simp: took_def)
        then show ?thesis
          using re some(1) \<open>c4 \<noteq> 0\<close> n(3) new_blk_trans [OF same_live_trans [OF sl(1) g3(3)] new_live_blk] by fastforce
      qed
    qed
  qed
qed

lemma allocate_large_ok:
  assumes k: "sok R m0 b0 s G" and os: "mmap_ok os" and n: "0 < n" "n < 2 ^ 40" "131072 \<le> payload_size_of n"
  shows "allocate os n s = None \<and> oom os s \<or>
    (\<exists>c s' G'. allocate os n s = Some (c + 16, s') \<and> c \<noteq> 0 \<and> sok R m0 b0 s' G' \<and> new_blk (payload_size_of n) c G G')"
proof -
  note ps = payload_size_of_props [of n]
  have pr: "payload_size_of n mod 16 = 0" "n \<le> payload_size_of n" "payload_size_of n < 2 ^ 41" using ps n by simp_all
  show ?thesis
  proof (cases "alloc_chunk os (payload_size_of n) s")
    case None
    have "os_mmap os (maps s) (payload_size_of n + 16) = None"
      using None alloc_chunk_eq [OF os, of "payload_size_of n" s] n pr by (auto split: option.splits)
    moreover have "0 < payload_size_of n + 16" "payload_size_of n + 16 \<le> 2 ^ 41" using n pr ps by simp_all
    ultimately have "oom os s" unfolding oom_def by blast
    then show ?thesis using None n by (simp add: allocate_def allocate_locked_def Let_def)
  next
    case (Some r)
    obtain c s' where r: "r = (c, s')" by fastforce
    obtain G' where g: "sok R m0 b0 s' G'" "new_blk (payload_size_of n) c G G'" "c \<noteq> 0"
      using mmap_chunk_ok [OF k os n(3) pr(1,3)] Some r by blast
    have "allocate os n s = Some (c + 16, s')"
      using Some r g(3) n by (simp add: allocate_def allocate_locked_def Let_def)
    then show ?thesis using g by blast
  qed
qed

lemma allocate_small_ok:
  assumes k: "sok R m0 b0 s G" and os: "mmap_ok os" and n: "0 < n" "n < 2 ^ 40" "payload_size_of n < 131072"
  shows "allocate os n s = None \<and> oom os s \<or>
    (\<exists>c s' G'. allocate os n s = Some (c + 16, s') \<and> c \<noteq> 0 \<and> sok R m0 b0 s' G' \<and> new_blk (payload_size_of n) c G G')"
proof -
  let ?n = "payload_size_of n"
  note ps = payload_size_of_props [of n]
  have pr: "32 \<le> ?n" "?n mod 16 = 0" "?n < 2 ^ 17" "n \<le> ?n" using ps n by simp_all
  have n0: "n \<noteq> 0" "?n < MMAP_THRESHOLD" using n by simp_all
  note eq = allocate_small_eq [OF n0, of os s]
  obtain c s1 where c: "search_bins s ?n = Some (c, s1)" "found R m0 b0 s G ?n c s1"
    using search_bins_ok [OF k pr(1,2)] n(3) by blast
  show ?thesis
  proof (cases "c = 0")
    case False
    then show ?thesis using eq c by (auto simp: found_def)
  next
    case True
    have f: "found R m0 b0 s G ?n 0 s1" using c(2) True by simp
    note cp = carve_phases_ok [OF f os pr(1-3)]
    show ?thesis using cp
    proof (elim disjE conjE exE)
      fix v s' G'
      assume "do { (victim, s) \<leftarrow> carve_from_top_chunk os s1 ?n;
          (if victim = NULL then do {
             s \<leftarrow> insert_into_unsortedbin s (top_chunk (arena s));
             let s = upd_arena (\<lambda>a. a\<lparr>top_chunk := NULL\<rparr>) s;
             carve_from_top_chunk os s ?n
           } else Some (victim, s)) } = Some (v, s')"
        and g: "v \<noteq> 0" "sok R m0 b0 s' G'" "new_blk ?n v G G'"
      then have "allocate os n s = Some (v + 16, s')"
        using eq c(1) True by (auto simp: Let_def split: bind_splits if_splits)
      then show ?thesis using g by blast
    qed (use eq c(1) True in \<open>auto simp: Let_def split: bind_splits if_splits\<close>)
  qed
qed

lemma allocate_sok:
  assumes "sok R m0 b0 s G" "mmap_ok os" "0 < n" "n < 2 ^ 40"
  shows "allocate os n s = None \<and> oom os s \<or>
    (\<exists>c s' G'. allocate os n s = Some (c + 16, s') \<and> c \<noteq> 0 \<and> sok R m0 b0 s' G' \<and> new_blk (payload_size_of n) c G G')"
  using allocate_large_ok [OF assms] allocate_small_ok [OF assms] by (cases "payload_size_of n < 131072") simp_all

end
