(* ===== verification/ArenaRelease.thy ===== *)
theory ArenaRelease
  imports ArenaAlloc
begin

text \<open>
  \<open>release\<close>: coalescing with the left and the right neighbour, the fast path, and unmapping. A
  released block leaves the set of live blocks and no payload of another block changes.
\<close>

section \<open>Coalescing\<close>

text \<open>
  Within a release the chunk being freed is the only loose one. The right neighbour of a loose chunk
  that is not in use and larger than a fast chunk is the top chunk or binned.
\<close>

lemma free_neighbour:
  assumes inv: "minv m A G {}" and d: "d \<in> gC G \<union> gB G" "d \<notin> gL G" "\<not> is_curr_inuse m d" "112 < get_size m d"
  shows "d = top_chunk A \<and> d \<noteq> 0 \<or> (\<exists>h\<in>heads A. d \<in> set (gbl G h))"
proof -
  note h = minvD(2) [OF inv] and sh = shapeD [OF minvD(1) [OF inv]]
  have dC: "d \<in> gC G" "d \<notin> gU G" using d h unfolding hdr_ok_def by auto
  have "d \<notin> gF G"
  proof
    assume "d \<in> gF G"
    then obtain i where "i < 7" "d \<in> set (gfl G i)" unfolding gF_def by blast
    then have "gsz G d = 16 * (int i + 1)" "i < 7" using sh(6) unfolding class_ok_def by blast+
    then have "gsz G d \<le> 112" by simp
    then show False using h d(4) dC(1) unfolding hdr_ok_def by auto
  qed
  then have "d \<in> gD A G \<union> gT A" using dC d(2) sh(3) unfolding part_ok_def by blast
  then show ?thesis by (auto simp: gD_def gT_def)
qed

lemma merge_writes:
  assumes k: "kinv P R m0 m A G {}" and c: "c \<in> gL G" and d: "d \<in> gL G" "gnext G c = d"
  defines "t \<equiv> gsz G c + 16 + gsz G d"
  shows "u64 (get_usize m c + 16 + get_usize m d) = t"
    and "next_chunk (set_size m c t (get_size_flags m c)) c = gnext G d"
    and "0 \<le> f \<Longrightarrow> f < 8 \<Longrightarrow> set_prev_size (set_size m c t (get_size_flags m c)) (gnext G d) t f =
           Some (m(c + 8 := t + get_size_flags m c, gnext G d := t + f))"
proof -
  note km = kinv_merge [OF k c d, of 0, folded t_def]
  have t: "0 < t" "t < 2 ^ 62" "t mod 16 = 0" by (rule km(2-4); simp)+
  note szc = size_binned [OF kinvD [OF k] kinv_loose(2) [OF k c]]
    and szd = size_binned [OF kinvD [OF k] kinv_loose(2) [OF k d(1)]]
  show "u64 (get_usize m c + 16 + get_usize m d) = t" using szc szd t by (simp add: t_def)
  show "next_chunk (set_size m c t (get_size_flags m c)) c = gnext G d"
    using t flags_range [of m c] d by (simp add: next_chunk_def chunk_simps gnext_def t_def)
  show "set_prev_size (set_size m c t (get_size_flags m c)) (gnext G d) t f =
    Some (m(c + 8 := t + get_size_flags m c, gnext G d := t + f))" if "0 \<le> f" "f < 8"
    using t flags_range [of m c] that by (simp add: set_prev_size_apply set_size_apply)
qed

text \<open>\<open>freed\<close>: the state inside a release, with \<open>c\<close> the only loose chunk.\<close>

definition freed :: "addr set \<Rightarrow> addr set \<Rightarrow> mem \<Rightarrow> heap_state \<Rightarrow> ghost \<Rightarrow> heap_state \<Rightarrow> ghost \<Rightarrow> bool" where
  "freed P R m0 s G s' G' \<longleftrightarrow> kinv P R m0 (hmem s') (arena s') G' {} \<and> same_live G G' \<and> ghs G' = ghs G \<and>
     hbytes s' = hbytes s \<and> maps s' = maps s \<and> growth (arena s') = growth (arena s)"

lemma freed_trans: "freed P R m0 s G s1 G1 \<Longrightarrow> freed P R m0 s1 G1 s2 G2 \<Longrightarrow> freed P R m0 s G s2 G2"
  using same_live_trans by (auto simp: freed_def)

lemma same_live_merge: "c \<notin> gU G \<Longrightarrow> c \<notin> gM G \<Longrightarrow> same_live G (g_merge c d G)"
  by (auto simp: same_live_def)

text \<open>
  The top chunk is the last chunk of its heap: \<open>top_last\<close>. Where this holds, a release keeps it and the
  headers of all chunks but the released one, its left neighbour, and the size of its right neighbour.
\<close>

definition top_last :: "arena_t \<Rightarrow> ghost \<Rightarrow> bool" where
  "top_last A G \<longleftrightarrow> (top_chunk A \<noteq> 0 \<longrightarrow> gnext G (top_chunk A) \<in> gB G)"

definition kept :: "addr \<Rightarrow> addr set \<Rightarrow> heap_state \<Rightarrow> ghost \<Rightarrow> heap_state \<Rightarrow> ghost \<Rightarrow> bool" where
  "kept n Z s G s' G' \<longleftrightarrow> (top_last (arena s) G \<longrightarrow> top_last (arena s') G' \<and> watch n Z (hmem s) G (hmem s') G')"

lemma kept_refl [simp]: "kept n Z s G s G"
  by (auto simp: kept_def watch_def)

lemma kept_trans: "kept n Z s G s1 G1 \<Longrightarrow> kept n Z s1 G1 s2 G2 \<Longrightarrow> kept n Z s G s2 G2"
  unfolding kept_def using watch_trans by blast

lemma inner_merge:
  assumes s: "shape A G" and c: "c \<in> gC G" and d: "d \<in> gC G" "gnext G c = d" and y: "inner G y"
  shows "inner (g_merge c d G) y"
proof -
  let ?G = "g_merge c d G"
  have sz: "32 \<le> gsz G x" if "x \<in> gC G" for x using that shapeD(5) [OF s] by (simp add: layout_ok_def)
  have cd: "c \<noteq> d" using d sz [OF c] by (auto simp: gnext_def)
  have nx: "gnext ?G u = (if u = c then gnext G d else gnext G u)" for u using d(2) by (auto simp: gnext_def)
  have cC: "c \<in> gC ?G" using c cd by simp
  consider "y = d" | "y \<in> gC ?G" | u where "u \<in> gC G" "u + 48 \<le> y" "y + 16 \<le> gnext G u" using y by (auto simp: inner_def)
  then show ?thesis
  proof cases
    case 1
    have "c + 48 \<le> y" "y + 16 \<le> gnext ?G c" using 1 d(2) sz [OF c] sz [OF d(1)] nx by (simp_all add: gnext_def)
    then show ?thesis using cC unfolding inner_def by blast
  next
    case 2
    then show ?thesis by (simp add: inner_def)
  next
    case 3
    show ?thesis
    proof (cases "u = c \<or> u = d")
      case True
      then have "c + 48 \<le> y" "y + 16 \<le> gnext ?G c" using 3 d(2) sz [OF c] sz [OF d(1)] nx by (auto simp: gnext_def)
      then show ?thesis using cC unfolding inner_def by blast
    next
      case False
      then have "u \<in> gC ?G" "y + 16 \<le> gnext ?G u" using 3 nx by simp_all
      then show ?thesis using 3(2) unfolding inner_def by blast
    qed
  qed
qed

lemma merge_watch:
  assumes k: "kinv P R m0 m A G {}" and c: "c \<in> gL G" "c \<notin> Z" and d: "d \<in> gL G" "gnext G c = d" "d \<in> Z \<Longrightarrow> n = d"
    and f: "f = m (gnext G d) AND 7 \<or> gnext G d \<in> gB G"
  defines "t \<equiv> gsz G c + 16 + gsz G d"
  shows "watch n Z m G (m(c + 8 := t + get_size_flags m c, gnext G d := t + f)) (g_merge c d G)"
proof -
  note s = minvD(1) [OF kinvD [OF k]] and lo = kinv_loose [OF k c(1)] and ld = kinv_loose [OF k d(1)]
  have t: "0 < t" "t < 2 ^ 62" "t mod 16 = 0" using kinv_merge(2-4) [OF k c(1) d(1,2), of 0] by (simp_all add: t_def)
  have "same_hdr m (m(c + 8 := t + get_size_flags m c, gnext G d := t + f)) y" if y: "y \<in> Z" "inner G y" for y
  proof -
    let ?m = "m(c + 8 := t + get_size_flags m c)" and ?x = "gnext G d"
    have 1: "same_hdr m ?m y" using y c(2) by (intro hdr_size [OF s y(2) lo(1)]) auto
    have "y \<noteq> ?x" if "?x \<in> gB G"
    proof
      assume e: "y = ?x"
      have "?x \<notin> gC G" using that shapeD(2) [OF s] by (auto simp: kinds_ok_def)
      then obtain u where u: "u \<in> gC G" "u + 48 \<le> y" "y + 16 \<le> gnext G u" using y(2) e by (auto simp: inner_def)
      have uo: "u \<in> objs A G" "gext G u = 16 + gsz G u" using u(1) by (simp_all add: objs_def gext_def)
      have x: "u < ?x" "?x < u + gext G u" using u e uo(2) by (simp_all add: gnext_def)
      then have "u + gext G u \<le> ?x" using shapeD(5) [OF s] uo(1) ld(5) unfolding layout_ok_def by blast
      then show False using x(2) by simp
    qed
    moreover have "?m ?x = m ?x" using inner_cell [OF s _ ld(5), of c 0 8] lo(2) by (simp add: inner_def)
    ultimately have "f = ?m ?x AND 7 \<or> ?x \<noteq> y" using f by auto
    then have "same_hdr ?m (?m(?x := t + f)) y" using t by (intro hdr_tag [OF s y(2) ld(5)]) auto
    with 1 show ?thesis by (rule same_hdr_trans)
  qed
  moreover have "gC G \<inter> Z - {n} \<subseteq> gC (g_merge c d G)" using d(3) by auto
  ultimately show ?thesis using inner_merge [OF s lo(2) ld(2) d(2)] by (simp add: watch_def)
qed

lemma unlink_watch:
  assumes k: "kinv P R m0 m A G X" and h: "h \<in> heads A" "c \<in> set (gbl G h)"
  shows "watch n Z m G (unlink_chunk_from_sortedlist (unlink_chunk_from_fdlist m c) c) (g_unlink h c G)"
proof (rule watchI)
  note inv = kinvD [OF k]
  fix y assume "inner G y"
  then show "same_hdr m (unlink_chunk_from_sortedlist (unlink_chunk_from_fdlist m c) c) y"
    using ring_objs(1) [OF minvD(1) [OF inv] h(1)] by (intro hdr_links [OF minvD(1) [OF inv] _ unlink_both_ok(2) [OF inv h]]) auto
qed simp_all

lemma top_last_merge:
  assumes s: "shape A G" and l: "c \<in> gL G" "d \<in> gL G" and t: "top_last A G"
  shows "top_last A (g_merge c d G)"
proof -
  have "top_chunk A \<noteq> 0 \<Longrightarrow> top_chunk A \<noteq> c \<and> top_chunk A \<noteq> d" using shapeD(3) [OF s] l by (auto simp: part_ok_def gT_def)
  then show ?thesis using t by (simp add: top_last_def gnext_def)
qed

lemma top_last_unlink [simp]: "top_last A (g_unlink h c G) = top_last A G" "top_last A (g_insert h c G) = top_last A G"
  "top_last A (g_class U L G) = top_last A G"
  by (simp_all add: top_last_def)

lemma backward_coalesce_ok:
  assumes k: "kinv P R m0 (hmem s) (arena s) G {}" and L: "gL G = {c}"
  obtains c' s' G' where "backward_coalesce s c = Some (c', s')" "freed P R m0 s G s' G'" "gL G' = {c'}"
    "gnext G' c' = gnext G c" "c' = c \<or> c' \<in> gC G - gU G \<and> gnext G c' = c" "\<And>Z. c \<notin> Z \<Longrightarrow> c' \<notin> Z \<Longrightarrow> kept (gnext G c) Z s G s' G'"
proof (cases "is_prev_inuse (hmem s) c")
  case True
  then show ?thesis using that [of c s G] k L by (simp add: backward_coalesce_def freed_def Let_def)
next
  case False
  let ?m = "hmem s" and ?A = "arena s"
  have c: "c \<in> gL G" using L by simp
  note lo = kinv_loose [OF k c]
  obtain d where d: "d \<in> gD ?A G \<union> gL G" "gnext G d = c" "get_prev_size ?m c = gsz G d"
    using prev_free [OF kinvD [OF k] lo(2) False] by blast
  have dC: "d \<in> gC G" using d part_sub [OF minvD(1) [OF kinvD [OF k]]] by auto
  note szd = size_binned [OF kinvD [OF k] dC]
  have "d \<noteq> c" using d(2) szd by (auto simp: gnext_def)
  then obtain h where h: "h \<in> heads ?A" "d \<in> set (gbl G h)" using d L by (auto simp: gD_def)
  have pc: "prev_chunk ?m c = d" using d by (simp add: prev_chunk_def gnext_def)
  define m1 where "m1 = unlink_chunk_from_sortedlist (unlink_chunk_from_fdlist ?m d) d"
  let ?G1 = "g_unlink h d G"
  have k1: "kinv P R m0 m1 ?A ?G1 {}" unfolding m1_def by (rule kinv_unlink_both [OF k h])
  have dL: "d \<in> gL ?G1" and cL: "c \<in> gL ?G1" "gnext ?G1 d = c" using L d by simp_all
  let ?t = "gsz G d + 16 + gsz G c"
  define f where "f = get_prev_size_flags (set_size m1 d ?t (get_size_flags m1 d)) (gnext G c)"
  have f: "0 \<le> f" "f < 8" unfolding f_def by (rule flags_range)+
  note w = merge_writes [OF k1 dL cL, unfolded g_unlink_simps]
  define m2 where "m2 = m1(d + 8 := ?t + get_size_flags m1 d, gnext G c := ?t + f)"
  have k2: "kinv P R m0 m2 ?A (g_merge d c ?G1) {}" using kinv_merge(1) [OF k1 dL cL f] by (simp add: m2_def)
  have bc: "backward_coalesce s c = Some (d, put_mem m2 s)"
    using False szd pc w(1,2) w(3) [OF f]
    by (simp add: backward_coalesce_def Let_def m1_def [symmetric] f_def [symmetric] m2_def)
  have "same_live G (g_merge d c ?G1)"
    by (rule same_live_trans [of _ ?G1]) (use kinv_loose(3,4) [OF k1 dL] in \<open>simp_all add: same_live_merge\<close>)
  moreover have "ghs (g_merge d c ?G1) = ghs G"
    using ghs_merge [OF minvD(1) [OF kinvD [OF k1]], of d c] kinv_loose(2) [OF k1 dL] kinv_loose(2) [OF k1 cL(1)] cL(2) by simp
  ultimately have "freed P R m0 s G (put_mem m2 s) (g_merge d c ?G1)" using k2 by (simp add: freed_def)
  moreover have "gL (g_merge d c ?G1) = {d}" using L \<open>d \<noteq> c\<close> by auto
  moreover have "gnext (g_merge d c ?G1) d = gnext G c" using d(2) by (simp add: gnext_def)
  moreover have "kept (gnext G c) Z s G (put_mem m2 s) (g_merge d c ?G1)" if Z: "c \<notin> Z" "d \<notin> Z" for Z
  proof -
    have f7: "f = m1 (gnext ?G1 c) AND 7"
      using inner_cell [OF minvD(1) [OF kinvD [OF k1]] _ kinv_loose(5) [OF k1 cL(1)], of d 0 8] dC
      by (simp add: f_def get_prev_size_flags_def set_size_def inner_def)
    have "watch (gnext G c) Z (hmem s) G m1 ?G1" unfolding m1_def by (rule unlink_watch [OF k h])
    moreover have "watch (gnext G c) Z m1 ?G1 m2 (g_merge d c ?G1)"
      using merge_watch [OF k1 dL Z(2) cL, where n = "gnext G c" and f = f] f7 Z(1) by (simp add: m2_def)
    ultimately have "watch (gnext G c) Z (hmem s) G m2 (g_merge d c ?G1)" by (rule watch_trans)
    then show ?thesis using top_last_merge [OF minvD(1) [OF kinvD [OF k1]] dL cL(1)] by (simp add: kept_def)
  qed
  moreover have "d \<notin> gU G" using d(1) \<open>d \<noteq> c\<close> L shapeD(3) [OF minvD(1) [OF kinvD [OF k]]] by (auto simp: part_ok_def)
  ultimately show ?thesis using that bc dC d(2) by blast
qed

lemma forward_coalesce_binned:
  assumes k: "kinv P R m0 (hmem s) (arena s) G {}" and L: "gL G = {c}" and h: "h \<in> heads (arena s)" "gnext G c \<in> set (gbl G h)"
    and nf: "\<not> is_curr_inuse (hmem s) (gnext G c)" "112 < get_size (hmem s) (gnext G c)" "gnext G c \<noteq> top_chunk (arena s)"
  obtains s' G' where "forward_coalesce s c = Some (c, s')" "freed P R m0 s G s' G'" "gL G' = {c}"
    "\<And>Z. c \<notin> Z \<Longrightarrow> kept (gnext G c) Z s G s' G'"
proof -
  let ?m = "hmem s" and ?A = "arena s"
  define d where "d = gnext G c"
  have c: "c \<in> gL G" using L by simp
  note lo = kinv_loose [OF k c] and szc = size_binned [OF kinvD [OF k] kinv_loose(2) [OF k c]]
  have "d \<noteq> c" using szc by (simp add: d_def gnext_def)
  define m1 where "m1 = unlink_chunk_from_sortedlist (unlink_chunk_from_fdlist ?m d) d"
  let ?G1 = "g_unlink h d G"
  have k1: "kinv P R m0 m1 ?A ?G1 {}" unfolding m1_def d_def by (rule kinv_unlink_both [OF k h])
  have dL: "d \<in> gL ?G1" "gnext ?G1 c = d" and cL: "c \<in> gL ?G1" using L by (simp_all add: d_def)
  let ?t = "gsz G c + 16 + gsz G d"
  define f where "f = get_prev_size_flags (set_size m1 c ?t (get_size_flags m1 c)) (gnext G d)"
  have f: "0 \<le> f" "f < 8" unfolding f_def by (rule flags_range)+
  note w = merge_writes [OF k1 cL dL, unfolded g_unlink_simps]
  define m2 where "m2 = m1(c + 8 := ?t + get_size_flags m1 c, gnext G d := ?t + f)"
  have k2: "kinv P R m0 m2 ?A (g_merge c d ?G1) {}" using kinv_merge(1) [OF k1 cL dL f] by (simp add: m2_def)
  have fc: "forward_coalesce s c = Some (c, put_mem m2 s)"
    using nf szc w(1,2) w(3) [OF f]
    by (simp add: forward_coalesce_def Let_def d_def [symmetric] m1_def [symmetric] f_def [symmetric] m2_def)
  have "same_live G (g_merge c d ?G1)"
    by (rule same_live_trans [of _ ?G1]) (use kinv_loose(3,4) [OF k1 cL] in \<open>simp_all add: same_live_merge\<close>)
  moreover have "ghs (g_merge c d ?G1) = ghs G"
    using ghs_merge [OF minvD(1) [OF kinvD [OF k1]], of c d] kinv_loose(2) [OF k1 cL] kinv_loose(2) [OF k1 dL(1)] dL(2) by simp
  ultimately have "freed P R m0 s G (put_mem m2 s) (g_merge c d ?G1)" using k2 by (simp add: freed_def)
  moreover have "gL (g_merge c d ?G1) = {c}" using L \<open>d \<noteq> c\<close> by auto
  moreover have "kept (gnext G c) Z s G (put_mem m2 s) (g_merge c d ?G1)" if Z: "c \<notin> Z" for Z
  proof -
    have f7: "f = m1 (gnext ?G1 d) AND 7"
      using inner_cell [OF minvD(1) [OF kinvD [OF k1]] _ kinv_loose(5) [OF k1 dL(1)], of c 0 8] lo(2)
      by (simp add: f_def get_prev_size_flags_def set_size_def inner_def)
    have "watch (gnext G c) Z (hmem s) G m1 ?G1" unfolding m1_def d_def by (rule unlink_watch [OF k h])
    moreover have "watch (gnext G c) Z m1 ?G1 m2 (g_merge c d ?G1)"
      using merge_watch [OF k1 cL Z dL, where n = "gnext G c" and f = f] f7 by (simp add: m2_def d_def)
    ultimately have "watch (gnext G c) Z (hmem s) G m2 (g_merge c d ?G1)" by (rule watch_trans)
    then show ?thesis using top_last_merge [OF minvD(1) [OF kinvD [OF k1]] cL dL(1)] by (simp add: kept_def)
  qed
  ultimately show ?thesis using that fc by blast
qed

lemma forward_coalesce_top:
  assumes k: "kinv P R m0 (hmem s) (arena s) G {}" and L: "gL G = {c}" and t: "gnext G c = top_chunk (arena s)" "top_chunk (arena s) \<noteq> 0"
    and nf: "\<not> is_curr_inuse (hmem s) (gnext G c)" "112 < get_size (hmem s) (gnext G c)"
  obtains s' G' where "forward_coalesce s c = Some (0, s')" "freed P R m0 s G s' G'" "gL G' = {}"
    "\<And>Z. c \<notin> Z \<Longrightarrow> kept (gnext G c) Z s G s' G'"
proof -
  let ?m = "hmem s" and ?A = "arena s"
  define d where "d = top_chunk ?A"
  have d: "gnext G c = d" "d \<noteq> 0" "d \<in> gT ?A" using t by (simp_all add: d_def gT_def)
  have c: "c \<in> gL G" using L by simp
  have inv: "minv ?m ?A G {}" by (rule kinvD [OF k])
  have dn: "d \<in> gC G" "d \<notin> gL G" "d \<notin> gD ?A G"
    using d(3) shapeD(3) [OF minvD(1) [OF inv]] unfolding part_ok_def by blast+
  have pu: "is_prev_inuse ?m (gnext G d)" if "gnext G d \<in> gC G" by (rule inuse_next [OF inv dn(1,3,2) that])
  let ?A0 = "?A\<lparr>top_chunk := 0\<rparr>" and ?G0 = "g_class (gU G) {d, c} G"
  have k0: "kinv P R m0 ?m ?A0 ?G0 {}"
    using move_from_top [OF inv t(2)] L by (intro kinv_ghost [OF k]) (auto simp: region_def d_def)
  have dL: "d \<in> gL ?G0" "gnext ?G0 c = d" and cL: "c \<in> gL ?G0" using d by simp_all
  let ?t = "gsz G c + 16 + gsz G d"
  note w = merge_writes [OF k0 cL dL, unfolded g_class_simps]
  define m2 where "m2 = ?m(c + 8 := ?t + get_size_flags ?m c, gnext G d := ?t + 0)"
  let ?G1 = "g_merge c d ?G0"
  have k1: "kinv P R m0 m2 ?A0 ?G1 {}" and pu1: "is_prev_inuse m2 (gnext G d) = is_prev_inuse ?m (gnext G d)"
    using kinv_merge(1,5) [OF k0 cL dL, of 0] by (simp_all add: m2_def)
  have szc: "next_chunk ?m c = d" using size_binned(6) [OF inv kinv_loose(2) [OF k c]] d by simp
  have cd: "c \<noteq> d" using dn c by auto
  have nx: "gnext ?G1 c = gnext G d" using d by (simp add: gnext_def)
  have k2: "kinv P R m0 m2 (?A0\<lparr>top_chunk := c\<rparr>) (g_class (gU ?G1) (gL ?G1 - {c}) ?G1) {}"
    by (rule kinv_to_top [OF k1]) (use cd pu pu1 nx in auto)
  define s' where "s' = upd_arena (\<lambda>a. a\<lparr>top_chunk := c\<rparr>) (put_mem m2 s)"
  have "forward_coalesce s c = Some (0, s')"
    using nf szc w(1,2) w(3) [of 0] d t
    by (simp add: forward_coalesce_def Let_def d_def [symmetric] m2_def s'_def)
  moreover have "ghs ?G1 = ghs G"
    using ghs_merge [OF minvD(1) [OF kinvD [OF k0]], of c d] kinv_loose(2) [OF k0 cL] kinv_loose(2) [OF k0 dL(1)] dL(2) by simp
  then have "freed P R m0 s G s' (g_class (gU ?G1) (gL ?G1 - {c}) ?G1)"
    using k2 kinv_loose(3,4) [OF k c] by (simp add: freed_def s'_def same_live_def)
  moreover have "gL (g_class (gU ?G1) (gL ?G1 - {c}) ?G1) = {}" by auto
  moreover have "kept (gnext G c) Z s G s' (g_class (gU ?G1) (gL ?G1 - {c}) ?G1)" if Z: "c \<notin> Z" for Z
    unfolding kept_def
  proof (intro impI conjI)
    assume "top_last (arena s) G"
    then have b: "gnext G d \<in> gB G" using t(2) unfolding top_last_def d_def by blast
    then show "top_last (arena s') (g_class (gU ?G1) (gL ?G1 - {c}) ?G1)" using nx by (simp add: top_last_def s'_def)
    have "watch (gnext G c) Z ?m ?G0 m2 ?G1"
      using merge_watch [OF k0 cL Z dL, where n = "gnext G c" and f = 0] b d by (simp add: m2_def)
    moreover have "inner (g_class U L' H) y = inner H y" for U L' H y by (rule inner_cong) simp_all
    ultimately show "watch (gnext G c) Z ?m G (hmem s') (g_class (gU ?G1) (gL ?G1 - {c}) ?G1)" by (simp add: watch_def s'_def)
  qed
  ultimately show ?thesis using that by blast
qed

lemma forward_coalesce_ok:
  assumes k: "kinv P R m0 (hmem s) (arena s) G {}" and L: "gL G = {c}"
  obtains c' s' G' where "forward_coalesce s c = Some (c', s')" "freed P R m0 s G s' G'" "gL G' = (if c' = 0 then {} else {c'})"
    "c' = 0 \<or> c' = c" "\<And>Z. c \<notin> Z \<Longrightarrow> kept (gnext G c) Z s G s' G'"
proof (cases "is_curr_inuse (hmem s) (gnext G c) \<or> get_size (hmem s) (gnext G c) \<le> 112")
  case True
  have c: "c \<in> gL G" using L by simp
  note szc = size_binned [OF kinvD [OF k] kinv_loose(2) [OF k c]]
  have "c \<noteq> 0" using shape_pos [OF minvD(1) [OF kinvD [OF k]] kinv_loose(1) [OF k c]] by simp
  then show ?thesis using that [of c s G] True k L szc by (simp add: forward_coalesce_def freed_def Let_def)
next
  case False
  have c: "c \<in> gL G" using L by simp
  note lo = kinv_loose [OF k c] and szc = size_binned [OF kinvD [OF k] kinv_loose(2) [OF k c]]
  have c0: "c \<noteq> 0" using shape_pos [OF minvD(1) [OF kinvD [OF k]] lo(1)] by simp
  have nL: "gnext G c \<notin> gL G" using L szc by (simp add: gnext_def)
  have nf: "\<not> is_curr_inuse (hmem s) (gnext G c)" "112 < get_size (hmem s) (gnext G c)" using False by simp_all
  consider "gnext G c = top_chunk (arena s)" "top_chunk (arena s) \<noteq> 0"
    | h where "h \<in> heads (arena s)" "gnext G c \<in> set (gbl G h)" "gnext G c \<noteq> top_chunk (arena s)"
    using free_neighbour [OF kinvD [OF k] lo(6) nL nf] shape_pos [OF minvD(1) [OF kinvD [OF k]] lo(5)]
    by (metis less_irrefl)
  then show ?thesis
  proof cases
    case 1
    then show ?thesis using forward_coalesce_top [OF k L 1 nf] that [of 0] by auto
  next
    case 2
    then show ?thesis using forward_coalesce_binned [OF k L 2(1,2) nf 2(3)] that [of c] c0 by auto
  qed
qed

lemma coalesce_ok:
  assumes k: "kinv P R m0 (hmem s) (arena s) G {}" and L: "gL G = {c}"
  obtains c' s' G' where "coalesce s c = Some (c', s')" "freed P R m0 s G s' G'" "gL G' = (if c' = 0 then {} else {c'})"
    "\<And>Z. c \<notin> Z \<Longrightarrow> (\<forall>d\<in>gC G - gU G. gnext G d = c \<longrightarrow> d \<notin> Z) \<Longrightarrow> (c' = 0 \<or> c' \<notin> Z) \<and> kept (gnext G c) Z s G s' G'"
proof -
  obtain c1 s1 G1 where b: "backward_coalesce s c = Some (c1, s1)" "freed P R m0 s G s1 G1" "gL G1 = {c1}"
    "gnext G1 c1 = gnext G c" "c1 = c \<or> c1 \<in> gC G - gU G \<and> gnext G c1 = c" "\<And>Z. c \<notin> Z \<Longrightarrow> c1 \<notin> Z \<Longrightarrow> kept (gnext G c) Z s G s1 G1"
    by (rule backward_coalesce_ok [OF k L]) (rule that)
  have k1: "kinv P R m0 (hmem s1) (arena s1) G1 {}" using b(2) by (simp add: freed_def)
  obtain c2 s2 G2 where f: "forward_coalesce s1 c1 = Some (c2, s2)" "freed P R m0 s1 G1 s2 G2"
    "gL G2 = (if c2 = 0 then {} else {c2})" "c2 = 0 \<or> c2 = c1" "\<And>Z. c1 \<notin> Z \<Longrightarrow> kept (gnext G1 c1) Z s1 G1 s2 G2"
    by (rule forward_coalesce_ok [OF k1 b(3)]) (rule that)
  have "(c2 = 0 \<or> c2 \<notin> Z) \<and> kept (gnext G c) Z s G s2 G2"
    if Z: "c \<notin> Z" "\<forall>d\<in>gC G - gU G. gnext G d = c \<longrightarrow> d \<notin> Z" for Z
  proof -
    have c1: "c1 \<notin> Z" using b(5) Z by blast
    show ?thesis using kept_trans [OF b(6) [OF Z(1) c1] f(5) [OF c1, unfolded b(4)]] f(4) c1 by blast
  qed
  then show ?thesis using that b(1) f(1,3) freed_trans [OF b(2) f(2)] by (simp add: coalesce_def)
qed

section \<open>Releasing a block\<close>

text \<open>\<open>gone c G G'\<close>: the block \<open>c\<close> has left the live blocks, the others are as they were.\<close>

definition gone :: "addr \<Rightarrow> ghost \<Rightarrow> ghost \<Rightarrow> bool" where
  "gone c G G' \<longleftrightarrow> gU G' = gU G - {c} \<and> gM G' = gM G - {c} \<and>
     (\<forall>u\<in>gU G \<union> gM G - {c}. gsz G' u = gsz G u)"

lemma insert_into_fastbin_hdr:
  assumes s: "shape (arena s) G" and y: "inner G y" and c: "c \<in> objs (arena s) G" "c \<noteq> y"
  shows "same_hdr (hmem s) (hmem (insert_into_fastbin s c)) y"
proof -
  have 1: "same_hdr (hmem s) ((hmem s)(c + 16 := v)) y" for v
    by (rule hdr_links [OF s y, where W = "{c}" and K = "{16}"]) (use c in \<open>auto intro!: changes_in_upd\<close>)
  have "same_hdr (hmem s) (unset_curr_inuse ((hmem s)(c + 16 := v)) c) y" for v
    using same_hdr_trans [OF 1 hdr_size [OF s y c]] by (simp add: unset_curr_inuse_def)
  then show ?thesis by (simp add: insert_into_fastbin_def Let_def)
qed

lemma release_heap_watch:
  assumes inv: "arena_inv s G" and c: "c \<in> gU G" and sz: "gsz G c < 131072"
    and R: "R = (\<Union>u\<in>gU G \<union> gM G - {c}. payload G u)"
  obtains s' G' where "release os (c + 16) s = Some s'" "sok R (hmem s) (hbytes s) s' G'" "gone c G G'"
    "growth (arena s') = growth (arena s)" "\<And>Z. c \<notin> Z \<Longrightarrow> (\<forall>d\<in>gC G - gU G. gnext G d = c \<longrightarrow> d \<notin> Z) \<Longrightarrow> kept (gnext G c) Z s G s' G'"
proof -
  note result = that
  let ?G0 = "g_class (gU G - {c}) {c} G" and ?P = "heap_area s G" and ?m0 = "hmem s"
  have mi: "minv ?m0 (arena s) G {}" and L: "gL G = {}" using inv by (simp_all add: arena_inv_def)
  have cC: "c \<in> gC G" "c \<notin> gM G" "c \<notin> gD (arena s) G" "c \<in> objs (arena s) G"
    using cu_not_stored [OF mi, of c] c shapeD(2) [OF minvD(1) [OF mi]] unfolding kinds_ok_def by blast+
  have c0: "c \<noteq> 0" "c + 16 \<noteq> 0" using shape_pos [OF minvD(1) [OF mi] cC(4)] by simp_all
  note szc = size_binned [OF mi cC(1)]
  have M: "gM G - {c} = gM G" using cC by simp
  have k0: "kinv ?P R ?m0 (hmem s) (arena s) ?G0 {}"
  proof -
    have "minv (hmem s) (arena s) ?G0 {}" using move_free [OF mi c] L by simp
    moreover have "R \<subseteq> region ?G0" unfolding R region_def using cC by auto
    ultimately show ?thesis using inv by (simp add: kinv_def arena_inv_def)
  qed
  have L0: "gL ?G0 = {c}" by simp
  have pu: "is_prev_inuse (hmem s) (gnext G c)" if "gnext G c \<in> gC G"
    by (rule inuse_next [OF mi cC(1,3) _ that]) (simp add: L)
  have fin: ?thesis if r: "release os (c + 16) s = Some s'" and a: "kinv ?P R ?m0 (hmem s') (arena s') G' {}" "gL G' = {}"
    and live: "gU G' = gU G - {c}" "gM G' = gM G" "\<And>u. u \<in> gU G \<union> gM G - {c} \<Longrightarrow> gsz G' u = gsz G u"
    and o: "hbytes s' = hbytes s" "maps s' = maps s" "growth (arena s') = growth (arena s)" and kh: "ghs G' = ghs G"
    and kp: "\<And>Z. c \<notin> Z \<Longrightarrow> (\<forall>d\<in>gC G - gU G. gnext G d = c \<longrightarrow> d \<notin> Z) \<Longrightarrow> kept (gnext G c) Z s G s' G'" for s' G'
  proof -
    have "ment G' = ment G" unfolding ment_def live(2) using live(3) cC(2) by (intro image_cong) auto
    then have "sok R ?m0 (hbytes s) s' G'"
      using a o inv kh by (auto simp: sok_def arena_inv_def kinv_def counts_ok_def heaps_ok_def growth_def)
    moreover have "gone c G G'" using live M by (simp add: gone_def)
    ultimately show ?thesis using result r o(3) kp by blast
  qed
  show ?thesis
  proof (cases "gsz G c \<le> 112")
    case True
    have k0': "gsz ?G0 c \<le> 112" "c \<in> gL ?G0" "gnext ?G0 c \<in> gC ?G0 \<Longrightarrow> is_prev_inuse (hmem s) (gnext ?G0 c)"
      using True pu by simp_all
    obtain m' i xs where f: "insert_into_fastbin s c = upd_arena (\<lambda>a. a\<lparr>fastbins := (fastbins a)[i := c]\<rparr>) (put_mem m' s)"
      "kinv ?P R ?m0 m' ((arena s)\<lparr>fastbins := (fastbins (arena s))[i := c]\<rparr>) (g_fast i xs (gL ?G0 - {c}) ?G0) {}"
      using insert_into_fastbin_ok [OF k0 k0'(2,3,1)] .
    have rel: "release os (c + 16) s = Some (insert_into_fastbin s c)"
      using c0 szc True by (simp add: release_def release_locked_def Let_def)
    have "kept (gnext G c) Z s G (insert_into_fastbin s c) (g_fast i xs (gL ?G0 - {c}) ?G0)" if "c \<notin> Z" for Z
    proof -
      have "watch (gnext G c) Z (hmem s) G (hmem (insert_into_fastbin s c)) (g_fast i xs (gL ?G0 - {c}) ?G0)"
        using that by (intro watchI insert_into_fastbin_hdr [OF minvD(1) [OF mi] _ cC(4)]) auto
      then show ?thesis using f(1) by (simp add: kept_def top_last_def)
    qed
    then show ?thesis using f cC rel by (intro fin [of "insert_into_fastbin s c" "g_fast i xs (gL ?G0 - {c}) ?G0"]) auto
  next
    case False
    obtain c' s1 G1 where co: "coalesce s c = Some (c', s1)" "freed ?P R ?m0 s ?G0 s1 G1" "gL G1 = (if c' = 0 then {} else {c'})"
      "\<And>Z. c \<notin> Z \<Longrightarrow> (\<forall>d\<in>gC ?G0 - gU ?G0. gnext ?G0 d = c \<longrightarrow> d \<notin> Z) \<Longrightarrow> (c' = 0 \<or> c' \<notin> Z) \<and> kept (gnext ?G0 c) Z s ?G0 s1 G1"
      by (rule coalesce_ok [OF k0 L0]) (rule that)
    have kp: "(c' = 0 \<or> c' \<notin> Z) \<and> kept (gnext G c) Z s G s1 G1"
      if "c \<notin> Z" "\<forall>d\<in>gC G - gU G. gnext G d = c \<longrightarrow> d \<notin> Z" for Z
    proof -
      have "inner ?G0 y = inner G y" for y by (rule inner_cong) simp_all
      moreover have "\<forall>d\<in>gC G - (gU G - {c}). gnext G d = c \<longrightarrow> d \<notin> Z"
        using that szc by (auto simp: gnext_def)
      ultimately show ?thesis using co(4) [of Z] that(1) by (simp add: kept_def watch_def)
    qed
    have live: "gU G1 = gU G - {c}" "gM G1 = gM G" "\<And>u. u \<in> gU G \<union> gM G - {c} \<Longrightarrow> gsz G1 u = gsz G u"
      and kh: "ghs G1 = ghs G"
      using co(2) cC by (auto simp: freed_def same_live_def)
    have k1: "kinv ?P R ?m0 (hmem s1) (arena s1) G1 {}" and o1: "hbytes s1 = hbytes s" "maps s1 = maps s"
      "growth (arena s1) = growth (arena s)" using co(2) by (simp_all add: freed_def)
    have rel: "release os (c + 16) s = (if c' \<noteq> 0 then insert_into_unsortedbin s1 c' else Some s1)"
      using c0 szc False sz co(1) by (simp add: release_def release_locked_def Let_def)
    show ?thesis
    proof (cases "c' = 0")
      case True
      then show ?thesis using kp by (intro fin [of s1 G1]) (use rel k1 co(3) live o1 kh in simp_all)
    next
      case False
      have cL: "c' \<in> gL G1" "c' \<notin> {}" using co(3) False by simp_all
      let ?G2 = "g_insert (unsortedbin (arena s1)) c' G1"
      obtain m' where m': "insert_into_unsortedbin s1 c' = Some (put_mem m' s1)"
        "kinv ?P R ?m0 m' (arena s1) (g_insert (unsortedbin (arena s1)) c' G1) {}"
        using insert_into_unsortedbin_ok [OF k1 cL] .
      have "kept (gnext G c) Z s G (put_mem m' s1) ?G2"
        if Z: "c \<notin> Z" "\<forall>d\<in>gC G - gU G. gnext G d = c \<longrightarrow> d \<notin> Z" for Z
      proof -
        have c': "c' \<notin> Z" and k1': "kept (gnext G c) Z s G s1 G1" using kp [OF Z] False by simp_all
        obtain m2 where m2: "insert_into_unsortedbin s1 c' = Some (put_mem m2 s1)" "watch (gnext G c) Z (hmem s1) G1 m2 ?G2"
          using insert_into_unsortedbin_watch [OF k1 cL c', of "gnext G c"] by blast
        have "m2 = m'" using m2(1) m'(1) by (metis option.inject put_mem_simps(1))
        then have "kept (gnext G c) Z s1 G1 (put_mem m' s1) ?G2" using m2(2) by (simp add: kept_def)
        with k1' show ?thesis by (rule kept_trans)
      qed
      then show ?thesis by (intro fin [of "put_mem m' s1" ?G2]) (use rel m' False live o1 co(3) kh in simp_all)
    qed
  qed
qed

lemma release_heap_ok:
  assumes inv: "arena_inv s G" and c: "c \<in> gU G" and sz: "gsz G c < 131072"
    and R: "R = (\<Union>u\<in>gU G \<union> gM G - {c}. payload G u)"
  obtains s' G' where "release os (c + 16) s = Some s'" "sok R (hmem s) (hbytes s) s' G'" "gone c G G'"
  by (rule release_heap_watch [OF assms, of os]) (rule that)

definition g_unmap :: "addr \<Rightarrow> ghost \<Rightarrow> ghost" where
  "g_unmap c G = G\<lparr>gM := gM G - {c}\<rparr>"

lemma g_unmap_simps [simp]:
  "gC (g_unmap c G) = gC G" "gB (g_unmap c G) = gB G" "gM (g_unmap c G) = gM G - {c}" "gU (g_unmap c G) = gU G"
  "gL (g_unmap c G) = gL G" "gsz (g_unmap c G) = gsz G" "gfl (g_unmap c G) = gfl G" "gbl (g_unmap c G) = gbl G"
  "gsl (g_unmap c G) = gsl G" "gF (g_unmap c G) = gF G" "gD A (g_unmap c G) = gD A G" "gnext (g_unmap c G) = gnext G"
  by (simp_all add: g_unmap_def gF_def gD_def gnext_def fun_eq_iff)

lemma minv_unmap:
  assumes inv: "minv m A G X" and c: "c \<in> gM G"
  shows "minv m A (g_unmap c G) X" "foot A (g_unmap c G) = foot A G"
proof -
  note sh = shapeD [OF minvD(1) [OF inv]]
  let ?G = "g_unmap c G"
  have cn: "c \<notin> gC G" "c \<notin> gB G" "c \<notin> heads A" using sh(2) c unfolding kinds_ok_def by blast+
  have o: "objs A ?G = objs A G - {c}" using cn by (auto simp: objs_def)
  have e: "gext ?G x = gext G x" if "x \<noteq> c" for x using that by (simp add: gext_def)
  have "shape A ?G"
  proof -
    have "kinds_ok A ?G" using sh(2) by (auto simp: kinds_ok_def)
    moreover have "layout_ok A ?G" using sh(5) e unfolding layout_ok_def o by simp
    moreover have "lists_ok A ?G" "class_ok A ?G" "part_ok A ?G"
      using sh(3,4,6) by (simp_all add: lists_ok_def class_ok_def part_ok_def)
    ultimately show ?thesis using sh(1) by (simp add: shape_def)
  qed
  then show "minv m A ?G X" using minvD(2,3) [OF inv] by (auto simp: minv_def hdr_ok_def link_ok_def)
  show "foot A ?G = foot A G" unfolding foot_def g_unmap_simps
  proof (rule SUP_cong [OF refl])
    fix x assume "x \<in> gC G \<union> gB G \<union> heads A"
    then have "x \<noteq> c" using cn by auto
    then show "{x..<x + gext ?G x} = {x..<x + gext G x}" by (simp add: e)
  qed
qed

lemma release_mmap_ok:
  assumes inv: "arena_inv s G" and c: "c \<in> gM G" and os: "munmap_ok os"
    and R: "R = (\<Union>u\<in>gU G \<union> gM G - {c}. payload G u)"
  obtains s' G' where "release os (c + 16) s = Some s'" "sok R (hmem s) (hbytes s) s' G'" "gone c G G'"
proof -
  have mi: "minv (hmem s) (arena s) G {}" using inv by (simp add: arena_inv_def)
  note sh = shapeD [OF minvD(1) [OF mi]]
  have cO: "c \<in> objs (arena s) G" using c by (simp add: objs_def)
  have "0 < c \<and> c + gext G c < 2 ^ 62" and sz: "131072 \<le> gsz G c" using sh(5) c cO unfolding layout_ok_def by blast+
  then have "gsz G c < 2 ^ 62" and c0: "0 < c" using c by (simp_all add: gext_def)
  note sz = sz this(1)
  have gs: "get_size (hmem s) c = gsz G c" using minvD(2) [OF mi] c by (simp add: hdr_ok_def)
  have cU: "c \<notin> gU G" using sh(2,3) c unfolding kinds_ok_def part_ok_def by blast
  let ?s = "s\<lparr>maps := os_munmap os (maps s) c (gsz G c + 16)\<rparr>" and ?G = "g_unmap c G"
  have r: "release os (c + 16) s = Some ?s"
    using gs sz c0 by (simp add: release_def release_locked_def Let_def)
  have "(c, 16 + gsz G c) \<in> ment G" using c by (simp add: ment_def)
  then have e: "(c, gsz G c + 16) \<in> set (maps s)" using inv by (auto simp: arena_inv_def add.commute)
  then have ms: "set (maps ?s) = set (maps s) - {(c, gsz G c + 16)}" using os by (simp add: munmap_ok_def)
  have me: "ment ?G = ment G - {(c, gsz G c + 16)}"
  proof (rule set_eqI)
    fix x :: "addr \<times> int"
    obtain a b where x: "x = (a, b)" by fastforce
    show "x \<in> ment ?G \<longleftrightarrow> x \<in> ment G - {(c, gsz G c + 16)}"
      unfolding x ment_def by (cases "a = c") (auto simp: image_iff)
  qed
  have un: "minv (hmem s) (arena s) ?G {}" "foot (arena s) ?G = foot (arena s) G" by (rule minv_unmap [OF mi c])+
  have "set (maps ?s) - ment ?G = set (maps s) - ment G"
    using ms me \<open>(c, 16 + gsz G c) \<in> ment G\<close> by (auto simp: add.commute)
  then have "foot (arena s) ?G \<subseteq> area (set (maps ?s) - ment ?G)" using inv un(2) by (simp add: arena_inv_def)
  moreover have "ment ?G \<subseteq> set (maps ?s)" using inv ms me by (auto simp: arena_inv_def)
  moreover have "ghs ?G = ghs G" by (rule ghs_cong) simp_all
  ultimately have "arena_inv ?s ?G" using inv un(1) by (simp add: arena_inv_def heaps_ok_def)
  moreover have "R \<subseteq> region ?G" unfolding R region_def using cU by (auto simp: payload_def)
  ultimately have "sok R (hmem s) (hbytes s) ?s ?G" by (simp add: sok_def)
  moreover have "gone c G ?G" using cU by (simp add: gone_def)
  ultimately show ?thesis using that r by blast
qed

end
