(* ===== verification/Allocator.thy ===== *)
theory Allocator
  imports ArenaRelease
begin

text \<open>
  The allocator's contract. \<open>heap_inv s L\<close> abstracts a heap state to its live blocks: \<open>L\<close> maps the
  address of every block handed out and not yet released to the size that was requested. The locale
  \<open>allocator\<close> states what a client may rely on; it is interpreted on \<open>allocate\<close> and \<open>release\<close>, so
  its laws are theorems about the code's model.
\<close>

section \<open>Live blocks\<close>

definition block_ok :: "ghost \<Rightarrow> addr \<Rightarrow> int \<Rightarrow> bool" where
  "block_ok G p n \<longleftrightarrow> 0 < n \<and> n \<le> gsz G (p - 16) \<and>
     (if 131072 \<le> payload_size_of n then p - 16 \<in> gM G
      else p - 16 \<in> gU G \<and> gsz G (p - 16) < payload_size_of n + 48)"

definition heap_inv :: "heap_state \<Rightarrow> (addr \<rightharpoonup> int) \<Rightarrow> bool" where
  "heap_inv s L \<longleftrightarrow> (\<exists>G. arena_inv s G \<and> dom L = (\<lambda>c. c + 16) ` (gU G \<union> gM G) \<and>
     (\<forall>p n. L p = Some n \<longrightarrow> block_ok G p n))"

text \<open>
  \<open>live_area L\<close>: the bytes of the live blocks. \<open>keeps L s s'\<close>: these bytes are the same in both
  states, in the cell plane and in the byte plane.
\<close>

definition live_area :: "(addr \<rightharpoonup> int) \<Rightarrow> addr set" where
  "live_area L = {a. \<exists>p n. L p = Some n \<and> p \<le> a \<and> a < p + n}"

definition keeps :: "(addr \<rightharpoonup> int) \<Rightarrow> heap_state \<Rightarrow> heap_state \<Rightarrow> bool" where
  "keeps L s s' \<longleftrightarrow> (\<forall>a\<in>live_area L. hmem s' a = hmem s a \<and> hbytes s' a = hbytes s a)"

text \<open>
  Sizes whose block can be released: a request of 131025 to 131056 bytes may be served by a heap
  chunk of \<open>MMAP_THRESHOLD\<close> bytes, which \<open>release\<close> would unmap.
\<close>

definition releasable :: "int \<Rightarrow> bool" where
  "releasable n \<longleftrightarrow> n \<le> 131024 \<or> 131056 < n"

lemma live_region:
  assumes "dom L = (\<lambda>c. c + 16) ` (gU G \<union> gM G)" "\<And>p n. L p = Some n \<Longrightarrow> block_ok G p n" "a \<in> live_area L"
  obtains p where "L p \<noteq> None" "p - 16 \<in> gU G \<union> gM G" "a \<in> payload G (p - 16)"
proof -
  obtain p n where p: "L p = Some n" "p \<le> a" "a < p + n" using assms(3) by (auto simp: live_area_def)
  then have "p \<in> dom L" "n \<le> gsz G (p - 16)" using assms(2) by (auto simp: block_ok_def)
  moreover from this have "p - 16 \<in> gU G \<union> gM G" using assms(1) by auto
  ultimately show ?thesis using that [of p] p by (auto simp: payload_def)
qed

lemma releasable_payload:
  assumes "0 < n" "n < 2 ^ 62" "releasable n" "payload_size_of n < 131072"
  shows "payload_size_of n \<le> 131024"
proof -
  have "n \<le> 131024"
    using assms payload_size_of_props(2) [of n] payload_size_of_props(1) [of n] by (auto simp: releasable_def)
  moreover have "payload_size_of n mod 16 = 0" "payload_size_of n < n + 16 \<or> payload_size_of n = 32"
    using payload_size_of_props(1) [of n] align16_exact [of n] assms by (auto simp: payload_size_of_def Let_def)
  ultimately show ?thesis by presburger
qed

lemma live_facts:
  assumes i: "arena_inv s G" and u: "u \<in> gU G \<union> gM G"
  shows "u mod 16 = 0" "0 < u" "u + 16 + gsz G u < 2 ^ 62" "32 \<le> gsz G u" "u \<in> objs (arena s) G"
    "gext G u = 16 + gsz G u"
proof -
  have m: "minv (hmem s) (arena s) G {}" using i by (simp add: arena_inv_def)
  note sh = shapeD [OF minvD(1) [OF m]]
  have C: "u \<in> gC G \<union> gM G" using u part_sub(1) [OF minvD(1) [OF m]] by auto
  show "u \<in> objs (arena s) G" and e: "gext G u = 16 + gsz G u" using C by (auto simp: objs_def gext_def)
  then have "0 < u \<and> u + gext G u < 2 ^ 62" using sh(5) unfolding layout_ok_def by blast
  then show "0 < u" "u + 16 + gsz G u < 2 ^ 62" using e by simp_all
  show "u mod 16 = 0" "32 \<le> gsz G u" using sh(5) C unfolding layout_ok_def by fastforce+
qed

lemma sok_region: "arena_inv s G \<Longrightarrow> sok (region G) (hmem s) (hbytes s) s G"
  by (simp add: sok_def)

lemma allocate_heap_inv:
  assumes h: "heap_inv s L" and os: "mmap_ok os" and n: "0 < n" "n < 2 ^ 40" and r: "allocate os n s = Some (p, s')"
  shows "heap_inv s' (L(p \<mapsto> n))" "L p = None" "keeps L s s'"
proof -
  obtain G where G: "arena_inv s G" "dom L = (\<lambda>c. c + 16) ` (gU G \<union> gM G)" "\<And>p n. L p = Some n \<Longrightarrow> block_ok G p n"
    using h by (auto simp: heap_inv_def)
  obtain c G' where c: "p = c + 16" "sok (region G) (hmem s) (hbytes s) s' G'" "new_blk (payload_size_of n) c G G'"
    using allocate_sok [OF sok_region [OF G(1)] os n] r by auto
  have n2: "n \<le> payload_size_of n" using payload_size_of_props [of n] n by simp
  have inv': "arena_inv s' G'" using c(2) by (simp add: sok_def)
  show Lp: "L p = None"
  proof (rule ccontr)
    assume "L p \<noteq> None"
    then have "p \<in> dom L" by auto
    then show False using G(2) c(1,3) by (auto simp: new_blk_def)
  qed
  have "block_ok G' q k" if q: "(L(p \<mapsto> n)) q = Some k" for q k
  proof (cases "q = p")
    case True
    then show ?thesis using q c n n2 by (auto simp: block_ok_def new_blk_def)
  next
    case False
    then have b: "block_ok G q k" and qd: "q \<in> dom L" using q G(3) by auto
    have "q - 16 \<in> gU G \<union> gM G" using qd G(2) by auto
    then show ?thesis using b c(3) by (auto simp: block_ok_def new_blk_def)
  qed
  moreover have "dom (L(p \<mapsto> n)) = (\<lambda>c. c + 16) ` (gU G' \<union> gM G')"
    using G(2) c(1,3) by (simp add: new_blk_def)
  ultimately show "heap_inv s' (L(p \<mapsto> n))" using inv' unfolding heap_inv_def by blast
  show "keeps L s s'" unfolding keeps_def
  proof
    fix a assume "a \<in> live_area L"
    then obtain q where "q - 16 \<in> gU G \<union> gM G" "a \<in> payload G (q - 16)" using live_region [OF G(2,3)] by blast
    then have "a \<in> region G" unfolding region_def by blast
    then show "hmem s' a = hmem s a \<and> hbytes s' a = hbytes s a" using c(2) by (simp add: sok_def)
  qed
qed

lemma allocate_none:
  assumes h: "heap_inv s L" and os: "mmap_ok os" and n: "0 < n" "n < 2 ^ 40" and r: "allocate os n s = None"
  shows "oom os s"
proof -
  obtain G where G: "arena_inv s G" using h by (auto simp: heap_inv_def)
  show ?thesis using allocate_sok [OF sok_region [OF G] os n] r by auto
qed

lemma release_heap_inv:
  assumes h: "heap_inv s L" and os: "munmap_ok os" and p: "L p = Some n" "releasable n"
  obtains s' where "release os p s = Some s'" "heap_inv s' (L(p := None))" "keeps (L(p := None)) s s'"
proof -
  obtain G where G: "arena_inv s G" "dom L = (\<lambda>c. c + 16) ` (gU G \<union> gM G)" "\<And>p n. L p = Some n \<Longrightarrow> block_ok G p n"
    using h by (auto simp: heap_inv_def)
  define c where "c = p - 16"
  have b: "block_ok G p n" by (rule G(3) [OF p(1)])
  have "p \<in> dom L" using p(1) by auto
  then have cl: "c \<in> gU G \<union> gM G" using G(2) by (auto simp: c_def)
  let ?R = "\<Union>u\<in>gU G \<union> gM G - {c}. payload G u"
  obtain s' G' where s': "release os (c + 16) s = Some s'" "sok ?R (hmem s) (hbytes s) s' G'" "gone c G G'"
  proof (cases "131072 \<le> payload_size_of n")
    case True
    then have "c \<in> gM G" using b by (simp add: block_ok_def c_def)
    then show ?thesis using release_mmap_ok [OF G(1) _ os refl] that by blast
  next
    case False
    then have cU: "c \<in> gU G" "gsz G c < payload_size_of n + 48" "0 < n" "n \<le> gsz G c"
      using b by (simp_all add: block_ok_def c_def)
    have "n < 2 ^ 62" using cU live_facts(2,3) [OF G(1) cl] by simp
    then have "gsz G c < 131072" using cU releasable_payload [of n] p(2) False by simp
    then show ?thesis using release_heap_ok [OF G(1) cU(1) _ refl] that by blast
  qed
  have "heap_inv s' (L(p := None))"
  proof -
    have "block_ok G' q k" if q: "(L(p := None)) q = Some k" for q k
    proof -
      have qp: "q \<noteq> p" and b: "block_ok G q k" and "q \<in> dom L" using q G(3) by (auto split: if_splits)
      then have "q - 16 \<in> gU G \<union> gM G - {c}" using G(2) by (auto simp: c_def)
      then show ?thesis using b s'(3) unfolding block_ok_def gone_def by auto
    qed
    moreover have "dom (L(p := None)) = (\<lambda>c. c + 16) ` (gU G' \<union> gM G')"
      using G(2) s'(3) by (auto simp: gone_def c_def)
    ultimately show ?thesis using s'(2) unfolding heap_inv_def sok_def by blast
  qed
  moreover have "keeps (L(p := None)) s s'" unfolding keeps_def
  proof
    fix a assume "a \<in> live_area (L(p := None))"
    then obtain q k where q: "q \<noteq> p" "L q = Some k" "q \<le> a" "a < q + k" by (auto simp: live_area_def split: if_splits)
    then have "q \<in> dom L" "k \<le> gsz G (q - 16)" using G(3) by (auto simp: block_ok_def)
    then have "q - 16 \<in> gU G \<union> gM G - {c}" "a \<in> payload G (q - 16)" using G(2) q by (auto simp: c_def payload_def)
    then show "hmem s' a = hmem s a \<and> hbytes s' a = hbytes s a" using s'(2) unfolding sok_def by blast
  qed
  ultimately show ?thesis using that s'(1) by (simp add: c_def)
qed

lemma blocks_apart:
  assumes h: "heap_inv s L" and p: "L p = Some n" and q: "L q = Some k" and ne: "p < q"
  shows "p + n + 16 \<le> q"
proof -
  obtain G where G: "arena_inv s G" "dom L = (\<lambda>c. c + 16) ` (gU G \<union> gM G)" "\<And>p n. L p = Some n \<Longrightarrow> block_ok G p n"
    using h by (auto simp: heap_inv_def)
  have s: "shape (arena s) G" using G(1) minvD(1) by (auto simp: arena_inv_def)
  have "p \<in> dom L" "q \<in> dom L" using p q by auto
  then have live: "p - 16 \<in> gU G \<union> gM G" "q - 16 \<in> gU G \<union> gM G" using G(2) by auto
  note pf = live_facts [OF G(1) live(1)] and qf = live_facts [OF G(1) live(2)]
  have "p - 16 + gext G (p - 16) \<le> q - 16" by (rule objs_apart [OF s pf(5) qf(5)]) (use ne in simp)
  moreover have "n \<le> gsz G (p - 16)" using G(3) [OF p] by (simp add: block_ok_def)
  ultimately show ?thesis using pf(6) by simp
qed

lemma block_facts:
  assumes h: "heap_inv s L" and p: "L p = Some n"
  shows "p mod 16 = 0" "16 < p" "0 < n" "p + n < 2 ^ 62"
proof -
  obtain G where G: "arena_inv s G" "dom L = (\<lambda>c. c + 16) ` (gU G \<union> gM G)" "\<And>p n. L p = Some n \<Longrightarrow> block_ok G p n"
    using h by (auto simp: heap_inv_def)
  have "p \<in> dom L" using p by auto
  then have "p - 16 \<in> gU G \<union> gM G" using G(2) by auto
  note f = live_facts [OF G(1) this]
  show "16 < p" using f(2) by simp
  have "(p - 16) mod 16 = 0" using f(1) .
  then show "p mod 16 = 0" by presburger
  show "0 < n" "p + n < 2 ^ 62" using G(3) [OF p] f(3) by (auto simp: block_ok_def)
qed

text \<open>A client may write the cells and bytes of the live blocks.\<close>

lemma client_write:
  assumes h: "heap_inv s L" and w: "\<And>a. a \<notin> live_area L \<Longrightarrow> m' a = hmem s a"
  shows "heap_inv (s\<lparr>hmem := m', hbytes := b'\<rparr>) L"
proof -
  obtain G where G: "arena_inv s G" "dom L = (\<lambda>c. c + 16) ` (gU G \<union> gM G)" "\<And>p n. L p = Some n \<Longrightarrow> block_ok G p n"
    using h by (auto simp: heap_inv_def)
  have mi: "minv (hmem s) (arena s) G {}" using G(1) by (simp add: arena_inv_def)
  note s = minvD(1) [OF mi]
  have out: "m' (x + j) = hmem s (x + j)"
    if "x \<in> objs (arena s) G" "0 \<le> j" "j < 48" "x \<notin> gU G \<union> gM G \<or> j < 16" for x j
  proof (rule w, rule notI)
    assume "x + j \<in> live_area L"
    then obtain q where "q - 16 \<in> gU G \<union> gM G" "x + j \<in> payload G (q - 16)" using live_region [OF G(2,3)] by blast
    moreover from this have "q - 16 \<in> gC G \<union> gM G" using part_sub(1) [OF s] by auto
    ultimately show False using cell_not_in_payload [OF s that(1), of "q - 16" j] that by auto
  qed
  have "hdr_ok m' (arena s) G {} = hdr_ok (hmem s) (arena s) G {}"
  proof (rule hdr_ok_cong)
    show "m' x = hmem s x" if "x \<in> objs (arena s) G" for x using out [OF that, of 0] by simp
    show "m' (x + 8) = hmem s (x + 8)" if "x \<in> objs (arena s) G" for x using out [OF that, of 8] by simp
  qed (use part_sub [OF s] in auto)
  moreover have "link_ok m' (arena s) G = link_ok (hmem s) (arena s) G"
  proof (rule link_ok_cong)
    fix x k assume x: "x \<in> heads (arena s) \<union> gD (arena s) G \<union> gF G" and k: "k \<in> {16, 24, 32, 40::int}"
    have "x \<in> objs (arena s) G" "x \<notin> gU G \<union> gM G"
      using x part_sub(1) [OF s] shapeD(2,3) [OF s] unfolding objs_def kinds_ok_def part_ok_def by blast+
    then show "m' (x + k) = hmem s (x + k)" using k by (intro out) auto
  qed (rule shapeD [OF s])
  ultimately have "minv m' (arena s) G {}" using mi by (simp add: minv_def)
  then have "arena_inv (s\<lparr>hmem := m', hbytes := b'\<rparr>) G" using G(1) by (simp add: arena_inv_def)
  then show ?thesis using G(2,3) unfolding heap_inv_def by blast
qed

section \<open>The contract\<close>

locale allocator =
  fixes alloc :: "int \<Rightarrow> heap_state \<Rightarrow> (addr \<times> heap_state) option"
    and rel :: "addr \<Rightarrow> heap_state \<Rightarrow> heap_state option"
    and inv :: "heap_state \<Rightarrow> (addr \<rightharpoonup> int) \<Rightarrow> bool"
  assumes alloc_law: "inv s L \<Longrightarrow> 0 < n \<Longrightarrow> n < 2 ^ 40 \<Longrightarrow> alloc n s = Some (p, s') \<Longrightarrow>
      inv s' (L(p \<mapsto> n)) \<and> L p = None \<and> keeps L s s'"
    and rel_law: "inv s L \<Longrightarrow> L p = Some n \<Longrightarrow> releasable n \<Longrightarrow>
      \<exists>s'. rel p s = Some s' \<and> inv s' (L(p := None)) \<and> keeps (L(p := None)) s s'"
    and write_law: "inv s L \<Longrightarrow> (\<And>a. a \<notin> live_area L \<Longrightarrow> m' a = hmem s a) \<Longrightarrow>
      inv (s\<lparr>hmem := m', hbytes := b'\<rparr>) L"
    and apart_law: "inv s L \<Longrightarrow> L p = Some n \<Longrightarrow> L q = Some k \<Longrightarrow> p < q \<Longrightarrow> p + n + 16 \<le> q"
    and block_law: "inv s L \<Longrightarrow> L p = Some n \<Longrightarrow> p mod 16 = 0 \<and> 16 < p \<and> 0 < n \<and> p + n < 2 ^ 62"
begin

lemma apart:
  assumes "inv s L" "L p = Some n" "L q = Some k" "p \<noteq> q"
  shows "p + n + 16 \<le> q \<or> q + k + 16 \<le> p"
  using apart_law [OF assms(1-3)] apart_law [OF assms(1,3,2)] assms(4) by linarith

lemma in_live: "L p = Some n \<Longrightarrow> p \<le> a \<Longrightarrow> a < p + n \<Longrightarrow> a \<in> live_area L"
  by (auto simp: live_area_def)

lemma write_cell:
  assumes "inv s L" "L p = Some n" "0 \<le> i" "i < n"
  shows "inv (s\<lparr>hmem := (hmem s)(p + i := v)\<rparr>) L"
proof -
  have "p + i \<in> live_area L" using in_live [of L p n, OF assms(2)] assms(3,4) by simp
  then have "inv (s\<lparr>hmem := (hmem s)(p + i := v), hbytes := hbytes s\<rparr>) L"
    by (intro write_law [OF assms(1)]) auto
  then show ?thesis by simp
qed

lemma write_bytes_inv:
  assumes "inv s L"
  shows "inv (s\<lparr>hbytes := b'\<rparr>) L"
  using write_law [OF assms, of "hmem s" b'] by simp

text \<open>Cells and bytes of another live block are unaffected by a write.\<close>

lemma other_block:
  assumes "inv s L" "L p = Some n" "L q = Some k" "p \<noteq> q" "0 \<le> i" "i < n" "0 \<le> j" "j < k"
  shows "p + i \<noteq> q + j"
  using apart [OF assms(1-4)] assms(5-) by linarith

end

text \<open>The invariant together with what it takes from the operating system.\<close>

definition runtime_heap :: "os \<Rightarrow> heap_state \<Rightarrow> (addr \<rightharpoonup> int) \<Rightarrow> bool" where
  "runtime_heap os s L \<longleftrightarrow> mmap_ok os \<and> munmap_ok os \<and> heap_inv s L"

interpretation al: allocator "allocate os" "release os" "runtime_heap os" for os
proof (unfold_locales, goal_cases)
  case (1 s L n p s')
  then show ?case using allocate_heap_inv by (auto simp: runtime_heap_def)
next
  case (2 s L p n)
  then show ?case using release_heap_inv [of s L os p n] by (auto simp: runtime_heap_def)
next
  case (3 s L m' b')
  then show ?case using client_write by (auto simp: runtime_heap_def)
next
  case (4 s L p n q k)
  then show ?case using blocks_apart by (auto simp: runtime_heap_def)
next
  case (5 s L p n)
  then show ?case using block_facts by (auto simp: runtime_heap_def)
qed

section \<open>Creating an arena\<close>

text \<open>Loops over a table of 48-byte bin heads.\<close>

lemma fold_heads:
  fixes F :: "nat \<Rightarrow> mem \<Rightarrow> mem"
  assumes out: "\<And>i m a. a < cur + 48 * int i \<or> cur + 48 * int i + 48 \<le> a \<Longrightarrow> F i m a = m a"
  shows "a < cur \<or> cur + 48 * int n \<le> a \<Longrightarrow> fold F [0..<n] m a = m a"
    and "i < n \<Longrightarrow> 0 \<le> k \<Longrightarrow> k < 48 \<Longrightarrow> (\<And>m. F i m (cur + 48 * int i + k) = v) \<Longrightarrow>
      fold F [0..<n] m (cur + 48 * int i + k) = v"
proof (induction n)
  case (Suc n)
  {
    case 1
    then show ?case using Suc.IH(1) out [of a n "fold F [0..<n] m"] by auto
  next
    case 2
    show ?case
    proof (cases "i = n")
      case True
      then show ?thesis using 2 by simp
    next
      case False
      then have "int i + 1 \<le> int n" using 2(1) by simp
      then have "F n (fold F [0..<n] m) (cur + 48 * int i + k) = fold F [0..<n] m (cur + 48 * int i + k)"
        using 2(2,3) by (intro out) auto
      then show ?thesis using Suc.IH(2) 2 False by simp
    qed
  }
qed simp_all

definition bins_image :: "addr \<Rightarrow> mem \<Rightarrow> mem" where
  "bins_image cur m =
     (let m = fold (init_smallbin cur) [0..<32] m;
          m = fold (init_largebin (cur + 1536)) [0..<64] m
      in (set_fdbk_to m (cur + 4608) (cur + 4608))(cur + 4608 + 8 := 0))"

definition empty_arena :: "addr \<Rightarrow> arena_t" where
  "empty_arena cur = \<lparr>fastbins = replicate 7 NULL, top_chunk = NULL, unsortedbin = cur + 4608,
     smallbins = map (\<lambda>i. cur + 48 * int i) [0..<32],
     largebins = map (\<lambda>i. cur + 1536 + 48 * int i) [0..<64],
     heap_expo_growth_iters = 0, heap_constant_growth_iters = 0, alloced_heaps = []\<rparr>"

definition empty_ghost :: ghost where
  "empty_ghost = \<lparr>gC = {}, gB = {}, gM = {}, gU = {}, gL = {}, gsz = (\<lambda>_. 0), gfl = (\<lambda>_. []),
     gbl = (\<lambda>_. []), gsl = (\<lambda>_. [])\<rparr>"

lemma arena_create_eq:
  assumes "page_size os \<in> {4096, 16384, 65536}"
  obtains len where "8112 \<le> len" "len \<le> 65536"
    "arena_create os s = (case os_mmap os (maps s) len of None \<Rightarrow> None
       | Some p \<Rightarrow> if p = 0 then None else grow_heap os ((mapped p len s)\<lparr>
           hmem := bins_image (p + 3456) (zero_region p len (hmem s)), arena := empty_arena (p + 3456)\<rparr>))"
proof -
  define len where "len = align_page os 8112"
  have "8112 \<le> len" "len \<le> 65536" using assms by (auto simp: len_def align_page_def)
  moreover have "arena_create os s = (case os_mmap os (maps s) len of None \<Rightarrow> None
       | Some p \<Rightarrow> if p = 0 then None else grow_heap os ((mapped p len s)\<lparr>
           hmem := bins_image (p + 3456) (zero_region p len (hmem s)), arena := empty_arena (p + 3456)\<rparr>))"
    by (simp add: arena_create_def alloc_memory_def len_def [symmetric] bins_image_def empty_arena_def Let_def
        mapped_def add.assoc split: option.split)
  ultimately show ?thesis using that by blast
qed

lemma small_head_writes:
  "a < cur + 48 * int i \<or> cur + 48 * int i + 48 \<le> a \<Longrightarrow> init_smallbin cur i m a = m a"
  "init_smallbin cur i m (cur + 48 * int i + 16) = cur + 48 * int i"
  "init_smallbin cur i m (cur + 48 * int i + 24) = cur + 48 * int i"
  by (auto simp: init_smallbin_def set_fdbk_to_def Let_def)

lemma large_head_writes:
  "a < cur + 48 * int i \<or> cur + 48 * int i + 48 \<le> a \<Longrightarrow> init_largebin cur i m a = m a"
  "k \<in> {16, 24, 32, 40} \<Longrightarrow> init_largebin cur i m (cur + 48 * int i + k) = cur + 48 * int i"
  by (auto simp: init_largebin_def set_fdbk_to_def set_nextprev_sizeptr_to_def Let_def)

lemma bins_image_out:
  assumes "a < cur \<or> cur + 4656 \<le> a"
  shows "bins_image cur m a = m a"
  using assms fold_heads(1) [of cur "init_smallbin cur" a 32, OF small_head_writes(1)]
    fold_heads(1) [of "cur + 1536" "init_largebin (cur + 1536)" a 64, OF large_head_writes(1)]
  by (auto simp: bins_image_def Let_def set_fdbk_to_def)

lemma bins_image_heads:
  "i < 32 \<Longrightarrow> k \<in> {16, 24} \<Longrightarrow> bins_image cur m (cur + 48 * int i + k) = cur + 48 * int i"
  "i < 64 \<Longrightarrow> k \<in> {16, 24, 32, 40} \<Longrightarrow> bins_image cur m (cur + 1536 + 48 * int i + k) = cur + 1536 + 48 * int i"
  "k \<in> {16, 24} \<Longrightarrow> bins_image cur m (cur + 4608 + k) = cur + 4608"
proof -
  let ?m1 = "fold (init_smallbin cur) [0..<32] m" and ?F = "init_largebin (cur + 1536)"
  show "bins_image cur m (cur + 48 * int i + k) = cur + 48 * int i" if i: "i < 32" and k: "k \<in> {16, 24}"
  proof -
    have "?m1 (cur + 48 * int i + k) = cur + 48 * int i"
      using i k by (intro fold_heads(2) [where F = "init_smallbin cur"] small_head_writes(1)) (auto simp: small_head_writes)
    moreover have "fold ?F [0..<64] ?m1 (cur + 48 * int i + k) = ?m1 (cur + 48 * int i + k)"
      using i k by (intro fold_heads(1) [where cur = "cur + 1536"] large_head_writes(1)) auto
    ultimately show ?thesis using i k by (auto simp: bins_image_def Let_def set_fdbk_to_def)
  qed
  show "bins_image cur m (cur + 1536 + 48 * int i + k) = cur + 1536 + 48 * int i" if i: "i < 64" and k: "k \<in> {16, 24, 32, 40}"
  proof -
    have "fold ?F [0..<64] ?m1 (cur + 1536 + 48 * int i + k) = cur + 1536 + 48 * int i"
      using i k large_head_writes(2) [OF k, of "cur + 1536" i]
      by (intro fold_heads(2) [where F = ?F] large_head_writes(1)) auto
    moreover have "cur + 1536 + 48 * int i + k < cur + 4608" using i k by auto
    ultimately show ?thesis by (simp add: bins_image_def Let_def set_fdbk_to_def)
  qed
  show "bins_image cur m (cur + 4608 + k) = cur + 4608" if "k \<in> {16, 24}"
    using that by (auto simp: bins_image_def Let_def set_fdbk_to_def)
qed

lemma empty_heads:
  assumes "h \<in> heads (empty_arena cur)"
  obtains i :: nat where "i < 97" "h = cur + 48 * int i"
proof -
  consider "h = cur + 48 * int 96" | i where "i < 32" "h = cur + 48 * int i"
    | i where "i < 64" "h = cur + 48 * int (i + 32)"
    using assms by (auto simp: heads_def empty_arena_def)
  then show ?thesis
  proof cases
    case 1
    then show ?thesis using that [of 96] by simp
  next
    case (2 i)
    then show ?thesis using that [of i] by simp
  next
    case (3 i)
    then show ?thesis using that [of "i + 32"] by simp
  qed
qed

lemma empty_minv:
  assumes cur: "0 < cur" "cur + 4656 < 2 ^ 62"
  shows "minv (bins_image cur m) (empty_arena cur) empty_ghost {}"
proof -
  let ?A = "empty_arena cur" and ?G = empty_ghost
  have o: "objs ?A ?G = heads ?A" by (simp add: objs_def empty_ghost_def)
  have "bins_ok ?A"
    by (auto simp: bins_ok_def empty_arena_def distinct_map inj_on_def)
  moreover have "layout_ok ?A ?G"
  proof -
    have "x + 48 \<le> y" if xy: "x \<in> heads ?A" "y \<in> heads ?A" "x < y" for x y
    proof -
      obtain i where "x = cur + 48 * int i" using empty_heads [OF xy(1)] by blast
      moreover obtain j where "y = cur + 48 * int j" using empty_heads [OF xy(2)] by blast
      moreover from calculation have "int i + 1 \<le> int j" using xy(3) by simp
      ultimately show ?thesis by simp
    qed
    moreover have "0 < x \<and> x + 48 < 2 ^ 62" if x: "x \<in> heads ?A" for x
    proof -
      obtain i where "i < 97" "x = cur + 48 * int i" using empty_heads [OF x] .
      then show ?thesis using cur by simp
    qed
    ultimately show ?thesis unfolding layout_ok_def o by (simp add: gext_def empty_ghost_def)
  qed
  ultimately have "shape ?A ?G"
    by (simp add: shape_def kinds_ok_def part_ok_def lists_ok_def class_ok_def gF_def gD_def gT_def empty_ghost_def empty_arena_def)
  moreover have "hdr_ok (bins_image cur m) ?A ?G {}" by (simp add: hdr_ok_def empty_ghost_def gD_def gF_def)
  moreover have "link_ok (bins_image cur m) ?A ?G"
  proof -
    have large: "ring (bins_image cur m) 16 24 h [] \<and> ring (bins_image cur m) 32 40 h []" if hl: "h \<in> set (largebins ?A)" for h
    proof -
      obtain i where i: "i < 64" "h = cur + 1536 + 48 * int i" using hl by (auto simp: empty_arena_def)
      have "bins_image cur m (h + k) = h" if "k \<in> {16, 24, 32, 40}" for k
        using bins_image_heads(2) [OF i(1) that, of cur m] by (simp only: i(2))
      then show ?thesis by (simp add: ring_def)
    qed
    have "ring (bins_image cur m) 16 24 h []" if hh: "h \<in> heads ?A" for h
    proof -
      consider "h = cur + 4608" | i where "i < 32" "h = cur + 48 * int i" | "h \<in> set (largebins ?A)"
        using hh by (auto simp: heads_def empty_arena_def)
      then show ?thesis
      proof cases
        case 1
        have "bins_image cur m (h + k) = h" if "k \<in> {16, 24}" for k
          using bins_image_heads(3) [OF that, of cur m] by (simp only: 1)
        then show ?thesis by (simp add: ring_def)
      next
        case (2 i)
        have "bins_image cur m (h + k) = h" if "k \<in> {16, 24}" for k
          using bins_image_heads(1) [OF 2(1) that, of cur m] by (simp only: 2(2))
        then show ?thesis by (simp add: ring_def)
      qed (use large in simp)
    qed
    then show ?thesis using large by (simp add: link_ok_def empty_ghost_def empty_arena_def)
  qed
  ultimately show ?thesis by (simp add: minv_def)
qed

lemma arena_create_inv:
  assumes os: "mmap_ok os" "page_size os \<in> {4096, 16384, 65536}" and r: "arena_create os s0 = Some s"
  shows "heap_inv s Map.empty"
proof -
  obtain len where len: "8112 \<le> len" "len \<le> 65536" and eq: "arena_create os s0 = (case os_mmap os (maps s0) len of None \<Rightarrow> None
       | Some p \<Rightarrow> if p = 0 then None else grow_heap os ((mapped p len s0)\<lparr>
           hmem := bins_image (p + 3456) (zero_region p len (hmem s0)), arena := empty_arena (p + 3456)\<rparr>))"
    using arena_create_eq [OF os(2)] .
  obtain p where p: "os_mmap os (maps s0) len = Some p" using r eq by (auto split: option.splits)
  have l0: "0 < len" using len by simp
  have pp: "0 < p" "p + page_up len \<le> 2 ^ 47" using os(1) p l0 unfolding mmap_ok_def by blast+
  have pl: "p + len \<le> 2 ^ 47" using pp(2) page_up_ge [of len] by simp
  let ?m = "bins_image (p + 3456) (zero_region p len (hmem s0))" and ?A = "empty_arena (p + 3456)"
  let ?s = "(mapped p len s0)\<lparr>hmem := ?m, arena := ?A\<rparr>"
  have g: "grow_heap os ?s = Some s" using r eq p pp(1) by simp
  have mi: "minv ?m ?A empty_ghost {}" using pp(1) pl len by (intro empty_minv) simp_all
  have "foot ?A empty_ghost \<subseteq> area (set (maps ?s))"
  proof
    fix a assume "a \<in> foot ?A empty_ghost"
    then obtain h where h: "h \<in> heads ?A" "h \<le> a" "a < h + 48" by (auto simp: foot_def empty_ghost_def gext_def)
    obtain i where "i < 97" "h = p + 3456 + 48 * int i" using empty_heads [OF h(1)] .
    then have "p \<le> a" "a < p + page_up len" using h(2,3) len page_up_ge [of len] by auto
    then show "a \<in> area (set (maps ?s))" by (intro area_in [of p len]) simp_all
  qed
  then have "arena_inv ?s empty_ghost"
    using mi by (simp add: arena_inv_def heaps_ok_def ghs_def ment_def counts_ok_def growth_def empty_ghost_def empty_arena_def)
  then have so: "sok {} ?m (hbytes ?s) ?s empty_ghost" by (simp add: sok_def)
  have t0: "top_chunk (arena ?s) = 0" by (simp add: empty_arena_def)
  obtain G' where G': "sok {} ?m (hbytes ?s) s G'" "same_live empty_ghost G'"
    using grow_heap_ok [OF so os(1) t0 g] .
  then have "gU G' \<union> gM G' = {}" by (simp add: same_live_def empty_ghost_def)
  then show ?thesis using G'(1) unfolding heap_inv_def sok_def by (intro exI [of _ G']) simp
qed

end
