(* ===== verification/Client.thy ===== *)
theory Client
  imports Allocator
begin

text \<open>
  What the other parts of the runtime do with their blocks: loads and stores of 8-byte cells and of
  bytes, \<open>memcpy\<close> and \<open>memset\<close>, and how the allocator's contract frames them. A cell of the model
  stands for an aligned 8-byte value and a byte for a byte of character data; \<open>memcpy\<close> copies both.
\<close>

section \<open>Memory operations\<close>

definition poke :: "addr \<Rightarrow> int \<Rightarrow> heap_state \<Rightarrow> heap_state" where
  "poke a v s = s\<lparr>hmem := (hmem s)(a := v)\<rparr>"

definition set_byte :: "addr \<Rightarrow> int \<Rightarrow> heap_state \<Rightarrow> heap_state" where
  "set_byte a v s = s\<lparr>hbytes := (hbytes s)(a := v mod 256)\<rparr>"

definition copy_region :: "addr \<Rightarrow> addr \<Rightarrow> int \<Rightarrow> (addr \<Rightarrow> int) \<Rightarrow> addr \<Rightarrow> int" where
  "copy_region d src n m a = (if d \<le> a \<and> a < d + n then m (src + (a - d)) else m a)"

definition memcpy :: "addr \<Rightarrow> addr \<Rightarrow> int \<Rightarrow> heap_state \<Rightarrow> heap_state" where
  "memcpy d src n s = s\<lparr>hmem := copy_region d src n (hmem s), hbytes := copy_region d src n (hbytes s)\<rparr>"

text \<open>Copying bytes from outside the heap: the stack, or constant data.\<close>

definition write_list :: "addr \<Rightarrow> int list \<Rightarrow> bytes \<Rightarrow> bytes" where
  "write_list d bs m a = (if d \<le> a \<and> a < d + int (length bs) then bs ! nat (a - d) else m a)"

definition memput :: "addr \<Rightarrow> int list \<Rightarrow> heap_state \<Rightarrow> heap_state" where
  "memput d bs s = s\<lparr>hbytes := write_list d bs (hbytes s)\<rparr>"

definition memset0 :: "addr \<Rightarrow> int \<Rightarrow> heap_state \<Rightarrow> heap_state" where
  "memset0 d n s = s\<lparr>hmem := zero_region d n (hmem s), hbytes := zero_region d n (hbytes s)\<rparr>"

definition bytes_at :: "heap_state \<Rightarrow> addr \<Rightarrow> nat \<Rightarrow> int list" where
  "bytes_at s a n = map (\<lambda>i. hbytes s (a + int i)) [0..<n]"

lemma poke_simps [simp]: "hmem (poke a v s) = (hmem s)(a := v)" "hbytes (poke a v s) = hbytes s"
  by (simp_all add: poke_def)

lemma set_byte_simps [simp]: "hmem (set_byte a v s) = hmem s" "hbytes (set_byte a v s) = (hbytes s)(a := v mod 256)"
  by (simp_all add: set_byte_def)

lemma memcpy_simps [simp]: "hmem (memcpy d src n s) = copy_region d src n (hmem s)" "hbytes (memcpy d src n s) = copy_region d src n (hbytes s)"
  by (simp_all add: memcpy_def)

lemma memput_simps [simp]: "hmem (memput d bs s) = hmem s" "hbytes (memput d bs s) = write_list d bs (hbytes s)"
  by (simp_all add: memput_def)

lemma memset0_simps [simp]: "hmem (memset0 d n s) = zero_region d n (hmem s)" "hbytes (memset0 d n s) = zero_region d n (hbytes s)"
  by (simp_all add: memset0_def)

lemma bytes_at_length [simp]: "length (bytes_at s a n) = n"
  by (simp add: bytes_at_def)

lemma bytes_at_nth: "i < n \<Longrightarrow> bytes_at s a n ! i = hbytes s (a + int i)"
  by (simp add: bytes_at_def)

lemma bytes_at_cong: "(\<And>i. i < n \<Longrightarrow> hbytes s' (b + int i) = hbytes s (a + int i)) \<Longrightarrow> bytes_at s' b n = bytes_at s a n"
  by (simp add: bytes_at_def)

lemma bytes_at_append: "bytes_at s a (m + n) = bytes_at s a m @ bytes_at s (a + int m) n"
  by (rule nth_equalityI) (auto simp: bytes_at_nth nth_append add.assoc)

lemma bytes_at_memput: "n = length bs \<Longrightarrow> bytes_at (memput d bs s) d n = bs"
  by (rule nth_equalityI) (auto simp: bytes_at_nth write_list_def)

lemma bytes_at_memcpy: "int n \<le> k \<Longrightarrow> bytes_at (memcpy d src k s) d n = bytes_at s src n"
  by (rule bytes_at_cong) (simp add: copy_region_def)

section \<open>The contract of the allocator for its clients\<close>

text \<open>
  From \<open>s\<close> with live blocks \<open>L\<close> to \<open>s'\<close> with \<open>L'\<close>, every block that is not in \<open>B\<close> stays live and
  keeps its contents.
\<close>

definition frame :: "addr set \<Rightarrow> (addr \<rightharpoonup> int) \<Rightarrow> heap_state \<Rightarrow> (addr \<rightharpoonup> int) \<Rightarrow> heap_state \<Rightarrow> bool" where
  "frame B L s L' s' \<longleftrightarrow> (\<forall>q k. L q = Some k \<longrightarrow> q \<notin> B \<longrightarrow> L' q = Some k \<and>
     (\<forall>i. 0 \<le> i \<longrightarrow> i < k \<longrightarrow> hmem s' (q + i) = hmem s (q + i) \<and> hbytes s' (q + i) = hbytes s (q + i)))"

lemma frame_refl: "frame B L s L s"
  by (simp add: frame_def)

lemma frame_trans: "frame B L s L1 s1 \<Longrightarrow> frame B' L1 s1 L2 s2 \<Longrightarrow> frame (B \<union> B') L s L2 s2"
  unfolding frame_def by (metis UnI1 UnI2)

lemma frame_drop: "frame B L s L' s' \<Longrightarrow> (\<And>q. q \<in> B \<Longrightarrow> L q \<noteq> None \<Longrightarrow> q \<in> B') \<Longrightarrow> frame B' L s L' s'"
  unfolding frame_def by (metis option.distinct(1))

lemma frameD:
  assumes "frame B L s L' s'" "L q = Some k" "q \<notin> B"
  shows "L' q = Some k" "0 \<le> i \<Longrightarrow> i < k \<Longrightarrow> hmem s' (q + i) = hmem s (q + i)"
    "0 \<le> i \<Longrightarrow> i < k \<Longrightarrow> hbytes s' (q + i) = hbytes s (q + i)"
  using assms unfolding frame_def by blast+

lemma frame_bytes:
  assumes "frame B L s L' s'" "L q = Some k" "q \<notin> B" "0 \<le> j" "j + int n \<le> k"
  shows "bytes_at s' (q + j) n = bytes_at s (q + j) n"
proof (rule bytes_at_cong)
  fix i assume "i < n"
  then show "hbytes s' (q + j + int i) = hbytes s (q + j + int i)"
    using frameD(3) [OF assms(1-3), of "j + int i"] assms(4,5) by (simp add: add.assoc)
qed

context allocator
begin

lemma alloc_cells:
  assumes "inv s L" "0 < n" "n < 2 ^ 40" "alloc n s = Some (p, s')"
  shows "inv s' (L(p \<mapsto> n))" "L p = None" "\<And>q k i. L q = Some k \<Longrightarrow> 0 \<le> i \<Longrightarrow> i < k \<Longrightarrow> hmem s' (q + i) = hmem s (q + i)"
  "16 < p"
proof -
  note a = alloc_law [OF assms]
  show "inv s' (L(p \<mapsto> n))" "L p = None" using a by simp_all
  then show "16 < p" using block_law [of s' "L(p \<mapsto> n)" p n] by simp
  show "hmem s' (q + i) = hmem s (q + i)" if "L q = Some k" "0 \<le> i" "i < k" for q k i
    using a in_live [of L q k "q + i"] that by (auto simp: keeps_def)
qed

lemma poke_inv: "inv s L \<Longrightarrow> L p = Some n \<Longrightarrow> 0 \<le> i \<Longrightarrow> i < n \<Longrightarrow> inv (poke (p + i) v s) L"
  unfolding poke_def by (rule write_cell)

lemma rel_cells:
  assumes "inv s L" "L p = Some n" "releasable n"
  obtains s' where "rel p s = Some s'" "inv s' (L(p := None))"
    "\<And>q k i. q \<noteq> p \<Longrightarrow> L q = Some k \<Longrightarrow> 0 \<le> i \<Longrightarrow> i < k \<Longrightarrow> hmem s' (q + i) = hmem s (q + i)"
proof -
  obtain s' where s': "rel p s = Some s'" "inv s' (L(p := None))" "keeps (L(p := None)) s s'"
    using rel_law [OF assms] by blast
  have "hmem s' (q + i) = hmem s (q + i)" if "q \<noteq> p" "L q = Some k" "0 \<le> i" "i < k" for q k i
    using s'(3) in_live [of "L(p := None)" q k "q + i"] that by (auto simp: keeps_def)
  then show ?thesis using that s' by blast
qed

lemma alloc_frame:
  assumes "inv s L" "0 < n" "n < 2 ^ 40" "alloc n s = Some (p, s')"
  shows "inv s' (L(p \<mapsto> n))" "L p = None" "frame {} L s (L(p \<mapsto> n)) s'" "16 < p"
proof -
  note c = alloc_cells [OF assms] and a = alloc_law [OF assms]
  show "inv s' (L(p \<mapsto> n))" "L p = None" "16 < p" by (rule c)+
  have "hbytes s' (q + i) = hbytes s (q + i)" if "L q = Some k" "0 \<le> i" "i < k" for q k i
    using a in_live [of L q k "q + i"] that by (auto simp: keeps_def)
  then show "frame {} L s (L(p \<mapsto> n)) s'" using c(2,3) unfolding frame_def by auto
qed

lemma rel_frame:
  assumes "inv s L" "L p = Some n" "releasable n"
  obtains s' where "rel p s = Some s'" "inv s' (L(p := None))" "frame {p} L s (L(p := None)) s'"
proof -
  obtain s' where s': "rel p s = Some s'" "inv s' (L(p := None))" "keeps (L(p := None)) s s'"
    using rel_law [OF assms] by blast
  have "hmem s' (q + i) = hmem s (q + i) \<and> hbytes s' (q + i) = hbytes s (q + i)" if "q \<noteq> p" "L q = Some k" "0 \<le> i" "i < k" for q k i
    using s'(3) in_live [of "L(p := None)" q k "q + i"] that by (auto simp: keeps_def)
  then have "frame {p} L s (L(p := None)) s'" by (auto simp: frame_def)
  then show ?thesis using that s' by blast
qed

text \<open>A write that stays inside one live block.\<close>

lemma write_frame:
  assumes i: "inv s L" and p: "L p = Some n" and s': "s' = s\<lparr>hmem := hmem s', hbytes := hbytes s'\<rparr>"
    and w: "\<And>a. a < p \<or> p + n \<le> a \<Longrightarrow> hmem s' a = hmem s a \<and> hbytes s' a = hbytes s a"
  shows "inv s' L \<and> frame {p} L s L s'"
proof
  have "hmem s' a = hmem s a" if "a \<notin> live_area L" for a
    using that w [of a] in_live [of L p n a, OF p] by (metis linorder_not_le)
  then have "inv (s\<lparr>hmem := hmem s', hbytes := hbytes s'\<rparr>) L" by (intro write_law [OF i])
  then show "inv s' L" using s' by simp
  have "hmem s' (q + j) = hmem s (q + j) \<and> hbytes s' (q + j) = hbytes s (q + j)" if "q \<noteq> p" "L q = Some k" "0 \<le> j" "j < k" for q k j
    using apart [OF i that(2) p that(1)] that(3,4) w [of "q + j"] by auto
  then show "frame {p} L s L s'" by (auto simp: frame_def)
qed

lemma poke_frame: "inv s L \<Longrightarrow> L p = Some n \<Longrightarrow> 0 \<le> j \<Longrightarrow> j < n \<Longrightarrow> inv (poke (p + j) v s) L \<and> frame {p} L s L (poke (p + j) v s)"
  by (rule write_frame) (auto simp: poke_def)

lemma set_byte_frame: "inv s L \<Longrightarrow> L p = Some n \<Longrightarrow> 0 \<le> j \<Longrightarrow> j < n \<Longrightarrow> inv (set_byte (p + j) v s) L \<and> frame {p} L s L (set_byte (p + j) v s)"
  by (rule write_frame) (auto simp: set_byte_def)

lemma memput_frame: "inv s L \<Longrightarrow> L p = Some n \<Longrightarrow> 0 \<le> j \<Longrightarrow> j + int (length bs) \<le> n \<Longrightarrow>
    inv (memput (p + j) bs s) L \<and> frame {p} L s L (memput (p + j) bs s)"
  by (rule write_frame) (auto simp: memput_def write_list_def)

lemma memcpy_frame: "inv s L \<Longrightarrow> L p = Some n \<Longrightarrow> 0 \<le> j \<Longrightarrow> j + k \<le> n \<Longrightarrow>
    inv (memcpy (p + j) src k s) L \<and> frame {p} L s L (memcpy (p + j) src k s)"
  by (rule write_frame) (auto simp: memcpy_def copy_region_def)

lemma memset0_frame: "inv s L \<Longrightarrow> L p = Some n \<Longrightarrow> 0 \<le> j \<Longrightarrow> j + k \<le> n \<Longrightarrow>
    inv (memset0 (p + j) k s) L \<and> frame {p} L s L (memset0 (p + j) k s)"
  by (rule write_frame) (auto simp: memset0_def zero_region_def)

end

end
