(* ===== verification/Room.thy ===== *)
theory Room
  imports Client
begin

text \<open>
  How much memory the allocator takes from the operating system: one call of \<open>allocate\<close> maps at most
  two new regions and adds at most two heaps, everything else only moves chunks inside the arena. This
  gives the notion of a heap with room for \<open>k\<close> more allocations, on which clients are shown to
  return.
\<close>

section \<open>Operations that map nothing\<close>

definition same_maps :: "heap_state \<Rightarrow> heap_state \<Rightarrow> bool" where
  "same_maps s s' \<longleftrightarrow> maps s' = maps s \<and> growth (arena s') = growth (arena s)"

lemma same_maps_refl: "same_maps s s" and same_maps_trans: "same_maps s s1 \<Longrightarrow> same_maps s1 s2 \<Longrightarrow> same_maps s s2"
  by (simp_all add: same_maps_def)

lemma same_maps_put [simp]: "same_maps s (put_mem m s)"
  by (simp add: same_maps_def put_mem_def)

lemma unsorted_same: "insert_into_unsortedbin s fc = Some s' \<Longrightarrow> same_maps s s'"
  by (auto simp: insert_into_unsortedbin_def Let_def split: if_splits bind_splits)

lemma small_same: "insert_into_smallbin s fc = Some s' \<Longrightarrow> same_maps s s'"
  by (auto simp: insert_into_smallbin_def Let_def split: if_splits)

lemma large_same: "insert_into_largebin s fc = Some s' \<Longrightarrow> same_maps s s'"
  by (auto simp: insert_into_largebin_def Let_def split: if_splits bind_splits)

lemma fast_same: "same_maps s (insert_into_fastbin s fc)" "fastbin_search s n = (c, s') \<Longrightarrow> same_maps s s'"
  "smallbin_search s n = (c, s') \<Longrightarrow> same_maps s s'"
  by (auto simp: insert_into_fastbin_def fastbin_search_def smallbin_search_def Let_def same_maps_def upd_arena_def put_mem_def growth_def
    split: if_splits)

lemma split_same: "take_or_split s c n = Some s' \<Longrightarrow> same_maps s s'"
proof -
  assume t: "take_or_split s c n = Some s'"
  have "same_maps s s'" if "insert_into_unsortedbin (put_mem m s) r = Some s1" "s' = put_mem m' s1" for m m' r s1
    using unsorted_same [OF that(1)] that(2) by (simp add: same_maps_def put_mem_def)
  then show ?thesis using t by (auto simp: take_or_split_def Let_def same_maps_refl split: if_splits bind_splits)
qed

declare largebin_loop.simps [simp del]

lemma large_loop_same: "largebin_loop s n i = Some (c, s') \<Longrightarrow> same_maps s s'"
proof (induction s n i rule: largebin_loop.induct)
  case (1 s n i)
  have sp: "same_maps s s'" if "take_or_split (put_mem m s) d n = Some s'" for m d
    using split_same [OF that] by (simp add: same_maps_def put_mem_def)
  note u = 1(3) [unfolded largebin_loop.simps [of s n i]]
  show ?case
  proof (cases "64 \<le> i")
    case True
    then show ?thesis using u by (simp add: same_maps_refl)
  next
    case False
    let ?h = "largebins (arena s) ! i"
    have h: "?h \<noteq> NULL" using u False by (auto simp: Let_def split: if_splits)
    show ?thesis
    proof (cases "?h = hmem s (?h + 32)")
      case True
      then show ?thesis using u False h 1(1) [OF False refl h True] by (simp add: Let_def)
    next
      case nh: False
      obtain d where d: "largebin_scan (hmem s) ?h n (hmem s (?h + 32)) = Some d" using u False h nh by (auto simp: Let_def split: bind_splits)
      show ?thesis
      proof (cases "d = NULL")
        case True
        then show ?thesis using u False h nh d 1(2) [OF False refl h nh d True] by (simp add: Let_def)
      next
        case dn: False
        then show ?thesis using u False h nh d sp by (auto simp: Let_def split: bind_splits)
      qed
    qed
  qed
qed

lemma unsorted_loop_same:
  assumes "unsortedbin_loop s h n c = Some r"
  shows "same_maps s (snd r)"
proof (rule unsortedbin_loop.raw_induct [OF _ assms, where P = "\<lambda>s h n c r. same_maps s (snd r)"], goal_cases)
  case (1 loop s h n c r)
  let ?s = "put_mem (unlink_chunk_from_fdlist (hmem s) c) s"
  have 2: "same_maps s s2" if "same_maps ?s s2" for s2 using that by (simp add: same_maps_def put_mem_def)
  show ?case
  proof (cases "c = h")
    case True
    then show ?thesis using 1(2) by (auto simp: same_maps_refl)
  next
    case ch: False
    show ?thesis
    proof (cases "get_usize (hmem ?s) c \<ge> n")
      case True
      then obtain s1 where "take_or_split ?s c n = Some s1" "r = (c, s1)"
        using 1(2) ch by (auto simp: Let_def split: bind_splits)
      then show ?thesis using split_same 2 by auto
    next
      case False
      obtain s1 where s1: "(if get_usize (hmem ?s) c < 16 * SMALLBINS_COUNT then insert_into_smallbin ?s c else insert_into_largebin ?s c) = Some s1"
        "loop s1 h n (hmem s (c + 16)) = Some r"
        using 1(2) ch False unfolding Let_def by (auto split: bind_splits simp del: if_split) 
      have "same_maps ?s s1" using s1(1) small_same large_same by (auto split: if_splits)
      then show ?thesis using 2 1(1) [OF s1(2)] same_maps_trans by blast
    qed
  qed
qed

section \<open>Operations that map\<close>

text \<open>The resources: the mappings and the number of heaps, after at most \<open>k\<close> requests to the system.\<close>

inductive os_steps :: "os \<Rightarrow> nat \<Rightarrow> (addr \<times> int) list \<times> nat \<Rightarrow> (addr \<times> int) list \<times> nat \<Rightarrow> bool" for os where
  none: "os_steps os k r r"
| map: "os_steps os k r (ms, h) \<Longrightarrow> os_mmap os ms l = Some p \<Longrightarrow> 0 < l \<Longrightarrow> l \<le> 2 ^ 41 \<Longrightarrow> h' \<le> Suc h \<Longrightarrow> os_steps os (Suc k) r ((p, l) # ms, h')"
| unmap: "os_steps os k r (ms, h) \<Longrightarrow> os_steps os k r (os_munmap os ms p l, h)"

definition res :: "heap_state \<Rightarrow> (addr \<times> int) list \<times> nat" where
  "res s = (maps s, length (alloced_heaps (arena s)))"

lemma same_maps_res: "same_maps s s' \<Longrightarrow> res s' = res s"
  by (simp add: same_maps_def res_def growth_def)

lemma os_steps_mono: "os_steps os k r r' \<Longrightarrow> k \<le> k' \<Longrightarrow> os_steps os k' r r'"
proof (induction arbitrary: k' rule: os_steps.induct)
  case (map k r ms h l p h')
  then obtain k1 where "k' = Suc k1" "k \<le> k1" by (cases k') auto
  then show ?case using map.IH [of k1] os_steps.map [of os k1 r ms h l p h'] map.hyps by simp
next
  case (none k r)
  show ?case by (rule os_steps.none)
next
  case (unmap k r ms h p l)
  then show ?case using os_steps.unmap by blast
qed

lemma os_steps_trans: "os_steps os k2 r1 r2 \<Longrightarrow> os_steps os k1 r r1 \<Longrightarrow> os_steps os (k1 + k2) r r2"
proof (induction rule: os_steps.induct)
  case (none k r1)
  then show ?case using os_steps_mono [of os k1 r r1 "k1 + k"] by simp
next
  case (map k r1 ms h l p h')
  then show ?case using os_steps.map [of os "k1 + k" r ms h l p h'] by simp
next
  case (unmap k r1 ms h p l)
  then show ?case using os_steps.unmap by blast
qed

lemma one_step: "os_mmap os (maps s) l = Some p \<Longrightarrow> 0 < l \<Longrightarrow> l \<le> 2 ^ 41 \<Longrightarrow>
    maps s' = (p, l) # maps s \<Longrightarrow> length (alloced_heaps (arena s')) \<le> Suc (length (alloced_heaps (arena s))) \<Longrightarrow>
    os_steps os 1 (res s) (res s')"
  using os_steps.map [OF os_steps.none [of os 0 "res s", unfolded res_def], of l p] by (simp add: res_def)

lemma alloc_chunk_steps:
  assumes "alloc_chunk os n s = Some (c, s')" "0 \<le> n" "n < 2 ^ 41 - 32" "n mod 16 = 0"
  shows "os_steps os 1 (res s) (res s')"
proof -
  have l: "align16 (u64 (n + HEADER_SIZE)) = n + 16" using assms(2-4) by simp
  obtain p where p: "os_mmap os (maps s) (n + 16) = Some p" "maps s' = (p, n + 16) # maps s" "arena s' = arena s"
    using assms(1) l by (auto simp: alloc_chunk_def alloc_memory_def Let_def put_mem_def split: option.splits if_splits)
  then show ?thesis using assms(2,3) by (intro one_step [of os s "n + 16" p]) simp_all
qed

lemma grow_heap_steps:
  assumes g: "grow_heap os s = Some s'" and c: "counts_ok (arena s)" and os: "mmap_ok os"
  shows "os_steps os 1 (res s) (res s')" "counts_ok (arena s')"
proof -
  obtain n A where n: "next_heap_size (arena s) = (n, A)" by force
  note ns = next_heap_size_ok [OF c n]
  obtain i j where ij: "A = (arena s)\<lparr>heap_expo_growth_iters := i, heap_constant_growth_iters := j\<rparr>"
    "0 \<le> i" "i \<le> int (length (alloced_heaps (arena s))) + 1" "0 \<le> j" "j \<le> int (length (alloced_heaps (arena s))) + 1"
    using ns(4) by blast
  have n16: "n mod 16 = 0" using ns(2) mod_mod_cancel [of 16 4096 n] by simp
  have al: "alloced_heaps A = alloced_heaps (arena s)" using ij(1) by simp
  have e: "grow_heap os s = (case os_mmap os (maps s) (n + 48) of None \<Rightarrow> None | Some p \<Rightarrow> grow_heap os s)"
    using grow_heap_eq [OF os ns(1) n16 ns(3) n al] by (simp split: option.splits)
  obtain p where p: "os_mmap os (maps s) (n + 48) = Some p" "length (alloced_heaps (arena s)) < 159"
      "maps s' = (p, n + 48) # maps s" "arena s' = A\<lparr>top_chunk := p, alloced_heaps := alloced_heaps A @ [(p, p + n + 16)]\<rparr>"
    using g grow_heap_eq [OF os ns(1) n16 ns(3) n al] by (auto split: option.splits if_splits)
  show "os_steps os 1 (res s) (res s')" using p ns(1,3) al by (intro one_step [OF p(1)]) simp_all
  show "counts_ok (arena s')" using p(2,4) ij by (simp add: counts_ok_def growth_def)
qed

lemma carve_steps:
  assumes c: "carve_from_top_chunk os s n = Some (c, s')" and k: "counts_ok (arena s)" and os: "mmap_ok os"
  shows "os_steps os 1 (res s) (res s')" "counts_ok (arena s')"
proof -
  obtain s1 where s1: "(if top_chunk (arena s) = NULL then grow_heap os s else Some s) = Some s1"
    using c by (auto simp: carve_from_top_chunk_def split: bind_splits)
  have "os_steps os 1 (res s) (res s1)" "counts_ok (arena s1)"
    using s1 grow_heap_steps [of os s s1] k os os_steps.none by (auto split: if_splits)
  moreover have "same_maps s1 s'"
    using c s1 by (auto simp: carve_from_top_chunk_def Let_def same_maps_def upd_arena_def put_mem_def split: if_splits bind_splits)
  ultimately show "os_steps os 1 (res s) (res s')" "counts_ok (arena s')" using same_maps_res [of s1 s'] by (simp_all add: same_maps_def counts_ok_def)
qed

lemma payload_bounds: "0 < n \<Longrightarrow> n < 2 ^ 40 \<Longrightarrow> 0 \<le> payload_size_of n \<and> payload_size_of n < 2 ^ 41 - 32 \<and> payload_size_of n mod 16 = 0"
  using payload_size_of_props [of n] by simp

lemma allocate_steps:
  assumes a: "allocate os n s = Some (p, s')" and k: "counts_ok (arena s)" and os: "mmap_ok os" and n: "0 < n" "n < 2 ^ 40"
  shows "os_steps os 2 (res s) (res s')"
proof -
  show ?thesis
  proof (cases "n = 0")
    case True
    then show ?thesis using a os_steps.none by (auto simp: allocate_def allocate_locked_def)
  next
    case False
    let ?k = "payload_size_of n"
    obtain c1 s1 where 1: "(if ?k \<ge> MMAP_THRESHOLD then alloc_chunk os ?k s else Some (NULL, s)) = Some (c1, s1)"
      using a False by (auto simp: allocate_def allocate_locked_def Let_def split: bind_splits)
    obtain c2 s2 where 2: "(if c1 = NULL \<and> ?k \<le> 16 * FASTBINS_COUNT then fastbin_search s1 ?k else (c1, s1)) = (c2, s2)" by force
    obtain c3 s3 where 3: "(if c2 = NULL \<and> ?k < 16 * SMALLBINS_COUNT then smallbin_search s2 ?k else (c2, s2)) = (c3, s3)" by force
    obtain c4 s4 where 4: "(if c3 = NULL then unsortedbin_search s3 ?k else Some (c3, s3)) = Some (c4, s4)"
      using a False 1 2 3 by (auto simp: allocate_def allocate_locked_def Let_def split: bind_splits)
    obtain c5 s5 where 5: "(if c4 = NULL then largebin_search s4 ?k else Some (c4, s4)) = Some (c5, s5)"
      using a False 1 2 3 4 by (auto simp: allocate_def allocate_locked_def Let_def split: bind_splits)
    obtain c6 s6 where 6: "(if c5 = NULL then carve_from_top_chunk os s5 ?k else Some (c5, s5)) = Some (c6, s6)"
      using a False 1 2 3 4 5 by (auto simp: allocate_def allocate_locked_def Let_def split: bind_splits)
    have e2: "same_maps s1 s2" using 2 fast_same(2) [of s1 ?k c2 s2] same_maps_refl by (auto split: if_splits)
    have e3: "same_maps s2 s3" using 3 fast_same(3) [of s2 ?k c3 s3] same_maps_refl by (auto split: if_splits)
    have e4: "same_maps s3 s4"
    proof (cases "c3 = NULL")
      case True
      then have "unsortedbin_search s3 ?k = Some (c4, s4)" using 4 by simp
      from unsorted_loop_same [OF this [unfolded unsortedbin_search_def Let_def]] show ?thesis by simp
    qed (use 4 same_maps_refl in auto)
    have e5: "same_maps s4 s5"
    proof (cases "c4 = NULL")
      case True
      then show ?thesis using 5 large_loop_same [of s4 ?k _ c5 s5] same_maps_refl by (auto simp: largebin_search_def Let_def split: if_splits)
    qed (use 5 same_maps_refl in auto)
    have e: "same_maps s1 s5" by (rule same_maps_trans [OF same_maps_trans [OF same_maps_trans [OF e2 e3] e4] e5])
    show ?thesis
    proof (cases "c1 = NULL")
      case True
      have s1: "s1 = s"
      proof (cases "?k \<ge> MMAP_THRESHOLD")
        case mm: True
        then show ?thesis using 1 True by (auto simp: alloc_chunk_def Let_def split: if_splits prod.splits)
      qed (use 1 in auto)
      then have k5: "counts_ok (arena s5)" "res s5 = res s" using e k same_maps_res [OF e] by (simp_all add: same_maps_def counts_ok_def)
      have k6: "os_steps os 1 (res s5) (res s6)" "counts_ok (arena s6)"
        using 6 carve_steps [OF _ k5(1) os, of ?k c6 s6] os_steps.none k5(1) by (auto split: if_splits)
      moreover have "os_steps os 1 (res s6) (res s')"
      proof (cases "c6 = NULL")
        case c6: True
        obtain s7 where s7: "insert_into_unsortedbin s6 (top_chunk (arena s6)) = Some s7"
            "\<exists>c. carve_from_top_chunk os (upd_arena (\<lambda>a. a\<lparr>top_chunk := NULL\<rparr>) s7) ?k = Some (c, s')"
          using a False 1 2 3 4 5 6 c6 by (auto simp: allocate_def allocate_locked_def Let_def split: bind_splits)
        define s8 where "s8 = upd_arena (\<lambda>a. a\<lparr>top_chunk := NULL\<rparr>) s7"
        have sm: "same_maps s6 s8" using unsorted_same [OF s7(1)] by (simp add: same_maps_def upd_arena_def s8_def)
        then have "counts_ok (arena s8)" using k6(2) by (simp add: same_maps_def counts_ok_def)
        then show ?thesis using s7(2) [folded s8_def] carve_steps(1) [OF _ _ os, of s8 ?k _ s'] same_maps_res [OF sm] by auto
      next
        case c6: False
        then have "s' = s6" using a False 1 2 3 4 5 6 by (auto simp: allocate_def allocate_locked_def Let_def split: bind_splits)
        then show ?thesis using os_steps.none by simp
      qed
      ultimately show ?thesis using k5(2) os_steps_trans [of os 1 "res s6" "res s'" 1 "res s"] by (simp add: numeral_2_eq_2)
    next
      case c1: False
      have "os_steps os 1 (res s) (res s1)" using 1 c1 alloc_chunk_steps [of os ?k s c1 s1] payload_bounds [OF n] by (auto split: if_splits)
      moreover have "s' = s1" using a False 1 c1 by (auto simp: allocate_def allocate_locked_def Let_def split: bind_splits)
      ultimately show ?thesis using os_steps_mono [of os 1 "res s" "res s'" 2] by simp
    qed
  qed
qed

lemma release_steps: "release os p s = Some s' \<Longrightarrow> os_steps os 0 (res s) (res s')"
proof -
  assume r: "release os p s = Some s'"
  have co: "res s2 = res s" if "coalesce s fc = Some (c, s2)" for fc c s2
    using that by (auto simp: coalesce_def backward_coalesce_def forward_coalesce_def Let_def res_def put_mem_def upd_arena_def
      split: if_splits bind_splits)
  have ins: "res s' = res s" if "coalesce s fc = Some (c, s2)" "insert_into_unsortedbin s2 d = Some s'" for fc c s2 d
    using co [OF that(1)] unsorted_same [OF that(2)] by (simp add: same_maps_res)
  have fast: "res (insert_into_fastbin s c) = res s" for c using fast_same(1) by (rule same_maps_res)
  have un: "os_steps os 0 (res s) (res (s\<lparr>maps := os_munmap os (maps s) fc l\<rparr>))" for fc l
    using os_steps.unmap [OF os_steps.none [of os 0 "res s", unfolded res_def]] by (simp add: res_def)
  show ?thesis
    using r un fast os_steps.none [of os 0 "res s"]
    by (auto simp: release_def release_locked_def Let_def split: if_splits bind_splits) (metis ins, metis co)
qed

section \<open>The interface: an allocator with room\<close>

text \<open>\<open>room s k\<close>: the next \<open>k\<close> allocations succeed, whatever else the client does in between.\<close>

locale roomy_allocator = allocator +
  fixes room :: "heap_state \<Rightarrow> nat \<Rightarrow> bool"
  assumes room_alloc: "inv s L \<Longrightarrow> room s (Suc k) \<Longrightarrow> 0 < n \<Longrightarrow> n < 2 ^ 40 \<Longrightarrow> \<exists>p s'. alloc n s = Some (p, s') \<and> room s' k"
    and room_write: "room (s\<lparr>hmem := m, hbytes := b\<rparr>) k = room s k"
    and room_rel: "rel p s = Some s' \<Longrightarrow> room s k \<Longrightarrow> room s' k"
    and room_less: "room s k \<Longrightarrow> j \<le> k \<Longrightarrow> room s j"
begin

lemma room_writes [simp]: "room (poke a v s) k = room s k" "room (set_byte a v s) k = room s k" "room (memcpy d src n s) k = room s k"
  "room (memput d bs s) k = room s k" "room (memset0 d n s) k = room s k"
  using room_write [where s = s and k = k and m = "(hmem s)(a := v)" and b = "hbytes s"]
    room_write [where s = s and k = k and m = "hmem s" and b = "(hbytes s)(a := v mod 256)"]
    room_write [where s = s and k = k and m = "copy_region d src n (hmem s)" and b = "copy_region d src n (hbytes s)"]
    room_write [where s = s and k = k and m = "hmem s" and b = "write_list d bs (hbytes s)"]
    room_write [where s = s and k = k and m = "zero_region d n (hmem s)" and b = "zero_region d n (hbytes s)"]
  by (simp_all add: poke_def set_byte_def memcpy_def memput_def memset0_def)

end

definition os_room :: "os \<Rightarrow> heap_state \<Rightarrow> nat \<Rightarrow> bool" where
  "os_room os s k \<longleftrightarrow> length (alloced_heaps (arena s)) + 2 * k \<le> 159 \<and>
     (\<forall>j ms h. j < 2 * k \<longrightarrow> os_steps os j (res s) (ms, h) \<longrightarrow> (\<forall>len. 0 < len \<longrightarrow> len \<le> 2 ^ 41 \<longrightarrow> os_mmap os ms len \<noteq> None))"

lemma os_steps_heaps: "os_steps os k r r' \<Longrightarrow> snd r' \<le> snd r + k"
  by (induction rule: os_steps.induct) auto

lemma os_room_step:
  assumes "os_room os s k" "os_steps os (2 * i) (res s) (res s')" "i + j \<le> k"
  shows "os_room os s' j"
  unfolding os_room_def
proof (intro conjI allI impI)
  show "length (alloced_heaps (arena s')) + 2 * j \<le> 159"
    using os_steps_heaps [OF assms(2)] assms(1,3) by (simp add: os_room_def res_def)
  fix l ms h len assume l: "l < 2 * j" "os_steps os l (res s') (ms, h)" and len: "0 < len" "len \<le> (2::int) ^ 41"
  have "os_steps os (2 * i + l) (res s) (ms, h)" by (rule os_steps_trans [OF l(2) assms(2)])
  moreover have "2 * i + l < 2 * k" using l(1) assms(3) by simp
  ultimately show "os_mmap os ms len \<noteq> None" using assms(1) len unfolding os_room_def by blast
qed

lemma os_room_not_oom: "os_room os s (Suc k) \<Longrightarrow> \<not> oom os s"
proof -
  assume r: "os_room os s (Suc k)"
  have "os_steps os 0 (res s) (maps s, length (alloced_heaps (arena s)))" using os_steps.none [of os 0 "res s"] by (simp add: res_def)
  then have "os_mmap os (maps s) len \<noteq> None" if "0 < len" "len \<le> 2 ^ 41" for len
    using r that unfolding os_room_def by (metis less_Suc_eq_0_disj mult_Suc_right add_Suc numeral_2_eq_2)
  then show ?thesis using r by (auto simp: oom_def os_room_def)
qed

interpretation ra: roomy_allocator "allocate os" "release os" "runtime_heap os" "os_room os" for os
proof (unfold_locales, goal_cases)
  case (1 s L k n)
  have "\<not> oom os s" by (rule os_room_not_oom [OF 1(2)])
  then obtain p s' where a: "allocate os n s = Some (p, s')"
    using allocate_none [of s L os n] 1 by (cases "allocate os n s") (auto simp: runtime_heap_def)
  obtain G where "arena_inv s G" using 1(1) by (auto simp: runtime_heap_def heap_inv_def)
  then have "counts_ok (arena s)" by (simp add: arena_inv_def)
  then have "os_steps os 2 (res s) (res s')" using allocate_steps [OF a] 1 by (simp add: runtime_heap_def)
  then have "os_room os s' k" by (intro os_room_step [OF 1(2), of 1]) simp_all
  then show ?case using a by blast
next
  case (2 s m b k)
  show ?case by (simp add: os_room_def res_def)
next
  case (3 p s s' k)
  then show ?case using os_room_step [of os s k 0 s' k] release_steps [of os p s s'] by simp
next
  case (4 s k j)
  then show ?case using os_room_step [of os s k 0 s j] os_steps.none [of os 0 "res s"] by simp
qed

end
