(* ===== verification/AllocProps.thy ===== *)
theory AllocProps
  imports Room
begin

text \<open>
  The allocator's properties: the contract of \<open>allocate\<close>, \<open>release\<close> and \<open>arena_create\<close> in terms of
  live blocks, and the safety of every run of a program that uses them.
\<close>

section \<open>A concrete operating system\<close>

text \<open>
  A bump \<open>mmap\<close> that places each mapping after all existing ones. It shows that the assumptions on
  the operating system can be met, and it is executable.
\<close>

definition demo_end :: "(addr \<times> int) list \<Rightarrow> int" where
  "demo_end ms = foldr (\<lambda>(q, k) e. max e (page_up (q + page_up k))) ms 4096"

definition demo_os :: os where
  "demo_os = \<lparr>page_size = 4096,
     os_mmap = (\<lambda>ms n. let p = demo_end ms in if p + page_up n \<le> 2 ^ 47 then Some p else None),
     os_munmap = (\<lambda>ms p n. filter (\<lambda>e. e \<noteq> (p, n)) ms)\<rparr>"

definition demo_boot :: heap_state where
  "demo_boot = \<lparr>hmem = (\<lambda>_. 0), hbytes = (\<lambda>_. 0),
     arena = \<lparr>fastbins = [], top_chunk = NULL, unsortedbin = NULL, smallbins = [], largebins = [],
              heap_expo_growth_iters = 0, heap_constant_growth_iters = 0, alloced_heaps = []\<rparr>,
     maps = []\<rparr>"

lemma page_up_mod: "page_up n mod 4096 = 0"
  by (simp add: page_up_def)

lemma demo_end_facts: "4096 \<le> demo_end ms" "demo_end ms mod 4096 = 0"
  "(q, k) \<in> set ms \<Longrightarrow> q + page_up k \<le> demo_end ms"
proof -
  show "4096 \<le> demo_end ms" by (induction ms) (auto simp: demo_end_def)
  show "demo_end ms mod 4096 = 0" by (induction ms) (auto simp: demo_end_def page_up_mod max_def)
  show "q + page_up k \<le> demo_end ms" if "(q, k) \<in> set ms"
    using that
  proof (induction ms)
    case (Cons e ms)
    then show ?case using page_up_ge [of "q + page_up k"] by (cases e) (auto simp: demo_end_def)
  qed simp
qed

lemma demo_mmap_ok: "mmap_ok demo_os"
  unfolding mmap_ok_def
proof (intro allI impI)
  fix ms n p assume n: "(0::int) < n" and "os_mmap demo_os ms n = Some p"
  then have p: "p = demo_end ms" "p + page_up n \<le> 2 ^ 47" by (auto simp: demo_os_def Let_def split: if_splits)
  have "area (set ms) \<inter> {p..<p + page_up n} = {}"
    using demo_end_facts(3) [where ms = ms] unfolding area_def p(1) by fastforce
  then show "0 < p \<and> p mod 4096 = 0 \<and> p + page_up n \<le> 2 ^ 47 \<and> area (set ms) \<inter> {p..<p + page_up n} = {}"
    using p demo_end_facts(1,2) [of ms] by simp
qed

lemma demo_munmap_ok: "munmap_ok demo_os"
  by (auto simp: munmap_ok_def demo_os_def)

lemma demo_created: "\<exists>s. arena_create demo_os demo_boot = Some s"
proof -
  have "case arena_create demo_os demo_boot of None \<Rightarrow> False | Some s \<Rightarrow> True" by code_simp
  then show ?thesis by (auto split: option.splits)
qed

lemma demo_not_oom:
  assumes "demo_end (maps s) \<le> 2 ^ 46" "length (alloced_heaps (arena s)) < 159"
  shows "\<not> oom demo_os s"
proof -
  have "page_up len \<le> 2 ^ 41" if "len \<le> 2 ^ 41" for len
    using zdiv_mono1 [OF that [THEN add_right_mono, of 4095], of 4096] by (simp add: page_up_def)
  then show ?thesis using assms by (fastforce simp: oom_def demo_os_def Let_def)
qed

lemma demo_end_filter: "demo_end (filter P ms) \<le> demo_end ms"
  by (induction ms) (auto simp: demo_end_def)

lemma demo_steps: "os_steps demo_os k r r' \<Longrightarrow> demo_end (fst r') \<le> demo_end (fst r) + int k * (2 ^ 41 + 8192)"
proof (induction rule: os_steps.induct)
  case (map k r ms h l p h')
  have p: "p = demo_end ms" using map.hyps(2) by (auto simp: demo_os_def Let_def split: if_splits)
  have u: "page_up x < x + 4096" for x
    using pos_mod_bound [of 4096 "x + 4095"] pos_mod_sign [of 4096 "x + 4095"] minus_mod_eq_mult_div [of "x + 4095" 4096]
    by (simp add: page_up_def)
  have "demo_end ((p, l) # ms) = max (demo_end ms) (page_up (p + page_up l))" by (simp add: demo_end_def)
  also have "\<dots> \<le> demo_end ms + (2 ^ 41 + 8192)" using u [of l] u [of "p + page_up l"] map.hyps p demo_end_facts(1) [of ms] by simp
  finally show ?case using map.IH by (simp add: algebra_simps)
next
  case (unmap k r ms h p l)
  have "demo_end (os_munmap demo_os ms p l) \<le> demo_end ms" by (simp add: demo_os_def demo_end_filter)
  then show ?case using unmap.IH by simp
qed simp

lemma demo_room:
  assumes "demo_end (maps s) \<le> 2 ^ 46" "length (alloced_heaps (arena s)) + 2 * k \<le> 159" "k \<le> 15"
  shows "os_room demo_os s k"
  unfolding os_room_def
proof (intro conjI allI impI)
  show "length (alloced_heaps (arena s)) + 2 * k \<le> 159" by (rule assms)
  fix j ms h len assume j: "j < 2 * k" "os_steps demo_os j (res s) (ms, h)" and len: "0 < len" "len \<le> (2::int) ^ 41"
  have "int j * (2 ^ 41 + 8192) \<le> 30 * (2 ^ 41 + 8192)" using j(1) assms(3) by simp
  then have e: "demo_end ms \<le> 2 ^ 46 + 30 * (2 ^ 41 + 8192)" using demo_steps [OF j(2)] assms(1) by (simp add: res_def)
  have "page_up len \<le> 2 ^ 41" using zdiv_mono1 [OF len(2) [THEN add_right_mono, of 4095], of 4096] by (simp add: page_up_def)
  then show "os_mmap demo_os ms len \<noteq> None" using e by (simp add: demo_os_def Let_def)
qed

lemma demo_heap:
  obtains s where "arena_create demo_os demo_boot = Some s" "runtime_heap demo_os s Map.empty" "\<not> oom demo_os s" "os_room demo_os s 15"
proof -
  have c: "case arena_create demo_os demo_boot of None \<Rightarrow> False
    | Some s \<Rightarrow> demo_end (maps s) \<le> 2 ^ 46 \<and> length (alloced_heaps (arena s)) < 100"
    by code_simp
  then obtain s where s: "arena_create demo_os demo_boot = Some s" "demo_end (maps s) \<le> 2 ^ 46"
    "length (alloced_heaps (arena s)) < 100" by (auto split: option.splits)
  have "page_size demo_os \<in> {4096, 16384, 65536}" by (simp add: demo_os_def)
  then have "runtime_heap demo_os s Map.empty"
    using arena_create_inv [OF demo_mmap_ok _ s(1)] demo_mmap_ok demo_munmap_ok by (simp add: runtime_heap_def)
  moreover have "\<not> oom demo_os s" using demo_not_oom [OF s(2)] s(3) by simp
  moreover have "os_room demo_os s 15" using s by (intro demo_room) simp_all
  ultimately show ?thesis using that s(1) by blast
qed

section \<open>Allocation and release\<close>

text \<open>
  C1: A successful \<open>allocate\<close> returns a 16-byte aligned block of at least the requested size that
  overlaps no live block; the heap invariant holds with the block added to the live blocks, and no
  cell and no byte of a live block has changed.
\<close>

theorem allocate_fresh:
  assumes h: "runtime_heap os s L" and n: "0 < n" "n < 2 ^ 40" and r: "allocate os n s = Some (p, s')"
  shows "runtime_heap os s' (L(p \<mapsto> n)) \<and> L p = None \<and> p mod 16 = 0 \<and> 0 < p \<and> p + n < 2 ^ 62 \<and>
    (\<forall>q k. L q = Some k \<longrightarrow> q + k \<le> p \<or> p + n \<le> q) \<and> keeps L s s'"
proof -
  have a: "runtime_heap os s' (L(p \<mapsto> n))" "L p = None" "keeps L s s'" using al.alloc_law [OF h n r] by simp_all
  have "(L(p \<mapsto> n)) p = Some n" by simp
  note b = al.block_law [OF a(1) this]
  have "q + k \<le> p \<or> p + n \<le> q" if "L q = Some k" for q k
  proof -
    have "(L(p \<mapsto> n)) q = Some k" "q \<noteq> p" using that a(2) by auto
    then show ?thesis using al.apart [OF a(1), of q k p n] by auto
  qed
  then show ?thesis using a b by auto
qed

theorem allocate_fresh_witness:
  "\<exists>s p s'. runtime_heap demo_os s Map.empty \<and> allocate demo_os 100 s = Some (p, s') \<and>
     runtime_heap demo_os s' [p \<mapsto> 100] \<and> p mod 16 = 0"
proof -
  obtain s where s: "runtime_heap demo_os s Map.empty" "\<not> oom demo_os s" by (rule demo_heap)
  have h: "heap_inv s Map.empty" using s(1) by (simp add: runtime_heap_def)
  obtain p s' where r: "allocate demo_os 100 s = Some (p, s')"
    using allocate_none [OF h demo_mmap_ok, of 100] s(2) by (cases "allocate demo_os 100 s") auto
  show ?thesis using allocate_fresh [OF s(1) _ _ r] r s(1) by auto
qed

text \<open>
  C2: \<open>allocate\<close> always returns when the operating system has memory: its searches through the
  linked bins end and no assertion of the code fails. It gives up only when \<open>mmap\<close> fails or the
  table of heaps is full.
\<close>

theorem allocate_returns:
  assumes h: "runtime_heap os s L" and n: "0 < n" "n < 2 ^ 40" and m: "\<not> oom os s"
  shows "\<exists>p s'. allocate os n s = Some (p, s')"
  using allocate_none [OF _ _ n] h m by (cases "allocate os n s") (auto simp: runtime_heap_def)

theorem allocate_returns_witness: "\<exists>s p s'. \<not> oom demo_os s \<and> allocate demo_os 200000 s = Some (p, s')"
proof -
  obtain s where s: "runtime_heap demo_os s Map.empty" "\<not> oom demo_os s" by (rule demo_heap)
  show ?thesis using allocate_returns [OF s(1) _ _ s(2), of 200000] s(2) by auto
qed

text \<open>
  C3: Releasing a live block succeeds, removes exactly this block from the live blocks and keeps the
  contents of all others, for every size but the 32 sizes below \<open>MMAP_THRESHOLD\<close> that
  \<open>releasable\<close> excludes.
\<close>

theorem release_removes:
  assumes h: "runtime_heap os s L" and p: "L p = Some n" "releasable n"
  shows "\<exists>s'. release os p s = Some s' \<and> runtime_heap os s' (L(p := None)) \<and> keeps (L(p := None)) s s'"
  by (rule al.rel_law [OF h p])

theorem release_removes_witness:
  "\<exists>s p s'. runtime_heap demo_os s [p \<mapsto> 1000] \<and> release demo_os p s = Some s' \<and> runtime_heap demo_os s' Map.empty"
proof -
  obtain s0 where s0: "runtime_heap demo_os s0 Map.empty" "\<not> oom demo_os s0" by (rule demo_heap)
  have h: "heap_inv s0 Map.empty" using s0(1) by (simp add: runtime_heap_def)
  obtain p s where r: "allocate demo_os 1000 s0 = Some (p, s)"
    using allocate_none [OF h demo_mmap_ok, of 1000] s0(2) by (cases "allocate demo_os 1000 s0") auto
  have s: "runtime_heap demo_os s [p \<mapsto> 1000]" using al.alloc_law [OF s0(1) _ _ r] by simp
  have "releasable 1000" by (simp add: releasable_def)
  then show ?thesis using release_removes [OF s, of p 1000] s by auto
qed

text \<open>
  A freshly created arena satisfies the invariant, with no live block.
\<close>

theorem arena_create_empty:
  assumes "mmap_ok os" "page_size os \<in> {4096, 16384, 65536}" "arena_create os s0 = Some s"
  shows "heap_inv s Map.empty"
  by (rule arena_create_inv [OF assms])

theorem arena_create_empty_witness:
  "\<exists>s. arena_create demo_os demo_boot = Some s \<and> heap_inv s Map.empty"
proof -
  obtain s where s: "arena_create demo_os demo_boot = Some s" using demo_created by blast
  have "page_size demo_os \<in> {4096, 16384, 65536}" by (simp add: demo_os_def)
  then show ?thesis using arena_create_empty [OF demo_mmap_ok _ s] s by blast
qed

section \<open>Every run of a client\<close>

text \<open>
  A program that creates an arena and then allocates, releases and writes to its blocks in any order, and
  releases no block of 131025 to 131056 bytes: \<open>release\<close> may unmap such a block from the middle of its heap.
\<close>

inductive heap_run :: "os \<Rightarrow> heap_state \<Rightarrow> (addr \<rightharpoonup> int) \<Rightarrow> bool" for os where
  create: "arena_create os s0 = Some s \<Longrightarrow> heap_run os s Map.empty"
| alloc: "heap_run os s L \<Longrightarrow> 0 < n \<Longrightarrow> n < 2 ^ 40 \<Longrightarrow> allocate os n s = Some (p, s') \<Longrightarrow> heap_run os s' (L(p \<mapsto> n))"
| free: "heap_run os s L \<Longrightarrow> L p = Some n \<Longrightarrow> releasable n \<Longrightarrow> release os p s = Some s' \<Longrightarrow>
    heap_run os s' (L(p := None))"
| cell: "heap_run os s L \<Longrightarrow> L p = Some n \<Longrightarrow> 0 \<le> i \<Longrightarrow> i < n \<Longrightarrow>
    heap_run os (s\<lparr>hmem := (hmem s)(p + i := v)\<rparr>) L"
| byte: "heap_run os s L \<Longrightarrow> L p = Some n \<Longrightarrow> 0 \<le> i \<Longrightarrow> i < n \<Longrightarrow>
    heap_run os (s\<lparr>hbytes := (hbytes s)(p + i := v)\<rparr>) L"

lemma heap_run_inv:
  assumes "heap_run os s L" "mmap_ok os" "munmap_ok os" "page_size os \<in> {4096, 16384, 65536}"
  shows "runtime_heap os s L"
  using assms
proof (induction rule: heap_run.induct)
  case (create s0 s)
  then show ?case using arena_create_inv by (simp add: runtime_heap_def)
next
  case (alloc s L n p s')
  then have "runtime_heap os s L" by blast
  from al.alloc_law [OF this alloc(2-4)] show ?case by blast
next
  case (free s L p n s')
  then have "runtime_heap os s L" by blast
  from al.rel_law [OF this free(2,3)] free(4) show ?case by (metis option.inject)
next
  case (cell s L p n i v)
  then show ?case using al.write_cell [of os s L p n i v] by simp
next
  case (byte s L p n i v)
  then show ?case using al.write_bytes_inv [of os s L] by simp
qed

lemma live_mapped:
  assumes "heap_inv s L"
  shows "live_area L \<subseteq> area (set (maps s))"
proof
  fix a assume a: "a \<in> live_area L"
  obtain G where G: "arena_inv s G" "dom L = (\<lambda>c. c + 16) ` (gU G \<union> gM G)" "\<And>p n. L p = Some n \<Longrightarrow> block_ok G p n"
    using assms by (auto simp: heap_inv_def)
  obtain p where p: "p - 16 \<in> gU G \<union> gM G" "a \<in> payload G (p - 16)" using live_region [OF G(2,3) a] by blast
  define u where "u = p - 16"
  note f = live_facts [OF G(1), of u]
  have u: "u \<in> gU G \<union> gM G" "u \<le> a" "a < u + gext G u" using p f(6) by (auto simp: u_def payload_def)
  show "a \<in> area (set (maps s))"
  proof (cases "u \<in> gM G")
    case True
    then have "(u, 16 + gsz G u) \<in> set (maps s)" using G(1) unfolding arena_inv_def ment_def by blast
    then show ?thesis using u f(6) page_up_ge [of "16 + gsz G u"] by (intro area_in [of u "16 + gsz G u"]) simp_all
  next
    case False
    have "minv (hmem s) (arena s) G {}" using G(1) by (simp add: arena_inv_def)
    then have "u \<in> gC G" using False u(1) part_sub(1) [OF minvD(1)] by blast
    then have "a \<in> foot (arena s) G" using u unfolding foot_def by fastforce
    then show ?thesis using G(1) area_mono [of "set (maps s) - ment G" "set (maps s)"] unfolding arena_inv_def by blast
  qed
qed

text \<open>
  C4: In every state a client can reach that releases no block of 131025 to 131056 bytes, any two live blocks are at least a header apart, so no block
  overlaps another or another's header, and all live bytes lie in mapped memory.
\<close>

theorem heap_run_safe:
  assumes "heap_run os s L" "mmap_ok os" "munmap_ok os" "page_size os \<in> {4096, 16384, 65536}"
  shows "(\<forall>p n q k. L p = Some n \<longrightarrow> L q = Some k \<longrightarrow> p \<noteq> q \<longrightarrow> p + n + 16 \<le> q \<or> q + k + 16 \<le> p) \<and>
    live_area L \<subseteq> area (set (maps s))"
proof -
  have h: "runtime_heap os s L" by (rule heap_run_inv [OF assms])
  then have "heap_inv s L" by (simp add: runtime_heap_def)
  then show ?thesis using al.apart [OF h] live_mapped by blast
qed

theorem heap_run_safe_witness:
  "\<exists>s L p q. heap_run demo_os s L \<and> p \<noteq> q \<and> L p = Some 40 \<and> L q = Some 200000 \<and>
     (p + 40 + 16 \<le> q \<or> q + 200000 + 16 \<le> p)"
proof -
  obtain s0 where s0: "arena_create demo_os demo_boot = Some s0" "runtime_heap demo_os s0 Map.empty" "\<not> oom demo_os s0"
    by (rule demo_heap)
  have "case arena_create demo_os demo_boot of None \<Rightarrow> False | Some s0 \<Rightarrow>
     (case allocate demo_os 40 s0 of None \<Rightarrow> False | Some (p, s1) \<Rightarrow>
     (case allocate demo_os 200000 s1 of None \<Rightarrow> False | Some (q, s2) \<Rightarrow> p \<noteq> q))" by code_simp
  then obtain p s1 q s2 where r: "allocate demo_os 40 s0 = Some (p, s1)" "allocate demo_os 200000 s1 = Some (q, s2)" "p \<noteq> q"
    using s0(1) by (auto split: option.splits)
  let ?L = "[p \<mapsto> 40, q \<mapsto> 200000] :: addr \<rightharpoonup> int"
  have run: "heap_run demo_os s2 ?L"
    using heap_run.create [OF s0(1)] r(1,2) by (intro heap_run.alloc [where s = s1] heap_run.alloc [where s = s0]) auto
  have L: "?L p = Some 40" "?L q = Some 200000" using r(3) by simp_all
  have "page_size demo_os \<in> {4096, 16384, 65536}" by (simp add: demo_os_def)
  note safe = heap_run_safe [OF run demo_mmap_ok demo_munmap_ok this]
  then have "p + 40 + 16 \<le> q \<or> q + 200000 + 16 \<le> p" using L r(3) by blast
  then show ?thesis using run L r(3) by blast
qed

text \<open>
  A released fast chunk is the next one handed out: releasing a block whose chunk has at most 112
  payload bytes and allocating that many bytes again returns the same block.
\<close>

theorem fast_reuse:
  assumes h: "heap_inv s L" and p: "L p = Some n" and sz: "get_usize (hmem s) (p - 16) = k" "k \<le> 112"
  shows "\<exists>s1 s2. release os p s = Some s1 \<and> allocate os k s1 = Some (p, s2)"
proof -
  obtain G where G: "arena_inv s G" "dom L = (\<lambda>c. c + 16) ` (gU G \<union> gM G)"
    using h by (auto simp: heap_inv_def)
  define c where "c = p - 16"
  have "p \<in> dom L" using p by auto
  then have cl: "c \<in> gU G \<union> gM G" using G(2) by (auto simp: c_def)
  have mi: "minv (hmem s) (arena s) G {}" using G(1) by (simp add: arena_inv_def)
  note sh = shapeD [OF minvD(1) [OF mi]]
  have gs: "get_size (hmem s) c = gsz G c" "32 \<le> gsz G c" "gsz G c mod 16 = 0"
    using minvD(2) [OF mi] cl sh(5) part_sub(1) [OF minvD(1) [OF mi]] live_facts(4) [OF G(1) cl]
    unfolding hdr_ok_def layout_ok_def by blast+
  then have k: "gsz G c = k" using sz by (simp add: c_def)
  note ix = fast_index [of k] and c0 = live_facts(2) [OF G(1) cl]
  have len: "length (fastbins (arena s)) = 7" using sh(1) by (simp add: bins_ok_def)
  have al: "align16 k = k" using gs k sz by simp
  define s1 where "s1 = insert_into_fastbin s c"
  have r: "release os p s = Some s1"
    using gs k sz c0 by (simp add: release_def release_locked_def Let_def c_def s1_def)
  have s1: "s1 = upd_arena (\<lambda>a. a\<lparr>fastbins := (fastbins a)[nat (k div 16 - 1) := c]\<rparr>)
      (put_mem (unset_curr_inuse ((hmem s)(c + 16 := fastbins (arena s) ! nat (k div 16 - 1))) c) s)"
    using ix gs k sz by (simp add: s1_def insert_into_fastbin_def Let_def put_mem_def upd_arena_def)
  have f: "fastbins (arena s1) ! nat (k div 16 - 1) = c" using s1 len ix(2) gs k sz by simp
  have "fst (fastbin_search s1 k) = c"
    using f c0 ix gs k sz by (simp add: fastbin_search_def Let_def)
  then obtain s2 where "fastbin_search s1 k = (c, s2)" by (cases "fastbin_search s1 k") simp
  then have "allocate os k s1 = Some (c + 16, s2)"
    using al gs k sz c0 by (simp add: allocate_def allocate_locked_def payload_size_of_def Let_def)
  then show ?thesis using r by (auto simp: c_def)
qed

theorem fast_reuse_witness:
  "\<exists>s p s1 s2. heap_inv s [p \<mapsto> 100] \<and> release demo_os p s = Some s1 \<and> allocate demo_os 112 s1 = Some (p, s2)"
proof -
  obtain s0 where s0: "arena_create demo_os demo_boot = Some s0" "runtime_heap demo_os s0 Map.empty" by (rule demo_heap)
  have "case arena_create demo_os demo_boot of None \<Rightarrow> False | Some s0 \<Rightarrow>
     (case allocate demo_os 100 s0 of None \<Rightarrow> False | Some (p, s) \<Rightarrow> get_usize (hmem s) (p - 16) = 112)" by code_simp
  then obtain p s where r: "allocate demo_os 100 s0 = Some (p, s)" "get_usize (hmem s) (p - 16) = 112"
    using s0(1) by (auto split: option.splits)
  have h: "heap_inv s [p \<mapsto> 100]" using al.alloc_law [OF s0(2) _ _ r(1)] by (simp add: runtime_heap_def)
  show ?thesis using fast_reuse [OF h _ r(2), of 100 demo_os] h by auto
qed

end
