(* ===== verification/Queue.thy ===== *)
theory Queue
  imports Client
begin

text \<open>
  The task queues, \<^verbatim>\<open>src/runtime/src/queue.c\<close>: the FIFO run queue \<open>safe_queue_t\<close>, and the
  intrusive circular wait queues \<open>unsafe_queue_t\<close> and \<open>safe_gcqueue_t\<close>. Their nodes are blocks of
  the global arena: a \<open>task_node_t\<close> at \<open>n\<close> has \<open>t\<close> at \<open>n\<close> and \<open>next\<close> at \<open>n + 8\<close>; a
  \<open>wait_q_metadata_t\<close> has \<open>fd\<close> at \<open>n\<close>, \<open>bk\<close> at \<open>n + 8\<close> and \<open>t\<close> at \<open>n + 16\<close>.

  The operations take the allocator's \<open>allocate\<close> and \<open>release\<close> on the global arena as arguments
  \<open>al\<close> and \<open>rl\<close>; the lemmas about them are proved in the locale \<open>allocator\<close> and so hold for the
  arena allocator by its interpretation. A mutex is an integer, 1 while held and 0 while free: unlocking
  subtracts 1, and locking a mutex that is not free does not return (\<open>None\<close>).
\<close>

section \<open>Data\<close>

record safe_queue_t =
  q_head :: addr
  q_tail :: addr
  q_limit :: int
  q_lock :: int

record wait_queue_t =
  wq_head :: addr
  wq_limit :: int
  wq_lock :: int

text \<open>The fields of \<open>task_t\<close> that the queues use, by task address.\<close>

record task_links =
  t_wq :: "addr \<Rightarrow> addr"
  t_gcq :: "addr \<Rightarrow> addr"

definition sizeof_task_node_t :: int where [simp]: "sizeof_task_node_t = 16"
definition sizeof_wait_q_metadata_t :: int where [simp]: "sizeof_wait_q_metadata_t = 24"

datatype 'a blocking = Waits | Returns 'a

definition pthread_lock :: "int \<Rightarrow> int option" where
  "pthread_lock l = (if l = 0 then Some 1 else None)"

definition pthread_unlock :: "int \<Rightarrow> int" where
  "pthread_unlock l = l - 1"

section \<open>The run queue\<close>

definition safe_q_init :: "int \<Rightarrow> safe_queue_t" where
  "safe_q_init sz = \<lparr>q_head = NULL, q_tail = NULL, q_limit = sz, q_lock = 0\<rparr>"

definition safe_q_push ::
  "(int \<Rightarrow> heap_state \<Rightarrow> (addr \<times> heap_state) option) \<Rightarrow> safe_queue_t \<Rightarrow> addr \<Rightarrow> heap_state \<Rightarrow>
   (safe_queue_t \<times> heap_state) option" where
  "safe_q_push al q t s = do {
     (n, s) \<leftarrow> al sizeof_task_node_t s;
     let s = poke (n + 8) NULL (poke n t s);
     l \<leftarrow> pthread_lock (q_lock q);
     let q = q\<lparr>q_lock := l\<rparr>;
     let (q, s) = (if q_tail q = NULL then (q\<lparr>q_head := n, q_tail := n\<rparr>, s)
                   else (q\<lparr>q_tail := n\<rparr>, poke (q_tail q + 8) n s));
     Some (q\<lparr>q_lock := pthread_unlock (q_lock q)\<rparr>, s)
   }"

definition safe_q_pop ::
  "(addr \<Rightarrow> heap_state \<Rightarrow> heap_state option) \<Rightarrow> safe_queue_t \<Rightarrow> heap_state \<Rightarrow>
   (addr \<times> safe_queue_t \<times> heap_state) option" where
  "safe_q_pop rl q s = do {
     l \<leftarrow> pthread_lock (q_lock q);
     let q = q\<lparr>q_lock := l\<rparr>;
     let n = q_head q;
     if n = NULL then Some (NULL, q\<lparr>q_lock := pthread_unlock (q_lock q)\<rparr>, s)
     else do {
       let q = q\<lparr>q_head := hmem s (n + 8)\<rparr>;
       let q = (if q_head q = NULL then q\<lparr>q_tail := NULL\<rparr> else q);
       let q = q\<lparr>q_lock := pthread_unlock (q_lock q)\<rparr>;
       let t = hmem s n;
       s \<leftarrow> rl n s;
       Some (t, q, s)
     }
   }"

text \<open>
  One pass of the blocking pop: an empty queue releases the lock and sleeps on the condition
  variable, and the thread makes another pass when it is woken.
\<close>

definition safe_q_pop_wait ::
  "(addr \<Rightarrow> heap_state \<Rightarrow> heap_state option) \<Rightarrow> safe_queue_t \<Rightarrow> heap_state \<Rightarrow>
   (addr \<times> safe_queue_t \<times> heap_state) blocking option" where
  "safe_q_pop_wait rl q s = do {
     l \<leftarrow> pthread_lock (q_lock q);
     let q = q\<lparr>q_lock := l\<rparr>;
     if q_head q = NULL then Some Waits
     else do {
       let n = q_head q;
       let q = q\<lparr>q_head := hmem s (n + 8)\<rparr>;
       let q = (if q_head q = NULL then q\<lparr>q_tail := NULL\<rparr> else q);
       let q = q\<lparr>q_lock := pthread_unlock (q_lock q)\<rparr>;
       let t = hmem s n;
       s \<leftarrow> rl n s;
       Some (Returns (t, q, s))
     }
   }"

section \<open>The wait queues\<close>

definition unsafe_ioq_init :: "int \<Rightarrow> wait_queue_t" where
  "unsafe_ioq_init sz = \<lparr>wq_head = NULL, wq_limit = sz, wq_lock = 0\<rparr>"

text \<open>Linking \<open>n\<close> in front of the head of a circular list, and taking a node out of one.\<close>

definition ring_push :: "wait_queue_t \<Rightarrow> addr \<Rightarrow> heap_state \<Rightarrow> wait_queue_t \<times> heap_state" where
  "ring_push q n s =
     (if wq_head q = NULL then (q\<lparr>wq_head := n\<rparr>, poke (n + 8) n (poke n n s))
      else let head = wq_head q;
               s = poke n head s;
               s = poke (n + 8) (hmem s (head + 8)) s;
               s = poke (hmem s (head + 8)) n s;
               s = poke (head + 8) n s
           in (q\<lparr>wq_head := n\<rparr>, s))"

definition ring_remove :: "wait_queue_t \<Rightarrow> addr \<Rightarrow> heap_state \<Rightarrow> wait_queue_t \<times> heap_state" where
  "ring_remove q w s =
     (let (q, s) = (if hmem s w = w then (q\<lparr>wq_head := NULL\<rparr>, s)
                    else let s = poke (hmem s w + 8) (hmem s (w + 8)) s;
                             s = poke (hmem s (w + 8)) (hmem s w) s
                         in (if wq_head q = w then q\<lparr>wq_head := hmem s w\<rparr> else q, s))
      in (q, poke (w + 8) NULL (poke w NULL s)))"

definition unsafe_ioq_push ::
  "(int \<Rightarrow> heap_state \<Rightarrow> (addr \<times> heap_state) option) \<Rightarrow> wait_queue_t \<Rightarrow> addr \<Rightarrow> task_links \<Rightarrow> heap_state \<Rightarrow>
   (wait_queue_t \<times> task_links \<times> heap_state) option" where
  "unsafe_ioq_push al q t ts s = do {
     (n, s) \<leftarrow> al sizeof_wait_q_metadata_t s;
     if n = NULL then None
     else do {
       let s = poke (n + 16) t s;
       let ts = ts\<lparr>t_wq := (t_wq ts)(t := n)\<rparr>;
       let (q, s) = ring_push q n s;
       Some (q, ts, s)
     }
   }"

definition unsafe_ioq_remove ::
  "(addr \<Rightarrow> heap_state \<Rightarrow> heap_state option) \<Rightarrow> wait_queue_t \<Rightarrow> addr \<Rightarrow> task_links \<Rightarrow> heap_state \<Rightarrow>
   (int \<times> wait_queue_t \<times> task_links \<times> heap_state) option" where
  "unsafe_ioq_remove rl q t ts s = do {
     let wq = t_wq ts t;
     if wq = NULL \<or> wq_head q = NULL then Some (0, q, ts, s)
     else do {
       let (q, s) = ring_remove q wq s;
       let ts = ts\<lparr>t_wq := (t_wq ts)(t := NULL)\<rparr>;
       s \<leftarrow> rl wq s;
       Some (1, q, ts, s)
     }
   }"

definition safe_gcq_init :: "int \<Rightarrow> wait_queue_t" where
  "safe_gcq_init sz = \<lparr>wq_head = NULL, wq_limit = sz, wq_lock = 0\<rparr>"

definition safe_gcq_push ::
  "(int \<Rightarrow> heap_state \<Rightarrow> (addr \<times> heap_state) option) \<Rightarrow> wait_queue_t \<Rightarrow> addr \<Rightarrow> task_links \<Rightarrow> heap_state \<Rightarrow>
   (wait_queue_t \<times> task_links \<times> heap_state) option" where
  "safe_gcq_push al q t ts s = do {
     (n, s) \<leftarrow> al sizeof_wait_q_metadata_t s;
     if n = NULL then None
     else do {
       let s = poke (n + 16) t s;
       let ts = ts\<lparr>t_gcq := (t_gcq ts)(t := n)\<rparr>;
       l \<leftarrow> pthread_lock (wq_lock q);
       let q = q\<lparr>wq_lock := l\<rparr>;
       let (q, s) = ring_push q n s;
       Some (q\<lparr>wq_lock := pthread_unlock (wq_lock q)\<rparr>, ts, s)
     }
   }"

text \<open>
  The early return keeps the lock, and removing the only element unlocks twice, as in the source.
\<close>

definition safe_gcq_remove ::
  "(addr \<Rightarrow> heap_state \<Rightarrow> heap_state option) \<Rightarrow> wait_queue_t \<Rightarrow> addr \<Rightarrow> task_links \<Rightarrow> heap_state \<Rightarrow>
   (int \<times> wait_queue_t \<times> task_links \<times> heap_state) option" where
  "safe_gcq_remove rl q t ts s = do {
     l \<leftarrow> pthread_lock (wq_lock q);
     let q = q\<lparr>wq_lock := l\<rparr>;
     let gcq = t_gcq ts t;
     if gcq = NULL \<or> wq_head q = NULL then Some (0, q, ts, s)
     else do {
       let q = (if hmem s gcq = gcq then q\<lparr>wq_lock := pthread_unlock (wq_lock q)\<rparr> else q);
       let (q, s) = ring_remove q gcq s;
       let ts = ts\<lparr>t_gcq := (t_gcq ts)(t := NULL)\<rparr>;
       let q = q\<lparr>wq_lock := pthread_unlock (wq_lock q)\<rparr>;
       s \<leftarrow> rl gcq s;
       Some (1, q, ts, s)
     }
   }"

section \<open>The run queue as a list\<close>

fun qchain :: "mem \<Rightarrow> addr \<Rightarrow> addr list \<Rightarrow> bool" where
  "qchain m p [] \<longleftrightarrow> p = 0"
| "qchain m p (n # ns) \<longleftrightarrow> p = n \<and> qchain m (m (n + 8)) ns"

definition safe_q_rep :: "heap_state \<Rightarrow> (addr \<rightharpoonup> int) \<Rightarrow> safe_queue_t \<Rightarrow> addr list \<Rightarrow> bool" where
  "safe_q_rep s L q ns \<longleftrightarrow> qchain (hmem s) (q_head q) ns \<and> q_tail q = (if ns = [] then 0 else last ns) \<and>
     distinct ns \<and> (\<forall>n\<in>set ns. L n = Some 16) \<and> q_lock q = 0"

definition tasks_of :: "heap_state \<Rightarrow> addr list \<Rightarrow> addr list" where
  "tasks_of s ns = map (hmem s) ns"

lemma qchain_cong: "(\<And>n. n \<in> set ns \<Longrightarrow> m' (n + 8) = m (n + 8)) \<Longrightarrow> qchain m' p ns = qchain m p ns"
  by (induction ns arbitrary: p) auto

lemma qchain_append:
  "qchain m p (ns @ [n]) \<longleftrightarrow> (if ns = [] then p = n else qchain (m(last ns + 8 := 0)) p ns \<and> m (last ns + 8) = n)
     \<and> m (n + 8) = 0" if "distinct (map (\<lambda>x. x + 8) ns)"
  using that
proof (induction ns arbitrary: p)
  case (Cons x ns)
  show ?case
  proof (cases "ns = []")
    case False
    then have "x \<noteq> last ns" using Cons.prems by auto
    then show ?thesis using Cons False by auto
  qed auto
qed auto

context allocator
begin

lemma safe_q_push_rep:
  assumes i: "inv s L" and r: "safe_q_rep s L q ns" and p: "safe_q_push alloc q t s = Some (q', s')"
  obtains n where "inv s' (L(n \<mapsto> 16))" "L n = None" "safe_q_rep s' (L(n \<mapsto> 16)) q' (ns @ [n])"
    "tasks_of s' (ns @ [n]) = tasks_of s ns @ [t]" "frame (set ns) L s (L(n \<mapsto> 16)) s'"
proof -
  obtain n s1 where n: "alloc 16 s = Some (n, s1)" using p by (auto simp: safe_q_push_def split: bind_splits)
  have sz: "(0::int) < 16" "(16::int) < 2 ^ 40" by simp_all
  note a = alloc_cells [OF i sz n]
  let ?s2 = "poke (n + 8) 0 (poke n t s1)"
  define L1 where "L1 = L(n \<mapsto> 16)"
  note a = a [folded L1_def]
  have Ln: "L1 n = Some 16" by (simp add: L1_def)
  have nodes: "L1 x = Some 16" if "x \<in> set (ns @ [n])" for x using that r by (auto simp: safe_q_rep_def L1_def)
  have ne: "n \<notin> set ns" using a(2) r by (auto simp: safe_q_rep_def)
  have i2: "inv ?s2 L1" using poke_inv [OF poke_inv [OF a(1) Ln, of 0 t] Ln, of 8 0] by simp
  have f2: "frame {} L s L1 ?s2"
  proof -
    have "frame {n} L1 s1 L1 (poke n t s1)" "frame {n} L1 (poke n t s1) L1 ?s2"
      using poke_frame [OF a(1) Ln, of 0 t] poke_frame [OF poke_inv [OF a(1) Ln, of 0 t] Ln, of 8 0] by simp_all
    from frame_trans [OF alloc_frame(3) [OF i sz n, folded L1_def] frame_trans [OF this]] show ?thesis by (rule frame_drop) (use a(2) in auto)
  qed
  have cell: "x + j = y + l \<longleftrightarrow> x = y \<and> j = l"
    if "x \<in> set (ns @ [n])" "y \<in> set (ns @ [n])" "0 \<le> j" "j < 16" "0 \<le> l" "l < 16" for x y j l
  proof (cases "x = y")
    case False
    then show ?thesis using other_block [OF a(1) nodes nodes, of x y j l] that by auto
  qed simp
  have old: "hmem s1 (x + j) = hmem s (x + j)" if "x \<in> set ns" "0 \<le> j" "j < 16" for x j
    using a(3) [of x 16 j] that r by (auto simp: safe_q_rep_def)
  have k2: "hmem ?s2 (x + j) = (if x = n then if j = 0 then t else 0 else hmem s (x + j))"
    if "x \<in> set (ns @ [n])" "j \<in> {0, 8}" for x j
    using that old [of x j] cell [of x n j 0] cell [of x n j 8] by auto
  have lk: "q_lock q = 0" using r by (simp add: safe_q_rep_def)
  show ?thesis
  proof (cases "ns = []")
    case True
    then have e: "q' = q\<lparr>q_lock := 0, q_head := n, q_tail := n\<rparr>" "s' = ?s2"
      using p n lk r by (auto simp: safe_q_push_def safe_q_rep_def pthread_lock_def pthread_unlock_def Let_def)
    show ?thesis using that [of n] i2 a(2) e True k2 [of n 0] k2 [of n 8] f2
      by (auto simp: safe_q_rep_def tasks_of_def L1_def)
  next
    case False
    define tl where "tl = last ns"
    have tl: "tl \<in> set ns" "q_tail q = tl" using False r by (auto simp: tl_def safe_q_rep_def)
    have L0: "L1 tl = Some 16" using nodes tl by simp
    have tl0: "tl \<noteq> 0" using block_law [OF i2 L0] by simp
    have e: "q' = q\<lparr>q_lock := 0, q_tail := n\<rparr>" "s' = poke (tl + 8) n ?s2"
      using p n lk tl tl0 by (auto simp: safe_q_push_def pthread_lock_def pthread_unlock_def Let_def)
    have i3: "inv s' L1" unfolding e by (rule poke_inv [OF i2 L0]) simp_all
    have k3: "hmem s' (x + j) = (if x = n then if j = 0 then t else 0 else if x = tl \<and> j = 8 then n else hmem s (x + j))"
      if "x \<in> set (ns @ [n])" "j \<in> {0, 8}" for x j
      using that k2 [OF that] cell [of x tl j 8] tl ne unfolding e by auto
    have d8: "distinct (map (\<lambda>x. x + 8) ns)" using r by (simp add: safe_q_rep_def distinct_map inj_on_def)
    have "qchain ((hmem s')(tl + 8 := 0)) (q_head q) ns = qchain (hmem s) (q_head q) ns"
    proof -
      have "hmem s (tl + 8) = 0"
      proof -
        obtain ms where ms: "ns = ms @ [tl]" using False by (metis append_butlast_last_id tl_def)
        have "distinct (map (\<lambda>x. x + 8) ms)" using d8 ms by simp
        then show ?thesis using r qchain_append [of ms "hmem s" "q_head q" tl] ms by (simp add: safe_q_rep_def)
      qed
      then show ?thesis using k3 [where j = 8] ne by (intro qchain_cong) auto
    qed
    then have "qchain (hmem s') (q_head q) (ns @ [n])"
      using qchain_append [OF d8, of "hmem s'" "q_head q" n] False r k3 [of tl 8] k3 [of n 8] tl ne
      by (auto simp: tl_def safe_q_rep_def)
    then have "safe_q_rep s' L1 q' (ns @ [n])" using r e nodes ne by (auto simp: safe_q_rep_def)
    moreover have "tasks_of s' (ns @ [n]) = tasks_of s ns @ [t]"
      using k3 [where j = 0] ne by (auto simp: tasks_of_def)
    moreover have "frame (set ns) L s L1 s'"
      using frame_trans [OF f2 conjunct2 [OF poke_frame [OF i2 L0, of 8 n]]] unfolding e by (rule frame_drop) (use tl in auto)
    ultimately show ?thesis using that i3 a(2) unfolding L1_def by blast
  qed
qed

lemma safe_q_pop_rep:
  assumes i: "inv s L" and r: "safe_q_rep s L q (n # ns)"
  obtains q' s' where "safe_q_pop rel q s = Some (hmem s n, q', s')" "inv s' (L(n := None))"
    "safe_q_rep s' (L(n := None)) q' ns" "tasks_of s' ns = tasks_of s ns" "frame {n} L s (L(n := None)) s'"
proof -
  have L: "L n = Some 16" and ns: "\<And>x. x \<in> set ns \<Longrightarrow> L x = Some 16 \<and> x \<noteq> n" and lk: "q_lock q = 0" and hd: "q_head q = n"
    and ch: "qchain (hmem s) (hmem s (n + 8)) ns" and tl: "q_tail q = last (n # ns)"
    using r by (auto simp: safe_q_rep_def)
  have n0: "n \<noteq> 0" using block_law [OF i L] by simp
  obtain s' where s': "rel n s = Some s'" "inv s' (L(n := None))" "frame {n} L s (L(n := None)) s'"
    using rel_frame [OF i L] by (auto simp: releasable_def)
  have keep: "hmem s' (q + i) = hmem s (q + i)" if "q \<noteq> n" "L q = Some k" "0 \<le> i" "i < k" for q k i
    using frameD(2) [OF s'(3) that(2)] that by simp
  have nx: "hmem s (n + 8) = 0 \<longleftrightarrow> ns = []"
    using ch ns block_law [OF i, of "hd ns" 16] by (cases ns) auto
  define q' where "q' = q\<lparr>q_head := hmem s (n + 8), q_tail := (if ns = [] then 0 else q_tail q)\<rparr>"
  have "safe_q_pop rel q s = Some (hmem s n, q', s')"
    using lk hd n0 s'(1) nx by (auto simp: safe_q_pop_def pthread_lock_def pthread_unlock_def Let_def q'_def)
  moreover have "qchain (hmem s') (hmem s (n + 8)) ns" using ch keep ns qchain_cong [of ns "hmem s'" "hmem s"] by fastforce
  then have "safe_q_rep s' (L(n := None)) q' ns"
    using r ns tl lk by (auto simp: safe_q_rep_def q'_def)
  moreover have "tasks_of s' ns = tasks_of s ns" using keep [where i = 0] ns by (fastforce simp: tasks_of_def)
  ultimately show ?thesis using that s'(2,3) by blast
qed

lemma safe_q_pop_empty:
  assumes "safe_q_rep s L q []"
  shows "safe_q_pop rel q s = Some (0, q, s)" "safe_q_pop_wait rel q s = Some Waits"
  using assms by (simp_all add: safe_q_rep_def safe_q_pop_def safe_q_pop_wait_def pthread_lock_def pthread_unlock_def Let_def)

lemma safe_q_pop_wait_eq:
  assumes "safe_q_rep s L q (n # ns)" "inv s L"
  shows "safe_q_pop_wait rel q s = map_option Returns (safe_q_pop rel q s)"
proof -
  have "q_head q = n" "L n = Some 16" using assms(1) by (auto simp: safe_q_rep_def)
  then have "q_head q \<noteq> 0" using block_law [OF assms(2), of n 16] by auto
  then show ?thesis
    by (simp add: safe_q_pop_wait_def safe_q_pop_def Let_def split: bind_splits)
qed

end

section \<open>First in, first out\<close>

text \<open>The interface of a task queue, and what a client gets from it.\<close>

fun run_enq :: "(addr \<Rightarrow> 'q \<Rightarrow> 'q option) \<Rightarrow> addr list \<Rightarrow> 'q \<Rightarrow> 'q option" where
  "run_enq enq [] q = Some q"
| "run_enq enq (t # ts) q = do { q \<leftarrow> enq t q; run_enq enq ts q }"

fun run_deq :: "('q \<Rightarrow> (addr \<times> 'q) option) \<Rightarrow> nat \<Rightarrow> 'q \<Rightarrow> (addr list \<times> 'q) option" where
  "run_deq deq 0 q = Some ([], q)"
| "run_deq deq (Suc k) q = do { (t, q) \<leftarrow> deq q; (ts, q) \<leftarrow> run_deq deq k q; Some (t # ts, q) }"

locale fifo =
  fixes enq :: "addr \<Rightarrow> 'q \<Rightarrow> 'q option"
    and deq :: "'q \<Rightarrow> (addr \<times> 'q) option"
    and holds :: "'q \<Rightarrow> addr list \<Rightarrow> bool"
  assumes enq_law: "holds q xs \<Longrightarrow> enq t q = Some q' \<Longrightarrow> holds q' (xs @ [t])"
    and deq_law: "holds q (x # xs) \<Longrightarrow> \<exists>q'. deq q = Some (x, q') \<and> holds q' xs"
    and deq_empty: "holds q [] \<Longrightarrow> deq q = Some (0, q)"
begin

lemma run_enq_holds: "holds q xs \<Longrightarrow> run_enq enq ts q = Some q' \<Longrightarrow> holds q' (xs @ ts)"
proof (induction ts arbitrary: q xs)
  case (Cons t ts)
  then obtain q1 where "enq t q = Some q1" "run_enq enq ts q1 = Some q'" by (auto split: bind_splits)
  then show ?case using Cons.IH [of q1 "xs @ [t]"] enq_law [OF Cons.prems(1)] by simp
qed simp

lemma run_deq_holds: "holds q (ts @ xs) \<Longrightarrow> \<exists>q'. run_deq deq (length ts) q = Some (ts, q') \<and> holds q' xs"
proof (induction ts arbitrary: q)
  case (Cons t ts)
  then obtain q1 where q1: "deq q = Some (t, q1)" "holds q1 (ts @ xs)" using deq_law [of q t "ts @ xs"] by auto
  then show ?case using Cons.IH [OF q1(2)] by auto
qed simp

lemma in_order: "holds q [] \<Longrightarrow> run_enq enq ts q = Some q' \<Longrightarrow> \<exists>q''. run_deq deq (length ts) q' = Some (ts, q'') \<and> holds q'' []"
  using run_enq_holds [of q "[]" ts q'] run_deq_holds [of q' ts "[]"] by simp

end

definition q_enq :: "os \<Rightarrow> addr \<Rightarrow> safe_queue_t \<times> heap_state \<Rightarrow> (safe_queue_t \<times> heap_state) option" where
  "q_enq os t st = safe_q_push (allocate os) (fst st) t (snd st)"

definition q_deq :: "os \<Rightarrow> safe_queue_t \<times> heap_state \<Rightarrow> (addr \<times> (safe_queue_t \<times> heap_state)) option" where
  "q_deq os st = safe_q_pop (release os) (fst st) (snd st)"

text \<open>
  The live blocks of a heap that a queue with the nodes \<open>ns\<close> was built in, and the queue as a list: its nodes are
  the only blocks besides those of \<open>L\<close>, which have the contents they had in \<open>s\<close>.
\<close>

definition add_nodes :: "(addr \<rightharpoonup> int) \<Rightarrow> addr list \<Rightarrow> addr \<rightharpoonup> int" where
  "add_nodes L ns = (\<lambda>p. if p \<in> set ns then Some 16 else L p)"

definition q_holds :: "os \<Rightarrow> (addr \<rightharpoonup> int) \<Rightarrow> heap_state \<Rightarrow> safe_queue_t \<times> heap_state \<Rightarrow> addr list \<Rightarrow> bool" where
  "q_holds os L s st ts \<longleftrightarrow> (\<exists>ns. set ns \<inter> dom L = {} \<and> runtime_heap os (snd st) (add_nodes L ns) \<and>
     safe_q_rep (snd st) (add_nodes L ns) (fst st) ns \<and> tasks_of (snd st) ns = ts \<and> frame {} L s L (snd st))"

lemma add_nodes_frame: "set ns \<inter> dom L = {} \<Longrightarrow> B \<subseteq> set ns \<Longrightarrow> frame B (add_nodes L ns) s L' s' \<Longrightarrow> frame {} L s L s'"
  unfolding frame_def add_nodes_def by (metis disjoint_iff domI subsetD)

interpretation run_queue: fifo "q_enq os" "q_deq os" "q_holds os L s" for os L s
proof (unfold_locales, goal_cases)
  case (1 q xs t q')
  obtain ns where r: "set ns \<inter> dom L = {}" "runtime_heap os (snd q) (add_nodes L ns)" "safe_q_rep (snd q) (add_nodes L ns) (fst q) ns"
    "tasks_of (snd q) ns = xs" "frame {} L s L (snd q)"
    using 1(1) by (auto simp: q_holds_def)
  have "safe_q_push (allocate os) (fst q) t (snd q) = Some (fst q', snd q')" using 1(2) by (simp add: q_enq_def)
  from al.safe_q_push_rep [OF r(2,3) this] obtain n where n: "runtime_heap os (snd q') ((add_nodes L ns)(n \<mapsto> 16))" "add_nodes L ns n = None"
    "safe_q_rep (snd q') ((add_nodes L ns)(n \<mapsto> 16)) (fst q') (ns @ [n])" "tasks_of (snd q') (ns @ [n]) = xs @ [t]"
    "frame (set ns) (add_nodes L ns) (snd q) ((add_nodes L ns)(n \<mapsto> 16)) (snd q')" using r(4) by metis
  have e: "(add_nodes L ns)(n \<mapsto> 16) = add_nodes L (ns @ [n])" by (auto simp: add_nodes_def)
  have "set (ns @ [n]) \<inter> dom L = {}" using n(2) r(1) by (auto simp: add_nodes_def split: if_splits)
  moreover have "frame {} L s L (snd q')" using frame_trans [OF r(5) add_nodes_frame [OF r(1) subset_refl n(5)]] by simp
  ultimately show ?case using n(1,3,4) unfolding e q_holds_def by blast
next
  case (2 q x xs)
  obtain ns where r: "set ns \<inter> dom L = {}" "runtime_heap os (snd q) (add_nodes L ns)" "safe_q_rep (snd q) (add_nodes L ns) (fst q) ns"
    "tasks_of (snd q) ns = x # xs" "frame {} L s L (snd q)"
    using 2 by (auto simp: q_holds_def)
  obtain n ms where n: "ns = n # ms" "hmem (snd q) n = x" "tasks_of (snd q) ms = xs" using r(4) by (cases ns) (auto simp: tasks_of_def)
  obtain q' s' where p: "safe_q_pop (release os) (fst q) (snd q) = Some (hmem (snd q) n, q', s')"
    "runtime_heap os s' ((add_nodes L ns)(n := None))" "safe_q_rep s' ((add_nodes L ns)(n := None)) q' ms" "tasks_of s' ms = tasks_of (snd q) ms"
    "frame {n} (add_nodes L ns) (snd q) ((add_nodes L ns)(n := None)) s'"
    using al.safe_q_pop_rep [OF r(2)] r(3) n(1) by blast
  have e: "(add_nodes L ns)(n := None) = add_nodes L ms" using r(1,3) n(1) by (auto simp: add_nodes_def safe_q_rep_def fun_eq_iff)
  have "frame {} L s L s'" using frame_trans [OF r(5) add_nodes_frame [OF r(1) _ p(5)]] by (simp add: n(1))
  then have "q_holds os L s (q', s') xs" using p(2,3,4) n r(1) unfolding e q_holds_def by auto
  then show ?case using p(1) n(2) by (auto simp: q_deq_def)
next
  case (3 q)
  then have "safe_q_rep (snd q) L (fst q) []" by (auto simp: q_holds_def tasks_of_def add_nodes_def)
  then show ?case using al.safe_q_pop_empty(1) by (simp add: q_deq_def)
qed

lemma q_init_holds: "runtime_heap os s L \<Longrightarrow> q_holds os L s (safe_q_init lim, s) []"
  unfolding q_holds_def by (intro exI [of _ "[]"]) (simp add: safe_q_rep_def safe_q_init_def tasks_of_def add_nodes_def frame_refl)

text \<open>An empty queue has left nothing in the heap.\<close>

lemma q_empty_heap: "q_holds os L s q [] \<Longrightarrow> runtime_heap os (snd q) L \<and> frame {} L s L (snd q) \<and> q_head (fst q) = 0 \<and> q_tail (fst q) = 0"
  by (auto simp: q_holds_def tasks_of_def add_nodes_def safe_q_rep_def)

section \<open>The wait queues as lists\<close>

lemma ring_rotate: "ring m f b h (xs @ x # ys) = ring m f b x (ys @ h # xs)"
  by (auto simp: ring_def seg_append)

definition wait_rep :: "heap_state \<Rightarrow> (addr \<rightharpoonup> int) \<Rightarrow> wait_queue_t \<Rightarrow> addr list \<Rightarrow> bool" where
  "wait_rep s L q ns \<longleftrightarrow> (case ns of [] \<Rightarrow> wq_head q = 0 | h # xs \<Rightarrow> wq_head q = h \<and> ring (hmem s) 0 8 h xs) \<and>
     distinct ns \<and> (\<forall>n\<in>set ns. L n = Some 24)"

definition wait_tasks :: "heap_state \<Rightarrow> addr list \<Rightarrow> addr list" where
  "wait_tasks s ns = map (\<lambda>n. hmem s (n + 16)) ns"

context allocator
begin

lemma nodes_spaced:
  assumes "inv s L" "\<And>n. n \<in> S \<Longrightarrow> L n = Some 24"
  shows "spaced 24 S"
  unfolding spaced_def
proof (intro ballI impI)
  fix p q assume "p \<in> S" "q \<in> S" "p < q"
  then show "p + 24 \<le> q" using apart_law [OF assms(1) assms(2) assms(2), of p q] by simp
qed

lemma nodes_frame:
  assumes i: "inv s L" and B: "\<And>n. n \<in> B \<Longrightarrow> L n = Some 24" and b: "hbytes s' = hbytes s"
    and m: "\<And>a. hmem s' a \<noteq> hmem s a \<Longrightarrow> \<exists>n\<in>B. n \<le> a \<and> a < n + 24"
  shows "frame B L s L s'"
proof -
  have "hmem s' (q + j) = hmem s (q + j)" if q: "L q = Some k" "q \<notin> B" "0 \<le> j" "j < k" for q k j
  proof (rule ccontr)
    assume "hmem s' (q + j) \<noteq> hmem s (q + j)"
    then obtain n where n: "n \<in> B" "n \<le> q + j" "q + j < n + 24" using m by blast
    then show False using other_block [OF i q(1) B [OF n(1)], of j "q + j - n"] q by auto
  qed
  then show ?thesis using b by (simp add: frame_def)
qed

lemma ring_push_rep:
  assumes i: "inv s L" and r: "wait_rep s L q ns" and n: "L n = Some 24" "n \<notin> set ns" "ring_push q n s = (q', s')"
  shows "inv s' L" "wait_rep s' L q' (n # ns)" "wait_tasks s' (n # ns) = wait_tasks s (n # ns)" "wq_lock q' = wq_lock q"
    "frame (insert n (set ns)) L s L s'"
proof -
  have L: "L x = Some 24" if "x \<in> set (n # ns)" for x using that r n by (auto simp: wait_rep_def)
  have sp: "spaced 24 (set (n # ns))" by (rule nodes_spaced [OF i L])
  note cell = spaced_cell [OF sp]
  have all: "inv s' L \<and> wait_rep s' L q' (n # ns) \<and> wait_tasks s' (n # ns) = wait_tasks s (n # ns) \<and> wq_lock q' = wq_lock q \<and>
    frame (insert n (set ns)) L s L s'"
  proof (cases ns)
    case Nil
    then have e: "q' = q\<lparr>wq_head := n\<rparr>" "s' = poke (n + 8) n (poke n n s)"
      using n(3) r by (auto simp: ring_push_def wait_rep_def)
    have "inv s' L" unfolding e using poke_inv [OF poke_inv [OF i n(1), of 0 n] n(1), of 8 n] by simp
    moreover have "frame (insert n (set ns)) L s L s'" by (rule nodes_frame [OF i]) (use Nil n(1) in \<open>auto simp: e split: if_splits\<close>)
    ultimately show ?thesis using e Nil n(1) by (simp add: wait_rep_def wait_tasks_def ring_def)
  next
    case (Cons h xs)
    let ?m = "hmem s" and ?p = "last (h # xs)"
    have h: "wq_head q = h" "ring ?m 0 8 h xs" using r Cons by (auto simp: wait_rep_def)
    have h0: "h \<noteq> 0" using block_law [OF i L, of h] Cons by simp
    have bk: "?m (h + 8) = ?p" using ring_last [OF h(2)] .
    have mem: "h \<in> set (n # ns)" "?p \<in> set (n # ns)" "h \<noteq> n" "?p \<noteq> n"
      using Cons n(2) last_in_set [of "h # xs"] by auto
    have c1: "h + 8 \<noteq> n" "h + 8 \<noteq> n + 8" "h + 8 \<noteq> ?p" using cell [of h n 8 0] cell [of h n 8 8] cell [of h ?p 8 0] mem by simp_all
    have e: "q' = q\<lparr>wq_head := n\<rparr>" "s' = poke (h + 8) n (poke ?p n (poke (n + 8) ?p (poke n h s)))"
      using n(3) h(1) h0 bk c1 by (auto simp: ring_push_def Let_def)
    have lk: "hmem s' = link_between ?m 0 8 ?p n h"
      using c1 by (simp add: e link_between_def fun_upd_twist)
    have i': "inv s' L" unfolding e
      using poke_inv [OF poke_inv [OF poke_inv [OF poke_inv [OF i n(1), of 0 h] n(1), of 8 ?p] L [OF mem(2)], of 0 n] L [OF mem(1)], of 8 n]
      by simp
    have "ring (link_between ?m 0 8 (last (h # xs)) n (hd ([] @ [h]))) 0 8 h (xs @ n # [])"
      using r n(2) h(2) Cons by (intro ring_link_between [OF sp]) (auto simp: wait_rep_def)
    then have "ring (hmem s') 0 8 n (h # xs)" using ring_rotate [of "hmem s'" 0 8 h xs n "[]"] lk by simp
    then have "wait_rep s' L q' (n # ns)" using r n Cons e by (simp add: wait_rep_def)
    moreover have "wait_tasks s' (n # ns) = wait_tasks s (n # ns)"
    proof -
      have "hmem s' (x + 16) = ?m (x + 16)" if "x \<in> set (n # ns)" for x
        using that mem cell [of x n 16 0] cell [of x n 16 8] cell [of x h 16 8] cell [of x ?p 16 0]
        unfolding lk by (simp add: link_between_def)
      then show ?thesis by (simp add: wait_tasks_def)
    qed
    moreover have "frame (insert n (set ns)) L s L s'"
    proof (rule nodes_frame [OF i])
      fix a assume "hmem s' a \<noteq> hmem s a"
      then have "a \<in> {n, n + 8, ?p, h + 8}" unfolding lk by (auto simp: link_between_def split: if_splits)
      then show "\<exists>m\<in>insert n (set ns). m \<le> a \<and> a < m + 24" using mem Cons by fastforce
    qed (use L in \<open>auto simp: e\<close>)
    ultimately show ?thesis using i' e by simp
  qed
  then show "inv s' L" "wait_rep s' L q' (n # ns)" "wait_tasks s' (n # ns) = wait_tasks s (n # ns)" "wq_lock q' = wq_lock q"
    "frame (insert n (set ns)) L s L s'" by simp_all
qed

end

context allocator
begin

lemma ring_remove_memory:
  assumes i: "inv s L" and r: "wait_rep s L q ns" and w: "w \<in> set ns" "2 \<le> length ns" and rm: "ring_remove q w s = (q', s')"
  shows "hmem s' = unlink_node (hmem s) 0 8 w" "inv s' L" "wq_head q' = (if wq_head q = w then hmem s w else wq_head q)"
    "wq_lock q' = wq_lock q" "hmem s w \<in> set ns" "hmem s (w + 8) \<in> set ns"
proof -
  have L: "L x = Some 24" if "x \<in> set ns" for x using that r by (auto simp: wait_rep_def)
  have sp: "spaced 24 (set ns)" by (rule nodes_spaced [OF i L])
  note cell = spaced_cell [OF sp]
  obtain h xs where ns: "ns = h # xs" "xs \<noteq> []" using w(2) by (cases ns; cases "tl ns"; simp)
  have rg: "ring (hmem s) 0 8 h xs" and d: "distinct (h # xs)" using r ns by (auto simp: wait_rep_def)
  obtain ys y zs where rot: "ring (hmem s) 0 8 y (ys @ w # zs)" "set (y # ys @ w # zs) = set ns" "y \<noteq> w" "distinct (y # ys @ w # zs)"
  proof (cases "w = h")
    case True
    obtain x us where "xs = x # us" using ns by (cases xs) auto
    then show ?thesis using that [of x us "[]"] ring_rotate [of "hmem s" 0 8 h "[]" x us] rg True d ns by auto
  next
    case False
    then obtain us vs where "xs = us @ w # vs" using w ns split_list [of w xs] by auto
    then show ?thesis using that [of h us vs] rg d ns False by auto
  qed
  let ?f = "hmem s w" and ?b = "hmem s (w + 8)"
  have nb: "?f = hd (zs @ [y])" "?b = last (y # ys)" using ring_neighbours [OF rot(1)] by simp_all
  have fm: "?f \<in> set ns" "?f \<noteq> w" using nb(1) rot(2-4) by (cases zs; auto)+
  have bm: "?b \<in> set ns" "?b \<noteq> w" using nb(2) rot(2-4) by (cases ys rule: rev_cases; auto)+
  have c: "?f + 8 \<noteq> w" "?f + 8 \<noteq> w + 8" "?b \<noteq> w + 8" "?b \<noteq> w" "?b \<noteq> ?f + 8"
    using cell [of ?f w 8 0] cell [of ?f w 8 8] cell [of ?b w 0 8] cell [of ?b ?f 0 8] fm bm w by simp_all
  show "?f \<in> set ns" "?b \<in> set ns" by (rule fm bm)+
  have s': "s' = poke (w + 8) 0 (poke w 0 (poke ?b ?f (poke (?f + 8) ?b s)))"
    using rm fm(2) c by (auto simp: ring_remove_def Let_def)
  show "hmem s' = unlink_node (hmem s) 0 8 w"
    using c by (simp add: s' unlink_node_def fun_upd_twist)
  show "inv s' L" unfolding s'
    using poke_inv [OF poke_inv [OF poke_inv [OF poke_inv [OF i L [OF fm(1)], of 8 ?b] L [OF bm(1)], of 0 ?f] L [OF w(1)], of 0 0] L [OF w(1)], of 8 0]
    by simp
  show "wq_head q' = (if wq_head q = w then hmem s w else wq_head q)" "wq_lock q' = wq_lock q"
    using rm fm(2) c by (auto simp: ring_remove_def Let_def)
qed

lemma ring_self:
  assumes i: "inv s L" and r: "wait_rep s L q ns" and w: "w \<in> set ns" "2 \<le> length ns"
  shows "hmem s w \<noteq> w"
proof -
  obtain h xs where ns: "ns = h # xs" "xs \<noteq> []" using w(2) by (cases ns; cases "tl ns"; simp)
  have rg: "ring (hmem s) 0 8 h xs" and d: "distinct (h # xs)" using r ns by (auto simp: wait_rep_def)
  show ?thesis
  proof (cases "w = h")
    case True
    obtain x us where xs: "xs = x # us" using ns by (cases xs) auto
    then have "hmem s h = x" using rg by (simp add: ring_def)
    then show ?thesis using True d xs by auto
  next
    case False
    then obtain us vs where xs: "xs = us @ w # vs" using w ns split_list [of w xs] by auto
    then have "hmem s w = hd (vs @ [h])" using ring_neighbours [of "hmem s" 0 8 h us w vs] rg by simp
    then show ?thesis using d xs by (cases vs) auto
  qed
qed

lemma ring_remove_rep:
  assumes i: "inv s L" and r: "wait_rep s L q ns" and w: "w \<in> set ns" and rm: "ring_remove q w s = (q', s')"
  shows "inv s' L" "wait_rep s' L q' (remove1 w ns)" "wait_tasks s' (remove1 w ns) = wait_tasks s (remove1 w ns)"
    "wq_lock q' = wq_lock q" "frame (set ns) L s L s'"
proof -
  have L: "L x = Some 24" if "x \<in> set ns" for x using that r by (auto simp: wait_rep_def)
  have sp: "spaced 24 (set ns)" by (rule nodes_spaced [OF i L])
  note cell = spaced_cell [OF sp]
  obtain h xs where ns: "ns = h # xs" using w by (cases ns) auto
  have rg: "ring (hmem s) 0 8 h xs" and d: "distinct (h # xs)" and hd: "wq_head q = h" using r ns by (auto simp: wait_rep_def)
  have all: "inv s' L \<and> wait_rep s' L q' (remove1 w ns) \<and> wait_tasks s' (remove1 w ns) = wait_tasks s (remove1 w ns) \<and> wq_lock q' = wq_lock q \<and>
    frame (set ns) L s L s'"
  proof (cases "xs = []")
    case True
    then have wh: "w = h" "hmem s h = h" using w ns rg by (simp_all add: ring_def)
    then have e: "q' = q\<lparr>wq_head := 0\<rparr>" "s' = poke (h + 8) 0 (poke h 0 s)" using rm by (auto simp: ring_remove_def Let_def)
    have "inv s' L" unfolding e using poke_inv [OF poke_inv [OF i L, of h 0 0] L, of h 8 0] ns by simp
    moreover have "frame (set ns) L s L s'" by (rule nodes_frame [OF i L]) (use ns in \<open>auto simp: e split: if_splits\<close>)
    ultimately show ?thesis using wh ns True e by (simp add: wait_rep_def wait_tasks_def)
  next
    case False
    have len: "2 \<le> length ns" using False ns by (cases xs) auto
    note m = ring_remove_memory [OF i r w len rm]
    have "wait_rep s' L q' (remove1 w ns)"
    proof (cases "w = h")
      case True
      obtain x us where xs: "xs = x # us" using False by (cases xs) auto
      have "ring (hmem s) 0 8 x (us @ [h])" using ring_rotate [of "hmem s" 0 8 h "[]" x us] rg xs by simp
      then have "ring (hmem s') 0 8 x (us @ [])" unfolding m(1) True
        using d xs ns by (intro ring_unlink_node [OF sp]) auto
      moreover have "hmem s h = x" using rg xs by (simp add: ring_def)
      ultimately show ?thesis using True xs ns m(3) hd d L by (simp add: wait_rep_def)
    next
      case wh: False
      obtain us vs where xs: "xs = us @ w # vs" "w \<notin> set us" using w ns wh split_list_first [of w xs] by auto
      have "ring (hmem s') 0 8 h (us @ vs)" unfolding m(1)
        using d xs ns rg by (intro ring_unlink_node [OF sp]) auto
      then show ?thesis using wh xs ns m(3) hd d L by (auto simp: wait_rep_def remove1_append)
    qed
    moreover have "wait_tasks s' (remove1 w ns) = wait_tasks s (remove1 w ns)"
    proof -
      have "hmem s' (x + 16) = hmem s (x + 16)" if x: "x \<in> set ns" for x
        using x w m(5,6) cell [of x w 16 0] cell [of x w 16 8] cell [of x "hmem s w" 16 8] cell [of x "hmem s (w + 8)" 16 0]
        unfolding m(1) by (simp add: unlink_node_def)
      then show ?thesis by (auto simp: wait_tasks_def dest!: subsetD [OF set_remove1_subset])
    qed
    moreover have "frame (set ns) L s L s'"
    proof (rule nodes_frame [OF i L])
      fix a assume "hmem s' a \<noteq> hmem s a"
      then have "a \<in> {hmem s w + 8, hmem s (w + 8), w, w + 8}" unfolding m(1) by (auto simp: unlink_node_def split: if_splits)
      then have "hmem s w \<le> a \<and> a < hmem s w + 24 \<or> hmem s (w + 8) \<le> a \<and> a < hmem s (w + 8) + 24 \<or> w \<le> a \<and> a < w + 24" by auto
      then show "\<exists>n\<in>set ns. n \<le> a \<and> a < n + 24" using w m(5,6) by blast
    qed (use rm in \<open>auto simp: ring_remove_def Let_def split: if_splits\<close>)
    ultimately show ?thesis using m by simp
  qed
  then show "inv s' L" "wait_rep s' L q' (remove1 w ns)" "wait_tasks s' (remove1 w ns) = wait_tasks s (remove1 w ns)"
    "wq_lock q' = wq_lock q" "frame (set ns) L s L s'" by simp_all
qed

end

section \<open>The wait queues as sets of waiting tasks\<close>

text \<open>
  The queue holds the tasks \<open>xs\<close>: its ring lists one node per task, and \<open>lk\<close>, the field \<open>wq\<close> or
  \<open>gcq\<close> of the tasks, points back to the nodes.
\<close>

definition waiting :: "heap_state \<Rightarrow> (addr \<rightharpoonup> int) \<Rightarrow> wait_queue_t \<Rightarrow> (addr \<Rightarrow> addr) \<Rightarrow> addr list \<Rightarrow> bool" where
  "waiting s L q lk xs \<longleftrightarrow> (\<exists>ns. wait_rep s L q ns \<and> wait_tasks s ns = xs \<and> map lk xs = ns \<and>
     (\<forall>t. t \<notin> set xs \<longrightarrow> lk t = 0))"

lemma wait_rep_mono:
  assumes "wait_rep s L q ns" "\<And>n. n \<in> set ns \<Longrightarrow> L' n = L n"
    "\<And>n i. n \<in> set ns \<Longrightarrow> 0 \<le> i \<Longrightarrow> i < 24 \<Longrightarrow> hmem s' (n + i) = hmem s (n + i)"
  shows "wait_rep s' L' q ns" "wait_tasks s' ns = wait_tasks s ns"
proof -
  have c: "hmem s' n = hmem s n" "hmem s' (n + 8) = hmem s (n + 8)" "hmem s' (n + 16) = hmem s (n + 16)"
    if "n \<in> set ns" for n using assms(3) [OF that, of 0] assms(3) [OF that, of 8] assms(3) [OF that, of 16] by simp_all
  show "wait_tasks s' ns = wait_tasks s ns" using c(3) by (simp add: wait_tasks_def)
  show "wait_rep s' L' q ns"
  proof (cases ns)
    case (Cons h xs)
    have "ring (hmem s') 0 8 h xs = ring (hmem s) 0 8 h xs" by (rule ring_cong) (use c Cons in auto)
    then show ?thesis using assms(1,2) Cons by (auto simp: wait_rep_def)
  qed (use assms(1,2) in \<open>auto simp: wait_rep_def\<close>)
qed

context allocator
begin

lemma node_alloc:
  assumes i: "inv s L" and w: "waiting s L q lk xs" and a: "alloc 24 s = Some (n, s1)"
    and p: "ring_push q n (poke (n + 16) t s1) = (q', s')" and t: "t \<notin> set xs"
  shows "inv s' (L(n \<mapsto> 24)) \<and> waiting s' (L(n \<mapsto> 24)) q' (lk(t := n)) (t # xs) \<and> wq_lock q' = wq_lock q \<and> n \<noteq> 0 \<and>
    L n = None \<and> frame (lk ` set xs) L s (L(n \<mapsto> 24)) s'"
proof -
  obtain ns where r: "wait_rep s L q ns" "wait_tasks s ns = xs" "map lk xs = ns" "\<And>t. t \<notin> set xs \<Longrightarrow> lk t = 0"
    using w by (auto simp: waiting_def)
  have sz: "(0::int) < 24" "(24::int) < 2 ^ 40" by simp_all
  note c = alloc_cells [OF i sz a]
  let ?s2 = "poke (n + 16) t s1"
  define L1 where "L1 = L(n \<mapsto> 24)"
  note c = c [folded L1_def]
  have Ln: "L1 n = Some 24" by (simp add: L1_def)
  have ns: "L x = Some 24" "x \<noteq> n" if "x \<in> set ns" for x using that r(1) c(2) by (auto simp: wait_rep_def)
  have nn: "n \<notin> set ns" using ns by blast
  have i2: "inv ?s2 L1" using poke_inv [OF c(1) Ln, of 16 t] by simp
  have same: "hmem ?s2 (x + j) = hmem s (x + j)" if x: "x \<in> set ns" "0 \<le> j" "j < 24" for x j
  proof -
    have "L1 x = Some 24" using ns [OF x(1)] by (simp add: L1_def)
    then have "x + j \<noteq> n + 16" using other_block [OF c(1) _ Ln, of x 24 j 16] ns(2) [OF x(1)] x by auto
    then show ?thesis using c(3) [OF ns(1) [OF x(1)], of j] x by simp
  qed
  have rep: "wait_rep ?s2 L1 q ns" "wait_tasks ?s2 ns = wait_tasks s ns"
    using wait_rep_mono [OF r(1), of L1 ?s2] same ns by (auto simp: L1_def)
  note pu = ring_push_rep [OF i2 rep(1) Ln nn p]
  have "wait_tasks s' (n # ns) = t # xs" using pu(3) rep(2) r(2) by (simp add: wait_tasks_def cong: map_cong)
  then have "waiting s' L1 q' (lk(t := n)) (t # xs)"
    unfolding waiting_def using pu(2) r(3,4) t by (intro exI [of _ "n # ns"]) auto
  moreover have "frame (lk ` set xs) L s L1 s'"
  proof -
    have "frame {n} L1 s1 L1 ?s2" using poke_frame [OF c(1) Ln, of 16 t] by simp
    from frame_trans [OF alloc_frame(3) [OF i sz a, folded L1_def] frame_trans [OF this pu(5)]] show ?thesis
      by (rule frame_drop) (use c(2) r(3) in auto)
  qed
  ultimately show ?thesis unfolding L1_def [symmetric] using pu(1,4) c(2,4) by simp
qed

lemma node_free:
  assumes i: "inv s L" and w: "waiting s L q lk xs" and t: "t \<in> set xs" and p: "ring_remove q (lk t) s = (q', s1)"
  shows "\<exists>s'. rel (lk t) s1 = Some s' \<and> inv s' (L(lk t := None)) \<and>
    waiting s' (L(lk t := None)) q' (lk(t := 0)) (remove1 t xs) \<and> frame (lk ` set xs) L s (L(lk t := None)) s'" "wq_lock q' = wq_lock q" "lk t \<noteq> 0" "wq_head q \<noteq> 0"
    "hmem s (lk t) = lk t \<longleftrightarrow> xs = [t]"
proof -
  obtain ns where r: "wait_rep s L q ns" "wait_tasks s ns = xs" "map lk xs = ns" "\<And>t. t \<notin> set xs \<Longrightarrow> lk t = 0"
    using w by (auto simp: waiting_def)
  have n: "lk t \<in> set ns" using t r(3) by auto
  have L: "L x = Some 24" if "x \<in> set ns" for x using that r(1) by (auto simp: wait_rep_def)
  show "lk t \<noteq> 0" using block_law [OF i L [OF n]] by auto
  note rm = ring_remove_rep [OF i r(1) n p]
  show "wq_lock q' = wq_lock q" by (rule rm)
  have inj: "inj_on lk (set xs)" "distinct xs" using r(1,3) by (auto simp: wait_rep_def distinct_map)
  have rem: "remove1 (lk t) ns = map lk (remove1 t xs)" 
  proof -
    obtain us vs where xs: "xs = us @ t # vs" "t \<notin> set us" using split_list_first [OF t] by blast
    then have "lk t \<notin> lk ` set us" using inj by (auto simp: inj_on_def)
    then show ?thesis using xs r(3) by (auto simp: remove1_append)
  qed
  obtain s' where s': "rel (lk t) s1 = Some s'" "inv s' (L(lk t := None))" "frame {lk t} L s1 (L(lk t := None)) s'"
    using rel_frame [OF rm(1) L [OF n]] by (auto simp: releasable_def)
  have fr: "frame (lk ` set xs) L s (L(lk t := None)) s'" using frame_trans [OF rm(5) s'(3)] by (rule frame_drop) (use r(3) t in auto)
  have sub: "x \<in> set ns \<and> x \<noteq> lk t" if "x \<in> set (remove1 (lk t) ns)" for x
    using that r(1) by (auto simp: wait_rep_def)
  have rep: "wait_rep s' (L(lk t := None)) q' (remove1 (lk t) ns)" "wait_tasks s' (remove1 (lk t) ns) = wait_tasks s1 (remove1 (lk t) ns)"
  proof -
    have e: "(L(lk t := None)) x = L x" "hmem s' (x + j) = hmem s1 (x + j)"
      if "x \<in> set (remove1 (lk t) ns)" "0 \<le> j" "j < 24" for x j
      using sub [OF that(1)] frameD(2) [OF s'(3), of x 24 j] L [of x] that by simp_all
    show "wait_rep s' (L(lk t := None)) q' (remove1 (lk t) ns)" "wait_tasks s' (remove1 (lk t) ns) = wait_tasks s1 (remove1 (lk t) ns)"
      by (rule wait_rep_mono [OF rm(2)], rule e(1) [where j = 0], assumption, simp, simp, rule e(2), assumption+)+
  qed
  have tk: "wait_tasks s (map lk ys) = ys" if "set ys \<subseteq> set xs" for ys
  proof -
    have "hmem s (lk x + 16) = x" if x: "x \<in> set xs" for x
    proof -
      have "map (\<lambda>x. hmem s (lk x + 16)) xs = map (\<lambda>x. x) xs" using r(2) by (simp add: wait_tasks_def r(3) [symmetric] comp_def)
      then show ?thesis using x unfolding map_eq_conv by blast
    qed
    then show ?thesis using that by (auto simp: wait_tasks_def intro!: map_idI)
  qed
  have "wait_tasks s' (remove1 (lk t) ns) = remove1 t xs"
    using rep(2) rm(3) rem tk [of "remove1 t xs"] set_remove1_subset [of t xs] by simp
  moreover have "map (lk(t := 0)) (remove1 t xs) = remove1 (lk t) ns" using rem inj by (auto intro: map_cong)
  moreover have "(lk(t := 0)) u = 0" if "u \<notin> set (remove1 t xs)" for u using that r(4) inj by auto
  ultimately show "\<exists>s'. rel (lk t) s1 = Some s' \<and> inv s' (L(lk t := None)) \<and>
    waiting s' (L(lk t := None)) q' (lk(t := 0)) (remove1 t xs) \<and> frame (lk ` set xs) L s (L(lk t := None)) s'"
    using s'(1,2) rep(1) fr unfolding waiting_def by (intro exI [of _ s']) auto
  obtain h zs where hz: "ns = h # zs" using n by (cases ns) auto
  have hd: "wq_head q = h" "ring (hmem s) 0 8 h zs" "distinct ns" using r(1) hz by (auto simp: wait_rep_def)
  show "wq_head q \<noteq> 0" using block_law [OF i L, of h] hz hd by auto
  show "hmem s (lk t) = lk t \<longleftrightarrow> xs = [t]"
  proof
    assume "xs = [t]"
    then show "hmem s (lk t) = lk t" using hd hz r(3) by (simp add: ring_def)
  next
    assume self: "hmem s (lk t) = lk t"
    show "xs = [t]"
    proof (rule ccontr)
      assume "xs \<noteq> [t]"
      then have "2 \<le> length xs" using t by (cases xs; cases "tl xs") auto
      then have "2 \<le> length ns" using r(3) by auto
      then show False using ring_self [OF i r(1) n] self by blast
    qed
  qed
qed

end

end
