(* ===== verification/QueueProps.thy ===== *)
theory QueueProps
  imports Queue AllocProps "HOL-Library.Multiset"
begin

text \<open>
  Properties of the task queues on the arena allocator: the run queue is first in first out, the wait
  queues hand back any waiting task, and the lock of the collector's queue.
\<close>

section \<open>The interface of a wait queue\<close>

fun run_remove :: "(addr \<Rightarrow> 'q \<Rightarrow> (int \<times> 'q) option) \<Rightarrow> addr list \<Rightarrow> 'q \<Rightarrow> (int list \<times> 'q) option" where
  "run_remove rem [] q = Some ([], q)"
| "run_remove rem (t # ts) q = do { (r, q) \<leftarrow> rem t q; (rs, q) \<leftarrow> run_remove rem ts q; Some (r # rs, q) }"

locale wait_set =
  fixes push :: "addr \<Rightarrow> 'q \<Rightarrow> 'q option"
    and rem :: "addr \<Rightarrow> 'q \<Rightarrow> (int \<times> 'q) option"
    and holds :: "'q \<Rightarrow> addr list \<Rightarrow> bool"
  assumes push_law: "holds q xs \<Longrightarrow> t \<notin> set xs \<Longrightarrow> push t q = Some q' \<Longrightarrow> holds q' (t # xs)"
    and rem_law: "holds q xs \<Longrightarrow> t \<in> set xs \<Longrightarrow> \<exists>q'. rem t q = Some (1, q') \<and> holds q' (remove1 t xs)"
    and absent_law: "holds q xs \<Longrightarrow> t \<notin> set xs \<Longrightarrow> rem t q = Some (0, q)"
begin

lemma run_push: "holds q xs \<Longrightarrow> distinct ts \<Longrightarrow> set ts \<inter> set xs = {} \<Longrightarrow> run_enq push ts q = Some q' \<Longrightarrow>
    holds q' (rev ts @ xs)"
proof (induction ts arbitrary: q xs)
  case (Cons t ts)
  obtain q1 where q1: "push t q = Some q1" "run_enq push ts q1 = Some q'" using Cons.prems(4) by (auto split: bind_splits)
  have "holds q1 (t # xs)" using push_law [OF Cons.prems(1) _ q1(1)] Cons.prems(3) by simp
  from Cons.IH [OF this _ _ q1(2)] show ?case using Cons.prems(2,3) by simp
qed simp

lemma run_rem: "holds q xs \<Longrightarrow> mset us \<subseteq># mset xs \<Longrightarrow>
    \<exists>q' ys. run_remove rem us q = Some (replicate (length us) 1, q') \<and> holds q' ys \<and> mset ys = mset xs - mset us"
proof (induction us arbitrary: q xs)
  case (Cons t us)
  have t: "t \<in> set xs" using Cons.prems(2) by (meson list.set_intros(1) mset_subset_eqD set_mset_mset in_multiset_in_set)
  obtain q1 where q1: "rem t q = Some (1, q1)" "holds q1 (remove1 t xs)" using rem_law [OF Cons.prems(1) t] by blast
  have "mset us \<subseteq># mset (remove1 t xs)" using Cons.prems(2) by (simp add: insert_subset_eq_iff)
  then obtain q' ys where "run_remove rem us q1 = Some (replicate (length us) 1, q')" "holds q' ys"
    "mset ys = mset (remove1 t xs) - mset us"
    using Cons.IH [OF q1(2)] by blast
  then show ?case using q1(1) by (intro exI [of _ q'] exI [of _ ys]) simp
qed (auto intro!: exI)

lemma any_order:
  assumes "holds q []" "distinct ts" "run_enq push ts q = Some q'" "mset us = mset ts"
  shows "\<exists>q''. run_remove rem us q' = Some (replicate (length ts) 1, q'') \<and> holds q'' []"
proof -
  have "holds q' (rev ts @ [])" using run_push [OF assms(1,2) _ assms(3)] by simp
  moreover have "mset us \<subseteq># mset (rev ts @ [])" using assms(4) by simp
  ultimately obtain q'' ys where "run_remove rem us q' = Some (replicate (length us) 1, q'')" "holds q'' ys"
    "mset ys = mset (rev ts @ []) - mset us"
    using run_rem by blast
  moreover have "length us = length ts" using assms(4) by (rule mset_eq_length)
  ultimately show ?thesis using assms(4) by simp
qed

end

definition ioq_push :: "os \<Rightarrow> addr \<Rightarrow> wait_queue_t \<times> task_links \<times> heap_state \<Rightarrow> (wait_queue_t \<times> task_links \<times> heap_state) option" where
  "ioq_push os t st = (case st of (q, ts, s) \<Rightarrow> unsafe_ioq_push (allocate os) q t ts s)"

definition ioq_remove ::
  "os \<Rightarrow> addr \<Rightarrow> wait_queue_t \<times> task_links \<times> heap_state \<Rightarrow> (int \<times> wait_queue_t \<times> task_links \<times> heap_state) option" where
  "ioq_remove os t st = (case st of (q, ts, s) \<Rightarrow> unsafe_ioq_remove (release os) q t ts s)"

definition ioq_holds :: "os \<Rightarrow> wait_queue_t \<times> task_links \<times> heap_state \<Rightarrow> addr list \<Rightarrow> bool" where
  "ioq_holds os st xs \<longleftrightarrow> (case st of (q, ts, s) \<Rightarrow> \<exists>L. runtime_heap os s L \<and> waiting s L q (t_wq ts) xs)"

interpretation ioq: wait_set "ioq_push os" "ioq_remove os" "ioq_holds os" for os
proof (unfold_locales, goal_cases)
  case (1 st xs t st')
  obtain q ts s where st: "st = (q, ts, s)" by (cases st)
  obtain L where L: "runtime_heap os s L" "waiting s L q (t_wq ts) xs" using 1(1) st by (auto simp: ioq_holds_def)
  obtain n s1 where n: "allocate os 24 s = Some (n, s1)"
    using 1(3) st by (auto simp: ioq_push_def unsafe_ioq_push_def split: bind_splits)
  obtain q' s' where p: "ring_push q n (poke (n + 16) t s1) = (q', s')" by force
  note a = al.node_alloc [OF L n p 1(2)]
  then have "st' = (q', ts\<lparr>t_wq := (t_wq ts)(t := n)\<rparr>, s')"
    using 1(3) n p st by (simp add: ioq_push_def unsafe_ioq_push_def Let_def)
  then show ?case using a by (auto simp: ioq_holds_def)
next
  case (2 st xs t)
  obtain q ts s where st: "st = (q, ts, s)" by (cases st)
  obtain L where L: "runtime_heap os s L" "waiting s L q (t_wq ts) xs" using 2(1) st by (auto simp: ioq_holds_def)
  obtain q' s1 where p: "ring_remove q (t_wq ts t) s = (q', s1)" by force
  note a = al.node_free [OF L 2(2) p]
  then obtain s' where s': "release os (t_wq ts t) s1 = Some s'" "runtime_heap os s' (L(t_wq ts t := None))"
     "waiting s' (L(t_wq ts t := None)) q' ((t_wq ts)(t := 0)) (remove1 t xs)" by blast
  then have "ioq_remove os t st = Some (1, q', ts\<lparr>t_wq := (t_wq ts)(t := 0)\<rparr>, s')"
    using p st a(3,4) by (simp add: ioq_remove_def unsafe_ioq_remove_def Let_def)
  then show ?case using s'(2,3) by (auto simp: ioq_holds_def)
next
  case (3 st xs t)
  obtain q ts s where st: "st = (q, ts, s)" by (cases st)
  have "t_wq ts t = 0" using 3 st by (auto simp: ioq_holds_def waiting_def)
  then show ?case using st by (simp add: ioq_remove_def unsafe_ioq_remove_def)
qed

lemma ioq_init_holds: "runtime_heap os s L \<Longrightarrow> ioq_holds os (unsafe_ioq_init lim, \<lparr>t_wq = (\<lambda>_. 0), t_gcq = g\<rparr>, s) []"
  unfolding ioq_holds_def waiting_def
  by (auto simp: wait_rep_def unsafe_ioq_init_def wait_tasks_def intro!: exI [of _ L] exI [of _ "[]"])

section \<open>Pushing returns while there is room\<close>

lemma q_enq_returns:
  assumes h: "q_holds os L0 s0 st xs" and r: "os_room os (snd st) (Suc k)"
  shows "\<exists>st'. q_enq os t st = Some st' \<and> os_room os (snd st') k"
proof -
  obtain L ns where L: "runtime_heap os (snd st) L" "safe_q_rep (snd st) L (fst st) ns" using h by (auto simp: q_holds_def)
  obtain n s1 where n: "allocate os 16 (snd st) = Some (n, s1)" "os_room os s1 k" using ra.room_alloc [OF L(1) r, of 16] by auto
  then show ?thesis using L(2) by (simp add: q_enq_def safe_q_push_def safe_q_rep_def pthread_lock_def Let_def)
qed

lemma run_q_enq_returns:
  "q_holds os L s st xs \<Longrightarrow> os_room os (snd st) (length ts + k) \<Longrightarrow> \<exists>st'. run_enq (q_enq os) ts st = Some st' \<and> os_room os (snd st') k"
proof (induction ts arbitrary: st xs)
  case (Cons t ts)
  then obtain st1 where 1: "q_enq os t st = Some st1" "os_room os (snd st1) (length ts + k)" using q_enq_returns [of os L s st xs "length ts + k" t] by auto
  then show ?case using Cons.IH [OF run_queue.enq_law [OF Cons.prems(1) 1(1)] 1(2)] by simp
qed simp

lemma ioq_push_returns:
  assumes h: "ioq_holds os st xs" and r: "os_room os (snd (snd st)) (Suc k)"
  shows "\<exists>st'. ioq_push os t st = Some st' \<and> os_room os (snd (snd st')) k"
proof -
  obtain q ts s where st: "st = (q, ts, s)" by (cases st)
  obtain L where L: "runtime_heap os s L" using h st by (auto simp: ioq_holds_def)
  obtain n s1 where n: "allocate os 24 s = Some (n, s1)" "os_room os s1 k" using ra.room_alloc [OF L, of k 24] r st by auto
  have "n \<noteq> 0" using al.alloc_frame(4) [OF L _ _ n(1)] by simp
  moreover have "os_room os (snd (ring_push q n s2)) k" if "os_room os s2 k" for s2 using that by (simp add: ring_push_def Let_def)
  ultimately show ?thesis using n st by (auto simp: ioq_push_def unsafe_ioq_push_def Let_def split: prod.splits) (metis ra.room_writes(1) snd_conv)
qed

lemma run_ioq_push_returns:
  "ioq_holds os st xs \<Longrightarrow> distinct ts \<Longrightarrow> set ts \<inter> set xs = {} \<Longrightarrow> os_room os (snd (snd st)) (length ts) \<Longrightarrow>
    \<exists>st'. run_enq (ioq_push os) ts st = Some st'"
proof (induction ts arbitrary: st xs)
  case (Cons t ts)
  then obtain st1 where 1: "ioq_push os t st = Some st1" "os_room os (snd (snd st1)) (length ts)" using ioq_push_returns [of os st xs "length ts" t] by auto
  then show ?case using Cons.IH [OF ioq.push_law [OF Cons.prems(1) _ 1(1)] _ _ 1(2)] Cons.prems by auto
qed (simp add: prod_eq_iff)

lemma q_empty_waits: "q_holds os L s (q, s') [] \<Longrightarrow> safe_q_pop_wait (release os) q s' = Some Waits"
  using al.safe_q_pop_empty(2) [of s' L q] by (auto simp: q_holds_def tasks_of_def add_nodes_def)

section \<open>The properties\<close>

text \<open>
  C5: The run queue is first in, first out: on a heap with room for its nodes, pushing the tasks \<open>ts\<close>
  onto a new queue succeeds, as many pops return exactly \<open>ts\<close> in that order, and the queue is
  then empty. All its nodes have been released: the live blocks of the heap are again exactly those it had
  before, with the same contents.
\<close>

theorem run_queue_fifo:
  assumes "runtime_heap os s L" "os_room os s (length ts)"
  shows "\<exists>q q' s'. run_enq (q_enq os) ts (safe_q_init lim, s) = Some q \<and> run_deq (q_deq os) (length ts) q = Some (ts, (q', s')) \<and>
    q_holds os L s (q', s') [] \<and> runtime_heap os s' L \<and> frame {} L s L s' \<and> safe_q_pop_wait (release os) q' s' = Some Waits"
proof -
  note h = q_init_holds [OF assms(1), of lim]
  obtain q where q: "run_enq (q_enq os) ts (safe_q_init lim, s) = Some q" using run_q_enq_returns [OF h, of ts 0] assms(2) by auto
  then obtain q' where q': "run_deq (q_deq os) (length ts) q = Some (ts, q')" "q_holds os L s q' []" using run_queue.in_order [OF h q] by blast
  then show ?thesis using q q_empty_heap [OF q'(2)] q_empty_waits [of os L s "fst q'" "snd q'"] by (metis prod.collapse)
qed

theorem run_queue_fifo_witness:
  "\<exists>s q q' s'. run_enq (q_enq demo_os) [48, 96, 48] (safe_q_init 10, s) = Some q \<and>
     run_deq (q_deq demo_os) (length [48, 96, 48 :: addr]) q = Some ([48, 96, 48], (q', s')) \<and> runtime_heap demo_os s' Map.empty"
proof -
  obtain s where s: "runtime_heap demo_os s Map.empty" "os_room demo_os s 15" by (rule demo_heap)
  have r: "os_room demo_os s (length [48, 96, 48 :: addr])" by (rule ra.room_less [OF s(2)]) simp
  show ?thesis using run_queue_fifo [OF s(1) r, of 10] by blast
qed

text \<open>
  The blocking pop waits exactly when the queue is empty; otherwise it returns the oldest task
  and leaves the younger ones.
\<close>

theorem pop_wait_blocks:
  assumes "q_holds os L0 s0 (q, s) xs"
  shows "(xs = [] \<longrightarrow> safe_q_pop_wait (release os) q s = Some Waits) \<and>
    (xs \<noteq> [] \<longrightarrow> (\<exists>q' s'. safe_q_pop_wait (release os) q s = Some (Returns (hd xs, q', s')) \<and> q_holds os L0 s0 (q', s') (tl xs)))"
proof (intro conjI)
  obtain L ns where r: "runtime_heap os s L" "safe_q_rep s L q ns" "tasks_of s ns = xs"
    using assms by (auto simp: q_holds_def)
  show "xs = [] \<longrightarrow> safe_q_pop_wait (release os) q s = Some Waits"
    using r al.safe_q_pop_empty(2) [of s L q] by (auto simp: tasks_of_def)
  show "xs \<noteq> [] \<longrightarrow> (\<exists>q' s'. safe_q_pop_wait (release os) q s = Some (Returns (hd xs, q', s')) \<and> q_holds os L0 s0 (q', s') (tl xs))"
  proof
    assume ne: "xs \<noteq> []"
    then obtain n ms where n: "ns = n # ms" using r(3) by (cases ns) (auto simp: tasks_of_def)
    have w: "safe_q_pop_wait (release os) q s = map_option Returns (safe_q_pop (release os) q s)"
      using al.safe_q_pop_wait_eq [OF _ r(1)] r(2) n by blast
    have h: "q_holds os L0 s0 (q, s) (hd xs # tl xs)" using assms ne by simp
    show "\<exists>q' s'. safe_q_pop_wait (release os) q s = Some (Returns (hd xs, q', s')) \<and> q_holds os L0 s0 (q', s') (tl xs)"
      using run_queue.deq_law [OF h] w by (auto simp: q_deq_def)
  qed
qed

theorem pop_wait_blocks_witness:
  "\<exists>s q' s'. safe_q_pop_wait (release demo_os) (safe_q_init 10) s = Some Waits \<and>
     run_enq (q_enq demo_os) [48, 96] (safe_q_init 10, s) = Some (q', s') \<and>
     (\<exists>q2 s2. safe_q_pop_wait (release demo_os) q' s' = Some (Returns (48, q2, s2)))"
proof -
  obtain s where s: "runtime_heap demo_os s Map.empty" "os_room demo_os s 15" by (rule demo_heap)
  have h: "q_holds demo_os Map.empty s (safe_q_init 10, s) []" by (rule q_init_holds [OF s(1)])
  have "os_room demo_os s (length [48, 96 :: addr])" by (rule ra.room_less [OF s(2)]) simp
  then obtain q' s' where q: "run_enq (q_enq demo_os) [48, 96] (safe_q_init 10, s) = Some (q', s')"
    using run_q_enq_returns [OF h, of "[48, 96]" 0] by auto
  have h2: "q_holds demo_os Map.empty s (q', s') [48, 96]" using run_queue.run_enq_holds [OF h q] by simp
  show ?thesis using pop_wait_blocks [OF h] pop_wait_blocks [OF h2] q by auto
qed

text \<open>
  C6: Tasks parked in an I/O wait queue can be taken out in any order: on a heap with room for its
  nodes, pushing distinct tasks \<open>ts\<close> onto a new queue succeeds, and removing them in any order \<open>us\<close>
  succeeds for each one and leaves the queue empty.
\<close>

theorem ioq_any_order:
  assumes "runtime_heap os s L" "distinct ts" "mset us = mset ts" "os_room os s (length ts)"
  shows "\<exists>q q'. run_enq (ioq_push os) ts (unsafe_ioq_init lim, \<lparr>t_wq = (\<lambda>_. 0), t_gcq = g\<rparr>, s) = Some q \<and>
    run_remove (ioq_remove os) us q = Some (replicate (length ts) 1, q') \<and> ioq_holds os q' []"
proof -
  note h = ioq_init_holds [OF assms(1), of lim g]
  obtain q where q: "run_enq (ioq_push os) ts (unsafe_ioq_init lim, \<lparr>t_wq = (\<lambda>_. 0), t_gcq = g\<rparr>, s) = Some q"
    using run_ioq_push_returns [OF h assms(2)] assms(4) by auto
  then show ?thesis using ioq.any_order [OF h assms(2) q assms(3)] by blast
qed

theorem ioq_any_order_witness:
  "\<exists>s q q'. run_enq (ioq_push demo_os) [48, 96, 160] (unsafe_ioq_init 10, \<lparr>t_wq = (\<lambda>_. 0), t_gcq = (\<lambda>_. 0)\<rparr>, s) = Some q \<and>
     run_remove (ioq_remove demo_os) [96, 160, 48] q = Some (replicate (length [48, 96, 160 :: addr]) 1, q')"
proof -
  obtain s where s: "runtime_heap demo_os s Map.empty" "os_room demo_os s 15" by (rule demo_heap)
  have r: "os_room demo_os s (length [48, 96, 160 :: addr])" by (rule ra.room_less [OF s(2)]) simp
  have d: "distinct [48, 96, 160 :: addr]" "mset [96, 160, 48] = mset [48, 96, 160 :: addr]" by simp_all
  show ?thesis using ioq_any_order [OF s(1) d r] by blast
qed

text \<open>
  Removing a task from the collector's queue: among at least two tasks the task is removed and
  the lock is free again; the last task is removed but the mutex is unlocked twice; and for a task
  that is not queued the lock stays held, so that the next push never returns.
\<close>

theorem gcq_remove_lock:
  assumes h: "runtime_heap os s L" and w: "waiting s L q (t_gcq ts) xs" and l: "wq_lock q = 0"
  shows "(t \<in> set xs \<longrightarrow> (\<exists>q' s' L'. safe_gcq_remove (release os) q t ts s = Some (1, q', ts\<lparr>t_gcq := (t_gcq ts)(t := 0)\<rparr>, s') \<and>
      runtime_heap os s' L' \<and> waiting s' L' q' ((t_gcq ts)(t := 0)) (remove1 t xs) \<and>
      wq_lock q' = (if xs = [t] then - 1 else 0))) \<and>
    (t \<notin> set xs \<longrightarrow> (\<exists>q'. safe_gcq_remove (release os) q t ts s = Some (0, q', ts, s) \<and> wq_lock q' = 1 \<and>
      (\<forall>al u ts' s'. safe_gcq_push al q' u ts' s' = None)))"
proof (intro conjI)
  show "t \<in> set xs \<longrightarrow> (\<exists>q' s' L'. safe_gcq_remove (release os) q t ts s = Some (1, q', ts\<lparr>t_gcq := (t_gcq ts)(t := 0)\<rparr>, s') \<and>
      runtime_heap os s' L' \<and> waiting s' L' q' ((t_gcq ts)(t := 0)) (remove1 t xs) \<and>
      wq_lock q' = (if xs = [t] then - 1 else 0))"
  proof
    assume t: "t \<in> set xs"
    let ?k = "if xs = [t] then 0 else 1"
    let ?q = "q\<lparr>wq_lock := ?k\<rparr>"
    have w1: "waiting s L ?q (t_gcq ts) xs" using w by (simp add: waiting_def wait_rep_def cong: list.case_cong)
    obtain q' s1 where p: "ring_remove ?q (t_gcq ts t) s = (q', s1)" by force
    note a = al.node_free [OF h w1 t p]
    obtain s' where s': "release os (t_gcq ts t) s1 = Some s'" "runtime_heap os s' (L(t_gcq ts t := None))"
      "waiting s' (L(t_gcq ts t := None)) q' ((t_gcq ts)(t := 0)) (remove1 t xs)" using a(1) by blast
    have q0: "wq_head q \<noteq> 0" using a(4) by simp
    have "safe_gcq_remove (release os) q t ts s =
        Some (1, q'\<lparr>wq_lock := wq_lock q' - 1\<rparr>, ts\<lparr>t_gcq := (t_gcq ts)(t := 0)\<rparr>, s')"
      using p s'(1) a(3,5) q0 l by (auto simp: safe_gcq_remove_def pthread_lock_def pthread_unlock_def Let_def split: if_splits)
    moreover have "waiting s' (L(t_gcq ts t := None)) (q'\<lparr>wq_lock := wq_lock q' - 1\<rparr>) ((t_gcq ts)(t := 0)) (remove1 t xs)"
      using s'(3) by (simp add: waiting_def wait_rep_def cong: list.case_cong)
    ultimately show "\<exists>q' s' L'. safe_gcq_remove (release os) q t ts s = Some (1, q', ts\<lparr>t_gcq := (t_gcq ts)(t := 0)\<rparr>, s') \<and>
      runtime_heap os s' L' \<and> waiting s' L' q' ((t_gcq ts)(t := 0)) (remove1 t xs) \<and>
      wq_lock q' = (if xs = [t] then - 1 else 0)"
      using s'(2) a(2) by (intro exI [of _ "q'\<lparr>wq_lock := wq_lock q' - 1\<rparr>"] exI [of _ s'] exI [of _ "L(t_gcq ts t := None)"]) simp
  qed
  show "t \<notin> set xs \<longrightarrow> (\<exists>q'. safe_gcq_remove (release os) q t ts s = Some (0, q', ts, s) \<and> wq_lock q' = 1 \<and>
      (\<forall>al u ts' s'. safe_gcq_push al q' u ts' s' = None))"
  proof
    assume "t \<notin> set xs"
    then have "t_gcq ts t = 0" using w by (auto simp: waiting_def)
    then show "\<exists>q'. safe_gcq_remove (release os) q t ts s = Some (0, q', ts, s) \<and> wq_lock q' = 1 \<and>
      (\<forall>al u ts' s'. safe_gcq_push al q' u ts' s' = None)"
      using l by (auto simp: safe_gcq_remove_def safe_gcq_push_def pthread_lock_def Let_def split: bind_splits)
  qed
qed

theorem gcq_remove_lock_witness:
  "\<exists>s q'. safe_gcq_remove (release demo_os) (safe_gcq_init 10) 48 \<lparr>t_wq = (\<lambda>_. 0), t_gcq = (\<lambda>_. 0)\<rparr> s =
     Some (0, q', \<lparr>t_wq = (\<lambda>_. 0), t_gcq = (\<lambda>_. 0)\<rparr>, s) \<and> wq_lock q' = 1"
proof -
  obtain s where s: "runtime_heap demo_os s Map.empty" by (rule demo_heap)
  have "waiting s Map.empty (safe_gcq_init 10) (t_gcq \<lparr>t_wq = (\<lambda>_. 0), t_gcq = (\<lambda>_. 0)\<rparr>) []"
    by (auto simp: waiting_def wait_rep_def safe_gcq_init_def wait_tasks_def intro!: exI [of _ "[]"])
  from gcq_remove_lock [OF s this, of 48] show ?thesis by (auto simp: safe_gcq_init_def)
qed

end
