(* ===== verification/Atomics.thy ===== *)
theory Atomics
  imports Prelude "HOL-Library.Word"
begin

unbundle bit_operations_syntax

text \<open>
  The atomic operations of \<^verbatim>\<open>src/runtime/src/atomics.c\<close>, one definition per function
  \<^verbatim>\<open>__public__atomics_<op>_<type>\<close>. Shared memory is a map from addresses to bytes, little endian.
  All operations of the source use C11's default sequentially consistent order, so a concurrent
  execution is a sequence of atomic steps in some interleaving. Integers are words of their width
  (two's complement for the signed types: C11 atomic arithmetic wraps), floating-point numbers are
  their bit patterns, which is what a C11 compare-exchange compares.
\<close>

type_synonym amem = "addr \<Rightarrow> 8 word"

section \<open>The C11 primitives\<close>

primrec le_load :: "nat \<Rightarrow> addr \<Rightarrow> amem \<Rightarrow> 'a::len word" where
  "le_load 0 p m = 0"
| "le_load (Suc n) p m = ucast (m p) OR push_bit 8 (le_load n (p + 1) m)"

primrec le_store :: "nat \<Rightarrow> addr \<Rightarrow> 'a::len word \<Rightarrow> amem \<Rightarrow> amem" where
  "le_store 0 p v m = m"
| "le_store (Suc n) p v m = le_store n (p + 1) (drop_bit 8 v) (m(p := ucast v))"

definition atomic_load :: "addr \<Rightarrow> amem \<Rightarrow> 'a::len word" where
  "atomic_load p m = le_load (LENGTH('a) div 8) p m"

definition atomic_store :: "addr \<Rightarrow> 'a::len word \<Rightarrow> amem \<Rightarrow> amem" where
  "atomic_store p v m = le_store (LENGTH('a) div 8) p v m"

definition atomic_exchange :: "addr \<Rightarrow> 'a::len word \<Rightarrow> amem \<Rightarrow> 'a word \<times> amem" where
  "atomic_exchange p v m = (atomic_load p m, atomic_store p v m)"

definition atomic_fetch_add :: "addr \<Rightarrow> 'a::len word \<Rightarrow> amem \<Rightarrow> 'a word \<times> amem" where
  "atomic_fetch_add p v m = (atomic_load p m, atomic_store p (atomic_load p m + v) m)"

definition atomic_fetch_sub :: "addr \<Rightarrow> 'a::len word \<Rightarrow> amem \<Rightarrow> 'a word \<times> amem" where
  "atomic_fetch_sub p v m = (atomic_load p m, atomic_store p (atomic_load p m - v) m)"

definition atomic_fetch_and :: "addr \<Rightarrow> 'a::len word \<Rightarrow> amem \<Rightarrow> 'a word \<times> amem" where
  "atomic_fetch_and p v m = (atomic_load p m, atomic_store p (atomic_load p m AND v) m)"

definition atomic_fetch_or :: "addr \<Rightarrow> 'a::len word \<Rightarrow> amem \<Rightarrow> 'a word \<times> amem" where
  "atomic_fetch_or p v m = (atomic_load p m, atomic_store p (atomic_load p m OR v) m)"

definition atomic_fetch_xor :: "addr \<Rightarrow> 'a::len word \<Rightarrow> amem \<Rightarrow> 'a word \<times> amem" where
  "atomic_fetch_xor p v m = (atomic_load p m, atomic_store p (atomic_load p m XOR v) m)"

text \<open>
  On failure C11 writes the current value to \<^verbatim>\<open>*expected\<close>, which in the runtime is always the
  local copy of an argument; only the result and the memory remain.
\<close>

definition atomic_compare_exchange_strong :: "addr \<Rightarrow> 'a::len word \<Rightarrow> 'a word \<Rightarrow> amem \<Rightarrow> bool \<times> amem" where
  "atomic_compare_exchange_strong p expected desired m =
     (if atomic_load p m = expected then (True, atomic_store p desired m) else (False, m))"

section \<open>The runtime's operations\<close>

subsection \<open>boolean\<close>

text \<open>A \<open>_Bool\<close> is one byte, 0 or 1.\<close>

definition atomics_store_boolean :: "addr \<Rightarrow> bool \<Rightarrow> amem \<Rightarrow> amem" where
  "atomics_store_boolean ptr val = atomic_store ptr (of_bool val :: 8 word)"

definition atomics_load_boolean :: "addr \<Rightarrow> amem \<Rightarrow> bool" where
  "atomics_load_boolean ptr m \<longleftrightarrow> (atomic_load ptr m :: 8 word) \<noteq> 0"

definition atomics_cas_boolean :: "addr \<Rightarrow> bool \<Rightarrow> bool \<Rightarrow> amem \<Rightarrow> bool \<times> amem" where
  "atomics_cas_boolean ptr expected desired =
     atomic_compare_exchange_strong ptr (of_bool expected :: 8 word) (of_bool desired)"

definition atomics_exchange_boolean :: "addr \<Rightarrow> bool \<Rightarrow> amem \<Rightarrow> bool \<times> amem" where
  "atomics_exchange_boolean ptr val m =
     (let (old, m) = atomic_exchange ptr (of_bool val :: 8 word) m in (old \<noteq> 0, m))"

subsection \<open>uint8\<close>

definition atomics_store_uint8 :: "addr \<Rightarrow> 8 word \<Rightarrow> amem \<Rightarrow> amem" where
  "atomics_store_uint8 ptr val = atomic_store ptr val"

definition atomics_load_uint8 :: "addr \<Rightarrow> amem \<Rightarrow> 8 word" where
  "atomics_load_uint8 ptr = atomic_load ptr"

definition atomics_add_uint8 :: "addr \<Rightarrow> 8 word \<Rightarrow> amem \<Rightarrow> 8 word \<times> amem" where
  "atomics_add_uint8 ptr val = atomic_fetch_add ptr val"

definition atomics_sub_uint8 :: "addr \<Rightarrow> 8 word \<Rightarrow> amem \<Rightarrow> 8 word \<times> amem" where
  "atomics_sub_uint8 ptr val = atomic_fetch_sub ptr val"

definition atomics_and_uint8 :: "addr \<Rightarrow> 8 word \<Rightarrow> amem \<Rightarrow> 8 word \<times> amem" where
  "atomics_and_uint8 ptr val = atomic_fetch_and ptr val"

definition atomics_or_uint8 :: "addr \<Rightarrow> 8 word \<Rightarrow> amem \<Rightarrow> 8 word \<times> amem" where
  "atomics_or_uint8 ptr val = atomic_fetch_or ptr val"

definition atomics_xor_uint8 :: "addr \<Rightarrow> 8 word \<Rightarrow> amem \<Rightarrow> 8 word \<times> amem" where
  "atomics_xor_uint8 ptr val = atomic_fetch_xor ptr val"

definition atomics_exchange_uint8 :: "addr \<Rightarrow> 8 word \<Rightarrow> amem \<Rightarrow> 8 word \<times> amem" where
  "atomics_exchange_uint8 ptr val = atomic_exchange ptr val"

definition atomics_cas_uint8 :: "addr \<Rightarrow> 8 word \<Rightarrow> 8 word \<Rightarrow> amem \<Rightarrow> bool \<times> amem" where
  "atomics_cas_uint8 ptr expected desired = atomic_compare_exchange_strong ptr expected desired"

subsection \<open>uint16\<close>

definition atomics_store_uint16 :: "addr \<Rightarrow> 16 word \<Rightarrow> amem \<Rightarrow> amem" where
  "atomics_store_uint16 ptr val = atomic_store ptr val"

definition atomics_load_uint16 :: "addr \<Rightarrow> amem \<Rightarrow> 16 word" where
  "atomics_load_uint16 ptr = atomic_load ptr"

definition atomics_add_uint16 :: "addr \<Rightarrow> 16 word \<Rightarrow> amem \<Rightarrow> 16 word \<times> amem" where
  "atomics_add_uint16 ptr val = atomic_fetch_add ptr val"

definition atomics_sub_uint16 :: "addr \<Rightarrow> 16 word \<Rightarrow> amem \<Rightarrow> 16 word \<times> amem" where
  "atomics_sub_uint16 ptr val = atomic_fetch_sub ptr val"

definition atomics_and_uint16 :: "addr \<Rightarrow> 16 word \<Rightarrow> amem \<Rightarrow> 16 word \<times> amem" where
  "atomics_and_uint16 ptr val = atomic_fetch_and ptr val"

definition atomics_or_uint16 :: "addr \<Rightarrow> 16 word \<Rightarrow> amem \<Rightarrow> 16 word \<times> amem" where
  "atomics_or_uint16 ptr val = atomic_fetch_or ptr val"

definition atomics_xor_uint16 :: "addr \<Rightarrow> 16 word \<Rightarrow> amem \<Rightarrow> 16 word \<times> amem" where
  "atomics_xor_uint16 ptr val = atomic_fetch_xor ptr val"

definition atomics_exchange_uint16 :: "addr \<Rightarrow> 16 word \<Rightarrow> amem \<Rightarrow> 16 word \<times> amem" where
  "atomics_exchange_uint16 ptr val = atomic_exchange ptr val"

definition atomics_cas_uint16 :: "addr \<Rightarrow> 16 word \<Rightarrow> 16 word \<Rightarrow> amem \<Rightarrow> bool \<times> amem" where
  "atomics_cas_uint16 ptr expected desired = atomic_compare_exchange_strong ptr expected desired"

subsection \<open>uint32\<close>

definition atomics_store_uint32 :: "addr \<Rightarrow> 32 word \<Rightarrow> amem \<Rightarrow> amem" where
  "atomics_store_uint32 ptr val = atomic_store ptr val"

definition atomics_load_uint32 :: "addr \<Rightarrow> amem \<Rightarrow> 32 word" where
  "atomics_load_uint32 ptr = atomic_load ptr"

definition atomics_add_uint32 :: "addr \<Rightarrow> 32 word \<Rightarrow> amem \<Rightarrow> 32 word \<times> amem" where
  "atomics_add_uint32 ptr val = atomic_fetch_add ptr val"

definition atomics_sub_uint32 :: "addr \<Rightarrow> 32 word \<Rightarrow> amem \<Rightarrow> 32 word \<times> amem" where
  "atomics_sub_uint32 ptr val = atomic_fetch_sub ptr val"

definition atomics_and_uint32 :: "addr \<Rightarrow> 32 word \<Rightarrow> amem \<Rightarrow> 32 word \<times> amem" where
  "atomics_and_uint32 ptr val = atomic_fetch_and ptr val"

definition atomics_or_uint32 :: "addr \<Rightarrow> 32 word \<Rightarrow> amem \<Rightarrow> 32 word \<times> amem" where
  "atomics_or_uint32 ptr val = atomic_fetch_or ptr val"

definition atomics_xor_uint32 :: "addr \<Rightarrow> 32 word \<Rightarrow> amem \<Rightarrow> 32 word \<times> amem" where
  "atomics_xor_uint32 ptr val = atomic_fetch_xor ptr val"

definition atomics_exchange_uint32 :: "addr \<Rightarrow> 32 word \<Rightarrow> amem \<Rightarrow> 32 word \<times> amem" where
  "atomics_exchange_uint32 ptr val = atomic_exchange ptr val"

definition atomics_cas_uint32 :: "addr \<Rightarrow> 32 word \<Rightarrow> 32 word \<Rightarrow> amem \<Rightarrow> bool \<times> amem" where
  "atomics_cas_uint32 ptr expected desired = atomic_compare_exchange_strong ptr expected desired"

subsection \<open>uint64\<close>

definition atomics_store_uint64 :: "addr \<Rightarrow> 64 word \<Rightarrow> amem \<Rightarrow> amem" where
  "atomics_store_uint64 ptr val = atomic_store ptr val"

definition atomics_load_uint64 :: "addr \<Rightarrow> amem \<Rightarrow> 64 word" where
  "atomics_load_uint64 ptr = atomic_load ptr"

definition atomics_add_uint64 :: "addr \<Rightarrow> 64 word \<Rightarrow> amem \<Rightarrow> 64 word \<times> amem" where
  "atomics_add_uint64 ptr val = atomic_fetch_add ptr val"

definition atomics_sub_uint64 :: "addr \<Rightarrow> 64 word \<Rightarrow> amem \<Rightarrow> 64 word \<times> amem" where
  "atomics_sub_uint64 ptr val = atomic_fetch_sub ptr val"

definition atomics_and_uint64 :: "addr \<Rightarrow> 64 word \<Rightarrow> amem \<Rightarrow> 64 word \<times> amem" where
  "atomics_and_uint64 ptr val = atomic_fetch_and ptr val"

definition atomics_or_uint64 :: "addr \<Rightarrow> 64 word \<Rightarrow> amem \<Rightarrow> 64 word \<times> amem" where
  "atomics_or_uint64 ptr val = atomic_fetch_or ptr val"

definition atomics_xor_uint64 :: "addr \<Rightarrow> 64 word \<Rightarrow> amem \<Rightarrow> 64 word \<times> amem" where
  "atomics_xor_uint64 ptr val = atomic_fetch_xor ptr val"

definition atomics_exchange_uint64 :: "addr \<Rightarrow> 64 word \<Rightarrow> amem \<Rightarrow> 64 word \<times> amem" where
  "atomics_exchange_uint64 ptr val = atomic_exchange ptr val"

definition atomics_cas_uint64 :: "addr \<Rightarrow> 64 word \<Rightarrow> 64 word \<Rightarrow> amem \<Rightarrow> bool \<times> amem" where
  "atomics_cas_uint64 ptr expected desired = atomic_compare_exchange_strong ptr expected desired"

subsection \<open>int8\<close>

definition atomics_store_int8 :: "addr \<Rightarrow> 8 word \<Rightarrow> amem \<Rightarrow> amem" where
  "atomics_store_int8 ptr val = atomic_store ptr val"

definition atomics_load_int8 :: "addr \<Rightarrow> amem \<Rightarrow> 8 word" where
  "atomics_load_int8 ptr = atomic_load ptr"

definition atomics_add_int8 :: "addr \<Rightarrow> 8 word \<Rightarrow> amem \<Rightarrow> 8 word \<times> amem" where
  "atomics_add_int8 ptr val = atomic_fetch_add ptr val"

definition atomics_sub_int8 :: "addr \<Rightarrow> 8 word \<Rightarrow> amem \<Rightarrow> 8 word \<times> amem" where
  "atomics_sub_int8 ptr val = atomic_fetch_sub ptr val"

definition atomics_and_int8 :: "addr \<Rightarrow> 8 word \<Rightarrow> amem \<Rightarrow> 8 word \<times> amem" where
  "atomics_and_int8 ptr val = atomic_fetch_and ptr val"

definition atomics_or_int8 :: "addr \<Rightarrow> 8 word \<Rightarrow> amem \<Rightarrow> 8 word \<times> amem" where
  "atomics_or_int8 ptr val = atomic_fetch_or ptr val"

definition atomics_xor_int8 :: "addr \<Rightarrow> 8 word \<Rightarrow> amem \<Rightarrow> 8 word \<times> amem" where
  "atomics_xor_int8 ptr val = atomic_fetch_xor ptr val"

definition atomics_exchange_int8 :: "addr \<Rightarrow> 8 word \<Rightarrow> amem \<Rightarrow> 8 word \<times> amem" where
  "atomics_exchange_int8 ptr val = atomic_exchange ptr val"

definition atomics_cas_int8 :: "addr \<Rightarrow> 8 word \<Rightarrow> 8 word \<Rightarrow> amem \<Rightarrow> bool \<times> amem" where
  "atomics_cas_int8 ptr expected desired = atomic_compare_exchange_strong ptr expected desired"

subsection \<open>int16\<close>

definition atomics_store_int16 :: "addr \<Rightarrow> 16 word \<Rightarrow> amem \<Rightarrow> amem" where
  "atomics_store_int16 ptr val = atomic_store ptr val"

definition atomics_load_int16 :: "addr \<Rightarrow> amem \<Rightarrow> 16 word" where
  "atomics_load_int16 ptr = atomic_load ptr"

definition atomics_add_int16 :: "addr \<Rightarrow> 16 word \<Rightarrow> amem \<Rightarrow> 16 word \<times> amem" where
  "atomics_add_int16 ptr val = atomic_fetch_add ptr val"

definition atomics_sub_int16 :: "addr \<Rightarrow> 16 word \<Rightarrow> amem \<Rightarrow> 16 word \<times> amem" where
  "atomics_sub_int16 ptr val = atomic_fetch_sub ptr val"

definition atomics_and_int16 :: "addr \<Rightarrow> 16 word \<Rightarrow> amem \<Rightarrow> 16 word \<times> amem" where
  "atomics_and_int16 ptr val = atomic_fetch_and ptr val"

definition atomics_or_int16 :: "addr \<Rightarrow> 16 word \<Rightarrow> amem \<Rightarrow> 16 word \<times> amem" where
  "atomics_or_int16 ptr val = atomic_fetch_or ptr val"

definition atomics_xor_int16 :: "addr \<Rightarrow> 16 word \<Rightarrow> amem \<Rightarrow> 16 word \<times> amem" where
  "atomics_xor_int16 ptr val = atomic_fetch_xor ptr val"

definition atomics_exchange_int16 :: "addr \<Rightarrow> 16 word \<Rightarrow> amem \<Rightarrow> 16 word \<times> amem" where
  "atomics_exchange_int16 ptr val = atomic_exchange ptr val"

definition atomics_cas_int16 :: "addr \<Rightarrow> 16 word \<Rightarrow> 16 word \<Rightarrow> amem \<Rightarrow> bool \<times> amem" where
  "atomics_cas_int16 ptr expected desired = atomic_compare_exchange_strong ptr expected desired"

subsection \<open>int32\<close>

definition atomics_store_int32 :: "addr \<Rightarrow> 32 word \<Rightarrow> amem \<Rightarrow> amem" where
  "atomics_store_int32 ptr val = atomic_store ptr val"

definition atomics_load_int32 :: "addr \<Rightarrow> amem \<Rightarrow> 32 word" where
  "atomics_load_int32 ptr = atomic_load ptr"

definition atomics_add_int32 :: "addr \<Rightarrow> 32 word \<Rightarrow> amem \<Rightarrow> 32 word \<times> amem" where
  "atomics_add_int32 ptr val = atomic_fetch_add ptr val"

definition atomics_sub_int32 :: "addr \<Rightarrow> 32 word \<Rightarrow> amem \<Rightarrow> 32 word \<times> amem" where
  "atomics_sub_int32 ptr val = atomic_fetch_sub ptr val"

definition atomics_and_int32 :: "addr \<Rightarrow> 32 word \<Rightarrow> amem \<Rightarrow> 32 word \<times> amem" where
  "atomics_and_int32 ptr val = atomic_fetch_and ptr val"

definition atomics_or_int32 :: "addr \<Rightarrow> 32 word \<Rightarrow> amem \<Rightarrow> 32 word \<times> amem" where
  "atomics_or_int32 ptr val = atomic_fetch_or ptr val"

definition atomics_xor_int32 :: "addr \<Rightarrow> 32 word \<Rightarrow> amem \<Rightarrow> 32 word \<times> amem" where
  "atomics_xor_int32 ptr val = atomic_fetch_xor ptr val"

definition atomics_exchange_int32 :: "addr \<Rightarrow> 32 word \<Rightarrow> amem \<Rightarrow> 32 word \<times> amem" where
  "atomics_exchange_int32 ptr val = atomic_exchange ptr val"

definition atomics_cas_int32 :: "addr \<Rightarrow> 32 word \<Rightarrow> 32 word \<Rightarrow> amem \<Rightarrow> bool \<times> amem" where
  "atomics_cas_int32 ptr expected desired = atomic_compare_exchange_strong ptr expected desired"

subsection \<open>int64\<close>

definition atomics_store_int64 :: "addr \<Rightarrow> 64 word \<Rightarrow> amem \<Rightarrow> amem" where
  "atomics_store_int64 ptr val = atomic_store ptr val"

definition atomics_load_int64 :: "addr \<Rightarrow> amem \<Rightarrow> 64 word" where
  "atomics_load_int64 ptr = atomic_load ptr"

definition atomics_add_int64 :: "addr \<Rightarrow> 64 word \<Rightarrow> amem \<Rightarrow> 64 word \<times> amem" where
  "atomics_add_int64 ptr val = atomic_fetch_add ptr val"

definition atomics_sub_int64 :: "addr \<Rightarrow> 64 word \<Rightarrow> amem \<Rightarrow> 64 word \<times> amem" where
  "atomics_sub_int64 ptr val = atomic_fetch_sub ptr val"

definition atomics_and_int64 :: "addr \<Rightarrow> 64 word \<Rightarrow> amem \<Rightarrow> 64 word \<times> amem" where
  "atomics_and_int64 ptr val = atomic_fetch_and ptr val"

definition atomics_or_int64 :: "addr \<Rightarrow> 64 word \<Rightarrow> amem \<Rightarrow> 64 word \<times> amem" where
  "atomics_or_int64 ptr val = atomic_fetch_or ptr val"

definition atomics_xor_int64 :: "addr \<Rightarrow> 64 word \<Rightarrow> amem \<Rightarrow> 64 word \<times> amem" where
  "atomics_xor_int64 ptr val = atomic_fetch_xor ptr val"

definition atomics_exchange_int64 :: "addr \<Rightarrow> 64 word \<Rightarrow> amem \<Rightarrow> 64 word \<times> amem" where
  "atomics_exchange_int64 ptr val = atomic_exchange ptr val"

definition atomics_cas_int64 :: "addr \<Rightarrow> 64 word \<Rightarrow> 64 word \<Rightarrow> amem \<Rightarrow> bool \<times> amem" where
  "atomics_cas_int64 ptr expected desired = atomic_compare_exchange_strong ptr expected desired"

subsection \<open>int\<close>

definition atomics_store_int :: "addr \<Rightarrow> 64 word \<Rightarrow> amem \<Rightarrow> amem" where
  "atomics_store_int ptr val = atomic_store ptr val"

definition atomics_load_int :: "addr \<Rightarrow> amem \<Rightarrow> 64 word" where
  "atomics_load_int ptr = atomic_load ptr"

definition atomics_add_int :: "addr \<Rightarrow> 64 word \<Rightarrow> amem \<Rightarrow> 64 word \<times> amem" where
  "atomics_add_int ptr val = atomic_fetch_add ptr val"

definition atomics_sub_int :: "addr \<Rightarrow> 64 word \<Rightarrow> amem \<Rightarrow> 64 word \<times> amem" where
  "atomics_sub_int ptr val = atomic_fetch_sub ptr val"

definition atomics_and_int :: "addr \<Rightarrow> 64 word \<Rightarrow> amem \<Rightarrow> 64 word \<times> amem" where
  "atomics_and_int ptr val = atomic_fetch_and ptr val"

definition atomics_or_int :: "addr \<Rightarrow> 64 word \<Rightarrow> amem \<Rightarrow> 64 word \<times> amem" where
  "atomics_or_int ptr val = atomic_fetch_or ptr val"

definition atomics_xor_int :: "addr \<Rightarrow> 64 word \<Rightarrow> amem \<Rightarrow> 64 word \<times> amem" where
  "atomics_xor_int ptr val = atomic_fetch_xor ptr val"

definition atomics_exchange_int :: "addr \<Rightarrow> 64 word \<Rightarrow> amem \<Rightarrow> 64 word \<times> amem" where
  "atomics_exchange_int ptr val = atomic_exchange ptr val"

definition atomics_cas_int :: "addr \<Rightarrow> 64 word \<Rightarrow> 64 word \<Rightarrow> amem \<Rightarrow> bool \<times> amem" where
  "atomics_cas_int ptr expected desired = atomic_compare_exchange_strong ptr expected desired"

subsection \<open>float16\<close>

definition atomics_store_float16 :: "addr \<Rightarrow> 16 word \<Rightarrow> amem \<Rightarrow> amem" where
  "atomics_store_float16 ptr val = atomic_store ptr val"

definition atomics_load_float16 :: "addr \<Rightarrow> amem \<Rightarrow> 16 word" where
  "atomics_load_float16 ptr = atomic_load ptr"

definition atomics_exchange_float16 :: "addr \<Rightarrow> 16 word \<Rightarrow> amem \<Rightarrow> 16 word \<times> amem" where
  "atomics_exchange_float16 ptr val = atomic_exchange ptr val"

definition atomics_cas_float16 :: "addr \<Rightarrow> 16 word \<Rightarrow> 16 word \<Rightarrow> amem \<Rightarrow> bool \<times> amem" where
  "atomics_cas_float16 ptr expected desired = atomic_compare_exchange_strong ptr expected desired"

subsection \<open>float32\<close>

definition atomics_store_float32 :: "addr \<Rightarrow> 32 word \<Rightarrow> amem \<Rightarrow> amem" where
  "atomics_store_float32 ptr val = atomic_store ptr val"

definition atomics_load_float32 :: "addr \<Rightarrow> amem \<Rightarrow> 32 word" where
  "atomics_load_float32 ptr = atomic_load ptr"

definition atomics_exchange_float32 :: "addr \<Rightarrow> 32 word \<Rightarrow> amem \<Rightarrow> 32 word \<times> amem" where
  "atomics_exchange_float32 ptr val = atomic_exchange ptr val"

definition atomics_cas_float32 :: "addr \<Rightarrow> 32 word \<Rightarrow> 32 word \<Rightarrow> amem \<Rightarrow> bool \<times> amem" where
  "atomics_cas_float32 ptr expected desired = atomic_compare_exchange_strong ptr expected desired"

subsection \<open>float64\<close>

definition atomics_store_float64 :: "addr \<Rightarrow> 64 word \<Rightarrow> amem \<Rightarrow> amem" where
  "atomics_store_float64 ptr val = atomic_store ptr val"

definition atomics_load_float64 :: "addr \<Rightarrow> amem \<Rightarrow> 64 word" where
  "atomics_load_float64 ptr = atomic_load ptr"

definition atomics_exchange_float64 :: "addr \<Rightarrow> 64 word \<Rightarrow> amem \<Rightarrow> 64 word \<times> amem" where
  "atomics_exchange_float64 ptr val = atomic_exchange ptr val"

definition atomics_cas_float64 :: "addr \<Rightarrow> 64 word \<Rightarrow> 64 word \<Rightarrow> amem \<Rightarrow> bool \<times> amem" where
  "atomics_cas_float64 ptr expected desired = atomic_compare_exchange_strong ptr expected desired"

subsection \<open>double\<close>

definition atomics_store_double :: "addr \<Rightarrow> 64 word \<Rightarrow> amem \<Rightarrow> amem" where
  "atomics_store_double ptr val = atomic_store ptr val"

definition atomics_load_double :: "addr \<Rightarrow> amem \<Rightarrow> 64 word" where
  "atomics_load_double ptr = atomic_load ptr"

definition atomics_exchange_double :: "addr \<Rightarrow> 64 word \<Rightarrow> amem \<Rightarrow> 64 word \<times> amem" where
  "atomics_exchange_double ptr val = atomic_exchange ptr val"

definition atomics_cas_double :: "addr \<Rightarrow> 64 word \<Rightarrow> 64 word \<Rightarrow> amem \<Rightarrow> bool \<times> amem" where
  "atomics_cas_double ptr expected desired = atomic_compare_exchange_strong ptr expected desired"

subsection \<open>ptr\<close>

definition atomics_store_ptr :: "addr \<Rightarrow> 64 word \<Rightarrow> amem \<Rightarrow> amem" where
  "atomics_store_ptr ptr val = atomic_store ptr val"

definition atomics_load_ptr :: "addr \<Rightarrow> amem \<Rightarrow> 64 word" where
  "atomics_load_ptr ptr = atomic_load ptr"

definition atomics_exchange_ptr :: "addr \<Rightarrow> 64 word \<Rightarrow> amem \<Rightarrow> 64 word \<times> amem" where
  "atomics_exchange_ptr ptr val = atomic_exchange ptr val"

definition atomics_cas_ptr :: "addr \<Rightarrow> 64 word \<Rightarrow> 64 word \<Rightarrow> amem \<Rightarrow> bool \<times> amem" where
  "atomics_cas_ptr ptr expected desired = atomic_compare_exchange_strong ptr expected desired"

section \<open>Bytes and words\<close>

lemma le_load_cong: "(\<And>i. 0 \<le> i \<Longrightarrow> i < int n \<Longrightarrow> m' (p + i) = m (p + i)) \<Longrightarrow>
    le_load n p m' = (le_load n p m :: 'a::len word)"
proof (induction n arbitrary: p)
  case (Suc n)
  have "m' p = m p" using Suc.prems [of 0] by simp
  moreover have "le_load n (p + 1) m' = (le_load n (p + 1) m :: 'a word)"
  proof (rule Suc.IH)
    fix i :: int assume "0 \<le> i" "i < int n"
    then show "m' (p + 1 + i) = m (p + 1 + i)" using Suc.prems [of "1 + i"] by (simp add: add.assoc)
  qed
  ultimately show ?case by simp
qed simp

lemma le_store_other: "a < p \<or> p + int n \<le> a \<Longrightarrow> le_store n p v m a = m a"
  by (induction n arbitrary: p v m) auto

lemma le_store_head: "le_store n (p + 1) v m p = m p"
  by (rule le_store_other) simp

lemma byte_split: "ucast (ucast (v :: 'a::len word) :: 8 word) OR push_bit 8 (take_bit n (drop_bit 8 v)) = take_bit (8 + n) v"
  by (rule bit_word_eqI) (auto simp: bit_simps)

lemma le_load_store: "le_load n p (le_store n p v m) = take_bit (8 * n) v"
proof (induction n arbitrary: p v m)
  case (Suc n)
  show ?case using byte_split [of v "8 * n"] by (simp add: Suc.IH le_store_head)
qed simp

lemma atomic_load_store:
  assumes "LENGTH('a) = 8 * n"
  shows "atomic_load p (atomic_store p v m) = (v :: 'a::len word)"
proof -
  have "LENGTH('a) div 8 = n" using assms by simp
  then show ?thesis
    using assms by (simp add: atomic_load_def atomic_store_def le_load_store take_bit_word_eq_self)
qed

lemma atomic_store_other:
  assumes "LENGTH('a) = 8 * n" "a < p \<or> p + int n \<le> a"
  shows "atomic_store p (v :: 'a::len word) m a = m a"
proof -
  have "LENGTH('a) div 8 = n" using assms by simp
  then show ?thesis using assms(2) by (simp add: atomic_store_def le_store_other)
qed

lemma atomic_load_cong:
  assumes "LENGTH('a) = 8 * n" "\<And>i. 0 \<le> i \<Longrightarrow> i < int n \<Longrightarrow> m' (p + i) = m (p + i)"
  shows "atomic_load p m' = (atomic_load p m :: 'a::len word)"
proof -
  have "LENGTH('a) div 8 = n" using assms(1) by simp
  then show ?thesis unfolding atomic_load_def by (simp only:) (rule le_load_cong, rule assms(2))
qed

section \<open>The interface of an atomic type\<close>

text \<open>
  The functions for one type as a table, the calls a thread can make, and what each must do to an
  abstract register.
\<close>

record 'v cell_ops =
  a_load :: "addr \<Rightarrow> amem \<Rightarrow> 'v"
  a_store :: "addr \<Rightarrow> 'v \<Rightarrow> amem \<Rightarrow> amem"
  a_exchange :: "addr \<Rightarrow> 'v \<Rightarrow> amem \<Rightarrow> 'v \<times> amem"
  a_cas :: "addr \<Rightarrow> 'v \<Rightarrow> 'v \<Rightarrow> amem \<Rightarrow> bool \<times> amem"

record 'v int_ops = "'v cell_ops" +
  a_add :: "addr \<Rightarrow> 'v \<Rightarrow> amem \<Rightarrow> 'v \<times> amem"
  a_sub :: "addr \<Rightarrow> 'v \<Rightarrow> amem \<Rightarrow> 'v \<times> amem"
  a_and :: "addr \<Rightarrow> 'v \<Rightarrow> amem \<Rightarrow> 'v \<times> amem"
  a_or :: "addr \<Rightarrow> 'v \<Rightarrow> amem \<Rightarrow> 'v \<times> amem"
  a_xor :: "addr \<Rightarrow> 'v \<Rightarrow> amem \<Rightarrow> 'v \<times> amem"

datatype 'v cell_call = Load | Store 'v | Exchange 'v | Cas 'v 'v

datatype 'v int_call = Cell "'v cell_call" | Add 'v | Sub 'v | And 'v | Or 'v | Xor 'v

datatype 'v answer = Done | Got 'v | Swapped bool

fun cell_exec :: "('v, 'x) cell_ops_scheme \<Rightarrow> addr \<Rightarrow> 'v cell_call \<Rightarrow> amem \<Rightarrow> 'v answer \<times> amem" where
  "cell_exec T p Load m = (Got (a_load T p m), m)"
| "cell_exec T p (Store v) m = (Done, a_store T p v m)"
| "cell_exec T p (Exchange v) m = (case a_exchange T p v m of (r, m') \<Rightarrow> (Got r, m'))"
| "cell_exec T p (Cas e d) m = (case a_cas T p e d m of (r, m') \<Rightarrow> (Swapped r, m'))"

fun int_exec :: "('v, 'x) int_ops_scheme \<Rightarrow> addr \<Rightarrow> 'v int_call \<Rightarrow> amem \<Rightarrow> 'v answer \<times> amem" where
  "int_exec T p (Cell c) m = cell_exec T p c m"
| "int_exec T p (Add v) m = (case a_add T p v m of (r, m') \<Rightarrow> (Got r, m'))"
| "int_exec T p (Sub v) m = (case a_sub T p v m of (r, m') \<Rightarrow> (Got r, m'))"
| "int_exec T p (And v) m = (case a_and T p v m of (r, m') \<Rightarrow> (Got r, m'))"
| "int_exec T p (Or v) m = (case a_or T p v m of (r, m') \<Rightarrow> (Got r, m'))"
| "int_exec T p (Xor v) m = (case a_xor T p v m of (r, m') \<Rightarrow> (Got r, m'))"

fun cell_spec :: "'v cell_call \<Rightarrow> 'v \<Rightarrow> 'v answer \<times> 'v" where
  "cell_spec Load x = (Got x, x)"
| "cell_spec (Store v) x = (Done, v)"
| "cell_spec (Exchange v) x = (Got x, v)"
| "cell_spec (Cas e d) x = (if x = e then (Swapped True, d) else (Swapped False, x))"

fun int_spec :: "'a::len word int_call \<Rightarrow> 'a word \<Rightarrow> 'a word answer \<times> 'a word" where
  "int_spec (Cell c) x = cell_spec c x"
| "int_spec (Add v) x = (Got x, x + v)"
| "int_spec (Sub v) x = (Got x, x - v)"
| "int_spec (And v) x = (Got x, x AND v)"
| "int_spec (Or v) x = (Got x, x OR v)"
| "int_spec (Xor v) x = (Got x, x XOR v)"

text \<open>
  An execution is the sequence of steps that touch memory: the calls on one cell, by all threads in
  the order they take effect (\<open>Inl\<close>), and arbitrary writes elsewhere (\<open>Inr\<close>).
\<close>

fun run_events :: "('c \<Rightarrow> amem \<Rightarrow> 'r \<times> amem) \<Rightarrow> ('c + (amem \<Rightarrow> amem)) list \<Rightarrow> amem \<Rightarrow> 'r list \<times> amem" where
  "run_events f [] m = ([], m)"
| "run_events f (Inl c # es) m = (case f c m of (r, m1) \<Rightarrow> case run_events f es m1 of (rs, m2) \<Rightarrow> (r # rs, m2))"
| "run_events f (Inr g # es) m = run_events f es (g m)"

fun run_spec :: "('c \<Rightarrow> 'v \<Rightarrow> 'r \<times> 'v) \<Rightarrow> 'c list \<Rightarrow> 'v \<Rightarrow> 'r list \<times> 'v" where
  "run_spec f [] x = ([], x)"
| "run_spec f (c # cs) x = (case f c x of (r, x1) \<Rightarrow> case run_spec f cs x1 of (rs, x2) \<Rightarrow> (r # rs, x2))"

definition calls :: "('c + (amem \<Rightarrow> amem)) list \<Rightarrow> 'c list" where
  "calls es = concat (map (case_sum (\<lambda>c. [c]) (\<lambda>_. [])) es)"

definition elsewhere :: "int \<Rightarrow> addr \<Rightarrow> (amem \<Rightarrow> amem) \<Rightarrow> bool" where
  "elsewhere sz p g \<longleftrightarrow> (\<forall>m i. 0 \<le> i \<longrightarrow> i < sz \<longrightarrow> g m (p + i) = m (p + i))"

definition quiet :: "int \<Rightarrow> addr \<Rightarrow> ('c + (amem \<Rightarrow> amem)) list \<Rightarrow> bool" where
  "quiet sz p es \<longleftrightarrow> (\<forall>g. Inr g \<in> set es \<longrightarrow> elsewhere sz p g)"

lemma calls_simps [simp]: "calls [] = []" "calls (Inl c # es) = c # calls es" "calls (Inr g # es) = calls es"
  by (simp_all add: calls_def)

lemma quiet_simps [simp]: "quiet sz p []" "quiet sz p (Inl c # es) = quiet sz p es"
    "quiet sz p (Inr g # es) \<longleftrightarrow> elsewhere sz p g \<and> quiet sz p es"
  by (auto simp: quiet_def)

text \<open>
  A table implements a specification of its calls on a register (\<open>ok\<close> holds of the cells that have a
  value representation of the type).
\<close>

locale atomic_cell =
  fixes sz :: int and T :: "('v, 'x) cell_ops_scheme" and ok :: "addr \<Rightarrow> amem \<Rightarrow> bool"
    and exec :: "'c \<Rightarrow> addr \<Rightarrow> amem \<Rightarrow> 'r \<times> amem" and spec :: "'c \<Rightarrow> 'v \<Rightarrow> 'r \<times> 'v"
  assumes size: "0 < sz"
    and local: "ok p m \<Longrightarrow> (\<And>i. 0 \<le> i \<Longrightarrow> i < sz \<Longrightarrow> m' (p + i) = m (p + i)) \<Longrightarrow> ok p m' \<and> a_load T p m' = a_load T p m"
    and step: "ok p m \<Longrightarrow> exec c p m = (r, m') \<Longrightarrow> ok p m' \<and> spec c (a_load T p m) = (r, a_load T p m')"
    and frame: "exec c p m = (r, m') \<Longrightarrow> a < p \<or> p + sz \<le> a \<Longrightarrow> m' a = m a"
begin

lemma linear:
  assumes "ok p m" "quiet sz p es"
  shows "run_spec spec (calls es) (a_load T p m) =
    (case run_events (\<lambda>c. exec c p) es m of (rs, m') \<Rightarrow> (rs, a_load T p m'))"
  using assms
proof (induction es arbitrary: m)
  case (Cons e es)
  show ?case
  proof (cases e)
    case (Inl c)
    obtain r m1 where r: "exec c p m = (r, m1)" by force
    note s = step [OF Cons.prems(1) r]
    have "quiet sz p es" using Cons.prems(2) Inl by simp
    from Cons.IH [OF s [THEN conjunct1] this] show ?thesis using r s Inl by (auto split: prod.splits)
  next
    case (Inr g)
    have q: "elsewhere sz p g" "quiet sz p es" using Cons.prems(2) Inr by simp_all
    have "ok p (g m) \<and> a_load T p (g m) = a_load T p m"
      using local [OF Cons.prems(1), of "g m"] q(1) by (simp add: elsewhere_def)
    then show ?thesis using Cons.IH [OF _ q(2), of "g m"] Inr by simp
  qed
qed simp

lemma other_cell:
  assumes "exec c p m = (r, m')" "p + sz \<le> q \<or> q + sz \<le> p" "ok q m"
  shows "ok q m' \<and> a_load T q m' = a_load T q m"
  by (rule local [OF assms(3)]) (use frame [OF assms(1)] assms(2) in auto)

end

definition boolean_ok :: "addr \<Rightarrow> amem \<Rightarrow> bool" where
  "boolean_ok p m \<longleftrightarrow> m p \<in> {0, 1}"

definition boolean_ops :: "bool cell_ops" where
  "boolean_ops = \<lparr>a_load = atomics_load_boolean, a_store = atomics_store_boolean,
     a_exchange = atomics_exchange_boolean, a_cas = atomics_cas_boolean\<rparr>"

definition uint8_ops :: "8 word int_ops" where
  "uint8_ops = \<lparr>a_load = atomics_load_uint8, a_store = atomics_store_uint8, a_exchange = atomics_exchange_uint8, a_cas = atomics_cas_uint8, a_add = atomics_add_uint8, a_sub = atomics_sub_uint8, a_and = atomics_and_uint8, a_or = atomics_or_uint8, a_xor = atomics_xor_uint8\<rparr>"

definition uint16_ops :: "16 word int_ops" where
  "uint16_ops = \<lparr>a_load = atomics_load_uint16, a_store = atomics_store_uint16, a_exchange = atomics_exchange_uint16, a_cas = atomics_cas_uint16, a_add = atomics_add_uint16, a_sub = atomics_sub_uint16, a_and = atomics_and_uint16, a_or = atomics_or_uint16, a_xor = atomics_xor_uint16\<rparr>"

definition uint32_ops :: "32 word int_ops" where
  "uint32_ops = \<lparr>a_load = atomics_load_uint32, a_store = atomics_store_uint32, a_exchange = atomics_exchange_uint32, a_cas = atomics_cas_uint32, a_add = atomics_add_uint32, a_sub = atomics_sub_uint32, a_and = atomics_and_uint32, a_or = atomics_or_uint32, a_xor = atomics_xor_uint32\<rparr>"

definition uint64_ops :: "64 word int_ops" where
  "uint64_ops = \<lparr>a_load = atomics_load_uint64, a_store = atomics_store_uint64, a_exchange = atomics_exchange_uint64, a_cas = atomics_cas_uint64, a_add = atomics_add_uint64, a_sub = atomics_sub_uint64, a_and = atomics_and_uint64, a_or = atomics_or_uint64, a_xor = atomics_xor_uint64\<rparr>"

definition int8_ops :: "8 word int_ops" where
  "int8_ops = \<lparr>a_load = atomics_load_int8, a_store = atomics_store_int8, a_exchange = atomics_exchange_int8, a_cas = atomics_cas_int8, a_add = atomics_add_int8, a_sub = atomics_sub_int8, a_and = atomics_and_int8, a_or = atomics_or_int8, a_xor = atomics_xor_int8\<rparr>"

definition int16_ops :: "16 word int_ops" where
  "int16_ops = \<lparr>a_load = atomics_load_int16, a_store = atomics_store_int16, a_exchange = atomics_exchange_int16, a_cas = atomics_cas_int16, a_add = atomics_add_int16, a_sub = atomics_sub_int16, a_and = atomics_and_int16, a_or = atomics_or_int16, a_xor = atomics_xor_int16\<rparr>"

definition int32_ops :: "32 word int_ops" where
  "int32_ops = \<lparr>a_load = atomics_load_int32, a_store = atomics_store_int32, a_exchange = atomics_exchange_int32, a_cas = atomics_cas_int32, a_add = atomics_add_int32, a_sub = atomics_sub_int32, a_and = atomics_and_int32, a_or = atomics_or_int32, a_xor = atomics_xor_int32\<rparr>"

definition int64_ops :: "64 word int_ops" where
  "int64_ops = \<lparr>a_load = atomics_load_int64, a_store = atomics_store_int64, a_exchange = atomics_exchange_int64, a_cas = atomics_cas_int64, a_add = atomics_add_int64, a_sub = atomics_sub_int64, a_and = atomics_and_int64, a_or = atomics_or_int64, a_xor = atomics_xor_int64\<rparr>"

definition int_ops :: "64 word int_ops" where
  "int_ops = \<lparr>a_load = atomics_load_int, a_store = atomics_store_int, a_exchange = atomics_exchange_int, a_cas = atomics_cas_int, a_add = atomics_add_int, a_sub = atomics_sub_int, a_and = atomics_and_int, a_or = atomics_or_int, a_xor = atomics_xor_int\<rparr>"

definition float16_ops :: "16 word cell_ops" where
  "float16_ops = \<lparr>a_load = atomics_load_float16, a_store = atomics_store_float16, a_exchange = atomics_exchange_float16, a_cas = atomics_cas_float16\<rparr>"

definition float32_ops :: "32 word cell_ops" where
  "float32_ops = \<lparr>a_load = atomics_load_float32, a_store = atomics_store_float32, a_exchange = atomics_exchange_float32, a_cas = atomics_cas_float32\<rparr>"

definition float64_ops :: "64 word cell_ops" where
  "float64_ops = \<lparr>a_load = atomics_load_float64, a_store = atomics_store_float64, a_exchange = atomics_exchange_float64, a_cas = atomics_cas_float64\<rparr>"

definition double_ops :: "64 word cell_ops" where
  "double_ops = \<lparr>a_load = atomics_load_double, a_store = atomics_store_double, a_exchange = atomics_exchange_double, a_cas = atomics_cas_double\<rparr>"

definition ptr_ops :: "64 word cell_ops" where
  "ptr_ops = \<lparr>a_load = atomics_load_ptr, a_store = atomics_store_ptr, a_exchange = atomics_exchange_ptr, a_cas = atomics_cas_ptr\<rparr>"

lemmas uint8_defs = uint8_ops_def atomics_load_uint8_def atomics_store_uint8_def atomics_exchange_uint8_def atomics_cas_uint8_def atomics_add_uint8_def atomics_sub_uint8_def atomics_and_uint8_def atomics_or_uint8_def atomics_xor_uint8_def

lemmas uint16_defs = uint16_ops_def atomics_load_uint16_def atomics_store_uint16_def atomics_exchange_uint16_def atomics_cas_uint16_def atomics_add_uint16_def atomics_sub_uint16_def atomics_and_uint16_def atomics_or_uint16_def atomics_xor_uint16_def

lemmas uint32_defs = uint32_ops_def atomics_load_uint32_def atomics_store_uint32_def atomics_exchange_uint32_def atomics_cas_uint32_def atomics_add_uint32_def atomics_sub_uint32_def atomics_and_uint32_def atomics_or_uint32_def atomics_xor_uint32_def

lemmas uint64_defs = uint64_ops_def atomics_load_uint64_def atomics_store_uint64_def atomics_exchange_uint64_def atomics_cas_uint64_def atomics_add_uint64_def atomics_sub_uint64_def atomics_and_uint64_def atomics_or_uint64_def atomics_xor_uint64_def

lemmas int8_defs = int8_ops_def atomics_load_int8_def atomics_store_int8_def atomics_exchange_int8_def atomics_cas_int8_def atomics_add_int8_def atomics_sub_int8_def atomics_and_int8_def atomics_or_int8_def atomics_xor_int8_def

lemmas int16_defs = int16_ops_def atomics_load_int16_def atomics_store_int16_def atomics_exchange_int16_def atomics_cas_int16_def atomics_add_int16_def atomics_sub_int16_def atomics_and_int16_def atomics_or_int16_def atomics_xor_int16_def

lemmas int32_defs = int32_ops_def atomics_load_int32_def atomics_store_int32_def atomics_exchange_int32_def atomics_cas_int32_def atomics_add_int32_def atomics_sub_int32_def atomics_and_int32_def atomics_or_int32_def atomics_xor_int32_def

lemmas int64_defs = int64_ops_def atomics_load_int64_def atomics_store_int64_def atomics_exchange_int64_def atomics_cas_int64_def atomics_add_int64_def atomics_sub_int64_def atomics_and_int64_def atomics_or_int64_def atomics_xor_int64_def

lemmas int_defs = int_ops_def atomics_load_int_def atomics_store_int_def atomics_exchange_int_def atomics_cas_int_def atomics_add_int_def atomics_sub_int_def atomics_and_int_def atomics_or_int_def atomics_xor_int_def

lemmas float16_defs = float16_ops_def atomics_load_float16_def atomics_store_float16_def atomics_exchange_float16_def atomics_cas_float16_def

lemmas float32_defs = float32_ops_def atomics_load_float32_def atomics_store_float32_def atomics_exchange_float32_def atomics_cas_float32_def

lemmas float64_defs = float64_ops_def atomics_load_float64_def atomics_store_float64_def atomics_exchange_float64_def atomics_cas_float64_def

lemmas double_defs = double_ops_def atomics_load_double_def atomics_store_double_def atomics_exchange_double_def atomics_cas_double_def

lemmas ptr_defs = ptr_ops_def atomics_load_ptr_def atomics_store_ptr_def atomics_exchange_ptr_def atomics_cas_ptr_def

text \<open>Every integer type follows from one lemma on its table, and so do the other types.\<close>

lemma word_cell:
  fixes T :: "('a::len word, 'x) cell_ops_scheme"
  assumes n: "LENGTH('a) = 8 * n" and T: "a_load T = atomic_load" "a_store T = atomic_store" "a_exchange T = atomic_exchange"
    "a_cas T = atomic_compare_exchange_strong"
  shows "atomic_cell (int n) T (\<lambda>_ _. True) (\<lambda>c p. cell_exec T p c) cell_spec"
proof (unfold_locales, goal_cases)
  case 1
  have "0 < LENGTH('a)" by simp
  then show ?case using n by linarith
next
  case (2 p m m')
  then show ?case using atomic_load_cong [OF n, of m' p m] T by simp
next
  case (3 p m c r m')
  then show ?case using atomic_load_store [OF n] T
    by (cases c) (auto simp: atomic_exchange_def atomic_compare_exchange_strong_def split: if_splits)
next
  case (4 c p m r m' a)
  then show ?case using atomic_store_other [OF n] T
    by (cases c) (auto simp: atomic_exchange_def atomic_compare_exchange_strong_def split: if_splits)
qed

lemma word_int:
  fixes T :: "('a::len word, 'x) int_ops_scheme"
  assumes n: "LENGTH('a) = 8 * n" and T: "a_load T = atomic_load" "a_store T = atomic_store" "a_exchange T = atomic_exchange"
    "a_cas T = atomic_compare_exchange_strong"
    and I: "a_add T = atomic_fetch_add" "a_sub T = atomic_fetch_sub" "a_and T = atomic_fetch_and" "a_or T = atomic_fetch_or"
    "a_xor T = atomic_fetch_xor"
  shows "atomic_cell (int n) T (\<lambda>_ _. True) (\<lambda>c p. int_exec T p c) int_spec"
proof -
  note cell = word_cell [OF n T, unfolded atomic_cell_def]
  note fetch = atomic_fetch_add_def atomic_fetch_sub_def atomic_fetch_and_def atomic_fetch_or_def atomic_fetch_xor_def
  show ?thesis
  proof (unfold_locales, goal_cases)
    case 1
    then show ?case using cell by blast
  next
    case (2 p m m')
    then show ?case using cell by blast
  next
    case (3 p m c r m')
    show ?case
    proof (cases "\<exists>k. c = Cell k")
      case True
      then obtain k where k: "c = Cell k" by blast
      then have "cell_exec T p k m = (r, m')" using 3 by simp
      then show ?thesis using cell k by (metis int_spec.simps(1))
    next
      case False
      then show ?thesis using 3 atomic_load_store [OF n] T I by (cases c) (auto simp: fetch)
    qed
  next
    case (4 c p m r m' a)
    show ?case
    proof (cases "\<exists>k. c = Cell k")
      case True
      then obtain k where k: "c = Cell k" by blast
      then have "cell_exec T p k m = (r, m')" using 4(1) by simp
      then show ?thesis using cell 4(2) by blast
    next
      case False
      then show ?thesis using 4 atomic_store_other [OF n] T I by (cases c) (auto simp: fetch)
    qed
  qed
qed


interpretation uint8: atomic_cell 1 uint8_ops "\<lambda>_ _. True" "\<lambda>c p. int_exec uint8_ops p c" int_spec
  using word_int [of 1 uint8_ops] by (simp add: uint8_defs fun_eq_iff)

interpretation uint16: atomic_cell 2 uint16_ops "\<lambda>_ _. True" "\<lambda>c p. int_exec uint16_ops p c" int_spec
  using word_int [of 2 uint16_ops] by (simp add: uint16_defs fun_eq_iff)

interpretation uint32: atomic_cell 4 uint32_ops "\<lambda>_ _. True" "\<lambda>c p. int_exec uint32_ops p c" int_spec
  using word_int [of 4 uint32_ops] by (simp add: uint32_defs fun_eq_iff)

interpretation uint64: atomic_cell 8 uint64_ops "\<lambda>_ _. True" "\<lambda>c p. int_exec uint64_ops p c" int_spec
  using word_int [of 8 uint64_ops] by (simp add: uint64_defs fun_eq_iff)

interpretation int8: atomic_cell 1 int8_ops "\<lambda>_ _. True" "\<lambda>c p. int_exec int8_ops p c" int_spec
  using word_int [of 1 int8_ops] by (simp add: int8_defs fun_eq_iff)

interpretation int16: atomic_cell 2 int16_ops "\<lambda>_ _. True" "\<lambda>c p. int_exec int16_ops p c" int_spec
  using word_int [of 2 int16_ops] by (simp add: int16_defs fun_eq_iff)

interpretation int32: atomic_cell 4 int32_ops "\<lambda>_ _. True" "\<lambda>c p. int_exec int32_ops p c" int_spec
  using word_int [of 4 int32_ops] by (simp add: int32_defs fun_eq_iff)

interpretation int64: atomic_cell 8 int64_ops "\<lambda>_ _. True" "\<lambda>c p. int_exec int64_ops p c" int_spec
  using word_int [of 8 int64_ops] by (simp add: int64_defs fun_eq_iff)

interpretation int: atomic_cell 8 int_ops "\<lambda>_ _. True" "\<lambda>c p. int_exec int_ops p c" int_spec
  using word_int [of 8 int_ops] by (simp add: int_defs fun_eq_iff)

interpretation float16: atomic_cell 2 float16_ops "\<lambda>_ _. True" "\<lambda>c p. cell_exec float16_ops p c" cell_spec
  using word_cell [of 2 float16_ops] by (simp add: float16_defs fun_eq_iff)

interpretation float32: atomic_cell 4 float32_ops "\<lambda>_ _. True" "\<lambda>c p. cell_exec float32_ops p c" cell_spec
  using word_cell [of 4 float32_ops] by (simp add: float32_defs fun_eq_iff)

interpretation float64: atomic_cell 8 float64_ops "\<lambda>_ _. True" "\<lambda>c p. cell_exec float64_ops p c" cell_spec
  using word_cell [of 8 float64_ops] by (simp add: float64_defs fun_eq_iff)

interpretation double: atomic_cell 8 double_ops "\<lambda>_ _. True" "\<lambda>c p. cell_exec double_ops p c" cell_spec
  using word_cell [of 8 double_ops] by (simp add: double_defs fun_eq_iff)

interpretation ptr: atomic_cell 8 ptr_ops "\<lambda>_ _. True" "\<lambda>c p. cell_exec ptr_ops p c" cell_spec
  using word_cell [of 8 ptr_ops] by (simp add: ptr_defs fun_eq_iff)

lemma byte_load: "atomic_load p m = (m p :: 8 word)" and byte_store: "atomic_store p (v :: 8 word) m = m(p := v)"
proof -
  have one: "LENGTH(8) div 8 = Suc 0" by simp
  show "atomic_load p m = (m p :: 8 word)" unfolding atomic_load_def one by simp
  show "atomic_store p (v :: 8 word) m = m(p := v)" unfolding atomic_store_def one by simp
qed

lemmas boolean_defs = boolean_ops_def atomics_load_boolean_def atomics_store_boolean_def atomics_exchange_boolean_def
  atomics_cas_boolean_def atomic_exchange_def atomic_compare_exchange_strong_def byte_load byte_store

interpretation boolean: atomic_cell 1 boolean_ops boolean_ok "\<lambda>c p. cell_exec boolean_ops p c" cell_spec
proof (unfold_locales, goal_cases)
  case (2 p m m')
  then show ?case using 2(2) [of 0] by (simp add: boolean_ok_def boolean_defs)
next
  case (3 p m c r m')
  then show ?case by (cases c) (auto simp: boolean_ok_def boolean_defs split: if_splits)
next
  case (4 c p m r m' a)
  then show ?case by (cases c) (auto simp: boolean_defs split: if_splits)
qed simp

end
