(* ===== verification/AtomicsProps.thy ===== *)
theory AtomicsProps
  imports Atomics "HOL-Library.Multiset"
begin

text \<open>
  Properties of the atomic operations under every interleaving: each type is a linearizable register,
  counters lose no update, tickets are unique, one compare-and-swap wins, exchanges lose no value.
\<close>

section \<open>The abstract register\<close>

lemma fst_snd_run_events:
  "run_spec spec cs x = (case r of (rs, m') \<Rightarrow> (rs, ld m')) \<Longrightarrow> fst r = fst (run_spec spec cs x) \<and> ld (snd r) = snd (run_spec spec cs x)"
  by (auto split: prod.splits)

lemma spec_adds: "snd (run_spec int_spec (map Add vs) x) = x + sum_list vs"
  by (induction vs arbitrary: x) (auto split: prod.splits simp: add.assoc dest: arg_cong [of _ _ snd])

lemma spec_tickets: "fst (run_spec int_spec (replicate n (Add 1)) x) = map (\<lambda>i. Got (x + of_nat i)) [0..<n]"
proof (induction n arbitrary: x)
  case (Suc n)
  have "map (\<lambda>i. Got (x + of_nat i)) [0..<Suc n] = Got x # map (\<lambda>i. Got (x + 1 + of_nat i)) [0..<n]"
    by (simp add: upt_conv_Cons map_Suc_upt [symmetric] add.assoc comp_def del: upt_Suc)
  then show ?case using Suc [of "x + 1"] by (simp split: prod.splits add: prod_eq_iff del: upt_Suc)
qed simp

lemma spec_election:
  "e \<notin> set ds \<Longrightarrow> x \<noteq> e \<Longrightarrow> run_spec cell_spec (map (Cas e) ds) x = (replicate (length ds) (Swapped False), x)"
  by (induction ds) auto

lemma spec_exchanges: "run_spec cell_spec (map Exchange vs) x = (map Got (butlast (x # vs)), last (x # vs))"
  by (induction vs arbitrary: x) auto

lemma shuffles_sum: "zs \<in> shuffles xs ys \<Longrightarrow> sum_list zs = sum_list xs + (sum_list ys :: 'a::comm_monoid_add)"
proof -
  assume "zs \<in> shuffles xs ys"
  then have "mset zs = mset xs + mset ys" by (rule mset_shuffles)
  then show ?thesis by (metis sum_mset_sum_list sum_mset.union)
qed

lemma shuffles_map: "zs \<in> shuffles (map f xs) (map f ys) \<Longrightarrow> \<exists>vs. zs = map f vs \<and> vs \<in> shuffles xs ys"
proof (induction xs ys arbitrary: zs rule: shuffles.induct)
  case (3 x xs y ys)
  then consider us where "zs = f x # us" "us \<in> shuffles (map f xs) (map f (y # ys))"
    | us where "zs = f y # us" "us \<in> shuffles (map f (x # xs)) (map f ys)"
    by (auto simp: Cons_in_shuffles_iff)
  then show ?case
  proof cases
    case 1
    then obtain vs where "us = map f vs" "vs \<in> shuffles xs (y # ys)" using 3(1) by blast
    then show ?thesis using 1 by (intro exI [of _ "x # vs"]) (simp add: Cons_in_shuffles_iff)
  next
    case 2
    then obtain vs where "us = map f vs" "vs \<in> shuffles (x # xs) ys" using 3(2) by blast
    then show ?thesis using 2 by (intro exI [of _ "y # vs"]) (simp add: Cons_in_shuffles_iff)
  qed
qed auto

lemma of_int_sum_sint: "(of_int (sum_list (map sint xs)) :: 'a::len word) = sum_list xs"
  by (induction xs) auto

section \<open>Every type is linearizable\<close>

definition linearizable ::
  "int \<Rightarrow> (addr \<Rightarrow> amem \<Rightarrow> bool) \<Rightarrow> (addr \<Rightarrow> amem \<Rightarrow> 'v) \<Rightarrow> ('c \<Rightarrow> addr \<Rightarrow> amem \<Rightarrow> 'r \<times> amem) \<Rightarrow> ('c \<Rightarrow> 'v \<Rightarrow> 'r \<times> 'v) \<Rightarrow> bool"
where
  "linearizable sz ok ld exec spec \<longleftrightarrow> (\<forall>p m es. ok p m \<longrightarrow> quiet sz p es \<longrightarrow>
     run_spec spec (calls es) (ld p m) = (case run_events (\<lambda>c. exec c p) es m of (rs, m') \<Rightarrow> (rs, ld p m')))"

text \<open>
  C7: For each of the fifteen types of \<^verbatim>\<open>atomics.c\<close>, any interleaving of calls on one cell and of
  writes elsewhere returns the answers, and leaves the value, of the same calls on an abstract
  register (for booleans, on a cell that holds 0 or 1).
\<close>

theorem atomics_linearizable:
  "linearizable 1 boolean_ok (a_load boolean_ops) (\<lambda>c p. cell_exec boolean_ops p c) cell_spec \<and>
   linearizable 1 (\<lambda>_ _. True) (a_load uint8_ops) (\<lambda>c p. int_exec uint8_ops p c) int_spec \<and>
   linearizable 2 (\<lambda>_ _. True) (a_load uint16_ops) (\<lambda>c p. int_exec uint16_ops p c) int_spec \<and>
   linearizable 4 (\<lambda>_ _. True) (a_load uint32_ops) (\<lambda>c p. int_exec uint32_ops p c) int_spec \<and>
   linearizable 8 (\<lambda>_ _. True) (a_load uint64_ops) (\<lambda>c p. int_exec uint64_ops p c) int_spec \<and>
   linearizable 1 (\<lambda>_ _. True) (a_load int8_ops) (\<lambda>c p. int_exec int8_ops p c) int_spec \<and>
   linearizable 2 (\<lambda>_ _. True) (a_load int16_ops) (\<lambda>c p. int_exec int16_ops p c) int_spec \<and>
   linearizable 4 (\<lambda>_ _. True) (a_load int32_ops) (\<lambda>c p. int_exec int32_ops p c) int_spec \<and>
   linearizable 8 (\<lambda>_ _. True) (a_load int64_ops) (\<lambda>c p. int_exec int64_ops p c) int_spec \<and>
   linearizable 8 (\<lambda>_ _. True) (a_load int_ops) (\<lambda>c p. int_exec int_ops p c) int_spec \<and>
   linearizable 2 (\<lambda>_ _. True) (a_load float16_ops) (\<lambda>c p. cell_exec float16_ops p c) cell_spec \<and>
   linearizable 4 (\<lambda>_ _. True) (a_load float32_ops) (\<lambda>c p. cell_exec float32_ops p c) cell_spec \<and>
   linearizable 8 (\<lambda>_ _. True) (a_load float64_ops) (\<lambda>c p. cell_exec float64_ops p c) cell_spec \<and>
   linearizable 8 (\<lambda>_ _. True) (a_load double_ops) (\<lambda>c p. cell_exec double_ops p c) cell_spec \<and>
   linearizable 8 (\<lambda>_ _. True) (a_load ptr_ops) (\<lambda>c p. cell_exec ptr_ops p c) cell_spec"
  unfolding linearizable_def
  by (intro conjI allI impI boolean.linear uint8.linear uint16.linear uint32.linear uint64.linear int8.linear int16.linear
    int32.linear int64.linear int.linear float16.linear float32.linear float64.linear double.linear ptr.linear; assumption)

section \<open>What programs rely on\<close>

text \<open>
  A shared signed counter loses no update: after any interleaving of two threads' \<open>add_int64\<close>
  calls, and of writes elsewhere, the counter is its start plus all the added amounts, provided this
  total fits in 64 bits (intermediate values may wrap).
\<close>

theorem counter_total:
  assumes "quiet 8 p es" "calls es \<in> shuffles (map Add xs) (map Add ys)"
    and "tot = sint (atomics_load_int64 p m) + sum_list (map sint xs) + sum_list (map sint ys)"
    and "- (2 ^ 63) \<le> tot" "tot < 2 ^ 63"
  shows "sint (atomics_load_int64 p (snd (run_events (\<lambda>c. int_exec int64_ops p c) es m))) = tot"
proof -
  obtain vs where vs: "calls es = map Add vs" "vs \<in> shuffles xs ys" using shuffles_map [OF assms(2)] by blast
  have ld: "a_load int64_ops = atomics_load_int64" by (simp add: int64_ops_def)
  have "atomics_load_int64 p (snd (run_events (\<lambda>c. int_exec int64_ops p c) es m)) = atomics_load_int64 p m + sum_list vs"
    using fst_snd_run_events [OF int64.linear [OF TrueI assms(1), of m]] vs(1) spec_adds [of vs] ld by simp
  also have "sum_list vs = sum_list xs + sum_list ys" by (rule shuffles_sum [OF vs(2)])
  also have "atomics_load_int64 p m + (sum_list xs + sum_list ys) = of_int tot"
    unfolding assms(3) by (simp add: of_int_sum_sint add.assoc)
  finally show ?thesis using assms(4,5) by (simp add: signed_of_int signed_take_bit_int_eq_self)
qed

theorem counter_total_witness:
  "sint (atomics_load_int64 0 (snd (run_events (\<lambda>c. int_exec int64_ops 0 c)
     [Inl (Add 5), Inr (\<lambda>m. m(8 := 1)), Inl (Add (- 7)), Inl (Add 3)] (\<lambda>_. 0)))) = 1"
proof (rule counter_total [where xs = "[5, 3]" and ys = "[- 7]"])
  show "quiet 8 0 [Inl (Add 5), Inr (\<lambda>m. m(8 := 1)), Inl (Add (- 7)), Inl (Add (3 :: 64 word))]"
    by (simp add: elsewhere_def)
  show "calls [Inl (Add 5), Inr (\<lambda>m. m(8 := 1)), Inl (Add (- 7)), Inl (Add 3)]
      \<in> shuffles (map Add [5, 3]) (map Add [- 7 :: 64 word])" by simp
  have "atomics_load_int64 0 (\<lambda>_. 0) = 0" by code_simp
  then show "1 = sint (atomics_load_int64 0 (\<lambda>_. 0)) + sum_list (map sint [5, 3 :: 64 word]) + sum_list (map sint [- 7 :: 64 word])"
    by simp
qed simp_all

text \<open>
  \<open>add_uint32\<close> of 1 hands out tickets: up to \<open>2 ^ 32\<close> calls, by any threads in any interleaving,
  all return different values.
\<close>

theorem tickets_unique:
  assumes "quiet 4 p es" "calls es = replicate n (Add 1)" "n \<le> 2 ^ 32"
  shows "distinct (fst (run_events (\<lambda>c. int_exec uint32_ops p c) es m)) \<and>
    length (fst (run_events (\<lambda>c. int_exec uint32_ops p c) es m)) = n"
proof -
  have "fst (run_events (\<lambda>c. int_exec uint32_ops p c) es m) = map (\<lambda>i. Got (a_load uint32_ops p m + of_nat i)) [0..<n]"
    using fst_snd_run_events [OF uint32.linear [OF TrueI assms(1), of m]] assms(2) spec_tickets by simp
  moreover have "inj_on (of_nat :: nat \<Rightarrow> 32 word) {0..<n}"
    using assms(3) by (auto intro!: inj_onI simp: word_unat_eq_iff unat_of_nat)
  ultimately show ?thesis
    by (auto simp: distinct_map inj_on_def)
qed

theorem tickets_unique_witness:
  "distinct (fst (run_events (\<lambda>c. int_exec uint32_ops 16 c) [Inl (Add 1), Inl (Add 1), Inl (Add 1)] (\<lambda>_. 255)))"
  by (rule tickets_unique [where n = 3, THEN conjunct1]) (simp_all add: numeral_3_eq_3)

text \<open>
  Of any number of competing \<open>cas_ptr\<close> calls that expect the current pointer and install another
  one, exactly the first wins, and its pointer stays.
\<close>

theorem cas_one_winner:
  assumes "quiet 8 p es" "calls es = map (Cas e) (d # ds)" "atomics_load_ptr p m = e" "e \<notin> set (d # ds)"
  shows "fst (run_events (\<lambda>c. cell_exec ptr_ops p c) es m) = Swapped True # replicate (length ds) (Swapped False) \<and>
    atomics_load_ptr p (snd (run_events (\<lambda>c. cell_exec ptr_ops p c) es m)) = d"
proof -
  have ld: "a_load ptr_ops = atomics_load_ptr" by (simp add: ptr_ops_def)
  note l = fst_snd_run_events [OF ptr.linear [OF TrueI assms(1), of m]]
  show ?thesis
    using l spec_election [of e ds d] assms(2-4) ld by auto
qed

theorem cas_one_winner_witness:
  "fst (run_events (\<lambda>c. cell_exec ptr_ops 8 c) [Inl (Cas 0 64), Inl (Cas 0 128)] (\<lambda>_. 0)) = [Swapped True, Swapped False]"
proof -
  have "atomics_load_ptr 8 (\<lambda>_. 0) = 0" by code_simp
  then show ?thesis using cas_one_winner [of 8 "[Inl (Cas 0 64), Inl (Cas 0 128)]" 0 64 "[128]" "\<lambda>_. 0"] by simp
qed

text \<open>
  Exchanges neither lose nor duplicate a value: the values returned by any interleaving of
  \<open>exchange_double\<close> calls together with the final one are the initial value and the values stored.
\<close>

theorem exchange_conserves:
  assumes "quiet 8 p es" "calls es = map Exchange vs"
  shows "fst (run_events (\<lambda>c. cell_exec double_ops p c) es m) @
      [Got (atomics_load_double p (snd (run_events (\<lambda>c. cell_exec double_ops p c) es m)))] =
    map Got (atomics_load_double p m # vs)"
proof -
  have ld: "a_load double_ops = atomics_load_double" by (simp add: double_ops_def)
  have "map Got (x # vs) = map Got (butlast (x # vs)) @ [Got (last (x # vs))]" for x
    by (metis append_butlast_last_id list.distinct(1) list.simps(8,9) map_append)
  then show ?thesis
    using fst_snd_run_events [OF double.linear [OF TrueI assms(1), of m]] assms(2) spec_exchanges [of vs] ld by simp
qed

theorem exchange_conserves_witness:
  "fst (run_events (\<lambda>c. cell_exec double_ops 0 c) [Inl (Exchange 7), Inl (Exchange 9)] (\<lambda>_. 0)) @
     [Got (atomics_load_double 0 (snd (run_events (\<lambda>c. cell_exec double_ops 0 c) [Inl (Exchange 7), Inl (Exchange 9)] (\<lambda>_. 0))))] =
   [Got (atomics_load_double 0 (\<lambda>_. 0)), Got 7, Got 9]"
  using exchange_conserves [of 0 "[Inl (Exchange 7), Inl (Exchange 9)]" "[7, 9]" "\<lambda>_. 0"] by simp

end
