(* ===== verification/Numbers.thy ===== *)
theory Numbers
  imports Prelude
begin

unbundle bit_operations_syntax

text \<open>
  The number formatting of \<^verbatim>\<open>src/runtime/src/strings.c\<close>: \<open>u64_to_dec\<close>, \<open>i64_to_dec\<close>, \<open>ptr_to_hex\<close> and
  \<open>f64_to_dec\<close>. The caller's buffer is a list of bytes; a write outside it, or a signed overflow, is
  \<open>None\<close>. A pointer \<^verbatim>\<open>tmp + i\<close> into the buffer is the buffer with the offset \<open>i\<close>.
\<close>

type_synonym buf = "int list"

definition put :: "nat \<Rightarrow> int \<Rightarrow> buf \<Rightarrow> buf option" where
  "put i c tmp = (if i < length tmp then Some (tmp[i := c]) else None)"

section \<open>Unsigned and signed decimals\<close>

function u64_digits :: "64 word \<Rightarrow> nat \<Rightarrow> nat \<Rightarrow> buf \<Rightarrow> (nat \<times> buf) option" where
  "u64_digits v off i tmp = do {
     tmp \<leftarrow> put (off + i) (48 + uint (v mod 10)) tmp;
     if v div 10 \<noteq> 0 then u64_digits (v div 10) off (i + 1) tmp else Some (i + 1, tmp)
   }"
  by pat_completeness auto

function u64_reverse :: "nat \<Rightarrow> nat \<Rightarrow> nat \<Rightarrow> buf \<Rightarrow> buf option" where
  "u64_reverse off i j tmp =
     (if j < i div 2 then do {
        let c = tmp ! (off + j);
        tmp \<leftarrow> put (off + j) (tmp ! (off + (i - 1 - j))) tmp;
        tmp \<leftarrow> put (off + (i - 1 - j)) c tmp;
        u64_reverse off i (j + 1) tmp
      } else Some tmp)"
  by pat_completeness auto
termination by (relation "measure (\<lambda>(off, i, j, tmp). i div 2 - j)") auto

lemma unat_div10: "unat (v div 10) = unat v div 10" and uint_mod10: "uint (v mod 10) = int (unat v mod 10)" for v :: "64 word"
  by (simp_all add: unat_div unat_mod uint_mod zmod_int)

termination u64_digits
proof (relation "measure (\<lambda>(v, off, i, tmp). unat v)")
  fix v :: "64 word" and off i tmp x assume "v div 10 \<noteq> 0"
  then have "0 < unat (v div 10)" by (simp add: unat_gt_0)
  then show "((v div 10, off, i + 1, x), (v, off, i, tmp)) \<in> measure (\<lambda>(v, off, i, tmp). unat v)"
    by (simp add: unat_div10)
qed simp

definition u64_to_dec :: "64 word \<Rightarrow> nat \<Rightarrow> buf \<Rightarrow> (nat \<times> buf) option" where
  "u64_to_dec v off tmp = do {
     (i, tmp) \<leftarrow> u64_digits v off 0 tmp;
     tmp \<leftarrow> u64_reverse off i 0 tmp;
     Some (i, tmp)
   }"

text \<open>The negation of the least 64-bit integer overflows.\<close>

definition i64_to_dec :: "64 word \<Rightarrow> nat \<Rightarrow> buf \<Rightarrow> (nat \<times> buf) option" where
  "i64_to_dec v off tmp =
     (if sint v < 0 then
        if sint v = - (2 ^ 63) then None
        else do {
          tmp \<leftarrow> put off 45 tmp;
          (n, tmp) \<leftarrow> u64_to_dec (- v) (off + 1) tmp;
          Some (1 + n, tmp)
        }
      else u64_to_dec v off tmp)"

section \<open>Pointers in hexadecimal\<close>

definition hex :: "int \<Rightarrow> int" where
  "hex d = (if d < 10 then 48 + d else 87 + d)"

function hex_loop :: "64 word \<Rightarrow> int \<Rightarrow> nat \<Rightarrow> bool \<Rightarrow> buf \<Rightarrow> (nat \<times> buf) option" where
  "hex_loop v shift i started tmp =
     (if 0 \<le> shift then
        let d = hex (uint (drop_bit (nat shift) v AND 15)) in
        if d \<noteq> 48 \<or> started \<or> shift = 0
        then do { tmp \<leftarrow> put i d tmp; hex_loop v (shift - 4) (i + 1) True tmp }
        else hex_loop v (shift - 4) i started tmp
      else Some (i, tmp))"
  by pat_completeness auto
termination by (relation "measure (\<lambda>(v, shift, i, started, tmp). nat (shift + 4))") auto

definition ptr_to_hex :: "64 word \<Rightarrow> buf \<Rightarrow> (nat \<times> buf) option" where
  "ptr_to_hex v tmp = do {
     tmp \<leftarrow> put 0 48 tmp;
     tmp \<leftarrow> put 1 120 tmp;
     hex_loop v 60 2 False tmp
   }"

section \<open>Doubles\<close>

text \<open>
  The floating-point unit is a parameter: a type of doubles with the operations the code uses, among
  them the conversions \<^verbatim>\<open>(uint64_t)v\<close> and \<^verbatim>\<open>(int)frac\<close>.
\<close>

record 'd fpu =
  f_negative :: "'d \<Rightarrow> bool"
  f_neg :: "'d \<Rightarrow> 'd"
  f_to_u64 :: "'d \<Rightarrow> 64 word"
  f_of_u64 :: "64 word \<Rightarrow> 'd"
  f_sub :: "'d \<Rightarrow> 'd \<Rightarrow> 'd"
  f_mul10 :: "'d \<Rightarrow> 'd"
  f_to_int :: "'d \<Rightarrow> 32 word"
  f_of_int :: "32 word \<Rightarrow> 'd"

text \<open>\<^verbatim>\<open>(char)('0' + d)\<close> keeps the low eight bits.\<close>

primrec frac_loop :: "'d fpu \<Rightarrow> nat \<Rightarrow> 'd \<Rightarrow> nat \<Rightarrow> buf \<Rightarrow> (nat \<times> buf) option" where
  "frac_loop fp 0 frac i tmp = Some (i, tmp)"
| "frac_loop fp (Suc k) frac i tmp = do {
     let frac = f_mul10 fp frac;
     let d = f_to_int fp frac;
     tmp \<leftarrow> put i ((48 + sint d) mod 256) tmp;
     frac_loop fp k (f_sub fp frac (f_of_int fp d)) (i + 1) tmp
   }"

definition put_all :: "nat \<Rightarrow> int list \<Rightarrow> buf \<Rightarrow> buf option" where
  "put_all i cs tmp = (if i + length cs \<le> length tmp then Some (take i tmp @ cs @ drop (i + length cs) tmp) else None)"

definition f64_to_dec :: "'d fpu \<Rightarrow> 'd \<Rightarrow> buf \<Rightarrow> (nat \<times> buf) option" where
  "f64_to_dec fp v tmp = do {
     (i, v, tmp) \<leftarrow> (if f_negative fp v then do { tmp \<leftarrow> put 0 45 tmp; Some (1, f_neg fp v, tmp) } else Some (0, v, tmp));
     let ip = f_to_u64 fp v;
     let frac = f_sub fp v (f_of_u64 fp ip);
     (ilen, ibuf) \<leftarrow> u64_to_dec ip 0 (replicate 32 0);
     tmp \<leftarrow> put_all i (take ilen ibuf) tmp;
     let i = i + ilen;
     tmp \<leftarrow> put i 46 tmp;
     frac_loop fp 6 frac (i + 1) tmp
   }"

declare u64_digits.simps [simp del] u64_reverse.simps [simp del] hex_loop.simps [simp del]

section \<open>The decimal text of a number\<close>

fun dec :: "nat \<Rightarrow> int list" where
  "dec n = (if n < 10 then [48 + int n] else dec (n div 10) @ [48 + int (n mod 10)])"

declare dec.simps [simp del]

definition dec_value :: "int list \<Rightarrow> nat" where
  "dec_value cs = foldl (\<lambda>a c. 10 * a + nat (c - 48)) 0 cs"

definition dec_int :: "int \<Rightarrow> int list" where
  "dec_int z = (if z < 0 then 45 # dec (nat (- z)) else dec (nat z))"

lemma dec_value_dec: "dec_value (dec n) = n"
proof (induction n rule: dec.induct)
  case (1 n)
  show ?case
  proof (cases "n < 10")
    case False
    then show ?thesis using 1 dec.simps [of n] by (simp add: dec_value_def)
  qed (simp add: dec.simps [of n] dec_value_def)
qed

lemma dec_digits: "c \<in> set (dec n) \<Longrightarrow> 48 \<le> c \<and> c \<le> 57"
proof (induction n rule: dec.induct)
  case (1 n)
  then show ?case by (cases "n < 10") (auto simp: dec.simps [of n])
qed

lemma dec_ne: "dec n \<noteq> []" by (simp add: dec.simps [of n])

lemma dec_no_zero: "0 < n \<Longrightarrow> hd (dec n) \<noteq> 48"
proof (induction n rule: dec.induct)
  case (1 n)
  show ?case
  proof (cases "n < 10")
    case False
    then have "hd (dec (n div 10)) \<noteq> 48" using 1 by simp
    then show ?thesis using False dec_ne by (simp add: dec.simps [of n])
  qed (use 1 in \<open>simp add: dec.simps [of n]\<close>)
qed

lemma dec_length: "n < 10 ^ k \<Longrightarrow> 0 < k \<Longrightarrow> length (dec n) \<le> k"
proof (induction k arbitrary: n)
  case (Suc k)
  show ?case
  proof (cases "n < 10")
    case False
    then have "0 < k" using Suc.prems by (cases k) auto
    moreover have "n div 10 < 10 ^ k" using Suc.prems by (simp add: less_mult_imp_div_less mult.commute)
    ultimately show ?thesis using Suc.IH [of "n div 10"] False by (simp add: dec.simps [of n])
  qed (simp add: dec.simps [of n])
qed simp

lemma dec_u64: "length (dec (unat (v :: 64 word))) \<le> 20"
proof -
  have "unat v < 2 ^ 64" using unsigned_less [of v, where ?'a = nat] by simp
  then show ?thesis by (intro dec_length) simp_all
qed

section \<open>What the conversions write\<close>

lemma u64_digits_dec:
  "off + i + length (dec (unat v)) \<le> length tmp \<Longrightarrow> u64_digits v off i tmp =
     Some (i + length (dec (unat v)), take (off + i) tmp @ rev (dec (unat v)) @ drop (off + i + length (dec (unat v))) tmp)"
proof (induction v off i tmp rule: u64_digits.induct)
  case (1 v off i tmp)
  have l: "off + i < length tmp" using 1(2) dec_ne [of "unat v"] by (cases "dec (unat v)") auto
  let ?t = "tmp[off + i := 48 + int (unat v mod 10)]"
  have p: "put (off + i) (48 + uint (v mod 10)) tmp = Some ?t" using l by (simp add: put_def uint_mod10)
  have t: "take (off + i) tmp @ [48 + int (unat v mod 10)] = take (Suc (off + i)) ?t"
    using l by (simp add: take_update_swap [symmetric] take_Suc_conv_app_nth)
  show ?case
  proof (cases "v div 10 = 0")
    case True
    then have "unat (v div 10) = 0" by simp
    then have "unat v < 10" by (simp add: unat_div10)
    then have "dec (unat v) = [48 + int (unat v mod 10)]" by (simp add: dec.simps)
    then show ?thesis using p True l by (subst u64_digits.simps) (simp add: upd_conv_take_nth_drop)
  next
    case False
    then have "0 < unat (v div 10)" by (simp add: unat_gt_0)
    then have "\<not> unat v < 10" by (simp add: unat_div10)
    then have d: "dec (unat v) = dec (unat (v div 10)) @ [48 + int (unat v mod 10)]" by (simp add: dec.simps [of "unat v"] unat_div10)
    have "u64_digits (v div 10) off (i + 1) ?t = Some (i + 1 + length (dec (unat (v div 10))),
        take (off + (i + 1)) ?t @ rev (dec (unat (v div 10))) @ drop (off + (i + 1) + length (dec (unat (v div 10)))) ?t)"
      using 1(1) [OF p False] 1(2) d by simp
    moreover have "take (off + (i + 1)) ?t = take (off + i) tmp @ [48 + int (unat v mod 10)]" using t by simp
    ultimately show ?thesis using p False d by (subst u64_digits.simps) simp
  qed
qed

lemma u64_reverse_nth:
  "off + i \<le> length tmp \<Longrightarrow> j \<le> i div 2 \<Longrightarrow> \<exists>t. u64_reverse off i j tmp = Some t \<and> length t = length tmp \<and>
    (\<forall>k < length tmp. t ! k = (if off + j \<le> k \<and> k < off + i - j then tmp ! (off + (off + i - 1 - k)) else tmp ! k))"
proof (induction off i j tmp rule: u64_reverse.induct)
  case (1 off i j tmp)
  show ?case
  proof (cases "j < i div 2")
    case False
    then have "j = i div 2" using 1(3) by simp
    then have "off + j \<le> k \<Longrightarrow> k < off + i - j \<Longrightarrow> off + (off + i - 1 - k) = k" for k by linarith
    then show ?thesis using False by (subst u64_reverse.simps) auto
  next
    case True
    let ?a = "off + j" and ?b = "off + (i - 1 - j)"
    let ?t = "tmp[?a := tmp ! ?b, ?b := tmp ! ?a]"
    have ij: "j < i - 1 - j" "?a < ?b" "?b < length tmp" using True 1(2) by linarith+
    have p: "put ?a (tmp ! ?b) tmp = Some (tmp[?a := tmp ! ?b])" "put ?b (tmp ! ?a) (tmp[?a := tmp ! ?b]) = Some ?t"
      using ij by (auto simp: put_def)
    have pre: "off + i \<le> length ?t" "j + 1 \<le> i div 2" using True 1(2) by simp_all
    obtain t where t: "u64_reverse off i (j + 1) ?t = Some t" "length t = length ?t"
      "\<And>k. k < length ?t \<Longrightarrow> t ! k = (if off + (j + 1) \<le> k \<and> k < off + i - (j + 1) then ?t ! (off + (off + i - 1 - k)) else ?t ! k)"
      using 1(1) [OF True refl p pre] by blast
    have "t ! k = (if off + j \<le> k \<and> k < off + i - j then tmp ! (off + (off + i - 1 - k)) else tmp ! k)" if k: "k < length tmp" for k
    proof -
      consider "k = ?a" | "k = ?b" | "k < ?a \<or> off + i - j \<le> k" | "?a < k" "k < ?b" using ij by linarith
      then show ?thesis
      proof cases
        case 1
        then have "off + (off + i - 1 - k) = ?b" "k < off + i - j" using ij by linarith+
        then show ?thesis using t(3) [of k] k ij 1 by (simp add: nth_list_update)
      next
        case 2
        have c: "off + (off + i - 1 - k) = ?a" "off + j \<le> k \<and> k < off + i - j" "\<not> k < off + i - (j + 1)" using 2 ij by linarith+
        have "t ! k = ?t ! k" using t(3) [of k] k c(3) by simp
        also have "\<dots> = tmp ! ?a" using 2 ij by simp
        finally show ?thesis unfolding c(1) using c(2) by (simp only: if_True simp_thms)
      next
        case 3
        then have c: "k \<noteq> ?a" "k \<noteq> ?b" "\<not> (off + j \<le> k \<and> k < off + i - j)" "\<not> (off + (j + 1) \<le> k \<and> k < off + i - (j + 1))"
          using ij by linarith+
        have "t ! k = ?t ! k" using t(3) [of k] k unfolding if_not_P [OF c(4)] by (simp only: length_list_update)
        also have "\<dots> = tmp ! k" using c(1,2) by simp
        finally show ?thesis using c(3) by (simp only: if_False)
      next
        case 4
        let ?e = "off + (off + i - 1 - k)"
        have c: "?e \<noteq> ?a" "?e \<noteq> ?b" "off + j \<le> k \<and> k < off + i - j" "off + (j + 1) \<le> k \<and> k < off + i - (j + 1)"
          using 4 ij by linarith+
        have "t ! k = ?t ! ?e" using t(3) [of k] k unfolding if_P [OF c(4)] by (simp only: length_list_update)
        also have "\<dots> = tmp ! ?e" using c(1,2) by simp
        finally show ?thesis using c(3) by (simp only: if_True simp_thms)
      qed
    qed
    then show ?thesis using t p True by (subst u64_reverse.simps) (simp add: Let_def)
  qed
qed

lemma u64_to_dec_eq:
  assumes "off + length (dec (unat v)) \<le> length tmp"
  shows "u64_to_dec v off tmp = Some (length (dec (unat v)), take off tmp @ dec (unat v) @ drop (off + length (dec (unat v))) tmp)"
proof -
  define n where "n = length (dec (unat v))"
  define t1 where "t1 = take off tmp @ rev (dec (unat v)) @ drop (off + n) tmp"
  have d: "u64_digits v off 0 tmp = Some (n, t1)" using u64_digits_dec [of off 0 v tmp] assms by (simp add: n_def t1_def)
  have l: "length t1 = length tmp" "off + n \<le> length t1" using assms by (auto simp: t1_def n_def)
  obtain t where t: "u64_reverse off n 0 t1 = Some t" "length t = length t1"
    "\<And>k. k < length t1 \<Longrightarrow> t ! k = (if off \<le> k \<and> k < off + n then t1 ! (off + (off + n - 1 - k)) else t1 ! k)"
    using u64_reverse_nth [OF l(2), of 0] by auto
  have "t = take off tmp @ dec (unat v) @ drop (off + n) tmp"
  proof (rule nth_equalityI)
    show "length t = length (take off tmp @ dec (unat v) @ drop (off + n) tmp)" using t(2) l assms by (simp add: n_def)
    fix k assume "k < length t"
    then have k: "k < length t1" using t(2) by simp
    have len: "length (dec (unat v)) = n" by (simp add: n_def)
    consider "k < off" | "off \<le> k" "k < off + n" | "off + n \<le> k" by linarith
    then show "t ! k = (take off tmp @ dec (unat v) @ drop (off + n) tmp) ! k"
    proof cases
      case 2
      have off: "length (take off tmp) = off" using l by simp
      define e where "e = off + n - 1 - k"
      have e: "e < n" "n - Suc e = k - off" using 2 by (auto simp: e_def)
      have "t ! k = t1 ! (off + e)" using t(3) [OF k] 2 by (simp add: e_def)
      also have "\<dots> = rev (dec (unat v)) ! e" unfolding t1_def using off e len by (simp add: nth_append)
      also have "\<dots> = dec (unat v) ! (k - off)" using e len by (simp add: rev_nth)
      moreover have "k - off < n" using 2 by linarith
      ultimately show ?thesis using 2 off len by (simp add: nth_append)
    qed (use t(3) [OF k] l len in \<open>auto simp: t1_def nth_append\<close>)
  qed
  then show ?thesis using d t(1) by (simp add: u64_to_dec_def n_def)
qed

lemma uint_of_int_eq: "0 \<le> x \<Longrightarrow> x < 2 ^ 64 \<Longrightarrow> uint (of_int x :: 64 word) = x"
  using uint_word_of_int [of x, where ?'a = 64] by (simp add: mod_pos_pos_trivial)

lemma unat_of_int_eq: "0 \<le> x \<Longrightarrow> x < 2 ^ 64 \<Longrightarrow> unat (of_int x :: 64 word) = nat x"
  using uint_of_int_eq [of x] by (metis nat_uint_eq)

lemma sint_nonneg_unat: "0 \<le> sint v \<Longrightarrow> unat v = nat (sint v)" for v :: "64 word"
proof -
  assume "0 \<le> sint v"
  moreover have "sint v < 2 ^ 64" using sint_lt [of v] by simp
  ultimately have "unat (of_int (sint v) :: 64 word) = nat (sint v)" by (rule unat_of_int_eq)
  then show ?thesis by (simp only: of_int_sint scast_id id_apply)
qed

lemma unat_minus_sint: "sint v < 0 \<Longrightarrow> unat (- v) = nat (- sint v)" for v :: "64 word"
proof -
  assume "sint v < 0"
  moreover have "- (2 ^ 63) \<le> sint v" using sint_ge [of v] by simp
  ultimately have "unat (of_int (- sint v) :: 64 word) = nat (- sint v)" by (intro unat_of_int_eq) simp_all
  then show ?thesis by (simp only: of_int_minus of_int_sint scast_id id_apply)
qed

lemma i64_to_dec_eq:
  assumes "sint v \<noteq> - (2 ^ 63)" "off + 21 \<le> length tmp"
  shows "i64_to_dec v off tmp =
    Some (length (dec_int (sint v)), take off tmp @ dec_int (sint v) @ drop (off + length (dec_int (sint v))) tmp)"
proof (cases "sint v < 0")
  case True
  let ?t = "tmp[off := 45]"
  have "unat (- v) = nat (- sint v)" by (rule unat_minus_sint [OF True])
  then have e: "dec_int (sint v) = 45 # dec (unat (- v))" using True by (simp add: dec_int_def)
  have "u64_to_dec (- v) (off + 1) ?t = Some (length (dec (unat (- v))), take (off + 1) ?t @ dec (unat (- v)) @ drop (off + 1 + length (dec (unat (- v)))) ?t)"
    using dec_u64 [of "- v"] assms(2) by (intro u64_to_dec_eq) simp
  moreover have "take (off + 1) ?t = take off tmp @ [45]" using assms(2) by (simp add: take_Suc_conv_app_nth)
  ultimately show ?thesis using True assms e by (simp add: i64_to_dec_def put_def)
next
  case False
  then have "unat v = nat (sint v)" by (simp add: sint_nonneg_unat)
  then have "dec_int (sint v) = dec (unat v)" using False by (simp add: dec_int_def)
  then show ?thesis using False u64_to_dec_eq [of off v tmp] dec_u64 [of v] assms(2) by (simp add: i64_to_dec_def)
qed

section \<open>Hexadecimal text\<close>

primrec hex_padded :: "nat \<Rightarrow> nat \<Rightarrow> int list" where
  "hex_padded 0 n = []"
| "hex_padded (Suc k) n = hex (int (n div 16 ^ k mod 16)) # hex_padded k n"

text \<open>The hexadecimal digits without leading zeros, at least one.\<close>

primrec hex_trim :: "nat \<Rightarrow> nat \<Rightarrow> int list" where
  "hex_trim 0 n = []"
| "hex_trim (Suc k) n = (if n div 16 ^ k mod 16 \<noteq> 0 \<or> k = 0 then hex_padded (Suc k) n else hex_trim k n)"

definition hex_value :: "int list \<Rightarrow> nat" where
  "hex_value cs = foldl (\<lambda>a c. 16 * a + nat (if c < 58 then c - 48 else c - 87)) 0 cs"

lemma hex_digit: "d < 16 \<Longrightarrow> nat (if hex (int d) < 58 then hex (int d) - 48 else hex (int d) - 87) = d"
  by (simp add: hex_def)

lemma hex_zero: "hex (int d) = 48 \<longleftrightarrow> d = 0"
  by (auto simp: hex_def)

lemma hex_padded_length [simp]: "length (hex_padded k n) = k" by (induction k) simp_all

lemma hex_trim_length: "length (hex_trim k n) \<le> k" "0 < k \<Longrightarrow> hex_trim k n \<noteq> []"
proof -
  show "length (hex_trim k n) \<le> k" by (induction k) auto
  show "hex_trim k n \<noteq> []" if "0 < k" using that by (induction k) auto
qed

lemma hex_foldl: "foldl (\<lambda>a c. 16 * a + nat (if c < 58 then c - 48 else c - 87)) a (hex_padded k n) = a * 16 ^ k + n mod 16 ^ k"
proof (induction k arbitrary: a)
  case (Suc k)
  have "n mod 16 ^ Suc k = 16 ^ k * (n div 16 ^ k mod 16) + n mod 16 ^ k"
    using mod_mult2_eq [of n "16 ^ k" 16] by (simp add: mult.commute)
  then show ?case using Suc hex_digit [of "n div 16 ^ k mod 16"] by (simp add: algebra_simps)
qed simp

lemma hex_value_trim: "hex_value (hex_trim k n) = n mod 16 ^ k"
proof (induction k)
  case (Suc k)
  show ?case
  proof (cases "n div 16 ^ k mod 16 \<noteq> 0 \<or> k = 0")
    case True
    then show ?thesis using hex_foldl [of 0 "Suc k" n] by (simp add: hex_value_def del: hex_padded.simps)
  next
    case False
    have "n mod 16 ^ Suc k = 16 ^ k * (n div 16 ^ k mod 16) + n mod 16 ^ k"
      using mod_mult2_eq [of n "16 ^ k" 16] by (simp add: mult.commute)
    then show ?thesis using Suc False by simp
  qed
qed (simp add: hex_value_def)

lemma nibble: "uint (drop_bit j v AND 15) = int (unat v div 2 ^ j mod 16)" for v :: "64 word"
proof -
  have "drop_bit j v AND 15 = take_bit 4 (drop_bit j v)" using take_bit_eq_mask [of 4 "drop_bit j v"] by (simp add: mask_eq_exp_minus_1)
  then have "unat (drop_bit j v AND 15) = take_bit 4 (drop_bit j (unat v))" by (simp add: unsigned_take_bit_eq unat_drop_bit_eq)
  then have "unat (drop_bit j v AND 15) = unat v div 2 ^ j mod 16" by (simp add: take_bit_eq_mod drop_bit_eq_div)
  then show ?thesis by (metis of_nat_unat)
qed

lemma hex_loop_step:
  "hex_loop v (int (4 * k)) i started tmp = (let d = hex (int (unat v div 16 ^ k mod 16)) in
     if d \<noteq> 48 \<or> started \<or> k = 0 then do { tmp \<leftarrow> put i d tmp; hex_loop v (4 * int k - 4) (i + 1) True tmp }
     else hex_loop v (4 * int k - 4) i started tmp)"
proof -
  have "hex (uint (drop_bit (nat (int (4 * k))) v AND 15)) = hex (int (unat v div 16 ^ k mod 16))"
    by (simp only: nat_int nibble power_mult) simp
  then show ?thesis by (subst hex_loop.simps) (simp add: Let_def)
qed

lemma hex_loop_started:
  "i + k \<le> length tmp \<Longrightarrow> hex_loop v (4 * int k - 4) i True tmp =
    Some (i + k, take i tmp @ hex_padded k (unat v) @ drop (i + k) tmp)"
proof (induction k arbitrary: i tmp)
  case 0
  then show ?case by (subst hex_loop.simps) simp
next
  case (Suc k)
  define d where "d = hex (int (unat v div 16 ^ k mod 16))"
  have sh: "4 * int (Suc k) - 4 = int (4 * k)" by simp
  note st = hex_loop_step [of v k, folded d_def]
  have "hex_loop v (4 * int k - 4) (i + 1) True (tmp[i := d]) =
      Some (i + 1 + k, take (i + 1) (tmp[i := d]) @ hex_padded k (unat v) @ drop (i + 1 + k) (tmp[i := d]))"
    using Suc.prems by (intro Suc.IH) simp
  moreover have "take (i + 1) (tmp[i := d]) = take i tmp @ [d]" using Suc.prems by (simp add: take_Suc_conv_app_nth)
  ultimately show ?case using Suc.prems unfolding sh st by (simp add: put_def Let_def d_def [symmetric])
qed

lemma hex_loop_fresh:
  "i + length (hex_trim k (unat v)) \<le> length tmp \<Longrightarrow> hex_loop v (4 * int k - 4) i False tmp =
    Some (i + length (hex_trim k (unat v)), take i tmp @ hex_trim k (unat v) @ drop (i + length (hex_trim k (unat v))) tmp)"
proof (induction k)
  case 0
  then show ?case by (subst hex_loop.simps) simp
next
  case (Suc k)
  define d where "d = hex (int (unat v div 16 ^ k mod 16))"
  have sh: "4 * int (Suc k) - 4 = int (4 * k)" by simp
  note st = hex_loop_step [of v k, folded d_def]
  have z: "d = 48 \<longleftrightarrow> unat v div 16 ^ k mod 16 = 0" unfolding d_def by (rule hex_zero)
  show ?case
  proof (cases "unat v div 16 ^ k mod 16 \<noteq> 0 \<or> k = 0")
    case True
    then have t: "hex_trim (Suc k) (unat v) = d # hex_padded k (unat v)" by (simp add: d_def)
    have l: "i < length tmp" "i + 1 + k \<le> length (tmp[i := d])" using Suc.prems unfolding t by simp_all
    have "take (i + 1) (tmp[i := d]) = take i tmp @ [d]" using l by (simp add: take_Suc_conv_app_nth)
    moreover have "d \<noteq> 48 \<or> False \<or> k = 0" using True z by simp
    ultimately show ?thesis using hex_loop_started [OF l(2), of v] l unfolding sh st t Let_def by (simp add: put_def)
  next
    case False
    then show ?thesis using Suc z unfolding sh st Let_def by simp
  qed
qed

lemma ptr_to_hex_eq:
  assumes "18 \<le> length tmp"
  shows "ptr_to_hex v tmp = Some (2 + length (hex_trim 16 (unat v)),
    [48, 120] @ hex_trim 16 (unat v) @ drop (2 + length (hex_trim 16 (unat v))) tmp)"
proof -
  obtain a b t where t: "tmp = a # b # t" using assms by (cases tmp; cases "tl tmp") auto
  have "hex_loop v (4 * int 16 - 4) 2 False (48 # 120 # t) = Some (2 + length (hex_trim 16 (unat v)),
      take 2 (48 # 120 # t) @ hex_trim 16 (unat v) @ drop (2 + length (hex_trim 16 (unat v))) (48 # 120 # t))"
    using hex_trim_length(1) [of 16 "unat v"] assms t by (intro hex_loop_fresh) simp
  then show ?thesis by (simp add: ptr_to_hex_def t put_def)
qed

section \<open>The text of a double\<close>

primrec frac_digits :: "'d fpu \<Rightarrow> nat \<Rightarrow> 'd \<Rightarrow> int list" where
  "frac_digits fp 0 x = []"
| "frac_digits fp (Suc k) x = (let y = f_mul10 fp x; d = f_to_int fp y
     in (48 + sint d) mod 256 # frac_digits fp k (f_sub fp y (f_of_int fp d)))"

definition f64_text :: "'d fpu \<Rightarrow> 'd \<Rightarrow> int list" where
  "f64_text fp v = (let a = (if f_negative fp v then f_neg fp v else v); n = f_to_u64 fp a
     in (if f_negative fp v then [45] else []) @ dec (unat n) @ [46] @ frac_digits fp 6 (f_sub fp a (f_of_u64 fp n)))"

lemma frac_digits_length [simp]: "length (frac_digits fp k x) = k"
  by (induction k arbitrary: x) (simp_all add: Let_def)

lemma f64_text_length: "length (f64_text fp v) \<le> 28"
  using dec_u64 [of "f_to_u64 fp v"] dec_u64 [of "f_to_u64 fp (f_neg fp v)"] by (auto simp: f64_text_def Let_def)

lemma frac_loop_eq:
  "i + k \<le> length tmp \<Longrightarrow> frac_loop fp k x i tmp = Some (i + k, take i tmp @ frac_digits fp k x @ drop (i + k) tmp)"
proof (induction k arbitrary: x i tmp)
  case (Suc k)
  define d where "d = f_to_int fp (f_mul10 fp x)"
  let ?c = "(48 + sint d) mod 256"
  have "frac_loop fp k (f_sub fp (f_mul10 fp x) (f_of_int fp d)) (i + 1) (tmp[i := ?c]) =
      Some (i + 1 + k, take (i + 1) (tmp[i := ?c]) @ frac_digits fp k (f_sub fp (f_mul10 fp x) (f_of_int fp d)) @ drop (i + 1 + k) (tmp[i := ?c]))"
    using Suc.prems by (intro Suc.IH) simp
  moreover have "take (i + 1) (tmp[i := ?c]) = take i tmp @ [?c]" using Suc.prems by (simp add: take_Suc_conv_app_nth)
  ultimately show ?case using Suc.prems by (simp add: put_def Let_def d_def)
qed simp

lemma f64_to_dec_eq:
  assumes "28 \<le> length tmp"
  shows "f64_to_dec fp v tmp = Some (length (f64_text fp v), f64_text fp v @ drop (length (f64_text fp v)) tmp)"
proof -
  define sg where "sg = (if f_negative fp v then [45 :: int] else [])"
  define a where "a = (if f_negative fp v then f_neg fp v else v)"
  define n where "n = f_to_u64 fp a"
  define x where "x = f_sub fp a (f_of_u64 fp n)"
  have tx: "f64_text fp v = sg @ dec (unat n) @ [46] @ frac_digits fp 6 x"
    by (simp add: f64_text_def Let_def sg_def a_def n_def x_def)
  define t0 where "t0 = sg @ drop (length sg) tmp"
  have sgl: "length sg \<le> 1" by (simp add: sg_def)
  have l0: "length t0 = length tmp" using assms sgl by (simp add: t0_def)
  have sgn: "(if f_negative fp v then do { tmp \<leftarrow> put 0 45 tmp; Some (1, f_neg fp v, tmp) } else Some (0, v, tmp)) =
      Some (length sg, a, t0)"
    using assms by (cases tmp) (auto simp: put_def sg_def a_def t0_def)
  note d20 = dec_u64 [of n]
  have ip: "u64_to_dec n 0 (replicate 32 0) = Some (length (dec (unat n)), dec (unat n) @ drop (length (dec (unat n))) (replicate 32 0))"
    using u64_to_dec_eq [of 0 n "replicate 32 0"] d20 by simp
  define t1 where "t1 = sg @ dec (unat n) @ drop (length sg + length (dec (unat n))) tmp"
  have p1: "put_all (length sg) (dec (unat n)) t0 = Some t1"
    using d20 sgl assms by (simp add: put_all_def t0_def t1_def add.commute)
  define i where "i = length sg + length (dec (unat n))"
  have i: "i + 7 \<le> length tmp" using d20 sgl assms by (simp add: i_def)
  define t2 where "t2 = sg @ dec (unat n) @ [46] @ drop (i + 1) tmp"
  have p2: "put i 46 t1 = Some t2"
  proof -
    have "drop i tmp = tmp ! i # drop (i + 1) tmp" using i by (simp add: Cons_nth_drop_Suc)
    then have "t1 = (sg @ dec (unat n)) @ tmp ! i # drop (i + 1) tmp" by (simp add: t1_def i_def)
    moreover have "length (sg @ dec (unat n)) = i" by (simp add: i_def)
    moreover have "(xs @ y # ys)[length xs := 46] = xs @ 46 # ys" for xs ys and y :: int by simp
    ultimately have "t1[i := 46] = (sg @ dec (unat n)) @ 46 # drop (i + 1) tmp" "i < length t1" by (metis, simp)
    then show ?thesis by (simp add: put_def t2_def)
  qed
  have "frac_loop fp 6 x (i + 1) t2 = Some (i + 1 + 6, take (i + 1) t2 @ frac_digits fp 6 x @ drop (i + 1 + 6) t2)"
    using i by (intro frac_loop_eq) (simp add: t2_def i_def)
  moreover have "take (i + 1) t2 = sg @ dec (unat n) @ [46]" by (simp add: t2_def i_def)
  moreover have "drop (i + 1 + 6) t2 = drop (i + 7) tmp" by (simp add: t2_def i_def add.commute)
  ultimately show ?thesis
    unfolding f64_to_dec_def sgn using ip p1 p2
    by (simp add: n_def [symmetric] x_def [symmetric] i_def [symmetric] tx)
      (simp add: i_def add.assoc)
qed

end
