(* ===== verification/Strings.thy ===== *)
theory Strings
  imports Client Numbers
begin

text \<open>
  The strings of the runtime, \<^verbatim>\<open>src/runtime/src/strings.c\<close>. A \<open>__public__string_t\<close> at \<open>p\<close> is a 16-byte
  block with \<open>data\<close> at \<open>p\<close> and \<open>size\<close> at \<open>p + 8\<close>; its characters are bytes of another block. The
  operations take the allocator's \<open>allocate\<close> and \<open>release\<close> on the thread's arena as arguments \<open>al\<close>
  and \<open>rl\<close>. Sizes are integers; the casts of the source are written out where they matter.
\<close>

section \<open>Construction and access\<close>

type_synonym alloc_fun = "int \<Rightarrow> heap_state \<Rightarrow> (addr \<times> heap_state) option"
type_synonym release_fun = "addr \<Rightarrow> heap_state \<Rightarrow> heap_state option"

definition sizeof_string_t :: int where [simp]: "sizeof_string_t = 16"

text \<open>The result of the cast \<^verbatim>\<open>(int)\<close> of a 64-bit value.\<close>

definition to_int32 :: "int \<Rightarrow> int" where
  "to_int32 x = (x + 2 ^ 31) mod 2 ^ 32 - 2 ^ 31"

text \<open>The source of \<open>strings_alloc_from_raw\<close> is constant data of the compiled program.\<close>

definition strings_alloc_from_raw :: "alloc_fun \<Rightarrow> int list \<Rightarrow> int \<Rightarrow> heap_state \<Rightarrow> (addr \<times> heap_state) option" where
  "strings_alloc_from_raw al fmt sz s = do {
     (p, s) \<leftarrow> al sizeof_string_t s;
     (d, s) \<leftarrow> al (sz + 1) s;
     let s = poke p d s;
     let s = set_byte (hmem s p + sz) 0 s;
     let s = memput (hmem s p) (take (nat sz) fmt) s;
     let s = poke (p + 8) sz s;
     Some (p, s)
   }"

definition strings_get_bytes :: "alloc_fun \<Rightarrow> addr \<Rightarrow> heap_state \<Rightarrow> (addr \<times> heap_state) option" where
  "strings_get_bytes al fmt s = do {
     (arr, s) \<leftarrow> al (hmem s (fmt + 8)) s;
     let s = poke arr (hmem s fmt) s;
     let count = hmem s (fmt + 8);
     let s = poke (arr + 8) (hmem s arr + count * 1) s;
     let s = poke (arr + 16) count s;
     let s = poke (arr + 24) 1 s;
     Some (arr, s)
   }"

definition strings_alloc_from_arr :: "alloc_fun \<Rightarrow> addr \<Rightarrow> heap_state \<Rightarrow> (addr \<times> heap_state) option" where
  "strings_alloc_from_arr al fmt s = do {
     (p, s) \<leftarrow> al sizeof_string_t s;
     (d, s) \<leftarrow> al (hmem s (fmt + 16) + 1) s;
     let s = poke p d s;
     let s = set_byte (hmem s p + hmem s (fmt + 16)) 0 s;
     let s = memcpy (hmem s p) (hmem s fmt) (hmem s (fmt + 16)) s;
     let s = poke (p + 8) (hmem s (fmt + 16)) s;
     Some (p, s)
   }"

definition strings_length :: "addr \<Rightarrow> heap_state \<Rightarrow> int" where
  "strings_length str s = to_int32 (hmem s (str + 8))"

definition strings_get :: "addr \<Rightarrow> int \<Rightarrow> heap_state \<Rightarrow> int" where
  "strings_get str i s = hbytes s (hmem s str + i)"

text \<open>The loop of the comparison: the first difference, or \<open>None\<close> when it runs to the end.\<close>

function compare_loop :: "addr \<Rightarrow> addr \<Rightarrow> int \<Rightarrow> int \<Rightarrow> heap_state \<Rightarrow> int option" where
  "compare_loop d1 d2 m i s =
     (if i < m then
        let c1 = hbytes s (d1 + i); c2 = hbytes s (d2 + i) in
        if c1 \<noteq> c2 then Some (c1 - c2) else compare_loop d1 d2 m (i + 1) s
      else None)"
  by pat_completeness auto
termination by (relation "measure (\<lambda>(d1, d2, m, i, s). nat (m - i))") auto

declare compare_loop.simps [simp del]

definition strings_compare :: "addr \<Rightarrow> addr \<Rightarrow> heap_state \<Rightarrow> int" where
  "strings_compare str1 str2 s =
     (if str1 = NULL \<or> str2 = NULL then (if str1 = str2 then 0 else if str1 \<noteq> NULL then 1 else - 1)
      else
        let m = (if hmem s (str1 + 8) < hmem s (str2 + 8) then hmem s (str1 + 8) else hmem s (str2 + 8)) in
        case compare_loop (hmem s str1) (hmem s str2) m 0 s of
          Some d \<Rightarrow> d
        | None \<Rightarrow> to_int32 (hmem s (str1 + 8) - hmem s (str2 + 8)))"

section \<open>Operations that build new character data\<close>

definition strings_append :: "alloc_fun \<Rightarrow> release_fun \<Rightarrow> addr \<Rightarrow> int \<Rightarrow> heap_state \<Rightarrow> heap_state option" where
  "strings_append al rl str ch s = do {
     let s = poke (str + 8) (hmem s (str + 8) + 1) s;
     let sz = hmem s (str + 8);
     (data, s) \<leftarrow> al (sz + 1) s;
     let s = memcpy data (hmem s str) sz s;
     let s = set_byte (data + (sz - 1)) ch s;
     let s = set_byte (data + sz) 0 s;
     s \<leftarrow> rl (hmem s str) s;
     Some (poke str data s)
   }"

definition strings_join :: "alloc_fun \<Rightarrow> release_fun \<Rightarrow> addr \<Rightarrow> addr \<Rightarrow> heap_state \<Rightarrow> heap_state option" where
  "strings_join al rl str1 str2 s = do {
     let sz = hmem s (str1 + 8) + hmem s (str2 + 8);
     (data, s) \<leftarrow> al (sz + 1) s;
     let s = memcpy data (hmem s str1) (hmem s (str1 + 8)) s;
     let s = memcpy (data + hmem s (str1 + 8)) (hmem s str2) (hmem s (str2 + 8)) s;
     let s = set_byte (data + sz) 0 s;
     s \<leftarrow> rl (hmem s str1) s;
     let s = poke str1 data s;
     let s = poke (str1 + 8) sz s;
     Some s
   }"

text \<open>The cast \<^verbatim>\<open>(size_t)size\<close> of a negative size is written out.\<close>

definition strings_substring :: "alloc_fun \<Rightarrow> addr \<Rightarrow> int \<Rightarrow> int \<Rightarrow> heap_state \<Rightarrow> (addr \<times> heap_state) option" where
  "strings_substring al str start stop s =
     (if start < 0 \<or> stop > hmem s (str + 8) then Some (NULL, s)
      else do {
        let sz = stop - start;
        (data, s) \<leftarrow> al ((sz mod 2 ^ 64 + 1) mod 2 ^ 64) s;
        let s = memcpy data (hmem s str + start) (sz mod 2 ^ 64) s;
        let s = set_byte (data + sz) 0 s;
        (res, s) \<leftarrow> al sizeof_string_t s;
        let s = poke res data s;
        let s = poke (res + 8) (sz mod 2 ^ 64) s;
        Some (res, s)
      })"

section \<open>Formatting\<close>

text \<open>The growing output buffer, and what is appended: a local array, or memory at an address.\<close>

record fbuf =
  out :: addr
  cap :: int
  len :: int

datatype source = Local "int list" | At addr

definition copy_from :: "addr \<Rightarrow> source \<Rightarrow> int \<Rightarrow> heap_state \<Rightarrow> heap_state" where
  "copy_from d src n s = (case src of Local bs \<Rightarrow> memput d (take (nat n) bs) s | At a \<Rightarrow> memcpy d a n s)"

text \<open>
  Doubling the capacity until it is large enough; from 0 the loop would not end (\<open>None\<close>).
\<close>

function grow_cap :: "int \<Rightarrow> int \<Rightarrow> int option" where
  "grow_cap newcap need = (if newcap < need then if newcap \<le> 0 then None else grow_cap (newcap * 2) need else Some newcap)"
  by pat_completeness auto
termination by (relation "measure (\<lambda>(newcap, need). nat (need - newcap))") auto

declare grow_cap.simps [simp del]

definition buf_append :: "alloc_fun \<Rightarrow> fbuf \<Rightarrow> source \<Rightarrow> int \<Rightarrow> heap_state \<Rightarrow> (fbuf \<times> heap_state) option" where
  "buf_append al b src n s = do {
     (b, s) \<leftarrow> (if len b + n > cap b then do {
         newcap \<leftarrow> grow_cap (if cap b = 0 then 64 else cap b * 2) (len b + n);
         (nb, s) \<leftarrow> al newcap s;
         let s = (if out b \<noteq> NULL then memcpy nb (out b) (len b) s else s);
         Some (b\<lparr>out := nb, cap := newcap\<rparr>, s)
       } else Some (b, s));
     let s = copy_from (out b + len b) src n s;
     Some (b\<lparr>len := len b + n\<rparr>, s)
   }"

text \<open>
  The variable arguments, with the type each was passed with; reading an argument with another type,
  or one too many, is undefined and gives \<open>None\<close>.
\<close>

datatype 'd arg = AStr addr | AInt "32 word" | AUInt "32 word" | ALong "64 word" | AULong "64 word" | APtr "64 word" | ADbl 'd

definition append_tmp :: "alloc_fun \<Rightarrow> fbuf \<Rightarrow> (nat \<times> buf) option \<Rightarrow> heap_state \<Rightarrow> (fbuf \<times> heap_state) option" where
  "append_tmp al b r s = do { (n, tmp) \<leftarrow> r; buf_append al b (Local tmp) (int n) s }"

text \<open>
  One conversion. \<open>nxt\<close> is the character after the specifier, if there is one; the first result says
  whether it is consumed too. The code has this conversion three times: in \<open>strings_format\<close>, where
  \<open>%l\<close> leaves a following \<open>d\<close> in the format, and in the two \<open>printf\<close> functions of the disk I/O, where
  \<open>%ld\<close> is one conversion; \<open>ld\<close> says which.
\<close>

definition format_spec ::
  "bool \<Rightarrow> 'd fpu \<Rightarrow> alloc_fun \<Rightarrow> int \<Rightarrow> int option \<Rightarrow> fbuf \<Rightarrow> 'd arg list \<Rightarrow> heap_state \<Rightarrow>
   (bool \<times> fbuf \<times> 'd arg list \<times> heap_state) option" where
  "format_spec ld fp al spec nxt b args s =
     (if spec = 37 then do { (b, s) \<leftarrow> buf_append al b (Local [37]) 1 s; Some (False, b, args, s) }
      else if spec = 115 then
        (case args of
           AStr a # args \<Rightarrow>
             if a \<noteq> NULL \<and> hmem s a \<noteq> NULL \<and> hmem s (a + 8) \<noteq> 0
             then do { (b, s) \<leftarrow> buf_append al b (At (hmem s a)) (hmem s (a + 8)) s; Some (False, b, args, s) }
             else Some (False, b, args, s)
         | _ \<Rightarrow> None)
      else if spec = 100 then
        (case args of
           AInt v # args \<Rightarrow> do {
             (b, s) \<leftarrow> append_tmp al b (i64_to_dec (scast v) 0 (replicate 32 0)) s; Some (False, b, args, s) }
         | _ \<Rightarrow> None)
      else if spec = 117 then
        (case args of
           AUInt v # args \<Rightarrow> do {
             (b, s) \<leftarrow> append_tmp al b (u64_to_dec (ucast v) 0 (replicate 32 0)) s; Some (False, b, args, s) }
         | _ \<Rightarrow> None)
      else if spec = 108 then
        (if nxt = Some 117 then
           (case args of
              AULong v # args \<Rightarrow> do {
                (b, s) \<leftarrow> append_tmp al b (u64_to_dec v 0 (replicate 32 0)) s; Some (True, b, args, s) }
            | _ \<Rightarrow> None)
         else
           (case args of
              ALong v # args \<Rightarrow> do {
                (b, s) \<leftarrow> append_tmp al b (i64_to_dec v 0 (replicate 32 0)) s; Some (ld \<and> nxt = Some 100, b, args, s) }
            | _ \<Rightarrow> None))
      else if spec = 112 then
        (case args of
           APtr v # args \<Rightarrow> do {
             (b, s) \<leftarrow> append_tmp al b (ptr_to_hex v (replicate 32 0)) s; Some (False, b, args, s) }
         | _ \<Rightarrow> None)
      else if spec = 102 then
        (case args of
           ADbl v # args \<Rightarrow> do {
             (b, s) \<leftarrow> append_tmp al b (f64_to_dec fp v (replicate 64 0)) s; Some (False, b, args, s) }
         | _ \<Rightarrow> None)
      else do {
        (b, s) \<leftarrow> buf_append al b (Local [37]) 1 s;
        (b, s) \<leftarrow> buf_append al b (Local [spec]) 1 s;
        Some (False, b, args, s)
      })"

text \<open>
  The loop over the format string, whose \<open>data\<close> and \<open>size\<close> are read once: no step of the loop writes
  to the string header.
\<close>

function format_loop ::
  "bool \<Rightarrow> 'd fpu \<Rightarrow> alloc_fun \<Rightarrow> addr \<Rightarrow> int \<Rightarrow> int \<Rightarrow> fbuf \<Rightarrow> 'd arg list \<Rightarrow> heap_state \<Rightarrow> (fbuf \<times> heap_state) option" where
  "format_loop ld fp al data sz i b args s =
     (if i < sz then
        let c = hbytes s (data + i) in
        if c \<noteq> 37 then do {
          (b, s) \<leftarrow> buf_append al b (Local [c]) 1 s;
          format_loop ld fp al data sz (i + 1) b args s
        }
        else if i + 1 \<ge> sz then Some (b, s)
        else do {
          let spec = hbytes s (data + (i + 1));
          let nxt = (if i + 2 < sz then Some (hbytes s (data + (i + 2))) else None);
          (skip, b, args, s) \<leftarrow> format_spec ld fp al spec nxt b args s;
          format_loop ld fp al data sz (i + 2 + (if skip then 1 else 0)) b args s
        }
      else Some (b, s))"
  by pat_completeness auto
termination by (relation "measure (\<lambda>(ld, fp, al, data, sz, i, b, args, s). nat (sz - i))") auto

declare format_loop.simps [simp del]

definition strings_format :: "'d fpu \<Rightarrow> alloc_fun \<Rightarrow> addr \<Rightarrow> 'd arg list \<Rightarrow> heap_state \<Rightarrow> (addr \<times> heap_state) option" where
  "strings_format fp al fmt args s =
     (if fmt = NULL \<or> hmem s fmt = NULL then Some (NULL, s)
      else do {
        (b, s) \<leftarrow> format_loop False fp al (hmem s fmt) (hmem s (fmt + 8)) 0 \<lparr>out = NULL, cap = 0, len = 0\<rparr> args s;
        (res, s) \<leftarrow> al sizeof_string_t s;
        let s = poke res (out b) s;
        let s = poke (res + 8) (len b) s;
        Some (res, s)
      })"

section \<open>Strings in the heap\<close>

text \<open>The string at \<open>p\<close> has the characters \<open>bs\<close> in its data block \<open>d\<close> of \<open>n\<close> bytes.\<close>

definition str_rep :: "heap_state \<Rightarrow> (addr \<rightharpoonup> int) \<Rightarrow> addr \<Rightarrow> addr \<Rightarrow> int \<Rightarrow> int list \<Rightarrow> bool" where
  "str_rep s L p d n bs \<longleftrightarrow> L p = Some 16 \<and> L d = Some n \<and> p \<noteq> d \<and> hmem s p = d \<and> hmem s (p + 8) = int (length bs) \<and>
     int (length bs) \<le> n \<and> bytes_at s d (length bs) = bs"

lemma str_repD:
  assumes "str_rep s L p d n bs"
  shows "L p = Some 16" "L d = Some n" "p \<noteq> d" "hmem s p = d" "hmem s (p + 8) = int (length bs)"
    "int (length bs) \<le> n" "bytes_at s d (length bs) = bs"
  using assms by (simp_all add: str_rep_def)

lemma str_rep_frame:
  assumes "str_rep s L p d n bs" "frame B L s L' s'" "p \<notin> B" "d \<notin> B"
  shows "str_rep s' L' p d n bs"
proof -
  note r = str_repD [OF assms(1)]
  have "bytes_at s' (d + 0) (length bs) = bytes_at s (d + 0) (length bs)"
    using frame_bytes [OF assms(2) r(2) assms(4), of 0 "length bs"] r(6) by simp
  then show ?thesis
    using r frameD(1) [OF assms(2) r(1) assms(3)] frameD(2) [OF assms(2) r(1) assms(3), of 0] frameD(2) [OF assms(2) r(1) assms(3), of 8] frameD(1) [OF assms(2) r(2) assms(4)]
    by (simp add: str_rep_def)
qed

context allocator
begin

lemma alloc_from_raw_rep:
  assumes i: "inv s L" and sz: "sz = int (length fmt)" "sz < 2 ^ 39" and r: "strings_alloc_from_raw alloc fmt sz s = Some (p, s')"
  shows "\<exists>d L'. inv s' L' \<and> str_rep s' L' p d (sz + 1) fmt \<and> hbytes s' (d + sz) = 0 \<and> frame {} L s L' s' \<and> L p = None \<and> L d = None"
proof -
  obtain q s1 d s2 where a: "alloc 16 s = Some (q, s1)" "alloc (sz + 1) s1 = Some (d, s2)"
    using r by (auto simp: strings_alloc_from_raw_def split: bind_splits)
  have e: "q = p" "s' = poke (p + 8) sz (memput d fmt (set_byte (d + sz) 0 (poke p d s2)))"
    using r a sz by (auto simp: strings_alloc_from_raw_def Let_def)
  have ss: "(0::int) < 16" "(16::int) < 2 ^ 40" "0 < sz + 1" "sz + 1 < 2 ^ 40" using sz by simp_all
  define L1 where "L1 = L(p \<mapsto> 16)"
  define L2 where "L2 = L1(d \<mapsto> sz + 1)"
  note a1 = alloc_frame [OF i ss(1,2) a(1), unfolded e(1), folded L1_def]
  note a2 = alloc_frame [OF a1(1) ss(3,4) a(2), folded L2_def]
  have dp: "d \<noteq> p" "L d = None" using a2(2) by (auto simp: L1_def split: if_splits)
  have Lp: "L2 p = Some 16" "L2 d = Some (sz + 1)" using dp by (simp_all add: L1_def L2_def)
  let ?s3 = "poke p d s2" and ?s4 = "set_byte (d + sz) 0 (poke p d s2)"
  let ?s5 = "memput d fmt ?s4"
  have f3: "inv ?s3 L2" "frame {p} L2 s2 L2 ?s3" using poke_frame [OF a2(1) Lp(1), of 0 d] by simp_all
  have f4: "inv ?s4 L2" "frame {d} L2 ?s3 L2 ?s4" using set_byte_frame [OF f3(1) Lp(2), of sz 0] sz by simp_all
  have f5: "inv ?s5 L2" "frame {d} L2 ?s4 L2 ?s5" using memput_frame [OF f4(1) Lp(2), of 0 fmt] sz by simp_all
  have f6: "inv s' L2" "frame {p} L2 ?s5 L2 s'" using poke_frame [OF f5(1) Lp(1), of 8 sz] e(2) by simp_all
  have "frame ({} \<union> {} \<union> {p} \<union> {d} \<union> {d} \<union> {p}) L s L2 s'"
    by (rule frame_trans [OF frame_trans [OF frame_trans [OF frame_trans [OF frame_trans [OF a1(3) a2(3)] f3(2)] f4(2)] f5(2)] f6(2)])
  then have "frame {} L s L2 s'" by (rule frame_drop) (use a1(2) dp(2) in auto)
  moreover have "bytes_at s' d (length fmt) = fmt" using bytes_at_memput [of "length fmt" fmt d ?s4] by (simp add: e(2) bytes_at_def)
  then have "str_rep s' L2 p d (sz + 1) fmt" using Lp dp sz by (simp add: str_rep_def e(2))
  moreover have "hbytes s' (d + sz) = 0" using sz by (simp add: e(2) write_list_def)
  ultimately show ?thesis using f6(1) a1(2) dp(2) by blast
qed

lemma append_rep:
  assumes i: "inv s L" and r: "str_rep s L p d n bs" and n: "int (length bs) < n" "n < 2 ^ 39" "releasable n"
    and a: "strings_append alloc rel p ch s = Some s'"
  shows "\<exists>d' L'. inv s' L' \<and> str_rep s' L' p d' (int (length bs) + 2) (bs @ [ch mod 256]) \<and> frame {p, d} L s L' s' \<and> L' d = None \<and> L d' = None"
proof -
  note rp = str_repD [OF r]
  define k where "k = int (length bs)"
  let ?s1 = "poke (p + 8) (k + 1) s"
  have f1: "inv ?s1 L" "frame {p} L s L ?s1" using poke_frame [OF i rp(1), of 8 "k + 1"] by simp_all
  obtain nd s2 where al: "alloc (k + 2) ?s1 = Some (nd, s2)"
    using a rp by (auto simp: strings_append_def k_def Let_def add.assoc split: bind_splits)
  have ss: "0 < k + 2" "k + 2 < 2 ^ 40" using n by (simp_all add: k_def)
  define L2 where "L2 = L(nd \<mapsto> k + 2)"
  note f2 = alloc_frame [OF f1(1) ss al, folded L2_def]
  have L2: "L2 p = Some 16" "L2 d = Some n" "L2 nd = Some (k + 2)" "nd \<noteq> p" "nd \<noteq> d" using rp f2(2) by (auto simp: L2_def)
  have pf: "hmem s2 p = d" "hmem s2 (p + 8) = k + 1"
    using frameD(2) [OF f2(3) rp(1), of 0] frameD(2) [OF f2(3) rp(1), of 8] rp by simp_all
  let ?s3 = "memcpy nd d (k + 1) s2"
  let ?s4 = "set_byte (nd + k) ch ?s3"
  let ?s5 = "set_byte (nd + (k + 1)) 0 ?s4"
  have f3: "inv ?s3 L2" "frame {nd} L2 s2 L2 ?s3" using memcpy_frame [OF f2(1) L2(3), of 0 "k + 1" d] by (simp_all add: k_def)
  have f4: "inv ?s4 L2" "frame {nd} L2 ?s3 L2 ?s4" using set_byte_frame [OF f3(1) L2(3), of k ch] by (simp_all add: k_def)
  have f5: "inv ?s5 L2" "frame {nd} L2 ?s4 L2 ?s5" using set_byte_frame [OF f4(1) L2(3), of "k + 1" 0] by (simp_all add: k_def)
  obtain s6 where f6: "rel d ?s5 = Some s6" "inv s6 (L2(d := None))" "frame {d} L2 ?s5 (L2(d := None)) s6"
    by (rule rel_frame [OF f5(1) L2(2) n(3)])
  define L3 where "L3 = L2(d := None)"
  note f6 = f6 [folded L3_def]
  have L3: "L3 p = Some 16" "L3 nd = Some (k + 2)" using L2 rp by (simp_all add: L3_def)
  have p5: "hmem ?s5 p = d" using frameD(2) [OF frame_trans [OF frame_trans [OF f3(2) f4(2)] f5(2)] L2(1), of 0] pf(1) L2 by simp
  have e: "s' = poke p nd s6"
    using a al f6(1) p5 pf rp by (simp add: strings_append_def k_def [symmetric] Let_def add.assoc)
  have f7: "inv s' L3" "frame {p} L3 s6 L3 s'" using poke_frame [OF f6(2) L3(1), of 0 nd] e by simp_all
  have "frame ({p} \<union> {} \<union> {nd} \<union> {nd} \<union> {nd} \<union> {d} \<union> {p}) L s L3 s'"
    by (rule frame_trans [OF frame_trans [OF frame_trans [OF frame_trans [OF frame_trans [OF frame_trans [OF f1(2) f2(3)] f3(2)] f4(2)] f5(2)] f6(3)] f7(2)])
  then have fr: "frame {p, d} L s L3 s'" by (rule frame_drop) (use f2(2) in auto)
  have "bytes_at s' nd (length bs + 1) = bytes_at ?s5 nd (length bs + 1)"
    using frame_bytes [OF frame_trans [OF f6(3) f7(2)] L2(3), of 0 "length bs + 1"] L2 by (simp add: k_def)
  also have "\<dots> = bs @ [ch mod 256]"
  proof -
    have "bytes_at ?s5 nd (length bs) = bytes_at ?s3 nd (length bs)" by (rule bytes_at_cong) (simp add: k_def)
    also have "\<dots> = bytes_at s2 d (length bs)" by (rule bytes_at_memcpy) (simp add: k_def)
    also have "\<dots> = bytes_at s d (length bs)"
      using frame_bytes [OF frame_trans [OF f1(2) f2(3)] rp(2), of 0 "length bs"] rp by simp
    finally have "bytes_at ?s5 nd (length bs) = bs" using rp(7) by simp
    then show ?thesis by (subst bytes_at_append) (simp add: bytes_at_def k_def)
  qed
  finally have by': "bytes_at s' nd (length (bs @ [ch mod 256])) = bs @ [ch mod 256]" by simp
  have p5': "hmem ?s5 (p + 8) = k + 1"
    using frameD(2) [OF frame_trans [OF frame_trans [OF f3(2) f4(2)] f5(2)] L2(1), of 8] pf(2) L2 by simp
  have "hmem s6 (p + 8) = k + 1" using frameD(2) [OF f6(3) L2(1), of 8] p5' rp(3) by simp
  then have "str_rep s' L3 p nd (k + 2) (bs @ [ch mod 256])" using L3 L2 by' by (simp add: str_rep_def e k_def)
  then show ?thesis using f7(1) fr f2(2) unfolding k_def by (intro exI [of _ nd] exI [of _ L3]) (auto simp: L3_def)
qed

lemma join_rep:
  assumes i: "inv s L" and r1: "str_rep s L p d n bs" and r2: "str_rep s L p2 d2 n2 bs2" and n: "n < 2 ^ 38" "n2 < 2 ^ 38" "releasable n"
    and a: "strings_join alloc rel p p2 s = Some s'"
  shows "\<exists>d' L'. inv s' L' \<and> str_rep s' L' p d' (int (length (bs @ bs2)) + 1) (bs @ bs2) \<and> frame {p, d} L s L' s' \<and> L' d = None \<and> L d' = None"
proof -
  note rp = str_repD [OF r1] and rq = str_repD [OF r2]
  define k k2 where "k = int (length bs)" and "k2 = int (length bs2)"
  note kd = k_def [symmetric] k2_def [symmetric]
  have kk: "0 \<le> k" "0 \<le> k2" "k \<le> n" "k2 \<le> n2" using rp(6) rq(6) by (simp_all add: k_def k2_def)
  obtain nd s2 where al: "alloc (k + k2 + 1) s = Some (nd, s2)"
    using a rp rq by (auto simp: strings_join_def kd Let_def split: bind_splits)
  have ss: "0 < k + k2 + 1" "k + k2 + 1 < 2 ^ 40" using n kk by simp_all
  define L2 where "L2 = L(nd \<mapsto> k + k2 + 1)"
  note f2 = alloc_frame [OF i ss al, folded L2_def]
  have L2: "L2 p = Some 16" "L2 d = Some n" "L2 nd = Some (k + k2 + 1)" "L2 p2 = Some 16" "L2 d2 = Some n2"
    "nd \<noteq> p" "nd \<noteq> d" "nd \<noteq> p2" "nd \<noteq> d2" using rp rq f2(2) by (auto simp: L2_def)
  have rr: "str_rep s2 L2 p d n bs" "str_rep s2 L2 p2 d2 n2 bs2" using str_rep_frame [OF r1 f2(3)] str_rep_frame [OF r2 f2(3)] by simp_all
  let ?s3 = "memcpy nd d k s2"
  have f3: "inv ?s3 L2" "frame {nd} L2 s2 L2 ?s3" using memcpy_frame [OF f2(1) L2(3), of 0 k d] kk by simp_all
  have rr3: "str_rep ?s3 L2 p d n bs" "str_rep ?s3 L2 p2 d2 n2 bs2"
    using str_rep_frame [OF rr(1) f3(2)] str_rep_frame [OF rr(2) f3(2)] L2 by simp_all
  let ?s4 = "memcpy (nd + k) d2 k2 ?s3"
  let ?s5 = "set_byte (nd + (k + k2)) 0 ?s4"
  have f4: "inv ?s4 L2" "frame {nd} L2 ?s3 L2 ?s4" using memcpy_frame [OF f3(1) L2(3), of k k2 d2] kk by simp_all
  have f5: "inv ?s5 L2" "frame {nd} L2 ?s4 L2 ?s5" using set_byte_frame [OF f4(1) L2(3), of "k + k2" 0] kk by simp_all
  obtain s6 where f6: "rel d ?s5 = Some s6" "inv s6 (L2(d := None))" "frame {d} L2 ?s5 (L2(d := None)) s6"
    by (rule rel_frame [OF f5(1) L2(2) n(3)])
  define L3 where "L3 = L2(d := None)"
  note f6 = f6 [folded L3_def]
  have L3: "L3 p = Some 16" "L3 nd = Some (k + k2 + 1)" using L2 rp by (simp_all add: L3_def)
  have p5: "hmem ?s5 p = d" using frameD(2) [OF frame_trans [OF f4(2) f5(2)] L2(1), of 0] str_repD(4) [OF rr3(1)] L2 by simp
  have e: "s' = poke (p + 8) (k + k2) (poke p nd s6)"
    using a al f6(1) p5 str_repD(4,5) [OF rr(1)] str_repD(4,5) [OF rr(2)] str_repD(4,5) [OF rr3(1)] str_repD(4,5) [OF rr3(2)] rp rq
    by (simp add: strings_join_def kd Let_def)
  let ?s7 = "poke p nd s6"
  have f7: "inv ?s7 L3" "frame {p} L3 s6 L3 ?s7" using poke_frame [OF f6(2) L3(1), of 0 nd] by simp_all
  have f8: "inv s' L3" "frame {p} L3 ?s7 L3 s'" using poke_frame [OF f7(1) L3(1), of 8 "k + k2"] e by simp_all
  have "frame ({} \<union> {nd} \<union> {nd} \<union> {nd} \<union> {d} \<union> {p} \<union> {p}) L s L3 s'"
    by (rule frame_trans [OF frame_trans [OF frame_trans [OF frame_trans [OF frame_trans [OF frame_trans [OF f2(3) f3(2)] f4(2)] f5(2)] f6(3)] f7(2)] f8(2)])
  then have fr: "frame {p, d} L s L3 s'" by (rule frame_drop) (use f2(2) in auto)
  have "bytes_at s' nd (length bs + length bs2) = bytes_at ?s5 nd (length bs + length bs2)"
    using frame_bytes [OF frame_trans [OF frame_trans [OF f6(3) f7(2)] f8(2)] L2(3), of 0 "length bs + length bs2"] L2 by (simp add: k_def k2_def)
  also have "\<dots> = bs @ bs2"
  proof -
    have "bytes_at ?s5 nd (length bs) = bytes_at ?s3 nd (length bs)" by (rule bytes_at_cong) (simp add: k_def k2_def copy_region_def)
    also have "\<dots> = bs" using bytes_at_memcpy [of "length bs" k nd d s2] str_repD(7) [OF rr(1)] by (simp add: k_def)
    finally have b1: "bytes_at ?s5 nd (length bs) = bs" .
    have "bytes_at ?s5 (nd + k) (length bs2) = bytes_at ?s4 (nd + k) (length bs2)" by (rule bytes_at_cong) (simp add: k_def k2_def)
    also have "\<dots> = bs2" using bytes_at_memcpy [of "length bs2" k2 "nd + k" d2 ?s3] str_repD(7) [OF rr3(2)] by (simp add: k2_def)
    finally show ?thesis using b1 by (subst bytes_at_append) (simp add: k_def)
  qed
  finally have "str_rep s' L3 p nd (k + k2 + 1) (bs @ bs2)" using L3 L2 kk by (simp add: str_rep_def e k_def k2_def)
  then show ?thesis using f8(1) fr f2(2) unfolding k_def k2_def by (intro exI [of _ nd] exI [of _ L3]) (auto simp: L3_def)
qed

lemma substring_rep:
  assumes i: "inv s L" and r: "str_rep s L p d n bs" and n: "n < 2 ^ 39" and b: "0 \<le> st" "st \<le> en" "en \<le> int (length bs)"
    and a: "strings_substring alloc p st en s = Some (res, s')"
  shows "\<exists>d' L'. inv s' L' \<and> str_rep s' L' res d' (en - st + 1) (take (nat (en - st)) (drop (nat st) bs)) \<and> frame {} L s L' s' \<and>
    L res = None \<and> L d' = None"
proof -
  note rp = str_repD [OF r]
  define k where "k = en - st"
  have kk: "0 \<le> k" "k \<le> n" "k < 2 ^ 39" "k mod 18446744073709551616 = k" "(k + 1) mod 18446744073709551616 = k + 1"
    using b rp(6) n by (simp_all add: k_def mod_pos_pos_trivial)
  obtain nd s1 q s3 where al: "alloc (k + 1) s = Some (nd, s1)"
      "alloc 16 (set_byte (nd + k) 0 (memcpy nd (hmem s1 p + st) k s1)) = Some (q, s3)"
    using a b rp kk by (auto simp: strings_substring_def k_def [symmetric] Let_def split: bind_splits)
  have ss: "0 < k + 1" "k + 1 < 2 ^ 40" "(0::int) < 16" "(16::int) < 2 ^ 40" using kk by simp_all
  define L1 where "L1 = L(nd \<mapsto> k + 1)"
  note f1 = alloc_frame [OF i ss(1,2) al(1), folded L1_def]
  have L1: "L1 nd = Some (k + 1)" "L1 d = Some n" "nd \<noteq> d" using rp f1(2) by (auto simp: L1_def)
  have r1: "str_rep s1 L1 p d n bs" using str_rep_frame [OF r f1(3)] by simp
  let ?s2 = "memcpy nd (d + st) k s1" and ?s2' = "set_byte (nd + k) 0 (memcpy nd (d + st) k s1)"
  have f2: "inv ?s2 L1" "frame {nd} L1 s1 L1 ?s2" using memcpy_frame [OF f1(1) L1(1), of 0 k "d + st"] kk by simp_all
  have f2': "inv ?s2' L1" "frame {nd} L1 ?s2 L1 ?s2'" using set_byte_frame [OF f2(1) L1(1), of k 0] kk by simp_all
  define L2 where "L2 = L1(q \<mapsto> 16)"
  have al2: "alloc 16 ?s2' = Some (q, s3)" using al(2) str_repD(4) [OF r1] by simp
  note f3 = alloc_frame [OF f2'(1) ss(3,4) al2, folded L2_def]
  have e: "res = q" "s' = poke (res + 8) k (poke res nd s3)"
    using a al al2 b rp kk str_repD(4) [OF r1] by (auto simp: strings_substring_def k_def [symmetric] Let_def)
  note f3 = f3 [folded e(1)]
  have L2: "L2 res = Some 16" "L2 nd = Some (k + 1)" "res \<noteq> nd" "L res = None"
    using L1 f3(2) by (auto simp: L2_def e(1) L1_def split: if_splits)
  let ?s4 = "poke res nd s3"
  have f4: "inv ?s4 L2" "frame {res} L2 s3 L2 ?s4" using poke_frame [OF f3(1) L2(1), of 0 nd] by simp_all
  have f5: "inv s' L2" "frame {res} L2 ?s4 L2 s'" using poke_frame [OF f4(1) L2(1), of 8 k] e by simp_all
  have "frame ({} \<union> {nd} \<union> {nd} \<union> {} \<union> {res} \<union> {res}) L s L2 s'"
    by (rule frame_trans [OF frame_trans [OF frame_trans [OF frame_trans [OF frame_trans [OF f1(3) f2(2)] f2'(2)] f3(3)] f4(2)] f5(2)])
  then have fr: "frame {} L s L2 s'" by (rule frame_drop) (use f1(2) L2(4) in auto)
  have "bytes_at s' nd (nat k) = bytes_at ?s2' nd (nat k)"
    using frame_bytes [OF frame_trans [OF frame_trans [OF f3(3) f4(2)] f5(2)] L1(1), of 0 "nat k"] L2(3) kk by simp
  also have "\<dots> = bytes_at ?s2 nd (nat k)" by (rule bytes_at_cong) (use kk in auto)
  also have "\<dots> = bytes_at s1 (d + st) (nat k)" by (rule bytes_at_memcpy) (use kk in simp)
  also have "\<dots> = take (nat k) (drop (nat st) bs)"
  proof (rule nth_equalityI)
    show "length (bytes_at s1 (d + st) (nat k)) = length (take (nat k) (drop (nat st) bs))" using b by (simp add: k_def)
    fix j assume "j < length (bytes_at s1 (d + st) (nat k))"
    then have j: "j < nat k" "nat st + j < length bs" using b by (auto simp: k_def)
    have "bytes_at s1 d (length bs) ! (nat st + j) = hbytes s1 (d + int (nat st + j))" by (rule bytes_at_nth [OF j(2)])
    then show "bytes_at s1 (d + st) (nat k) ! j = take (nat k) (drop (nat st) bs) ! j"
      using j b str_repD(7) [OF r1] by (simp add: bytes_at_nth add.assoc)
  qed
  finally have "str_rep s' L2 res nd (k + 1) (take (nat k) (drop (nat st) bs))"
    using L2 kk b by (simp add: str_rep_def e(2) k_def)
  then show ?thesis using f5(1) fr f1(2) L2(4) unfolding k_def by (intro exI [of _ nd] exI [of _ L2]) auto
qed

end

lemma substring_bounds: "st < 0 \<or> hmem s (p + 8) < en \<Longrightarrow> strings_substring al p st en s = Some (0, s)"
  by (auto simp: strings_substring_def)

section \<open>Comparison is lexicographic\<close>

fun first_diff :: "int list \<Rightarrow> int list \<Rightarrow> int option" where
  "first_diff (x # xs) (y # ys) = (if x \<noteq> y then Some (x - y) else first_diff xs ys)"
| "first_diff _ _ = None"

definition compare_spec :: "int list \<Rightarrow> int list \<Rightarrow> int" where
  "compare_spec xs ys = (case first_diff xs ys of Some d \<Rightarrow> d | None \<Rightarrow> int (length xs) - int (length ys))"

lemma bytes_at_Suc: "bytes_at s a (Suc n) = hbytes s a # bytes_at s (a + 1) n"
  using bytes_at_append [of s a 1 n] by (simp add: bytes_at_def)

lemma compare_loop_eq: "compare_loop d1 d2 (i + int k) i s = first_diff (bytes_at s (d1 + i) k) (bytes_at s (d2 + i) k)"
proof (induction k arbitrary: i)
  case 0
  then show ?case by (subst compare_loop.simps) (simp add: bytes_at_def)
next
  case (Suc k)
  have "compare_loop d1 d2 (i + int (Suc k)) (i + 1) s = first_diff (bytes_at s (d1 + (i + 1)) k) (bytes_at s (d2 + (i + 1)) k)"
    using Suc [of "i + 1"] by (simp add: algebra_simps)
  then show ?case by (subst compare_loop.simps) (simp add: bytes_at_Suc Let_def add.assoc)
qed

lemma first_diff_take: "m = min (length xs) (length ys) \<Longrightarrow> first_diff (take m xs) (take m ys) = first_diff xs ys"
  by (induction xs ys arbitrary: m rule: first_diff.induct) auto

lemma to_int32_id: "- (2 ^ 31) \<le> x \<Longrightarrow> x < 2 ^ 31 \<Longrightarrow> to_int32 x = x"
  by (simp add: to_int32_def mod_pos_pos_trivial)

lemma bytes_at_take: "m \<le> n \<Longrightarrow> bytes_at s a m = take m (bytes_at s a n)"
  by (simp add: bytes_at_def take_map)

lemma strings_compare_spec:
  assumes r: "str_rep s L p1 d1 n1 xs" "str_rep s L p2 d2 n2 ys" and nn: "p1 \<noteq> 0" "p2 \<noteq> 0"
    and len: "length xs < 2 ^ 31" "length ys < 2 ^ 31"
  shows "strings_compare p1 p2 s = compare_spec xs ys"
proof -
  note r1 = str_repD [OF r(1)] and r2 = str_repD [OF r(2)]
  define m where "m = min (length xs) (length ys)"
  have "(if hmem s (p1 + 8) < hmem s (p2 + 8) then hmem s (p1 + 8) else hmem s (p2 + 8)) = 0 + int m"
    using r1 r2 by (simp add: m_def)
  moreover have "compare_loop d1 d2 (0 + int m) 0 s = first_diff xs ys"
    using compare_loop_eq [of d1 d2 0 m s] bytes_at_take [of m "length xs" s d1] bytes_at_take [of m "length ys" s d2]
      first_diff_take [OF m_def] r1(7) r2(7) by (simp add: m_def)
  moreover have "to_int32 (int (length xs) - int (length ys)) = int (length xs) - int (length ys)"
    using len by (intro to_int32_id) simp_all
  ultimately show ?thesis using r1 r2 nn unfolding strings_compare_def Let_def compare_spec_def by (simp split: option.splits)
qed

lemma compare_spec_simps [simp]:
  "compare_spec (x # xs) (y # ys) = (if x \<noteq> y then x - y else compare_spec xs ys)"
  "compare_spec [] ys = - int (length ys)" "compare_spec xs [] = int (length xs)"
  by (auto simp: compare_spec_def split: option.splits)

lemma compare_spec_zero: "compare_spec xs ys = 0 \<longleftrightarrow> xs = ys"
  by (induction xs ys rule: first_diff.induct) auto

lemma compare_spec_less: "compare_spec xs ys < 0 \<longleftrightarrow> ord_class.lexordp xs ys"
  by (induction xs ys rule: first_diff.induct) (auto simp: neq_Nil_conv)

lemma compare_spec_swap: "compare_spec ys xs = - compare_spec xs ys"
  by (induction xs ys rule: first_diff.induct) auto

section \<open>Strings and byte arrays\<close>

context allocator
begin

lemma get_bytes_rep:
  assumes i: "inv s L" and r: "str_rep s L p d n bs" and n: "n < 2 ^ 39" "32 \<le> length bs"
    and a: "strings_get_bytes alloc p s = Some (arr, s')"
  shows "inv s' (L(arr \<mapsto> int (length bs)))" "frame {} L s (L(arr \<mapsto> int (length bs))) s'" "L arr = None"
    "hmem s' arr = d" "hmem s' (arr + 8) = d + int (length bs)" "hmem s' (arr + 16) = int (length bs)" "hmem s' (arr + 24) = 1"
proof -
  note rp = str_repD [OF r]
  define k where "k = int (length bs)"
  have k32: "32 \<le> k" using n(2) by (simp add: k_def)
  then have k: "0 < k" "k < 2 ^ 40" "32 \<le> k" using n rp(6) k32 by (simp_all add: k_def [symmetric])
  obtain q s1 where al: "alloc k s = Some (q, s1)" using a rp by (auto simp: strings_get_bytes_def k_def split: bind_splits)
  have q: "q = arr" using a al rp by (auto simp: strings_get_bytes_def k_def Let_def)
  define L1 where "L1 = L(arr \<mapsto> k)"
  note f1 = alloc_frame [OF i k(1,2) al, unfolded q, folded L1_def]
  have L1: "L1 arr = Some k" "arr \<noteq> p" using f1(2) rp by (auto simp: L1_def)
  have r1: "str_rep s1 L1 p d n bs" using str_rep_frame [OF r f1(3)] by simp
  have ne: "arr + j \<noteq> p" "arr + j \<noteq> p + 8" if "0 \<le> j" "j < 32" for j
    using other_block [OF f1(1) L1(1) str_repD(1) [OF r1] L1(2), of j 0] other_block [OF f1(1) L1(1) str_repD(1) [OF r1] L1(2), of j 8] that k by simp_all
  let ?s2 = "poke arr d s1"
  let ?s3 = "poke (arr + 8) (d + k) ?s2"
  let ?s4 = "poke (arr + 16) k ?s3"
  have e: "s' = poke (arr + 24) 1 ?s4"
    using a al q rp str_repD(4,5) [OF r1] ne [of 0] ne [of 8] ne [of 16] by (simp add: strings_get_bytes_def k_def [symmetric] Let_def)
  have f2: "inv ?s2 L1" "frame {arr} L1 s1 L1 ?s2" using poke_frame [OF f1(1) L1(1), of 0 d] k by simp_all
  have f3: "inv ?s3 L1" "frame {arr} L1 ?s2 L1 ?s3" using poke_frame [OF f2(1) L1(1), of 8 "d + k"] k by simp_all
  have f4: "inv ?s4 L1" "frame {arr} L1 ?s3 L1 ?s4" using poke_frame [OF f3(1) L1(1), of 16 k] k by simp_all
  have f5: "inv s' L1" "frame {arr} L1 ?s4 L1 s'" using poke_frame [OF f4(1) L1(1), of 24 1] k e by simp_all
  show "inv s' (L(arr \<mapsto> int (length bs)))" using f5(1) by (simp only: L1_def k_def)
  have "frame ({} \<union> {arr} \<union> {arr} \<union> {arr} \<union> {arr}) L s L1 s'"
    by (rule frame_trans [OF frame_trans [OF frame_trans [OF frame_trans [OF f1(3) f2(2)] f3(2)] f4(2)] f5(2)])
  then have "frame {} L s L1 s'" by (rule frame_drop) (use f1(2) in auto)
  then show "frame {} L s (L(arr \<mapsto> int (length bs))) s'" by (simp only: L1_def k_def)
  show "L arr = None" by (rule f1)
  show "hmem s' arr = d" "hmem s' (arr + 8) = d + int (length bs)" "hmem s' (arr + 16) = int (length bs)" "hmem s' (arr + 24) = 1"
    by (simp_all add: e k_def)
qed

lemma alloc_from_arr_rep:
  assumes i: "inv s L" and ar: "L arr = Some k" "24 \<le> k" and d0: "L d0 = Some n" "int (length bs) \<le> n" "n < 2 ^ 39"
    and f: "hmem s arr = d0" "hmem s (arr + 16) = int (length bs)" "bytes_at s d0 (length bs) = bs"
    and r: "strings_alloc_from_arr alloc arr s = Some (p, s')"
  shows "\<exists>d L'. inv s' L' \<and> str_rep s' L' p d (int (length bs) + 1) bs \<and> frame {} L s L' s' \<and> L p = None \<and> L d = None"
proof -
  define sz where "sz = int (length bs)"
  obtain q s1 where a1: "alloc 16 s = Some (q, s1)"
    using r by (auto simp: strings_alloc_from_arr_def split: bind_splits)
  have ss: "(0::int) < 16" "(16::int) < 2 ^ 40" "0 < sz + 1" "sz + 1 < 2 ^ 40" using d0 by (simp_all add: sz_def)
  define L1 where "L1 = L(q \<mapsto> 16)"
  note g1 = alloc_frame [OF i ss(1,2) a1, folded L1_def]
  have L1: "L1 arr = Some k" "arr \<noteq> q" using g1(2) ar by (auto simp: L1_def)
  have h1: "hmem s1 (arr + 16) = sz" "hmem s1 arr = d0"
    using frameD(2) [OF g1(3) ar(1), of 16] frameD(2) [OF g1(3) ar(1), of 0] ar f by (simp_all add: sz_def)
  obtain d s2 where a2: "alloc (sz + 1) s1 = Some (d, s2)"
    using r a1 h1 by (auto simp: strings_alloc_from_arr_def split: bind_splits)
  define L2 where "L2 = L1(d \<mapsto> sz + 1)"
  note g2 = alloc_frame [OF g1(1) ss(3,4) a2, folded L2_def]
  have dp: "d \<noteq> q" "L d = None" "d \<noteq> d0" "d \<noteq> arr" "q \<noteq> d0" using g2(2) g1(2) ar d0 by (auto simp: L1_def split: if_splits)
  have Lp: "L2 q = Some 16" "L2 d = Some (sz + 1)" "L2 arr = Some k" "L2 d0 = Some n" using dp L1 d0 by (simp_all add: L1_def L2_def)
  let ?s3 = "poke q d s2"
  have f3: "inv ?s3 L2" "frame {q} L2 s2 L2 ?s3" using poke_frame [OF g2(1) Lp(1), of 0 d] by simp_all
  let ?s4 = "set_byte (d + sz) 0 ?s3"
  have f4: "inv ?s4 L2" "frame {d} L2 ?s3 L2 ?s4" using set_byte_frame [OF f3(1) Lp(2), of sz 0] by (simp_all add: sz_def)
  have fr4: "frame ({} \<union> {} \<union> {q} \<union> {d}) L s L2 ?s4" by (rule frame_trans [OF frame_trans [OF frame_trans [OF g1(3) g2(3)] f3(2)] f4(2)])
  have h3: "hmem ?s3 (arr + 16) = sz" using frameD(2) [OF frame_trans [OF frame_trans [OF g1(3) g2(3)] f3(2)] ar(1), of 16] ar f L1(2) by (simp add: sz_def)
  have h4: "hmem ?s4 (arr + 16) = sz" "hmem ?s4 arr = d0"
    using frameD(2) [OF fr4 ar(1), of 16] frameD(2) [OF fr4 ar(1), of 0] ar f L1(2) dp by (simp_all add: sz_def)
  let ?s5 = "memcpy d d0 sz ?s4"
  have f5: "inv ?s5 L2" "frame {d} L2 ?s4 L2 ?s5" using memcpy_frame [OF f4(1) Lp(2), of 0 sz d0] by (simp_all add: sz_def)
  have h5: "hmem ?s5 (arr + 16) = sz" using frameD(2) [OF f5(2) Lp(3), of 16] dp h4 ar by simp
  have h5q: "hmem ?s5 q = d" using frameD(2) [OF frame_trans [OF f4(2) f5(2)] Lp(1), of 0] dp by simp
  have e: "p = q" "s' = poke (q + 8) sz ?s5"
    using r a1 a2 h1 h3 h4 h5 by (auto simp: strings_alloc_from_arr_def Let_def)
  have f6: "inv s' L2" "frame {q} L2 ?s5 L2 s'" using poke_frame [OF f5(1) Lp(1), of 8 sz] e(2) by simp_all
  have "frame ({} \<union> {} \<union> {q} \<union> {d} \<union> {d} \<union> {q}) L s L2 s'" by (rule frame_trans [OF frame_trans [OF fr4 f5(2)] f6(2)])
  then have fr: "frame {} L s L2 s'" by (rule frame_drop) (use g1(2) dp(2) in auto)
  have "bytes_at s' d (length bs) = bytes_at ?s5 d (length bs)" by (rule bytes_at_cong) (simp add: e)
  also have "\<dots> = bytes_at ?s4 d0 (length bs)" by (rule bytes_at_memcpy) (simp add: sz_def)
  also have "\<dots> = bs" using frame_bytes [OF fr4 d0(1), of 0 "length bs"] dp d0(2) f(3) by simp
  finally have "str_rep s' L2 p d (sz + 1) bs" using Lp dp h5q by (simp add: str_rep_def e sz_def)
  then show ?thesis using f6(1) fr g1(2) dp(2) e(1) unfolding sz_def by blast
qed

end

end
