(* ===== verification/Format.thy ===== *)
theory Format
  imports Strings Room
begin

text \<open>
  \<open>strings_format\<close> against a specification: the text of a format string and its arguments, as a function
  on character lists.
\<close>

section \<open>The specification\<close>

text \<open>
  One conversion: its text, whether the next character is consumed, and the
  remaining arguments.
\<close>

definition spec_text :: "bool \<Rightarrow> 'd fpu \<Rightarrow> (addr \<Rightarrow> int list) \<Rightarrow> int \<Rightarrow> int option \<Rightarrow> 'd arg list \<Rightarrow> (bool \<times> int list \<times> 'd arg list) option" where
  "spec_text ld fp look sp nxt args =
     (if sp = 37 then Some (False, [37], args)
      else if sp = 115 then (case args of AStr a # args \<Rightarrow> Some (False, look a, args) | _ \<Rightarrow> None)
      else if sp = 100 then (case args of AInt v # args \<Rightarrow> Some (False, dec_int (sint v), args) | _ \<Rightarrow> None)
      else if sp = 117 then (case args of AUInt v # args \<Rightarrow> Some (False, dec (unat v), args) | _ \<Rightarrow> None)
      else if sp = 108 then
        (if nxt = Some 117 then (case args of AULong v # args \<Rightarrow> Some (True, dec (unat v), args) | _ \<Rightarrow> None)
         else (case args of ALong v # args \<Rightarrow> if sint v = - (2 ^ 63) then None else Some (ld \<and> nxt = Some 100, dec_int (sint v), args) | _ \<Rightarrow> None))
      else if sp = 112 then (case args of APtr v # args \<Rightarrow> Some (False, 48 # 120 # hex_trim 16 (unat v), args) | _ \<Rightarrow> None)
      else if sp = 102 then (case args of ADbl v # args \<Rightarrow> Some (False, f64_text fp v, args) | _ \<Rightarrow> None)
      else Some (False, [37, sp], args))"

function format_text :: "bool \<Rightarrow> 'd fpu \<Rightarrow> (addr \<Rightarrow> int list) \<Rightarrow> int list \<Rightarrow> 'd arg list \<Rightarrow> int list option" where
  "format_text ld fp look [] args = Some []"
| "c \<noteq> 37 \<Longrightarrow> format_text ld fp look (c # cs) args = map_option (Cons c) (format_text ld fp look cs args)"
| "format_text ld fp look [37] args = Some []"
| "format_text ld fp look (37 # sp # cs) args =
     (case spec_text ld fp look sp (case cs of [] \<Rightarrow> None | n # _ \<Rightarrow> Some n) args of
        None \<Rightarrow> None
      | Some (skip, t, args') \<Rightarrow> map_option (append t) (format_text ld fp look (if skip then tl cs else cs) args'))"
  by (auto, metis neq_Nil_conv surj_pair)
termination by (relation "measure (\<lambda>(ld, fp, look, cs, args). length cs)") auto

section \<open>The output buffer\<close>

definition fb_rep :: "heap_state \<Rightarrow> (addr \<rightharpoonup> int) \<Rightarrow> fbuf \<Rightarrow> int list \<Rightarrow> bool" where
  "fb_rep s L b bs \<longleftrightarrow> len b = int (length bs) \<and>
     (if out b = 0 then cap b = 0 \<and> bs = []
      else L (out b) = Some (cap b) \<and> len b \<le> cap b \<and> bytes_at s (out b) (length bs) = bs)"

lemma grow_cap_ok: "0 < c \<Longrightarrow> \<exists>r. grow_cap c need = Some r \<and> need \<le> r \<and> c \<le> r \<and> (r = c \<or> r < 2 * need)"
proof (induction c need rule: grow_cap.induct)
  case (1 c need)
  show ?case
  proof (cases "c < need")
    case True
    then obtain r where "grow_cap (c * 2) need = Some r" "need \<le> r" "c * 2 \<le> r" "r = c * 2 \<or> r < 2 * need"
      using 1 by force
    then show ?thesis using True 1(2) by (subst grow_cap.simps) auto
  qed (subst grow_cap.simps, simp)
qed

text \<open>The source of an append holds the characters \<open>cs\<close>.\<close>

definition src_holds :: "heap_state \<Rightarrow> (addr \<rightharpoonup> int) \<Rightarrow> source \<Rightarrow> int list \<Rightarrow> bool" where
  "src_holds s L src cs \<longleftrightarrow> (case src of Local bs \<Rightarrow> take (length cs) bs = cs
     | At a \<Rightarrow> \<exists>q k. L q = Some k \<and> q = a \<and> int (length cs) \<le> k \<and> bytes_at s a (length cs) = cs)"

lemma src_holds_frame: "src_holds s L src cs \<Longrightarrow> frame {} L s L' s' \<Longrightarrow> src_holds s' L' src cs"
  using frame_bytes [of "{}" L s L' s' _ _ 0 "length cs"] frameD(1) [of "{}" L s L' s']
  by (auto simp: src_holds_def split: source.splits)

context allocator
begin

lemma copy_from_ok:
  assumes i: "inv s L" and o': "L q = Some k" and j: "0 \<le> j" "j + int (length cs) \<le> k" and sr: "src_holds s L src cs"
  shows "inv (copy_from (q + j) src (int (length cs)) s) L \<and> frame {q} L s L (copy_from (q + j) src (int (length cs)) s) \<and>
    bytes_at (copy_from (q + j) src (int (length cs)) s) (q + j) (length cs) = cs \<and>
    (\<forall>n. int n \<le> j \<longrightarrow> bytes_at (copy_from (q + j) src (int (length cs)) s) q n = bytes_at s q n)"
proof (cases src)
  case (Local bs)
  have c: "copy_from (q + j) src (int (length cs)) s = memput (q + j) cs s" using Local sr by (simp add: copy_from_def src_holds_def)
  have "bytes_at (memput (q + j) cs s) q n = bytes_at s q n" if "int n \<le> j" for n
    by (rule bytes_at_cong) (use that in \<open>simp add: write_list_def\<close>)
  then show ?thesis unfolding c using memput_frame [OF i o' j] bytes_at_memput [of "length cs" cs "q + j" s] by simp
next
  case (At a)
  have c: "copy_from (q + j) src (int (length cs)) s = memcpy (q + j) a (int (length cs)) s" using At by (simp add: copy_from_def)
  have "bytes_at (memcpy (q + j) a (int (length cs)) s) q n = bytes_at s q n" if "int n \<le> j" for n
    by (rule bytes_at_cong) (use that in \<open>simp add: copy_region_def\<close>)
  moreover have "bytes_at s a (length cs) = cs" using At sr by (auto simp: src_holds_def)
  ultimately show ?thesis unfolding c
    using memcpy_frame [OF i o' j] bytes_at_memcpy [of "length cs" "int (length cs)" "q + j" a s] by simp
qed

lemma buf_append_ok:
  assumes i: "inv s L" and b: "fb_rep s L b bs" and sr: "src_holds s L src cs" and ne: "cs \<noteq> []"
    and sz: "length bs + length cs < 2 ^ 38" and a: "buf_append alloc b src (int (length cs)) s = Some (b', s')"
  shows "\<exists>L'. inv s' L' \<and> fb_rep s' L' b' (bs @ cs) \<and> frame {out b} L s L' s' \<and> (out b' = out b \<or> L (out b') = None) \<and> out b' \<noteq> 0"
proof (cases "len b + int (length cs) > cap b")
  case False
  have "out b \<noteq> 0" using False b ne by (auto simp: fb_rep_def)
  then have o': "L (out b) = Some (cap b)" "len b = int (length bs)" "bytes_at s (out b) (length bs) = bs" using b by (auto simp: fb_rep_def)
  let ?s = "copy_from (out b + len b) src (int (length cs)) s"
  have e: "b' = b\<lparr>len := len b + int (length cs)\<rparr>" "s' = ?s" using a False by (auto simp: buf_append_def)
  have c: "inv ?s L" "frame {out b} L s L ?s" "bytes_at ?s (out b + len b) (length cs) = cs" "bytes_at ?s (out b) (length bs) = bs"
    using copy_from_ok [OF i o'(1) _ _ sr, of "len b"] False o' by auto
  have "bytes_at ?s (out b) (length bs + length cs) = bs @ cs" using c o'(2) by (subst bytes_at_append) simp
  then have "fb_rep s' L b' (bs @ cs)" using e o' False \<open>out b \<noteq> 0\<close> by (simp add: fb_rep_def)
  then show ?thesis using c e \<open>out b \<noteq> 0\<close> by auto
next
  case True
  have lb: "len b = int (length bs)" "0 \<le> cap b" using b block_law [OF i, of "out b" "cap b"] by (auto simp: fb_rep_def split: if_splits)
  define need where "need = len b + int (length cs)"
  define c0 where "c0 = (if cap b = 0 then 64 else cap b * 2)"
  have c0: "0 < c0" "c0 \<le> max 64 (2 * need)" using lb True by (auto simp: c0_def need_def)
  obtain r where r: "grow_cap c0 need = Some r" "need \<le> r" "c0 \<le> r" "r = c0 \<or> r < 2 * need" using grow_cap_ok [OF c0(1)] by blast
  have rb: "0 < r" "r < 2 ^ 40" using r c0 sz lb by (auto simp: need_def)
  obtain nb s1 where al: "alloc r s = Some (nb, s1)" using a True r(1) by (auto simp: buf_append_def c0_def need_def split: bind_splits)
  define L1 where "L1 = L(nb \<mapsto> r)"
  note f1 = alloc_frame [OF i rb al, folded L1_def]
  have L1: "L1 nb = Some r" by (simp add: L1_def)
  let ?s2 = "if out b \<noteq> 0 then memcpy nb (out b) (len b) s1 else s1"
  have f2: "inv ?s2 L1 \<and> frame {nb} L1 s1 L1 ?s2"
    using memcpy_frame [OF f1(1) L1, of 0 "len b" "out b"] f1(1) frame_refl r(2) lb by (auto simp: need_def)
  have by2: "bytes_at ?s2 nb (length bs) = bs"
  proof (cases "out b = 0")
    case True
    then show ?thesis using b by (simp add: fb_rep_def bytes_at_def)
  next
    case False
    then have o': "L (out b) = Some (cap b)" "len b \<le> cap b" "bytes_at s (out b) (length bs) = bs" using b by (auto simp: fb_rep_def)
    have "bytes_at s1 (out b) (length bs) = bs" using frame_bytes [OF f1(3) o'(1), of 0 "length bs"] o' lb by simp
    then show ?thesis using False bytes_at_memcpy [of "length bs" "len b" nb "out b" s1] lb by simp
  qed
  have fr2: "frame {} L s L1 ?s2" using frame_trans [OF f1(3) f2 [THEN conjunct2]] by (rule frame_drop) (use f1(2) in auto)
  have sr2: "src_holds ?s2 L1 src cs" by (rule src_holds_frame [OF sr fr2])
  let ?s = "copy_from (nb + len b) src (int (length cs)) ?s2"
  have e: "b' = b\<lparr>out := nb, cap := r, len := len b + int (length cs)\<rparr>" "s' = ?s"
    using a True r(1) al by (auto simp: buf_append_def c0_def need_def Let_def)
  have c: "inv ?s L1" "frame {nb} L1 ?s2 L1 ?s" "bytes_at ?s (nb + len b) (length cs) = cs" "bytes_at ?s nb (length bs) = bs"
    using copy_from_ok [OF f2 [THEN conjunct1] L1 _ _ sr2, of "len b"] r(2) lb by2 by (auto simp: need_def)
  have "bytes_at ?s nb (length bs + length cs) = bs @ cs" using c lb by (subst bytes_at_append) simp
  then have "fb_rep s' L1 b' (bs @ cs)" using e lb r(2) L1 f1(4) by (simp add: fb_rep_def need_def)
  moreover have "frame {out b} L s L1 s'" unfolding e(2)
    using frame_trans [OF fr2 c(2)] by (rule frame_drop) (use f1(2) in auto)
  ultimately show ?thesis using c(1) e f1(2,4) by (intro exI [of _ L1]) auto
qed

end

section \<open>Appending and its frame\<close>

definition appended ::
  "(heap_state \<Rightarrow> (addr \<rightharpoonup> int) \<Rightarrow> bool) \<Rightarrow> heap_state \<Rightarrow> (addr \<rightharpoonup> int) \<Rightarrow> fbuf \<Rightarrow> int list \<Rightarrow> int list \<Rightarrow>
   heap_state \<Rightarrow> (addr \<rightharpoonup> int) \<Rightarrow> fbuf \<Rightarrow> bool" where
  "appended iv s L b bs t s' L' b' \<longleftrightarrow> iv s' L' \<and> fb_rep s' L' b' (bs @ t) \<and> frame {out b} L s L' s' \<and>
     (out b' = out b \<or> L (out b') = None)"

lemma appended_refl: "iv s L \<Longrightarrow> fb_rep s L b bs \<Longrightarrow> appended iv s L b bs [] s L b"
  by (simp add: appended_def frame_refl)

lemma appended_trans:
  assumes "appended iv s L b bs t s1 L1 b1" "appended iv s1 L1 b1 (bs @ t) t' s2 L2 b2"
  shows "appended iv s L b bs (t @ t') s2 L2 b2"
proof -
  have a: "frame {out b} L s L1 s1" "frame {out b1} L1 s1 L2 s2" "out b1 = out b \<or> L (out b1) = None"
    "out b2 = out b1 \<or> L1 (out b2) = None" "iv s2 L2" "fb_rep s2 L2 b2 (bs @ t @ t')"
    using assms by (auto simp: appended_def)
  have "frame {out b} L s L2 s2" using frame_trans [OF a(1,2)] by (rule frame_drop) (use a(3) in auto)
  moreover have "out b2 = out b \<or> L (out b2) = None"
  proof (rule ccontr)
    assume n: "\<not> (out b2 = out b \<or> L (out b2) = None)"
    then obtain k where "L (out b2) = Some k" by auto
    then have "L1 (out b2) = Some k" using frameD(1) [OF a(1)] n by auto
    then show False using a(3,4) n by auto
  qed
  ultimately show ?thesis using a(5,6) by (simp add: appended_def)
qed

text \<open>
  The format string and the string arguments are live, and none of their blocks is the output
  buffer \<open>out\<close>.
\<close>

definition arg_ok :: "heap_state \<Rightarrow> (addr \<rightharpoonup> int) \<Rightarrow> addr \<Rightarrow> (addr \<Rightarrow> int list) \<Rightarrow> addr \<Rightarrow> bool" where
  "arg_ok s L ob look a \<longleftrightarrow> a = 0 \<and> look a = [] \<or>
     a \<noteq> ob \<and> L a = Some 16 \<and> (hmem s a = 0 \<and> look a = [] \<or> (\<exists>d n. d \<noteq> ob \<and> str_rep s L a d n (look a)))"

definition env_ok :: "heap_state \<Rightarrow> (addr \<rightharpoonup> int) \<Rightarrow> addr \<Rightarrow> addr \<Rightarrow> int list \<Rightarrow> (addr \<Rightarrow> int list) \<Rightarrow> 'd arg list \<Rightarrow> bool" where
  "env_ok s L ob df f look args \<longleftrightarrow> (\<exists>nf. L df = Some nf \<and> int (length f) \<le> nf) \<and> bytes_at s df (length f) = f \<and> df \<noteq> ob \<and>
     (\<forall>a. AStr a \<in> set args \<longrightarrow> arg_ok s L ob look a)"

lemma arg_ok_step:
  assumes a: "arg_ok s L ob look x" and f: "frame {ob} L s L' s'" and o': "ob' = ob \<or> L ob' = None"
  shows "arg_ok s' L' ob' look x"
proof (cases "x = 0 \<and> look x = []")
  case False
  then have x: "x \<noteq> ob" "L x = Some 16" "hmem s x = 0 \<and> look x = [] \<or> (\<exists>d n. d \<noteq> ob \<and> str_rep s L x d n (look x))"
    using a by (auto simp: arg_ok_def)
  have x': "L' x = Some 16" "hmem s' x = hmem s x" using frameD(1) [OF f x(2)] frameD(2) [OF f x(2), of 0] x(1) by simp_all
  have "str_rep s' L' x d n (look x) \<and> d \<noteq> ob'" if "d \<noteq> ob" "str_rep s L x d n (look x)" for d n
    using str_rep_frame [OF that(2) f] that x(1) o' str_repD(2) [OF that(2)] by auto
  then show ?thesis using x x' o' unfolding arg_ok_def by auto
qed (auto simp: arg_ok_def)

lemma env_ok_step:
  assumes e: "env_ok s L (out b) df f look args" and a: "appended iv s L b bs t s' L' b'" and sub: "set args' \<subseteq> set args"
  shows "env_ok s' L' (out b') df f look args'"
proof -
  have fr: "frame {out b} L s L' s'" "out b' = out b \<or> L (out b') = None" using a by (auto simp: appended_def)
  obtain nf where nf: "L df = Some nf" "int (length f) \<le> nf" "bytes_at s df (length f) = f" "df \<noteq> out b"
    using e by (auto simp: env_ok_def)
  have "bytes_at s' df (length f) = f" using frame_bytes [OF fr(1) nf(1), of 0 "length f"] nf by simp
  moreover have "L' df = Some nf" using frameD(1) [OF fr(1) nf(1)] nf by simp
  moreover have "df \<noteq> out b'" using fr(2) nf by auto
  ultimately show ?thesis using e nf(2) sub arg_ok_step [OF _ fr] unfolding env_ok_def by blast
qed

context roomy_allocator
begin

lemma append_total:
  assumes i: "inv s L" and b: "fb_rep s L b bs" and sr: "src_holds s L src cs" and ne: "cs \<noteq> []"
    and sz: "length bs + length cs < 2 ^ 38" and r: "room s (Suc k)" and n: "n = int (length cs)"
  shows "\<exists>b' s' L'. buf_append alloc b src n s = Some (b', s') \<and> appended inv s L b bs cs s' L' b' \<and> room s' k"
proof -
  have "\<exists>b' s'. buf_append alloc b src n s = Some (b', s') \<and> room s' k"
  proof (cases "len b + n > cap b")
    case False
    have "room s k" using room_less [OF r] by simp
    then have "room (copy_from (out b + len b) src n s) k" by (simp add: copy_from_def split: source.splits)
    then show ?thesis using False by (simp add: buf_append_def)
  next
    case True
    have lb: "len b = int (length bs)" "0 \<le> cap b" using b block_law [OF i, of "out b" "cap b"] by (auto simp: fb_rep_def split: if_splits)
    define c0 where "c0 = (if cap b = 0 then 64 else cap b * 2)"
    have c0: "0 < c0" "c0 \<le> max 64 (2 * (len b + n))" using lb True by (auto simp: c0_def)
    obtain w where w: "grow_cap c0 (len b + n) = Some w" "len b + n \<le> w" "c0 \<le> w" "w = c0 \<or> w < 2 * (len b + n)"
      using grow_cap_ok [OF c0(1)] by blast
    have "0 < w" "w < 2 ^ 40" using w c0 sz lb n by auto
    then obtain nb s1 where s1: "alloc w s = Some (nb, s1)" "room s1 k" using room_alloc [OF i r] by blast
    then have "room (copy_from x src n (if out b \<noteq> 0 then memcpy nb (out b) (len b) s1 else s1)) k" for x
      by (simp add: copy_from_def split: source.splits)
    then show ?thesis using True w(1) s1(1) by (simp add: buf_append_def c0_def Let_def)
  qed
  then obtain b' s' where bs: "buf_append alloc b src n s = Some (b', s')" "room s' k" by blast
  from buf_append_ok [OF i b sr ne sz] bs(1) n show ?thesis using bs by (auto simp: appended_def)
qed

lemma tmp_total:
  assumes i: "inv s L" and b: "fb_rep s L b bs" and t: "r = Some (length cs, cs @ rest)" "cs \<noteq> []"
    and sz: "length bs + length cs < 2 ^ 38" and m: "room s (Suc k)"
  shows "\<exists>b' s' L'. append_tmp alloc b r s = Some (b', s') \<and> appended inv s L b bs cs s' L' b' \<and> room s' k"
  using append_total [OF i b _ t(2) sz m refl, of "Local (cs @ rest)"] t(1) by (simp add: append_tmp_def src_holds_def)

end

lemma sint_scast32: "sint (scast (v :: 32 word) :: 64 word) = sint v"
  using sint_ge [of v] sint_lt [of v] by (simp add: signed_scast_eq signed_take_bit_int_eq_self)

lemma unat_ucast32: "unat (ucast (v :: 32 word) :: 64 word) = unat v"
  by (simp add: unsigned_ucast_eq take_bit_nat_eq_self unsigned_less [THEN order.strict_trans])

lemma dec_int_ne: "dec_int z \<noteq> []" by (simp add: dec_int_def dec_ne)

lemma f64_text_ne: "f64_text fp v \<noteq> []" by (simp add: f64_text_def Let_def)

context roomy_allocator
begin

lemma format_spec_total:
  assumes i: "inv s L" and b: "fb_rep s L b bs" and t: "spec_text ld fp look sp nxt args = Some (skip, t, args')"
    and ar: "\<And>a. AStr a \<in> set args \<Longrightarrow> arg_ok s L (out b) look a"
    and sz: "length bs + length t < 2 ^ 38" and r: "room s (Suc (Suc k))"
  shows "\<exists>b' s' L'. format_spec ld fp alloc sp nxt b args s = Some (skip, b', args', s') \<and> appended inv s L b bs t s' L' b' \<and> room s' k \<and>
    set args' \<subseteq> set args"
proof -
  have r1: "room s (Suc k)" by (rule room_less [OF r]) simp
  note tmp = tmp_total [OF i b _ _ _ r1]
  consider (pc) "sp = 37" | (str) "sp = 115" | (int) "sp = 100" | (uns) "sp = 117" | (lng) "sp = 108" | (ptr) "sp = 112" | (dbl) "sp = 102"
    | (other) "sp \<notin> {37, 115, 100, 117, 108, 112, 102}" by auto
  then show ?thesis
  proof cases
    case pc
    then have t': "t = [37]" "args' = args" "\<not> skip" using t by (auto simp: spec_text_def)
    then show ?thesis using append_total [OF i b _ _ _ r1, of "Local [37]" "[37]" 1] sz pc by (auto simp: format_spec_def src_holds_def)
  next
    case str
    then obtain a where a: "args = AStr a # args'" "t = look a" "\<not> skip" using t by (auto simp: spec_text_def split: list.splits arg.splits)
    have ok: "arg_ok s L (out b) look a" using ar [of a] a(1) by simp
    show ?thesis
    proof (cases "a \<noteq> NULL \<and> hmem s a \<noteq> NULL \<and> hmem s (a + 8) \<noteq> 0")
      case True
      then obtain d n where d: "str_rep s L a d n (look a)" using ok by (auto simp: arg_ok_def)
      note rp = str_repD [OF d]
      have "src_holds s L (At d) (look a)" using rp by (auto simp: src_holds_def)
      moreover have "look a \<noteq> []" using True rp by auto
      ultimately show ?thesis using append_total [OF i b _ _ _ r1, of "At d" "look a" "int (length (look a))"] sz str a True rp
        by (auto simp: format_spec_def)
    next
      case False
      have "look a = []"
      proof (rule ccontr)
        assume ne: "look a \<noteq> []"
        then obtain d n where d: "str_rep s L a d n (look a)" "a \<noteq> 0" using ok block_law [OF i, of a] by (auto simp: arg_ok_def)
        note rp = str_repD [OF d(1)]
        show False using False d(2) ne rp(4,5) block_law [OF i rp(2)] by auto
      qed
      then show ?thesis using False str a appended_refl [of inv s L b bs, OF i b] room_less [OF r, of k]
        by (auto simp: format_spec_def)
    qed
  next
    case int
    then obtain v where a: "args = AInt v # args'" "t = dec_int (sint v)" "\<not> skip" using t by (auto simp: spec_text_def split: list.splits arg.splits)
    have "sint (scast v :: 64 word) \<noteq> - (2 ^ 63)" using sint_ge [of v] by (simp add: sint_scast32)
    then have "i64_to_dec (scast v) 0 (replicate 32 0) = Some (length t, t @ drop (length t) (replicate 32 0))"
      using i64_to_dec_eq [of "scast v" 0 "replicate 32 0"] a(2) by (simp add: sint_scast32)
    from tmp [OF this _ sz] show ?thesis using int a dec_int_ne [of "sint v"] by (auto simp: format_spec_def)
  next
    case uns
    then obtain v where a: "args = AUInt v # args'" "t = dec (unat v)" "\<not> skip" using t by (auto simp: spec_text_def split: list.splits arg.splits)
    have "u64_to_dec (ucast v) 0 (replicate 32 0) = Some (length t, t @ drop (length t) (replicate 32 0))"
      using u64_to_dec_eq [of 0 "ucast v" "replicate 32 0"] dec_u64 [of "ucast v"] a(2) by (simp add: unat_ucast32)
    from tmp [OF this _ sz] show ?thesis using uns a dec_ne [of "unat v"] by (auto simp: format_spec_def)
  next
    case lng
    show ?thesis
    proof (cases "nxt = Some 117")
      case True
      then obtain v where a: "args = AULong v # args'" "t = dec (unat v)" "skip" using t lng by (auto simp: spec_text_def split: list.splits arg.splits)
      have "u64_to_dec v 0 (replicate 32 0) = Some (length t, t @ drop (length t) (replicate 32 0))"
        using u64_to_dec_eq [of 0 v "replicate 32 0"] dec_u64 [of v] a(2) by simp
      from tmp [OF this _ sz] show ?thesis using lng True a dec_ne [of "unat v"] by (auto simp: format_spec_def)
    next
      case False
      then obtain v where a: "args = ALong v # args'" "t = dec_int (sint v)" "skip \<longleftrightarrow> ld \<and> nxt = Some 100" "sint v \<noteq> - (2 ^ 63)"
        using t lng by (auto simp: spec_text_def split: list.splits arg.splits if_splits)
      have "i64_to_dec v 0 (replicate 32 0) = Some (length t, t @ drop (length t) (replicate 32 0))"
        using i64_to_dec_eq [OF a(4), of 0 "replicate 32 0"] a(2) by simp
      from tmp [OF this _ sz] show ?thesis using lng False a dec_int_ne [of "sint v"] by (auto simp: format_spec_def)
    qed
  next
    case ptr
    then obtain v where a: "args = APtr v # args'" "t = 48 # 120 # hex_trim 16 (unat v)" "\<not> skip"
      using t by (auto simp: spec_text_def split: list.splits arg.splits)
    have "ptr_to_hex v (replicate 32 0) = Some (length t, t @ drop (length t) (replicate 32 0))"
      using ptr_to_hex_eq [of "replicate 32 0" v] a(2) by simp
    from tmp [OF this _ sz] show ?thesis using ptr a by (auto simp: format_spec_def)
  next
    case dbl
    then obtain v where a: "args = ADbl v # args'" "t = f64_text fp v" "\<not> skip" using t by (auto simp: spec_text_def split: list.splits arg.splits)
    have "f64_to_dec fp v (replicate 64 0) = Some (length t, t @ drop (length t) (replicate 64 0))"
      using f64_to_dec_eq [of "replicate 64 0" fp v] a(2) by simp
    from tmp [OF this _ sz] show ?thesis using dbl a f64_text_ne [of fp v] by (auto simp: format_spec_def)
  next
    case other
    then have t': "t = [37, sp]" "args' = args" "\<not> skip" using t by (auto simp: spec_text_def)
    have sz1: "length bs + length [37 :: int] < 2 ^ 38" using sz t'(1) by simp
    obtain b1 s1 L1 where 1: "buf_append alloc b (Local [37]) 1 s = Some (b1, s1)" "appended inv s L b bs [37] s1 L1 b1" "room s1 (Suc k)"
      using append_total [OF i b _ _ sz1 r, of "Local [37]" 1] by (auto simp: src_holds_def)
    have i1: "inv s1 L1" "fb_rep s1 L1 b1 (bs @ [37])" using 1(2) by (simp_all add: appended_def)
    obtain b2 s2 L2 where 2: "buf_append alloc b1 (Local [sp]) 1 s1 = Some (b2, s2)" "appended inv s1 L1 b1 (bs @ [37]) [sp] s2 L2 b2" "room s2 k"
      using append_total [OF i1 _ _ _ 1(3), of "Local [sp]" "[sp]" 1] sz t'(1) by (auto simp: src_holds_def)
    show ?thesis using 1(1) 2(1,3) appended_trans [OF 1(2) 2(2)] other t' by (auto simp: format_spec_def)
  qed
qed

end

lemma spec_text_skip: "spec_text ld fp look sp nxt args = Some (True, t, args') \<Longrightarrow> nxt = Some 117 \<or> nxt = Some 100"
  by (auto simp: spec_text_def split: if_splits list.splits arg.splits)

context roomy_allocator
begin

lemma format_loop_total:
  assumes "inv s L" "fb_rep s L b bs" "env_ok s L (out b) df f look args" "j \<le> length f"
    "format_text ld fp look (drop j f) args = Some w" "length bs + length w < 2 ^ 38" "room s (2 * (length f - j) + k)"
  shows "\<exists>b' s' L'. format_loop ld fp alloc df (int (length f)) (int j) b args s = Some (b', s') \<and>
    appended inv s L b bs w s' L' b' \<and> room s' k"
  using assms
proof (induction "length f - j" arbitrary: j s L b bs args w rule: less_induct)
  case less
  note i = less.prems(1) and b = less.prems(2) and e = less.prems(3) and tx = less.prems(5) and sz = less.prems(6) and rm = less.prems(7)
  have byte: "hbytes s (df + int x) = f ! x" if "x < length f" for x
    using bytes_at_nth [OF that, of s df] e by (simp add: env_ok_def)
  show ?case
  proof (cases "j < length f")
    case False
    then have "w = []" using tx less.prems(4) by simp
    then show ?thesis using False appended_refl [of inv s L b bs, OF i b] rm less.prems(4) by (subst format_loop.simps) auto
  next
    case j: True
    let ?c = "f ! j"
    have dr: "drop j f = ?c # drop (Suc j) f" using j by (simp add: Cons_nth_drop_Suc)
    show ?thesis
    proof (cases "?c = 37")
      case False
      obtain w' where t': "format_text ld fp look (drop (Suc j) f) args = Some w'" "w = ?c # w'" using tx dr False by auto
      obtain m where m: "length f - j = Suc m" using j by (cases "length f - j") auto
      have rm1: "room s (Suc (2 * (length f - Suc j) + k))" by (rule room_less [OF rm]) (use m in simp)
      obtain b1 s1 L1 where 1: "buf_append alloc b (Local [?c]) 1 s = Some (b1, s1)" "appended inv s L b bs [?c] s1 L1 b1"
          "room s1 (2 * (length f - Suc j) + k)"
        using append_total [OF i b _ _ _ rm1, of "Local [?c]" "[?c]" 1] sz t'(2) by (auto simp: src_holds_def)
      have i1: "inv s1 L1" "fb_rep s1 L1 b1 (bs @ [?c])" using 1(2) by (simp_all add: appended_def)
      have "env_ok s1 L1 (out b1) df f look args" by (rule env_ok_step [OF e 1(2) order_refl])
      moreover have "length f - Suc j < length f - j" using j by (rule diff_less_mono2 [OF lessI])
      moreover have "Suc j \<le> length f" "length (bs @ [?c]) + length w' < 2 ^ 38" using j sz t'(2) by simp_all
      ultimately obtain b2 s2 L2 where 2: "format_loop ld fp alloc df (int (length f)) (int (Suc j)) b1 args s1 = Some (b2, s2)"
          "appended inv s1 L1 b1 (bs @ [?c]) w' s2 L2 b2" "room s2 k"
        using less.hyps [OF _ i1 _ _ t'(1) _ 1(3)] by blast
      have "format_loop ld fp alloc df (int (length f)) (int j + 1) b1 args s1 = Some (b2, s2)" using 2(1) by (simp add: add.commute)
      then have "format_loop ld fp alloc df (int (length f)) (int j) b args s = Some (b2, s2)"
        using j False byte [OF j] 1(1) by (subst format_loop.simps) (simp add: Let_def)
      then show ?thesis using appended_trans [OF 1(2) 2(2)] 2(3) t'(2) by auto
    next
      case pc: True
      show ?thesis
      proof (cases "Suc j < length f")
        case False
        then have "w = []" using tx dr pc by simp
        moreover have "room s k" by (rule room_less [OF rm]) simp
        ultimately show ?thesis using False j pc byte [OF j] appended_refl [of inv s L b bs, OF i b]
          by (subst format_loop.simps) (auto simp: Let_def)
      next
        case j2: True
        let ?sp = "f ! Suc j" and ?cs = "drop (Suc (Suc j)) f"
        define nxt where "nxt = (case ?cs of [] \<Rightarrow> None | n # _ \<Rightarrow> Some n)"
        have dr2: "drop j f = 37 # ?sp # ?cs" using dr pc j2 by (simp add: Cons_nth_drop_Suc)
        have nx: "nxt = (if Suc (Suc j) < length f then Some (f ! Suc (Suc j)) else None)"
        proof (cases "Suc (Suc j) < length f")
          case True
          then have "?cs = f ! Suc (Suc j) # drop (Suc (Suc (Suc j))) f" by (simp add: Cons_nth_drop_Suc)
          then show ?thesis using True by (simp add: nxt_def)
        qed (simp add: nxt_def)
        obtain skip t args' w' where st: "spec_text ld fp look ?sp nxt args = Some (skip, t, args')"
            "format_text ld fp look (if skip then tl ?cs else ?cs) args' = Some w'" "w = t @ w'"
          using tx unfolding dr2 by (auto simp: nxt_def split: option.splits prod.splits)
        define j' where "j' = Suc (Suc j) + (if skip then 1 else 0)"
        have j': "j' \<le> length f" "length f - j' < length f - j" "drop j' f = (if skip then tl ?cs else ?cs)"
          using j2 spec_text_skip [of ld fp look ?sp nxt args t args'] st(1) nx by (auto simp: j'_def drop_Suc tl_drop split: if_splits)
        have rm1: "room s (Suc (Suc (2 * (length f - j') + k)))" by (rule room_less [OF rm]) (use j' in simp)
        obtain b1 s1 L1 where 1: "format_spec ld fp alloc ?sp nxt b args s = Some (skip, b1, args', s1)" "appended inv s L b bs t s1 L1 b1"
            "room s1 (2 * (length f - j') + k)" "set args' \<subseteq> set args"
          using format_spec_total [OF i b st(1) _ _ rm1] e sz st(3) by (auto simp: env_ok_def)
        have i1: "inv s1 L1" "fb_rep s1 L1 b1 (bs @ t)" using 1(2) by (simp_all add: appended_def)
        have "env_ok s1 L1 (out b1) df f look args'" by (rule env_ok_step [OF e 1(2,4)])
        from less.hyps [OF j'(2) i1 this j'(1) st(2) [folded j'(3)] _ 1(3)]
        obtain b2 s2 L2 where 2: "format_loop ld fp alloc df (int (length f)) (int j') b1 args' s1 = Some (b2, s2)"
            "appended inv s1 L1 b1 (bs @ t) w' s2 L2 b2" "room s2 k"
          using sz st(3) by auto
        have ii: "int j + 1 = int (Suc j)" "int j + 2 = int (Suc (Suc j))" "int j + 2 + (if skip then 1 else 0) = int j'" by (simp_all add: j'_def)
        have "format_loop ld fp alloc df (int (length f)) (int j) b args s = Some (b2, s2)"
        proof -
          have "(if int j + 2 < int (length f) then Some (hbytes s (df + (int j + 2))) else None) = nxt"
            using byte [of "Suc (Suc j)"] nx by (simp add: ii(2) del: of_nat_Suc)
          moreover have "hbytes s (df + (int j + 1)) = ?sp" using byte [OF j2] by (simp only: ii(1))
          moreover have "\<not> int (length f) \<le> int j + 1" using j2 by simp
          ultimately show ?thesis using j pc byte [OF j] 1(1) 2(1) unfolding ii(3) [symmetric]
            by (subst format_loop.simps) (simp add: Let_def)
        qed
        then show ?thesis using appended_trans [OF 1(2) 2(2)] 2(3) st(3) by auto
      qed
    qed
  qed
qed

lemma format_buffer:
  assumes i: "inv s L" and f: "str_rep s L fmt df nf f" and ar: "\<And>a. AStr a \<in> set args \<Longrightarrow> arg_ok s L 0 look a"
    and t: "format_text ld fp look f args = Some w" "length w < 2 ^ 38" and r: "room s (2 * length f + k)"
  shows "\<exists>b s' L'. format_loop ld fp alloc (hmem s fmt) (hmem s (fmt + 8)) 0 \<lparr>out = NULL, cap = 0, len = 0\<rparr> args s = Some (b, s') \<and>
    inv s' L' \<and> fb_rep s' L' b w \<and> frame {} L s L' s' \<and> (out b = 0 \<or> L (out b) = None) \<and> room s' k \<and> fmt \<noteq> 0 \<and> hmem s fmt \<noteq> 0"
proof -
  note rp = str_repD [OF f]
  let ?b = "\<lparr>out = NULL, cap = 0, len = 0\<rparr>"
  have nn: "fmt \<noteq> 0" "df \<noteq> 0" using block_law [OF i rp(1)] block_law [OF i rp(2)] by auto
  have L0: "L 0 = None" using block_law [OF i, of 0] by (cases "L 0") auto
  have b0: "fb_rep s L ?b []" by (simp add: fb_rep_def)
  have e0: "env_ok s L (out ?b) df f look args" using rp nn ar by (auto simp: env_ok_def)
  have rm: "room s (2 * (length f - 0) + k)" using r by simp
  obtain b s1 L1 where 1: "format_loop ld fp alloc df (int (length f)) (int 0) ?b args s = Some (b, s1)"
      "appended inv s L ?b [] w s1 L1 b" "room s1 k"
    using format_loop_total [OF i b0 e0 _ _ _ rm, where ld = ld and fp = fp and w = w] t by auto
  have "inv s1 L1" "fb_rep s1 L1 b w" "frame {} L s L1 s1" "out b = 0 \<or> L (out b) = None"
    using 1(2) L0 by (auto simp: appended_def intro: frame_drop)
  then show ?thesis using 1(1,3) rp(4,5) nn by auto
qed

lemma format_total:
  assumes i: "inv s L" and f: "str_rep s L fmt df nf f" and ar: "\<And>a. AStr a \<in> set args \<Longrightarrow> arg_ok s L 0 look a"
    and t: "format_text False fp look f args = Some w" "length w < 2 ^ 38" and r: "room s (2 * length f + 1 + k)"
  shows "\<exists>res s' L'. strings_format fp alloc fmt args s = Some (res, s') \<and> inv s' L' \<and> frame {} L s L' s' \<and> L res = None \<and>
    hmem s' (res + 8) = int (length w) \<and> (w \<noteq> [] \<longrightarrow> (\<exists>d n. str_rep s' L' res d n w \<and> L d = None)) \<and> room s' k"
proof -
  have r': "room s (2 * length f + (1 + k))" using r by (simp add: add.assoc)
  obtain b s1 L1 where 1: "format_loop False fp alloc (hmem s fmt) (hmem s (fmt + 8)) 0 \<lparr>out = NULL, cap = 0, len = 0\<rparr> args s = Some (b, s1)"
    and a1: "inv s1 L1" "fb_rep s1 L1 b w" "frame {} L s L1 s1" "out b = 0 \<or> L (out b) = None" and rm1: "room s1 (1 + k)"
    and nn: "fmt \<noteq> 0" "hmem s fmt \<noteq> 0"
    using format_buffer [OF i f ar t r'] by blast
  obtain res s2 where al: "alloc 16 s1 = Some (res, s2)" "room s2 k" using room_alloc [OF a1(1), of k 16] rm1 by auto
  have ss: "(0::int) < 16" "(16::int) < 2 ^ 40" by simp_all
  define L2 where "L2 = L1(res \<mapsto> 16)"
  note f2 = alloc_frame [OF a1(1) ss al(1), folded L2_def]
  have L2: "L2 res = Some 16" "L res = None" using f2(2) frameD(1) [OF a1(3), of res] by (auto simp: L2_def) (metis option.exhaust option.distinct(1))
  let ?s3 = "poke res (out b) s2"
  let ?s4 = "poke (res + 8) (len b) ?s3"
  have f3: "inv ?s3 L2" "frame {res} L2 s2 L2 ?s3" using poke_frame [OF f2(1) L2(1), of 0 "out b"] by simp_all
  have f4: "inv ?s4 L2" "frame {res} L2 ?s3 L2 ?s4" using poke_frame [OF f3(1) L2(1), of 8 "len b"] by simp_all
  have fr: "frame {} L s L2 ?s4"
    using frame_trans [OF frame_trans [OF frame_trans [OF a1(3) f2(3)] f3(2)] f4(2)] by (rule frame_drop) (use L2(2) in auto)
  have eq: "strings_format fp alloc fmt args s = Some (res, ?s4)"
    using nn 1 al(1) by (simp add: strings_format_def)
  have "hmem ?s4 (res + 8) = int (length w) \<and> (w \<noteq> [] \<longrightarrow> (\<exists>d n. str_rep ?s4 L2 res d n w \<and> L d = None))"
  proof (cases "out b = 0")
    case True
    then show ?thesis using a1(2) by (simp add: fb_rep_def)
  next
    case False
    then have o': "L1 (out b) = Some (cap b)" "len b = int (length w)" "len b \<le> cap b" "bytes_at s1 (out b) (length w) = w"
      using a1(2) by (auto simp: fb_rep_def)
    have ne: "out b \<noteq> res" using o'(1) f2(2) by auto
    have "bytes_at ?s4 (out b) (length w) = w"
      using frame_bytes [OF frame_trans [OF frame_trans [OF f2(3) f3(2)] f4(2)] o'(1), of 0 "length w"] ne o' by simp
    then have sr: "str_rep ?s4 L2 res (out b) (cap b) w" using o' ne L2(1) by (simp add: str_rep_def L2_def)
    then show ?thesis using o' a1(4) False by auto
  qed
  moreover have "room ?s4 k" using al(2) by simp
  ultimately show ?thesis using eq f4(1) fr L2(2) by blast
qed

end

end
