(* ===== verification/StringsProps.thy ===== *)
theory StringsProps
  imports Format AllocProps
begin

text \<open>
  Properties of the strings on the arena allocator: construction, comparison, concatenation and
  substrings, the number formats and their round trips, and formatting against its specification.
\<close>

section \<open>The operations return\<close>

context roomy_allocator
begin

lemma raw_returns:
  assumes i: "inv s L" and sz: "sz = int (length fmt)" "sz < 2 ^ 39" and r: "room s (2 + k)"
  shows "\<exists>p s'. strings_alloc_from_raw alloc fmt sz s = Some (p, s') \<and> room s' k"
proof -
  obtain p s1 where 1: "alloc 16 s = Some (p, s1)" "room s1 (Suc k)" using room_alloc [OF i, of "Suc k" 16] r by auto
  have i1: "inv s1 (L(p \<mapsto> 16))" using alloc_frame(1) [OF i _ _ 1(1)] by simp
  obtain d s2 where 2: "alloc (sz + 1) s1 = Some (d, s2)" "room s2 k" using room_alloc [OF i1 1(2), of "sz + 1"] sz by auto
  then show ?thesis using 1(1) by (simp add: strings_alloc_from_raw_def Let_def)
qed

lemma append_returns:
  assumes i: "inv s L" and rp: "str_rep s L p d n bs" and n: "int (length bs) < n" "n < 2 ^ 39" "releasable n" and r: "room s (1 + k)"
  shows "\<exists>s'. strings_append alloc rel p ch s = Some s' \<and> room s' k"
proof -
  note rs = str_repD [OF rp]
  let ?k = "int (length bs)"
  let ?s1 = "poke (p + 8) (?k + 1) s"
  have i1: "inv ?s1 L" using poke_frame [OF i rs(1), of 8 "?k + 1"] by simp
  obtain nd s2 where 2: "alloc (?k + 2) ?s1 = Some (nd, s2)" "room s2 k" using room_alloc [OF i1, of k "?k + 2"] r n by auto
  define L2 where "L2 = L(nd \<mapsto> ?k + 2)"
  have i2: "inv s2 L2" "L nd = None" "frame {} L ?s1 L2 s2"
    using alloc_frame [OF i1 _ _ 2(1)] n by (simp_all add: L2_def)
  have pd: "hmem s2 p = d" "hmem s2 (p + 8) = ?k + 1"
    using frameD(2) [OF i2(3) rs(1), of 0] frameD(2) [OF i2(3) rs(1), of 8] rs by simp_all
  let ?s3 = "memcpy nd d (?k + 1) s2"
  let ?s5 = "set_byte (nd + (?k + 1)) 0 (set_byte (nd + ?k) ch ?s3)"
  have Lnd: "L2 nd = Some (?k + 2)" "L2 d = Some n" "L2 p = Some 16" "nd \<noteq> p"
    using rs i2(2) by (auto simp: L2_def)
  have f3: "inv ?s3 L2" "frame {nd} L2 s2 L2 ?s3"
    using memcpy_frame [OF i2(1) Lnd(1), of 0 "?k + 1" d] by simp_all
  have f4: "inv (set_byte (nd + ?k) ch ?s3) L2" using set_byte_frame [OF f3(1) Lnd(1), of ?k ch] by simp
  have f5: "inv ?s5 L2" using set_byte_frame [OF f4 Lnd(1), of "?k + 1" 0] by simp
  have p5: "hmem ?s5 p = d" using frameD(2) [OF f3(2) Lnd(3), of 0] Lnd(4) pd by simp
  obtain s6 where 6: "rel d ?s5 = Some s6" by (rule rel_frame [OF f5 Lnd(2) n(3)])
  have "room s6 k" using room_rel [OF 6] 2(2) by simp
  then show ?thesis using 2(1) 6 rs pd p5 by (simp add: strings_append_def Let_def add.assoc)
qed

lemma substring_returns:
  assumes i: "inv s L" and rp: "str_rep s L p d n bs" and n: "n < 2 ^ 39" and b: "0 \<le> st" "st \<le> en" "en \<le> int (length bs)"
    and r: "room s (2 + k)"
  shows "\<exists>res s'. strings_substring alloc p st en s = Some (res, s') \<and> room s' k"
proof -
  note rs = str_repD [OF rp]
  define m where "m = en - st"
  have m: "0 \<le> m" "m < 2 ^ 39" "m mod 18446744073709551616 = m" "(m + 1) mod 18446744073709551616 = m + 1"
    using b rs(6) n by (simp_all add: m_def mod_pos_pos_trivial)
  obtain nd s1 where 1: "alloc (m + 1) s = Some (nd, s1)" "room s1 (Suc k)" using room_alloc [OF i, of "Suc k" "m + 1"] r m by auto
  define L1 where "L1 = L(nd \<mapsto> m + 1)"
  have i1: "inv s1 L1" using alloc_frame(1) [OF i _ _ 1(1)] m by (simp add: L1_def)
  have L1: "L1 nd = Some (m + 1)" by (simp add: L1_def)
  let ?s2 = "memcpy nd (hmem s1 p + st) m s1"
  have i2: "inv ?s2 L1" using memcpy_frame [OF i1 L1, of 0 m "hmem s1 p + st"] m by simp
  have i3: "inv (set_byte (nd + m) 0 ?s2) L1" using set_byte_frame [OF i2 L1, of m 0] m by simp
  obtain q s3 where 3: "alloc 16 (set_byte (nd + m) 0 ?s2) = Some (q, s3)" "room s3 k" using room_alloc [OF i3, of k 16] 1(2) by auto
  show ?thesis using 1(1) 3 b rs m by (simp add: strings_substring_def m_def [symmetric] Let_def)
qed

end

section \<open>Properties of strings\<close>

text \<open>
  A string built from \<open>size\<close> raw characters, on a heap with room for two more allocations, is a
  fresh string that reads back exactly these characters by length and by index, NUL-terminated, and
  no live block changes.
\<close>

theorem string_from_raw:
  assumes "runtime_heap os s L" "os_room os s 2" "length cs < 2 ^ 31"
  shows "\<exists>p d s' L'. strings_alloc_from_raw (allocate os) cs (int (length cs)) s = Some (p, s') \<and>
    runtime_heap os s' L' \<and> str_rep s' L' p d (int (length cs) + 1) cs \<and> frame {} L s L' s' \<and> L p = None \<and> L d = None \<and>
    strings_length p s' = int (length cs) \<and> (\<forall>i < length cs. strings_get p (int i) s' = cs ! i) \<and>
    strings_get p (int (length cs)) s' = 0"
proof -
  obtain p s' where a: "strings_alloc_from_raw (allocate os) cs (int (length cs)) s = Some (p, s')"
    using ra.raw_returns [OF assms(1) refl, of cs 0] assms(2,3) by auto
  obtain d L' where r: "runtime_heap os s' L'" "str_rep s' L' p d (int (length cs) + 1) cs" "hbytes s' (d + int (length cs)) = 0"
      "frame {} L s L' s'" "L p = None" "L d = None"
    using al.alloc_from_raw_rep [OF assms(1) refl _ a] assms(3) by auto
  note rp = str_repD [OF r(2)]
  have "strings_length p s' = int (length cs)" using rp assms(3) by (simp add: strings_length_def to_int32_id)
  moreover have "strings_get p (int i) s' = cs ! i" if "i < length cs" for i
    using rp bytes_at_nth [OF that, of s' d] by (simp add: strings_get_def)
  moreover have "strings_get p (int (length cs)) s' = 0" using rp r(3) by (simp add: strings_get_def)
  ultimately show ?thesis using a r by blast
qed

theorem string_from_raw_witness:
  "\<exists>s p s'. strings_alloc_from_raw (allocate demo_os) [104, 105] 2 s = Some (p, s') \<and> strings_length p s' = 2 \<and>
     strings_get p 1 s' = 105"
proof -
  obtain s where s: "runtime_heap demo_os s Map.empty" "os_room demo_os s 15" by (rule demo_heap)
  have r: "os_room demo_os s 2" by (rule ra.room_less [OF s(2)]) simp
  show ?thesis using string_from_raw [OF s(1) r, of "[104, 105]"] by (auto simp: less_Suc_eq)
qed

text \<open>
  C8: For live strings shorter than \<open>2 ^ 31\<close>, \<open>strings_compare\<close> is negative, zero or positive exactly
  when the first string is lexicographically smaller than, equal to or greater than the second, as
  unsigned bytes; a null pointer compares below every string.
\<close>

theorem compare_lexicographic:
  assumes h: "runtime_heap os s L" and r: "str_rep s L p1 d1 n1 xs" "str_rep s L p2 d2 n2 ys"
    and len: "length xs < 2 ^ 31" "length ys < 2 ^ 31"
  shows "(strings_compare p1 p2 s < 0 \<longleftrightarrow> ord_class.lexordp xs ys) \<and> (strings_compare p1 p2 s = 0 \<longleftrightarrow> xs = ys) \<and>
    (strings_compare p1 p2 s > 0 \<longleftrightarrow> ord_class.lexordp ys xs) \<and> strings_compare 0 p2 s < 0 \<and> strings_compare p1 0 s > 0"
proof -
  have nn: "p1 \<noteq> 0" "p2 \<noteq> 0" using al.block_law [OF h str_repD(1) [OF r(1)]] al.block_law [OF h str_repD(1) [OF r(2)]] by auto
  have e: "strings_compare p1 p2 s = compare_spec xs ys" by (rule strings_compare_spec [OF r nn len])
  show ?thesis unfolding e using compare_spec_less [of xs ys] compare_spec_less [of ys xs] compare_spec_zero [of xs ys]
      compare_spec_swap [of ys xs] nn by (auto simp: strings_compare_def)
qed

theorem compare_lexicographic_witness:
  "\<exists>s p1 p2. strings_compare p1 p2 s < 0 \<and> strings_compare p1 p1 s = 0"
proof -
  obtain s where s: "runtime_heap demo_os s Map.empty" "os_room demo_os s 15" by (rule demo_heap)
  obtain p1 s1 where 1: "strings_alloc_from_raw (allocate demo_os) [97] 1 s = Some (p1, s1)" "os_room demo_os s1 13"
    using ra.raw_returns [OF s(1), of 1 "[97]" 13] s(2) by auto
  obtain d1 L1 where r1: "runtime_heap demo_os s1 L1" "str_rep s1 L1 p1 d1 2 [97]"
    using al.alloc_from_raw_rep [OF s(1), of 1 "[97]" p1 s1] 1(1) by auto
  obtain p2 s2 where 2: "strings_alloc_from_raw (allocate demo_os) [97, 98] 2 s1 = Some (p2, s2)"
    using ra.raw_returns [OF r1(1), of 2 "[97, 98]" 11] 1(2) by auto
  obtain d2 L2 where r2: "runtime_heap demo_os s2 L2" "str_rep s2 L2 p2 d2 3 [97, 98]" "frame {} L1 s1 L2 s2"
    using al.alloc_from_raw_rep [OF r1(1), of 2 "[97, 98]" p2 s2] 2 by auto
  have r3: "str_rep s2 L2 p1 d1 2 [97]" by (rule str_rep_frame [OF r1(2) r2(3)]) simp_all
  show ?thesis using compare_lexicographic [OF r2(1) r3 r2(2)] compare_lexicographic [OF r2(1) r3 r3] by auto
qed

text \<open>
  Appending a character to a live string, on a heap with room for one allocation, gives the
  string with that character at the end, releases the old character data, and leaves every other
  block as it was.
\<close>

theorem append_character:
  assumes "runtime_heap os s L" "str_rep s L p d n bs" "int (length bs) < n" "n < 2 ^ 39" "releasable n" "os_room os s 1"
  shows "\<exists>s' d' L'. strings_append (allocate os) (release os) p ch s = Some s' \<and> runtime_heap os s' L' \<and>
    str_rep s' L' p d' (int (length bs) + 2) (bs @ [ch mod 256]) \<and> frame {p, d} L s L' s' \<and> L' d = None"
proof -
  obtain s' where a: "strings_append (allocate os) (release os) p ch s = Some s'"
    using ra.append_returns [OF assms(1-5), of 0 ch] assms(6) by auto
  then show ?thesis using al.append_rep [OF assms(1-5) a] by blast
qed

theorem append_character_witness:
  "\<exists>s p s' s'' L d. strings_alloc_from_raw (allocate demo_os) [104] 1 s = Some (p, s') \<and>
     strings_append (allocate demo_os) (release demo_os) p 105 s' = Some s'' \<and> str_rep s'' L p d 3 [104, 105]"
proof -
  obtain s where s: "runtime_heap demo_os s Map.empty" "os_room demo_os s 15" by (rule demo_heap)
  obtain p s1 where 1: "strings_alloc_from_raw (allocate demo_os) [104] 1 s = Some (p, s1)" "os_room demo_os s1 13"
    using ra.raw_returns [OF s(1), of 1 "[104]" 13] s(2) by auto
  obtain d L1 where r: "runtime_heap demo_os s1 L1" "str_rep s1 L1 p d 2 [104]"
    using al.alloc_from_raw_rep [OF s(1), of 1 "[104]" p s1] 1(1) by auto
  have "os_room demo_os s1 1" by (rule ra.room_less [OF 1(2)]) simp
  then show ?thesis using append_character [OF r, of 105] 1(1) by (fastforce simp: releasable_def)
qed

text \<open>
  \<open>strings_substring\<close> returns NULL when the range leaves the string; for \<open>0 \<le> start \<le> end \<le> size\<close>
  and room for two allocations it returns a fresh string with the characters from \<open>start\<close> up to
  \<open>end\<close>, and changes no live block.
\<close>

theorem substring_range:
  assumes h: "runtime_heap os s L" "str_rep s L p d n bs" "n < 2 ^ 39" "os_room os s 2"
  shows "(st < 0 \<or> int (length bs) < en \<longrightarrow> strings_substring (allocate os) p st en s = Some (0, s)) \<and>
    (0 \<le> st \<and> st \<le> en \<and> en \<le> int (length bs) \<longrightarrow> (\<exists>res s' d' L'. strings_substring (allocate os) p st en s = Some (res, s') \<and>
      runtime_heap os s' L' \<and> str_rep s' L' res d' (en - st + 1) (take (nat (en - st)) (drop (nat st) bs)) \<and> frame {} L s L' s'))"
proof (intro conjI impI)
  assume "st < 0 \<or> int (length bs) < en"
  then show "strings_substring (allocate os) p st en s = Some (0, s)" using str_repD(5) [OF h(2)] by (intro substring_bounds) simp
next
  assume b: "0 \<le> st \<and> st \<le> en \<and> en \<le> int (length bs)"
  then obtain res s' where a: "strings_substring (allocate os) p st en s = Some (res, s')"
    using ra.substring_returns [OF h(1-3), of st en 0] h(4) by auto
  then show "\<exists>res s' d' L'. strings_substring (allocate os) p st en s = Some (res, s') \<and>
      runtime_heap os s' L' \<and> str_rep s' L' res d' (en - st + 1) (take (nat (en - st)) (drop (nat st) bs)) \<and> frame {} L s L' s'"
    using al.substring_rep [OF h(1-3) _ _ _ a] b by blast
qed

theorem substring_range_witness:
  "\<exists>s p res s' d L. strings_substring (allocate demo_os) p 1 3 s = Some (res, s') \<and> str_rep s' L res d 3 [98, 99] \<and>
     strings_substring (allocate demo_os) p 1 9 s = Some (0, s)"
proof -
  obtain s where s: "runtime_heap demo_os s Map.empty" "os_room demo_os s 15" by (rule demo_heap)
  obtain p s1 where 1: "strings_alloc_from_raw (allocate demo_os) [97, 98, 99, 100] 4 s = Some (p, s1)" "os_room demo_os s1 13"
    using ra.raw_returns [OF s(1), of 4 "[97, 98, 99, 100]" 13] s(2) by auto
  obtain d L1 where r: "runtime_heap demo_os s1 L1" "str_rep s1 L1 p d 5 [97, 98, 99, 100]"
    using al.alloc_from_raw_rep [OF s(1), of 4 "[97, 98, 99, 100]" p s1] 1(1) by auto
  have m: "os_room demo_os s1 2" by (rule ra.room_less [OF 1(2)]) simp
  have "take (nat (3 - 1)) (drop (nat 1) [97, 98, 99, 100]) = [98, 99 :: int]" by (simp add: eval_nat_numeral)
  then have "\<exists>res s' d' L'. strings_substring (allocate demo_os) p 1 3 s1 = Some (res, s') \<and> str_rep s' L' res d' 3 [98, 99]"
    using substring_range [OF r _ m, of 1 3] by (auto simp: eval_nat_numeral)
  moreover have "strings_substring (allocate demo_os) p 1 9 s1 = Some (0, s1)" using substring_range [OF r _ m, of 1 9] by simp
  ultimately show ?thesis by blast
qed

section \<open>Properties of the number formats\<close>

text \<open>
  \<open>u64_to_dec\<close> never writes outside its 32-byte buffer: it writes at most 20 characters, which are
  the decimal digits of the number, without leading zeros, and read back give the number.
\<close>

theorem u64_decimal:
  "\<exists>n tmp. u64_to_dec v 0 (replicate 32 0) = Some (n, tmp) \<and> n \<le> 20 \<and> dec_value (take n tmp) = unat v \<and>
    (\<forall>c\<in>set (take n tmp). 48 \<le> c \<and> c \<le> 57) \<and> (v \<noteq> 0 \<longrightarrow> hd (take n tmp) \<noteq> 48)"
proof -
  have "u64_to_dec v 0 (replicate 32 0) = Some (length (dec (unat v)), dec (unat v) @ drop (length (dec (unat v))) (replicate 32 0))"
    using u64_to_dec_eq [of 0 v "replicate 32 0"] dec_u64 [of v] by simp
  moreover have "hd (dec (unat v)) \<noteq> 48" if "v \<noteq> 0" using that by (intro dec_no_zero) (simp add: unat_gt_0)
  ultimately show ?thesis using dec_value_dec [of "unat v"] dec_digits [of _ "unat v"] dec_u64 [of v] by auto
qed

theorem u64_decimal_witness:
  "\<exists>n tmp. u64_to_dec 18446744073709551615 0 (replicate 32 0) = Some (n, tmp) \<and> dec_value (take n tmp) = 18446744073709551615"
  using u64_decimal [of 18446744073709551615] by auto

text \<open>
  \<open>i64_to_dec\<close> writes a minus sign exactly for negative numbers and then the digits of the
  absolute value, at most 20 characters in all; only the least 64-bit integer, whose negation
  overflows, is excluded.
\<close>

theorem i64_decimal:
  "(sint v \<noteq> - (2 ^ 63) \<longrightarrow> (\<exists>tmp. i64_to_dec v 0 (replicate 32 0) = Some (length (dec_int (sint v)), tmp) \<and>
      take (length (dec_int (sint v))) tmp = dec_int (sint v) \<and> length (dec_int (sint v)) \<le> 20 \<and>
      dec_value (dec (nat \<bar>sint v\<bar>)) = nat \<bar>sint v\<bar>)) \<and>
   (sint v = - (2 ^ 63) \<longrightarrow> i64_to_dec v 0 (replicate 32 0) = None)"
proof (intro conjI impI)
  assume m: "sint v \<noteq> - (2 ^ 63)"
  have b: "- (2 ^ 63) \<le> sint v" "sint v < 2 ^ 63" using sint_ge [of v] sint_lt [of v] by simp_all
  have "length (dec (nat \<bar>sint v\<bar>)) \<le> 19" using b m by (intro dec_length) (simp_all add: nat_less_iff)
  then have "length (dec_int (sint v)) \<le> 20" by (auto simp: dec_int_def abs_if split: if_splits)
  then show "\<exists>tmp. i64_to_dec v 0 (replicate 32 0) = Some (length (dec_int (sint v)), tmp) \<and>
      take (length (dec_int (sint v))) tmp = dec_int (sint v) \<and> length (dec_int (sint v)) \<le> 20 \<and>
      dec_value (dec (nat \<bar>sint v\<bar>)) = nat \<bar>sint v\<bar>"
    using i64_to_dec_eq [OF m, of 0 "replicate 32 0"] dec_value_dec by simp
qed (simp add: i64_to_dec_def)

theorem i64_decimal_witness:
  "\<exists>tmp. i64_to_dec (- 45) 0 (replicate 32 0) = Some (3, tmp) \<and> take 3 tmp = [45, 52, 53]"
proof -
  have "sint (- 45 :: 64 word) = - 45" by simp
  moreover have "dec_int (- 45) = [45, 52, 53]" by (simp add: dec_int_def dec.simps)
  ultimately show ?thesis using i64_decimal [of "- 45"] by (auto simp: eval_nat_numeral)
qed

text \<open>
  \<open>ptr_to_hex\<close> writes \<open>0x\<close> and one to sixteen hexadecimal digits, within its 32-byte buffer, that
  read back give the pointer.
\<close>

theorem ptr_hexadecimal:
  "\<exists>n tmp. ptr_to_hex v (replicate 32 0) = Some (n, tmp) \<and> 3 \<le> n \<and> n \<le> 18 \<and> take 2 tmp = [48, 120] \<and>
     hex_value (drop 2 (take n tmp)) = unat v"
proof -
  have "unat v mod 16 ^ 16 = unat v" using unsigned_less [of v, where ?'a = nat] by simp
  moreover have "0 < length (hex_trim 16 (unat v))" using hex_trim_length(2) [of 16 "unat v"] by simp
  then have "3 \<le> 2 + length (hex_trim 16 (unat v))" by linarith
  ultimately show ?thesis using ptr_to_hex_eq [of "replicate 32 0" v] hex_trim_length(1) [of 16 "unat v"] hex_value_trim [of 16 "unat v"]
    by simp
qed

text \<open>
  Whatever the floating-point unit computes, \<open>f64_to_dec\<close> writes at most 28 characters into its
  64-byte buffer: an optional sign, the decimal integer part, a point and six fraction characters.
\<close>

theorem f64_bounded:
  "\<exists>tmp. f64_to_dec fp v (replicate 64 0) = Some (length (f64_text fp v), tmp) \<and> take (length (f64_text fp v)) tmp = f64_text fp v \<and>
     length (f64_text fp v) \<le> 28"
  using f64_to_dec_eq [of "replicate 64 0" fp v] f64_text_length [of fp v] by simp

section \<open>Formatting\<close>

text \<open>
  C9: \<open>strings_format\<close> implements its specification: for a live format string and live string
  arguments whose text \<open>format_text\<close> is defined, and with room for two allocations per format
  character and one more, it returns a fresh string with exactly that text and changes no live
  block.
\<close>

theorem format_refines:
  assumes "runtime_heap os s L" "str_rep s L fmt df nf f" "\<forall>a. AStr a \<in> set args \<longrightarrow> arg_ok s L 0 look a"
    "format_text False fp look f args = Some t" "length t < 2 ^ 38" "os_room os s (2 * length f + 1)"
  shows "\<exists>res s' L'. strings_format fp (allocate os) fmt args s = Some (res, s') \<and> runtime_heap os s' L' \<and> frame {} L s L' s' \<and>
    L res = None \<and> hmem s' (res + 8) = int (length t) \<and> (t \<noteq> [] \<longrightarrow> (\<exists>d n. str_rep s' L' res d n t))"
proof -
  have r: "os_room os s (2 * length f + 1 + 0)" using assms(6) by simp
  show ?thesis using ra.format_total [OF assms(1,2) _ assms(4,5) r] assms(3) by blast
qed

definition demo_fpu :: "int fpu" where
  "demo_fpu = \<lparr>f_negative = (\<lambda>x. x < 0), f_neg = uminus, f_to_u64 = of_int, f_of_u64 = uint, f_sub = (-),
     f_mul10 = (\<lambda>x. 10 * x), f_to_int = of_int, f_of_int = sint\<rparr>"

theorem format_refines_witness:
  "\<exists>s fmt res s' d n L. strings_format demo_fpu (allocate demo_os) fmt [AInt (- 7)] s = Some (res, s') \<and>
     str_rep s' L res d n [120, 61, 45, 55]"
proof -
  obtain s where s: "runtime_heap demo_os s Map.empty" "os_room demo_os s 15" by (rule demo_heap)
  obtain p s1 where 1: "strings_alloc_from_raw (allocate demo_os) [120, 61, 37, 100] 4 s = Some (p, s1)" "os_room demo_os s1 13"
    using ra.raw_returns [OF s(1), of 4 "[120, 61, 37, 100]" 13] s(2) by auto
  obtain d L1 where r: "runtime_heap demo_os s1 L1" "str_rep s1 L1 p d 5 [120, 61, 37, 100]"
    using al.alloc_from_raw_rep [OF s(1), of 4 "[120, 61, 37, 100]" p s1] 1(1) by auto
  have m: "os_room demo_os s1 (2 * length [120, 61, 37, 100 :: int] + 1)" by (rule ra.room_less [OF 1(2)]) simp
  have t: "format_text False demo_fpu (\<lambda>_. []) [120, 61, 37, 100] [AInt (- 7)] = Some [120, 61, 45, 55]"
    by (simp add: spec_text_def dec_int_def dec.simps)
  have "\<exists>res s' L'. strings_format demo_fpu (allocate demo_os) p [AInt (- 7)] s1 = Some (res, s') \<and>
      (\<exists>d n. str_rep s' L' res d n [120, 61, 45, 55])"
    using format_refines [OF r _ t _ m] by fastforce
  then show ?thesis by blast
qed

end
