(* ===== verification/Array.thy ===== *)
theory Array
  imports Strings Room
begin

text \<open>
  The arrays of the runtime, \<^verbatim>\<open>src/runtime/src/array.c\<close>. A \<open>__public__array_t\<close> at \<open>a\<close> has \<open>data\<close> at \<open>a\<close>,
  \<open>shape\<close> at \<open>a + 8\<close>, \<open>length\<close> at \<open>a + 16\<close>, \<open>rank\<close> at \<open>a + 24\<close>, \<open>capacity\<close> at \<open>a + 32\<close> and \<open>elem_size\<close> at
  \<open>a + 40\<close>; the shape follows the 48-byte header. An array of rank above 1 is an array of pointers to
  arrays. A failing assertion and \<open>__public__runtime_error\<close> are \<open>None\<close>.
\<close>

section \<open>Operations\<close>

definition sizeof_array_t :: int where [simp]: "sizeof_array_t = 48"

text \<open>The conversion to \<open>size_t\<close>.\<close>

definition size_t :: "int \<Rightarrow> int" where
  "size_t x = x mod 2 ^ 64"

function alloc_array_recursive :: "alloc_fun \<Rightarrow> int \<Rightarrow> int \<Rightarrow> addr \<Rightarrow> heap_state \<Rightarrow> (addr \<times> heap_state) option"
  and fill_subarrays :: "alloc_fun \<Rightarrow> int \<Rightarrow> int \<Rightarrow> addr \<Rightarrow> addr \<Rightarrow> int \<Rightarrow> int \<Rightarrow> heap_state \<Rightarrow> heap_state option"
where
  "alloc_array_recursive al elem_size rank dims s =
     (if 0 \<ge> rank then Some (NULL, s)
      else
        let count = hmem s dims in
        if count = 0 then None
        else do {
          let shape_size = size_t rank * 8;
          let data_size = (if rank > 1 then size_t (size_t count * 8) else size_t (size_t count * size_t elem_size));
          (arr, s) \<leftarrow> al (sizeof_array_t + shape_size) s;
          (dt, s) \<leftarrow> al data_size s;
          let s = poke arr dt s;
          let s = poke (arr + 8) (arr + 48) s;
          let s = memcpy (hmem s (arr + 8)) dims (size_t rank * 8) s;
          let s = poke (arr + 32) count s;
          let s = poke (arr + 16) count s;
          let s = poke (arr + 24) rank s;
          let s = poke (arr + 40) elem_size s;
          let s = memset0 (hmem s arr) data_size s;
          s \<leftarrow> (if rank > 1 then fill_subarrays al elem_size rank dims (hmem s arr) 0 count s else Some s);
          Some (arr, s)
        })"
| "fill_subarrays al elem_size rank dims sub_arrays i count s =
     (if i < count \<and> 0 < rank then do {
        (p, s) \<leftarrow> alloc_array_recursive al elem_size (rank - 1) (dims + 8) s;
        fill_subarrays al elem_size rank dims sub_arrays (i + 1) count (poke (sub_arrays + 8 * i) p s)
      } else Some s)"
  by pat_completeness auto
termination
  by (relation "inv_image (less_than <*lex*> less_than <*lex*> less_than)
      (case_sum (\<lambda>(al, es, rank, dims, s). (nat rank, 1, 0)) (\<lambda>(al, es, rank, dims, sub, i, count, s). (nat rank, 0, nat (count - i))))")
    auto

declare alloc_array_recursive.simps [simp del] fill_subarrays.simps [simp del]

text \<open>The loop that collects the dimensions from the variable arguments.\<close>

definition alloc_array :: "alloc_fun \<Rightarrow> release_fun \<Rightarrow> int \<Rightarrow> int \<Rightarrow> int list \<Rightarrow> heap_state \<Rightarrow> (addr \<times> heap_state) option" where
  "alloc_array al rl elem_size rank args s =
     (if rank \<le> 0 then Some (NULL, s)
      else do {
        (dims, s) \<leftarrow> al (size_t rank * 8) s;
        let s = fold (\<lambda>i s. poke (dims + 8 * int i) (args ! i) s) [0..<nat rank] s;
        (result, s) \<leftarrow> alloc_array_recursive al elem_size rank dims s;
        s \<leftarrow> rl dims s;
        Some (result, s)
      })"

definition extend_array :: "alloc_fun \<Rightarrow> release_fun \<Rightarrow> addr \<Rightarrow> heap_state \<Rightarrow> heap_state option" where
  "extend_array al rl arr s =
     (if arr = NULL then None
      else do {
        let s = poke (arr + 16) (hmem s (arr + 16) + 1) s;
        if hmem s (arr + 16) \<le> hmem s (arr + 32) then Some s
        else do {
          let new_cap = (if hmem s (arr + 32) > 0 then hmem s (arr + 32) * 2 else 1);
          let s = poke (arr + 32) new_cap s;
          (data, s) \<leftarrow> al (size_t (size_t new_cap * size_t (hmem s (arr + 40)))) s;
          if new_cap * hmem s (arr + 40) = 0 then None
          else do {
            let s = memcpy data (hmem s arr) (size_t ((hmem s (arr + 16) - 1) * hmem s (arr + 40))) s;
            s \<leftarrow> rl (hmem s arr) s;
            Some (poke arr data s)
          }
        }
      })"

definition array_len :: "addr \<Rightarrow> heap_state \<Rightarrow> int" where
  "array_len arr s = hmem s (arr + 16)"

definition get_subarray :: "addr \<Rightarrow> int \<Rightarrow> heap_state \<Rightarrow> addr" where
  "get_subarray arr index s =
     (if arr = NULL \<or> hmem s (arr + 24) \<le> 1 then NULL
      else if index < 0 \<or> index \<ge> hmem s (arr + 16) then NULL
      else hmem s (hmem s arr + 8 * index))"

definition set_subarray :: "addr \<Rightarrow> int \<Rightarrow> addr \<Rightarrow> heap_state \<Rightarrow> heap_state" where
  "set_subarray arr index sub_arr s =
     (if arr = NULL \<or> hmem s (arr + 24) \<le> 1 then s
      else if index < 0 \<or> index \<ge> hmem s (arr + 16) then s
      else poke (hmem s arr + 8 * index) sub_arr s)"

section \<open>Arrays in the heap\<close>

text \<open>
  The array header at \<open>a\<close> has the shape \<open>n # ds\<close>, elements of \<open>es\<close> bytes and the data block \<open>d\<close>.
\<close>

definition arr_head :: "heap_state \<Rightarrow> (addr \<rightharpoonup> int) \<Rightarrow> int \<Rightarrow> int \<Rightarrow> int list \<Rightarrow> addr \<Rightarrow> addr \<Rightarrow> bool" where
  "arr_head s L es n ds a d \<longleftrightarrow>
     L a = Some (48 + 8 * int (length (n # ds))) \<and> L d = Some (if ds = [] then n * es else n * 8) \<and> a \<noteq> d \<and>
     hmem s a = d \<and> hmem s (a + 8) = a + 48 \<and> hmem s (a + 16) = n \<and> hmem s (a + 24) = int (length (n # ds)) \<and>
     hmem s (a + 32) = n \<and> hmem s (a + 40) = es \<and> (\<forall>i < length (n # ds). hmem s (a + 48 + 8 * int i) = (n # ds) ! i)"

definition all_zero :: "heap_state \<Rightarrow> addr \<Rightarrow> int \<Rightarrow> bool" where
  "all_zero s d k \<longleftrightarrow> (\<forall>i. 0 \<le> i \<longrightarrow> i < k \<longrightarrow> hmem s (d + i) = 0 \<and> hbytes s (d + i) = 0)"

text \<open>
  The whole array: \<open>bs\<close> lists all its blocks, from the root down. Elements of a new array are zero.
\<close>

fun arr_rep :: "heap_state \<Rightarrow> (addr \<rightharpoonup> int) \<Rightarrow> int \<Rightarrow> int list \<Rightarrow> addr \<Rightarrow> addr list \<Rightarrow> bool" where
  "arr_rep s L es [] a bs = False"
| "arr_rep s L es (n # ds) a bs \<longleftrightarrow> (\<exists>d rest. bs = a # d # rest \<and> arr_head s L es n ds a d \<and>
     (if ds = [] then rest = [] \<and> all_zero s d (n * es)
      else \<exists>bss. length bss = nat n \<and> rest = concat bss \<and> (\<forall>i < nat n. arr_rep s L es ds (hmem s (d + 8 * int i)) (bss ! i))))"

declare arr_rep.simps [simp del]

lemma arr_headD:
  assumes "arr_head s L es n ds a d"
  shows "L a = Some (48 + 8 * int (length (n # ds)))" "L d = Some (if ds = [] then n * es else n * 8)" "a \<noteq> d" "hmem s a = d"
    "hmem s (a + 16) = n"
  using assms by (simp_all add: arr_head_def)

lemma arr_head_frame:
  assumes "arr_head s L es n ds a d" "frame B L s L' s'" "a \<notin> B" "d \<notin> B"
  shows "arr_head s' L' es n ds a d"
proof -
  note h = arr_headD [OF assms(1)]
  note fa = frameD [OF assms(2) h(1) assms(3)]
  have c: "hmem s' (a + i) = hmem s (a + i)" if "0 \<le> i" "i < 48 + 8 * int (length (n # ds))" for i using fa(2) that by blast
  have "hmem s' (a + 48 + 8 * int i) = hmem s (a + 48 + 8 * int i)" if "i < length (n # ds)" for i
    using c [of "48 + 8 * int i"] that by (simp add: add.assoc)
  then show ?thesis
    using assms(1) fa(1) frameD(1) [OF assms(2) h(2) assms(4)] c [of 0] c [of 8] c [of 16] c [of 24] c [of 32] c [of 40]
    by (simp add: arr_head_def)
qed

lemma arr_rep_dom: "arr_rep s L es ds a bs \<Longrightarrow> set bs \<subseteq> dom L"
proof (induction ds arbitrary: a bs)
  case (Cons n ds)
  then obtain d rest where r: "bs = a # d # rest" "arr_head s L es n ds a d"
     "if ds = [] then rest = [] \<and> all_zero s d (n * es)
      else \<exists>bss. length bss = nat n \<and> rest = concat bss \<and> (\<forall>i < nat n. arr_rep s L es ds (hmem s (d + 8 * int i)) (bss ! i))"
    by (auto simp: arr_rep.simps)
  have "set rest \<subseteq> dom L"
  proof (cases "ds = []")
    case False
    then obtain bss where "length bss = nat n" "rest = concat bss" "\<And>i. i < nat n \<Longrightarrow> arr_rep s L es ds (hmem s (d + 8 * int i)) (bss ! i)"
      using r(3) by auto
    then show ?thesis using Cons.IH by (fastforce simp: in_set_conv_nth [of _ bss])
  qed (use r(3) in simp)
  then show ?case using r(1) arr_headD(1,2) [OF r(2)] by auto
qed (simp add: arr_rep.simps)

lemma arr_rep_frame:
  "arr_rep s L es ds a bs \<Longrightarrow> frame B L s L' s' \<Longrightarrow> set bs \<inter> B = {} \<Longrightarrow> arr_rep s' L' es ds a bs"
proof (induction ds arbitrary: a bs)
  case (Cons n ds)
  obtain d rest where r: "bs = a # d # rest" "arr_head s L es n ds a d"
     and q: "if ds = [] then rest = [] \<and> all_zero s d (n * es)
      else \<exists>bss. length bss = nat n \<and> rest = concat bss \<and> (\<forall>i < nat n. arr_rep s L es ds (hmem s (d + 8 * int i)) (bss ! i))"
    using Cons.prems(1) by (auto simp: arr_rep.simps)
  have nb: "a \<notin> B" "d \<notin> B" using Cons.prems(3) r(1) by auto
  note h = arr_head_frame [OF r(2) Cons.prems(2) nb] and fd = frameD [OF Cons.prems(2) arr_headD(2) [OF r(2)] nb(2)]
  have "if ds = [] then rest = [] \<and> all_zero s' d (n * es)
      else \<exists>bss. length bss = nat n \<and> rest = concat bss \<and> (\<forall>i < nat n. arr_rep s' L' es ds (hmem s' (d + 8 * int i)) (bss ! i))"
  proof (cases "ds = []")
    case True
    then show ?thesis using q fd(2,3) by (simp add: all_zero_def)
  next
    case False
    then obtain bss where bss: "length bss = nat n" "rest = concat bss" "\<And>i. i < nat n \<Longrightarrow> arr_rep s L es ds (hmem s (d + 8 * int i)) (bss ! i)"
      using q by auto
    have "arr_rep s' L' es ds (hmem s' (d + 8 * int i)) (bss ! i)" if i: "i < nat n" for i
    proof -
      have "hmem s' (d + 8 * int i) = hmem s (d + 8 * int i)" using fd(2) [of "8 * int i"] i False by simp
      moreover have "set (bss ! i) \<subseteq> set bs" using nth_mem [of i bss] i bss(1,2) r(1) by auto
      ultimately show ?thesis using Cons.IH [OF bss(3) [OF i] Cons.prems(2)] Cons.prems(3) by auto
    qed
    then show ?thesis using False bss(1,2) by auto
  qed
  then show ?case using r(1) h by (auto simp: arr_rep.simps)
qed (simp add: arr_rep.simps)

section \<open>Allocating an array\<close>

text \<open>The dimensions \<open>ds\<close> are stored at \<open>dims\<close>, inside the live block \<open>dm\<close>.\<close>

definition dims_at :: "heap_state \<Rightarrow> (addr \<rightharpoonup> int) \<Rightarrow> addr \<Rightarrow> addr \<Rightarrow> int list \<Rightarrow> bool" where
  "dims_at s L dm dims ds \<longleftrightarrow> (\<exists>k. L dm = Some k \<and> dm \<le> dims \<and> dims + 8 * int (length ds) \<le> dm + k) \<and>
     (\<forall>i < length ds. hmem s (dims + 8 * int i) = ds ! i)"

lemma dims_at_frame: "dims_at s L dm dims ds \<Longrightarrow> frame B L s L' s' \<Longrightarrow> dm \<notin> B \<Longrightarrow> dims_at s' L' dm dims ds"
proof -
  assume d: "dims_at s L dm dims ds" and f: "frame B L s L' s'" and n: "dm \<notin> B"
  obtain k where k: "L dm = Some k" "dm \<le> dims" "dims + 8 * int (length ds) \<le> dm + k" using d by (auto simp: dims_at_def)
  have "hmem s' (dims + 8 * int i) = hmem s (dims + 8 * int i)" if "i < length ds" for i
    using frameD(2) [OF f k(1) n, of "dims - dm + 8 * int i"] k that by simp
  then show ?thesis using d k frameD(1) [OF f k(1) n] by (auto simp: dims_at_def)
qed

lemma dims_at_tl: "dims_at s L dm dims (n # ds) \<Longrightarrow> dims_at s L dm (dims + 8) ds"
proof -
  assume d: "dims_at s L dm dims (n # ds)"
  have "hmem s (dims + 8 + 8 * int i) = ds ! i" if "i < length ds" for i
    using d that unfolding dims_at_def by (auto dest!: spec [of _ "Suc i"] simp: algebra_simps)
  then show ?thesis using d by (auto simp: dims_at_def)
qed

fun array_allocs :: "int list \<Rightarrow> nat" where
  "array_allocs [] = 0"
| "array_allocs (n # ds) = 2 + nat n * array_allocs ds"

definition dims_ok :: "int \<Rightarrow> int list \<Rightarrow> bool" where
  "dims_ok es ds \<longleftrightarrow> 0 < es \<and> length ds < 2 ^ 20 \<and> (\<forall>n\<in>set ds. 0 < n \<and> n * es < 2 ^ 39 \<and> n * 8 < 2 ^ 39)"

lemma size_t_id: "0 \<le> x \<Longrightarrow> x < 2 ^ 64 \<Longrightarrow> size_t x = x"
  by (simp add: size_t_def mod_pos_pos_trivial)

definition array_header :: "addr \<Rightarrow> addr \<Rightarrow> addr \<Rightarrow> int \<Rightarrow> int \<Rightarrow> int \<Rightarrow> heap_state \<Rightarrow> heap_state" where
  "array_header a d dims n rank es s = poke (a + 40) es (poke (a + 24) rank (poke (a + 16) n (poke (a + 32) n
     (memcpy (a + 48) dims (rank * 8) (poke (a + 8) (a + 48) (poke a d s))))))"

context roomy_allocator
begin

lemma array_head:
  assumes i: "inv s L" and dm: "dims_at s L dm dims (n # ds)" and ok: "dims_ok es (n # ds)" and r: "room s (2 + m)"
    and rk: "rank = int (length (n # ds))" and k: "k = (if ds = [] then n * es else n * 8)"
  obtains a s1 d s2 s3 L' where "alloc (48 + rank * 8) s = Some (a, s1)" "alloc k s1 = Some (d, s2)"
    "s3 = memset0 d k (array_header a d dims n rank es s2)" "hmem (array_header a d dims n rank es s2) a = d"
    "inv s3 L'" "frame {} L s L' s3" "arr_head s3 L' es n ds a d" "all_zero s3 d k" "room s3 m" "L a = None" "L d = None"
    "dom L' = dom L \<union> {a, d}"
proof -
  have n: "0 < n" "n * es < 2 ^ 39" "n * 8 < 2 ^ 39" "0 < es" "rank < 2 ^ 21" "0 < rank" using ok rk by (auto simp: dims_ok_def)
  have k0: "0 < k" "k < 2 ^ 40" using n k by auto
  have sz: "0 < 48 + rank * 8" "48 + rank * 8 < 2 ^ 40" using n by simp_all
  obtain a s1 where 1: "alloc (48 + rank * 8) s = Some (a, s1)" "room s1 (Suc m)" using room_alloc [OF i _ sz, of "Suc m"] r by auto
  define L1 where "L1 = L(a \<mapsto> 48 + rank * 8)"
  note f1 = alloc_frame [OF i sz 1(1), folded L1_def]
  obtain d s2 where 2: "alloc k s1 = Some (d, s2)" "room s2 m" using room_alloc [OF f1(1) 1(2) k0] by auto
  define L2 where "L2 = L1(d \<mapsto> k)"
  note f2 = alloc_frame [OF f1(1) k0 2(1), folded L2_def]
  have ad: "a \<noteq> d" "L d = None" using f2(2) by (auto simp: L1_def split: if_splits)
  have L2: "L2 a = Some (48 + rank * 8)" "L2 d = Some k" using ad by (simp_all add: L1_def L2_def)
  let ?h = "array_header a d dims n rank es s2"
  have h1: "inv ?h L2 \<and> frame {a} L2 s2 L2 ?h"
    by (rule write_frame [OF f2(1) L2(1)]) (use n in \<open>auto simp: array_header_def poke_def memcpy_def copy_region_def\<close>)
  let ?s3 = "memset0 d k ?h"
  have h2: "inv ?s3 L2 \<and> frame {d} L2 ?h L2 ?s3" using memset0_frame [of ?h L2 d k 0 k] h1 L2(2) k0 by simp
  have fr12: "frame {} L s L2 s2" using frame_trans [OF f1(3) f2(3)] by simp
  have fr: "frame {} L s L2 ?s3"
    using frame_trans [OF frame_trans [OF fr12 h1 [THEN conjunct2]] h2 [THEN conjunct2]] by (rule frame_drop) (use f1(2) ad(2) in auto)
  obtain kd where kd: "L dm = Some kd" "dm \<le> dims" "dims + 8 * int (length (n # ds)) \<le> dm + kd"
    "\<And>j. j < length (n # ds) \<Longrightarrow> hmem s (dims + 8 * int j) = (n # ds) ! j" using dm by (auto simp: dims_at_def)
  have dma: "dm \<noteq> a" "L2 dm = Some kd" using kd(1) f1(2) ad(2) by (auto simp: L1_def L2_def)
  have far: "dims + 8 * int j \<noteq> a" "dims + 8 * int j \<noteq> a + 8" if "j < length (n # ds)" for j
    using other_block [OF f2(1) dma(2) L2(1) dma(1), of "dims - dm + 8 * int j" 0]
      other_block [OF f2(1) dma(2) L2(1) dma(1), of "dims - dm + 8 * int j" 8] kd(2,3) that n(6) by auto
  have cell: "hmem ?h (a + 48 + 8 * int j) = (n # ds) ! j" if j: "j < length (n # ds)" for j
  proof -
    have "hmem s2 (dims + 8 * int j) = hmem s (dims + 8 * int j)"
      using frameD(2) [OF fr12 kd(1), of "dims - dm + 8 * int j"] kd(2,3) j by simp
    moreover have "hmem ?h (a + 48 + 8 * int j) = hmem s2 (dims + 8 * int j)"
      using far [OF j] j rk by (simp add: array_header_def copy_region_def)
    ultimately show ?thesis using kd(4) [OF j] by simp
  qed
  have fields: "hmem ?h a = d" "hmem ?h (a + 8) = a + 48" "hmem ?h (a + 16) = n" "hmem ?h (a + 24) = rank" "hmem ?h (a + 32) = n"
    "hmem ?h (a + 40) = es" by (simp_all add: array_header_def copy_region_def)
  have hd: "arr_head ?h L2 es n ds a d" using fields cell L2 ad(1) rk k by (simp add: arr_head_def mult.commute)
  have "arr_head ?s3 L2 es n ds a d"
  proof -
    have "hmem ?s3 (a + j) = hmem ?h (a + j)" if "0 \<le> j" "j < 48 + rank * 8" for j
      using frameD(2) [OF h2 [THEN conjunct2] L2(1), of j] ad(1) that by simp
    note c = this
    have "hmem ?s3 (a + 48 + 8 * int j) = hmem ?h (a + 48 + 8 * int j)" if "j < length (n # ds)" for j
      using c [of "48 + 8 * int j"] that rk by (simp add: add.assoc)
    then show ?thesis using hd c [of 0] c [of 8] c [of 16] c [of 24] c [of 32] c [of 40] n(6) by (simp add: arr_head_def)
  qed
  moreover have "all_zero ?s3 d k" by (simp add: all_zero_def zero_region_def)
  moreover have "room ?s3 m" using 2(2) by (simp add: array_header_def)
  moreover have "dom L2 = dom L \<union> {a, d}" by (auto simp: L1_def L2_def)
  ultimately show ?thesis using that [OF 1(1) 2(1) refl fields(1) _ fr] h2 f1(2) ad(2) by blast
qed

lemma fill_total:
  assumes rec: "\<And>s L m. inv s L \<Longrightarrow> dims_at s L dm (dims + 8) ds \<Longrightarrow> room s (A + m) \<Longrightarrow>
      \<exists>p s' L' bs. alloc_array_recursive alloc es (rank - 1) (dims + 8) s = Some (p, s') \<and> inv s' L' \<and> arr_rep s' L' es ds p bs \<and>
        distinct bs \<and> set bs \<inter> dom L = {} \<and> dom L' = dom L \<union> set bs \<and> frame {} L s L' s' \<and> room s' m"
    and rk: "0 < rank"
  shows "inv s L \<Longrightarrow> dims_at s L dm (dims + 8) ds \<Longrightarrow> L d = Some (n * 8) \<Longrightarrow> d \<noteq> dm \<Longrightarrow> i + int j = n \<Longrightarrow> 0 \<le> i \<Longrightarrow> room s (j * A + m) \<Longrightarrow>
    \<exists>s' L' bss. fill_subarrays alloc es rank dims d i n s = Some s' \<and> inv s' L' \<and> frame {d} L s L' s' \<and> L' d = Some (n * 8) \<and>
      length bss = j \<and> (\<forall>x<j. arr_rep s' L' es ds (hmem s' (d + 8 * (i + int x))) (bss ! x)) \<and> distinct (concat bss) \<and>
      set (concat bss) \<inter> dom L = {} \<and> dom L' = dom L \<union> set (concat bss) \<and> (\<forall>x. 0 \<le> x \<longrightarrow> x < i \<longrightarrow> hmem s' (d + 8 * x) = hmem s (d + 8 * x)) \<and> room s' m"
proof (induction j arbitrary: s L i)
  case 0
  then show ?case by (subst fill_subarrays.simps) (auto simp: frame_refl intro!: exI [of _ L] exI [of _ "[]"])
next
  case (Suc j)
  obtain p s1 L1 bs where 1: "alloc_array_recursive alloc es (rank - 1) (dims + 8) s = Some (p, s1)" "inv s1 L1" "arr_rep s1 L1 es ds p bs"
      "distinct bs" "set bs \<inter> dom L = {}" "frame {} L s L1 s1" "room s1 (j * A + m)" "dom L1 = dom L \<union> set bs"
    using rec [OF Suc.prems(1,2), of "j * A + m"] Suc.prems(7) by (auto simp: add.assoc)
  have in': "i < n" using Suc.prems(5) by simp
  have L1d: "L1 d = Some (n * 8)" using frameD(1) [OF 1(6) Suc.prems(3)] by simp
  let ?s2 = "poke (d + 8 * i) p s1"
  have f2: "inv ?s2 L1" "frame {d} L1 s1 L1 ?s2" using poke_frame [OF 1(2) L1d, of "8 * i" p] in' Suc.prems(6) by simp_all
  have db: "d \<notin> set bs" using 1(5) Suc.prems(3) by auto
  have dm2: "dims_at ?s2 L1 dm (dims + 8) ds"
    using dims_at_frame [OF dims_at_frame [OF Suc.prems(2) 1(6)] f2(2)] Suc.prems(4) by simp
  have r2: "room ?s2 (j * A + m)" using 1(7) by simp
  obtain s' L' bss where 3: "fill_subarrays alloc es rank dims d (i + 1) n ?s2 = Some s'" "inv s' L'" "frame {d} L1 ?s2 L' s'" "L' d = Some (n * 8)"
      "length bss = j" "\<And>x. x < j \<Longrightarrow> arr_rep s' L' es ds (hmem s' (d + 8 * (i + 1 + int x))) (bss ! x)" "distinct (concat bss)"
      "set (concat bss) \<inter> dom L1 = {}" "\<And>x. 0 \<le> x \<Longrightarrow> x < i + 1 \<Longrightarrow> hmem s' (d + 8 * x) = hmem ?s2 (d + 8 * x)" "room s' m"
      "dom L' = dom L1 \<union> set (concat bss)"
    using Suc.IH [OF f2(1) dm2 L1d Suc.prems(4) _ _ r2, of "i + 1"] Suc.prems(5,6) by auto
  have e: "fill_subarrays alloc es rank dims d i n s = Some s'" using 1(1) 3(1) in' rk by (subst fill_subarrays.simps) simp
  have "arr_rep ?s2 L1 es ds p bs" using arr_rep_frame [OF 1(3) f2(2)] db by simp
  then have rp: "arr_rep s' L' es ds p bs" using arr_rep_frame [OF _ 3(3)] db by simp
  have pd: "hmem s' (d + 8 * i) = p" using 3(9) [of i] Suc.prems(6) by simp
  have reps: "arr_rep s' L' es ds (hmem s' (d + 8 * (i + int x))) ((bs # bss) ! x)" if "x < Suc j" for x
    using that rp pd 3(6) [of "x - 1"] by (cases x) (simp_all add: algebra_simps)
  have sub: "set bs \<subseteq> dom L1" by (rule arr_rep_dom [OF 1(3)])
  have mono: "dom L \<subseteq> dom L1" using frameD(1) [OF 1(6)] by (auto simp: dom_def)
  have d1: "distinct (concat (bs # bss))" using 1(4) 3(7,8) sub by auto
  have d2: "set (concat (bs # bss)) \<inter> dom L = {}" using 1(5) 3(8) mono unfolding concat.simps set_append by blast
  have fr: "frame {d} L s L' s'" using frame_trans [OF frame_trans [OF 1(6) f2(2)] 3(3)] by simp
  have keep: "hmem s' (d + 8 * x) = hmem s (d + 8 * x)" if "0 \<le> x" "x < i" for x
  proof -
    have "hmem s1 (d + 8 * x) = hmem s (d + 8 * x)" using frameD(2) [OF 1(6) Suc.prems(3), of "8 * x"] that in' by simp
    then show ?thesis using 3(9) [of x] that by simp
  qed
  have d3: "dom L' = dom L \<union> set (concat (bs # bss))" unfolding 3(11) 1(8) concat.simps set_append by (rule Un_assoc)
  show ?case using e 3(2,4,10) fr reps d1 d2 d3 keep 3(5) by (intro exI [of _ s'] exI [of _ L'] exI [of _ "bs # bss"]) simp
qed

lemma alloc_array_rec_total:
  "inv s L \<Longrightarrow> dims_at s L dm dims ds \<Longrightarrow> ds \<noteq> [] \<Longrightarrow> dims_ok es ds \<Longrightarrow> room s (array_allocs ds + m) \<Longrightarrow>
   \<exists>a s' L' bs. alloc_array_recursive alloc es (int (length ds)) dims s = Some (a, s') \<and> inv s' L' \<and> arr_rep s' L' es ds a bs \<and>
     distinct bs \<and> set bs \<inter> dom L = {} \<and> dom L' = dom L \<union> set bs \<and> frame {} L s L' s' \<and> room s' m"
proof (induction ds arbitrary: s L dims m)
  case (Cons n ds)
  define rank where "rank = int (length (n # ds))"
  define k where "k = (if ds = [] then n * es else n * 8)"
  have ok: "dims_ok es ds" and n: "0 < n" "n * es < 2 ^ 39" "n * 8 < 2 ^ 39" "0 < es" "rank < 2 ^ 21" "0 < rank"
    using Cons.prems(4) by (auto simp: dims_ok_def rank_def)
  let ?m = "nat n * array_allocs ds + m"
  have rm: "room s (2 + ?m)" using Cons.prems(5) by (simp add: add.assoc)
  obtain a s1 d s2 s3 L3 where h: "alloc (48 + rank * 8) s = Some (a, s1)" "alloc k s1 = Some (d, s2)"
    "s3 = memset0 d k (array_header a d dims n rank es s2)" "hmem (array_header a d dims n rank es s2) a = d"
    "inv s3 L3" "frame {} L s L3 s3" "arr_head s3 L3 es n ds a d" "all_zero s3 d k" "room s3 ?m" "L a = None" "L d = None"
    "dom L3 = dom L \<union> {a, d}"
    by (rule array_head [OF Cons.prems(1,2,4) rm rank_def k_def])
  have cnt: "hmem s dims = n" using Cons.prems(2) by (auto simp: dims_at_def dest: spec [of _ 0])
  have ar: "size_t rank * 8 = rank * 8" "size_t n = n" "size_t es = es" "size_t (n * 8) = n * 8" "size_t (n * es) = n * es"
  proof -
    have "es \<le> n * es" using n mult_right_mono [of 1 n es] by simp
    then have "es < 2 ^ 64" using n(2) by simp
    then show "size_t rank * 8 = rank * 8" "size_t n = n" "size_t es = es" "size_t (n * 8) = n * 8" "size_t (n * es) = n * es"
      using n by (simp_all add: size_t_id)
  qed
  have r1: "rank > 1 \<longleftrightarrow> ds \<noteq> []" by (auto simp: rank_def)
  have mem: "hmem s3 a = d" by (rule arr_headD(4) [OF h(7)])
  have hd: "alloc_array_recursive alloc es rank dims s = (do {
      s \<leftarrow> (if ds \<noteq> [] then fill_subarrays alloc es rank dims d 0 n s3 else Some s3); Some (a, s) })"
    using n cnt ar h(1-4) mem r1 unfolding k_def
    by (subst alloc_array_recursive.simps) (auto simp: Let_def array_header_def copy_region_def)
  show ?case
  proof (cases "ds = []")
    case True
    have "arr_rep s3 L3 es (n # ds) a [a, d]" using h(7,8) True k_def by (auto simp: arr_rep.simps)
    then show ?thesis using hd True h(5,6,9,10,11,12) arr_headD(3) [OF h(7)] unfolding rank_def
      by (intro exI [of _ a] exI [of _ s3] exI [of _ L3] exI [of _ "[a, d]"]) auto
  next
    case False
    have dm3: "dims_at s3 L3 dm (dims + 8) ds" by (rule dims_at_frame [OF dims_at_tl [OF Cons.prems(2)] h(6)]) simp
    have L3d: "L3 d = Some (n * 8)" using arr_headD(2) [OF h(7)] False by simp
    have ddm: "d \<noteq> dm" using Cons.prems(2) h(11) by (auto simp: dims_at_def)
    have rec: "\<exists>p s' L' bs. alloc_array_recursive alloc es (rank - 1) (dims + 8) s = Some (p, s') \<and> inv s' L' \<and> arr_rep s' L' es ds p bs \<and>
        distinct bs \<and> set bs \<inter> dom L = {} \<and> dom L' = dom L \<union> set bs \<and> frame {} L s L' s' \<and> room s' m"
      if "inv s L" "dims_at s L dm (dims + 8) ds" "room s (array_allocs ds + m)" for s L m
      using Cons.IH [OF that(1,2) False ok that(3)] by (simp add: rank_def)
    obtain s4 L4 bss where f: "fill_subarrays alloc es rank dims d 0 n s3 = Some s4" "inv s4 L4" "frame {d} L3 s3 L4 s4" "L4 d = Some (n * 8)"
        "length bss = nat n" "\<And>x. x < nat n \<Longrightarrow> arr_rep s4 L4 es ds (hmem s4 (d + 8 * int x)) (bss ! x)" "distinct (concat bss)"
        "set (concat bss) \<inter> dom L3 = {}" "room s4 m" "dom L4 = dom L3 \<union> set (concat bss)"
      using fill_total [OF rec n(6) h(5) dm3 L3d ddm _ _ h(9), of 0] n(1) by auto
    have fr: "frame {} L s L4 s4" using frame_trans [OF h(6) f(3)] by (rule frame_drop) (use h(11) in auto)
    note hd3 = arr_headD [OF h(7)]
    have "arr_head s4 L4 es n ds a d"
    proof -
      have "hmem s4 (a + j) = hmem s3 (a + j)" if "0 \<le> j" "j < 48 + 8 * int (length (n # ds))" for j
        using frameD(2) [OF f(3) hd3(1), of j] hd3(3) that by simp
      note c = this
      have "hmem s4 (a + 48 + 8 * int j) = hmem s3 (a + 48 + 8 * int j)" if "j < length (n # ds)" for j
        using c [of "48 + 8 * int j"] that by (simp add: add.assoc)
      then show ?thesis using h(7) c [of 0] c [of 8] c [of 16] c [of 24] c [of 32] c [of 40] f(4) frameD(1) [OF f(3) hd3(1)] hd3(3) False
        by (simp add: arr_head_def)
    qed
    then have "arr_rep s4 L4 es (n # ds) a (a # d # concat bss)" using False f(5,6) by (auto simp: arr_rep.simps)
    moreover have "distinct (a # d # concat bss)" using f(7,8) hd3(1-3) by auto
    moreover have "dom L4 = dom L \<union> set (a # d # concat bss)" unfolding f(10) h(12) by auto
    moreover have "set (a # d # concat bss) \<inter> dom L = {}" using f(8) h(10,11) unfolding h(12) by auto
    ultimately show ?thesis using hd f(1,2,9) fr False unfolding rank_def
      by (intro exI [of _ a] exI [of _ s4] exI [of _ L4] exI [of _ "a # d # concat bss"]) (simp only: simp_thms if_True bind.simps)
  qed
qed simp

section \<open>The public operations\<close>

lemma store_dims:
  assumes "inv s L" "L d = Some (8 * int (length args))"
  shows "m \<le> length args \<Longrightarrow> \<exists>s'. fold (\<lambda>i s. poke (d + 8 * int i) (args ! i) s) [0..<m] s = s' \<and> inv s' L \<and> frame {d} L s L s' \<and>
     (\<forall>i<m. hmem s' (d + 8 * int i) = args ! i) \<and> (\<forall>k. room s' k = room s k)"
proof (induction m)
  case (Suc m)
  then obtain s1 where 1: "fold (\<lambda>i s. poke (d + 8 * int i) (args ! i) s) [0..<m] s = s1" "inv s1 L" "frame {d} L s L s1"
    "\<And>i. i < m \<Longrightarrow> hmem s1 (d + 8 * int i) = args ! i" "\<And>k. room s1 k = room s k" by auto
  let ?s = "poke (d + 8 * int m) (args ! m) s1"
  have "inv ?s L \<and> frame {d} L s1 L ?s" using poke_frame [OF 1(2) assms(2), of "8 * int m" "args ! m"] Suc.prems by simp
  then show ?case using 1 frame_trans [OF 1(3), of "{d}" L ?s] by (auto simp: less_Suc_eq)
qed (simp add: assms frame_refl)

lemma alloc_array_total:
  assumes i: "inv s L" and ok: "dims_ok es ds" "ds \<noteq> []" "length ds \<le> 16000" and r: "room s (1 + array_allocs ds + m)"
  shows "\<exists>a s' L' bs. alloc_array alloc rel es (int (length ds)) ds s = Some (a, s') \<and> inv s' L' \<and> arr_rep s' L' es ds a bs \<and>
     distinct bs \<and> set bs \<inter> dom L = {} \<and> dom L' = dom L \<union> set bs \<and> frame {} L s L' s' \<and> room s' m"
proof -
  define k where "k = 8 * int (length ds)"
  have k: "0 < k" "k < 2 ^ 40" "releasable k" "size_t (int (length ds)) * 8 = k" using ok by (simp_all add: k_def releasable_def size_t_id)
  obtain d s1 where 1: "alloc k s = Some (d, s1)" "room s1 (array_allocs ds + m)" using room_alloc [OF i _ k(1,2), of "array_allocs ds + m"] r by auto
  define L1 where "L1 = L(d \<mapsto> k)"
  note f1 = alloc_frame [OF i k(1,2) 1(1), folded L1_def]
  have L1d: "L1 d = Some k" by (simp add: L1_def)
  obtain s2 where 2: "fold (\<lambda>i s. poke (d + 8 * int i) (ds ! i) s) [0..<length ds] s1 = s2" "inv s2 L1" "frame {d} L1 s1 L1 s2"
    "\<And>i. i < length ds \<Longrightarrow> hmem s2 (d + 8 * int i) = ds ! i" "\<And>k. room s2 k = room s1 k"
    using store_dims [OF f1(1) L1d [unfolded k_def], of "length ds"] by auto
  have dm: "dims_at s2 L1 d d ds" using 2(4) L1d by (simp add: dims_at_def k_def)
  have r2: "room s2 (array_allocs ds + m)" using 1(2) 2(5) by simp
  obtain a s3 L3 bs where 3: "alloc_array_recursive alloc es (int (length ds)) d s2 = Some (a, s3)" "inv s3 L3" "arr_rep s3 L3 es ds a bs"
    "distinct bs" "set bs \<inter> dom L1 = {}" "dom L3 = dom L1 \<union> set bs" "frame {} L1 s2 L3 s3" "room s3 m"
    using alloc_array_rec_total [OF 2(2) dm ok(2,1) r2] by blast
  have L3d: "L3 d = Some k" using frameD(1) [OF 3(7) L1d] by simp
  obtain s4 where 4: "rel d s3 = Some s4" "inv s4 (L3(d := None))" "frame {d} L3 s3 (L3(d := None)) s4" by (rule rel_frame [OF 3(2) L3d k(3)])
  have db: "d \<notin> set bs" using 3(5) L1d by auto
  have "frame {d} L s (L3(d := None)) s4" using frame_trans [OF frame_trans [OF frame_trans [OF f1(3) 2(3)] 3(7)] 4(3)] by simp
  then have "frame {} L s (L3(d := None)) s4" by (rule frame_drop) (use f1(2) in auto)
  moreover have "arr_rep s4 (L3(d := None)) es ds a bs" using arr_rep_frame [OF 3(3) 4(3)] db by simp
  moreover have "set bs \<inter> dom L = {}" using 3(5) by (auto simp: L1_def)
  moreover have "dom (L3(d := None)) = dom L \<union> set bs" using 3(6) f1(2) db by (auto simp: L1_def)
  moreover have "alloc_array alloc rel es (int (length ds)) ds s = Some (a, s4)"
    using 1(1) 2(1) 3(1) 4(1) ok k(4) by (simp add: alloc_array_def)
  ultimately show ?thesis using 3(4,8) 4(1,2) room_rel [OF 4(1)] by blast
qed

end

section \<open>Growing an array\<close>

text \<open>An array of rank 1 at \<open>a\<close>: length \<open>n\<close>, capacity \<open>c\<close>, elements of \<open>es\<close> bytes in the data block \<open>d\<close>.\<close>

definition vec_rep :: "heap_state \<Rightarrow> (addr \<rightharpoonup> int) \<Rightarrow> addr \<Rightarrow> addr \<Rightarrow> int \<Rightarrow> int \<Rightarrow> int \<Rightarrow> bool" where
  "vec_rep s L a d es n c \<longleftrightarrow> L a = Some 56 \<and> L d = Some (c * es) \<and> a \<noteq> d \<and> 0 < es \<and> 0 \<le> n \<and> n \<le> c \<and> 0 < c \<and>
     hmem s a = d \<and> hmem s (a + 16) = n \<and> hmem s (a + 24) = 1 \<and> hmem s (a + 32) = c \<and> hmem s (a + 40) = es"

lemma arr_rep_vec: "arr_rep s L es [n] a bs \<Longrightarrow> 0 < n \<Longrightarrow> 0 < es \<Longrightarrow> \<exists>d. bs = [a, d] \<and> vec_rep s L a d es n n"
  by (auto simp: arr_rep.simps arr_head_def vec_rep_def)

text \<open>The first \<open>k\<close> bytes at \<open>d'\<close> in \<open>s'\<close> are those at \<open>d\<close> in \<open>s\<close>.\<close>

definition same_data :: "heap_state \<Rightarrow> addr \<Rightarrow> heap_state \<Rightarrow> addr \<Rightarrow> int \<Rightarrow> bool" where
  "same_data s d s' d' k \<longleftrightarrow> (\<forall>i. 0 \<le> i \<longrightarrow> i < k \<longrightarrow> hmem s' (d' + i) = hmem s (d + i) \<and> hbytes s' (d' + i) = hbytes s (d + i))"

lemma same_data_trans: "same_data s d s1 d1 k \<Longrightarrow> same_data s1 d1 s2 d2 j \<Longrightarrow> k \<le> j \<Longrightarrow> same_data s d s2 d2 k"
  by (simp add: same_data_def)

lemma same_data_frame: "frame B L s L' s' \<Longrightarrow> L d = Some k \<Longrightarrow> d \<notin> B \<Longrightarrow> j \<le> k \<Longrightarrow> same_data s d s' d j"
  by (simp add: same_data_def frameD)

context roomy_allocator
begin

lemma extend_in_place:
  assumes i: "inv s L" and v: "vec_rep s L a d es n c" and a0: "a \<noteq> NULL" and n: "n < c"
  shows "\<exists>s'. extend_array alloc rel a s = Some s' \<and> inv s' L \<and> vec_rep s' L a d es (n + 1) c \<and> same_data s d s' d (n * es) \<and>
     frame {a} L s L s' \<and> (\<forall>k. room s' k = room s k)"
proof -
  let ?s = "poke (a + 16) (n + 1) s"
  have La: "L a = Some 56" "L d = Some (c * es)" "a \<noteq> d" "0 < es" using v by (simp_all add: vec_rep_def)
  have f: "inv ?s L" "frame {a} L s L ?s" using poke_frame [OF i La(1), of 16 "n + 1"] by simp_all
  have "same_data s d ?s d (n * es)" by (rule same_data_frame [OF f(2) La(2)]) (use La n in auto)
  moreover have "extend_array alloc rel a s = Some ?s" using v n a0 by (simp add: extend_array_def vec_rep_def)
  moreover have "vec_rep ?s L a d es (n + 1) c" using v n by (simp add: vec_rep_def)
  ultimately show ?thesis using f by simp
qed

lemma extend_grow:
  assumes i: "inv s L" and v: "vec_rep s L a d es c c" and sz: "c * es < 2 ^ 38" "c < 2 ^ 38" "releasable (c * es)" and r: "room s (Suc m)"
    and a0: "a \<noteq> NULL"
  shows "\<exists>s' L' d'. extend_array alloc rel a s = Some s' \<and> inv s' L' \<and> vec_rep s' L' a d' es (c + 1) (2 * c) \<and>
     same_data s d s' d' (c * es) \<and> frame {a, d} L s L' s' \<and> room s' m \<and> L d' = None"
proof -
  have La: "L a = Some 56" "L d = Some (c * es)" "a \<noteq> d" "0 < es" "0 < c" using v by (simp_all add: vec_rep_def)
  let ?s1 = "poke (a + 32) (2 * c) (poke (a + 16) (c + 1) s)"
  define k where "k = 2 * c * es"
  have k: "0 < k" "k < 2 ^ 40" "c * es \<le> k" "es \<le> c * es" using La sz mult_right_mono [of 1 c es] by (simp_all add: k_def)
  have es: "es < 2 ^ 64" using k(4) sz(1) by simp
  have f1: "inv ?s1 L \<and> frame {a} L s L ?s1" by (rule write_frame [OF i La(1)]) (auto simp: poke_def)
  obtain d' s2 where 2: "alloc k ?s1 = Some (d', s2)" "room s2 m" using room_alloc [OF f1 [THEN conjunct1] _ k(1,2), of m] r by auto
  define L2 where "L2 = L(d' \<mapsto> k)"
  note f2 = alloc_frame [OF f1 [THEN conjunct1] k(1,2) 2(1), folded L2_def]
  have L2: "L2 d' = Some k" "L2 a = Some 56" "L2 d = Some (c * es)" "d' \<noteq> a" "d' \<noteq> d" using La f2(2) by (auto simp: L2_def)
  let ?s3 = "memcpy d' d (c * es) s2"
  have f3: "inv ?s3 L2" "frame {d'} L2 s2 L2 ?s3" using memcpy_frame [OF f2(1) L2(1), of 0 "c * es" d] k(3) by simp_all
  define L5 where "L5 = L2(d := None)"
  obtain s4 where 4: "rel d ?s3 = Some s4" "inv s4 L5" "frame {d} L2 ?s3 L5 s4" by (rule rel_frame [OF f3(1) L2(3) sz(3), folded L5_def])
  let ?s5 = "poke a d' s4"
  have La5: "L5 a = Some 56" "L5 d' = Some k" using L2 La(3) by (simp_all add: L5_def)
  have f5: "inv ?s5 L5" "frame {a} L5 s4 L5 ?s5" using poke_frame [OF 4(2) La5(1), of 0 d'] by simp_all
  have hd: "hmem s4 (a + j) = hmem ?s1 (a + j)" "hmem s2 (a + j) = hmem ?s1 (a + j)" "hmem ?s3 (a + j) = hmem ?s1 (a + j)" if "0 \<le> j" "j < 56" for j
    using frameD(2) [OF f2(3) La(1)] frameD(2) [OF f3(2) L2(2)] frameD(2) [OF 4(3) L2(2)] L2(4) La(3) that by simp_all
  note hd' = hd [of 0] hd [of 16] hd [of 24] hd [of 32] hd [of 40]
  have h: "hmem s a = d" "hmem s (a + 16) = c" "hmem s (a + 24) = 1" "hmem s (a + 32) = c" "hmem s (a + 40) = es" using v by (simp_all add: vec_rep_def)
  have sz': "size_t (size_t (2 * c) * size_t es) = k" "size_t (c * es) = c * es" "k \<noteq> 0"
    using La k es sz unfolding k_def by (simp_all add: size_t_id)
  have e: "extend_array alloc rel a s = Some ?s5"
    using 2(1) 4(1) a0 hd' h La(5) sz' by (simp add: extend_array_def k_def mult.commute [of c 2] del: memcpy_simps)
  have vr: "vec_rep ?s5 L5 a d' es (c + 1) (2 * c)" using hd' h La La5 L2 k_def by (simp add: vec_rep_def)
  have "same_data s d s2 d (c * es)"
    by (rule same_data_trans [where j = "c * es", OF same_data_frame [OF f1 [THEN conjunct2] La(2)] same_data_frame [OF f2(3) La(2)]]) (use La in simp_all)
  moreover have "same_data s2 d ?s3 d' (c * es)" by (simp add: same_data_def copy_region_def)
  moreover have "same_data ?s3 d' ?s5 d' (c * es)"
    by (rule same_data_trans [where j = "c * es", OF same_data_frame [OF 4(3) L2(1)] same_data_frame [OF f5(2)]]) (use L2 La5 k in simp_all)
  ultimately have sd: "same_data s d ?s5 d' (c * es)" using same_data_trans by blast
  have "frame ({a} \<union> {} \<union> {d'} \<union> {d} \<union> {a}) L s L5 ?s5" by (rule frame_trans f1 [THEN conjunct2] f2(3) f3(2) 4(3) f5(2))+
  then have "frame {a, d} L s L5 ?s5" by (rule frame_drop) (use f2(2) in auto)
  then show ?thesis using e f5(1) vr sd 2(2) f2(2) room_rel [OF 4(1)] by (intro exI [of _ ?s5] exI [of _ L5] exI [of _ d']) simp
qed

end

text \<open>Any number of extensions: the old elements stay and the capacity is at most twice the length.\<close>

fun extend_times :: "alloc_fun \<Rightarrow> release_fun \<Rightarrow> nat \<Rightarrow> addr \<Rightarrow> heap_state \<Rightarrow> heap_state option" where
  "extend_times al rl 0 a s = Some s"
| "extend_times al rl (Suc k) a s = do { s \<leftarrow> extend_times al rl k a s; extend_array al rl a s }"

context roomy_allocator
begin

lemma extend_total:
  assumes i: "inv s L" and v: "vec_rep s L a d es n c" and sz: "2 * (n + 1) * es \<le> 131024" "c \<le> 2 * n" and r: "room s (Suc m)"
  shows "\<exists>s' L' d' c'. extend_array alloc rel a s = Some s' \<and> inv s' L' \<and> vec_rep s' L' a d' es (n + 1) c' \<and> c' \<le> 2 * (n + 1) \<and>
     same_data s d s' d' (n * es) \<and> frame {a, d} L s L' s' \<and> room s' m \<and> (L d' = None \<or> d' = d)"
proof -
  have a0: "a \<noteq> NULL" using block_law [OF i, of a 56] v by (auto simp: vec_rep_def)
  have b: "0 < es" "0 \<le> n" "n \<le> c" "0 < c" using v by (simp_all add: vec_rep_def)
  show ?thesis
  proof (cases "n < c")
    case True
    obtain s' where s': "extend_array alloc rel a s = Some s'" "inv s' L" "vec_rep s' L a d es (n + 1) c" "same_data s d s' d (n * es)"
      "frame {a} L s L s'" "\<And>k. room s' k = room s k" using extend_in_place [OF i v a0 True] by blast
    have "frame {a, d} L s L s'" using s'(5) by (rule frame_drop) simp
    then show ?thesis using s' sz(2) room_less [OF r, of m]
      by (intro exI [of _ s'] exI [of _ L] exI [of _ d] exI [of _ c]) simp
  next
    case False
    then have nc: "n = c" using b(3) by simp
    have k: "c * es \<le> 131024" "c \<le> c * es" using sz b nc mult_left_mono [of 1 es c] by (simp_all add: distrib_right)
    obtain s' L' d' where s': "extend_array alloc rel a s = Some s'" "inv s' L'" "vec_rep s' L' a d' es (c + 1) (2 * c)" "same_data s d s' d' (c * es)"
      "frame {a, d} L s L' s'" "room s' m" "L d' = None"
      using extend_grow [OF i v [unfolded nc] _ _ _ r a0] k by (auto simp: releasable_def)
    then show ?thesis unfolding nc by (intro exI [of _ s'] exI [of _ L'] exI [of _ d'] exI [of _ "2 * c"]) simp
  qed
qed

lemma extend_times_total:
  assumes i: "inv s L" and v: "vec_rep s L a d es n c" and c: "c \<le> 2 * n"
  shows "2 * (n + int k) * es \<le> 131024 \<Longrightarrow> room s (k + m) \<Longrightarrow>
    \<exists>s' L' d' c'. extend_times alloc rel k a s = Some s' \<and> inv s' L' \<and> vec_rep s' L' a d' es (n + int k) c' \<and> c' \<le> 2 * (n + int k) \<and>
      same_data s d s' d' (n * es) \<and> frame {a, d} L s L' s' \<and> room s' m \<and> (L d' = None \<or> d' = d)"
proof (induction k arbitrary: m)
  case 0
  then show ?case using i v c by (intro exI [of _ s] exI [of _ L] exI [of _ d] exI [of _ c]) (simp add: same_data_def frame_refl)
next
  case (Suc k)
  have b: "0 < es" "0 \<le> n" using v by (simp_all add: vec_rep_def)
  have k: "2 * (n + int k) * es \<le> 131024" using Suc.prems(1) b by (simp add: algebra_simps)
  obtain s1 L1 d1 c1 where 1: "extend_times alloc rel k a s = Some s1" "inv s1 L1" "vec_rep s1 L1 a d1 es (n + int k) c1" "c1 \<le> 2 * (n + int k)"
    "same_data s d s1 d1 (n * es)" "frame {a, d} L s L1 s1" "room s1 (Suc m)" "L d1 = None \<or> d1 = d"
    using Suc.IH [OF k, of "Suc m"] Suc.prems(2) by auto
  obtain s2 L2 d2 c2 where 2: "extend_array alloc rel a s1 = Some s2" "inv s2 L2" "vec_rep s2 L2 a d2 es (n + int k + 1) c2"
    "c2 \<le> 2 * (n + int k + 1)" "same_data s1 d1 s2 d2 ((n + int k) * es)" "frame {a, d1} L1 s1 L2 s2" "room s2 m" "L1 d2 = None \<or> d2 = d1"
    using extend_total [OF 1(2,3) _ 1(4,7)] Suc.prems(1) by (auto simp: algebra_simps)
  have "same_data s d s2 d2 (n * es)" by (rule same_data_trans [OF 1(5) 2(5)]) (use b in \<open>simp add: mult_right_mono\<close>)
  moreover have fr: "frame {a, d} L s L2 s2" using frame_trans [OF 1(6) 2(6)] by (rule frame_drop) (use 1(8) in auto)
  moreover have "L d2 = None \<or> d2 = d"
  proof (rule ccontr)
    assume "\<not> ?thesis"
    then obtain j where j: "L d2 = Some j" "d2 \<noteq> d" by auto
    have "d2 \<noteq> a" using 2(3) by (auto simp: vec_rep_def)
    then have "L1 d2 = Some j" using frameD(1) [OF 1(6) j(1)] j(2) by simp
    then show False using 2(8) 1(8) j by auto
  qed
  moreover have "n + int k + 1 = n + int (Suc k)" "extend_times alloc rel (Suc k) a s = Some s2" using 1(1) 2(1) by simp_all
  ultimately show ?case using 2(2-4,7) by metis
qed

end

section \<open>Jagged arrays\<close>

context allocator
begin

lemma set_subarray_frame:
  assumes i: "inv s L" and h: "arr_head s L es n ds a d" and ds: "ds \<noteq> []" and j: "0 \<le> j" "j < n"
  shows "\<exists>s'. set_subarray a j p s = s' \<and> inv s' L \<and> frame {d} L s L s' \<and> arr_head s' L es n ds a d \<and> get_subarray a j s' = p \<and>
    (\<forall>i. i \<noteq> j \<longrightarrow> get_subarray a i s' = get_subarray a i s)"
proof -
  note hd = arr_headD [OF h]
  have a0: "a \<noteq> NULL" using block_law [OF i hd(1)] by simp
  have r: "hmem s (a + 24) > 1" using h ds by (cases ds) (simp_all add: arr_head_def)
  let ?s = "poke (d + 8 * j) p s"
  have e: "set_subarray a j p s = ?s" using a0 r hd(4,5) j by (simp add: set_subarray_def)
  have f: "inv ?s L" "frame {d} L s L ?s" using poke_frame [OF i hd(2), of "8 * j" p] j ds by simp_all
  have c: "hmem ?s (a + x) = hmem s (a + x)" if "0 \<le> x" "x < 48 + 8 * int (length (n # ds))" for x
    using frameD(2) [OF f(2) hd(1), of x] hd(3) that by simp
  have "hmem ?s (a + 48 + 8 * int x) = hmem s (a + 48 + 8 * int x)" if "x < length (n # ds)" for x
    using c [of "48 + 8 * int x"] that by (simp add: add.assoc)
  then have h': "arr_head ?s L es n ds a d" using h c [of 0] c [of 8] c [of 16] c [of 24] c [of 32] c [of 40] by (simp add: arr_head_def)
  have g: "get_subarray a x ?s = (if x = j then p else get_subarray a x s)" for x
    using a0 r j hd(4,5) c [of 0] c [of 16] c [of 24] by (simp add: get_subarray_def)
  show ?thesis using e f h' g by (intro exI [of _ ?s]) (simp add: del: poke_simps)
qed

end

lemma get_subarray_rep:
  assumes "arr_rep s L es (n # ds) a bs" "ds \<noteq> []" "0 \<le> j" "j < n" "a \<noteq> NULL"
  shows "\<exists>bs'. arr_rep s L es ds (get_subarray a j s) bs' \<and> set bs' \<subseteq> set bs"
proof -
  obtain d bss where r: "bs = a # d # concat bss" "arr_head s L es n ds a d" "length bss = nat n"
    "\<And>i. i < nat n \<Longrightarrow> arr_rep s L es ds (hmem s (d + 8 * int i)) (bss ! i)" using assms(1,2) by (auto simp: arr_rep.simps)
  have "get_subarray a j s = hmem s (d + 8 * int (nat j))"
    using r(2) assms(2-5) by (cases ds) (simp_all add: get_subarray_def arr_head_def)
  moreover have "set (bss ! nat j) \<subseteq> set bs" using nth_mem [of "nat j" bss] r(1,3) assms(3,4) by auto
  ultimately show ?thesis using r(4) [of "nat j"] assms(3,4) by auto
qed

lemma subarray_out_of_range:
  assumes "arr_head s L es n ds a d" "j < 0 \<or> n \<le> j"
  shows "get_subarray a j s = NULL" "set_subarray a j p s = s"
  using assms by (auto simp: get_subarray_def set_subarray_def arr_head_def)

end
