(* ===== verification/ArrayProps.thy ===== *)
theory ArrayProps
  imports Array AllocProps
begin

text \<open>
  Properties of the arrays on the arena allocator: allocation of an array of any rank, growth, and
  access to the sub-arrays.
\<close>

text \<open>
  \<open>__public__alloc_array\<close> with the dimensions \<open>ds\<close> returns a complete array of this shape: every
  header has its shape, length, capacity and element size, every element is zero, all headers and data
  blocks of the array are pairwise different and new, and these are the only blocks added (the
  temporary dimension array is released). All other blocks keep their contents.
\<close>

theorem alloc_array_shape:
  assumes "runtime_heap os s L" "ds \<noteq> []" "length ds \<le> 16000" "dims_ok es ds" "os_room os s (1 + array_allocs ds)"
  shows "\<exists>a s' L' bs. alloc_array (allocate os) (release os) es (int (length ds)) ds s = Some (a, s') \<and> runtime_heap os s' L' \<and>
    arr_rep s' L' es ds a bs \<and> distinct bs \<and> set bs \<inter> dom L = {} \<and> dom L' = dom L \<union> set bs \<and> frame {} L s L' s'"
  using ra.alloc_array_total [OF assms(1,4,2,3), of 0] assms(5) by auto

theorem alloc_array_shape_witness:
  "\<exists>s a s' L' bs. os_room demo_os s 15 \<and> alloc_array (allocate demo_os) (release demo_os) 8 (int (length [2, 3::int])) [2, 3] s = Some (a, s') \<and>
    arr_rep s' L' 8 [2, 3] a bs"
proof -
  obtain s where s: "runtime_heap demo_os s Map.empty" "os_room demo_os s 15" by (rule demo_heap)
  have r: "os_room demo_os s (1 + array_allocs [2, 3])" using ra.room_less [OF s(2), of 7] by simp
  have d: "[2, 3 :: int] \<noteq> []" "length [2, 3 :: int] \<le> 16000" "dims_ok 8 [2, 3]" by (simp_all add: dims_ok_def)
  show ?thesis using alloc_array_shape [OF s(1) d r] s(2) by blast
qed

text \<open>
  C10: A rank-1 array grows by \<open>k\<close> calls of \<open>__public__extend_array\<close>, as long as twice the final size of its elements is
  at most 131024 bytes (so that the outgrown blocks can be released) and the system has memory: each call returns, the
  length grows by one, the capacity stays at most twice the length, the elements present before keep
  their contents, and no block but the header and the old data block is touched.
\<close>

theorem extend_array_grows:
  assumes "runtime_heap os s L" "vec_rep s L a d es n c" "c \<le> 2 * n" "2 * (n + int k) * es \<le> 131024" "os_room os s k"
  shows "\<exists>s' L' d' c'. extend_times (allocate os) (release os) k a s = Some s' \<and> runtime_heap os s' L' \<and>
    vec_rep s' L' a d' es (n + int k) c' \<and> c' \<le> 2 * (n + int k) \<and> array_len a s' = array_len a s + int k \<and>
    same_data s d s' d' (n * es) \<and> frame {a, d} L s L' s'"
proof -
  obtain s' L' d' c' where s': "extend_times (allocate os) (release os) k a s = Some s'" "runtime_heap os s' L'"
    "vec_rep s' L' a d' es (n + int k) c'" "c' \<le> 2 * (n + int k)" "same_data s d s' d' (n * es)" "frame {a, d} L s L' s'"
    using ra.extend_times_total [OF assms(1-4), of 0] assms(5) by auto
  moreover have "array_len a s' = array_len a s + int k" using assms(2) s'(3) by (simp add: array_len_def vec_rep_def)
  ultimately show ?thesis by blast
qed

theorem extend_array_grows_witness:
  "\<exists>s L a d s' L' d' c'. vec_rep s L a d 4 2 2 \<and> extend_times (allocate demo_os) (release demo_os) 3 a s = Some s' \<and>
    vec_rep s' L' a d' 4 5 c' \<and> c' \<le> 10 \<and> same_data s d s' d' 8"
proof -
  obtain s0 where s0: "runtime_heap demo_os s0 Map.empty" "os_room demo_os s0 15" by (rule demo_heap)
  have ok: "dims_ok 4 [2]" by (simp add: dims_ok_def)
  have r0: "os_room demo_os s0 (1 + array_allocs [2] + 12)" using s0(2) by simp
  obtain a s L bs where s: "runtime_heap demo_os s L" "arr_rep s L 4 [2] a bs" "os_room demo_os s 12"
    using ra.alloc_array_total [OF s0(1) ok _ _ r0] by auto
  obtain d where d: "vec_rep s L a d 4 2 2" using arr_rep_vec [OF s(2)] by auto
  have r: "os_room demo_os s 3" using ra.room_less [OF s(3), of 3] by simp
  show ?thesis using extend_array_grows [OF s(1) d _ _ r] d by fastforce
qed

text \<open>
  In an array of rank above 1, storing a sub-array and reading it back gives the stored pointer,
  leaves every other index and the header as they were, and touches only the data block. Out of range,
  reading gives \<open>NULL\<close> and storing does nothing.
\<close>

theorem subarray_roundtrip:
  assumes "runtime_heap os s L" "arr_head s L es n ds a d" "ds \<noteq> []"
  shows "(if 0 \<le> j \<and> j < n
      then \<exists>s'. set_subarray a j p s = s' \<and> runtime_heap os s' L \<and> frame {d} L s L s' \<and> arr_head s' L es n ds a d \<and>
        get_subarray a j s' = p \<and> (\<forall>i. i \<noteq> j \<longrightarrow> get_subarray a i s' = get_subarray a i s)
      else get_subarray a j s = NULL \<and> set_subarray a j p s = s)"
proof (cases "0 \<le> j \<and> j < n")
  case True
  then show ?thesis using al.set_subarray_frame [OF assms] by simp
next
  case False
  then have "j < 0 \<or> n \<le> j" by auto
  note out = subarray_out_of_range [OF assms(2) this]
  show ?thesis using False by (simp only: if_False out simp_thms)
qed

theorem subarray_roundtrip_witness:
  "\<exists>s L a d. arr_head s L 8 2 [3] a d \<and> get_subarray a 1 (set_subarray a 1 4096 s) = 4096 \<and> get_subarray a 2 s = NULL"
proof -
  obtain s0 where s0: "runtime_heap demo_os s0 Map.empty" "os_room demo_os s0 15" by (rule demo_heap)
  have ok: "dims_ok 8 [2, 3]" by (simp add: dims_ok_def)
  have r0: "os_room demo_os s0 (1 + array_allocs [2, 3] + 8)" using s0(2) by simp
  obtain a s L bs where s: "runtime_heap demo_os s L" "arr_rep s L 8 [2, 3] a bs"
    using ra.alloc_array_total [OF s0(1) ok _ _ r0] by auto
  obtain d where d: "arr_head s L 8 2 [3] a d" using s(2) by (subst (asm) arr_rep.simps) auto
  show ?thesis using subarray_roundtrip [OF s(1) d, of 1 4096] subarray_roundtrip [OF s(1) d, of 2 4096] d by auto
qed

end
