(* ===== verification/Tasks.thy ===== *)
theory Tasks
  imports Prelude "HOL-Library.Multiset"
begin

text \<open>
  Tasks that share one object, interleaved step by step. A step function gives, for a task, the shared
  object and the task's program counter, the possible next values of both; it gives no value while the
  task is blocked. Between two atomic accesses of the code there is a program point, so that every
  interleaving of the code on several scheduler threads is an interleaving of steps.

  \<open>task_yield\<close> (\<^verbatim>\<open>src/runtime/src/scheduler.c\<close>) switches to the scheduler thread, which runs the task again
  only when it pops it from its ready queue. A yielded task is therefore asleep until some other task
  pushes it on its ready queue. The model keeps the ready queues of all threads as one list from which
  any task may be resumed, which includes every choice of the schedulers. The wait queues hold tasks in
  FIFO order (the property of the run queue).
\<close>

type_synonym tid = nat
type_synonym ('o, 'p) config = "'o \<times> (tid \<Rightarrow> 'p)"
type_synonym ('o, 'p) steps = "tid \<Rightarrow> 'o \<Rightarrow> 'p \<Rightarrow> ('o \<times> 'p) list"

inductive reach :: "('o, 'p) steps \<Rightarrow> ('o, 'p) config \<Rightarrow> nat \<Rightarrow> ('o, 'p) config \<Rightarrow> bool" for step c where
  start: "reach step c 0 c"
| move: "reach step c n (ob, pc) \<Longrightarrow> (ob', p') \<in> set (step t ob (pc t)) \<Longrightarrow> reach step c (Suc n) (ob', pc(t := p'))"

text \<open>A schedule given by tasks and the chosen outcomes, to evaluate concrete runs.\<close>

fun run :: "('o, 'p) steps \<Rightarrow> (tid \<times> nat) list \<Rightarrow> ('o, 'p) config \<Rightarrow> ('o, 'p) config option" where
  "run step [] c = Some c"
| "run step ((t, k) # ts) (ob, pc) =
     (let out = step t ob (pc t) in
      if k < length out then run step ts (fst (out ! k), pc(t := snd (out ! k))) else None)"

lemma reach_trans: "reach step b m c \<Longrightarrow> reach step a n b \<Longrightarrow> reach step a (n + m) c"
  by (induction rule: reach.induct) (auto intro: reach.intros)

lemma run_reach: "run step ts c = Some c' \<Longrightarrow> reach step a n c \<Longrightarrow> reach step a (n + length ts) c'"
proof (induction ts arbitrary: c n)
  case (Cons x ts)
  obtain ob pc t k where c: "c = (ob, pc)" "x = (t, k)" by (metis surj_pair)
  let ?o = "step t ob (pc t) ! k"
  have k: "k < length (step t ob (pc t))" "run step ts (fst ?o, pc(t := snd ?o)) = Some c'"
    using Cons.prems(1) c by (auto simp: Let_def split: if_splits)
  have "(fst ?o, snd ?o) \<in> set (step t ob (pc t))" using k(1) by simp
  then have "reach step a (Suc n) (fst ?o, pc(t := snd ?o))" using Cons.prems(2) c by (auto intro: reach.move)
  then show ?case using Cons.IH [OF k(2), of "Suc n"] by simp
qed simp

lemma run_other: "run step ts c = Some c' \<Longrightarrow> u \<notin> fst ` set ts \<Longrightarrow> snd c' u = snd c u"
proof (induction ts arbitrary: c)
  case (Cons x ts)
  obtain ob pc t k where c: "c = (ob, pc)" "x = (t, k)" by (metis surj_pair)
  let ?o = "step t ob (pc t) ! k"
  have "run step ts (fst ?o, pc(t := snd ?o)) = Some c'" using Cons.prems(1) c by (auto simp: Let_def split: if_splits)
  then have "snd c' u = snd (fst ?o, pc(t := snd ?o)) u" using Cons.IH Cons.prems(2) by simp
  then show ?case using Cons.prems(2) c by simp
qed simp

text \<open>An invariant of a shared object.\<close>

locale sync_object =
  fixes step :: "('o, 'p) steps" and init :: "('o, 'p) config" and Inv :: "'o \<Rightarrow> (tid \<Rightarrow> 'p) \<Rightarrow> bool"
  assumes Inv_init: "Inv (fst init) (snd init)"
    and Inv_step: "Inv ob pc \<Longrightarrow> (ob', p') \<in> set (step t ob (pc t)) \<Longrightarrow> Inv ob' (pc(t := p'))"
begin

lemma reach_Inv: "reach step init n c \<Longrightarrow> Inv (fst c) (snd c)"
  by (induction rule: reach.induct) (simp_all only: fst_conv snd_conv Inv_init Inv_step)

end

section \<open>Updating the program counter of one task\<close>

lemma ex_upd: "\<exists>u. P (pc u) \<Longrightarrow> (P (pc t) \<Longrightarrow> P p') \<Longrightarrow> \<exists>u. P ((pc(t := p')) u)"
  by (metis fun_upd_apply)

lemma ex_upd_self: "P p' \<Longrightarrow> \<exists>u. P ((pc(t := p')) u)"
  by (metis fun_upd_same)

text \<open>
  A \<open>pthread\<close> mutex is owned by the task at a program point inside it; there is at most one.
\<close>

definition lock_inv :: "('p \<Rightarrow> bool) \<Rightarrow> tid option \<Rightarrow> (tid \<Rightarrow> 'p) \<Rightarrow> bool" where
  "lock_inv I l pc \<longleftrightarrow> (\<forall>t. l = Some t \<longleftrightarrow> I (pc t))"

lemma lock_step:
  assumes "lock_inv I l pc" "l' = l \<and> I p' = I (pc t) \<or> l = None \<and> l' = Some t \<and> I p' \<or> l' = None \<and> I (pc t) \<and> \<not> I p'"
  shows "lock_inv I l' (pc(t := p'))"
  using assms unfolding lock_inv_def by (metis fun_upd_apply option.inject option.distinct(1))

lemma lock_owner: "lock_inv I l pc \<Longrightarrow> I (pc t) \<Longrightarrow> l = Some t"
  by (simp add: lock_inv_def)

lemma lock_owner': "lock_inv I l pc \<Longrightarrow> l = Some t \<Longrightarrow> I (pc t)"
  unfolding lock_inv_def by blast

lemma lock_unique: "lock_inv I l pc \<Longrightarrow> I (pc t) \<Longrightarrow> I (pc u) \<Longrightarrow> t = u"
  unfolding lock_inv_def by (metis option.inject)

lemma lock_free: "lock_inv I None pc \<Longrightarrow> \<not> I (pc t)"
  by (simp add: lock_inv_def)

text \<open>
  A task in a queue is at a program point where it waits, and it is in exactly one queue. While a
  waking task moves another one from queue to queue, that one is pending: the owner of the lock holds
  it in a variable.
\<close>

definition queue_inv :: "('p \<Rightarrow> bool) \<Rightarrow> tid list \<Rightarrow> (tid \<Rightarrow> 'p) \<Rightarrow> bool" where
  "queue_inv Q l pc \<longleftrightarrow> distinct l \<and> (\<forall>t. t \<in> set l \<longleftrightarrow> Q (pc t))"

definition pending :: "('p \<Rightarrow> tid list) \<Rightarrow> tid option \<Rightarrow> (tid \<Rightarrow> 'p) \<Rightarrow> tid list" where
  "pending W l pc = (case l of None \<Rightarrow> [] | Some u \<Rightarrow> W (pc u))"

lemma pending_simps [simp]: "pending W None pc = []" "pending W (Some t) (pc(t := p')) = W p'"
  by (simp_all add: pending_def)

lemma pending_own: "lock_inv I l pc \<Longrightarrow> I (pc t) \<Longrightarrow> pending W l pc = W (pc t)"
  using lock_owner [of I l pc t] by (simp add: pending_def)

lemma pending_other: "lock_inv I l pc \<Longrightarrow> \<not> I (pc t) \<Longrightarrow> pending W l (pc(t := p')) = pending W l pc"
  using lock_owner' [of I l pc] by (cases l) (auto simp: pending_def)

lemma queue_step:
  assumes q: "queue_inv Q l pc"
    and c: "mset l' = mset l \<and> Q p' = Q (pc t) \<or> mset l' = mset (t # l) \<and> \<not> Q (pc t) \<and> Q p' \<or>
      mset l = mset (t # l') \<and> Q (pc t) \<and> \<not> Q p'"
  shows "queue_inv Q l' (pc(t := p'))"
proof -
  have d: "distinct l" and s: "\<And>u. u \<in> set l \<longleftrightarrow> Q (pc u)" using q by (simp_all add: queue_inv_def)
  consider "mset l' = mset l" "Q p' = Q (pc t)" | "mset l' = mset (t # l)" "\<not> Q (pc t)" "Q p'"
    | "mset l = mset (t # l')" "Q (pc t)" "\<not> Q p'" using c by blast
  then show ?thesis
  proof cases
    case 1
    have "distinct l' = distinct l" "set l' = set l" using mset_eq_imp_distinct_iff [OF 1(1)] mset_eq_setD [OF 1(1)] by simp_all
    then show ?thesis using 1 d s by (simp add: queue_inv_def)
  next
    case 2
    have "distinct l' = distinct (t # l)" "set l' = set (t # l)" using mset_eq_imp_distinct_iff [OF 2(1)] mset_eq_setD [OF 2(1)] by simp_all
    then show ?thesis using 2 d s by (auto simp: queue_inv_def)
  next
    case 3
    have "distinct l = distinct (t # l')" and l: "set l = set (t # l')" using mset_eq_imp_distinct_iff [OF 3(1)] mset_eq_setD [OF 3(1)] by simp_all
    then have "distinct l'" "t \<notin> set l'" using d by simp_all
    then have "u \<in> set l' \<longleftrightarrow> u \<in> set l \<and> u \<noteq> t" for u using l by auto
    then show ?thesis using \<open>distinct l'\<close> 3(3) s by (simp add: queue_inv_def)
  qed
qed

section \<open>The I/O fields of a task\<close>

text \<open>
  The operation of a network request and the part \<open>io\<close> of a task (\<^verbatim>\<open>src/runtime/headers/task.h\<close>). The
  socket address fields are never read.
\<close>

datatype netio_op_t = IO_LISTEN | IO_ACCEPT | IO_READ | IO_WRITE | IO_CONNECT

record io_metadata_t =
  io_fd :: int
  io_buf :: int
  req_n :: int
  done_n :: int
  io_offset :: int
  io_err :: int
  io_done :: bool
  io_op :: netio_op_t

text \<open>Fields an initialiser does not name are zero.\<close>

definition io_zero :: io_metadata_t where
  "io_zero = \<lparr>io_fd = 0, io_buf = 0, req_n = 0, done_n = 0, io_offset = 0, io_err = 0, io_done = False, io_op = IO_LISTEN\<rparr>"

end
