(* ===== verification/Mutex.thy ===== *)
theory Mutex
  imports Tasks
begin

text \<open>
  The mutex of \<^verbatim>\<open>src/runtime/src/sync.c\<close>: \<open>__public__sync_mutex_lock\<close> with its lock-free fast path and its slow
  path under the internal \<open>pthread\<close> lock, and \<open>__public__sync_mutex_unlock\<close>. A client task locks, and
  unlocks only what it holds.
\<close>

section \<open>The code\<close>

record mutex_t =
  m_state :: int
  m_lock :: "tid option"
  m_waiters :: "tid list"
  m_ready :: "tid list"

definition mutex_create :: mutex_t where
  "mutex_create = \<lparr>m_state = 0, m_lock = None, m_waiters = [], m_ready = []\<rparr>"

text \<open>
  The program points: of the client (\<open>MIdle\<close>, \<open>MHeld\<close>), of lock (\<open>MFast\<close> to \<open>MAsleep\<close>) and of unlock
  (\<open>UEnter\<close> to \<open>ULeave\<close>).
\<close>

datatype mutex_pc = MIdle | MHeld
  | MFast | MEnter | MLoad | MStore | MTook | MPush | MQueued | MYield | MAsleep
  | UEnter | UStore | UPop | UWake tid | ULeave

fun mutex_lock :: "tid \<Rightarrow> mutex_t \<Rightarrow> mutex_pc \<Rightarrow> (mutex_t \<times> mutex_pc) list" where
  "mutex_lock t m MFast = (if m_state m = 0 then [(m\<lparr>m_state := 1\<rparr>, MHeld)] else [(m, MEnter)])"
| "mutex_lock t m MEnter = (if m_lock m = None then [(m\<lparr>m_lock := Some t\<rparr>, MLoad)] else [])"
| "mutex_lock t m MLoad = (if m_state m = 0 then [(m, MStore)] else [(m, MPush)])"
| "mutex_lock t m MStore = [(m\<lparr>m_state := 1\<rparr>, MTook)]"
| "mutex_lock t m MTook = [(m\<lparr>m_lock := None\<rparr>, MHeld)]"
| "mutex_lock t m MPush = [(m\<lparr>m_waiters := m_waiters m @ [t]\<rparr>, MQueued)]"
| "mutex_lock t m MQueued = [(m\<lparr>m_lock := None\<rparr>, MYield)]"
| "mutex_lock t m MYield = [(m, MAsleep)]"
| "mutex_lock t m MAsleep = (if t \<in> set (m_ready m) then [(m\<lparr>m_ready := remove1 t (m_ready m)\<rparr>, MEnter)] else [])"
| "mutex_lock t m _ = []"

fun mutex_unlock :: "tid \<Rightarrow> mutex_t \<Rightarrow> mutex_pc \<Rightarrow> (mutex_t \<times> mutex_pc) list" where
  "mutex_unlock t m UEnter = (if m_lock m = None then [(m\<lparr>m_lock := Some t\<rparr>, UStore)] else [])"
| "mutex_unlock t m UStore = [(m\<lparr>m_state := 0\<rparr>, UPop)]"
| "mutex_unlock t m UPop = (case m_waiters m of [] \<Rightarrow> [(m, ULeave)] | w # ws \<Rightarrow> [(m\<lparr>m_waiters := ws\<rparr>, UWake w)])"
| "mutex_unlock t m (UWake w) = [(m\<lparr>m_ready := m_ready m @ [w]\<rparr>, ULeave)]"
| "mutex_unlock t m ULeave = [(m\<lparr>m_lock := None\<rparr>, MIdle)]"
| "mutex_unlock t m _ = []"

text \<open>The client's choices, and one step of a task.\<close>

fun mutex_client :: "mutex_t \<Rightarrow> mutex_pc \<Rightarrow> (mutex_t \<times> mutex_pc) list" where
  "mutex_client m MIdle = [(m, MFast)]"
| "mutex_client m MHeld = [(m, UEnter)]"
| "mutex_client m _ = []"

definition mutex_step :: "tid \<Rightarrow> mutex_t \<Rightarrow> mutex_pc \<Rightarrow> (mutex_t \<times> mutex_pc) list" where
  "mutex_step t m p = mutex_lock t m p @ mutex_unlock t m p @ mutex_client m p"

definition mutex_start :: "(mutex_t, mutex_pc) config" where
  "mutex_start = (mutex_create, \<lambda>t. MIdle)"

section \<open>The invariant\<close>

text \<open>Points inside the internal lock, points of a holder, and points of a task in a queue.\<close>

fun m_inside :: "mutex_pc \<Rightarrow> bool" where
  "m_inside MLoad = True" | "m_inside MStore = True" | "m_inside MTook = True" | "m_inside MPush = True" | "m_inside MQueued = True"
| "m_inside UStore = True" | "m_inside UPop = True" | "m_inside (UWake w) = True" | "m_inside ULeave = True" | "m_inside _ = False"

fun m_holds :: "mutex_pc \<Rightarrow> bool" where
  "m_holds MTook = True" | "m_holds MHeld = True" | "m_holds UEnter = True" | "m_holds UStore = True" | "m_holds _ = False"

fun m_queued :: "mutex_pc \<Rightarrow> bool" where
  "m_queued MQueued = True" | "m_queued MYield = True" | "m_queued MAsleep = True" | "m_queued _ = False"

fun m_rechecks :: "mutex_pc \<Rightarrow> bool" where
  "m_rechecks MEnter = True" | "m_rechecks MLoad = True" | "m_rechecks MStore = True" | "m_rechecks UPop = True"
| "m_rechecks (UWake w) = True" | "m_rechecks _ = False"

fun m_woken :: "mutex_pc \<Rightarrow> tid list" where
  "m_woken (UWake w) = [w]" | "m_woken _ = []"

text \<open>All tasks in a queue, with the one that is being moved.\<close>

definition m_line :: "mutex_t \<Rightarrow> (tid \<Rightarrow> mutex_pc) \<Rightarrow> tid list" where
  "m_line m pc = m_waiters m @ pending m_woken (m_lock m) pc @ m_ready m"

definition m_state_inv :: "mutex_t \<Rightarrow> (tid \<Rightarrow> mutex_pc) \<Rightarrow> bool" where
  "m_state_inv m pc \<longleftrightarrow> m_state m \<in> {0, 1} \<and> (m_state m = 1 \<longrightarrow> (\<exists>t. m_holds (pc t))) \<and> (\<forall>t. pc t = MPush \<longrightarrow> m_state m = 1)"

definition m_wake_inv :: "mutex_t \<Rightarrow> (tid \<Rightarrow> mutex_pc) \<Rightarrow> bool" where
  "m_wake_inv m pc \<longleftrightarrow> (m_waiters m \<noteq> [] \<longrightarrow> m_state m = 1 \<or> m_ready m \<noteq> [] \<or> (\<exists>t. m_rechecks (pc t)))"

definition mutex_inv :: "mutex_t \<Rightarrow> (tid \<Rightarrow> mutex_pc) \<Rightarrow> bool" where
  "mutex_inv m pc \<longleftrightarrow> lock_inv m_inside (m_lock m) pc \<and> m_state_inv m pc \<and> queue_inv m_queued (m_line m pc) pc \<and> m_wake_inv m pc"

lemma mutex_step_lock:
  assumes "lock_inv m_inside (m_lock m) pc" "(m', p') \<in> set (mutex_step t m (pc t))"
  shows "lock_inv m_inside (m_lock m') (pc(t := p'))"
  by (rule lock_step [OF assms(1)])
    (use assms(2) in \<open>cases "pc t"; simp add: mutex_step_def split: if_splits list.splits\<close>)

lemma mutex_step_wake:
  assumes "m_state_inv m pc" "m_wake_inv m pc" "(m', p') \<in> set (mutex_step t m (pc t))"
  shows "m_wake_inv m' (pc(t := p'))"
proof -
  have "m_wake_inv m' (pc(t := p'))" if "m_rechecks p' \<or> m_state m' = 1 \<or> m_waiters m' = [] \<or> m_ready m' \<noteq> []"
    using that ex_upd_self [of m_rechecks p' pc t] by (auto simp: m_wake_inv_def)
  moreover have "m_wake_inv m' (pc(t := p'))" if "m_state m' = m_state m" "m_ready m' = m_ready m" "m_waiters m' = m_waiters m" "\<not> m_rechecks (pc t)"
    using assms(2) ex_upd [of m_rechecks pc t p'] unfolding m_wake_inv_def that(1-3) using that(4) by blast
  ultimately show ?thesis
    using assms(1,3) unfolding mutex_step_def m_state_inv_def
    by (cases "pc t") (simp_all split: if_splits list.splits, blast+)
qed

lemma mutex_step_state:
  assumes "lock_inv m_inside (m_lock m) pc" "m_state_inv m pc" "(m', p') \<in> set (mutex_step t m (pc t))"
  shows "m_state_inv m' (pc(t := p'))"
proof -
  have one: "m_state_inv m' (pc(t := p'))" if "m_state m' = 1" "m_holds p'"
    using that ex_upd_self [of m_holds p' pc t] by (auto simp: m_state_inv_def)
  have same: "m_state_inv m' (pc(t := p'))" if "m_state m' = m_state m" "m_holds (pc t) \<longrightarrow> m_holds p'" "p' = MPush \<longrightarrow> m_state m = 1"
    using that assms(2) ex_upd [of m_holds pc t p'] by (auto simp: m_state_inv_def)
  have zero: "m_state_inv m' (pc(t := p'))" if "pc t = UStore" "m_state m' = 0" "p' = UPop"
  proof -
    have "pc u \<noteq> MPush" for u using lock_unique [OF assms(1), of t u] that(1) by auto
    then show ?thesis using that by (simp add: m_state_inv_def)
  qed
  have "(m_state m' = 1 \<and> m_holds p') \<or> (m_state m' = m_state m \<and> (m_holds (pc t) \<longrightarrow> m_holds p') \<and> (p' = MPush \<longrightarrow> m_state m = 1)) \<or>
      (pc t = UStore \<and> m_state m' = 0 \<and> p' = UPop)"
    using assms(3) assms(2) [unfolded m_state_inv_def, THEN conjunct1]
    by (cases "pc t") (auto simp: mutex_step_def split: if_splits list.splits)
  then show ?thesis using one same zero by blast
qed

lemma mutex_step_queue:
  assumes "lock_inv m_inside (m_lock m) pc" "queue_inv m_queued (m_line m pc) pc" "(m', p') \<in> set (mutex_step t m (pc t))"
  shows "queue_inv m_queued (m_line m' (pc(t := p'))) (pc(t := p'))"
proof (rule queue_step [OF assms(2)])
  note own = pending_own [OF assms(1), of t m_woken] and other = pending_other [OF assms(1), of t m_woken p'] and lk = lock_owner [OF assms(1), of t]
  show "mset (m_line m' (pc(t := p'))) = mset (m_line m pc) \<and> m_queued p' = m_queued (pc t) \<or>
      mset (m_line m' (pc(t := p'))) = mset (t # m_line m pc) \<and> \<not> m_queued (pc t) \<and> m_queued p' \<or>
      mset (m_line m pc) = mset (t # m_line m' (pc(t := p'))) \<and> m_queued (pc t) \<and> \<not> m_queued p'"
    using assms(3) own other lk
    by (cases "pc t") (auto simp: mutex_step_def m_line_def split: if_splits list.splits)
qed

lemma mutex_start_inv: "mutex_inv (fst mutex_start) (snd mutex_start)"
  by (simp add: mutex_inv_def mutex_start_def mutex_create_def lock_inv_def m_state_inv_def queue_inv_def m_line_def m_wake_inv_def)

lemma mutex_step_inv: "mutex_inv m pc \<Longrightarrow> (m', p') \<in> set (mutex_step t m (pc t)) \<Longrightarrow> mutex_inv m' (pc(t := p'))"
  unfolding mutex_inv_def using mutex_step_lock mutex_step_state mutex_step_queue mutex_step_wake by blast

interpretation mtx: sync_object mutex_step mutex_start mutex_inv
  by unfold_locales (fact mutex_start_inv, fact mutex_step_inv)

section \<open>Progress\<close>

lemma m_inside_runs: "m_inside p \<Longrightarrow> mutex_step t m p \<noteq> []"
  by (cases p) (auto simp: mutex_step_def split: list.splits)

lemma mutex_blocked:
  "mutex_step t m p = [] \<Longrightarrow> p \<in> {MEnter, UEnter} \<and> m_lock m \<noteq> None \<or> p = MAsleep \<and> t \<notin> set (m_ready m)"
  by (cases p) (auto simp: mutex_step_def split: if_splits list.splits)

lemma mutex_progress:
  assumes inv: "mutex_inv m pc" and t0: "pc t0 \<noteq> MIdle"
  shows "\<exists>t. pc t \<noteq> MIdle \<and> mutex_step t m (pc t) \<noteq> []"
proof (rule ccontr)
  assume "\<not> ?thesis"
  then have stuck: "mutex_step t m (pc t) = []" if "pc t \<noteq> MIdle" for t using that by blast
  have lk: "lock_inv m_inside (m_lock m) pc" and q: "queue_inv m_queued (m_line m pc) pc" and w: "m_wake_inv m pc" and s: "m_state_inv m pc"
    using inv by (simp_all add: mutex_inv_def)
  have free: "m_lock m = None"
  proof (rule ccontr)
    assume "m_lock m \<noteq> None"
    then obtain u where u: "m_inside (pc u)" using lock_owner' [OF lk] by blast
    then show False using m_inside_runs [OF u, of u m] stuck [of u] by (cases "pc u") simp_all
  qed
  have asleep: "pc t = MAsleep \<and> t \<notin> set (m_ready m)" if "pc t \<noteq> MIdle" for t
    using mutex_blocked [OF stuck [OF that]] free by simp
  have line: "m_line m pc = m_waiters m @ m_ready m" by (simp add: m_line_def free)
  have idle: "pc t \<in> {MIdle, MAsleep}" for t using asleep by auto
  have "m_waiters m \<noteq> []" using q asleep [OF t0] line by (auto simp: queue_inv_def)
  moreover have "m_ready m = []"
  proof (rule ccontr)
    assume "m_ready m \<noteq> []"
    then obtain u where u: "u \<in> set (m_ready m)" by (cases "m_ready m") auto
    then have "m_queued (pc u)" using q line by (auto simp: queue_inv_def)
    then show False using asleep [of u] u by (cases "pc u") simp_all
  qed
  moreover have "\<not> m_rechecks (pc t)" "\<not> m_holds (pc t)" for t using idle [of t] by auto
  ultimately show False using w s by (auto simp: m_wake_inv_def m_state_inv_def)
qed

section \<open>Mutual exclusion\<close>

text \<open>
  The slow path reads the state and then writes it with two accesses. The internal lock keeps other slow
  paths out, but not the compare-and-swap of a fast path. The calm schedules are those in which no
  fast path succeeds while some task is inside the internal lock.
\<close>

definition mutex_step_calm :: "tid \<Rightarrow> mutex_t \<Rightarrow> mutex_pc \<Rightarrow> (mutex_t \<times> mutex_pc) list" where
  "mutex_step_calm t m p = (if p = MFast \<and> m_state m = 0 \<and> m_lock m \<noteq> None then [] else mutex_step t m p)"

definition mutex_excl :: "mutex_t \<Rightarrow> (tid \<Rightarrow> mutex_pc) \<Rightarrow> bool" where
  "mutex_excl m pc \<longleftrightarrow> lock_inv m_inside (m_lock m) pc \<and> (\<forall>t u. m_holds (pc t) \<longrightarrow> m_holds (pc u) \<longrightarrow> t = u) \<and>
     (m_state m = 0 \<longrightarrow> (\<forall>t. \<not> m_holds (pc t))) \<and> (\<forall>t. pc t = MStore \<longrightarrow> m_state m = 0)"

lemma mutex_step_excl:
  assumes i: "mutex_excl m pc" and st: "(m', p') \<in> set (mutex_step_calm t m (pc t))"
  shows "mutex_excl m' (pc(t := p'))"
proof -
  have lk: "lock_inv m_inside (m_lock m) pc" and one: "\<And>t u. m_holds (pc t) \<Longrightarrow> m_holds (pc u) \<Longrightarrow> t = u"
    and zero: "\<And>t. m_state m = 0 \<Longrightarrow> \<not> m_holds (pc t)" and ms: "\<And>t. pc t = MStore \<Longrightarrow> m_state m = 0"
    using i unfolding mutex_excl_def by blast+
  have st': "(m', p') \<in> set (mutex_step t m (pc t))" using st by (simp add: mutex_step_calm_def split: if_splits)
  note lk' = mutex_step_lock [OF lk st']
  have quiet: "pc u \<noteq> MStore" if "m_inside (pc t)" "u \<noteq> t" for u using lock_unique [OF lk that(1), of u] that(2) by auto
  have free: "pc u \<noteq> MStore" if "m_lock m = None" for u using lock_free [of m_inside pc u] lk that by auto
  consider "m_state m' = m_state m" "m_holds p' \<longrightarrow> m_holds (pc t)" "p' = MStore \<longrightarrow> m_state m = 0"
    | "m_state m = 0" "m_state m' = 1" "p' \<noteq> MStore" "\<forall>u. u \<noteq> t \<longrightarrow> pc u \<noteq> MStore"
    | "pc t = UStore" "m_state m' = 0" "p' = UPop"
    using st quiet free ms by (cases "pc t") (auto simp: mutex_step_calm_def mutex_step_def split: if_splits list.splits)
  then show ?thesis
  proof cases
    case 1
    then show ?thesis using lk' one zero ms unfolding mutex_excl_def by (metis fun_upd_apply)
  next
    case 2
    then show ?thesis using lk' zero unfolding mutex_excl_def by (metis fun_upd_apply zero_neq_one)
  next
    case 3
    then show ?thesis using lk' one [of t] unfolding mutex_excl_def by (metis fun_upd_apply m_holds.simps mutex_pc.distinct)
  qed
qed

interpretation calm: sync_object mutex_step_calm mutex_start mutex_excl
  by unfold_locales (simp add: mutex_excl_def mutex_start_def mutex_create_def lock_inv_def, fact mutex_step_excl)

end
