(* ===== verification/Rwmutex.thy ===== *)
theory Rwmutex
  imports Tasks "HOL-Library.Word"
begin

unbundle bit_operations_syntax

text \<open>
  The read-write mutex of \<^verbatim>\<open>src/runtime/src/sync.c\<close>. The state holds the writer bit and twice the number of
  readers. Clients release only what they hold.
\<close>

section \<open>The code\<close>

definition WRITER_BIT :: int where [simp]: "WRITER_BIT = 1"
definition READER_INC :: int where [simp]: "READER_INC = 2"

record rwmutex_t =
  w_state :: int
  w_lock :: "tid option"
  w_readers :: "tid list"
  w_writers :: "tid list"
  w_ready :: "tid list"

definition rwmutex_create :: rwmutex_t where
  "rwmutex_create = \<lparr>w_state = 0, w_lock = None, w_readers = [], w_writers = [], w_ready = []\<rparr>"

text \<open>
  Program points of the client, of \<open>rlock\<close> (\<open>R\<close>), \<open>runlock\<close> (\<open>Ru\<close>), \<open>rwlock\<close> (\<open>W\<close>) and \<open>rwunlock\<close> (\<open>Wu\<close>).
  \<open>RCas\<close> and \<open>WCas\<close> carry the value read before.
\<close>

datatype rw_pc = RwIdle | RHeld | WHeld
  | RLoad | REnter | RCheck | RPush | RQueued | RYield | RAsleep | RLeave | RCas int
  | RuSub | RuEnter | RuPop | RuWake tid | RuLeave
  | WLoad | WEnter | WCheck | WPush | WQueued | WYield | WAsleep | WLeave | WCas int | WDrain | WDrainYield | WDrainAsleep
  | WuEnter | WuStore | WuPop | WuWake tid | WuPopReader | WuWakeReader tid | WuLeave

text \<open>The compare-and-swap is the weak one: it may fail although the value is unchanged.\<close>

fun rwmutex_rlock :: "tid \<Rightarrow> rwmutex_t \<Rightarrow> rw_pc \<Rightarrow> (rwmutex_t \<times> rw_pc) list" where
  "rwmutex_rlock t m RLoad = (if w_state m AND WRITER_BIT \<noteq> 0 then [(m, REnter)] else [(m, RCas (w_state m))])"
| "rwmutex_rlock t m REnter = (if w_lock m = None then [(m\<lparr>w_lock := Some t\<rparr>, RCheck)] else [])"
| "rwmutex_rlock t m RCheck = (if w_state m AND WRITER_BIT \<noteq> 0 then [(m, RPush)] else [(m, RLeave)])"
| "rwmutex_rlock t m RPush = [(m\<lparr>w_readers := w_readers m @ [t]\<rparr>, RQueued)]"
| "rwmutex_rlock t m RQueued = [(m\<lparr>w_lock := None\<rparr>, RYield)]"
| "rwmutex_rlock t m RYield = [(m, RAsleep)]"
| "rwmutex_rlock t m RAsleep = (if t \<in> set (w_ready m) then [(m\<lparr>w_ready := remove1 t (w_ready m)\<rparr>, RLoad)] else [])"
| "rwmutex_rlock t m RLeave = [(m\<lparr>w_lock := None\<rparr>, RLoad)]"
| "rwmutex_rlock t m (RCas old) = (if w_state m = old then [(m\<lparr>w_state := old + READER_INC\<rparr>, RHeld), (m, RLoad)] else [(m, RLoad)])"
| "rwmutex_rlock t m _ = []"

fun rwmutex_runlock :: "tid \<Rightarrow> rwmutex_t \<Rightarrow> rw_pc \<Rightarrow> (rwmutex_t \<times> rw_pc) list" where
  "rwmutex_runlock t m RuSub = (let prev = w_state m in
     [(m\<lparr>w_state := prev - READER_INC\<rparr>, if prev - READER_INC = WRITER_BIT then RuEnter else RwIdle)])"
| "rwmutex_runlock t m RuEnter = (if w_lock m = None then [(m\<lparr>w_lock := Some t\<rparr>, RuPop)] else [])"
| "rwmutex_runlock t m RuPop = (case w_writers m of [] \<Rightarrow> [(m, RuLeave)] | w # ws \<Rightarrow> [(m\<lparr>w_writers := ws\<rparr>, RuWake w)])"
| "rwmutex_runlock t m (RuWake w) = [(m\<lparr>w_ready := w_ready m @ [w]\<rparr>, RuLeave)]"
| "rwmutex_runlock t m RuLeave = [(m\<lparr>w_lock := None\<rparr>, RwIdle)]"
| "rwmutex_runlock t m _ = []"

fun rwmutex_rwlock :: "tid \<Rightarrow> rwmutex_t \<Rightarrow> rw_pc \<Rightarrow> (rwmutex_t \<times> rw_pc) list" where
  "rwmutex_rwlock t m WLoad = (if w_state m AND WRITER_BIT \<noteq> 0 then [(m, WEnter)] else [(m, WCas (w_state m))])"
| "rwmutex_rwlock t m WEnter = (if w_lock m = None then [(m\<lparr>w_lock := Some t\<rparr>, WCheck)] else [])"
| "rwmutex_rwlock t m WCheck = (if w_state m AND WRITER_BIT \<noteq> 0 then [(m, WPush)] else [(m, WLeave)])"
| "rwmutex_rwlock t m WPush = [(m\<lparr>w_writers := w_writers m @ [t]\<rparr>, WQueued)]"
| "rwmutex_rwlock t m WQueued = [(m\<lparr>w_lock := None\<rparr>, WYield)]"
| "rwmutex_rwlock t m WYield = [(m, WAsleep)]"
| "rwmutex_rwlock t m WAsleep = (if t \<in> set (w_ready m) then [(m\<lparr>w_ready := remove1 t (w_ready m)\<rparr>, WLoad)] else [])"
| "rwmutex_rwlock t m WLeave = [(m\<lparr>w_lock := None\<rparr>, WLoad)]"
| "rwmutex_rwlock t m (WCas old) = (if w_state m = old then [(m\<lparr>w_state := old OR WRITER_BIT\<rparr>, WDrain), (m, WLoad)] else [(m, WLoad)])"
| "rwmutex_rwlock t m WDrain = (if w_state m \<noteq> WRITER_BIT then [(m, WDrainYield)] else [(m, WHeld)])"
| "rwmutex_rwlock t m WDrainYield = [(m, WDrainAsleep)]"
| "rwmutex_rwlock t m WDrainAsleep = (if t \<in> set (w_ready m) then [(m\<lparr>w_ready := remove1 t (w_ready m)\<rparr>, WDrain)] else [])"
| "rwmutex_rwlock t m _ = []"

fun rwmutex_rwunlock :: "tid \<Rightarrow> rwmutex_t \<Rightarrow> rw_pc \<Rightarrow> (rwmutex_t \<times> rw_pc) list" where
  "rwmutex_rwunlock t m WuEnter = (if w_lock m = None then [(m\<lparr>w_lock := Some t\<rparr>, WuStore)] else [])"
| "rwmutex_rwunlock t m WuStore = [(m\<lparr>w_state := 0\<rparr>, WuPop)]"
| "rwmutex_rwunlock t m WuPop = (case w_writers m of [] \<Rightarrow> [(m, WuPopReader)] | w # ws \<Rightarrow> [(m\<lparr>w_writers := ws\<rparr>, WuWake w)])"
| "rwmutex_rwunlock t m (WuWake w) = [(m\<lparr>w_ready := w_ready m @ [w]\<rparr>, WuLeave)]"
| "rwmutex_rwunlock t m WuPopReader = (case w_readers m of [] \<Rightarrow> [(m, WuLeave)] | r # rs \<Rightarrow> [(m\<lparr>w_readers := rs\<rparr>, WuWakeReader r)])"
| "rwmutex_rwunlock t m (WuWakeReader r) = [(m\<lparr>w_ready := w_ready m @ [r]\<rparr>, WuPopReader)]"
| "rwmutex_rwunlock t m WuLeave = [(m\<lparr>w_lock := None\<rparr>, RwIdle)]"
| "rwmutex_rwunlock t m _ = []"

fun rwmutex_client :: "rwmutex_t \<Rightarrow> rw_pc \<Rightarrow> (rwmutex_t \<times> rw_pc) list" where
  "rwmutex_client m RwIdle = [(m, RLoad), (m, WLoad)]"
| "rwmutex_client m RHeld = [(m, RuSub)]"
| "rwmutex_client m WHeld = [(m, WuEnter)]"
| "rwmutex_client m _ = []"

definition rwmutex_step :: "tid \<Rightarrow> rwmutex_t \<Rightarrow> rw_pc \<Rightarrow> (rwmutex_t \<times> rw_pc) list" where
  "rwmutex_step t m p = rwmutex_rlock t m p @ rwmutex_runlock t m p @ rwmutex_rwlock t m p @ rwmutex_rwunlock t m p @ rwmutex_client m p"

definition rwmutex_start :: "(rwmutex_t, rw_pc) config" where
  "rwmutex_start = (rwmutex_create, \<lambda>t. RwIdle)"

section \<open>Readers and writers\<close>

lemma writer_bit [simp]: "(x AND 1 \<noteq> 0) = odd x" "(x AND 1 = 0) = even x" for x :: int
  by (auto simp: and_one_eq odd_iff_mod_2_eq_one even_iff_mod_2_eq_zero)

lemma set_writer_bit [simp]: "even x \<Longrightarrow> x OR 1 = x + 1" for x :: int
  by (simp add: or_one_eq)

text \<open>Points of a task that counts as a reader, that owns the writer bit, and that holds for writing.\<close>

fun r_holds :: "rw_pc \<Rightarrow> bool" where
  "r_holds RHeld = True" | "r_holds RuSub = True" | "r_holds _ = False"

fun w_holds :: "rw_pc \<Rightarrow> bool" where
  "w_holds WHeld = True" | "w_holds WuEnter = True" | "w_holds WuStore = True" | "w_holds _ = False"

fun w_owns :: "rw_pc \<Rightarrow> bool" where
  "w_owns WDrain = True" | "w_owns WDrainYield = True" | "w_owns WDrainAsleep = True" | "w_owns p = w_holds p"

fun cas_even :: "rw_pc \<Rightarrow> bool" where
  "cas_even (RCas old) = even old" | "cas_even (WCas old) = even old" | "cas_even _ = True"

definition rw_inv :: "rwmutex_t \<Rightarrow> (tid \<Rightarrow> rw_pc) \<Rightarrow> bool" where
  "rw_inv m pc \<longleftrightarrow> (\<exists>R W. finite R \<and> (\<forall>t. r_holds (pc t) \<longleftrightarrow> t \<in> R) \<and> (\<forall>t. w_owns (pc t) \<longleftrightarrow> W = Some t) \<and>
     w_state m = 2 * int (card R) + (if W = None then 0 else 1) \<and> (\<forall>t. w_holds (pc t) \<longrightarrow> R = {}) \<and> (\<forall>t. cas_even (pc t)))"

lemma w_holds_owns: "w_holds p \<Longrightarrow> w_owns p"
  by (cases p) simp_all

text \<open>What a step does to the counting.\<close>

lemma rwmutex_effect:
  assumes "(m', p') \<in> set (rwmutex_step t m p)" "cas_even p"
  shows "(w_state m' = w_state m \<and> r_holds p' = r_holds p \<and> w_owns p' = w_owns p \<and> (w_holds p' \<longrightarrow> w_holds p \<or> w_state m = 1) \<and> cas_even p') \<or>
    (even (w_state m) \<and> w_state m' = w_state m + 2 \<and> p' = RHeld \<and> \<not> r_holds p \<and> \<not> w_owns p) \<or>
    (w_state m' = w_state m - 2 \<and> r_holds p \<and> \<not> w_owns p \<and> \<not> r_holds p' \<and> \<not> w_owns p' \<and> cas_even p') \<or>
    (even (w_state m) \<and> w_state m' = w_state m + 1 \<and> p' = WDrain \<and> \<not> r_holds p \<and> \<not> w_owns p) \<or>
    (w_holds p \<and> w_state m' = 0 \<and> p' = WuPop \<and> \<not> r_holds p)"
  using assms
  by (cases p) (auto simp: rwmutex_step_def Let_def split: if_splits list.splits)

lemma rw_step_inv:
  assumes i: "rw_inv m pc" and st: "(m', p') \<in> set (rwmutex_step t m (pc t))"
  shows "rw_inv m' (pc(t := p'))"
proof -
  obtain R W where R: "finite R" "\<And>t. r_holds (pc t) \<longleftrightarrow> t \<in> R" and W: "\<And>t. w_owns (pc t) \<longleftrightarrow> W = Some t"
    and s: "w_state m = 2 * int (card R) + (if W = None then 0 else 1)" and h: "\<And>t. w_holds (pc t) \<Longrightarrow> R = {}"
    and c: "\<And>t. cas_even (pc t)" using i unfolding rw_inv_def by blast
  consider (same) "w_state m' = w_state m" "r_holds p' = r_holds (pc t)" "w_owns p' = w_owns (pc t)" "w_holds p' \<longrightarrow> w_holds (pc t) \<or> w_state m = 1" "cas_even p'"
    | (share) "even (w_state m)" "w_state m' = w_state m + 2" "p' = RHeld" "\<not> r_holds (pc t)" "\<not> w_owns (pc t)"
    | (unshare) "w_state m' = w_state m - 2" "r_holds (pc t)" "\<not> w_owns (pc t)" "\<not> r_holds p'" "\<not> w_owns p'" "cas_even p'"
    | (own) "even (w_state m)" "w_state m' = w_state m + 1" "p' = WDrain" "\<not> r_holds (pc t)" "\<not> w_owns (pc t)"
    | (disown) "w_holds (pc t)" "w_state m' = 0" "p' = WuPop" "\<not> r_holds (pc t)"
    using rwmutex_effect [OF st c] by blast
  then show ?thesis
  proof cases
    case same
    have "R = {}" if "w_holds p'"
    proof (rule ccontr)
      assume "R \<noteq> {}"
      then have "w_state m \<noteq> 1" "\<not> w_holds (pc t)" using s h R(1) card_gt_0_iff [of R] by (auto split: if_splits)
      then show False using same(4) that by simp
    qed
    then show ?thesis using same R W s h c unfolding rw_inv_def by (intro exI [of _ R] exI [of _ W]) auto
  next
    case share
    then have "W = None" "t \<notin> R" using s R by (auto split: if_splits)
    moreover have "\<not> w_holds (pc u)" for u using W [of u] w_holds_owns [of "pc u"] \<open>W = None\<close> by auto
    ultimately show ?thesis using share R W s c unfolding rw_inv_def
      by (intro exI [of _ "insert t R"] exI [of _ W]) auto
  next
    case unshare
    then have t: "t \<in> R" using R by simp
    have "card R = Suc (card (R - {t}))" using R(1) t by (rule card.remove)
    then show ?thesis using unshare R W s h c w_holds_owns t unfolding rw_inv_def
      by (intro exI [of _ "R - {t}"] exI [of _ W]) auto
  next
    case own
    then have "W = None" "t \<notin> R" using s R by (auto split: if_splits)
    moreover have "\<not> w_holds (pc u)" for u using W [of u] w_holds_owns [of "pc u"] \<open>W = None\<close> by auto
    ultimately show ?thesis using own R W s c unfolding rw_inv_def
      by (intro exI [of _ R] exI [of _ "Some t"]) auto
  next
    case disown
    have "R = {}" "W = Some t" using h disown W w_holds_owns by blast+
    then show ?thesis using disown R W c w_holds_owns unfolding rw_inv_def
      by (intro exI [of _ R] exI [of _ None]) auto
  qed
qed

text \<open>Points inside the internal lock, and points of a queued task.\<close>

fun w_inside :: "rw_pc \<Rightarrow> bool" where
  "w_inside RCheck = True" | "w_inside RPush = True" | "w_inside RQueued = True" | "w_inside RLeave = True"
| "w_inside RuPop = True" | "w_inside (RuWake w) = True" | "w_inside RuLeave = True"
| "w_inside WCheck = True" | "w_inside WPush = True" | "w_inside WQueued = True" | "w_inside WLeave = True"
| "w_inside WuStore = True" | "w_inside WuPop = True" | "w_inside (WuWake w) = True" | "w_inside WuPopReader = True"
| "w_inside (WuWakeReader r) = True" | "w_inside WuLeave = True" | "w_inside _ = False"

fun rw_queued :: "rw_pc \<Rightarrow> bool" where
  "rw_queued RQueued = True" | "rw_queued RYield = True" | "rw_queued RAsleep = True"
| "rw_queued WQueued = True" | "rw_queued WYield = True" | "rw_queued WAsleep = True" | "rw_queued _ = False"

fun rw_woken :: "rw_pc \<Rightarrow> tid list" where
  "rw_woken (RuWake w) = [w]" | "rw_woken (WuWake w) = [w]" | "rw_woken (WuWakeReader r) = [r]" | "rw_woken _ = []"

definition rw_line :: "rwmutex_t \<Rightarrow> (tid \<Rightarrow> rw_pc) \<Rightarrow> tid list" where
  "rw_line m pc = w_readers m @ w_writers m @ pending rw_woken (w_lock m) pc @ w_ready m"

definition rwmutex_inv :: "rwmutex_t \<Rightarrow> (tid \<Rightarrow> rw_pc) \<Rightarrow> bool" where
  "rwmutex_inv m pc \<longleftrightarrow> rw_inv m pc \<and> lock_inv w_inside (w_lock m) pc \<and> queue_inv rw_queued (rw_line m pc) pc"

lemma rwmutex_step_lock:
  assumes "lock_inv w_inside (w_lock m) pc" "(m', p') \<in> set (rwmutex_step t m (pc t))"
  shows "lock_inv w_inside (w_lock m') (pc(t := p'))"
  by (rule lock_step [OF assms(1)])
    (use assms(2) in \<open>cases "pc t"; auto simp: rwmutex_step_def Let_def split: if_splits list.splits\<close>)

lemma rwmutex_step_queue:
  assumes "lock_inv w_inside (w_lock m) pc" "queue_inv rw_queued (rw_line m pc) pc" "(m', p') \<in> set (rwmutex_step t m (pc t))"
  shows "queue_inv rw_queued (rw_line m' (pc(t := p'))) (pc(t := p'))"
proof (rule queue_step [OF assms(2)])
  note own = pending_own [OF assms(1), of t rw_woken] and other = pending_other [OF assms(1), of t rw_woken p'] and lk = lock_owner [OF assms(1), of t]
  have "t \<notin> set (w_ready m)" if "pc t = WDrainAsleep" using assms(2) that by (auto simp: queue_inv_def rw_line_def)
  then show "mset (rw_line m' (pc(t := p'))) = mset (rw_line m pc) \<and> rw_queued p' = rw_queued (pc t) \<or>
      mset (rw_line m' (pc(t := p'))) = mset (t # rw_line m pc) \<and> \<not> rw_queued (pc t) \<and> rw_queued p' \<or>
      mset (rw_line m pc) = mset (t # rw_line m' (pc(t := p'))) \<and> rw_queued (pc t) \<and> \<not> rw_queued p'"
    using assms(3) own other lk
    by (cases "pc t") (auto simp: rwmutex_step_def rw_line_def Let_def split: if_splits list.splits)
qed

lemma rwmutex_step_inv: "rwmutex_inv m pc \<Longrightarrow> (m', p') \<in> set (rwmutex_step t m (pc t)) \<Longrightarrow> rwmutex_inv m' (pc(t := p'))"
  unfolding rwmutex_inv_def using rw_step_inv rwmutex_step_lock rwmutex_step_queue by blast

lemma rwmutex_start_inv: "rwmutex_inv (fst rwmutex_start) (snd rwmutex_start)"
  by (auto simp: rwmutex_inv_def rw_inv_def rwmutex_start_def rwmutex_create_def lock_inv_def queue_inv_def rw_line_def)

interpretation rw: sync_object rwmutex_step rwmutex_start rwmutex_inv
  by unfold_locales (fact rwmutex_start_inv, fact rwmutex_step_inv)

section \<open>A sleeping writer\<close>

text \<open>
  From a state in which a writer sleeps while it owns the writer bit, it stays asleep and nobody
  acquires the lock.
\<close>

definition drain_asleep :: "tid \<Rightarrow> tid set \<Rightarrow> rwmutex_t \<Rightarrow> (tid \<Rightarrow> rw_pc) \<Rightarrow> bool" where
  "drain_asleep t R m pc \<longleftrightarrow> rwmutex_inv m pc \<and> pc t = WDrainAsleep \<and> (\<forall>u. r_holds (pc u) \<longrightarrow> u \<in> R)"

lemma drain_asleep_no_writer:
  assumes "drain_asleep t R m pc"
  shows "odd (w_state m)" "\<not> w_holds (pc u)" "t \<notin> set (w_ready m)"
proof -
  have i: "rw_inv m pc" and q: "queue_inv rw_queued (rw_line m pc) pc" and t: "pc t = WDrainAsleep" using assms by (simp_all add: drain_asleep_def rwmutex_inv_def)
  obtain R :: "tid set" and W where W: "\<forall>t. w_owns (pc t) \<longleftrightarrow> W = Some t" "w_state m = 2 * int (card R) + (if W = None then 0 else 1)"
    using i unfolding rw_inv_def by (elim exE conjE) (rule that, assumption+)
  note W1 = W(1) [THEN spec]
  have Wt: "W = Some t" using W1 [of t] t by simp
  then show "odd (w_state m)" using W(2) by simp
  show "\<not> w_holds (pc u)"
  proof
    assume h: "w_holds (pc u)"
    have "W = Some u" using W1 [of u] w_holds_owns [OF h] by blast
    then show False using h t Wt by simp
  qed
  have "t \<in> set (rw_line m pc) \<longleftrightarrow> rw_queued (pc t)" using q unfolding queue_inv_def by blast
  then show "t \<notin> set (w_ready m)" using t by (simp add: rw_line_def)
qed

lemma drain_asleep_step:
  assumes d: "drain_asleep t R m pc" and st: "(m', p') \<in> set (rwmutex_step u m (pc u))"
  shows "drain_asleep t R m' (pc(u := p'))"
proof -
  note n = drain_asleep_no_writer [OF d]
  have i: "rwmutex_inv m pc" "pc t = WDrainAsleep" "\<And>u. r_holds (pc u) \<Longrightarrow> u \<in> R" using d by (simp_all add: drain_asleep_def)
  have "u \<noteq> t" using st i(2) n(3) by (auto simp: rwmutex_step_def)
  have ce: "cas_even (pc u)" using i(1) by (auto simp: rwmutex_inv_def rw_inv_def)
  have "r_holds p' \<longrightarrow> r_holds (pc u)" using rwmutex_effect [OF st ce] n(1) by auto
  then show ?thesis using rwmutex_step_inv [OF i(1) st] i(2,3) \<open>u \<noteq> t\<close> by (auto simp: drain_asleep_def)
qed

lemma drain_asleep_reach:
  "reach rwmutex_step c n c' \<Longrightarrow> drain_asleep t R (fst c) (snd c) \<Longrightarrow> drain_asleep t R (fst c') (snd c')"
proof (induction rule: reach.induct)
  case (move n ob pc ob' p' u)
  then have "drain_asleep t R ob pc" by simp
  then show ?case unfolding fst_conv snd_conv by (rule drain_asleep_step) (rule move.hyps)
qed

end
