(* ===== verification/Waitgroup.thy ===== *)
theory Waitgroup
  imports Tasks
begin

text \<open>
  The wait group of \<^verbatim>\<open>src/runtime/src/sync.c\<close>: a counter with \<open>add\<close>, \<open>done\<close> and \<open>wait\<close>. A failing assertion
  of \<open>add\<close> is the program point \<open>GAbort\<close>.
\<close>

section \<open>The code\<close>

record waitgroup_t =
  g_count :: int
  g_lock :: "tid option"
  g_waiters :: "tid list"
  g_ready :: "tid list"

definition waitgroup_create :: waitgroup_t where
  "waitgroup_create = \<lparr>g_count = 0, g_lock = None, g_waiters = [], g_ready = []\<rparr>"

text \<open>Program points of \<open>add\<close> (\<open>A\<close>) with its argument, and of \<open>wait\<close> (\<open>G\<close>); \<open>GDone\<close> is after the call.\<close>

datatype wg_pc = GDone | GAbort
  | AAdd int | AEnter | APop | AWake tid | ALeave
  | GLoad | GEnter | GCheck | GReturn | GPush | GQueued | GYield | GAsleep

fun waitgroup_add :: "tid \<Rightarrow> waitgroup_t \<Rightarrow> wg_pc \<Rightarrow> (waitgroup_t \<times> wg_pc) list" where
  "waitgroup_add t g (AAdd delta) = (let new_count = g_count g + delta in
     [(g\<lparr>g_count := new_count\<rparr>,
       if \<not> 0 \<le> new_count then GAbort else if new_count = 0 \<and> delta < 0 then AEnter else GDone)])"
| "waitgroup_add t g AEnter = (if g_lock g = None then [(g\<lparr>g_lock := Some t\<rparr>, APop)] else [])"
| "waitgroup_add t g APop = (case g_waiters g of [] \<Rightarrow> [(g, ALeave)] | w # ws \<Rightarrow> [(g\<lparr>g_waiters := ws\<rparr>, AWake w)])"
| "waitgroup_add t g (AWake w) = [(g\<lparr>g_ready := g_ready g @ [w]\<rparr>, APop)]"
| "waitgroup_add t g ALeave = [(g\<lparr>g_lock := None\<rparr>, GDone)]"
| "waitgroup_add t g _ = []"

text \<open>\<open>__public__sync_waitgroup_done\<close> starts \<open>add\<close> with \<open>-1\<close>.\<close>

definition waitgroup_done :: wg_pc where
  "waitgroup_done = AAdd (- 1)"

fun waitgroup_wait :: "tid \<Rightarrow> waitgroup_t \<Rightarrow> wg_pc \<Rightarrow> (waitgroup_t \<times> wg_pc) list" where
  "waitgroup_wait t g GLoad = (if g_count g = 0 then [(g, GDone)] else [(g, GEnter)])"
| "waitgroup_wait t g GEnter = (if g_lock g = None then [(g\<lparr>g_lock := Some t\<rparr>, GCheck)] else [])"
| "waitgroup_wait t g GCheck = (if g_count g = 0 then [(g, GReturn)] else [(g, GPush)])"
| "waitgroup_wait t g GReturn = [(g\<lparr>g_lock := None\<rparr>, GDone)]"
| "waitgroup_wait t g GPush = [(g\<lparr>g_waiters := g_waiters g @ [t]\<rparr>, GQueued)]"
| "waitgroup_wait t g GQueued = [(g\<lparr>g_lock := None\<rparr>, GYield)]"
| "waitgroup_wait t g GYield = [(g, GAsleep)]"
| "waitgroup_wait t g GAsleep = (if t \<in> set (g_ready g) then [(g\<lparr>g_ready := remove1 t (g_ready g)\<rparr>, GLoad)] else [])"
| "waitgroup_wait t g _ = []"

definition waitgroup_step :: "tid \<Rightarrow> waitgroup_t \<Rightarrow> wg_pc \<Rightarrow> (waitgroup_t \<times> wg_pc) list" where
  "waitgroup_step t g p = waitgroup_add t g p @ waitgroup_wait t g p"

text \<open>
  Fork and join: the counter has been raised to the number of workers (\<open>add n\<close> before they start), each
  worker calls \<open>done\<close> once, at any time, and the waiting tasks call \<open>wait\<close>.
\<close>

definition fork_join :: "tid set \<Rightarrow> tid set \<Rightarrow> (waitgroup_t, wg_pc) config" where
  "fork_join Wk Wt = (waitgroup_create\<lparr>g_count := int (card Wk)\<rparr>,
     \<lambda>t. if t \<in> Wk then waitgroup_done else if t \<in> Wt then GLoad else GDone)"

section \<open>Invariant\<close>

fun g_inside :: "wg_pc \<Rightarrow> bool" where
  "g_inside APop = True" | "g_inside (AWake w) = True" | "g_inside ALeave = True"
| "g_inside GCheck = True" | "g_inside GReturn = True" | "g_inside GPush = True" | "g_inside GQueued = True" | "g_inside _ = False"

fun g_queued :: "wg_pc \<Rightarrow> bool" where
  "g_queued GQueued = True" | "g_queued GYield = True" | "g_queued GAsleep = True" | "g_queued _ = False"

fun g_woken :: "wg_pc \<Rightarrow> tid list" where
  "g_woken (AWake w) = [w]" | "g_woken _ = []"

text \<open>The last worker, on its way to wake the waiting tasks.\<close>

fun g_wakes :: "wg_pc \<Rightarrow> bool" where
  "g_wakes AEnter = True" | "g_wakes APop = True" | "g_wakes (AWake w) = True" | "g_wakes _ = False"

definition g_line :: "waitgroup_t \<Rightarrow> (tid \<Rightarrow> wg_pc) \<Rightarrow> tid list" where
  "g_line g pc = g_waiters g @ pending g_woken (g_lock g) pc @ g_ready g"

text \<open>The workers that have not called \<open>done\<close> yet are counted.\<close>

definition g_count_inv :: "tid set \<Rightarrow> waitgroup_t \<Rightarrow> (tid \<Rightarrow> wg_pc) \<Rightarrow> bool" where
  "g_count_inv Wk g pc \<longleftrightarrow> g_count g = int (card {t \<in> Wk. pc t = waitgroup_done}) \<and>
     (\<forall>t d. pc t = AAdd d \<longrightarrow> d = - 1 \<and> t \<in> Wk) \<and> (\<forall>t. pc t \<noteq> GAbort)"

definition g_wake_inv :: "waitgroup_t \<Rightarrow> (tid \<Rightarrow> wg_pc) \<Rightarrow> bool" where
  "g_wake_inv g pc \<longleftrightarrow> ((g_waiters g \<noteq> [] \<or> (\<exists>t. pc t = GPush)) \<longrightarrow> g_count g \<noteq> 0 \<or> (\<exists>t. g_wakes (pc t))) \<and>
     ((g_ready g \<noteq> [] \<or> (\<exists>t. g_wakes (pc t))) \<longrightarrow> g_count g = 0)"

definition waitgroup_inv :: "tid set \<Rightarrow> waitgroup_t \<Rightarrow> (tid \<Rightarrow> wg_pc) \<Rightarrow> bool" where
  "waitgroup_inv Wk g pc \<longleftrightarrow> lock_inv g_inside (g_lock g) pc \<and> queue_inv g_queued (g_line g pc) pc \<and> g_count_inv Wk g pc \<and> g_wake_inv g pc"

lemma waitgroup_step_lock:
  assumes "lock_inv g_inside (g_lock g) pc" "(g', p') \<in> set (waitgroup_step t g (pc t))"
  shows "lock_inv g_inside (g_lock g') (pc(t := p'))"
  by (rule lock_step [OF assms(1)])
    (use assms(2) in \<open>cases "pc t"; auto simp: waitgroup_step_def Let_def split: if_splits list.splits\<close>)

lemma waitgroup_step_queue:
  assumes "lock_inv g_inside (g_lock g) pc" "queue_inv g_queued (g_line g pc) pc" "(g', p') \<in> set (waitgroup_step t g (pc t))"
  shows "queue_inv g_queued (g_line g' (pc(t := p'))) (pc(t := p'))"
proof (rule queue_step [OF assms(2)])
  note own = pending_own [OF assms(1), of t g_woken] and other = pending_other [OF assms(1), of t g_woken p'] and lk = lock_owner [OF assms(1), of t]
  show "mset (g_line g' (pc(t := p'))) = mset (g_line g pc) \<and> g_queued p' = g_queued (pc t) \<or>
      mset (g_line g' (pc(t := p'))) = mset (t # g_line g pc) \<and> \<not> g_queued (pc t) \<and> g_queued p' \<or>
      mset (g_line g pc) = mset (t # g_line g' (pc(t := p'))) \<and> g_queued (pc t) \<and> \<not> g_queued p'"
    using assms(3) own other lk
    by (cases "pc t") (auto simp: waitgroup_step_def g_line_def Let_def split: if_splits list.splits)
qed

lemma count_pos:
  assumes "finite Wk" "g_count_inv Wk g pc" "pc t = AAdd d"
  shows "0 < g_count g" "d = - 1" "t \<in> Wk"
proof -
  show t: "d = - 1" "t \<in> Wk" using assms(2,3) unfolding g_count_inv_def by blast+
  then have "t \<in> {t \<in> Wk. pc t = waitgroup_done}" using assms(3) by (simp add: waitgroup_done_def)
  then have "0 < card {t \<in> Wk. pc t = waitgroup_done}" using assms(1) by (auto simp: card_gt_0_iff)
  then show "0 < g_count g" using assms(2) by (simp add: g_count_inv_def)
qed

lemma add_effect:
  assumes "0 < g_count g" "(g', p') \<in> set (waitgroup_step t g (AAdd (- 1)))"
  shows "g_count g' = g_count g - 1" "g_waiters g' = g_waiters g" "g_ready g' = g_ready g" "p' = (if g_count g' = 0 then AEnter else GDone)"
  using assms by (auto simp: waitgroup_step_def Let_def)

lemma other_effect:
  assumes "\<nexists>d. p = AAdd d" "(g', p') \<in> set (waitgroup_step t g p)"
  shows "g_count g' = g_count g" "\<nexists>d. p' = AAdd d" "p' \<noteq> GAbort" "p' = GPush \<Longrightarrow> g_count g \<noteq> 0" "g_waiters g' \<noteq> [] \<Longrightarrow> g_waiters g \<noteq> [] \<or> p = GPush"
    "g_wakes p' \<Longrightarrow> g_wakes p" "g_wakes p \<Longrightarrow> \<not> g_wakes p' \<Longrightarrow> g_waiters g' = [] \<and> p = APop" "g_ready g' \<noteq> [] \<Longrightarrow> g_ready g \<noteq> [] \<or> g_wakes p"
  using assms by (cases p; auto simp: waitgroup_step_def Let_def split: if_splits list.splits)+

lemma waitgroup_step_count:
  assumes fin: "finite Wk" and i: "g_count_inv Wk g pc" and st: "(g', p') \<in> set (waitgroup_step t g (pc t))"
  shows "g_count_inv Wk g' (pc(t := p'))"
proof (cases "\<exists>d. pc t = AAdd d")
  case True
  then obtain d where d: "pc t = AAdd d" by blast
  note c = count_pos [OF fin i d]
  have t: "pc t = AAdd (- 1)" using c(2) d by simp
  note e = add_effect [OF c(1) st [unfolded t]]
  let ?A = "{u \<in> Wk. pc u = waitgroup_done}"
  have k: "card ?A = Suc (card (?A - {t}))" by (rule card.remove) (use fin t c(3) in \<open>simp_all add: waitgroup_done_def\<close>)
  have "p' \<noteq> waitgroup_done" using e(4) by (auto simp: waitgroup_done_def)
  then have "{u \<in> Wk. (pc(t := p')) u = waitgroup_done} = ?A - {t}" by auto
  then have "g_count g' = int (card {u \<in> Wk. (pc(t := p')) u = waitgroup_done})" using k e(1) i by (simp add: g_count_inv_def)
  moreover have "p' \<noteq> GAbort" "p' \<noteq> AAdd d" for d using e(4) by auto
  ultimately show ?thesis using i unfolding g_count_inv_def by (metis fun_upd_apply)
next
  case False
  note e = other_effect [OF False st]
  have "{u \<in> Wk. (pc(t := p')) u = waitgroup_done} = {u \<in> Wk. pc u = waitgroup_done}"
    using False e(2) by (auto simp: waitgroup_done_def)
  then have "g_count g' = int (card {u \<in> Wk. (pc(t := p')) u = waitgroup_done})" using e(1) i by (simp add: g_count_inv_def)
  then show ?thesis using i e(2,3) unfolding g_count_inv_def by (metis fun_upd_apply)
qed

lemma waitgroup_step_wake:
  assumes fin: "finite Wk" and lk: "lock_inv g_inside (g_lock g) pc" and c: "g_count_inv Wk g pc" and w: "g_wake_inv g pc"
    and st: "(g', p') \<in> set (waitgroup_step t g (pc t))"
  shows "g_wake_inv g' (pc(t := p'))"
proof -
  have w1: "g_waiters g \<noteq> [] \<or> (\<exists>t. pc t = GPush) \<Longrightarrow> g_count g \<noteq> 0 \<or> (\<exists>t. g_wakes (pc t))"
    and w2: "\<And>t. g_ready g \<noteq> [] \<or> g_wakes (pc t) \<Longrightarrow> g_count g = 0" using w unfolding g_wake_inv_def by blast+
  show ?thesis
  proof (cases "\<exists>d. pc t = AAdd d")
    case True
    then obtain d where d: "pc t = AAdd d" by blast
    note c = count_pos [OF fin c d]
    have t: "pc t = AAdd (- 1)" using c(2) d by simp
    note e = add_effect [OF c(1) st [unfolded t]]
    have n: "g_ready g = []" "\<not> g_wakes (pc u)" for u using w2 [of u] c(1) by auto
    have "g_count g' \<noteq> 0 \<or> (\<exists>u. g_wakes ((pc(t := p')) u))" using ex_upd_self [of g_wakes p' pc t] e(4) by auto
    moreover have "\<not> g_wakes ((pc(t := p')) u)" if "g_count g' \<noteq> 0" for u using n(2) e(4) that by simp
    ultimately show ?thesis unfolding g_wake_inv_def e(3) n(1) by blast
  next
    case False
    note e = other_effect [OF False st]
    have "\<exists>u. g_wakes ((pc(t := p')) u)" if z: "g_count g = 0" and dm: "g_waiters g' \<noteq> [] \<or> (\<exists>u. (pc(t := p')) u = GPush)"
    proof -
      have np: "p' \<noteq> GPush" using e(4) z by blast
      have "g_waiters g \<noteq> [] \<or> (\<exists>u. pc u = GPush)" using dm e(5) np by (auto split: if_splits)
      then obtain v where v: "g_wakes (pc v)" using w1 z by blast
      show ?thesis
      proof (cases "v = t \<and> \<not> g_wakes p'")
        case True
        then have a: "g_waiters g' = []" "pc t = APop" using e(7) v by simp_all
        then obtain u where "u \<noteq> t" "pc u = GPush" using dm np by (auto split: if_splits)
        then show ?thesis using lock_unique [OF lk, of t u] a(2) by simp
      next
        case False
        then show ?thesis using v by (intro exI [of _ v]) auto
      qed
    qed
    moreover have "g_count g = 0" if "g_ready g' \<noteq> [] \<or> (\<exists>u. g_wakes ((pc(t := p')) u))"
      using that e(6,8) w2 by (auto split: if_splits)
    ultimately show ?thesis unfolding g_wake_inv_def e(1) by blast
  qed
qed

lemma waitgroup_step_inv:
  "finite Wk \<Longrightarrow> waitgroup_inv Wk g pc \<Longrightarrow> (g', p') \<in> set (waitgroup_step t g (pc t)) \<Longrightarrow> waitgroup_inv Wk g' (pc(t := p'))"
  unfolding waitgroup_inv_def
  by (elim conjE, intro conjI) (rule waitgroup_step_lock waitgroup_step_queue waitgroup_step_count waitgroup_step_wake; assumption)+

lemma fork_join_inv: "waitgroup_inv Wk (fst (fork_join Wk Wt)) (snd (fork_join Wk Wt))"
proof -
  have "{t \<in> Wk. (if t \<in> Wk then waitgroup_done else if t \<in> Wt then GLoad else GDone) = waitgroup_done} = Wk" by auto
  then show ?thesis
    by (auto simp: waitgroup_inv_def fork_join_def waitgroup_create_def waitgroup_done_def lock_inv_def queue_inv_def g_line_def g_count_inv_def g_wake_inv_def)
qed

interpretation wg: sync_object waitgroup_step "fork_join Wk Wt" "\<lambda>g pc. finite Wk \<longrightarrow> waitgroup_inv Wk g pc" for Wk Wt
  by unfold_locales (simp add: fork_join_inv, blast intro: waitgroup_step_inv)

section \<open>Progress and termination\<close>

lemma g_inside_runs: "g_inside p \<Longrightarrow> waitgroup_step t g p \<noteq> []"
  by (cases p) (auto simp: waitgroup_step_def split: list.splits)

lemma waitgroup_blocked:
  "waitgroup_step t g p = [] \<Longrightarrow> p \<in> {AEnter, GEnter} \<and> g_lock g \<noteq> None \<or> p = GAsleep \<and> t \<notin> set (g_ready g) \<or> p \<in> {GDone, GAbort}"
  by (cases p) (auto simp: waitgroup_step_def Let_def split: if_splits list.splits)

lemma waitgroup_progress:
  assumes inv: "waitgroup_inv Wk g pc" and t0: "pc t0 \<noteq> GDone"
  shows "\<exists>t. waitgroup_step t g (pc t) \<noteq> []"
proof (rule ccontr)
  assume "\<not> ?thesis"
  then have stuck: "waitgroup_step t g (pc t) = []" for t by blast
  have lk: "lock_inv g_inside (g_lock g) pc" and q: "queue_inv g_queued (g_line g pc) pc" and c: "g_count_inv Wk g pc" and w: "g_wake_inv g pc"
    using inv by (simp_all add: waitgroup_inv_def)
  have "\<not> g_inside (pc u)" for u using g_inside_runs [of "pc u" u g] stuck [of u] by blast
  then have free: "g_lock g = None" using lock_owner' [OF lk] by (cases "g_lock g") auto
  have asleep: "pc t = GDone \<or> pc t = GAsleep \<and> t \<notin> set (g_ready g)" for t
    using waitgroup_blocked [OF stuck [of t]] free c by (auto simp: g_count_inv_def)
  have line: "g_line g pc = g_waiters g @ g_ready g" by (simp add: g_line_def free)
  have "t0 \<in> set (g_line g pc)" using q asleep [of t0] t0 by (simp add: queue_inv_def)
  then have "g_waiters g \<noteq> []" using asleep [of t0] t0 line by auto
  moreover have "\<not> g_wakes (pc t)" "pc t \<noteq> waitgroup_done" for t using asleep [of t] by (auto simp: waitgroup_done_def)
  ultimately show False using w c by (auto simp: g_wake_inv_def g_count_inv_def)
qed

fun g_rank :: "bool \<Rightarrow> wg_pc \<Rightarrow> nat" where
  "g_rank z GLoad = (if z then 1 else 12)" | "g_rank z GEnter = 11" | "g_rank z GCheck = 10" | "g_rank z GReturn = 1" | "g_rank z GPush = 9"
| "g_rank z GQueued = 6" | "g_rank z GYield = 5" | "g_rank z GAsleep = 4" | "g_rank z (AAdd d) = 6" | "g_rank z AEnter = 5" | "g_rank z APop = 3"
| "g_rank z (AWake w) = 4" | "g_rank z ALeave = 1" | "g_rank z GDone = 0" | "g_rank z GAbort = 0"

definition g_measure :: "tid set \<Rightarrow> waitgroup_t \<Rightarrow> (tid \<Rightarrow> wg_pc) \<Rightarrow> nat" where
  "g_measure T g pc = (\<Sum>u\<in>T. g_rank (g_count g = 0) (pc u)) + 2 * length (g_waiters g)"

lemma g_rank_bound: "g_rank z p \<le> 12" "g_rank True p \<le> g_rank z p"
  by (cases p; simp)+

lemma waitgroup_step_rank:
  assumes "(g', p') \<in> set (waitgroup_step t g p)" "p = GAsleep \<Longrightarrow> t \<in> set (g_ready g) \<Longrightarrow> g_count g = 0"
  shows "g_rank (g_count g' = 0) p' + 2 * length (g_waiters g') < g_rank (g_count g = 0) p + 2 * length (g_waiters g)"
  using assms by (cases p) (auto simp: waitgroup_step_def Let_def split: if_splits list.splits)

lemma waitgroup_step_measure:
  assumes fin: "finite T" "finite Wk" and i: "waitgroup_inv Wk g pc" and out: "\<And>u. u \<notin> T \<Longrightarrow> pc u = GDone"
    and st: "(g', p') \<in> set (waitgroup_step t g (pc t))"
  shows "g_measure T g' (pc(t := p')) < g_measure T g pc" "u \<notin> T \<Longrightarrow> (pc(t := p')) u = GDone"
proof -
  have tT: "t \<in> T" using out [of t] st by (cases "t \<in> T") (auto simp: waitgroup_step_def)
  then show "(pc(t := p')) u = GDone" if "u \<notin> T" using that out by auto
  have c: "g_count_inv Wk g pc" and w: "g_wake_inv g pc" using i by (simp_all add: waitgroup_inv_def)
  have "g_count g = 0" if "t \<in> set (g_ready g)" using w that by (auto simp: g_wake_inv_def)
  note r = waitgroup_step_rank [OF st this]
  have z: "g_count g' = 0" if "g_count g = 0"
  proof (cases "\<exists>d. pc t = AAdd d")
    case True
    then show ?thesis using count_pos(1) [OF fin(2) c] that by auto
  next
    case False
    then show ?thesis using other_effect(1) [OF False st] that by simp
  qed
  have others: "(\<Sum>u\<in>T - {t}. g_rank (g_count g' = 0) ((pc(t := p')) u)) \<le> (\<Sum>u\<in>T - {t}. g_rank (g_count g = 0) (pc u))"
  proof (rule sum_mono)
    fix u assume "u \<in> T - {t}"
    then show "g_rank (g_count g' = 0) ((pc(t := p')) u) \<le> g_rank (g_count g = 0) (pc u)"
      using z g_rank_bound(2) [of "pc u" "g_count g = 0"] by (cases "g_count g = 0"; cases "g_count g' = 0") auto
  qed
  show "g_measure T g' (pc(t := p')) < g_measure T g pc"
    using r others sum.remove [OF fin(1) tT, of "\<lambda>u. g_rank (g_count g' = 0) ((pc(t := p')) u)"]
      sum.remove [OF fin(1) tT, of "\<lambda>u. g_rank (g_count g = 0) (pc u)"]
    by (simp add: g_measure_def)
qed

lemma waitgroup_steps_bound:
  assumes "finite Wk" "finite Wt"
  shows "reach waitgroup_step (fork_join Wk Wt) n c \<Longrightarrow>
    n + g_measure (Wk \<union> Wt) (fst c) (snd c) \<le> 12 * card (Wk \<union> Wt) \<and> (\<forall>u. u \<notin> Wk \<union> Wt \<longrightarrow> snd c u = GDone)"
proof (induction rule: reach.induct)
  case start
  have "(\<Sum>u\<in>Wk \<union> Wt. g_rank z (pc u)) \<le> 12 * card (Wk \<union> Wt)" for z pc
    using sum_bounded_above [of "Wk \<union> Wt" "\<lambda>u. g_rank z (pc u)" 12] g_rank_bound(1) by (simp add: mult.commute)
  then show ?case by (auto simp: g_measure_def fork_join_def waitgroup_create_def)
next
  case (move n g pc g' p' t)
  have i: "waitgroup_inv Wk g pc" using wg.reach_Inv [OF move.hyps(1)] assms by simp
  have "finite (Wk \<union> Wt)" using assms by simp
  moreover have ih: "n + g_measure (Wk \<union> Wt) g pc \<le> 12 * card (Wk \<union> Wt)" "\<And>u. u \<notin> Wk \<union> Wt \<Longrightarrow> pc u = GDone" using move.IH by simp_all
  ultimately have m: "g_measure (Wk \<union> Wt) g' (pc(t := p')) < g_measure (Wk \<union> Wt) g pc" "\<And>u. u \<notin> Wk \<union> Wt \<Longrightarrow> (pc(t := p')) u = GDone"
    using waitgroup_step_measure [OF _ assms(1) i _ move.hyps(2), of "Wk \<union> Wt"] by blast+
  show ?case unfolding fst_conv snd_conv using m(1) ih(1) m(2) by (intro conjI allI impI) (simp_all del: fun_upd_apply)
qed

section \<open>A returned \<open>wait\<close>\<close>

fun g_adds :: "wg_pc \<Rightarrow> bool" where
  "g_adds (AAdd d) = True" | "g_adds AEnter = True" | "g_adds APop = True" | "g_adds (AWake w) = True" | "g_adds ALeave = True" | "g_adds _ = False"

fun g_returns :: "wg_pc \<Rightarrow> bool" where
  "g_returns GDone = True" | "g_returns GReturn = True" | "g_returns _ = False"

lemma wait_step:
  assumes "\<not> g_adds p" "(g', p') \<in> set (waitgroup_step t g p)"
  shows "\<not> g_adds p'" "g_returns p' \<Longrightarrow> g_returns p \<or> g_count g' = 0"
  using assms by (cases p; auto simp: waitgroup_step_def split: if_splits)+

lemma wait_returned:
  assumes "finite Wk"
  shows "reach waitgroup_step (fork_join Wk Wt) n c \<Longrightarrow> u \<notin> Wk \<Longrightarrow> \<not> g_adds (snd c u) \<and> (u \<in> Wt \<longrightarrow> g_returns (snd c u) \<longrightarrow> g_count (fst c) = 0)"
proof (induction rule: reach.induct)
  case start
  then show ?case by (simp add: fork_join_def)
next
  case (move n g pc g' p' t)
  have i: "g_count_inv Wk g pc" using wg.reach_Inv [OF move.hyps(1)] assms by (simp add: waitgroup_inv_def)
  have z: "g_count g' = 0" if "g_count g = 0"
  proof (cases "\<exists>d. pc t = AAdd d")
    case True
    then show ?thesis using count_pos(1) [OF assms i] that by auto
  next
    case False
    then show ?thesis using other_effect(1) [OF False move.hyps(2)] that by simp
  qed
  have ih: "\<not> g_adds (pc u)" "u \<in> Wt \<Longrightarrow> g_returns (pc u) \<Longrightarrow> g_count g = 0" using move.IH [OF move.prems] by simp_all
  show ?case
  proof (cases "u = t")
    case True
    then have "\<not> g_adds (pc t)" using ih(1) by simp
    note w = wait_step [OF this move.hyps(2)]
    then show ?thesis using True ih(2) z by auto
  next
    case False
    then show ?thesis using ih z by simp
  qed
qed

end
