(* ===== verification/SyncProps.thy ===== *)
theory SyncProps
  imports Mutex Rwmutex Waitgroup
begin

text \<open>
  Properties of the mutex, the read-write mutex and the wait group, over all interleavings of any number
  of tasks.
\<close>

section \<open>Mutex\<close>

text \<open>
  C11: No task sleeps on a mutex without a task to wake it: in every reachable state in which some task
  is inside lock or unlock, asleep or holding the mutex, some such task can take a step. Wake-ups are not
  lost although the state is read and written without the internal lock.
\<close>

theorem mutex_no_lost_wakeup:
  assumes "reach mutex_step mutex_start n (m, pc)" "pc t0 \<noteq> MIdle"
  shows "\<exists>t. pc t \<noteq> MIdle \<and> mutex_step t m (pc t) \<noteq> []"
  using mutex_progress [of m pc t0] mtx.reach_Inv [OF assms(1)] assms(2) by simp

theorem mutex_no_lost_wakeup_witness:
  "\<exists>m pc n. reach mutex_step mutex_start n (m, pc) \<and> pc 1 = MAsleep \<and> (\<exists>t. pc t \<noteq> MIdle \<and> mutex_step t m (pc t) \<noteq> [])"
proof -
  have "case run mutex_step [(0, 0), (0, 0), (1, 0), (1, 0), (1, 0), (1, 0), (1, 0), (1, 0), (1, 0)] mutex_start of None \<Rightarrow> False | Some (m, pc) \<Rightarrow> pc 1 = MAsleep"
    by code_simp
  then obtain m pc where r: "run mutex_step [(0, 0), (0, 0), (1, 0), (1, 0), (1, 0), (1, 0), (1, 0), (1, 0), (1, 0)] mutex_start = Some (m, pc)" "pc 1 = MAsleep"
    by (auto split: option.splits)
  note rr = run_reach [OF r(1) reach.start]
  show ?thesis using mutex_no_lost_wakeup [OF rr, of 1] rr r(2) by auto
qed

text \<open>
  In every schedule in which no fast path of lock succeeds while another task is inside the internal
  lock, at most one task holds the mutex.
\<close>

theorem mutex_exclusive:
  assumes "reach mutex_step_calm mutex_start n (m, pc)" "m_holds (pc t)" "m_holds (pc u)"
  shows "t = u"
  using calm.reach_Inv [OF assms(1)] assms(2,3) by (auto simp: mutex_excl_def)

theorem mutex_exclusive_witness:
  "\<exists>m pc n. reach mutex_step_calm mutex_start n (m, pc) \<and> pc 1 = MHeld \<and> (\<forall>u. m_holds (pc u) = (1 = u))"
proof -
  have "case run mutex_step_calm [(0, 0), (0, 0), (0, 0), (0, 0), (0, 0), (0, 0), (0, 0), (1, 0), (1, 0)] mutex_start of None \<Rightarrow> False
      | Some (m, pc) \<Rightarrow> pc 1 = MHeld" by code_simp
  then obtain m pc where r: "run mutex_step_calm [(0, 0), (0, 0), (0, 0), (0, 0), (0, 0), (0, 0), (0, 0), (1, 0), (1, 0)] mutex_start = Some (m, pc)"
      "pc 1 = MHeld" by (auto split: option.splits)
  note rr = run_reach [OF r(1) reach.start]
  have "m_holds (pc u) = (1 = u)" for u using mutex_exclusive [OF rr, of 1 u] r(2) by auto
  then show ?thesis using rr r(2) by blast
qed

text \<open>
  C12: Without this restriction the mutex does not exclude: the slow path of lock reads the state as free and
  stores 1 with two separate accesses, and a fast path of another task may take the mutex in between. Three
  tasks reach a state with two holders.
\<close>

theorem mutex_two_holders:
  "\<exists>n m pc. reach mutex_step mutex_start n (m, pc) \<and> pc 1 = MHeld \<and> pc 2 = MHeld"
proof -
  let ?ts = "[(0, 0), (0, 0), (1, 0), (1, 0), (0, 0), (0, 0), (0, 0), (0, 0), (0, 0), (1, 0), (1, 0), (2, 0), (2, 0), (1, 0), (1, 0)]"
  have "case run mutex_step ?ts mutex_start of None \<Rightarrow> False | Some (m, pc) \<Rightarrow> pc 1 = MHeld \<and> pc 2 = MHeld" by code_simp
  then obtain m pc where r: "run mutex_step ?ts mutex_start = Some (m, pc)" "pc 1 = MHeld" "pc 2 = MHeld" by (auto split: option.splits)
  show ?thesis using run_reach [OF r(1) reach.start] r(2,3) by blast
qed

section \<open>Read-write mutex\<close>

text \<open>
  C13: A writer excludes every other writer and every reader, in every interleaving; the state is twice the
  number of readers, plus one while some task owns the writer bit.
\<close>

theorem rwmutex_exclusive:
  assumes "reach rwmutex_step rwmutex_start n (m, pc)" "w_holds (pc t)"
  shows "(\<forall>u. u \<noteq> t \<longrightarrow> \<not> w_holds (pc u)) \<and> (\<forall>u. \<not> r_holds (pc u)) \<and> w_state m = WRITER_BIT"
proof -
  have "rw_inv m pc" using rw.reach_Inv [OF assms(1)] by (simp add: rwmutex_inv_def)
  then obtain R :: "tid set" and W where R: "\<forall>t. r_holds (pc t) \<longleftrightarrow> t \<in> R" and W: "\<forall>t. w_owns (pc t) \<longleftrightarrow> W = Some t"
    and s: "w_state m = 2 * int (card R) + (if W = None then 0 else 1)" and h: "\<forall>t. w_holds (pc t) \<longrightarrow> R = {}"
    unfolding rw_inv_def by (elim exE conjE) (rule that, assumption+)
  have "R = {}" using h assms(2) by blast
  moreover have "W = Some t" using W assms(2) w_holds_owns by blast
  moreover have "u = t" if "w_holds (pc u)" for u using W w_holds_owns [OF that] \<open>W = Some t\<close> by (metis option.inject)
  ultimately show ?thesis using R s by auto
qed

theorem rwmutex_exclusive_witness:
  "\<exists>m pc n. reach rwmutex_step rwmutex_start n (m, pc) \<and> pc 0 = WHeld \<and> (\<forall>u. u \<noteq> 0 \<longrightarrow> \<not> w_holds (pc u)) \<and> w_state m = 1"
proof -
  have "case run rwmutex_step [(0, 1), (0, 0), (0, 0), (0, 0)] rwmutex_start of None \<Rightarrow> False | Some (m, pc) \<Rightarrow> pc 0 = WHeld" by code_simp
  then obtain m pc where r: "run rwmutex_step [(0, 1), (0, 0), (0, 0), (0, 0)] rwmutex_start = Some (m, pc)" "pc 0 = WHeld"
    by (auto split: option.splits)
  note rr = run_reach [OF r(1) reach.start]
  have "w_holds (pc 0)" using r(2) by simp
  then show ?thesis using rwmutex_exclusive [OF rr] rr r(2) unfolding WRITER_BIT_def by blast
qed

text \<open>
  C14: A writer that finds readers when it has set the writer bit yields without being in any queue. Once it
  is asleep it never wakes up: in every continuation it stays asleep, and no task acquires the lock any more,
  for reading or writing.
\<close>

theorem rwmutex_writer_sleeps:
  assumes "reach rwmutex_step rwmutex_start n (m, pc)" "pc t = WDrainAsleep" "reach rwmutex_step (m, pc) k (m', pc')"
  shows "pc' t = WDrainAsleep \<and> (\<forall>u. \<not> w_holds (pc' u)) \<and> (\<forall>u. r_holds (pc' u) \<longrightarrow> r_holds (pc u))"
proof -
  have "drain_asleep t {u. r_holds (pc u)} m pc" using rw.reach_Inv [OF assms(1)] assms(2) by (simp add: drain_asleep_def)
  then have d: "drain_asleep t {u. r_holds (pc u)} m' pc'" using drain_asleep_reach [OF assms(3)] by simp
  then show ?thesis using drain_asleep_no_writer(2) [OF d] by (simp add: drain_asleep_def)
qed

theorem rwmutex_writer_sleeps_witness:
  "\<exists>m pc n. reach rwmutex_step rwmutex_start n (m, pc) \<and> (\<forall>u. u \<noteq> 1 \<longrightarrow> pc u = RwIdle) \<and>
     (\<forall>k m' pc'. reach rwmutex_step (m, pc) k (m', pc') \<longrightarrow> pc' 1 = WDrainAsleep)"
proof -
  let ?ts = "[(0, 0), (0, 0), (0, 0), (1, 1), (1, 0), (1, 0), (1, 0), (1, 0), (0, 0), (0, 0), (0, 0), (0, 0), (0, 0)]"
  have "case run rwmutex_step ?ts rwmutex_start of None \<Rightarrow> False | Some (m, pc) \<Rightarrow> pc 0 = RwIdle \<and> pc 1 = WDrainAsleep" by code_simp
  then obtain m pc where r: "run rwmutex_step ?ts rwmutex_start = Some (m, pc)" "pc 0 = RwIdle" "pc 1 = WDrainAsleep" by (auto split: option.splits)
  note rr = run_reach [OF r(1) reach.start]
  have "pc u = RwIdle" if "u \<noteq> 1" for u
    using r(2) that run_other [OF r(1), of u] by (cases "u = 0") (simp_all add: rwmutex_start_def)
  moreover have "pc' 1 = WDrainAsleep" if "reach rwmutex_step (m, pc) k (m', pc')" for k m' pc'
    using rwmutex_writer_sleeps [OF rr r(3) that] by simp
  ultimately show ?thesis using rr by blast
qed

section \<open>Wait group\<close>

text \<open>
  C15: Fork and join: with the counter at the number of workers, each of which calls done once, no
  assertion fails, and whenever a task has returned from wait, every worker has called done.
\<close>

theorem waitgroup_joins:
  assumes "finite Wk" "reach waitgroup_step (fork_join Wk Wt) n (g, pc)" "u \<in> Wt - Wk" "pc u = GDone"
  shows "(\<forall>w\<in>Wk. pc w \<noteq> waitgroup_done) \<and> g_count g = 0 \<and> (\<forall>t. pc t \<noteq> GAbort)"
proof -
  have c: "g_count_inv Wk g pc" using wg.reach_Inv [OF assms(2)] assms(1) by (simp add: waitgroup_inv_def)
  have z: "g_count g = 0" using wait_returned [OF assms(1,2), of u] assms(3,4) by simp
  then show ?thesis using c assms(1) by (auto simp: g_count_inv_def)
qed

theorem waitgroup_joins_witness:
  "\<exists>g pc n. reach waitgroup_step (fork_join {0, 1} {2}) n (g, pc) \<and> pc 2 = GDone \<and> (\<forall>w\<in>{0, 1}. pc w \<noteq> waitgroup_done) \<and> g_count g = 0"
proof -
  let ?ts = "[(0, 0), (2, 0), (2, 0), (2, 0), (2, 0), (2, 0), (2, 0), (1, 0), (1, 0), (1, 0), (1, 0), (2, 0), (2, 0)]"
  have "case run waitgroup_step ?ts (fork_join {0, 1} {2}) of None \<Rightarrow> False | Some (g, pc) \<Rightarrow> pc 2 = GDone" by code_simp
  then obtain g pc where r: "run waitgroup_step ?ts (fork_join {0, 1} {2}) = Some (g, pc)" "pc 2 = GDone" by (auto split: option.splits)
  note rr = run_reach [OF r(1) reach.start]
  have f: "finite {0, 1 :: tid}" "(2 :: tid) \<in> {2} - {0, 1}" by simp_all
  show ?thesis using waitgroup_joins [OF f(1) rr f(2) r(2)] rr r(2) by blast
qed

text \<open>
  C16: Fork and join always ends: every schedule has at most twelve steps per task, and as long as some task
  has not returned, some task can take a step. So every call to wait returns, whatever the scheduler does.
\<close>

theorem waitgroup_terminates:
  assumes "finite Wk" "finite Wt" "reach waitgroup_step (fork_join Wk Wt) n (g, pc)"
  shows "n \<le> 12 * card (Wk \<union> Wt) \<and> ((\<forall>t. pc t = GDone) \<or> (\<exists>t. waitgroup_step t g (pc t) \<noteq> []))"
proof
  show "n \<le> 12 * card (Wk \<union> Wt)" using waitgroup_steps_bound [OF assms] by simp
  have "waitgroup_inv Wk g pc" using wg.reach_Inv [OF assms(3)] assms(1) by simp
  then show "(\<forall>t. pc t = GDone) \<or> (\<exists>t. waitgroup_step t g (pc t) \<noteq> [])" using waitgroup_progress by blast
qed

theorem waitgroup_terminates_witness:
  "\<exists>g pc n. reach waitgroup_step (fork_join {0} {1}) n (g, pc) \<and> n \<le> 24 \<and> pc 1 = GAsleep \<and> (\<exists>t. waitgroup_step t g (pc t) \<noteq> [])"
proof -
  let ?ts = "[(1, 0), (1, 0), (1, 0), (1, 0), (1, 0), (1, 0)]"
  have "case run waitgroup_step ?ts (fork_join {0} {1}) of None \<Rightarrow> False | Some (g, pc) \<Rightarrow> pc 1 = GAsleep" by code_simp
  then obtain g pc where r: "run waitgroup_step ?ts (fork_join {0} {1}) = Some (g, pc)" "pc 1 = GAsleep" by (auto split: option.splits)
  note rr = run_reach [OF r(1) reach.start]
  have "12 * card ({0} \<union> {1} :: nat set) = 24" by simp
  moreover have "pc 1 \<noteq> GDone" using r(2) by simp
  ultimately show ?thesis using waitgroup_terminates [OF _ _ rr] rr r(2) by fastforce
qed

end
