(* ===== verification/Gc.thy ===== *)
theory Gc
  imports Allocator
begin

text \<open>
  The garbage collector, \<^verbatim>\<open>src/runtime/src/gc.c\<close>: it scans the stacks and registers of all tasks for
  pointers, marks the chunks they point into, and releases every chunk in use that is not marked.

  All arenas share one memory. \<open>arenas\<close> is the list of the registered arena records; the sweep puts the
  arena it works on into the heap state, as the allocator has it. The roots are given as the list of tasks
  in the order of the ring \<open>roots\<close>. The world is stopped, so the collector runs alone. A word of a stack is
  a cell of the memory.
\<close>

section \<open>Arenas\<close>

definition MAX_ARENAS :: nat where [simp]: "MAX_ARENAS = 12"
definition GC_ALIGN_MASK :: int where [simp]: "GC_ALIGN_MASK = 7"

text \<open>\<open>gc_create_arena\<close>: at most \<open>MAX_ARENAS\<close>, and registered in the order of creation.\<close>

definition gc_create_arena :: "os \<Rightarrow> arena_t list \<Rightarrow> heap_state \<Rightarrow> (arena_t list \<times> heap_state) option" where
  "gc_create_arena os arenas s =
     (if length arenas + 1 > MAX_ARENAS then None
      else do {
        s \<leftarrow> arena_create os s;
        Some (arenas @ [arena s], s)
      })"

section \<open>Marking\<close>

partial_function (option) find_chunk_loop :: "mem \<Rightarrow> addr \<Rightarrow> addr \<Rightarrow> addr \<Rightarrow> addr option" where
  [code]: "find_chunk_loop m heap_end ptr scan =
     (if scan < heap_end then
        let payload_size = get_usize m scan in
        if \<not> is_curr_inuse m scan then find_chunk_loop m heap_end ptr (scan + (HEADER_SIZE + payload_size))
        else
          let payload_start = scan + HEADER_SIZE;
              payload_end = payload_start + payload_size
          in if ptr \<ge> payload_start \<and> ptr < payload_end then Some scan
             else find_chunk_loop m heap_end ptr (scan + (HEADER_SIZE + payload_size))
      else Some NULL)"

definition find_chunk_in_heap :: "mem \<Rightarrow> addr \<times> addr \<Rightarrow> addr \<Rightarrow> addr option" where
  "find_chunk_in_heap m heap ptr = find_chunk_loop m (snd heap) ptr (fst heap)"

definition is_pointer_aligned :: "int \<Rightarrow> bool" where
  "is_pointer_aligned v \<longleftrightarrow> v AND GC_ALIGN_MASK = 0"

text \<open>
  \<open>mark_chunk_recursive\<close> and \<open>gc_mark_mem_region\<close> call each other; the first three functions take the
  scan of a region as an argument.
\<close>

definition mark_chunk_recursive :: "(addr \<Rightarrow> addr \<Rightarrow> mem \<Rightarrow> mem option) \<Rightarrow> addr \<Rightarrow> mem \<Rightarrow> mem option" where
  "mark_chunk_recursive mark_region ch m =
     (if m ch AND GC_MARK_FLAG_MASK \<noteq> 0 then Some m
      else mark_region (ch + HEADER_SIZE) (ch + HEADER_SIZE + get_usize m ch) m)"

fun try_mark_heaps :: "(addr \<Rightarrow> addr \<Rightarrow> mem \<Rightarrow> mem option) \<Rightarrow> (addr \<times> addr) list \<Rightarrow> addr \<Rightarrow> mem \<Rightarrow> (int \<times> mem) option" where
  "try_mark_heaps mark_region [] p m = Some (0, m)"
| "try_mark_heaps mark_region ((hs, he) # heaps) p m =
     (if p < hs \<or> p \<ge> he then try_mark_heaps mark_region heaps p m
      else do {
        ch \<leftarrow> find_chunk_in_heap m (hs, he) p;
        if ch = NULL then Some (0, m)
        else do {
          m \<leftarrow> mark_chunk_recursive mark_region ch (m(ch := m ch OR GC_MARK_FLAG_MASK));
          Some (1, m)
        }
      })"

text \<open>The two loops over the arenas and their heaps end at the first heap that contains the pointer.\<close>

definition try_mark_pointer :: "(addr \<Rightarrow> addr \<Rightarrow> mem \<Rightarrow> mem option) \<Rightarrow> arena_t list \<Rightarrow> int \<Rightarrow> mem \<Rightarrow> (int \<times> mem) option" where
  "try_mark_pointer mark_region arenas val m =
     (if \<not> is_pointer_aligned val then Some (0, m)
      else try_mark_heaps mark_region (concat (map alloced_heaps arenas)) val m)"

lemma try_mark_heaps_mono:
  assumes "\<And>a b m. monotone (fun_ord option_ord) option_ord (\<lambda>f. R f a b m)"
  shows "monotone (fun_ord option_ord) option_ord (\<lambda>f. try_mark_heaps (R f) heaps p m)"
proof (induction heaps)
  case (Cons h heaps)
  obtain hs he where h: "h = (hs, he)" by fastforce
  show ?case unfolding h try_mark_heaps.simps mark_chunk_recursive_def
    by (intro partial_function_mono assms Cons.IH)
qed (simp add: partial_function_mono)

lemma try_mark_pointer_mono [partial_function_mono]:
  assumes "\<And>a b m. monotone (fun_ord option_ord) option_ord (\<lambda>f. R f a b m)"
  shows "monotone (fun_ord option_ord) option_ord (\<lambda>f. try_mark_pointer (R f) arenas v m)"
  unfolding try_mark_pointer_def by (intro partial_function_mono try_mark_heaps_mono assms)

partial_function (option) gc_mark_mem_region :: "arena_t list \<Rightarrow> addr \<Rightarrow> addr \<Rightarrow> mem \<Rightarrow> mem option" where
  [code]: "gc_mark_mem_region arenas p end_p m =
     (if p + 8 \<le> end_p then do {
        let val = m p;
        (_, m) \<leftarrow> (if val = 0 then Some (0, m) else try_mark_pointer (\<lambda>a b m. gc_mark_mem_region arenas a b m) arenas val m);
        gc_mark_mem_region arenas (p + 8) end_p m
      } else Some m)"

text \<open>The saved context of a task, as \<^verbatim>\<open>src/runtime/src/platform/linux/context.c\<close> reads it.\<close>

record platform_ctx_t =
  platform_ctx_get_stack_base :: addr
  platform_ctx_get_stack_size :: int
  platform_ctx_get_stack_pointer :: addr
  platform_ctx_get_pc :: addr
  platform_ctx_regs :: "int list"

definition platform_ctx_get_reg :: "platform_ctx_t \<Rightarrow> nat \<Rightarrow> int" where
  "platform_ctx_get_reg ctx i = platform_ctx_regs ctx ! i"

datatype task_state = TASK_RUNNING | TASK_YIELDED | TASK_FINISHED

record root_task =
  t_state :: task_state
  t_ctx :: platform_ctx_t

fun mark_regs :: "arena_t list \<Rightarrow> platform_ctx_t \<Rightarrow> nat list \<Rightarrow> mem \<Rightarrow> mem option" where
  "mark_regs arenas ctx [] m = Some m"
| "mark_regs arenas ctx (i # is) m = do {
     let val = platform_ctx_get_reg ctx i;
     (_, m) \<leftarrow> (if val = 0 then Some (0, m) else try_mark_pointer (gc_mark_mem_region arenas) arenas val m);
     mark_regs arenas ctx is m
   }"

definition gc_mark_registers :: "arena_t list \<Rightarrow> platform_ctx_t \<Rightarrow> mem \<Rightarrow> mem option" where
  "gc_mark_registers arenas ctx m = do {
     m \<leftarrow> mark_regs arenas ctx [0..<31] m;
     (_, m) \<leftarrow> try_mark_pointer (gc_mark_mem_region arenas) arenas (platform_ctx_get_stack_pointer ctx) m;
     (_, m) \<leftarrow> try_mark_pointer (gc_mark_mem_region arenas) arenas (platform_ctx_get_pc ctx) m;
     Some m
   }"

definition gc_mark_task :: "arena_t list \<Rightarrow> platform_ctx_t \<Rightarrow> mem \<Rightarrow> mem option" where
  "gc_mark_task arenas ctx m = do {
     let stack_bottom = platform_ctx_get_stack_base ctx;
     let stack_top = stack_bottom + platform_ctx_get_stack_size ctx;
     let sp = platform_ctx_get_stack_pointer ctx;
     if sp < stack_bottom \<or> sp > stack_top then Some m
     else do {
       m \<leftarrow> gc_mark_mem_region arenas stack_bottom stack_top m;
       gc_mark_registers arenas ctx m
     }
   }"

fun gc_mark :: "arena_t list \<Rightarrow> root_task list \<Rightarrow> mem \<Rightarrow> mem option" where
  "gc_mark arenas [] m = Some m"
| "gc_mark arenas (t # roots) m = do {
     m \<leftarrow> (if t_state t \<noteq> TASK_FINISHED then gc_mark_task arenas (t_ctx t) m else Some m);
     gc_mark arenas roots m
   }"

section \<open>Sweeping\<close>

partial_function (option) sweep_loop :: "os \<Rightarrow> addr \<Rightarrow> addr \<Rightarrow> heap_state \<Rightarrow> heap_state option" where
  [code]: "sweep_loop os heap_end scan s =
     (if scan < heap_end then do {
        let m = hmem s;
        let payload_size = get_usize m scan;
        s \<leftarrow> (if m scan AND GC_MARK_FLAG_MASK \<noteq> 0 then Some (put_mem (m(scan := m scan AND NOT GC_MARK_FLAG_MASK)) s)
              else if is_curr_inuse m scan then release os (scan + HEADER_SIZE) s
              else Some s);
        sweep_loop os heap_end (scan + (HEADER_SIZE + payload_size)) s
      } else Some s)"

fun sweep_heaps :: "os \<Rightarrow> (addr \<times> addr) list \<Rightarrow> heap_state \<Rightarrow> heap_state option" where
  "sweep_heaps os [] s = Some s"
| "sweep_heaps os ((hs, he) # heaps) s = do { s \<leftarrow> sweep_loop os he hs s; sweep_heaps os heaps s }"

fun gc_sweep :: "os \<Rightarrow> arena_t list \<Rightarrow> heap_state \<Rightarrow> (arena_t list \<times> heap_state) option" where
  "gc_sweep os [] s = Some ([], s)"
| "gc_sweep os (ar # arenas) s = do {
     s \<leftarrow> sweep_heaps os (alloced_heaps ar) (s\<lparr>arena := ar\<rparr>);
     (arenas', s') \<leftarrow> gc_sweep os arenas s;
     Some (arena s # arenas', s')
   }"

text \<open>\<open>gc_collect\<close> between stopping and resuming the world.\<close>

definition gc_collect :: "os \<Rightarrow> arena_t list \<Rightarrow> root_task list \<Rightarrow> heap_state \<Rightarrow> (arena_t list \<times> heap_state) option" where
  "gc_collect os arenas roots s = do {
     m \<leftarrow> gc_mark arenas roots (hmem s);
     gc_sweep os arenas (put_mem m s)
   }"

section \<open>Rows of chunks\<close>

text \<open>\<open>row m b e cs\<close>: in the memory, the chunks \<open>cs\<close> follow each other from \<open>b\<close> to \<open>e\<close>.\<close>

fun row :: "mem \<Rightarrow> addr \<Rightarrow> addr \<Rightarrow> addr list \<Rightarrow> bool" where
  "row m b e [] \<longleftrightarrow> b = e"
| "row m b e (c # cs) \<longleftrightarrow> c = b \<and> 32 \<le> get_size m c \<and> row m (c + 16 + get_size m c) e cs"

definition holds :: "mem \<Rightarrow> addr \<Rightarrow> addr \<Rightarrow> bool" where
  "holds m p c \<longleftrightarrow> is_curr_inuse m c \<and> c + 16 \<le> p \<and> p < c + 16 + get_size m c"

lemma row_bounds: "row m b e cs \<Longrightarrow> b \<le> e \<and> (\<forall>c\<in>set cs. b \<le> c \<and> c + 16 + get_size m c \<le> e)"
proof (induction cs arbitrary: b)
  case (Cons c cs)
  have "c + 16 + get_size m c \<le> e \<and> (\<forall>x\<in>set cs. c + 16 + get_size m c \<le> x \<and> x + 16 + get_size m x \<le> e)"
    by (rule Cons.IH) (use Cons.prems in auto)
  then show ?case using Cons.prems by fastforce
qed simp

lemma row_cong: "(\<And>c. c \<in> set cs \<Longrightarrow> m' (c + 8) = m (c + 8)) \<Longrightarrow> row m' b e cs = row m b e cs"
  by (induction cs arbitrary: b) (auto simp: get_size_def)

lemma row_spaced: "row m b e cs \<Longrightarrow> c \<in> set cs \<Longrightarrow> d \<in> set cs \<Longrightarrow> c < d \<Longrightarrow> c + 16 + get_size m c \<le> d"
proof (induction cs arbitrary: b)
  case (Cons x cs)
  note b = row_bounds [of m "x + 16 + get_size m x" e cs]
  show ?case using Cons.prems Cons.IH [of "x + 16 + get_size m x"] b by (cases "c = x"; cases "d = x") auto
qed simp

lemma row_size: "row m b e cs \<Longrightarrow> c \<in> set cs \<Longrightarrow> 32 \<le> get_size m c"
  by (induction cs arbitrary: b) auto

lemma row_cell: "row m b e cs \<Longrightarrow> c \<in> set cs \<Longrightarrow> d \<in> set cs \<Longrightarrow> c \<noteq> d + 8"
  using row_spaced [of m b e cs d c] row_size [of m b e cs d] by (cases "d < c") auto

lemma find_chunk_loop_row:
  "row m b e cs \<Longrightarrow> find_chunk_loop m e p b = Some (case find (holds m p) cs of None \<Rightarrow> NULL | Some c \<Rightarrow> c)"
proof (induction cs arbitrary: b)
  case Nil
  then show ?case by (simp add: find_chunk_loop.simps)
next
  case (Cons c cs)
  have "b < e" using row_bounds [OF Cons.prems] Cons.prems by auto
  moreover have "get_usize m c = get_size m c" using Cons.prems by (intro get_usize_eq) auto
  moreover have "find_chunk_loop m e p (c + 16 + get_size m c) = Some (case find (holds m p) cs of None \<Rightarrow> NULL | Some c \<Rightarrow> c)"
    by (rule Cons.IH) (use Cons.prems in auto)
  ultimately show ?case using Cons.prems
    by (subst find_chunk_loop.simps) (auto simp: holds_def Let_def add.assoc)
qed

lemma row_of_arena:
  assumes mi: "minv m A G {}" and h: "(b, e) \<in> ghs G"
  shows "\<exists>cs. row m b e cs \<and> set cs = {c \<in> gC G. b \<le> c \<and> c < e}"
proof -
  have s: "shape A G" by (rule minvD(1) [OF mi])
  have e: "e \<in> gB G" and r: "(b, e) \<in> (grel G)\<^sup>+" using h by (auto simp: ghs_def)
  have sz: "get_size m c = gsz G c" "32 \<le> gsz G c" "c < gnext G c" if "c \<in> gC G" for c
    using that minvD(2) [OF mi] shapeD(5) [OF s] by (auto simp: hdr_ok_def layout_ok_def gnext_def)
  have ap: "c = x \<or> gnext G c \<le> x" if "c \<in> gC G" "x \<in> gC G" "c \<le> x" for c x
    using objs_apart [OF s, of c x] that by (cases "c = x") (auto simp: objs_def gext_def gnext_def)
  show ?thesis using r
  proof (induction rule: converse_trancl_induct)
    case (base b)
    then have b: "b \<in> gC G" "e = gnext G b" by (auto simp: grel_def)
    have "{c \<in> gC G. b \<le> c \<and> c < e} = {b}" using b ap sz(3) [OF b(1)] by force
    then show ?case using b sz by (intro exI [of _ "[b]"]) (simp add: gnext_def)
  next
    case (step b y)
    then obtain cs where cs: "row m y e cs" "set cs = {c \<in> gC G. y \<le> c \<and> c < e}" by auto
    have b: "b \<in> gC G" "y = gnext G b" using step.hyps(1) by (auto simp: grel_def)
    have ye: "y < e" by (rule grel_less [OF step.hyps(2) s])
    have "{c \<in> gC G. b \<le> c \<and> c < e} = insert b (set cs)" using b ap sz(3) [OF b(1)] cs(2) ye by force
    then show ?case using b sz cs(1) by (intro exI [of _ "b # cs"]) (simp add: gnext_def)
  qed
qed

section \<open>What marking does\<close>

text \<open>
  \<open>tiled m H\<close>: the heaps \<open>H\<close> are rows of chunks in the memory and do not overlap. \<open>chunks m H\<close> are their
  chunks, and \<open>marked m S\<close> is the memory with the mark bit set in the chunks \<open>S\<close>.
\<close>

definition tiled :: "mem \<Rightarrow> (addr \<times> addr) list \<Rightarrow> bool" where
  "tiled m H \<longleftrightarrow> (\<forall>(b, e)\<in>set H. 0 < b \<and> (\<exists>cs. row m b e cs)) \<and>
     (\<forall>h\<in>set H. \<forall>k\<in>set H. h \<noteq> k \<longrightarrow> snd h \<le> fst k \<or> snd k \<le> fst h)"

definition chunks :: "mem \<Rightarrow> (addr \<times> addr) list \<Rightarrow> addr set" where
  "chunks m H = {c. \<exists>(b, e)\<in>set H. \<exists>cs. row m b e cs \<and> c \<in> set cs}"

definition marked :: "mem \<Rightarrow> addr set \<Rightarrow> mem" where
  "marked m S a = (if a \<in> S then m a OR 2 else m a)"

definition target :: "mem \<Rightarrow> (addr \<times> addr) list \<Rightarrow> int \<Rightarrow> addr set" where
  "target m H w = {c \<in> chunks m H. is_pointer_aligned w \<and> holds m w c}"

lemma chunksI: "(b, e) \<in> set H \<Longrightarrow> row m b e cs \<Longrightarrow> c \<in> set cs \<Longrightarrow> c \<in> chunks m H"
  by (auto simp: chunks_def)

lemma chunksE:
  assumes "c \<in> chunks m H"
  obtains b e cs where "(b, e) \<in> set H" "row m b e cs" "c \<in> set cs"
  using assms by (auto simp: chunks_def)

lemma row_unique: "row m b e cs \<Longrightarrow> row m b e ds \<Longrightarrow> cs = ds"
proof (induction cs arbitrary: b ds)
  case Nil
  then show ?case using row_bounds [of m b e ds] by (cases ds) auto
next
  case (Cons c cs)
  show ?case
  proof (cases ds)
    case Nil
    then show ?thesis using Cons.prems row_bounds [OF Cons.prems(1)] by auto
  next
    case (Cons d ds')
    then show ?thesis using Cons.IH Cons.prems by auto
  qed
qed

lemma tiled_apart:
  "tiled m H \<Longrightarrow> (b, e) \<in> set H \<Longrightarrow> (b', e') \<in> set H \<Longrightarrow> (b, e) \<noteq> (b', e') \<Longrightarrow> e \<le> b' \<or> e' \<le> b"
  unfolding tiled_def by fastforce

lemma tiled_cell:
  assumes t: "tiled m H" and c: "c \<in> chunks m H" and d: "d \<in> chunks m H"
  shows "c \<noteq> d + 8" "c \<noteq> 0"
proof -
  obtain b e cs where 1: "(b, e) \<in> set H" "row m b e cs" "c \<in> set cs" using c by (auto simp: chunks_def)
  obtain b' e' ds where 2: "(b', e') \<in> set H" "row m b' e' ds" "d \<in> set ds" using d by (auto simp: chunks_def)
  have i: "b \<le> c" "c < e" "b' \<le> d" "d + 8 < e'"
    using row_bounds [OF 1(2)] row_bounds [OF 2(2)] row_size [OF 1(2,3)] row_size [OF 2(2,3)] 1(3) 2(3) by fastforce+
  show "c \<noteq> 0" using t 1(1) i(1) by (auto simp: tiled_def)
  show "c \<noteq> d + 8"
  proof (cases "(b, e) = (b', e')")
    case True
    then have "cs = ds" using row_unique 1(2) 2(2) by blast
    then show ?thesis using row_cell [OF 1(2,3)] 2(3) by blast
  next
    case False
    then have "e \<le> b' \<or> e' \<le> b" using tiled_apart [OF t 1(1) 2(1)] by blast
    then show ?thesis using i by linarith
  qed
qed

lemma marked_size:
  assumes "tiled m H" "S \<subseteq> chunks m H" "c \<in> chunks m H"
  shows "marked m S (c + 8) = m (c + 8)"
  using tiled_cell(1) [OF assms(1) _ assms(3)] assms(2) by (auto simp: marked_def)

lemma marked_row:
  assumes "tiled m H" "S \<subseteq> chunks m H" "(b, e) \<in> set H"
  shows "row (marked m S) b e cs = row m b e cs"
proof -
  obtain ds where ds: "row m b e ds" using assms(1,3) by (auto simp: tiled_def)
  have eq: "marked m S (c + 8) = m (c + 8)" if "c \<in> set ds" for c
    by (rule marked_size [OF assms(1,2)]) (use that ds assms(3) in \<open>auto simp: chunks_def\<close>)
  have ds': "row (marked m S) b e ds" using row_cong [of ds "marked m S" m, OF eq] ds by blast
  show ?thesis using row_unique [OF ds, of cs] row_unique [OF ds', of cs] ds ds' by blast
qed

lemma marked_holds:
  assumes "tiled m H" "S \<subseteq> chunks m H" "c \<in> chunks m H"
  shows "holds (marked m S) p c = holds m p c" "get_size (marked m S) c = get_size m c"
  using marked_size [OF assms] by (simp_all add: holds_def is_curr_inuse_def get_size_def)

lemma marked_tiled:
  assumes "tiled m H" "S \<subseteq> chunks m H"
  shows "tiled (marked m S) H" "chunks (marked m S) H = chunks m H"
proof -
  note r = marked_row [OF assms]
  have "0 < b \<and> (\<exists>cs. row (marked m S) b e cs)" if "(b, e) \<in> set H" for b e
    using assms(1) that r [OF that] by (auto simp: tiled_def)
  then show "tiled (marked m S) H" using assms(1) unfolding tiled_def by blast
  show "chunks (marked m S) H = chunks m H" using r by (auto elim!: chunksE intro: chunksI)
qed

lemma marked_empty [simp]: "marked m {} = m"
  by (simp add: marked_def fun_eq_iff)

lemma or_and_two: "(x OR 2) AND 2 = (2 :: int)"
  by (rule bit_eqI) (auto simp: bit_simps)

lemma marked_insert: "(marked m S)(c := marked m S c OR 2) = marked m (insert c S)"
  by (auto simp: marked_def fun_eq_iff or.assoc)

lemma holds_unique:
  assumes t: "tiled m H" and c: "c \<in> chunks m H" "holds m p c" and h: "(b, e) \<in> set H" "b \<le> p" "p < e" and r: "row m b e cs"
  shows "find (holds m p) cs = Some c"
proof -
  obtain b' e' ds where 1: "(b', e') \<in> set H" "row m b' e' ds" "c \<in> set ds" using c by (auto simp: chunks_def)
  have "b' \<le> c" "c + 16 + get_size m c \<le> e'" using row_bounds [OF 1(2)] 1(3) by auto
  then have "b' \<le> p" "p < e'" using c(2) by (auto simp: holds_def)
  then have "\<not> (e' \<le> b \<or> e \<le> b')" using h(2,3) by linarith
  then have "(b', e') = (b, e)" using tiled_apart [OF t 1(1) h(1)] by blast
  then have ds: "ds = cs" using row_unique 1(2) r by blast
  have "x = c" if "x \<in> set cs" "holds m p x" for x
    using row_spaced [OF r, of x c] row_spaced [OF r, of c x] that c(2) 1(3) ds unfolding holds_def by fastforce
  then have "\<exists>y. find (holds m p) cs = Some y \<and> y = c"
    using c(2) 1(3) ds by (metis find_None_iff find_Some_iff nth_mem not_Some_eq)
  then show ?thesis by blast
qed

lemma try_mark_row:
  assumes t: "tiled m H"
  shows "set H' \<subseteq> set H \<Longrightarrow> (\<And>c. c \<in> chunks m H \<Longrightarrow> holds m p c \<Longrightarrow> c \<in> chunks m H') \<Longrightarrow>
    \<exists>f. try_mark_heaps R H' p m = Some (f, marked m {c \<in> chunks m H. holds m p c})"
proof (induction H')
  case Nil
  then have "{c \<in> chunks m H. holds m p c} = {}" by (auto simp: chunks_def)
  then show ?case by (simp only: try_mark_heaps.simps marked_empty) simp
next
  case (Cons h H')
  obtain b e where h: "h = (b, e)" by fastforce
  have bH: "(b, e) \<in> set H" using Cons.prems(1) h by auto
  obtain cs where cs: "row m b e cs" using t bH by (auto simp: tiled_def)
  show ?case
  proof (cases "p < b \<or> p \<ge> e")
    case True
    have "c \<in> chunks m H'" if c: "c \<in> chunks m H" "holds m p c" for c
    proof -
      obtain b' e' ds where 1: "(b', e') \<in> set (h # H')" "row m b' e' ds" "c \<in> set ds" using Cons.prems(2) [OF c] by (auto simp: chunks_def)
      have "b' \<le> p" "p < e'" using row_bounds [OF 1(2)] 1(3) c(2) by (auto simp: holds_def)
      then have "(b', e') \<in> set H'" using 1(1) h True by auto
      then show ?thesis using 1 by (auto simp: chunks_def)
    qed
    then show ?thesis using Cons.IH Cons.prems(1) True h by simp
  next
    case False
    note fc = find_chunk_loop_row [OF cs, of p]
    show ?thesis
    proof (cases "find (holds m p) cs")
      case None
      then have "{c \<in> chunks m H. holds m p c} = {}" using holds_unique [OF t _ _ bH _ _ cs] False by auto
      then show ?thesis using None fc False h by (simp only: marked_empty) (simp add: find_chunk_in_heap_def)
    next
      case (Some c)
      have c: "c \<in> set cs" "holds m p c" using Some by (auto simp: find_Some_iff)
      then have cH: "c \<in> chunks m H" using bH cs by (auto simp: chunks_def)
      have "x = c" if "x \<in> chunks m H" "holds m p x" for x
        using holds_unique [OF t that bH _ _ cs] False Some by auto
      then have "{c \<in> chunks m H. holds m p c} = {c}" using cH c(2) by blast
      moreover have "(m(c := m c OR 2)) c AND 2 \<noteq> 0" by (simp add: or_and_two)
      moreover have "m(c := m c OR 2) = marked m {c}" by (auto simp: marked_def)
      ultimately show ?thesis using Some fc False h tiled_cell(2) [OF t cH cH]
        by (simp add: find_chunk_in_heap_def mark_chunk_recursive_def)
    qed
  qed
qed

lemma marked_target:
  assumes "tiled m H" "S \<subseteq> chunks m H"
  shows "target (marked m S) H w = target m H w"
  using marked_tiled(2) [OF assms] marked_holds(1) [OF assms] by (auto simp: target_def)

lemma marked_marked: "marked (marked m S) T = marked m (S \<union> T)"
  by (auto simp: marked_def fun_eq_iff or.assoc)

lemma target_chunks: "target m H w \<subseteq> chunks m H"
  by (auto simp: target_def)

lemma try_mark_pointer_marks:
  assumes t: "tiled m (concat (map alloced_heaps arenas))" and S: "S \<subseteq> chunks m (concat (map alloced_heaps arenas))"
  shows "\<exists>f. try_mark_pointer R arenas w (marked m S) =
     Some (f, marked m (S \<union> target m (concat (map alloced_heaps arenas)) w))"
proof (cases "is_pointer_aligned w")
  case True
  let ?H = "concat (map alloced_heaps arenas)"
  have "{c \<in> chunks (marked m S) ?H. holds (marked m S) w c} = target m ?H w"
    using True marked_target [OF t S, of w] by (auto simp: target_def)
  then show ?thesis
    using try_mark_row [OF marked_tiled(1) [OF t S] subset_refl, of w R] True
    by (simp add: try_mark_pointer_def marked_marked)
qed (auto simp: try_mark_pointer_def target_def)

text \<open>\<open>words m p e\<close>: the words the scan of the region from \<open>p\<close> to \<open>e\<close> reads.\<close>

definition words :: "mem \<Rightarrow> addr \<Rightarrow> addr \<Rightarrow> int set" where
  "words m p e = (\<lambda>k. m (p + 8 * int k)) ` {k. p + 8 * int k + 8 \<le> e}"

lemma words_step: "words m p e = (if p + 8 \<le> e then insert (m p) (words m (p + 8) e) else {})"
proof (cases "p + 8 \<le> e")
  case True
  have "k \<in> insert 0 (Suc ` {k. p + 8 + 8 * int k + 8 \<le> e})" if "p + 8 * int k + 8 \<le> e" for k
    using that by (cases k) auto
  then have "{k. p + 8 * int k + 8 \<le> e} = insert 0 (Suc ` {k. p + 8 + 8 * int k + 8 \<le> e})" using True by auto
  then show ?thesis using True by (simp add: words_def image_image algebra_simps)
qed (auto simp: words_def)

definition clear :: "addr \<Rightarrow> addr \<Rightarrow> (addr \<times> addr) list \<Rightarrow> bool" where
  "clear lo hi H \<longleftrightarrow> (\<forall>(b, e)\<in>set H. hi \<le> b \<or> e \<le> lo)"

lemma clear_chunks: "clear lo hi H \<Longrightarrow> tiled m H \<Longrightarrow> c \<in> chunks m H \<Longrightarrow> c < lo \<or> hi \<le> c"
  using row_bounds by (fastforce simp: clear_def chunks_def get_size_def dest: row_size)

lemma target_zero: "tiled m H \<Longrightarrow> target m H 0 = {}"
  using row_bounds by (fastforce simp: target_def chunks_def tiled_def holds_def)

lemma gc_mark_mem_region_marks:
  assumes t: "tiled m (concat (map alloced_heaps arenas))"
  shows "clear p e (concat (map alloced_heaps arenas)) \<Longrightarrow> S \<subseteq> chunks m (concat (map alloced_heaps arenas)) \<Longrightarrow>
    gc_mark_mem_region arenas p e (marked m S) =
      Some (marked m (S \<union> (\<Union>w\<in>words m p e. target m (concat (map alloced_heaps arenas)) w)))"
proof (induction "nat (e - p)" arbitrary: p S rule: less_induct)
  case less
  let ?H = "concat (map alloced_heaps arenas)"
  show ?case
  proof (cases "p + 8 \<le> e")
    case True
    have "p \<notin> S" using clear_chunks [OF less.prems(1) t] less.prems(2) True by force
    then have mp: "marked m S p = m p" by (simp add: marked_def)
    obtain f where f: "try_mark_pointer (gc_mark_mem_region arenas) arenas (m p) (marked m S) = Some (f, marked m (S \<union> target m ?H (m p)))"
      using try_mark_pointer_marks [OF t less.prems(2)] by blast
    have "clear (p + 8) e ?H" using less.prems(1) True by (fastforce simp: clear_def)
    then have "gc_mark_mem_region arenas (p + 8) e (marked m (S \<union> target m ?H (m p))) =
        Some (marked m (S \<union> target m ?H (m p) \<union> (\<Union>w\<in>words m (p + 8) e. target m ?H w)))"
      using less.hyps [of "p + 8" "S \<union> target m ?H (m p)"] True less.prems(2) target_chunks by simp
    then show ?thesis using True f mp target_zero [OF t] words_step [of m p e]
      by (cases "m p = 0") (simp_all add: gc_mark_mem_region.simps [of arenas p] Un_assoc)
  next
    case False
    then show ?thesis using words_step [of m p e] by (subst gc_mark_mem_region.simps) simp
  qed
qed

text \<open>The words that the collector takes for pointers.\<close>

definition reg_words :: "platform_ctx_t \<Rightarrow> int set" where
  "reg_words ctx = platform_ctx_get_reg ctx ` {0..<31} \<union> {platform_ctx_get_stack_pointer ctx, platform_ctx_get_pc ctx}"

definition task_words :: "mem \<Rightarrow> platform_ctx_t \<Rightarrow> int set" where
  "task_words m ctx =
     (let lo = platform_ctx_get_stack_base ctx; hi = lo + platform_ctx_get_stack_size ctx in
      if platform_ctx_get_stack_pointer ctx \<in> {lo..hi} then words m lo hi \<union> reg_words ctx else {})"

definition root_words :: "mem \<Rightarrow> root_task list \<Rightarrow> int set" where
  "root_words m roots = (\<Union>t\<in>{t \<in> set roots. t_state t \<noteq> TASK_FINISHED}. task_words m (t_ctx t))"

definition rooted :: "mem \<Rightarrow> (addr \<times> addr) list \<Rightarrow> root_task list \<Rightarrow> addr set" where
  "rooted m H roots = (\<Union>w\<in>root_words m roots. target m H w)"

definition stacks_clear :: "root_task list \<Rightarrow> (addr \<times> addr) list \<Rightarrow> bool" where
  "stacks_clear roots H \<longleftrightarrow> (\<forall>t\<in>set roots.
     clear (platform_ctx_get_stack_base (t_ctx t)) (platform_ctx_get_stack_base (t_ctx t) + platform_ctx_get_stack_size (t_ctx t)) H)"

lemma mark_regs_marks:
  assumes t: "tiled m (concat (map alloced_heaps arenas))"
  shows "S \<subseteq> chunks m (concat (map alloced_heaps arenas)) \<Longrightarrow>
    mark_regs arenas ctx is (marked m S) =
      Some (marked m (S \<union> (\<Union>w\<in>platform_ctx_get_reg ctx ` set is. target m (concat (map alloced_heaps arenas)) w)))"
proof (induction "is" arbitrary: S)
  case (Cons i "is")
  let ?v = "platform_ctx_get_reg ctx i" and ?H = "concat (map alloced_heaps arenas)"
  obtain f where f: "try_mark_pointer (gc_mark_mem_region arenas) arenas ?v (marked m S) = Some (f, marked m (S \<union> target m ?H ?v))"
    using try_mark_pointer_marks [OF t Cons.prems] by blast
  note IH = Cons.IH [of "S \<union> target m ?H ?v"]
  show ?case using f IH Cons.prems target_chunks target_zero [OF t] by (cases "?v = 0") (auto simp: Un_assoc)
qed simp

lemma gc_mark_registers_marks:
  assumes t: "tiled m (concat (map alloced_heaps arenas))" and S: "S \<subseteq> chunks m (concat (map alloced_heaps arenas))"
  shows "gc_mark_registers arenas ctx (marked m S) =
      Some (marked m (S \<union> (\<Union>w\<in>reg_words ctx. target m (concat (map alloced_heaps arenas)) w)))"
proof -
  let ?H = "concat (map alloced_heaps arenas)"
  let ?R = "\<Union>w\<in>platform_ctx_get_reg ctx ` {0..<31}. target m ?H w"
  let ?sp = "target m ?H (platform_ctx_get_stack_pointer ctx)" and ?pc = "target m ?H (platform_ctx_get_pc ctx)"
  have R: "?R \<subseteq> chunks m ?H" "?sp \<subseteq> chunks m ?H" by (auto simp: target_def)
  obtain f g where
    "try_mark_pointer (gc_mark_mem_region arenas) arenas (platform_ctx_get_stack_pointer ctx) (marked m (S \<union> ?R)) = Some (f, marked m (S \<union> ?R \<union> ?sp))"
    "try_mark_pointer (gc_mark_mem_region arenas) arenas (platform_ctx_get_pc ctx) (marked m (S \<union> ?R \<union> ?sp)) = Some (g, marked m (S \<union> ?R \<union> ?sp \<union> ?pc))"
    using try_mark_pointer_marks [OF t] S R by (metis Un_least)
  moreover have "S \<union> (\<Union>w\<in>reg_words ctx. target m ?H w) = S \<union> ?R \<union> ?sp \<union> ?pc" by (auto simp: reg_words_def)
  ultimately show ?thesis using mark_regs_marks [OF t S, of ctx "[0..<31]"] by (simp add: gc_mark_registers_def)
qed

lemma gc_mark_task_marks:
  assumes t: "tiled m (concat (map alloced_heaps arenas))" and S: "S \<subseteq> chunks m (concat (map alloced_heaps arenas))"
    and c: "clear (platform_ctx_get_stack_base ctx) (platform_ctx_get_stack_base ctx + platform_ctx_get_stack_size ctx) (concat (map alloced_heaps arenas))"
  shows "gc_mark_task arenas ctx (marked m S) =
      Some (marked m (S \<union> (\<Union>w\<in>task_words m ctx. target m (concat (map alloced_heaps arenas)) w)))"
proof -
  let ?H = "concat (map alloced_heaps arenas)" and ?lo = "platform_ctx_get_stack_base ctx"
  let ?W = "\<Union>w\<in>words m ?lo (?lo + platform_ctx_get_stack_size ctx). target m ?H w"
  have "S \<union> ?W \<subseteq> chunks m ?H" using S by (auto simp: target_def)
  note 1 = gc_mark_registers_marks [OF t this, of ctx]
  note 2 = gc_mark_mem_region_marks [OF t c S]
  show ?thesis using 1 2 by (auto simp: gc_mark_task_def task_words_def Let_def Un_assoc)
qed

lemma gc_mark_marks:
  assumes t: "tiled m (concat (map alloced_heaps arenas))"
  shows "stacks_clear roots (concat (map alloced_heaps arenas)) \<Longrightarrow> S \<subseteq> chunks m (concat (map alloced_heaps arenas)) \<Longrightarrow>
    gc_mark arenas roots (marked m S) = Some (marked m (S \<union> rooted m (concat (map alloced_heaps arenas)) roots))"
proof (induction roots arbitrary: S)
  case (Cons t roots)
  let ?H = "concat (map alloced_heaps arenas)"
  let ?T = "if t_state t = TASK_FINISHED then {} else \<Union>w\<in>task_words m (t_ctx t). target m ?H w"
  have "(if t_state t \<noteq> TASK_FINISHED then gc_mark_task arenas (t_ctx t) (marked m S) else Some (marked m S)) = Some (marked m (S \<union> ?T))"
    using gc_mark_task_marks [OF assms Cons.prems(2)] Cons.prems(1) by (simp add: stacks_clear_def)
  moreover have "gc_mark arenas roots (marked m (S \<union> ?T)) = Some (marked m (S \<union> ?T \<union> rooted m ?H roots))"
    by (rule Cons.IH) (use Cons.prems in \<open>auto simp: stacks_clear_def target_def\<close>)
  moreover have "rooted m ?H (t # roots) = ?T \<union> rooted m ?H roots" by (auto simp: rooted_def root_words_def)
  ultimately show ?case by (simp add: Un_assoc)
qed (simp add: rooted_def root_words_def)

section \<open>The heaps of an arena\<close>

lemma row_pred: "row m b e cs \<Longrightarrow> c \<in> set cs \<Longrightarrow> c \<noteq> b \<Longrightarrow> \<exists>y\<in>set cs. y + 16 + get_size m y = c"
proof (induction cs arbitrary: b)
  case (Cons x cs)
  show ?case using Cons.IH [of "x + 16 + get_size m x"] Cons.prems by (cases "c = x + 16 + get_size m x") auto
qed simp

lemma row_prefix: "row m b e cs \<Longrightarrow> row m b e' ds \<Longrightarrow> e < e' \<Longrightarrow> e \<in> set ds"
proof (induction cs arbitrary: b ds)
  case Nil
  then show ?case by (cases ds) auto
next
  case (Cons c cs)
  show ?case
  proof (cases ds)
    case Nil
    then show ?thesis using Cons.prems row_bounds [OF Cons.prems(1)] by auto
  next
    case (Cons d ds')
    then show ?thesis using Cons.IH [of "c + 16 + get_size m c" ds'] Cons.prems by auto
  qed
qed

lemma arena_rows:
  assumes i: "arena_inv s G" and h: "(b, e) \<in> set (alloced_heaps (arena s))"
  obtains cs where "row (hmem s) b e cs" "set cs = {c \<in> gC G. b \<le> c \<and> c < e}" "b \<in> gC G" "e \<in> gB G" "0 < b"
    "\<And>y. y \<in> gC G \<Longrightarrow> gnext G y \<noteq> b"
proof -
  have m: "minv (hmem s) (arena s) G {}" and g: "(b, e) \<in> ghs G" using i h by (auto simp: arena_inv_def heaps_ok_def)
  have b: "b \<in> gC G" "e \<in> gB G" "\<And>y. y \<in> gC G \<Longrightarrow> gnext G y \<noteq> b" using g by (auto simp: ghs_def)
  have "0 < b" using shape_pos [OF minvD(1) [OF m], of b] b by (simp add: objs_def)
  then show ?thesis using row_of_arena [OF m g] b that by blast
qed

lemma arena_tiled:
  assumes i: "arena_inv s G"
  shows "tiled (hmem s) (alloced_heaps (arena s))" "chunks (hmem s) (alloced_heaps (arena s)) = gC G"
proof -
  let ?H = "alloced_heaps (arena s)" and ?m = "hmem s"
  have m: "minv ?m (arena s) G {}" using i by (simp add: arena_inv_def)
  have BC: "gB G \<inter> gC G = {}" using shapeD(2) [OF minvD(1) [OF m]] by (auto simp: kinds_ok_def)
  have sz: "get_size ?m c = gsz G c" if "c \<in> gC G" for c using that minvD(2) [OF m] by (auto simp: hdr_ok_def)
  have half: "e \<le> b'" if h: "(b, e) \<in> set ?H" "(b', e') \<in> set ?H" "b < b'" for b e b' e'
  proof (rule ccontr)
    assume n: "\<not> e \<le> b'"
    obtain cs where cs: "row ?m b e cs" "set cs = {c \<in> gC G. b \<le> c \<and> c < e}" by (rule arena_rows [OF i h(1)])
    have b': "b' \<in> gC G" "\<And>y. y \<in> gC G \<Longrightarrow> gnext G y \<noteq> b'" using arena_rows [OF i h(2)] by blast+
    have "b' \<in> set cs" "b' \<noteq> b" using cs(2) b'(1) h(3) n by auto
    then obtain y where "y \<in> set cs" "y + 16 + get_size ?m y = b'" using row_pred [OF cs(1)] by blast
    then show False using b'(2) [of y] cs(2) sz by (auto simp: gnext_def)
  qed
  have same: "\<not> e < e'" if h: "(b, e) \<in> set ?H" "(b, e') \<in> set ?H" for b e e'
  proof
    assume l: "e < e'"
    obtain cs where cs: "row ?m b e cs" "e \<in> gB G" by (rule arena_rows [OF i h(1)]) (use that in blast)
    obtain ds where ds: "row ?m b e' ds" "set ds \<subseteq> gC G" by (rule arena_rows [OF i h(2)]) (use that in blast)
    show False using row_prefix [OF cs(1) ds(1) l] ds(2) cs(2) BC by blast
  qed
  have "e \<le> b' \<or> e' \<le> b" if "(b, e) \<in> set ?H" "(b', e') \<in> set ?H" "(b, e) \<noteq> (b', e')" for b e b' e'
    using half [OF that(1,2)] half [OF that(2,1)] same [of b e e'] same [of b e' e] that by (cases "b = b'") force+
  moreover have "0 < b \<and> (\<exists>cs. row ?m b e cs)" if "(b, e) \<in> set ?H" for b e
    using arena_rows [OF i that] by blast
  ultimately show "tiled ?m ?H" unfolding tiled_def by fastforce
  show "chunks ?m ?H = gC G"
  proof (intro set_eqI iffI)
    fix c assume "c \<in> chunks ?m ?H"
    then obtain b e cs where 1: "(b, e) \<in> set ?H" "row ?m b e cs" "c \<in> set cs" by (rule chunksE)
    obtain ds where "row ?m b e ds" "set ds \<subseteq> gC G" by (rule arena_rows [OF i 1(1)]) (use that in blast)
    then show "c \<in> gC G" using row_unique [OF 1(2)] 1(3) by blast
  next
    fix c assume c: "c \<in> gC G"
    obtain b e where be: "(b, e) \<in> ghs G" "(b, c) \<in> (grel G)\<^sup>*" "(c, e) \<in> (grel G)\<^sup>+" by (rule ghs_cover [OF minvD(1) [OF m] c])
    have h: "(b, e) \<in> set ?H" using be(1) i by (simp add: arena_inv_def heaps_ok_def)
    obtain cs where cs: "row ?m b e cs" "set cs = {c \<in> gC G. b \<le> c \<and> c < e}" by (rule arena_rows [OF i h]) (use that in blast)
    have "b \<le> c" using be(2) grel_less [OF _ minvD(1) [OF m]] by (metis rtranclD order_le_less)
    moreover have "c < e" using grel_less [OF be(3) minvD(1) [OF m]] .
    ultimately show "c \<in> chunks ?m ?H" using cs c by (intro chunksI [OF h cs(1)]) simp
  qed
qed

text \<open>All registered arenas together, on one memory.\<close>

definition arenas_apart :: "arena_t list \<Rightarrow> bool" where
  "arenas_apart arenas \<longleftrightarrow> (\<forall>ar\<in>set arenas. \<forall>ar'\<in>set arenas. ar \<noteq> ar' \<longrightarrow>
     (\<forall>h\<in>set (alloced_heaps ar). \<forall>k\<in>set (alloced_heaps ar'). snd h \<le> fst k \<or> snd k \<le> fst h))"

lemma arenas_tiled:
  assumes t: "\<And>ar. ar \<in> set arenas \<Longrightarrow> tiled m (alloced_heaps ar)" and a: "arenas_apart arenas"
  shows "tiled m (concat (map alloced_heaps arenas))"
  unfolding tiled_def
proof (intro conjI ballI impI)
  fix h assume "h \<in> set (concat (map alloced_heaps arenas))"
  then obtain ar where "ar \<in> set arenas" "h \<in> set (alloced_heaps ar)" by auto
  then show "case h of (b, e) \<Rightarrow> 0 < b \<and> (\<exists>cs. row m b e cs)" using t unfolding tiled_def by blast
next
  fix h k assume h: "h \<in> set (concat (map alloced_heaps arenas))" and k: "k \<in> set (concat (map alloced_heaps arenas))" and n: "h \<noteq> k"
  obtain ar ar' where ar: "ar \<in> set arenas" "h \<in> set (alloced_heaps ar)" "ar' \<in> set arenas" "k \<in> set (alloced_heaps ar')" using h k by auto
  show "snd h \<le> fst k \<or> snd k \<le> fst h"
  proof (cases "ar = ar'")
    case True
    then show ?thesis using t [OF ar(1)] ar n unfolding tiled_def by blast
  next
    case False
    then show ?thesis using a ar unfolding arenas_apart_def by blast
  qed
qed

lemma chunks_concat: "ar \<in> set arenas \<Longrightarrow> chunks m (alloced_heaps ar) \<subseteq> chunks m (concat (map alloced_heaps arenas))"
  by (auto elim!: chunksE intro!: chunksI)

text \<open>A live block of a heap is a chunk in use; a word into its payload has it as target.\<close>

lemma live_chunk:
  assumes h: "heap_inv s L" and p: "L p = Some n" "payload_size_of n < 131072"
  shows "p - 16 \<in> chunks (hmem s) (alloced_heaps (arena s))" "is_curr_inuse (hmem s) (p - 16)" "n \<le> get_size (hmem s) (p - 16)"
proof -
  obtain G where G: "arena_inv s G" "block_ok G p n" using h p(1) by (auto simp: heap_inv_def)
  have m: "minv (hmem s) (arena s) G {}" using G(1) by (simp add: arena_inv_def)
  have u: "p - 16 \<in> gU G" "n \<le> gsz G (p - 16)" using G(2) p(2) by (auto simp: block_ok_def)
  have "p - 16 \<in> gC G" using u(1) part_sub(1) [OF minvD(1) [OF m]] by blast
  then show "p - 16 \<in> chunks (hmem s) (alloced_heaps (arena s))" "n \<le> get_size (hmem s) (p - 16)"
    using u(2) arena_tiled(2) [OF G(1)] minvD(2) [OF m] by (auto simp: hdr_ok_def)
  show "is_curr_inuse (hmem s) (p - 16)" using u(1) minvD(2) [OF m] by (auto simp: hdr_ok_def)
qed

lemma aligned_mod: "is_pointer_aligned v \<longleftrightarrow> v mod 8 = 0"
proof -
  have "v AND 7 = v mod 8" using take_bit_eq_mask [of 3 v] take_bit_eq_mod [of 3 v] by (simp add: mask_eq_exp_minus_1)
  then show ?thesis by (simp add: is_pointer_aligned_def)
qed

end
