(* ===== verification/Sweep.thy ===== *)
theory Sweep
  imports Gc
begin

text \<open>
  What a sweep does to an arena: it walks over the rows of chunks while \<open>release\<close> merges and moves them. A
  chunk it has still to visit keeps its header, even when it has just been merged into the one before; so every
  chunk that was in use and not marked at the start is released, and every other one stays.
\<close>

section \<open>Swept chunks\<close>

text \<open>\<open>dead m Y\<close>: the chunks of \<open>Y\<close> to release. \<open>swept Y s G s' G'\<close>: the sweep of \<open>Y\<close> has taken \<open>s\<close> to \<open>s'\<close>.\<close>

definition dead :: "mem \<Rightarrow> addr set \<Rightarrow> addr set" where
  "dead m Y = {y \<in> Y. is_curr_inuse m y \<and> m y AND 2 = 0}"

definition swept :: "addr set \<Rightarrow> heap_state \<Rightarrow> ghost \<Rightarrow> heap_state \<Rightarrow> ghost \<Rightarrow> bool" where
  "swept Y s G s' G' \<longleftrightarrow> arena_inv s' G' \<and> top_last (arena s') G' \<and> growth (arena s') = growth (arena s) \<and>
     gM G' = gM G \<and> gU G' = gU G - dead (hmem s) Y \<and>
     (\<forall>u\<in>gU G' \<union> gM G'. gsz G' u = gsz G u \<and> (\<forall>a\<in>payload G u. hmem s' a = hmem s a \<and> hbytes s' a = hbytes s a)) \<and>
     (\<forall>u\<in>gU G'. hmem s' u AND 2 = (if u \<in> Y then 0 else hmem s u AND 2))"

text \<open>
  \<open>todo s G T\<close>: the headers at \<open>T\<close> are still to be visited; those in use or marked are blocks of the heap.
\<close>

definition todo :: "heap_state \<Rightarrow> ghost \<Rightarrow> addr set \<Rightarrow> bool" where
  "todo s G T \<longleftrightarrow> (\<forall>y\<in>T. inner G y \<and>
     (is_curr_inuse (hmem s) y \<or> hmem s y AND 2 \<noteq> 0 \<longrightarrow> y \<in> gU G \<and> gsz G y < 131072))"

definition held :: "addr set \<Rightarrow> heap_state \<Rightarrow> heap_state \<Rightarrow> ghost \<Rightarrow> bool" where
  "held T s s' G' \<longleftrightarrow> (\<forall>y\<in>T. inner G' y \<and> same_hdr (hmem s) (hmem s') y)"

lemma dead_held: "held T s s' G' \<Longrightarrow> dead (hmem s') T = dead (hmem s) T"
  by (auto simp: held_def dead_def same_hdr_def)

lemma dead_Un: "dead m (Y \<union> Z) = dead m Y \<union> dead m Z"
  by (auto simp: dead_def)

lemma held_trans: "held T s s1 G1 \<Longrightarrow> held T s1 s2 G2 \<Longrightarrow> held T s s2 G2"
  unfolding held_def using same_hdr_trans by blast

lemma held_mono: "held T s s' G' \<Longrightarrow> T' \<subseteq> T \<Longrightarrow> held T' s s' G'"
  by (auto simp: held_def)

lemma swept_trans:
  assumes 1: "swept Y s G s1 G1" and 2: "swept Z s1 G1 s2 G2" and d: "dead (hmem s1) Z = dead (hmem s) Z"
  shows "swept (Y \<union> Z) s G s2 G2"
proof -
  have U: "gU G2 \<subseteq> gU G1" "gM G2 = gM G1" using 2 by (auto simp: swept_def)
  have "gsz G2 u = gsz G u \<and> (\<forall>a\<in>payload G u. hmem s2 a = hmem s a \<and> hbytes s2 a = hbytes s a)" if u: "u \<in> gU G2 \<union> gM G2" for u
  proof -
    have a: "gsz G1 u = gsz G u" "\<forall>a\<in>payload G u. hmem s1 a = hmem s a \<and> hbytes s1 a = hbytes s a"
      using 1 u U unfolding swept_def by blast+
    have b: "gsz G2 u = gsz G1 u" "\<forall>a\<in>payload G1 u. hmem s2 a = hmem s1 a \<and> hbytes s2 a = hbytes s1 a"
      using 2 u unfolding swept_def by blast+
    have "payload G1 u = payload G u" using a(1) by (simp add: payload_def)
    then show ?thesis using a b by simp
  qed
  moreover have "hmem s2 u AND 2 = (if u \<in> Y \<union> Z then 0 else hmem s u AND 2)" if u: "u \<in> gU G2" for u
  proof -
    have "hmem s2 u AND 2 = (if u \<in> Z then 0 else hmem s1 u AND 2)" using 2 u unfolding swept_def by blast
    moreover have "hmem s1 u AND 2 = (if u \<in> Y then 0 else hmem s u AND 2)" using 1 u U unfolding swept_def by blast
    ultimately show ?thesis by simp
  qed
  moreover have "gU G2 = gU G - dead (hmem s) (Y \<union> Z)" "gM G2 = gM G" "growth (arena s2) = growth (arena s)"
    using 1 2 d by (auto simp: swept_def dead_Un)
  ultimately show ?thesis using 2 unfolding swept_def by blast
qed

lemma todo_held:
  assumes t: "todo s G T" and h: "held T s s' G'" and w: "swept Y s G s' G'" and d: "Y \<inter> T = {}"
  shows "todo s' G' T"
proof -
  have "y \<in> gU G' \<and> gsz G' y < 131072" if y: "y \<in> T" "is_curr_inuse (hmem s') y \<or> hmem s' y AND 2 \<noteq> 0" for y
  proof -
    have "is_curr_inuse (hmem s) y \<or> hmem s y AND 2 \<noteq> 0" using h y by (auto simp: held_def same_hdr_def)
    then have u: "y \<in> gU G" "gsz G y < 131072" using t y(1) by (auto simp: todo_def)
    have "y \<notin> dead (hmem s) Y" using d y(1) by (auto simp: dead_def)
    then show ?thesis using u w unfolding swept_def by simp
  qed
  then show ?thesis using h by (auto simp: todo_def held_def)
qed

section \<open>One chunk\<close>

lemma live_in:
  assumes "arena_inv s G" "u \<in> gU G"
  shows "u \<in> gC G" "inner G u" "u \<in> objs (arena s) G" "is_curr_inuse (hmem s) u" "get_size (hmem s) u = gsz G u"
proof -
  have m: "minv (hmem s) (arena s) G {}" using assms(1) by (simp add: arena_inv_def)
  show "u \<in> gC G" using part_sub(1) [OF minvD(1) [OF m]] assms(2) by blast
  then show "inner G u" "u \<in> objs (arena s) G" "get_size (hmem s) u = gsz G u" "is_curr_inuse (hmem s) u"
    using minvD(2) [OF m] assms(2) by (auto simp: inner_def objs_def hdr_ok_def)
qed

lemma sweep_skip:
  assumes "arena_inv s G" "top_last (arena s) G" "hmem s c AND 2 = 0" "\<not> is_curr_inuse (hmem s) c"
  shows "swept {c} s G s G"
  using assms live_in(4) [OF assms(1)] by (auto simp: swept_def dead_def)

lemma arena_inv_word0:
  assumes i: "arena_inv s G" and c: "c \<in> gC G" and w: "w AND - 8 = hmem s c AND - 8"
  shows "arena_inv (put_mem ((hmem s)(c := w)) s) G"
proof -
  have m: "minv (hmem s) (arena s) G {}" using i by (simp add: arena_inv_def)
  have "minv ((hmem s)(c := w)) (arena s) G {}"
  proof (rule minv_word0 [OF m])
    show "c \<in> objs (arena s) G" using c by (simp add: objs_def)
    assume "\<not> is_prev_inuse (hmem s) c"
    then obtain d where d: "d \<in> gD (arena s) G \<union> gL G" "gnext G d = c" "get_prev_size (hmem s) c = gsz G d"
      using prev_free [OF m c] by blast
    then show "\<exists>d\<in>gD (arena s) G \<union> gL G. gnext G d = c \<and> get_prev_size ((hmem s)(c := w)) c = gsz G d"
      using w by (auto simp: get_prev_size_def)
  qed
  then show ?thesis using i by (simp add: arena_inv_def)
qed

lemma payload_header:
  assumes i: "arena_inv s G" and c: "c \<in> gC G" and u: "u \<in> gU G \<union> gM G"
  shows "c \<notin> payload G u"
proof -
  have m: "minv (hmem s) (arena s) G {}" using i by (simp add: arena_inv_def)
  have "u \<in> gC G \<union> gM G" using u part_sub(1) [OF minvD(1) [OF m]] by blast
  then show ?thesis using cell_not_in_payload [OF minvD(1) [OF m], of c u 0] c by (simp add: objs_def)
qed

lemma clear_bit:
  "(x AND NOT 2) AND - 8 = x AND (- 8 :: int)" "(x AND NOT 2) AND (2 :: int) = 0"
  by (rule bit_eqI; auto simp: flag_bits bit_simps)+

lemma sweep_unmark:
  assumes i: "arena_inv s G" and tl: "top_last (arena s) G" and c: "c \<in> gU G" "hmem s c AND 2 \<noteq> 0" and T: "\<And>y. y \<in> T \<Longrightarrow> inner G y" "c \<notin> T"
  defines "s' \<equiv> put_mem ((hmem s)(c := hmem s c AND NOT 2)) s"
  shows "swept {c} s G s' G" "held T s s' G"
proof -
  note l = live_in [OF i c(1)]
  have m: "minv (hmem s) (arena s) G {}" using i by (simp add: arena_inv_def)
  have i': "arena_inv s' G" unfolding s'_def by (rule arena_inv_word0 [OF i l(1) clear_bit(1)])
  have "hmem s' a = hmem s a \<and> hbytes s' a = hbytes s a" if "a \<in> payload G u" "u \<in> gU G \<union> gM G" for a u
    using payload_header [OF i l(1) that(2)] that(1) by (auto simp: s'_def)
  moreover have "hmem s' u AND 2 = (if u \<in> {c} then 0 else hmem s u AND 2)" for u using clear_bit(2) [of "hmem s c"] by (simp add: s'_def)
  ultimately show "swept {c} s G s' G" using i' tl c(2) by (auto simp: swept_def dead_def s'_def)
  have "same_hdr (hmem s) (hmem s') y" if y: "y \<in> T" for y
    using inner_cell [OF minvD(1) [OF m] T(1) [OF y] l(3), of 0 0] inner_cell [OF minvD(1) [OF m] T(1) [OF y] l(3), of 0 8] y T(2)
    by (intro same_hdr_cells) (auto simp: s'_def)
  then show "held T s s' G" using T(1) by (simp add: held_def)
qed

text \<open>A chunk of a heap has its left neighbour in the same heap.\<close>

lemma heap_pred:
  assumes i: "arena_inv s G" and h: "(b, e) \<in> set (alloced_heaps (arena s))" and c: "b \<le> c" and d: "d \<in> gC G" "gnext G d = c"
  shows "b \<le> d"
proof (rule ccontr)
  assume n: "\<not> b \<le> d"
  have m: "minv (hmem s) (arena s) G {}" using i by (simp add: arena_inv_def)
  have b: "b \<in> gC G" "\<forall>y\<in>gC G. gnext G y \<noteq> b" using i h by (auto simp: arena_inv_def heaps_ok_def ghs_def)
  have "d + gext G d \<le> b" using shapeD(5) [OF minvD(1) [OF m]] b(1) d(1) n unfolding layout_ok_def objs_def by auto
  then have "c = b" using d c by (simp add: gext_def gnext_def)
  then show False using b(2) d by blast
qed

lemma sweep_release:
  assumes i: "arena_inv s G" and tl: "top_last (arena s) G" and h: "(b, e) \<in> set (alloced_heaps (arena s))"
    and c: "b \<le> c" "c \<in> gU G" "gsz G c < 131072" "hmem s c AND 2 = 0"
    and T: "\<And>y. y \<in> T \<Longrightarrow> inner G y \<and> (y < b \<or> gnext G c \<le> y)"
  obtains s' G' where "release os (c + 16) s = Some s'" "swept {c} s G s' G'" "held T s s' G'"
proof -
  let ?R = "\<Union>u\<in>gU G \<union> gM G - {c}. payload G u" and ?Z = "{y. y \<noteq> c \<and> (y \<in> gU G \<or> y < b \<or> gnext G c \<le> y)}"
  note l = live_in [OF i c(2)]
  obtain s' G' where r: "release os (c + 16) s = Some s'" "sok ?R (hmem s) (hbytes s) s' G'" "gone c G G'"
    "growth (arena s') = growth (arena s)"
    and k: "\<And>Z. c \<notin> Z \<Longrightarrow> (\<forall>d\<in>gC G - gU G. gnext G d = c \<longrightarrow> d \<notin> Z) \<Longrightarrow> kept (gnext G c) Z s G s' G'"
    by (rule release_heap_watch [OF i c(2,3) refl, of os]) (rule that)
  have "kept (gnext G c) ?Z s G s' G'"
  proof (rule k)
    show "\<forall>d\<in>gC G - gU G. gnext G d = c \<longrightarrow> d \<notin> ?Z"
    proof (intro ballI impI)
      fix d assume d: "d \<in> gC G - gU G" "gnext G d = c"
      have "b \<le> d" using heap_pred [OF i h c(1)] d by blast
      moreover have "0 < gsz G x" if "x \<in> gC G" for x
        using that shapeD(5) [OF minvD(1)] i by (fastforce simp: arena_inv_def layout_ok_def)
      then have "0 < gsz G d" "0 < gsz G c" using d l(1) by blast+
      ultimately show "d \<notin> ?Z" using d by (auto simp: gnext_def)
    qed
  qed simp
  then have tl': "top_last (arena s') G'" and w: "\<And>y. y \<in> ?Z \<Longrightarrow> inner G y \<Longrightarrow> inner G' y \<and> same_hdr (hmem s) (hmem s') y"
    using tl by (auto simp: kept_def watch_def)
  have U: "gU G' = gU G - {c}" "gM G' = gM G - {c}" "\<And>u. u \<in> gU G \<union> gM G - {c} \<Longrightarrow> gsz G' u = gsz G u" using r(3) by (auto simp: gone_def)
  have mi: "minv (hmem s) (arena s) G {}" using i by (simp add: arena_inv_def)
  have "c \<notin> gM G" using l(1) shapeD(2) [OF minvD(1) [OF mi]] by (auto simp: kinds_ok_def)
  then have M: "gM G' = gM G" using U(2) by simp
  have "dead (hmem s) {c} = {c}" using c(4) l(4) by (auto simp: dead_def)
  moreover have "gsz G' u = gsz G u \<and> (\<forall>a\<in>payload G u. hmem s' a = hmem s a \<and> hbytes s' a = hbytes s a)" if "u \<in> gU G' \<union> gM G'" for u
  proof -
    have u: "u \<in> gU G \<union> gM G - {c}" using that U(1) M \<open>c \<notin> gM G\<close> by auto
    have "\<forall>a\<in>?R. hmem s' a = hmem s a \<and> hbytes s' a = hbytes s a" using r(2) by (simp add: sok_def)
    then have "\<forall>a\<in>payload G u. hmem s' a = hmem s a \<and> hbytes s' a = hbytes s a" using u by blast
    then show ?thesis using U(3) [OF u] by simp
  qed
  moreover have "hmem s' u AND 2 = (if u \<in> {c} then 0 else hmem s u AND 2)" if u: "u \<in> gU G'" for u
  proof -
    have "u \<in> ?Z" "inner G u" "u \<noteq> c" using u U(1) live_in(2) [OF i] by auto
    then show ?thesis using w [of u] by (simp add: same_hdr_def)
  qed
  moreover have "arena_inv s' G'" using r(2) by (simp add: sok_def)
  ultimately have "swept {c} s G s' G'" unfolding swept_def using tl' r(4) M U(1) by blast
  moreover have "held T s s' G'"
  proof -
    have "y \<in> ?Z" if "y \<in> T" for y using T [OF that] c(1) live_facts(4) [OF i, of c] c(2) by (auto simp: gnext_def)
    then show ?thesis using T w unfolding held_def by blast
  qed
  ultimately show ?thesis using that r(1) by blast
qed

section \<open>A heap, and all heaps\<close>

lemma row_same: "row m b e cs \<Longrightarrow> (\<And>c. c \<in> set cs \<Longrightarrow> get_size m' c = get_size m c) \<Longrightarrow> row m' b e cs"
  by (induction cs arbitrary: b) auto

lemma sweep_step:
  assumes i: "arena_inv s G" and tl: "top_last (arena s) G" and h: "(b, e) \<in> set (alloced_heaps (arena s))"
    and c: "b \<le> c" "todo s G (insert c T)" "c \<notin> T" "0 \<le> get_size (hmem s) c"
    and T: "\<And>y. y \<in> T \<Longrightarrow> y < b \<or> c + 16 + get_size (hmem s) c \<le> y"
  obtains s' G' where "(if hmem s c AND GC_MARK_FLAG_MASK \<noteq> 0 then Some (put_mem ((hmem s)(c := hmem s c AND NOT GC_MARK_FLAG_MASK)) s)
      else if is_curr_inuse (hmem s) c then release os (c + HEADER_SIZE) s else Some s) = Some s'"
    "swept {c} s G s' G'" "held T s s' G'"
proof -
  have inn: "inner G y" if "y \<in> T" for y using c(2) that by (simp add: todo_def)
  have cU: "c \<in> gU G" "gsz G c < 131072" if "is_curr_inuse (hmem s) c \<or> hmem s c AND 2 \<noteq> 0" using c(2) that unfolding todo_def by blast+
  consider "hmem s c AND 2 \<noteq> 0" | "hmem s c AND 2 = 0" "is_curr_inuse (hmem s) c" | "hmem s c AND 2 = 0" "\<not> is_curr_inuse (hmem s) c" by blast
  then show ?thesis
  proof cases
    case 1
    note u = sweep_unmark [OF i tl cU(1) 1 inn c(3)]
    show ?thesis using that [OF _ u] 1 by simp
  next
    case 2
    have gn: "gnext G c = c + 16 + get_size (hmem s) c" using live_in(5) [OF i cU(1)] 2 by (simp add: gnext_def)
    obtain s' G' where "release os (c + 16) s = Some s'" "swept {c} s G s' G'" "held T s s' G'"
      using sweep_release [OF i tl h c(1) cU _ , of T os] 2 inn T gn by auto
    then show ?thesis using that 2 by simp
  next
    case 3
    then show ?thesis using that [of s G] sweep_skip [OF i tl 3] inn by (simp add: held_def)
  qed
qed

lemma growth_heaps: "growth A' = growth A \<Longrightarrow> alloced_heaps A' = alloced_heaps A"
  by (simp add: growth_def)

lemma sweep_loop_swept:
  assumes "arena_inv s G" "top_last (arena s) G" "(b, e) \<in> set (alloced_heaps (arena s))" "b \<le> x" "row (hmem s) x e cs"
    "todo s G (set cs \<union> T)" "\<And>y. y \<in> T \<Longrightarrow> y < b \<or> e \<le> y"
  shows "\<exists>s' G'. sweep_loop os e x s = Some s' \<and> swept (set cs) s G s' G' \<and> held T s s' G'"
  using assms
proof (induction cs arbitrary: x s G)
  case Nil
  then show ?case by (intro exI [of _ s] exI [of _ G]) (auto simp: sweep_loop.simps swept_def dead_def held_def todo_def)
next
  case (Cons c cs)
  have r: "c = x" "32 \<le> get_size (hmem s) x" "row (hmem s) (x + 16 + get_size (hmem s) x) e cs" using Cons.prems(5) by auto
  have xe: "x + 16 + get_size (hmem s) x \<le> e" "\<And>y. y \<in> set cs \<Longrightarrow> x + 16 + get_size (hmem s) x \<le> y"
    using row_bounds [OF r(3)] by auto
  have far: "y < b \<or> x + 16 + get_size (hmem s) x \<le> y" if "y \<in> set cs \<union> T" for y
    using that xe Cons.prems(7) [of y] by fastforce
  have xn: "x \<notin> set cs \<union> T" using far [of x] r(2) Cons.prems(4) by auto
  have td: "todo s G (insert x (set cs \<union> T))" using Cons.prems(6) r(1) by simp
  obtain s1 G1 where 1: "(if hmem s x AND GC_MARK_FLAG_MASK \<noteq> 0 then Some (put_mem ((hmem s)(x := hmem s x AND NOT GC_MARK_FLAG_MASK)) s)
      else if is_curr_inuse (hmem s) x then release os (x + HEADER_SIZE) s else Some s) = Some s1"
    "swept {x} s G s1 G1" "held (set cs \<union> T) s s1 G1"
    using sweep_step [OF Cons.prems(1-4) td xn _ far, of os] r(2) by auto
  have i1: "arena_inv s1 G1" "top_last (arena s1) G1" "alloced_heaps (arena s1) = alloced_heaps (arena s)"
    using 1(2) growth_heaps [of "arena s1" "arena s"] unfolding swept_def by blast+
  have row1: "row (hmem s1) (x + 16 + get_size (hmem s) x) e cs"
    by (rule row_same [OF r(3)]) (use 1(3) in \<open>auto simp: held_def same_hdr_def\<close>)
  have "todo s G (set cs \<union> T)" using td by (simp add: todo_def)
  then have td1: "todo s1 G1 (set cs \<union> T)" by (rule todo_held [OF _ 1(3,2)]) (use xn in auto)
  obtain s2 G2 where 2: "sweep_loop os e (x + 16 + get_size (hmem s) x) s1 = Some s2" "swept (set cs) s1 G1 s2 G2" "held T s1 s2 G2"
    using Cons.IH [OF i1(1,2) _ _ row1 td1 Cons.prems(7)] i1(3) Cons.prems(3,4) r(2) by auto
  have "swept ({x} \<union> set cs) s G s2 G2"
    by (rule swept_trans [OF 1(2) 2(2) dead_held]) (rule held_mono [OF 1(3)], simp)
  moreover have "held T s s2 G2" by (rule held_trans [OF held_mono [OF 1(3)] 2(3)]) simp
  moreover have "get_usize (hmem s) x = get_size (hmem s) x" using r(2) by simp
  then have "sweep_loop os e x s = Some s2"
    using 1(1) 2(1) xe(1) r(2) by (subst sweep_loop.simps) (simp add: Let_def add.assoc)
  ultimately show ?case using r(1) by auto
qed

lemma chunks_Cons:
  assumes "row m b e cs"
  shows "chunks m ((b, e) # H) = set cs \<union> chunks m H"
proof -
  have "(\<exists>ds. row m b e ds \<and> c \<in> set ds) \<longleftrightarrow> c \<in> set cs" for c using row_unique [OF assms] assms by blast
  then show ?thesis by (auto simp: chunks_def)
qed

lemma chunks_same:
  assumes "\<And>b e ds. (b, e) \<in> set H \<Longrightarrow> row m' b e ds = row m b e ds"
  shows "chunks m' H = chunks m H" "tiled m H \<Longrightarrow> tiled m' H"
proof -
  show "chunks m' H = chunks m H" unfolding chunks_def using assms by fastforce
  show "tiled m' H" if "tiled m H" using that assms unfolding tiled_def by fastforce
qed

lemma sweep_heaps_swept:
  assumes "arena_inv s G" "top_last (arena s) G" "set H \<subseteq> set (alloced_heaps (arena s))" "distinct H" "tiled (hmem s) H" "todo s G (chunks (hmem s) H)"
  shows "\<exists>s' G'. sweep_heaps os H s = Some s' \<and> swept (chunks (hmem s) H) s G s' G'"
  using assms
proof (induction H arbitrary: s G)
  case Nil
  then show ?case by (auto simp: chunks_def swept_def dead_def intro!: exI [of _ G])
next
  case (Cons h H)
  obtain b e where h: "h = (b, e)" by fastforce
  let ?m = "hmem s"
  obtain cs where cs: "row ?m b e cs" using Cons.prems(5) h by (auto simp: tiled_def)
  have ch: "chunks ?m (h # H) = set cs \<union> chunks ?m H" unfolding h by (rule chunks_Cons [OF cs])
  have tH: "tiled ?m H" using Cons.prems(5) by (auto simp: tiled_def)
  have out: "y < b \<or> e \<le> y" if yH: "y \<in> chunks ?m H" for y
  proof -
    obtain b' e' ds where 1: "(b', e') \<in> set H" "row ?m b' e' ds" "y \<in> set ds" by (rule chunksE [OF yH])
    have "(b, e) \<noteq> (b', e')" using 1(1) Cons.prems(4) h by auto
    then have "e \<le> b' \<or> e' \<le> b" using tiled_apart [OF Cons.prems(5)] 1(1) h by auto
    moreover have "b' \<le> y" "y < e'" using row_bounds [OF 1(2)] row_size [OF 1(2,3)] 1(3) by fastforce+
    ultimately show ?thesis by auto
  qed
  obtain s1 G1 where 1: "sweep_loop os e b s = Some s1" "swept (set cs) s G s1 G1" "held (chunks ?m H) s s1 G1"
    using sweep_loop_swept [OF Cons.prems(1,2) _ order_refl cs, of "chunks ?m H" os] Cons.prems(3,6) h ch out by auto
  have i1: "arena_inv s1 G1" "top_last (arena s1) G1" "alloced_heaps (arena s1) = alloced_heaps (arena s)"
    using 1(2) growth_heaps [of "arena s1" "arena s"] unfolding swept_def by blast+
  have rows: "row (hmem s1) b' e' ds = row ?m b' e' ds" if be: "(b', e') \<in> set H" for b' e' ds
  proof -
    obtain xs where xs: "row ?m b' e' xs" using tH be by (auto simp: tiled_def)
    have "row (hmem s1) b' e' xs" by (rule row_same [OF xs]) (use 1(3) chunksI [OF be xs] in \<open>auto simp: held_def same_hdr_def\<close>)
    then show ?thesis using row_unique xs by metis
  qed
  have ch1: "chunks (hmem s1) H = chunks ?m H" and t1: "tiled (hmem s1) H" using chunks_same [OF rows] tH by blast+
  have dj: "set cs \<inter> chunks ?m H = {}" using out row_bounds [OF cs] row_size [OF cs] by fastforce
  have "todo s G (chunks ?m H)" using Cons.prems(6) ch by (auto simp: todo_def)
  then have td1: "todo s1 G1 (chunks (hmem s1) H)" unfolding ch1 by (rule todo_held [OF _ 1(3,2) dj])
  obtain s2 G2 where 2: "sweep_heaps os H s1 = Some s2" "swept (chunks ?m H) s1 G1 s2 G2"
    using Cons.IH [OF i1(1,2) _ _ t1 td1] i1(3) Cons.prems(3,4) ch1 by auto
  have "swept (set cs \<union> chunks ?m H) s G s2 G2" by (rule swept_trans [OF 1(2) 2(2) dead_held [OF 1(3)]])
  then show ?case using 1(1) 2(1) h ch by auto
qed

section \<open>A collection\<close>

lemma finite_chunks: "tiled m H \<Longrightarrow> finite (chunks m H)"
proof (induction H)
  case (Cons h H)
  obtain b e cs where "h = (b, e)" "row m b e cs" using Cons.prems by (auto simp: tiled_def)
  moreover have "tiled m H" using Cons.prems by (auto simp: tiled_def)
  ultimately show ?case using chunks_Cons Cons.IH by simp
qed (simp add: chunks_def)

lemma arena_inv_marked:
  assumes i: "arena_inv s G"
  shows "finite S \<Longrightarrow> S \<subseteq> gC G \<Longrightarrow> arena_inv (put_mem (marked (hmem s) S) s) G"
proof (induction rule: finite_induct)
  case empty
  then show ?case using i by (simp add: put_mem_def)
next
  case (insert c S)
  let ?s = "put_mem (marked (hmem s) S) s"
  have "arena_inv (put_mem ((hmem ?s)(c := hmem ?s c OR 2)) ?s) G"
    by (rule arena_inv_word0) (use insert in simp_all)
  then show ?case by (simp add: marked_insert put_mem_def)
qed

text \<open>
  \<open>quiet\<close>: no mark is left from an earlier collection, and the top chunk is the last one of its heap and not
  flagged as in use.
\<close>

definition quiet :: "heap_state \<Rightarrow> bool" where
  "quiet s \<longleftrightarrow> (\<forall>c\<in>chunks (hmem s) (alloced_heaps (arena s)). hmem s c AND 2 = 0) \<and>
     (top_chunk (arena s) \<noteq> NULL \<longrightarrow> \<not> is_curr_inuse (hmem s) (top_chunk (arena s)) \<and>
        next_chunk (hmem s) (top_chunk (arena s)) \<in> snd ` set (alloced_heaps (arena s)))"

lemma quiet_facts:
  assumes i: "arena_inv s G" and q: "quiet s"
  shows "top_last (arena s) G" "c \<in> gC G \<Longrightarrow> is_curr_inuse (hmem s) c \<Longrightarrow> c \<in> gU G" "c \<in> gC G \<Longrightarrow> hmem s c AND 2 = 0"
proof -
  have m: "minv (hmem s) (arena s) G {}" and L: "gL G = {}" using i by (simp_all add: arena_inv_def)
  note p = shapeD(3) [OF minvD(1) [OF m]]
  show "top_last (arena s) G" unfolding top_last_def
  proof
    assume t: "top_chunk (arena s) \<noteq> 0"
    then have "top_chunk (arena s) \<in> gC G" using p by (auto simp: part_ok_def gT_def)
    then have "gnext G (top_chunk (arena s)) = next_chunk (hmem s) (top_chunk (arena s))" using size_binned(6) [OF m] by simp
    moreover have "snd ` set (alloced_heaps (arena s)) \<subseteq> gB G" using i by (auto simp: arena_inv_def heaps_ok_def ghs_def)
    ultimately show "gnext G (top_chunk (arena s)) \<in> gB G" using q t by (auto simp: quiet_def)
  qed
  show "c \<in> gU G" if c: "c \<in> gC G" "is_curr_inuse (hmem s) c"
  proof -
    have "c \<notin> gD (arena s) G \<union> gF G" using minvD(2) [OF m] c(2) by (auto simp: hdr_ok_def)
    moreover have "c \<notin> gT (arena s)" using q c(2) by (auto simp: quiet_def gT_def)
    ultimately show ?thesis using p c(1) L by (auto simp: part_ok_def)
  qed
  show "hmem s c AND 2 = 0" if "c \<in> gC G" using q that arena_tiled(2) [OF i] by (simp add: quiet_def)
qed

lemma small_block:
  assumes i: "arena_inv s G" and b: "block_ok G p n" "releasable n" and u: "p - 16 \<in> gU G"
  shows "gsz G (p - 16) < 131072" "payload_size_of n < 131072"
proof -
  have m: "minv (hmem s) (arena s) G {}" using i by (simp add: arena_inv_def)
  have "p - 16 \<notin> gM G" using live_in(1) [OF i u] shapeD(2) [OF minvD(1) [OF m]] by (auto simp: kinds_ok_def)
  then show ps: "payload_size_of n < 131072" using b(1) by (auto simp: block_ok_def split: if_splits)
  have "0 < n" "n < 2 ^ 62" using b(1) live_facts(2,3) [OF i, of "p - 16"] u by (auto simp: block_ok_def)
  then have "payload_size_of n \<le> 131024" using releasable_payload b(2) ps by blast
  then show "gsz G (p - 16) < 131072" using b(1) ps by (auto simp: block_ok_def split: if_splits)
qed

definition retained :: "(addr \<rightharpoonup> int) \<Rightarrow> addr set \<Rightarrow> addr set" where
  "retained L S = {p. \<exists>n. L p = Some n \<and> (131072 \<le> payload_size_of n \<or> p - 16 \<in> S)}"

lemma swept_heap_inv:
  assumes i: "arena_inv s G" and L: "dom L = (\<lambda>c. c + 16) ` (gU G \<union> gM G)" "\<And>p n. L p = Some n \<Longrightarrow> block_ok G p n"
    and rel: "\<And>p n. L p = Some n \<Longrightarrow> releasable n"
    and i': "arena_inv s' G'" "gU G' = gU G \<inter> S" "gM G' = gM G" "\<And>u. u \<in> gU G' \<union> gM G' \<Longrightarrow> gsz G' u = gsz G u"
  shows "heap_inv s' (L |` retained L S)" "p \<in> retained L S \<Longrightarrow> p - 16 \<in> gU G' \<union> gM G'"
proof -
  have m: "minv (hmem s) (arena s) G {}" using i by (simp add: arena_inv_def)
  have UM: "gU G \<inter> gM G = {}" using live_in(1) [OF i] shapeD(2) [OF minvD(1) [OF m]] by (auto simp: kinds_ok_def)
  have cl: "p - 16 \<in> gU G \<and> payload_size_of n < 131072 \<or> p - 16 \<in> gM G \<and> 131072 \<le> payload_size_of n" if "L p = Some n" for p n
    using L(2) [OF that] by (auto simp: block_ok_def split: if_splits)
  have ret: "p \<in> retained L S \<longleftrightarrow> p \<in> dom L \<and> p - 16 \<in> gU G' \<union> gM G'" for p
    using cl UM i'(2,3) by (fastforce simp: retained_def)
  then show "p - 16 \<in> gU G' \<union> gM G'" if "p \<in> retained L S" using that by blast
  have "p \<in> (\<lambda>c. c + 16) ` X \<longleftrightarrow> p - 16 \<in> X" for p and X :: "addr set" by force
  then have "dom (L |` retained L S) = (\<lambda>c. c + 16) ` (gU G' \<union> gM G')" using L(1) ret i'(2,3) by auto
  moreover have "block_ok G' p n" if p: "(L |` retained L S) p = Some n" for p n
  proof -
    have "L p = Some n" "p \<in> retained L S" using p by (auto simp: restrict_map_def split: if_splits)
    then have "block_ok G p n" "p - 16 \<in> gU G' \<union> gM G'" using L(2) ret by blast+
    then show ?thesis using i'(2-4) UM by (auto simp: block_ok_def split: if_splits)
  qed
  ultimately show "heap_inv s' (L |` retained L S)" using i'(1) unfolding heap_inv_def by blast
qed

lemma gc_collect_swept:
  assumes i: "arena_inv s G" and q: "quiet s" and sz: "\<And>u. u \<in> gU G \<Longrightarrow> gsz G u < 131072" and st: "stacks_clear roots (alloced_heaps (arena s))"
  defines "S \<equiv> rooted (hmem s) (alloced_heaps (arena s)) roots"
  obtains s' G' where "gc_collect os [arena s] roots s = Some ([arena s'], s')" "arena_inv s' G'" "gU G' = gU G \<inter> S" "gM G' = gM G"
    "\<And>u. u \<in> gU G' \<union> gM G' \<Longrightarrow> gsz G' u = gsz G u" "\<And>u. u \<in> gU G' \<Longrightarrow> hmem s' u AND 2 = 0"
    "\<And>u a. u \<in> gU G' \<union> gM G' \<Longrightarrow> a \<in> payload G u \<Longrightarrow> hmem s' a = hmem s a \<and> hbytes s' a = hbytes s a"
proof -
  let ?H = "alloced_heaps (arena s)" and ?m = "hmem s"
  note t = arena_tiled [OF i] and qf = quiet_facts [OF i q]
  have SC: "S \<subseteq> chunks ?m ?H" by (auto simp: S_def rooted_def target_def)
  have SU: "S \<subseteq> gU G" using qf(2) t(2) SC by (auto simp: S_def rooted_def target_def holds_def)
  define s1 where "s1 = put_mem (marked ?m S) s"
  have s1: "hmem s1 = marked ?m S" "hbytes s1 = hbytes s" "arena s1 = arena s" by (simp_all add: s1_def put_mem_def)
  have mk: "gc_mark [arena s] roots ?m = Some (marked ?m S)" using gc_mark_marks [of ?m "[arena s]" roots "{}"] t(1) st by (simp add: S_def)
  have "finite S" by (rule finite_subset [OF SC finite_chunks [OF t(1)]])
  then have i1: "arena_inv s1 G" unfolding s1_def by (rule arena_inv_marked [OF i]) (use SC t(2) in simp)
  have ch1: "chunks (hmem s1) ?H = gC G" "tiled (hmem s1) ?H" using marked_tiled [OF t(1) SC] t(2) s1(1) by simp_all
  have mb: "hmem s1 c AND 2 \<noteq> 0 \<longleftrightarrow> c \<in> S" if "c \<in> gC G" for c using qf(3) [OF that] by (simp add: s1(1) marked_def or_and_two)
  have cu: "is_curr_inuse (hmem s1) c \<longleftrightarrow> is_curr_inuse ?m c" if "c \<in> gC G" for c
    using marked_size [OF t(1) SC, of c] that t(2) by (simp add: s1(1) is_curr_inuse_def)
  have td: "todo s1 G (chunks (hmem s1) ?H)" unfolding ch1 todo_def
    using mb cu qf(2) SU sz by (auto simp: inner_def)
  have dd: "dead (hmem s1) (gC G) = gU G - S" using mb cu qf(2) live_in(1,4) [OF i] by (auto simp: dead_def)
  have "distinct ?H" using i by (simp add: arena_inv_def heaps_ok_def)
  then obtain s' G' where w: "sweep_heaps os ?H s1 = Some s'" "swept (gC G) s1 G s' G'"
    using sweep_heaps_swept [OF i1 _ _ _ _ td, of os] qf(1) s1(3) ch1 by auto
  have "s1\<lparr>arena := arena s\<rparr> = s1" using s1(3) by simp
  then have "gc_collect os [arena s] roots s = Some ([arena s'], s')" using mk w(1) by (simp add: gc_collect_def s1_def [symmetric])
  moreover have "gU G' = gU G \<inter> S" using w(2) dd by (auto simp: swept_def)
  moreover have "hmem s' a = ?m a \<and> hbytes s' a = hbytes s a" if u: "u \<in> gU G' \<union> gM G'" and a: "a \<in> payload G u" for u a
  proof -
    have "u \<in> gU G \<union> gM G" using u w(2) by (auto simp: swept_def)
    then have "a \<notin> S" using payload_header [OF i _, of a u] SC t(2) a by auto
    then have "hmem s1 a = ?m a" by (simp add: s1(1) marked_def)
    then show ?thesis using w(2) u a s1(2) unfolding swept_def by auto
  qed
  moreover have "hmem s' u AND 2 = 0" if u: "u \<in> gU G'" for u
  proof -
    have "u \<in> gC G" using u w(2) live_in(1) [OF i] by (auto simp: swept_def)
    then show ?thesis using w(2) u unfolding swept_def by auto
  qed
  ultimately show ?thesis using that w(2) unfolding swept_def by blast
qed

end
