(* ===== verification/GcProps.thy ===== *)
theory GcProps
  imports Sweep AllocProps
begin

text \<open>
  The collector's properties: the search for the chunk of a pointer, what a mark phase marks, and what a
  collection keeps and releases.
\<close>

section \<open>Demonstration\<close>

text \<open>
  One task with a stack of two words above all heaps that holds \<open>vs\<close> in its first registers.
\<close>

definition demo_task :: "int list \<Rightarrow> root_task" where
  "demo_task vs = \<lparr>t_state = TASK_YIELDED,
     t_ctx = \<lparr>platform_ctx_get_stack_base = 2 ^ 50, platform_ctx_get_stack_size = 16,
       platform_ctx_get_stack_pointer = 2 ^ 50 + 8, platform_ctx_get_pc = 4096,
       platform_ctx_regs = vs @ replicate (31 - length vs) 0\<rparr>\<rparr>"

lemma demo_task_words:
  assumes "length vs \<le> 31"
  shows "set vs \<subseteq> root_words m [demo_task vs]"
proof
  fix v assume "v \<in> set vs"
  then obtain i where "i < length vs" "vs ! i = v" by (auto simp: in_set_conv_nth)
  then have "v \<in> platform_ctx_get_reg (t_ctx (demo_task vs)) ` {0..<31}"
    using assms by (intro image_eqI [of _ _ i]) (simp_all add: demo_task_def platform_ctx_get_reg_def nth_append)
  then show "v \<in> root_words m [demo_task vs]" by (simp add: root_words_def task_words_def reg_words_def demo_task_def)
qed

lemma demo_alloc:
  obtains p s where "runtime_heap demo_os s [p \<mapsto> 200]" "\<forall>(b, e)\<in>set (alloced_heaps (arena s)). b \<le> p \<and> p < e \<and> e \<le> 2 ^ 50"
    "alloced_heaps (arena s) \<noteq> []" "quiet s"
proof -
  obtain s0 where s0: "arena_create demo_os demo_boot = Some s0" "runtime_heap demo_os s0 Map.empty" by (rule demo_heap)
  have "case arena_create demo_os demo_boot of None \<Rightarrow> False | Some s0 \<Rightarrow>
     (case allocate demo_os 200 s0 of None \<Rightarrow> False | Some (p, s) \<Rightarrow>
        (let h = hd (alloced_heaps (arena s)); m = hmem s; t = top_chunk (arena s) in alloced_heaps (arena s) = [h] \<and>
           fst h \<le> p \<and> p < snd h \<and> snd h \<le> 2 ^ 50 \<and> row m (fst h) (snd h) [fst h, t] \<and> m (fst h) AND 2 = 0 \<and> m t AND 2 = 0 \<and>
           \<not> is_curr_inuse m t \<and> next_chunk m t = snd h))" by code_simp
  then obtain p s where p: "allocate demo_os 200 s0 = Some (p, s)" and
    "let h = hd (alloced_heaps (arena s)); m = hmem s; t = top_chunk (arena s) in alloced_heaps (arena s) = [h] \<and>
       fst h \<le> p \<and> p < snd h \<and> snd h \<le> 2 ^ 50 \<and> row m (fst h) (snd h) [fst h, t] \<and> m (fst h) AND 2 = 0 \<and> m t AND 2 = 0 \<and>
       \<not> is_curr_inuse m t \<and> next_chunk m t = snd h"
    using s0(1) by (cases "allocate demo_os 200 s0") auto
  then obtain b e where r: "alloced_heaps (arena s) = [(b, e)]" "b \<le> p" "p < e" "e \<le> 2 ^ 50"
    "row (hmem s) b e [b, top_chunk (arena s)]" "hmem s b AND 2 = 0" "hmem s (top_chunk (arena s)) AND 2 = 0"
    "\<not> is_curr_inuse (hmem s) (top_chunk (arena s))" "next_chunk (hmem s) (top_chunk (arena s)) = e"
    unfolding Let_def by (metis prod.collapse)
  have "chunks (hmem s) (alloced_heaps (arena s)) = {b, top_chunk (arena s)}"
    using chunks_Cons [OF r(5), of "[]"] r(1) by (simp add: chunks_def [of _ "[]"])
  then have "quiet s" using r by (simp add: quiet_def)
  moreover have "runtime_heap demo_os s [p \<mapsto> 200]" using al.alloc_law [OF s0(2) _ _ p] by simp
  ultimately show ?thesis using that r by simp
qed

lemma demo_stack: "\<forall>(b, e)\<in>set H. e \<le> 2 ^ 50 \<Longrightarrow> stacks_clear [demo_task vs] H"
  by (auto simp: stacks_clear_def demo_task_def clear_def)

section \<open>Finding and marking\<close>

lemma rooted_block:
  assumes h: "heap_inv s L" and p: "L p = Some n" "payload_size_of n < 131072" and H: "set (alloced_heaps (arena s)) \<subseteq> set H"
  shows "p - 16 \<in> rooted (hmem s) H roots \<longleftrightarrow>
    (\<exists>w\<in>root_words (hmem s) roots. w mod 8 = 0 \<and> p \<le> w \<and> w < p + get_size (hmem s) (p - 16))"
proof -
  note lc = live_chunk [OF h p]
  have "p - 16 \<in> chunks (hmem s) H" using lc(1) H by (auto elim!: chunksE intro: chunksI)
  then show ?thesis using lc(2) by (auto simp: rooted_def target_def holds_def aligned_mod)
qed

text \<open>
  The scan of a heap for the chunk of a pointer ends; it returns NULL or a chunk in use whose payload
  contains the pointer, and for a pointer into a live block of the heap it returns the chunk of this block.
\<close>

theorem find_chunk_exact:
  assumes h: "heap_inv s L" and be: "(b, e) \<in> set (alloced_heaps (arena s))"
  shows "\<exists>c. find_chunk_in_heap (hmem s) (b, e) q = Some c \<and>
    (c \<noteq> NULL \<longrightarrow> is_curr_inuse (hmem s) c \<and> c + 16 \<le> q \<and> q < c + 16 + get_size (hmem s) c) \<and>
    (\<forall>p n. L p = Some n \<longrightarrow> payload_size_of n < 131072 \<longrightarrow> b \<le> q \<longrightarrow> q < e \<longrightarrow> p \<le> q \<longrightarrow> q < p + n \<longrightarrow> c = p - 16)"
proof -
  obtain G where G: "arena_inv s G" using h by (auto simp: heap_inv_def)
  note t = arena_tiled(1) [OF G]
  obtain cs where cs: "row (hmem s) b e cs" using t be unfolding tiled_def by blast
  define c where "c = (case find (holds (hmem s) q) cs of None \<Rightarrow> NULL | Some c \<Rightarrow> c)"
  have 1: "find_chunk_in_heap (hmem s) (b, e) q = Some c"
    using find_chunk_loop_row [OF cs, of q] by (simp add: find_chunk_in_heap_def c_def)
  have 2: "holds (hmem s) q c" if "c \<noteq> NULL"
    using that unfolding c_def by (cases "find (holds (hmem s) q) cs") (simp, metis find_Some_iff option.simps(5))
  have 3: "c = p - 16" if p: "L p = Some n" "payload_size_of n < 131072" and q: "b \<le> q" "q < e" "p \<le> q" "q < p + n" for p n
  proof -
    note lc = live_chunk [OF h p]
    have "holds (hmem s) q (p - 16)" using lc(2,3) q by (simp add: holds_def)
    then show ?thesis using holds_unique [OF t lc(1) _ be q(1,2) cs] by (simp add: c_def)
  qed
  show ?thesis using 1 2 3 unfolding holds_def by blast
qed

theorem find_chunk_exact_witness:
  "\<exists>s p b e. heap_inv s [p \<mapsto> 200] \<and> (b, e) \<in> set (alloced_heaps (arena s)) \<and> find_chunk_in_heap (hmem s) (b, e) p = Some (p - 16)"
proof -
  obtain p s where s: "runtime_heap demo_os s [p \<mapsto> 200]" "\<forall>(b, e)\<in>set (alloced_heaps (arena s)). b \<le> p \<and> p < e \<and> e \<le> 2 ^ 50"
    "alloced_heaps (arena s) \<noteq> []" by (rule demo_alloc)
  have h: "heap_inv s [p \<mapsto> 200]" using s(1) by (simp add: runtime_heap_def)
  obtain b e where be: "(b, e) \<in> set (alloced_heaps (arena s))" using s(3) by (cases "alloced_heaps (arena s)") auto
  have "payload_size_of 200 < 131072" by code_simp
  then show ?thesis using find_chunk_exact [OF h be, of p] s(2) be h by fastforce
qed

text \<open>
  A mark phase over any tasks and any number of arenas ends and changes nothing but mark bits of chunks
  in use. It marks exactly the heap blocks that a root word points into: an aligned word of the stack, or a
  register, the stack pointer or the program counter of an unfinished task. Words stored in marked blocks are
  not followed.
\<close>

theorem gc_mark_exact:
  assumes h: "\<And>ar. ar \<in> set arenas \<Longrightarrow> heap_inv (s\<lparr>arena := ar\<rparr>) (L ar)" and a: "arenas_apart arenas"
    and st: "stacks_clear roots (concat (map alloced_heaps arenas))"
  shows "\<exists>S. gc_mark arenas roots (hmem s) = Some (marked (hmem s) S) \<and> (\<forall>c\<in>S. is_curr_inuse (hmem s) c) \<and>
    (\<forall>ar\<in>set arenas. \<forall>p n. L ar p = Some n \<longrightarrow> payload_size_of n < 131072 \<longrightarrow>
      (p - 16 \<in> S \<longleftrightarrow> (\<exists>w\<in>root_words (hmem s) roots. w mod 8 = 0 \<and> p \<le> w \<and> w < p + get_size (hmem s) (p - 16))))"
proof -
  let ?H = "concat (map alloced_heaps arenas)" and ?m = "hmem s"
  have t: "tiled ?m ?H"
  proof (rule arenas_tiled [OF _ a])
    fix ar assume "ar \<in> set arenas"
    from h [OF this] obtain G where "arena_inv (s\<lparr>arena := ar\<rparr>) G" by (auto simp: heap_inv_def)
    then show "tiled ?m (alloced_heaps ar)" using arena_tiled(1) by fastforce
  qed
  have 1: "gc_mark arenas roots ?m = Some (marked ?m (rooted ?m ?H roots))" using gc_mark_marks [OF t st, of "{}"] by simp
  have 2: "is_curr_inuse ?m c" if "c \<in> rooted ?m ?H roots" for c
    using that by (auto simp: rooted_def target_def holds_def)
  have 3: "p - 16 \<in> rooted ?m ?H roots \<longleftrightarrow> (\<exists>w\<in>root_words ?m roots. w mod 8 = 0 \<and> p \<le> w \<and> w < p + get_size ?m (p - 16))"
    if ar: "ar \<in> set arenas" and p: "L ar p = Some n" "payload_size_of n < 131072" for ar p n
  proof -
    have "set (alloced_heaps (arena (s\<lparr>arena := ar\<rparr>))) \<subseteq> set ?H" using ar by auto
    from rooted_block [OF h [OF ar] p this, of roots] show ?thesis by simp
  qed
  show ?thesis by (intro exI [of _ "rooted ?m ?H roots"] conjI ballI allI impI) (rule 1, erule 2, rule 3)
qed

theorem gc_mark_exact_witness:
  "\<exists>s p S. heap_inv s [p \<mapsto> 200] \<and> gc_mark [arena s] [demo_task [p]] (hmem s) = Some (marked (hmem s) S) \<and> p - 16 \<in> S"
proof -
  obtain p s where s: "runtime_heap demo_os s [p \<mapsto> 200]" "\<forall>(b, e)\<in>set (alloced_heaps (arena s)). b \<le> p \<and> p < e \<and> e \<le> 2 ^ 50"
    by (rule demo_alloc)
  have h: "heap_inv s [p \<mapsto> 200]" using s(1) by (simp add: runtime_heap_def)
  have ps: "payload_size_of 200 < 131072" by code_simp
  have w: "p \<in> root_words (hmem s) [demo_task [p]]" using demo_task_words [of "[p]"] by simp
  have p: "p mod 16 = 0" using al.block_law [OF s(1), of p 200] by simp
  then have "p mod 8 = 0" by presburger
  moreover have "p < p + get_size (hmem s) (p - 16)" using live_chunk(3) [OF h _ ps, of p] by simp
  moreover have "stacks_clear [demo_task [p]] (concat (map alloced_heaps [arena s]))" using s(2) by (intro demo_stack) auto
  moreover have "arenas_apart [arena s]" by (simp add: arenas_apart_def)
  ultimately show ?thesis using gc_mark_exact [of "[arena s]" s "\<lambda>_. [p \<mapsto> 200]" "[demo_task [p]]"] h ps w by fastforce
qed

section \<open>Collecting\<close>

text \<open>
  C17: A collection ends when a single arena is registered, its top chunk is not flagged as in use and reaches to the
  end of its heap, no chunk is marked, no live block has 131025 to 131056 bytes and the stacks of the tasks lie outside the heaps. It releases exactly the heap blocks that no
  root word points into and keeps all others with their contents; blocks that were mapped on their own are never
  released. The heap invariant holds for the blocks that are left, and no mark is left on them.
\<close>

theorem gc_collect_exact:
  assumes h: "runtime_heap os s L" and q: "quiet s" and r: "\<And>p n. L p = Some n \<Longrightarrow> releasable n"
    and st: "stacks_clear roots (alloced_heaps (arena s))"
  shows "\<exists>s' K. gc_collect os [arena s] roots s = Some ([arena s'], s') \<and> runtime_heap os s' (L |` K) \<and> keeps (L |` K) s s' \<and>
    (\<forall>p n. L p = Some n \<longrightarrow> (p \<in> K \<longleftrightarrow> 131072 \<le> payload_size_of n \<or>
       (\<exists>w\<in>root_words (hmem s) roots. w mod 8 = 0 \<and> p \<le> w \<and> w < p + get_size (hmem s) (p - 16)))) \<and>
    (\<forall>p n. (L |` K) p = Some n \<longrightarrow> payload_size_of n < 131072 \<longrightarrow> hmem s' (p - 16) AND GC_MARK_FLAG_MASK = 0)"
proof -
  have hi: "heap_inv s L" using h by (simp add: runtime_heap_def)
  then obtain G where G: "arena_inv s G" "dom L = (\<lambda>c. c + 16) ` (gU G \<union> gM G)" "\<And>p n. L p = Some n \<Longrightarrow> block_ok G p n"
    by (auto simp: heap_inv_def)
  have sz: "gsz G u < 131072" if "u \<in> gU G" for u
  proof -
    have "u + 16 \<in> dom L" using G(2) that by blast
    then obtain n where "L (u + 16) = Some n" by blast
    then show ?thesis using small_block(1) [OF G(1) G(3) r, of "u + 16" n] that by simp
  qed
  let ?S = "rooted (hmem s) (alloced_heaps (arena s)) roots"
  let ?K = "retained L ?S"
  obtain s' G' where c: "gc_collect os [arena s] roots s = Some ([arena s'], s')" "arena_inv s' G'" "gU G' = gU G \<inter> ?S" "gM G' = gM G"
    "\<And>u. u \<in> gU G' \<union> gM G' \<Longrightarrow> gsz G' u = gsz G u" "\<And>u. u \<in> gU G' \<Longrightarrow> hmem s' u AND 2 = 0"
    "\<And>u a. u \<in> gU G' \<union> gM G' \<Longrightarrow> a \<in> payload G u \<Longrightarrow> hmem s' a = hmem s a \<and> hbytes s' a = hbytes s a"
    by (rule gc_collect_swept [OF G(1) q sz st, of os]) (assumption, rule that)
  have sw1: "heap_inv s' (L |` ?K)" by (rule swept_heap_inv(1) [OF G(1,2) _ _ c(2-4)]) (use G(3) r c(5) in blast)+
  have sw2: "p - 16 \<in> gU G' \<union> gM G'" if "p \<in> ?K" for p
    by (rule swept_heap_inv(2) [OF G(1,2) _ _ c(2-4) _ that]) (use G(3) r c(5) in blast)+
  have "runtime_heap os s' (L |` ?K)" using sw1 h by (simp add: runtime_heap_def)
  moreover have "keeps (L |` ?K) s s'" unfolding keeps_def
  proof
    fix a assume "a \<in> live_area (L |` ?K)"
    then obtain p n where p: "p \<in> ?K" "L p = Some n" "p \<le> a" "a < p + n" by (auto simp: live_area_def restrict_map_def split: if_splits)
    have "a \<in> payload G (p - 16)" using p(3,4) G(3) [OF p(2)] by (auto simp: payload_def block_ok_def)
    then show "hmem s' a = hmem s a \<and> hbytes s' a = hbytes s a" using c(7) sw2 [OF p(1)] by blast
  qed
  moreover have "p \<in> ?K \<longleftrightarrow> 131072 \<le> payload_size_of n \<or>
      (\<exists>w\<in>root_words (hmem s) roots. w mod 8 = 0 \<and> p \<le> w \<and> w < p + get_size (hmem s) (p - 16))" if p: "L p = Some n" for p n
    using rooted_block [OF hi p, of "alloced_heaps (arena s)" roots] p by (cases "payload_size_of n < 131072") (auto simp: retained_def)
  moreover have "hmem s' (p - 16) AND GC_MARK_FLAG_MASK = 0" if p: "(L |` ?K) p = Some n" "payload_size_of n < 131072" for p n
  proof -
    have "p \<in> ?K" "L p = Some n" using p(1) by (auto simp: restrict_map_def split: if_splits)
    then have "p - 16 \<in> ?S" "p - 16 \<in> gU G" using p(2) G(3) by (auto simp: retained_def block_ok_def)
    then show ?thesis using c(3,6) by simp
  qed
  ultimately show ?thesis using c(1) by blast
qed

theorem gc_collect_exact_witness:
  "\<exists>s p s'. runtime_heap demo_os s [p \<mapsto> 200] \<and> gc_collect demo_os [arena s] [demo_task [p]] s = Some ([arena s'], s') \<and>
     runtime_heap demo_os s' [p \<mapsto> 200]"
proof -
  obtain p s where s: "runtime_heap demo_os s [p \<mapsto> 200]" "\<forall>(b, e)\<in>set (alloced_heaps (arena s)). b \<le> p \<and> p < e \<and> e \<le> 2 ^ 50" "quiet s"
    by (rule demo_alloc)
  have h: "heap_inv s [p \<mapsto> 200]" using s(1) by (simp add: runtime_heap_def)
  have ps: "payload_size_of 200 < 131072" by code_simp
  have w: "p \<in> root_words (hmem s) [demo_task [p]]" using demo_task_words [of "[p]"] by simp
  have "p mod 16 = 0" using al.block_law [OF s(1), of p 200] by simp
  then have p8: "p mod 8 = 0" by presburger
  have sz: "p < p + get_size (hmem s) (p - 16)" using live_chunk(3) [OF h _ ps, of p] by simp
  have st: "stacks_clear [demo_task [p]] (alloced_heaps (arena s))" using s(2) by (intro demo_stack) auto
  have rl: "releasable n" if "[p \<mapsto> 200] q = Some n" for q n using that by (auto simp: releasable_def split: if_splits)
  obtain s' K where c: "gc_collect demo_os [arena s] [demo_task [p]] s = Some ([arena s'], s')" "runtime_heap demo_os s' ([p \<mapsto> 200] |` K)"
    "p \<in> K"
    using gc_collect_exact [OF s(1,3) rl st] w p8 sz by (metis fun_upd_same order_refl)
  have "[p \<mapsto> 200] |` K = [p \<mapsto> 200]" using c(3) by (auto simp: restrict_map_def fun_eq_iff)
  then show ?thesis using c s(1) by auto
qed

section \<open>The top chunk after a release\<close>

text \<open>
  When \<open>release\<close> merges a block into the top chunk, the new top chunk keeps the in-use flag of the block, and it is
  not \<open>quiet\<close> any more: the next sweep takes it for garbage and releases it. It is then in a bin and still
  the top chunk.
\<close>

fun demo_blocks :: "nat \<Rightarrow> int \<Rightarrow> heap_state \<Rightarrow> (addr list \<times> heap_state) option" where
  "demo_blocks 0 n s = Some ([], s)"
| "demo_blocks (Suc k) n s = do { (p, s) \<leftarrow> allocate demo_os n s; (ps, s) \<leftarrow> demo_blocks k n s; Some (p # ps, s) }"

definition demo_reuse :: "bool option" where
  "demo_reuse = do {
     s \<leftarrow> arena_create demo_os demo_boot;
     (ps, s) \<leftarrow> demo_blocks 8 120000 s;
     (q, s) \<leftarrow> allocate demo_os 200 s;
     s \<leftarrow> release demo_os q s;
     (_, s) \<leftarrow> gc_collect demo_os [arena s] [demo_task ps] s;
     (a, s) \<leftarrow> allocate demo_os 50000 s;
     (b, s) \<leftarrow> allocate demo_os 50000 s;
     Some (a = b)
   }"

lemma demo_reuse_true: "demo_reuse = Some True"
  by code_simp

lemma demo_blocks_run:
  "demo_blocks k n s = Some (ps, s') \<Longrightarrow> 0 < n \<Longrightarrow> n < 2 ^ 40 \<Longrightarrow> heap_run demo_os s L \<Longrightarrow>
     length ps = k \<and> (\<exists>L'. heap_run demo_os s' L' \<and> dom L' = dom L \<union> set ps)"
proof (induction k arbitrary: ps s L)
  case (Suc k)
  obtain p s1 qs where r: "allocate demo_os n s = Some (p, s1)" "demo_blocks k n s1 = Some (qs, s')" "ps = p # qs"
    using Suc.prems(1) by (auto simp: bind_eq_Some_conv)
  have "heap_run demo_os s1 (L(p \<mapsto> n))" by (rule heap_run.alloc [OF Suc.prems(4,2,3) r(1)])
  from Suc.IH [OF r(2) Suc.prems(2,3) this] obtain L' where "length qs = k" "heap_run demo_os s' L'" "dom L' = dom (L(p \<mapsto> n)) \<union> set qs" by blast
  moreover have "dom (L(p \<mapsto> n)) \<union> set qs = dom L \<union> set ps" using r(3) by (simp only: dom_fun_upd) auto
  ultimately show ?case using r(3) by auto
qed auto

text \<open>
  C18: After a release into the top chunk and a collection in which every live block is held by a register,
  two allocations in a row return the same block.
\<close>

theorem gc_top_reused:
  "\<exists>s L q s1 ps s2 p s3 s4. heap_run demo_os s L \<and> release demo_os q s = Some s1 \<and> heap_run demo_os s1 (L(q := None)) \<and>
     dom (L(q := None)) \<subseteq> root_words (hmem s1) [demo_task ps] \<and>
     gc_collect demo_os [arena s1] [demo_task ps] s1 = Some ([arena s2], s2) \<and>
     allocate demo_os 50000 s2 = Some (p, s3) \<and> allocate demo_os 50000 s3 = Some (p, s4)"
proof -
  obtain s0 ps sa q s s1 ars s2 p s3 s4 where r: "arena_create demo_os demo_boot = Some s0" "demo_blocks 8 120000 s0 = Some (ps, sa)"
    "allocate demo_os 200 sa = Some (q, s)" "release demo_os q s = Some s1" "gc_collect demo_os [arena s1] [demo_task ps] s1 = Some (ars, s2)"
    "allocate demo_os 50000 s2 = Some (p, s3)" "allocate demo_os 50000 s3 = Some (p, s4)"
    using demo_reuse_true by (auto simp: demo_reuse_def bind_eq_Some_conv)
  obtain L where L: "length ps = 8" "heap_run demo_os sa L" "dom L = set ps"
    using demo_blocks_run [OF r(2) _ _ heap_run.create [OF r(1)]] by auto
  have run: "heap_run demo_os s (L(q \<mapsto> 200))" by (rule heap_run.alloc [OF L(2) _ _ r(3)]) simp_all
  have "(L(q \<mapsto> 200)) q = Some 200" "releasable 200" by (simp_all add: releasable_def)
  from heap_run.free [OF run this r(4)] have run1: "heap_run demo_os s1 ((L(q \<mapsto> 200))(q := None))" .
  have "dom ((L(q \<mapsto> 200))(q := None)) \<subseteq> root_words (hmem s1) [demo_task ps]" using demo_task_words [of ps "hmem s1"] L by auto
  moreover have "ars = [arena s2]" using r(5) by (auto simp: gc_collect_def bind_eq_Some_conv)
  ultimately show ?thesis using run run1 r by blast
qed

end
