(* ===== verification/World.thy ===== *)
theory World
  imports Tasks
begin

text \<open>
  Stopping and resuming the world: \<open>gc_stop_the_world\<close> and \<open>gc_resume_world\<close> of \<^verbatim>\<open>src/runtime/src/gc.c\<close>, the
  loop of \<open>scheduler_run\<close> and \<open>self_yield\<close> of \<^verbatim>\<open>src/runtime/src/scheduler.c\<close>, as interleaved threads on the
  shared \<open>gc_state\<close>. Thread 0 is \<open>main\<close> in \<open>gc_start\<close> and then the collector, the others are scheduler threads; they
  are there before \<open>gc_start\<close>, and the first task is in a run queue.

  A thread in \<open>pthread_cond_wait\<close> has released the lock; it goes on when it has been signalled, or spuriously
  where \<open>spur\<close> allows it, and the lock is free. The waiting threads of \<open>cv_world_resumed\<close> are a list, the
  only thread that waits for \<open>cv_mutators_stopped\<close> is the collector. \<open>w_gap\<close> and \<open>w_starting\<close> do not exist in the
  code: the first holds between the last check of the collector's loop and its acquisition of \<open>add_lock\<close>, the second
  until \<open>gc_start\<close> is done.
\<close>

section \<open>The code\<close>

record gc_state_t =
  world_stopped :: int
  stopped_count :: int
  total_threads :: int
  gc_lock :: "tid option"
  add_lock :: "tid option"
  cv_mutators_stopped :: bool
  cv_world_resumed :: "tid list"
  w_gap :: bool
  w_starting :: bool

text \<open>The state before \<open>gc_start\<close>: a variable of the program, zero, with locks that are free.\<close>

definition gc_state :: gc_state_t where
  "gc_state = \<lparr>world_stopped = 0, stopped_count = 0, total_threads = 0, gc_lock = None, add_lock = None,
     cv_mutators_stopped = False, cv_world_resumed = [], w_gap = False, w_starting = True\<rparr>"

text \<open>
  Program points of \<open>gc_start\<close> (\<open>IWorld\<close> to \<open>IAdd\<close>), of the collector, and of a scheduler thread: around a task (\<open>SIdle\<close> to \<open>SDec\<close>) and in
  \<open>self_yield\<close> (\<open>YCheck\<close> to \<open>YUnlock\<close>).
\<close>

datatype world_pc = IWorld | ICount | ITotal | ILock | IStopped | IResumed | IAdd | GIdle | GLock | GSet | GLoadC | GLoadT int | GSleep | GWaiting | GUnlock | GAdd
  | GCollect | RLock | RClear | RZero | RBcast | RUnlock | RUnadd
  | SIdle | SAdd | SInc | SUnadd | SRun | SDec
  | YCheck | YLock | YCount | YCmp int | YSignal | YWhile | YSleep | YWaiting | YUnlock

text \<open>
  \<open>gc_start\<close> stores and initialises one field after the other, whatever the scheduler threads do meanwhile, and
  starts the collector's thread.
\<close>

fun gc_start :: "gc_state_t \<Rightarrow> world_pc \<Rightarrow> (gc_state_t \<times> world_pc) list" where
  "gc_start w IWorld = [(w\<lparr>world_stopped := 0\<rparr>, ICount)]"
| "gc_start w ICount = [(w\<lparr>stopped_count := 0\<rparr>, ITotal)]"
| "gc_start w ITotal = [(w\<lparr>total_threads := 0\<rparr>, ILock)]"
| "gc_start w ILock = [(w\<lparr>gc_lock := None\<rparr>, IStopped)]"
| "gc_start w IStopped = [(w\<lparr>cv_mutators_stopped := False\<rparr>, IResumed)]"
| "gc_start w IResumed = [(w\<lparr>cv_world_resumed := []\<rparr>, IAdd)]"
| "gc_start w IAdd = [(w\<lparr>add_lock := None, w_starting := False\<rparr>, GIdle)]"
| "gc_start w _ = []"

fun gc_stop_the_world :: "bool \<Rightarrow> tid \<Rightarrow> gc_state_t \<Rightarrow> world_pc \<Rightarrow> (gc_state_t \<times> world_pc) list" where
  "gc_stop_the_world spur t w GLock = (if gc_lock w = None then [(w\<lparr>gc_lock := Some t\<rparr>, GSet)] else [])"
| "gc_stop_the_world spur t w GSet = [(w\<lparr>world_stopped := 1\<rparr>, GLoadC)]"
| "gc_stop_the_world spur t w GLoadC = [(w, GLoadT (stopped_count w))]"
| "gc_stop_the_world spur t w (GLoadT c) = (if c < total_threads w then [(w, GSleep)] else [(w\<lparr>w_gap := True\<rparr>, GUnlock)])"
| "gc_stop_the_world spur t w GSleep = [(w\<lparr>gc_lock := None, cv_mutators_stopped := True\<rparr>, GWaiting)]"
| "gc_stop_the_world spur t w GWaiting =
     (if gc_lock w = None \<and> (spur \<or> \<not> cv_mutators_stopped w)
      then [(w\<lparr>gc_lock := Some t, cv_mutators_stopped := False\<rparr>, GLoadC)] else [])"
| "gc_stop_the_world spur t w GUnlock = [(w\<lparr>gc_lock := None\<rparr>, GAdd)]"
| "gc_stop_the_world spur t w GAdd = (if add_lock w = None then [(w\<lparr>add_lock := Some t, w_gap := False\<rparr>, GCollect)] else [])"
| "gc_stop_the_world spur t w _ = []"

fun gc_resume_world :: "tid \<Rightarrow> gc_state_t \<Rightarrow> world_pc \<Rightarrow> (gc_state_t \<times> world_pc) list" where
  "gc_resume_world t w RLock = (if gc_lock w = None then [(w\<lparr>gc_lock := Some t\<rparr>, RClear)] else [])"
| "gc_resume_world t w RClear = [(w\<lparr>world_stopped := 0\<rparr>, RZero)]"
| "gc_resume_world t w RZero = [(w\<lparr>stopped_count := 0\<rparr>, RBcast)]"
| "gc_resume_world t w RBcast = [(w\<lparr>cv_world_resumed := []\<rparr>, RUnlock)]"
| "gc_resume_world t w RUnlock = [(w\<lparr>gc_lock := None\<rparr>, RUnadd)]"
| "gc_resume_world t w RUnadd = [(w\<lparr>add_lock := None\<rparr>, GIdle)]"
| "gc_resume_world t w _ = []"

text \<open>\<open>gc_run\<close>: the collector starts a collection, and between stopping and resuming it marks and sweeps.\<close>

fun gc_run :: "gc_state_t \<Rightarrow> world_pc \<Rightarrow> (gc_state_t \<times> world_pc) list" where
  "gc_run w GIdle = [(w, GLock)]"
| "gc_run w GCollect = [(w, RLock)]"
| "gc_run w _ = []"

text \<open>
  A scheduler thread pops a task and runs it; the task calls \<open>self_yield\<close> now and then, and at last it
  yields or finishes.
\<close>

fun scheduler_run :: "tid \<Rightarrow> gc_state_t \<Rightarrow> world_pc \<Rightarrow> (gc_state_t \<times> world_pc) list" where
  "scheduler_run t w SIdle = [(w, SAdd)]"
| "scheduler_run t w SAdd = (if add_lock w = None then [(w\<lparr>add_lock := Some t\<rparr>, SInc)] else [])"
| "scheduler_run t w SInc = [(w\<lparr>total_threads := total_threads w + 1\<rparr>, SUnadd)]"
| "scheduler_run t w SUnadd = [(w\<lparr>add_lock := None\<rparr>, SRun)]"
| "scheduler_run t w SRun = [(w, YCheck), (w, SDec)]"
| "scheduler_run t w SDec = [(w\<lparr>total_threads := total_threads w - 1\<rparr>, SIdle)]"
| "scheduler_run t w _ = []"

text \<open>With the preemption flag set, \<open>self_yield\<close> pushes the task back and switches to the scheduler.\<close>

fun self_yield :: "bool \<Rightarrow> tid \<Rightarrow> gc_state_t \<Rightarrow> world_pc \<Rightarrow> (gc_state_t \<times> world_pc) list" where
  "self_yield spur t w YCheck = (if world_stopped w = 0 then [(w, SRun), (w, SDec)] else [(w, YLock)])"
| "self_yield spur t w YLock = (if gc_lock w = None then [(w\<lparr>gc_lock := Some t\<rparr>, YCount)] else [])"
| "self_yield spur t w YCount = [(w\<lparr>stopped_count := stopped_count w + 1\<rparr>, YCmp (stopped_count w + 1))]"
| "self_yield spur t w (YCmp v) = [(w, if v = total_threads w then YSignal else YWhile)]"
| "self_yield spur t w YSignal = [(w\<lparr>cv_mutators_stopped := False\<rparr>, YWhile)]"
| "self_yield spur t w YWhile = [(w, if world_stopped w \<noteq> 0 then YSleep else YUnlock)]"
| "self_yield spur t w YSleep = [(w\<lparr>gc_lock := None, cv_world_resumed := t # cv_world_resumed w\<rparr>, YWaiting)]"
| "self_yield spur t w YWaiting =
     (if gc_lock w = None \<and> (spur \<or> t \<notin> set (cv_world_resumed w))
      then [(w\<lparr>gc_lock := Some t, cv_world_resumed := removeAll t (cv_world_resumed w)\<rparr>, YWhile)] else [])"
| "self_yield spur t w YUnlock = [(w\<lparr>gc_lock := None\<rparr>, SRun)]"
| "self_yield spur t w _ = []"

text \<open>A step of the collector or of a scheduler thread, and any step.\<close>

definition running_step :: "bool \<Rightarrow> tid \<Rightarrow> gc_state_t \<Rightarrow> world_pc \<Rightarrow> (gc_state_t \<times> world_pc) list" where
  "running_step spur t w p = gc_stop_the_world spur t w p @ gc_resume_world t w p @ gc_run w p @ scheduler_run t w p @ self_yield spur t w p"

definition world_step :: "bool \<Rightarrow> tid \<Rightarrow> gc_state_t \<Rightarrow> world_pc \<Rightarrow> (gc_state_t \<times> world_pc) list" where
  "world_step spur t w p = gc_start w p @ running_step spur t w p"

definition world_start :: "(gc_state_t, world_pc) config" where
  "world_start = (gc_state, \<lambda>t. if t = 0 then IWorld else SIdle)"

text \<open>Schedules in which no thread takes a task before \<open>gc_start\<close> is done, and none is counted in the gap.\<close>

definition gapless_step :: "tid \<Rightarrow> gc_state_t \<Rightarrow> world_pc \<Rightarrow> (gc_state_t \<times> world_pc) list" where
  "gapless_step t w p = (if p = SInc \<and> w_gap w \<or> p = SAdd \<and> w_starting w then [] else world_step True t w p)"

section \<open>Counting threads\<close>

definition tally :: "('p \<Rightarrow> bool) \<Rightarrow> (tid \<Rightarrow> 'p) \<Rightarrow> int \<Rightarrow> bool" where
  "tally P pc n \<longleftrightarrow> finite {t. P (pc t)} \<and> int (card {t. P (pc t)}) = n"

lemma tally_upd:
  assumes "tally P pc n"
  shows "tally P (pc(t := p')) (n + (if P p' then 1 else 0) - (if P (pc t) then 1 else 0))"
proof -
  let ?S = "{u. P (pc u)}"
  have "{u. P ((pc(t := p')) u)} = (if P p' then insert t ?S else ?S - {t})" by auto
  moreover have "card (?S - {t}) = card ?S - 1 \<and> 0 < card ?S" if "P (pc t)"
    using that assms by (auto simp: tally_def card_gt_0_iff)
  ultimately show ?thesis using assms by (auto simp: tally_def insert_absorb card_insert_if)
qed

lemma tally_le:
  assumes "tally P pc n" "tally Q pc k" "\<And>p. P p \<Longrightarrow> Q p"
  shows "n \<le> k" "k \<le> n \<Longrightarrow> Q (pc t) \<Longrightarrow> P (pc t)"
proof -
  have s: "{t. P (pc t)} \<subseteq> {t. Q (pc t)}" "finite {t. Q (pc t)}" using assms by (auto simp: tally_def)
  show "n \<le> k" using card_mono [OF s(2,1)] assms by (simp add: tally_def)
  show "P (pc t)" if "k \<le> n" "Q (pc t)"
    using card_seteq [OF s(2,1)] that assms by (auto simp: tally_def)
qed

section \<open>The invariant of a schedule without gaps\<close>

fun g_inside :: "world_pc \<Rightarrow> bool" where
  "g_inside GSet = True" | "g_inside GLoadC = True" | "g_inside (GLoadT c) = True" | "g_inside GSleep = True" | "g_inside GUnlock = True"
| "g_inside RClear = True" | "g_inside RZero = True" | "g_inside RBcast = True" | "g_inside RUnlock = True"
| "g_inside YCount = True" | "g_inside (YCmp v) = True" | "g_inside YSignal = True" | "g_inside YWhile = True" | "g_inside YSleep = True"
| "g_inside YUnlock = True" | "g_inside _ = False"

fun a_inside :: "world_pc \<Rightarrow> bool" where
  "a_inside GCollect = True" | "a_inside RLock = True" | "a_inside RClear = True" | "a_inside RZero = True" | "a_inside RBcast = True"
| "a_inside RUnlock = True" | "a_inside RUnadd = True" | "a_inside SInc = True" | "a_inside SUnadd = True" | "a_inside _ = False"

fun of_collector :: "world_pc \<Rightarrow> bool" where
  "of_collector GIdle = True" | "of_collector GLock = True" | "of_collector GSet = True" | "of_collector GLoadC = True"
| "of_collector (GLoadT c) = True" | "of_collector GSleep = True" | "of_collector GWaiting = True" | "of_collector GUnlock = True"
| "of_collector GAdd = True" | "of_collector GCollect = True" | "of_collector RLock = True" | "of_collector RClear = True"
| "of_collector RZero = True" | "of_collector RBcast = True" | "of_collector RUnlock = True" | "of_collector RUnadd = True"
| "of_collector IWorld = True" | "of_collector ICount = True" | "of_collector ITotal = True" | "of_collector ILock = True"
| "of_collector IStopped = True" | "of_collector IResumed = True" | "of_collector IAdd = True" | "of_collector _ = False"

fun starting :: "world_pc \<Rightarrow> bool" where
  "starting IWorld = True" | "starting ICount = True" | "starting ITotal = True" | "starting ILock = True" | "starting IStopped = True"
| "starting IResumed = True" | "starting IAdd = True" | "starting _ = False"

fun parked :: "world_pc \<Rightarrow> bool" where
  "parked (YCmp v) = True" | "parked YSignal = True" | "parked YWhile = True" | "parked YSleep = True" | "parked YWaiting = True" | "parked _ = False"

fun counted :: "world_pc \<Rightarrow> bool" where
  "counted SUnadd = True" | "counted SRun = True" | "counted SDec = True" | "counted YCheck = True" | "counted YLock = True" | "counted YCount = True"
| "counted YUnlock = True" | "counted p = parked p"

text \<open>Points of the collector after its loop, up to the release of the lock that lets the threads go on.\<close>

fun committed :: "world_pc \<Rightarrow> bool" where
  "committed GUnlock = True" | "committed GAdd = True" | "committed GCollect = True" | "committed RLock = True" | "committed RClear = True"
| "committed RZero = True" | "committed RBcast = True" | "committed RUnlock = True" | "committed _ = False"

fun stopping :: "world_pc \<Rightarrow> bool" where
  "stopping GLoadC = True" | "stopping (GLoadT c) = True" | "stopping GSleep = True" | "stopping GWaiting = True" | "stopping GUnlock = True"
| "stopping GAdd = True" | "stopping GCollect = True" | "stopping RLock = True" | "stopping RClear = True" | "stopping _ = False"

definition counts_inv :: "gc_state_t \<Rightarrow> (tid \<Rightarrow> world_pc) \<Rightarrow> bool" where
  "counts_inv w pc \<longleftrightarrow> tally counted pc (total_threads w) \<and>
     (\<exists>k. tally parked pc k \<and> stopped_count w \<le> k \<and> (\<forall>c. pc 0 = GLoadT c \<longrightarrow> c \<le> k))"

definition flags_inv :: "gc_state_t \<Rightarrow> (tid \<Rightarrow> world_pc) \<Rightarrow> bool" where
  "flags_inv w pc \<longleftrightarrow> (\<forall>t. of_collector (pc t) \<longleftrightarrow> t = 0) \<and> world_stopped w = (if stopping (pc 0) then 1 else 0) \<and>
     (world_stopped w = 0 \<longrightarrow> pc 0 \<noteq> RZero \<longrightarrow> stopped_count w = 0) \<and> (w_gap w \<longleftrightarrow> pc 0 \<in> {GUnlock, GAdd}) \<and>
     (\<forall>t. pc t \<in> {YLock, YCount} \<longrightarrow> world_stopped w = 1) \<and>
     (committed (pc 0) \<longrightarrow> (\<forall>t. counted (pc t) \<longrightarrow> parked (pc t)))"

definition world_inv :: "gc_state_t \<Rightarrow> (tid \<Rightarrow> world_pc) \<Rightarrow> bool" where
  "world_inv w pc \<longleftrightarrow> lock_inv g_inside (gc_lock w) pc \<and> lock_inv a_inside (add_lock w) pc \<and> counts_inv w pc \<and> flags_inv w pc \<and>
     \<not> w_starting w \<and> (\<forall>t. \<not> starting (pc t))"

lemma gapless_sub: "world_inv w pc \<Longrightarrow> (w', p') \<in> set (gapless_step t w (pc t)) \<Longrightarrow> (w', p') \<in> set (running_step True t w (pc t))"
proof -
  assume "world_inv w pc" "(w', p') \<in> set (gapless_step t w (pc t))"
  moreover have "gc_start w (pc t) = []" if "\<not> starting (pc t)" using that by (cases "pc t") auto
  ultimately show ?thesis by (auto simp: gapless_step_def world_step_def world_inv_def split: if_splits)
qed

lemma running_started: "(w', p') \<in> set (running_step spur t w p) \<Longrightarrow> \<not> starting p' \<and> w_starting w' = w_starting w"
  by (cases p) (auto simp: running_step_def split: if_splits)

lemma world_locks:
  assumes "(w', p') \<in> set (running_step spur t w (pc t))"
  shows "lock_inv g_inside (gc_lock w) pc \<Longrightarrow> lock_inv g_inside (gc_lock w') (pc(t := p'))"
    and "lock_inv a_inside (add_lock w) pc \<Longrightarrow> lock_inv a_inside (add_lock w') (pc(t := p'))"
proof -
  have g: "gc_lock w' = gc_lock w \<and> g_inside p' = g_inside (pc t) \<or> gc_lock w = None \<and> gc_lock w' = Some t \<and> g_inside p' \<or>
      gc_lock w' = None \<and> g_inside (pc t) \<and> \<not> g_inside p'"
    and a: "add_lock w' = add_lock w \<and> a_inside p' = a_inside (pc t) \<or> add_lock w = None \<and> add_lock w' = Some t \<and> a_inside p' \<or>
      add_lock w' = None \<and> a_inside (pc t) \<and> \<not> a_inside p'"
    using assms by (cases "pc t"; auto simp: running_step_def split: if_splits)+
  show "lock_inv g_inside (gc_lock w') (pc(t := p'))" if "lock_inv g_inside (gc_lock w) pc" by (rule lock_step [OF that g])
  show "lock_inv a_inside (add_lock w') (pc(t := p'))" if "lock_inv a_inside (add_lock w) pc" by (rule lock_step [OF that a])
qed

lemma world_collector:
  assumes "\<And>t. of_collector (pc t) \<longleftrightarrow> t = 0" "(w', p') \<in> set (running_step spur t w (pc t))"
  shows "of_collector p' \<longleftrightarrow> t = 0"
proof -
  have "of_collector p' = of_collector (pc t)" using assms(2) by (cases "pc t") (auto simp: running_step_def split: if_splits)
  then show ?thesis using assms(1) by simp
qed

lemma parked_counted: "parked p \<Longrightarrow> counted p"
  by (cases p) auto

lemma world_counts:
  assumes i: "world_inv w pc" and s: "(w', p') \<in> set (gapless_step t w (pc t))"
  shows "counts_inv w' (pc(t := p'))"
proof -
  have i': "tally counted pc (total_threads w)" and f: "flags_inv w pc" and l: "lock_inv g_inside (gc_lock w) pc"
    using i by (simp_all add: world_inv_def counts_inv_def)
  obtain k where k: "tally parked pc k" "stopped_count w \<le> k" "\<And>c. pc 0 = GLoadT c \<Longrightarrow> c \<le> k" using i by (auto simp: world_inv_def counts_inv_def)
  note s' = gapless_sub [OF i s]
  have k0: "0 \<le> k" "parked (pc t) \<Longrightarrow> 1 \<le> k" using k(1) by (auto simp: tally_def Suc_le_eq card_gt_0_iff)
  have q: "stopped_count w = 0 \<and> (\<forall>c. pc 0 \<noteq> GLoadT c)" if "pc t = YWhile" "world_stopped w = 0"
    using that f lock_unique [OF l, of t 0] by (auto simp: flags_inv_def split: if_splits)
  have t: "total_threads w' = total_threads w + (if counted p' then 1 else 0) - (if counted (pc t) then 1 else 0)"
    using s' by (cases "pc t") (auto simp: running_step_def split: if_splits)
  let ?k = "k + (if parked p' then 1 else 0) - (if parked (pc t) then 1 else 0)"
  have 1: "stopped_count w' \<le> ?k"
    using s' k(2) k0 q by (cases "pc t") (auto simp: running_step_def split: if_splits)
  have 2: "k \<le> ?k" if "(pc(t := p')) 0 = GLoadT c" "t \<noteq> 0" for c
    using s' that q by (cases "pc t") (auto simp: running_step_def split: if_splits)
  have 3: "c \<le> k \<and> k \<le> ?k" if "p' = GLoadT c" for c
    using s' that k by (cases "pc t") (auto simp: running_step_def split: if_splits)
  have "c \<le> ?k" if "(pc(t := p')) 0 = GLoadT c" for c
    using 2 [OF that] 3 [of c] k(3) [of c] that by (cases "t = 0") auto
  then show ?thesis using tally_upd [OF i', of t p'] tally_upd [OF k(1), of t p'] t 1 by (auto simp: counts_inv_def)
qed

lemma world_commits:
  assumes i: "world_inv w pc" and s: "(w', p') \<in> set (gapless_step t w (pc t))" and c: "committed ((pc(t := p')) 0)" and u: "counted ((pc(t := p')) u)"
  shows "parked ((pc(t := p')) u)"
proof -
  have f: "flags_inv w pc" and l: "lock_inv g_inside (gc_lock w) pc" "lock_inv a_inside (add_lock w) pc" using i by (simp_all add: world_inv_def)
  obtain k where k: "tally parked pc k" "tally counted pc (total_threads w)" "\<And>c. pc 0 = GLoadT c \<Longrightarrow> c \<le> k"
    using i by (auto simp: world_inv_def counts_inv_def)
  note s' = gapless_sub [OF i s]
  show ?thesis
  proof (cases "t = 0")
    case True
    then have u0: "u \<noteq> 0" using u c by (cases "u = 0"; cases p') auto
    have "parked (pc u)" if "committed (pc 0)" using that f u u0 True by (auto simp: flags_inv_def)
    moreover have "parked (pc u)" if "pc 0 = GLoadT x" "\<not> x < total_threads w" for x
      using that tally_le(2) [OF k(1,2) parked_counted, of u] k(3) u u0 True by fastforce
    ultimately show ?thesis using s' c True u0 by (cases "pc 0") (auto simp: running_step_def split: if_splits)
  next
    case False
    then have c0: "committed (pc 0)" and p0: "\<And>v. counted (pc v) \<Longrightarrow> parked (pc v)" using c f by (auto simp: flags_inv_def)
    have oc: "\<not> of_collector (pc t)" using f False by (simp add: flags_inv_def)
    have "parked p'" if "counted p'"
    proof (cases "counted (pc t)")
      case True
      then have pt: "parked (pc t)" by (rule p0)
      have "world_stopped w = 1" if "pc t = YWhile"
        using that f c0 lock_unique [OF l(1), of t 0] False by (cases "pc 0") (auto simp: flags_inv_def)
      then show ?thesis using pt s' by (cases "pc t") (auto simp: running_step_def split: if_splits)
    next
      case ct: False
      have "pc t \<noteq> SInc"
      proof
        assume si: "pc t = SInc"
        then have "w_gap w" using f c0 lock_unique [OF l(2), of t 0] False by (cases "pc 0") (auto simp: flags_inv_def)
        then show False using s si by (simp add: gapless_step_def)
      qed
      then show ?thesis using ct oc s' that by (cases "pc t") (auto simp: running_step_def split: if_splits)
    qed
    then show ?thesis using p0 u by (cases "u = t") auto
  qed
qed

lemma world_flags:
  assumes i: "world_inv w pc" and s: "(w', p') \<in> set (gapless_step t w (pc t))"
  shows "flags_inv w' (pc(t := p'))"
proof -
  have f: "flags_inv w pc" and l: "lock_inv g_inside (gc_lock w) pc" using i by (simp_all add: world_inv_def)
  note s' = gapless_sub [OF i s]
  have oc: "\<And>t. of_collector (pc t) \<longleftrightarrow> t = 0" and ws: "world_stopped w = (if stopping (pc 0) then 1 else 0)"
    and zero: "world_stopped w = 0 \<Longrightarrow> pc 0 \<noteq> RZero \<Longrightarrow> stopped_count w = 0" and gap: "w_gap w \<longleftrightarrow> pc 0 \<in> {GUnlock, GAdd}"
    and y: "\<And>t. pc t \<in> {YLock, YCount} \<Longrightarrow> world_stopped w = 1"
    and com: "\<And>t. committed (pc 0) \<Longrightarrow> counted (pc t) \<Longrightarrow> parked (pc t)"
    using f unfolding flags_inv_def by blast+
  have oc': "\<And>u. of_collector ((pc(t := p')) u) \<longleftrightarrow> u = 0" using world_collector [OF oc s'] oc by (simp add: fun_upd_def)
  have ws': "world_stopped w' = (if stopping ((pc(t := p')) 0) then 1 else 0)"
  proof (cases "t = 0")
    case True
    then show ?thesis using s' ws oc [of 0] by (cases "pc 0") (auto simp: running_step_def split: if_splits)
  next
    case False
    then have "world_stopped w' = world_stopped w" using s' oc [of t] by (cases "pc t") (auto simp: running_step_def split: if_splits)
    then show ?thesis using ws False by simp
  qed
  have gap': "w_gap w' \<longleftrightarrow> (pc(t := p')) 0 \<in> {GUnlock, GAdd}"
  proof (cases "t = 0")
    case True
    then show ?thesis using s' gap oc [of 0] by (cases "pc 0") (auto simp: running_step_def split: if_splits)
  next
    case False
    then have "w_gap w' = w_gap w" using s' oc [of t] by (cases "pc t") (auto simp: running_step_def split: if_splits)
    then show ?thesis using gap False by simp
  qed
  have zero': "stopped_count w' = 0" if "world_stopped w' = 0" "(pc(t := p')) 0 \<noteq> RZero"
    using that s' zero y [of t] oc [of t] oc [of 0]
    by (cases "t = 0"; cases "pc t") (auto simp: running_step_def split: if_splits)
  have y': "world_stopped w' = 1" if "(pc(t := p')) u \<in> {YLock, YCount}" for u
  proof -
    have "world_stopped w' = 1" if "pc u \<in> {YLock, YCount}" "u \<noteq> t"
    proof -
      have "\<not> committed (pc 0)" using com [of u] that(1) by auto
      then have "pc t \<noteq> RClear" using oc [of t] by (cases "pc t = RClear") auto
      then show ?thesis using s' y [OF that(1)] by (cases "pc t") (auto simp: running_step_def split: if_splits)
    qed
    moreover have "world_stopped w' = 1" if "p' \<in> {YLock, YCount}"
      using that s' y [of t] ws by (cases "pc t") (auto simp: running_step_def split: if_splits)
    ultimately show ?thesis using that by (cases "u = t") auto
  qed
  show ?thesis unfolding flags_inv_def using oc' ws' zero' gap' y' world_commits [OF i s] by blast
qed

text \<open>In such a schedule the scheduler threads wait until \<open>gc_start\<close> is done.\<close>

definition starting_inv :: "gc_state_t \<Rightarrow> (tid \<Rightarrow> world_pc) \<Rightarrow> bool" where
  "starting_inv w pc \<longleftrightarrow> w = gc_state \<and> starting (pc 0) \<and> (\<forall>t. t \<noteq> 0 \<longrightarrow> pc t \<in> {SIdle, SAdd})"

definition gapless_inv :: "gc_state_t \<Rightarrow> (tid \<Rightarrow> world_pc) \<Rightarrow> bool" where
  "gapless_inv w pc \<longleftrightarrow> starting_inv w pc \<or> world_inv w pc"

lemma world_started:
  assumes o: "\<And>t. t \<noteq> 0 \<Longrightarrow> pc t \<in> {SIdle, SAdd}" and p: "pc 0 = GIdle"
  shows "world_inv (gc_state\<lparr>w_starting := False\<rparr>) pc"
proof -
  have c: "pc t = GIdle \<and> t = 0 \<or> pc t = SIdle \<and> t \<noteq> 0 \<or> pc t = SAdd \<and> t \<noteq> 0" for t using o [of t] p by (cases "t = 0") auto
  have n: "\<not> counted (pc t)" "\<not> parked (pc t)" "\<not> g_inside (pc t)" "\<not> a_inside (pc t)" "\<not> starting (pc t)" "of_collector (pc t) \<longleftrightarrow> t = 0"
    "pc t \<noteq> YLock" "pc t \<noteq> YCount" for t using c [of t] by auto
  then have "tally counted pc 0" "tally parked pc 0" by (simp_all add: tally_def)
  then show ?thesis using n p
    by (auto simp: world_inv_def gc_state_def lock_inv_def counts_inv_def flags_inv_def intro!: exI [of _ 0])
qed

lemma world_init: "gapless_inv (fst world_start) (snd world_start)"
  by (simp add: gapless_inv_def starting_inv_def world_start_def)

lemma starting_inv_step:
  assumes i: "starting_inv w pc" and s: "(w', p') \<in> set (gapless_step t w (pc t))"
  shows "gapless_inv w' (pc(t := p'))"
proof (cases "t = 0")
  case True
  have w: "w = gc_state" "starting (pc 0)" and o: "\<And>t. t \<noteq> 0 \<Longrightarrow> pc t \<in> {SIdle, SAdd}" using i by (auto simp: starting_inv_def)
  have "pc 0 = IAdd \<and> w' = gc_state\<lparr>w_starting := False\<rparr> \<and> p' = GIdle \<or> w' = gc_state \<and> starting p'"
    using s w True by (cases "pc 0") (auto simp: gapless_step_def world_step_def running_step_def gc_state_def)
  then show ?thesis using world_started [of "pc(0 := GIdle)"] o True by (auto simp: gapless_inv_def starting_inv_def)
next
  case False
  then have "pc t = SIdle \<or> pc t = SAdd" and w: "w_starting w" using i by (auto simp: starting_inv_def gc_state_def)
  then have "pc t = SIdle" using s by (auto simp: gapless_step_def)
  then have "w' = w \<and> p' = SAdd" using s by (simp add: gapless_step_def world_step_def running_step_def)
  then show ?thesis using False i by (simp add: starting_inv_def gapless_inv_def)
qed

lemma world_inv_step:
  assumes "world_inv w pc" "(w', p') \<in> set (gapless_step t w (pc t))"
  shows "world_inv w' (pc(t := p'))"
  using world_locks [of w' p' True t w pc, OF gapless_sub [OF assms]] world_counts [OF assms] world_flags [OF assms]
    running_started [OF gapless_sub [OF assms]] assms(1)
  by (simp add: world_inv_def)

interpretation wd: sync_object gapless_step world_start gapless_inv
proof (unfold_locales, goal_cases)
  case 1
  show ?case by (rule world_init)
next
  case (2 w pc w' p' t)
  then show ?case using starting_inv_step [of w pc w' p' t] world_inv_step [of w pc w' p' t] unfolding gapless_inv_def by blast
qed

end
