(* ===== verification/WorldProps.thy ===== *)
theory WorldProps
  imports World
begin

text \<open>
  What stopping the world guarantees, and the three schedules in which it fails.
\<close>

text \<open>
  C19: In every schedule, with any number of threads and with spurious wakeups, in which no thread takes a task before
  \<open>gc_start\<close> is done and none is counted between the collector's last check and its acquisition of \<open>add_lock\<close>: while
  the collector marks and sweeps, every thread that runs a task is parked inside \<open>self_yield\<close>, and stays there until
  the world is resumed.
\<close>

theorem stw_safe:
  assumes r: "reach gapless_step world_start n (w, pc)" and c: "pc 0 \<in> {GCollect, RLock, RClear}"
  shows "(\<forall>t. counted (pc t) \<longrightarrow> parked (pc t)) \<and> world_stopped w = 1 \<and> add_lock w = Some 0"
proof -
  have "gapless_inv w pc" using wd.reach_Inv [OF r] by simp
  then have i: "lock_inv a_inside (add_lock w) pc" "flags_inv w pc" using c by (auto simp: gapless_inv_def starting_inv_def world_inv_def)
  have "add_lock w = Some 0" using c lock_owner [OF i(1), of 0] by auto
  then show ?thesis using i(2) c by (auto simp: flags_inv_def)
qed

theorem stw_safe_witness:
  "\<exists>n w pc. reach gapless_step world_start n (w, pc) \<and> pc 0 = GCollect \<and> pc 1 = YWaiting \<and> parked (pc 1) \<and> world_stopped w = 1"
proof -
  let ?ts = "replicate 7 (0, 0) @ replicate 4 (1, 0) @ replicate 6 (0, 0) @ replicate 8 (1, 0) @ replicate 5 (0, 0)"
  have "case run gapless_step ?ts world_start of None \<Rightarrow> False | Some (w, pc) \<Rightarrow> pc 0 = GCollect \<and> pc 1 = YWaiting" by code_simp
  then obtain w pc where e: "run gapless_step ?ts world_start = Some (w, pc)" "pc 0 = GCollect" "pc 1 = YWaiting" by (auto split: option.splits)
  note r = run_reach [OF e(1) reach.start]
  have "pc 0 \<in> {GCollect, RLock, RClear}" "counted (pc 1)" using e by simp_all
  then have "parked (pc 1)" "world_stopped w = 1" using stw_safe [OF r] by blast+
  then show ?thesis using r e by blast
qed

text \<open>
  C21: A thread that takes its task before \<open>gc_start\<close> stores 0 into \<open>total_threads\<close> is not counted any more: there is a
  schedule with this one task, in which nothing happens in the gap, such that the collector finds no thread to
  wait for and marks and sweeps while the task runs.
\<close>

theorem stw_early_task:
  "\<exists>n w pc. reach (\<lambda>t w p. if p = SInc \<and> w_gap w then [] else world_step False t w p) world_start n (w, pc) \<and>
     pc 0 = GCollect \<and> pc 1 = SRun \<and> total_threads w = 0"
proof -
  let ?step = "\<lambda>t w p. if p = SInc \<and> w_gap w then [] else world_step False t w p"
  let ?ts = "replicate 4 (1, 0) @ replicate 14 (0, 0)"
  have "case run ?step ?ts world_start of None \<Rightarrow> False | Some (w, pc) \<Rightarrow> pc 0 = GCollect \<and> pc 1 = SRun \<and> total_threads w = 0" by code_simp
  then obtain w pc where "run ?step ?ts world_start = Some (w, pc)" "pc 0 = GCollect" "pc 1 = SRun" "total_threads w = 0"
    by (auto split: option.splits)
  then show ?thesis using run_reach [OF _ reach.start] by blast
qed

text \<open>
  C20: A thread that is counted in the gap runs its task while the collector marks and sweeps.
\<close>

theorem stw_gap:
  "\<exists>n w pc. reach (world_step False) world_start n (w, pc) \<and> pc 0 = GCollect \<and> pc 1 = SRun \<and> stopped_count w < total_threads w"
proof -
  let ?ts = "replicate 13 (0, 0) @ replicate 4 (1, 0) @ [(0, 0)]"
  have "case run (world_step False) ?ts world_start of None \<Rightarrow> False
    | Some (w, pc) \<Rightarrow> pc 0 = GCollect \<and> pc 1 = SRun \<and> stopped_count w < total_threads w" by code_simp
  then obtain w pc where "run (world_step False) ?ts world_start = Some (w, pc)" "pc 0 = GCollect" "pc 1 = SRun" "stopped_count w < total_threads w"
    by (auto split: option.splits)
  then show ?thesis using run_reach [OF _ reach.start] by blast
qed

text \<open>
  C22: A task that finishes while the collector waits does not signal it: there is a schedule of two tasks
  after which all remaining threads are parked, so that the condition the collector waits for holds, and
  neither the collector nor the parked task can take a step. Unless new work arrives, they wait for each
  other forever.
\<close>

theorem stw_lost_signal:
  "\<exists>n w pc. reach (world_step False) world_start n (w, pc) \<and> pc = (\<lambda>t. if t = 0 then GWaiting else if t = 1 then YWaiting else SIdle) \<and>
     stopped_count w = total_threads w \<and> world_step False 0 w (pc 0) = [] \<and> world_step False 1 w (pc 1) = []"
proof -
  let ?ts = "replicate 7 (0, 0) @ replicate 4 (1, 0) @ replicate 4 (2, 0) @ replicate 6 (0, 0) @ replicate 7 (1, 0) @ [(2, 1), (2, 0)]"
  have "case run (world_step False) ?ts world_start of None \<Rightarrow> False
    | Some (w, pc) \<Rightarrow> pc 0 = GWaiting \<and> pc 1 = YWaiting \<and> pc 2 = SIdle \<and> stopped_count w = total_threads w \<and>
        world_step False 0 w (pc 0) = [] \<and> world_step False 1 w (pc 1) = []" by code_simp
  then obtain w pc where e: "run (world_step False) ?ts world_start = Some (w, pc)" "pc 0 = GWaiting" "pc 1 = YWaiting" "pc 2 = SIdle"
      "stopped_count w = total_threads w" "world_step False 0 w (pc 0) = []" "world_step False 1 w (pc 1) = []"
    by (auto split: option.splits)
  have "pc t = (if t = 0 then GWaiting else if t = 1 then YWaiting else SIdle)" for t
    using run_other [OF e(1), of t] e(2-4) by (cases "t = 2") (auto simp: world_start_def)
  then show ?thesis using run_reach [OF e(1) reach.start] e by blast
qed

end
