(* ===== verification/Diskio.thy ===== *)
theory Diskio
  imports Array Format
begin

text \<open>
  The blocking part of the disk I/O, \<^verbatim>\<open>src/runtime/src/diskio.c\<close>: \<open>syncio_scan\<close>, \<open>syncio_printf\<close>,
  \<open>syncio_fread\<close>, \<open>syncio_fwrite\<close> and the wrappers of the C stream functions. The operating system and
  the C streams are the argument \<open>K\<close>: system calls on a state \<open>'k\<close>, which give an error number
  (\<open>Inl\<close>) or a result (\<open>Inr\<close>). A call may be interrupted or transfer fewer bytes than asked for, and the
  code loops until the transfer is complete; a loop that does not end is \<open>None\<close>.
\<close>

section \<open>The system calls\<close>

record 'k kernel =
  k_read :: "int \<Rightarrow> nat \<Rightarrow> 'k \<Rightarrow> (int + int list) \<times> 'k"
  k_pread :: "int \<Rightarrow> nat \<Rightarrow> int \<Rightarrow> 'k \<Rightarrow> (int + int list) \<times> 'k"
  k_write :: "int \<Rightarrow> int list \<Rightarrow> 'k \<Rightarrow> (int + nat) \<times> 'k"
  k_fileno :: "addr \<Rightarrow> 'k \<Rightarrow> int"
  k_stdout :: addr
  k_fopen :: "(addr \<Rightarrow> int) \<Rightarrow> addr \<Rightarrow> addr \<Rightarrow> 'k \<Rightarrow> addr \<times> 'k"
  k_fclose :: "addr \<Rightarrow> 'k \<Rightarrow> int \<times> 'k"
  k_fseek :: "addr \<Rightarrow> int \<Rightarrow> int \<Rightarrow> 'k \<Rightarrow> int \<times> 'k"
  k_fflush :: "addr \<Rightarrow> 'k \<Rightarrow> int \<times> 'k"

abbreviation (input) EINTR :: int where "EINTR \<equiv> 4"
abbreviation (input) STDIN_FILENO :: int where "STDIN_FILENO \<equiv> 0"
abbreviation (input) STDOUT_FILENO :: int where "STDOUT_FILENO \<equiv> 1"

section \<open>Operations\<close>

text \<open>\<open>read\<close> is called again while a signal interrupts it.\<close>

partial_function (option) scan_loop :: "'k kernel \<Rightarrow> nat \<Rightarrow> 'k \<Rightarrow> (int list option \<times> 'k) option" where
  "scan_loop K n k =
     (case k_read K STDIN_FILENO n k of
        (Inl e, k) \<Rightarrow> if e = EINTR then scan_loop K n k else Some (None, k)
      | (Inr bs, k) \<Rightarrow> Some (Some bs, k))"

definition syncio_scan :: "'k kernel \<Rightarrow> alloc_fun \<Rightarrow> release_fun \<Rightarrow> int \<Rightarrow> heap_state \<Rightarrow> 'k \<Rightarrow> (addr \<times> heap_state \<times> 'k) option" where
  "syncio_scan K al rl n s k =
     (if n \<le> 0 then Some (NULL, s, k)
      else do {
        (buf, s) \<leftarrow> alloc_array al rl 8 1 [n + 1] s;
        if buf = NULL then Some (NULL, s, k)
        else do {
          (r, k) \<leftarrow> scan_loop K (nat n) k;
          case r of
            None \<Rightarrow> Some (NULL, s, k)
          | Some bs \<Rightarrow> do {
              let s = memput (hmem s buf) bs s;
              let s = set_byte (hmem s buf + int (length bs)) 0 s;
              Some (buf, s, k)
            }
        }
      })"

text \<open>
  The loop over \<open>write\<close> of \<open>syncio_printf\<close> and \<open>syncio_fwrite\<close>: \<open>n\<close> bytes at \<open>p\<close>, of which \<open>tot\<close>
  are written.
\<close>

partial_function (option) write_loop :: "'k kernel \<Rightarrow> int \<Rightarrow> addr \<Rightarrow> int \<Rightarrow> int \<Rightarrow> heap_state \<Rightarrow> 'k \<Rightarrow> (int \<times> 'k) option" where
  "write_loop K fd p n tot s k =
     (if tot < n then
        (case k_write K fd (bytes_at s (p + tot) (nat (n - tot))) k of
           (Inl e, k) \<Rightarrow> if e = EINTR then write_loop K fd p n tot s k else Some (- 1, k)
         | (Inr w, k) \<Rightarrow> write_loop K fd p n (tot + int w) s k)
      else Some (tot, k))"

text \<open>The format loop is the one of the strings, with \<open>%ld\<close> as one conversion.\<close>

definition syncio_printf ::
  "'k kernel \<Rightarrow> 'd fpu \<Rightarrow> alloc_fun \<Rightarrow> addr \<Rightarrow> 'd arg list \<Rightarrow> heap_state \<Rightarrow> 'k \<Rightarrow> (int \<times> heap_state \<times> 'k) option" where
  "syncio_printf K fp al fmt args s k =
     (if fmt = NULL \<or> hmem s fmt = NULL then Some (0, s, k)
      else do {
        (b, s) \<leftarrow> format_loop True fp al (hmem s fmt) (hmem s (fmt + 8)) 0 \<lparr>out = NULL, cap = 0, len = 0\<rparr> args s;
        if len b = 0 \<or> out b = NULL then Some (0, s, k)
        else do {
          (r, k) \<leftarrow> write_loop K STDOUT_FILENO (out b) (len b) 0 s k;
          Some (r, s, k)
        }
      })"

text \<open>
  The loop over \<open>pread\<close>; an empty result is the end of the file. The addition to the \<open>int\<close> offset is
  converted back to 32 bits.
\<close>

partial_function (option) fread_loop ::
  "'k kernel \<Rightarrow> int \<Rightarrow> addr \<Rightarrow> int \<Rightarrow> int \<Rightarrow> int \<Rightarrow> heap_state \<Rightarrow> 'k \<Rightarrow> (int \<times> heap_state \<times> 'k) option" where
  "fread_loop K fd p n tot offset s k =
     (if tot < n then
        (case k_pread K fd (nat (n - tot)) offset k of
           (Inl e, k) \<Rightarrow> if e = EINTR then fread_loop K fd p n tot offset s k else Some (- 1, s, k)
         | (Inr bs, k) \<Rightarrow>
             if bs = [] then Some (tot, s, k)
             else fread_loop K fd p n (tot + int (length bs)) (to_int32 (offset + int (length bs))) (memput (p + tot) bs s) k)
      else Some (tot, s, k))"

definition syncio_fread :: "'k kernel \<Rightarrow> addr \<Rightarrow> addr \<Rightarrow> int \<Rightarrow> int \<Rightarrow> heap_state \<Rightarrow> 'k \<Rightarrow> (int \<times> heap_state \<times> 'k) option" where
  "syncio_fread K f buf n offset s k =
     (if f = NULL \<or> hmem s f = NULL \<or> buf = NULL \<or> n \<le> 0 \<or> offset < 0 then Some (- 1, s, k)
      else
        let fd = k_fileno K (hmem s f) k in
        if fd < 0 then Some (- 1, s, k) else fread_loop K fd (hmem s buf) n 0 offset s k)"

definition syncio_fwrite :: "'k kernel \<Rightarrow> addr \<Rightarrow> addr \<Rightarrow> int \<Rightarrow> int \<Rightarrow> heap_state \<Rightarrow> 'k \<Rightarrow> (int \<times> heap_state \<times> 'k) option" where
  "syncio_fwrite K f buf n offset s k =
     (if f = NULL \<or> hmem s f = NULL \<or> buf = NULL \<or> n \<le> 0 \<or> offset < 0 then Some (- 1, s, k)
      else
        let fd = k_fileno K (hmem s f) k in
        if fd < 0 then Some (- 1, s, k)
        else do {
          (r, k) \<leftarrow> write_loop K fd (hmem s buf + offset) n 0 s k;
          Some (r, s, k)
        })"

text \<open>A stream is wrapped in a string header whose \<open>data\<close> is the stream.\<close>

definition syncio_get_stdout :: "'k kernel \<Rightarrow> alloc_fun \<Rightarrow> heap_state \<Rightarrow> (addr \<times> heap_state) option" where
  "syncio_get_stdout K al s = do {
     (wrapper, s) \<leftarrow> al sizeof_string_t s;
     if wrapper = NULL then Some (NULL, s)
     else Some (wrapper, poke (wrapper + 8) 6 (poke wrapper (k_stdout K) s))
   }"

definition syncio_fopen :: "'k kernel \<Rightarrow> alloc_fun \<Rightarrow> addr \<Rightarrow> addr \<Rightarrow> heap_state \<Rightarrow> 'k \<Rightarrow> (addr \<times> heap_state \<times> 'k) option" where
  "syncio_fopen K al filename mode s k =
     (let (f, k) = k_fopen K (hbytes s) (hmem s filename) (hmem s mode) k in
      if f = NULL then Some (NULL, s, k)
      else do {
        (wrapper, s) \<leftarrow> al sizeof_string_t s;
        if wrapper = NULL then Some (NULL, s, snd (k_fclose K f k))
        else Some (wrapper, poke (wrapper + 8) 0 (poke wrapper f s), k)
      })"

definition syncio_fclose :: "'k kernel \<Rightarrow> addr \<Rightarrow> heap_state \<Rightarrow> 'k \<Rightarrow> int \<times> 'k" where
  "syncio_fclose K f s k =
     (if f = NULL \<or> hmem s f = NULL then (- 1, k)
      else let (ret, k) = k_fclose K (hmem s f) k in if ret \<noteq> 0 then (- 1, k) else (0, k))"

definition syncio_fseek :: "'k kernel \<Rightarrow> addr \<Rightarrow> int \<Rightarrow> int \<Rightarrow> heap_state \<Rightarrow> 'k \<Rightarrow> int \<times> 'k" where
  "syncio_fseek K f offset whence s k =
     (if f = NULL \<or> hmem s f = NULL then (- 1, k)
      else let (ret, k) = k_fseek K (hmem s f) offset whence k in if ret \<noteq> 0 then (- 1, k) else (0, k))"

definition syncio_fflush :: "'k kernel \<Rightarrow> addr \<Rightarrow> heap_state \<Rightarrow> 'k \<Rightarrow> int \<times> 'k" where
  "syncio_fflush K f s k =
     (if f = NULL \<or> hmem s f = NULL then (- 1, k)
      else let (ret, k) = k_fflush K (hmem s f) k in if ret \<noteq> 0 then (- 1, k) else (0, k))"

section \<open>What the system calls promise\<close>

text \<open>
  \<open>sent k fd\<close> are the bytes the system has accepted on the descriptor, \<open>content k fd\<close> the bytes of the
  file behind it, and \<open>sigs k\<close> bounds the number of signals still to arrive. \<open>write\<close> of a non-empty
  buffer accepts a non-empty prefix of it or fails; \<open>pread\<close> gives a prefix of the rest of the file, and
  gives no bytes only at its end; each interrupted call takes one signal.
\<close>

definition write_ok :: "'k kernel \<Rightarrow> ('k \<Rightarrow> int \<Rightarrow> int list) \<Rightarrow> ('k \<Rightarrow> nat) \<Rightarrow> bool" where
  "write_ok K sent sigs \<longleftrightarrow> (\<forall>fd bs k. bs \<noteq> [] \<longrightarrow> (case k_write K fd bs k of
       (Inl e, k') \<Rightarrow> sent k' = sent k \<and> (if e = EINTR then sigs k' < sigs k else sigs k' \<le> sigs k)
     | (Inr w, k') \<Rightarrow> 0 < w \<and> w \<le> length bs \<and> sent k' = (sent k)(fd := sent k fd @ take w bs) \<and> sigs k' \<le> sigs k))"

definition pread_ok :: "'k kernel \<Rightarrow> ('k \<Rightarrow> int \<Rightarrow> int list) \<Rightarrow> ('k \<Rightarrow> nat) \<Rightarrow> bool" where
  "pread_ok K content sigs \<longleftrightarrow> (\<forall>fd n off k. 0 < n \<longrightarrow> 0 \<le> off \<longrightarrow> (case k_pread K fd n off k of
       (Inl e, k') \<Rightarrow> content k' = content k \<and> (if e = EINTR then sigs k' < sigs k else sigs k' \<le> sigs k)
     | (Inr bs, k') \<Rightarrow> content k' = content k \<and> sigs k' \<le> sigs k \<and> length bs \<le> n \<and>
         bs = take (length bs) (drop (nat off) (content k fd)) \<and> (bs = [] \<longleftrightarrow> length (content k fd) \<le> nat off)))"

text \<open>
  The same for descriptors that keep more than the bytes they accepted: \<open>app\<close> says what an accepted string does to
  \<open>acc k fd\<close>. A regular file that is not opened for appending has its bytes and a position: \<open>write\<close> replaces the bytes
  from there on, after zeros if the position is behind the end, and moves the position.
\<close>

definition accepts :: "('c \<Rightarrow> int list \<Rightarrow> 'c) \<Rightarrow> 'k kernel \<Rightarrow> ('k \<Rightarrow> int \<Rightarrow> 'c) \<Rightarrow> ('k \<Rightarrow> nat) \<Rightarrow> bool" where
  "accepts app K acc sigs \<longleftrightarrow> (\<forall>fd bs k. bs \<noteq> [] \<longrightarrow> (case k_write K fd bs k of
       (Inl e, k') \<Rightarrow> acc k' = acc k \<and> (if e = EINTR then sigs k' < sigs k else sigs k' \<le> sigs k)
     | (Inr w, k') \<Rightarrow> 0 < w \<and> w \<le> length bs \<and> acc k' = (acc k)(fd := app (acc k fd) (take w bs)) \<and> sigs k' \<le> sigs k))"

definition put_at :: "nat \<Rightarrow> int list \<Rightarrow> int list \<Rightarrow> int list" where
  "put_at p bs c = (if bs = [] then c else take p c @ replicate (p - length c) 0 @ bs @ drop (p + length bs) c)"

definition file_put :: "int list \<times> nat \<Rightarrow> int list \<Rightarrow> int list \<times> nat" where
  "file_put f bs = (put_at (snd f) bs (fst f), snd f + length bs)"

text \<open>The bytes still to be read from the descriptor are \<open>input k fd\<close>.\<close>

definition read_ok :: "'k kernel \<Rightarrow> ('k \<Rightarrow> int \<Rightarrow> int list) \<Rightarrow> ('k \<Rightarrow> nat) \<Rightarrow> bool" where
  "read_ok K input sigs \<longleftrightarrow> (\<forall>fd n k. 0 < n \<longrightarrow> (case k_read K fd n k of
       (Inl e, k') \<Rightarrow> input k' = input k \<and> (if e = EINTR then sigs k' < sigs k else sigs k' \<le> sigs k)
     | (Inr bs, k') \<Rightarrow> length bs \<le> n \<and> input k fd = bs @ input k' fd \<and> sigs k' \<le> sigs k))"

lemma write_ok_accepts: "write_ok K sent sigs \<longleftrightarrow> accepts (@) K sent sigs"
  by (simp add: write_ok_def accepts_def)

lemma accepts_D:
  assumes "accepts app K acc sigs" "bs \<noteq> []"
  shows "k_write K fd bs k = (Inl e, k') \<Longrightarrow> acc k' = acc k \<and> (e = EINTR \<longrightarrow> sigs k' < sigs k)"
    "k_write K fd bs k = (Inr w, k') \<Longrightarrow> 0 < w \<and> w \<le> length bs \<and> acc k' = (acc k)(fd := app (acc k fd) (take w bs)) \<and> sigs k' \<le> sigs k"
  using assms(1) [unfolded accepts_def, THEN spec [of _ fd], THEN spec [of _ bs], THEN spec [of _ k]] assms(2) by (auto split: if_splits)

lemma pread_okD:
  assumes "pread_ok K content sigs" "0 < n" "0 \<le> off"
  shows "k_pread K fd n off k = (Inl e, k') \<Longrightarrow> content k' = content k \<and> (e = EINTR \<longrightarrow> sigs k' < sigs k)"
    "k_pread K fd n off k = (Inr bs, k') \<Longrightarrow> content k' = content k \<and> sigs k' \<le> sigs k \<and> length bs \<le> n \<and>
      bs = take (length bs) (drop (nat off) (content k fd)) \<and> (bs = [] \<longleftrightarrow> length (content k fd) \<le> nat off)"
  using assms(1) [unfolded pread_ok_def, THEN spec [of _ fd], THEN spec [of _ n], THEN spec [of _ off], THEN spec [of _ k]] assms(2,3) by (auto split: if_splits)

lemma read_okD:
  assumes "read_ok K input sigs" "0 < n"
  shows "k_read K fd n k = (Inl e, k') \<Longrightarrow> input k' = input k \<and> (e = EINTR \<longrightarrow> sigs k' < sigs k)"
    "k_read K fd n k = (Inr bs, k') \<Longrightarrow> length bs \<le> n \<and> input k fd = bs @ input k' fd"
  using assms(1) [unfolded read_ok_def, THEN spec [of _ fd], THEN spec [of _ n], THEN spec [of _ k]] assms(2) by (auto split: if_splits)

section \<open>The loops\<close>

text \<open>
  The write loop returns. Either all bytes are accepted, in order, or \<open>write\<close> has failed on the rest.
\<close>

definition write_result :: "('c \<Rightarrow> int list \<Rightarrow> 'c) \<Rightarrow> 'k kernel \<Rightarrow> ('k \<Rightarrow> int \<Rightarrow> 'c) \<Rightarrow> int \<Rightarrow> int list \<Rightarrow> 'k \<Rightarrow> int \<Rightarrow> int \<Rightarrow> 'k \<Rightarrow> bool" where
  "write_result app K acc fd bs k n r k' \<longleftrightarrow>
     r = n \<and> acc k' = (acc k)(fd := app (acc k fd) bs) \<or>
     r = - 1 \<and> (\<exists>j < length bs. acc k' = (acc k)(fd := app (acc k fd) (take j bs)) \<and>
       (\<exists>ka e. k_write K fd (drop j bs) ka = (Inl e, k') \<and> e \<noteq> EINTR))"

text \<open>What the loop needs of a descriptor: accepting two strings is accepting their concatenation.\<close>

locale channel =
  fixes app :: "'c \<Rightarrow> int list \<Rightarrow> 'c"
  assumes app_nil: "app c [] = c"
    and app_app: "app (app c a) b = app c (a @ b)"
begin

lemma write_loop_ok:
  assumes K: "accepts app K acc sigs"
  shows "tot \<le> n \<Longrightarrow> m = nat (n - tot) \<Longrightarrow>
    \<exists>r k'. write_loop K fd p n tot s k = Some (r, k') \<and> write_result app K acc fd (bytes_at s (p + tot) m) k n r k'"
proof (induction "m + sigs k" arbitrary: tot k m rule: less_induct)
  case less
  show ?case
  proof (cases "tot < n")
    case False
    then show ?thesis using less.prems by (subst write_loop.simps) (simp add: write_result_def bytes_at_def app_nil)
  next
    case True
    let ?bs = "bytes_at s (p + tot) m"
    have m0: "0 < m" using True less.prems by simp
    then have ne: "?bs \<noteq> []" by (metis bytes_at_length length_greater_0_conv)
    note w = accepts_D [OF K ne]
    show ?thesis
    proof (cases "k_write K fd ?bs k")
      case (Pair x k1)
      show ?thesis
      proof (cases x)
        case (Inl e)
        have c: "acc k1 = acc k" "e = EINTR \<Longrightarrow> sigs k1 < sigs k" using w(1) [OF Pair [unfolded Inl]] by simp_all
        show ?thesis
        proof (cases "e = EINTR")
          case True
          then obtain r k' where "write_loop K fd p n tot s k1 = Some (r, k')" "write_result app K acc fd ?bs k1 n r k'"
            using less.hyps [of m k1 tot] c(2) less.prems by auto
          then show ?thesis using True Pair Inl \<open>tot < n\<close> less.prems(2) c(1)
            by (subst write_loop.simps) (auto simp: write_result_def)
        next
          case False
          have "write_result app K acc fd ?bs k n (- 1) k1"
            unfolding write_result_def using m0 c(1) Pair Inl False by (intro disjI2 conjI exI [of _ 0]) (auto simp: app_nil)
          then show ?thesis using False Pair Inl True less.prems(2) by (subst write_loop.simps) simp
        qed
      next
        case (Inr j)
        have c: "0 < j" "j \<le> m" "acc k1 = (acc k)(fd := app (acc k fd) (take j ?bs))" "sigs k1 \<le> sigs k" using w(2) [OF Pair [unfolded Inr]] by simp_all
        have m': "m - j = nat (n - (tot + int j))" "m - j + sigs k1 < m + sigs k" using c less.prems by auto
        have sp: "?bs = bytes_at s (p + tot) j @ bytes_at s (p + (tot + int j)) (m - j)"
          using bytes_at_append [of s "p + tot" j "m - j"] c(2) by (simp add: add.assoc)
        have tn: "tot + int j \<le> n" using c(2) less.prems by linarith
        obtain r k' where r: "write_loop K fd p n (tot + int j) s k1 = Some (r, k')"
            "write_result app K acc fd (bytes_at s (p + (tot + int j)) (m - j)) k1 n r k'"
          using less.hyps [OF m'(2) tn m'(1)] by blast
        have tk: "take j ?bs = bytes_at s (p + tot) j" using sp by simp
        have "write_result app K acc fd ?bs k n r k'"
          using r(2) unfolding write_result_def
        proof (elim disjE conjE exE, goal_cases)
          case 1
          then show ?case using c(3) sp tk by (auto simp: app_app)
        next
          case (2 i ka e)
          have "drop (j + i) ?bs = drop i (bytes_at s (p + (tot + int j)) (m - j))" "take (j + i) ?bs = bytes_at s (p + tot) j @ take i (bytes_at s (p + (tot + int j)) (m - j))"
            by (simp_all add: sp)
          moreover have "j + i < length ?bs" using 2(2) c(2) by simp
          ultimately show ?case using 2 c(3) tk by (intro disjI2 conjI exI [of _ "j + i"]) (auto simp: app_app)
        qed
        then show ?thesis using r(1) Pair Inr True less.prems(2) by (subst write_loop.simps) simp
      qed
    qed
  qed
qed

end

interpretation accepted: channel "(@)"
  by unfold_locales simp_all

lemma put_at_put_at: "put_at (p + length a) b (put_at p a c) = put_at p (a @ b) c"
proof (cases "a = [] \<or> b = []")
  case False
  let ?h = "take p c @ replicate (p - length c) 0"
  have h: "length ?h = p" by simp
  have e: "put_at p a c = ?h @ a @ drop (p + length a) c" using False by (simp add: put_at_def)
  have "take (p + length a) (put_at p a c) = ?h @ a" "drop (p + length a + length b) (put_at p a c) = drop (p + length a + length b) c"
    unfolding e using h by (simp_all add: ac_simps)
  moreover have "p + length a - length (put_at p a c) = 0" unfolding e using h by simp
  ultimately show ?thesis using False by (simp add: put_at_def add.assoc)
qed (auto simp: put_at_def)

interpretation disk_file: channel file_put
  by unfold_locales (simp_all add: file_put_def put_at_put_at add.assoc, simp add: put_at_def)

lemma scan_loop_ok:
  assumes K: "read_ok K input sigs" and n: "0 < n"
  shows "\<exists>r k'. scan_loop K n k = Some (r, k') \<and>
    (case r of Some bs \<Rightarrow> length bs \<le> n \<and> input k STDIN_FILENO = bs @ input k' STDIN_FILENO
     | None \<Rightarrow> input k' = input k \<and> (\<exists>ka e. k_read K STDIN_FILENO n ka = (Inl e, k') \<and> e \<noteq> EINTR))"
proof (induction "sigs k" arbitrary: k rule: less_induct)
  case less
  note w = read_okD [OF K n]
  show ?case
  proof (cases "k_read K STDIN_FILENO n k")
    case (Pair x k1)
    show ?thesis
    proof (cases x)
      case (Inr bs)
      then show ?thesis using Pair w(2) [OF Pair [unfolded Inr]] by (subst scan_loop.simps) simp
    next
      case (Inl e)
      have c: "input k1 = input k" "e = EINTR \<Longrightarrow> sigs k1 < sigs k" using w(1) [OF Pair [unfolded Inl]] by simp_all
      show ?thesis
      proof (cases "e = EINTR")
        case True
        then show ?thesis using less [OF c(2) [OF True], unfolded c(1)] Pair Inl by (subst scan_loop.simps) simp
      next
        case False
        then show ?thesis using Pair Inl c(1) by (subst scan_loop.simps) auto
      qed
    qed
  qed
qed

text \<open>
  The loop over \<open>pread\<close> returns. Either the buffer holds the part \<open>w\<close> of the file that was asked for,
  up to its end, or \<open>pread\<close> has failed. No byte outside of the buffer changes.
\<close>

definition pread_failed :: "'k kernel \<Rightarrow> int \<Rightarrow> 'k \<Rightarrow> bool" where
  "pread_failed K fd k' \<longleftrightarrow> (\<exists>ka c off e. k_pread K fd c off ka = (Inl e, k') \<and> e \<noteq> EINTR)"

context allocator
begin

lemma fread_loop_ok:
  assumes K: "pread_ok K content sigs" and d: "L d = Some c" "n \<le> c"
  shows "inv s L \<Longrightarrow> 0 \<le> tot \<Longrightarrow> tot \<le> n \<Longrightarrow> 0 \<le> off \<Longrightarrow> off + (n - tot) < 2 ^ 31 \<Longrightarrow>
    w = take (nat (n - tot)) (drop (nat off) (content k fd)) \<Longrightarrow>
    \<exists>r s' k'. fread_loop K fd d n tot off s k = Some (r, s', k') \<and> inv s' L \<and> frame {d} L s L s' \<and> content k' = content k \<and>
      bytes_at s' d (nat tot) = bytes_at s d (nat tot) \<and>
      (r = tot + int (length w) \<and> bytes_at s' (d + tot) (length w) = w \<or> r = - 1 \<and> pread_failed K fd k')"
proof (induction "nat (n - tot) + sigs k" arbitrary: tot off s k w rule: less_induct)
  case less
  show ?case
  proof (cases "tot < n")
    case False
    then show ?thesis using less.prems by (subst fread_loop.simps) (simp add: frame_refl bytes_at_def)
  next
    case True
    have n0: "0 < nat (n - tot)" using True by simp
    note p = pread_okD [OF K n0 less.prems(4)]
    show ?thesis
    proof (cases "k_pread K fd (nat (n - tot)) off k")
      case (Pair x k1)
      show ?thesis
      proof (cases x)
        case (Inl e)
        have c: "content k1 = content k" "e = EINTR \<Longrightarrow> sigs k1 < sigs k" using p(1) [OF Pair [unfolded Inl]] by simp_all
        show ?thesis
        proof (cases "e = EINTR")
          case True
          have m: "nat (n - tot) + sigs k1 < nat (n - tot) + sigs k" using c(2) True by simp
          show ?thesis using less.hyps [OF m less.prems(1-5)] less.prems(6) True \<open>tot < n\<close> Pair Inl c(1)
            by (subst fread_loop.simps) simp
        next
          case False
          then have "pread_failed K fd k1" using Pair Inl by (auto simp: pread_failed_def)
          then show ?thesis using False True Pair Inl less.prems(1) c(1) by (subst fread_loop.simps) (simp add: frame_refl)
        qed
      next
        case (Inr bs)
        have c: "content k1 = content k" "sigs k1 \<le> sigs k" "length bs \<le> nat (n - tot)"
            "bs = take (length bs) (drop (nat off) (content k fd))" "bs = [] \<longleftrightarrow> length (content k fd) \<le> nat off"
          using p(2) [OF Pair [unfolded Inr]] by simp_all
        show ?thesis
        proof (cases "bs = []")
          case True
          then have "w = []" using c(5) less.prems(6) by simp
          then show ?thesis using True \<open>tot < n\<close> Pair Inr less.prems(1) c(1) by (subst fread_loop.simps) (simp add: frame_refl bytes_at_def)
        next
          case False
          let ?j = "int (length bs)" and ?s = "memput (d + tot) bs s"
          have j: "0 < ?j" "?j \<le> n - tot" using False c(3) n0 by auto
          have f1: "inv ?s L" "frame {d} L s L ?s"
            using memput_frame [OF less.prems(1) d(1) less.prems(2), of bs] j d(2) by simp_all
          define w1 where "w1 = take (nat (n - (tot + ?j))) (drop (nat (off + ?j)) (content k1 fd))"
          have wb: "w = bs @ w1"
          proof -
            let ?x = "drop (nat off) (content k fd)"
            have "nat (n - tot) = length bs + nat (n - (tot + ?j))" "nat (off + ?j) = length bs + nat off" using j less.prems(4) by auto
            then have "w = take (length bs) ?x @ w1" unfolding w1_def less.prems(6) c(1) by (simp only: take_add drop_drop)
            then show ?thesis using c(4) by simp
          qed
          have m: "nat (n - (tot + ?j)) + sigs k1 < nat (n - tot) + sigs k" using j c(2) by linarith
          have o32: "to_int32 (off + ?j) = off + ?j" using to_int32_id [of "off + ?j"] j less.prems(4,5) by simp
          obtain r s' k' where r: "fread_loop K fd d n (tot + ?j) (off + ?j) ?s k1 = Some (r, s', k')" "inv s' L" "frame {d} L ?s L s'"
              "content k' = content k1" "bytes_at s' d (nat (tot + ?j)) = bytes_at ?s d (nat (tot + ?j))"
              "r = tot + ?j + int (length w1) \<and> bytes_at s' (d + (tot + ?j)) (length w1) = w1 \<or> r = - 1 \<and> pread_failed K fd k'"
            using less.hyps [OF m f1(1) _ _ _ _ w1_def] j less.prems(2,4,5) by auto
          have e: "fread_loop K fd d n tot off s k = Some (r, s', k')"
            using r(1) Pair Inr False True o32 by (subst fread_loop.simps) simp
          have nt: "nat (tot + ?j) = nat tot + length bs" using less.prems(2) by simp
          have sp: "bytes_at s' d (nat tot) = bytes_at ?s d (nat tot)" "bytes_at s' (d + tot) (length bs) = bytes_at ?s (d + tot) (length bs)"
            using r(5) less.prems(2) unfolding nt bytes_at_append by simp_all
          have "bytes_at ?s d (nat tot) = bytes_at s d (nat tot)"
            by (rule bytes_at_cong) (use less.prems(2) in \<open>auto simp: write_list_def\<close>)
          moreover have "bytes_at s' (d + tot) (length bs) = bs" using sp(2) bytes_at_memput [of "length bs" bs "d + tot" s] by simp
          moreover have "frame {d} L s L s'" using frame_trans [OF f1(2) r(3)] by simp
          moreover have "bytes_at s' (d + tot) (length w) = w" if "bytes_at s' (d + (tot + ?j)) (length w1) = w1"
            using that calculation(2) by (simp add: wb bytes_at_append add.assoc)
          ultimately show ?thesis using e r(2,4,6) c(1) sp(1) wb by auto
        qed
      qed
    qed
  qed
qed

end

section \<open>The operations\<close>

context roomy_allocator
begin

lemma printf_total:
  assumes K: "write_ok K sent sigs" and i: "inv s L" and f: "str_rep s L fmt df nf f"
    and ar: "\<And>a. AStr a \<in> set args \<Longrightarrow> arg_ok s L 0 look a"
    and t: "format_text True fp look f args = Some w" "length w < 2 ^ 38" and r: "room s (2 * length f + m)"
  shows "\<exists>r s' L' k'. syncio_printf K fp alloc fmt args s k = Some (r, s', k') \<and> inv s' L' \<and> frame {} L s L' s' \<and> room s' m \<and>
    write_result (@) K sent STDOUT_FILENO w k (int (length w)) r k'"
proof -
  obtain b s1 L1 where 1: "format_loop True fp alloc (hmem s fmt) (hmem s (fmt + 8)) 0 \<lparr>out = NULL, cap = 0, len = 0\<rparr> args s = Some (b, s1)"
    "inv s1 L1" "fb_rep s1 L1 b w" "frame {} L s L1 s1" "room s1 m" "fmt \<noteq> 0" "hmem s fmt \<noteq> 0"
    using format_buffer [OF i f ar t r] by blast
  show ?thesis
  proof (cases "len b = 0 \<or> out b = NULL")
    case True
    then have "w = []" using 1(3) by (auto simp: fb_rep_def split: if_splits)
    then have "write_result (@) K sent STDOUT_FILENO w k (int (length w)) 0 k" by (simp add: write_result_def)
    moreover have "syncio_printf K fp alloc fmt args s k = Some (0, s1, k)" using 1(1,6,7) True by (simp add: syncio_printf_def)
    ultimately show ?thesis using 1(2,4,5) by blast
  next
    case False
    have b: "len b = int (length w)" "bytes_at s1 (out b) (length w) = w" using 1(3) False by (auto simp: fb_rep_def)
    have "\<exists>r k'. write_loop K STDOUT_FILENO (out b) (len b) 0 s1 k = Some (r, k') \<and>
      write_result (@) K sent STDOUT_FILENO (bytes_at s1 (out b + 0) (length w)) k (len b) r k'"
      by (rule accepted.write_loop_ok [OF K [unfolded write_ok_accepts]]) (simp_all add: b(1))
    then obtain r k' where r: "write_loop K STDOUT_FILENO (out b) (len b) 0 s1 k = Some (r, k')" "write_result (@) K sent STDOUT_FILENO w k (int (length w)) r k'"
      unfolding add_0_right b by blast
    have "syncio_printf K fp alloc fmt args s k = Some (r, s1, k')" using 1(1,6,7) False r(1) by (simp add: syncio_printf_def)
    then show ?thesis using 1(2,4,5) r(2) by blast
  qed
qed

lemma scan_total:
  assumes K: "read_ok K input sigs" and i: "inv s L" and n: "0 < n" "n < 2 ^ 31" and r: "room s (3 + m)"
  shows "\<exists>p s' L' k'. syncio_scan K alloc rel n s k = Some (p, s', k') \<and> inv s' L' \<and> frame {} L s L' s' \<and> room s' m \<and>
    (if p = NULL then input k' = input k \<and> (\<exists>ka e. k_read K STDIN_FILENO (nat n) ka = (Inl e, k') \<and> e \<noteq> EINTR)
     else L p = None \<and> (\<exists>bs d. vec_rep s' L' p d 8 (n + 1) (n + 1) \<and> input k STDIN_FILENO = bs @ input k' STDIN_FILENO \<and> int (length bs) \<le> n \<and>
       bytes_at s' d (Suc (length bs)) = bs @ [0]))"
proof -
  have ok: "dims_ok 8 [n + 1]" using n by (simp add: dims_ok_def)
  have r': "room s (1 + array_allocs [n + 1] + m)" using r by (simp add: numeral_3_eq_3)
  obtain a s1 L1 bs where 1: "alloc_array alloc rel 8 1 [n + 1] s = Some (a, s1)" "inv s1 L1" "arr_rep s1 L1 8 [n + 1] a bs"
    "set bs \<inter> dom L = {}" "frame {} L s L1 s1" "room s1 m" using alloc_array_total [OF i ok _ _ r'] by auto
  obtain d where d: "bs = [a, d]" "vec_rep s1 L1 a d 8 (n + 1) (n + 1)" using arr_rep_vec [OF 1(3)] n by auto
  have Ld: "L1 a = Some 56" "L1 d = Some ((n + 1) * 8)" "hmem s1 a = d" "a \<noteq> d" using d(2) by (auto simp: vec_rep_def)
  have a0: "a \<noteq> 0" "L a = None" "L d = None" using block_law [OF 1(2) Ld(1)] 1(4) d(1) by auto
  have n0: "0 < nat n" using n by simp
  obtain q k' where q: "scan_loop K (nat n) k = Some (q, k')" "case q of Some bs \<Rightarrow> length bs \<le> nat n \<and> input k STDIN_FILENO = bs @ input k' STDIN_FILENO
     | None \<Rightarrow> input k' = input k \<and> (\<exists>ka e. k_read K STDIN_FILENO (nat n) ka = (Inl e, k') \<and> e \<noteq> EINTR)"
    using scan_loop_ok [OF K n0] by blast
  show ?thesis
  proof (cases q)
    case None
    then show ?thesis using 1 a0 q n by (simp add: syncio_scan_def) blast
  next
    case (Some cs)
    have cs: "int (length cs) \<le> n" "input k STDIN_FILENO = cs @ input k' STDIN_FILENO" using q(2) Some n by auto
    let ?s2 = "memput d cs s1"
    let ?s3 = "set_byte (d + int (length cs)) 0 ?s2"
    have 2: "inv ?s2 L1" "frame {d} L1 s1 L1 ?s2" using memput_frame [OF 1(2) Ld(2), of 0 cs] cs(1) n by simp_all
    have 3: "inv ?s3 L1" "frame {d} L1 ?s2 L1 ?s3" using set_byte_frame [OF 2(1) Ld(2), of "int (length cs)" 0] cs(1) n by simp_all
    have fr: "frame {} L s L1 ?s3" using frame_trans [OF frame_trans [OF 1(5) 2(2)] 3(2)] by (rule frame_drop) (use a0 in auto)
    have "bytes_at ?s3 d (length cs) = bytes_at ?s2 d (length cs)" by (rule bytes_at_cong) simp
    then have "bytes_at ?s3 d (length cs) = cs" using bytes_at_memput [of "length cs" cs d s1] by (simp only:)
    then have "bytes_at ?s3 d (length cs + 1) = cs @ [0]"
      by (subst bytes_at_append) (simp only: bytes_at_def, simp)
    moreover have "vec_rep ?s3 L1 a d 8 (n + 1) (n + 1)" using d(2) by (simp add: vec_rep_def)
    moreover have "syncio_scan K alloc rel n s k = Some (a, ?s3, k')" using 1(1) a0(1) q(1) Some n Ld(3) by (simp add: syncio_scan_def Let_def)
    ultimately show ?thesis using 3(1) fr 1(6) a0 cs by auto
  qed
qed

end

context allocator
begin

lemma fread_total:
  assumes K: "pread_ok K content sigs" and i: "inv s L" and f: "f \<noteq> NULL" "hmem s f \<noteq> NULL" "k_fileno K (hmem s f) k = fd" "0 \<le> fd"
    and b: "buf \<noteq> NULL" "hmem s buf = d" "L d = Some c" and n: "0 < n" "n \<le> c" "0 \<le> off" "off + n < 2 ^ 31"
    and w: "w = take (nat n) (drop (nat off) (content k fd))"
  shows "\<exists>r s' k'. syncio_fread K f buf n off s k = Some (r, s', k') \<and> inv s' L \<and> frame {d} L s L s' \<and> content k' = content k \<and>
    (r = int (length w) \<and> bytes_at s' d (length w) = w \<or> r = - 1 \<and> pread_failed K fd k')"
proof -
  have w': "w = take (nat (n - 0)) (drop (nat off) (content k fd))" using w by simp
  show ?thesis using fread_loop_ok [OF K b(3) n(2) i order_refl _ n(3) _ w'] f b n by (auto simp: syncio_fread_def)
qed

end

lemma fwrite_ok:
  assumes K: "accepts file_put K file sigs" and f: "f \<noteq> NULL" "hmem s f \<noteq> NULL" "k_fileno K (hmem s f) k = fd" "0 \<le> fd" and b: "buf \<noteq> NULL"
    and n: "0 < n" "0 \<le> off"
  shows "\<exists>r k'. syncio_fwrite K f buf n off s k = Some (r, s, k') \<and>
    write_result file_put K file fd (bytes_at s (hmem s buf + off) (nat n)) k n r k'"
  using disk_file.write_loop_ok [OF K, of 0 n "nat n" fd "hmem s buf + off" s k] assms(2-) by (auto simp: syncio_fwrite_def Let_def)

lemma io_rejects:
  assumes "f = NULL \<or> hmem s f = NULL \<or> buf = NULL \<or> n \<le> 0 \<or> off < 0 \<or> k_fileno K (hmem s f) k < 0"
  shows "syncio_fread K f buf n off s k = Some (- 1, s, k)" "syncio_fwrite K f buf n off s k = Some (- 1, s, k)"
  using assms by (auto simp: syncio_fread_def syncio_fwrite_def Let_def)

end
