(* ===== verification/DiskioProps.thy ===== *)
theory DiskioProps
  imports Diskio StringsProps
begin

text \<open>
  Properties of the blocking disk I/O on the arena allocator and any system whose calls behave as
  documented. The witnesses run on a small system that interrupts calls and shortens transfers.
\<close>

section \<open>A system with signals and short transfers\<close>

text \<open>
  The state is a script and the bytes of every descriptor. The first number of the script decides the
  next call: 0 interrupts it, another number bounds the bytes it transfers.
\<close>

type_synonym demo_state = "nat list \<times> (int \<Rightarrow> int list)"

definition demo_chunk :: "nat list \<Rightarrow> nat \<Rightarrow> nat" where
  "demo_chunk sc n = (case sc of [] \<Rightarrow> n | m # _ \<Rightarrow> min m n)"

definition demo_kernel :: "demo_state kernel" where
  "demo_kernel = \<lparr>
     k_read = (\<lambda>fd n (sc, fs). if sc \<noteq> [] \<and> hd sc = 0 then (Inl EINTR, tl sc, fs)
       else (Inr (take (demo_chunk sc n) (fs fd)), tl sc, fs(fd := drop (demo_chunk sc n) (fs fd)))),
     k_pread = (\<lambda>fd n off (sc, fs). if sc \<noteq> [] \<and> hd sc = 0 then (Inl EINTR, tl sc, fs)
       else (Inr (take (demo_chunk sc n) (drop (nat off) (fs fd))), tl sc, fs)),
     k_write = (\<lambda>fd bs (sc, fs). if sc \<noteq> [] \<and> hd sc = 0 then (Inl EINTR, tl sc, fs)
       else (Inr (demo_chunk sc (length bs)), tl sc, fs(fd := fs fd @ take (demo_chunk sc (length bs)) bs))),
     k_fileno = (\<lambda>f k. 3),
     k_stdout = 1,
     k_fopen = (\<lambda>m f md k. (1, k)),
     k_fclose = (\<lambda>f k. (0, k)),
     k_fseek = (\<lambda>f off wh k. (0, k)),
     k_fflush = (\<lambda>f k. (0, k))\<rparr>"

lemma demo_chunk: "demo_chunk sc n \<le> n" "sc = [] \<or> hd sc \<noteq> 0 \<Longrightarrow> 0 < n \<Longrightarrow> 0 < demo_chunk sc n"
  by (auto simp: demo_chunk_def split: list.splits)

lemma demo_write_ok: "write_ok demo_kernel snd (length \<circ> fst)"
  using demo_chunk by (auto simp: write_ok_def demo_kernel_def)

lemma demo_pread_ok: "pread_ok demo_kernel snd (length \<circ> fst)"
  using demo_chunk(1) by (auto simp: pread_ok_def demo_kernel_def demo_chunk_def min_def split: list.splits)

lemma demo_read_ok: "read_ok demo_kernel snd (length \<circ> fst)"
  using order_trans [OF _ demo_chunk(1)] by (auto simp: read_ok_def demo_kernel_def min_def)

lemma demo_no_error: "k_write demo_kernel fd bs k = (Inl e, k') \<Longrightarrow> e = EINTR" "k_pread demo_kernel fd n off k = (Inl e, k') \<Longrightarrow> e = EINTR"
  by (auto simp: demo_kernel_def split: prod.splits if_splits)

lemma demo_fileno [simp]: "k_fileno demo_kernel f k = 3"
  by (simp add: demo_kernel_def)

text \<open>Two strings on a fresh heap, to serve as a stream wrapper and as buffers.\<close>

lemma demo_two:
  obtains s L p d q e where "runtime_heap demo_os s L" "str_rep s L p d 5 [10, 20, 30, 40]" "str_rep s L q e 5 [0, 0, 0, 0]" "p \<noteq> 0" "q \<noteq> 0" "d \<noteq> 0"
proof -
  obtain s where s: "runtime_heap demo_os s Map.empty" "os_room demo_os s 15" by (rule demo_heap)
  obtain p s1 where 1: "strings_alloc_from_raw (allocate demo_os) [10, 20, 30, 40] 4 s = Some (p, s1)" "os_room demo_os s1 13"
    using ra.raw_returns [OF s(1), of 4 "[10, 20, 30, 40]" 13] s(2) by auto
  obtain d L1 where r: "runtime_heap demo_os s1 L1" "str_rep s1 L1 p d 5 [10, 20, 30, 40]"
    using al.alloc_from_raw_rep [OF s(1), of 4 "[10, 20, 30, 40]" p s1] 1(1) by auto
  obtain q s2 where 2: "strings_alloc_from_raw (allocate demo_os) [0, 0, 0, 0] 4 s1 = Some (q, s2)" "os_room demo_os s2 11"
    using ra.raw_returns [OF r(1), of 4 "[0, 0, 0, 0]" 11] 1(2) by auto
  obtain e L2 where u: "runtime_heap demo_os s2 L2" "str_rep s2 L2 q e 5 [0, 0, 0, 0]" "frame {} L1 s1 L2 s2"
    using al.alloc_from_raw_rep [OF r(1), of 4 "[0, 0, 0, 0]" q s2] 2(1) by auto
  have r2: "str_rep s2 L2 p d 5 [10, 20, 30, 40]" using str_rep_frame [OF r(2) u(3)] by simp
  show thesis
    using that [OF u(1) r2 u(2)] al.block_law [OF u(1) str_repD(1) [OF r2]] al.block_law [OF u(1) str_repD(2) [OF r2]]
      al.block_law [OF u(1) str_repD(1) [OF u(2)]] by auto
qed

section \<open>Properties\<close>

text \<open>
  C23: \<open>__public__syncio_printf\<close> delivers its text: for a live format string and live string arguments, it
  returns, whatever short writes and signals occur; it either returns the length of the formatted text
  and exactly that text was accepted on the standard output, after what was accepted before, or \<open>write\<close>
  failed on the rest of the text and it returns -1. No live block changes.
\<close>

theorem printf_delivers:
  assumes "write_ok K sent sigs" "runtime_heap os s L" "str_rep s L fmt df nf f" "\<forall>a. AStr a \<in> set args \<longrightarrow> arg_ok s L 0 look a"
    "format_text True fp look f args = Some t" "length t < 2 ^ 38" "os_room os s (2 * length f)"
  shows "\<exists>r s' L' k'. syncio_printf K fp (allocate os) fmt args s k = Some (r, s', k') \<and> runtime_heap os s' L' \<and> frame {} L s L' s' \<and>
    (r = int (length t) \<and> sent k' = (sent k)(1 := sent k 1 @ t) \<or>
     r = - 1 \<and> (\<exists>j < length t. sent k' = (sent k)(1 := sent k 1 @ take j t) \<and> (\<exists>ka e. k_write K 1 (drop j t) ka = (Inl e, k') \<and> e \<noteq> 4)))"
proof -
  have r: "os_room os s (2 * length f + 0)" using assms(7) by simp
  show ?thesis using ra.printf_total [OF assms(1-3) _ assms(5,6) r, of k] assms(4) unfolding write_result_def by blast
qed

theorem printf_delivers_witness:
  "\<exists>s fmt s' k'. syncio_printf demo_kernel demo_fpu (allocate demo_os) fmt [ALong (- 7)] s ([0, 3, 0, 1], \<lambda>_. [33]) = Some (5, s', k') \<and>
     snd k' 1 = [33, 120, 61, 45, 55, 33] \<and> snd k' 2 = [33]"
proof -
  let ?f = "[120, 61, 37, 108, 100, 33 :: int]" and ?k = "([0, 3, 0, 1], \<lambda>_. [33]) :: demo_state"
  obtain s where s: "runtime_heap demo_os s Map.empty" "os_room demo_os s 15" by (rule demo_heap)
  obtain p s1 where 1: "strings_alloc_from_raw (allocate demo_os) ?f 6 s = Some (p, s1)" "os_room demo_os s1 13"
    using ra.raw_returns [OF s(1), of 6 ?f 13] s(2) by auto
  obtain d L1 where r: "runtime_heap demo_os s1 L1" "str_rep s1 L1 p d 7 ?f"
    using al.alloc_from_raw_rep [OF s(1), of 6 ?f p s1] 1(1) by auto
  have m: "os_room demo_os s1 (2 * length ?f)" by (rule ra.room_less [OF 1(2)]) simp
  have t: "format_text True demo_fpu (\<lambda>_. []) ?f [ALong (- 7)] = Some [120, 61, 45, 55, 33]"
    by (simp add: spec_text_def dec_int_def dec.simps)
  have q: "\<forall>a. AStr a \<in> set [ALong (- 7) :: int arg] \<longrightarrow> arg_ok s1 L1 0 (\<lambda>_. []) a" "length [120, 61, 45, 55, 33 :: int] < 2 ^ 38" by simp_all
  obtain r s' L' k' where 2: "syncio_printf demo_kernel demo_fpu (allocate demo_os) p [ALong (- 7)] s1 ?k = Some (r, s', k')"
    and 3: "r = int (length [120, 61, 45, 55, 33 :: int]) \<and> snd k' = (snd ?k)(1 := snd ?k 1 @ [120, 61, 45, 55, 33]) \<or>
      r = - 1 \<and> (\<exists>j < length [120, 61, 45, 55, 33 :: int]. snd k' = (snd ?k)(1 := snd ?k 1 @ take j [120, 61, 45, 55, 33]) \<and>
        (\<exists>ka e. k_write demo_kernel 1 (drop j [120, 61, 45, 55, 33]) ka = (Inl e, k') \<and> e \<noteq> 4))"
    using printf_delivers [OF demo_write_ok r q(1) t q(2) m, of ?k] by blast
  have "r = int (length [120, 61, 45, 55, 33 :: int]) \<and> snd k' = (snd ?k)(1 := snd ?k 1 @ [120, 61, 45, 55, 33])"
    using 3 demo_no_error(1) by blast
  then have "r = 5" "snd k' 1 = [33, 120, 61, 45, 55, 33]" "snd k' 2 = [33]" by simp_all
  then show ?thesis using 2 by blast
qed

text \<open>
  C24: \<open>__public__syncio_fread\<close> into a live buffer of at least \<open>n\<close> bytes returns, whatever short reads and
  signals occur. It either returns the number of bytes of the file from \<open>off\<close> on, at most \<open>n\<close>, and the
  buffer starts with exactly these bytes, or \<open>pread\<close> failed and it returns -1. Only the buffer changes.
  A null stream, null buffer, non-positive count, negative offset or closed stream is refused and
  changes nothing.
\<close>

theorem fread_exact:
  assumes "pread_ok K content sigs" "runtime_heap os s L" "fd = k_fileno K (hmem s f) k" "L d = Some c" "hmem s buf = d" "n \<le> c" "off + n < 2 ^ 31"
    "w = take (nat n) (drop (nat off) (content k fd))"
  shows "\<exists>r s' k'. syncio_fread K f buf n off s k = Some (r, s', k') \<and> runtime_heap os s' L \<and>
    (if f = NULL \<or> hmem s f = NULL \<or> buf = NULL \<or> n \<le> 0 \<or> off < 0 \<or> fd < 0 then r = - 1 \<and> s' = s \<and> k' = k
     else frame {d} L s L s' \<and> content k' = content k \<and>
       (r = int (length w) \<and> bytes_at s' d (length w) = w \<or>
        r = - 1 \<and> (\<exists>ka m o' e. k_pread K fd m o' ka = (Inl e, k') \<and> e \<noteq> 4)))"
proof (cases "f = NULL \<or> hmem s f = NULL \<or> buf = NULL \<or> n \<le> 0 \<or> off < 0 \<or> fd < 0")
  case True
  then show ?thesis using io_rejects(1) [of f s buf n off K k] assms(2,3) by simp
next
  case False
  then show ?thesis
    using al.fread_total [OF assms(1,2), of f k fd buf d c n off w] assms(3-8) by (auto simp: pread_failed_def)
qed

theorem fread_exact_witness:
  "\<exists>s f buf s' k' d. syncio_fread demo_kernel f buf 4 3 s ([0, 2, 0], \<lambda>_. [1, 2, 3, 4, 5, 6]) = Some (3, s', k') \<and> bytes_at s' d 3 = [4, 5, 6]"
proof -
  let ?k = "([0, 2, 0], \<lambda>_. [1, 2, 3, 4, 5, 6]) :: demo_state"
  obtain s L p d q e where s: "runtime_heap demo_os s L" "str_rep s L p d 5 [10, 20, 30, 40]" "str_rep s L q e 5 [0, 0, 0, 0]"
    and nz: "p \<noteq> 0" "q \<noteq> 0" "d \<noteq> 0" by (rule demo_two)
  note rp = str_repD [OF s(2)] and rq = str_repD [OF s(3)]
  have h: "3 = k_fileno demo_kernel (hmem s p) ?k" "(4 :: int) \<le> 5" "3 + 4 < (2 ^ 31 :: int)" "[4, 5, 6] = take (nat 4) (drop (nat 3) (snd ?k 3))" by simp_all
  obtain r s' k' where r: "syncio_fread demo_kernel p q 4 3 s ?k = Some (r, s', k')"
      "if p = NULL \<or> hmem s p = NULL \<or> q = NULL \<or> 4 \<le> (0 :: int) \<or> 3 < (0 :: int) \<or> (3 :: int) < 0 then r = - 1 \<and> s' = s \<and> k' = ?k
       else frame {e} L s L s' \<and> snd k' = snd ?k \<and>
       (r = int (length [4, 5, 6 :: int]) \<and> bytes_at s' e (length [4, 5, 6 :: int]) = [4, 5, 6] \<or>
        r = - 1 \<and> (\<exists>ka m o' e. k_pread demo_kernel 3 m o' ka = (Inl e, k') \<and> e \<noteq> 4))"
    using fread_exact [OF demo_pread_ok s(1) h(1) rq(2,4) h(2-4)] by blast
  have nf: "\<not> (p = NULL \<or> hmem s p = NULL \<or> q = NULL \<or> 4 \<le> (0 :: int) \<or> 3 < (0 :: int) \<or> (3 :: int) < 0)" using nz rp(4) by simp
  have "r = int (length [4, 5, 6 :: int]) \<and> bytes_at s' e (length [4, 5, 6 :: int]) = [4, 5, 6]"
    using r(2) [unfolded if_not_P [OF nf]] demo_no_error(2) by blast
  then have "r = 3" "bytes_at s' e 3 = [4, 5, 6]" by (simp_all add: numeral_3_eq_3)
  then show ?thesis using r(1) by blast
qed

text \<open>
  C25: A file round trip: \<open>__public__syncio_fwrite\<close> with the offset \<open>j\<close> writes the \<open>n\<close> bytes from \<open>j\<close> on of its buffer at the
  position of the file, replacing what is there, and moves the position behind them (its documentation gives \<open>j\<close> as
  the place in the file); \<open>__public__syncio_fread\<close> into a second buffer from where the position was before then gives the
  same bytes, if both calls report success, and each call reports success unless the system reported an
  error.
\<close>

theorem fwrite_fread:
  assumes "accepts file_put K file sigs" "pread_ok K (\<lambda>k fd. fst (file k fd)) sigs" "runtime_heap os s L" "fd = k_fileno K (hmem s f) k" "0 \<le> fd"
    "f \<noteq> NULL" "hmem s f \<noteq> NULL" "src \<noteq> NULL" "dst \<noteq> NULL" "L d = Some c" "hmem s dst = d" "0 < n" "n \<le> c" "0 \<le> j"
    "off = int (snd (file k fd))" "off + n < 2 ^ 31" "\<forall>k'. k_fileno K (hmem s f) k' = fd"
  shows "\<exists>r k1. syncio_fwrite K f src n j s k = Some (r, s, k1) \<and>
    (r = n \<and> file k1 = (file k)(fd := file_put (file k fd) (bytes_at s (hmem s src + j) (nat n))) \<and>
      (\<exists>r' s' k'. syncio_fread K f dst n off s k1 = Some (r', s', k') \<and> frame {d} L s L s' \<and>
        (r' = n \<and> bytes_at s' d (nat n) = bytes_at s (hmem s src + j) (nat n) \<or>
         r' = - 1 \<and> (\<exists>ka m o' e. k_pread K fd m o' ka = (Inl e, k') \<and> e \<noteq> 4))) \<or>
     r = - 1 \<and> (\<exists>bs ka e. k_write K fd bs ka = (Inl e, k1) \<and> e \<noteq> 4))"
proof -
  let ?bs = "bytes_at s (hmem s src + j) (nat n)"
  obtain r k1 where w: "syncio_fwrite K f src n j s k = Some (r, s, k1)" "write_result file_put K file fd ?bs k n r k1"
    using fwrite_ok [OF assms(1,6,7) assms(4) [symmetric] assms(5,8,12,14)] by blast
  show ?thesis
  proof (cases "r = n")
    case True
    then have c: "file k1 = (file k)(fd := file_put (file k fd) ?bs)" using w(2) assms(12) by (auto simp: write_result_def)
    have ne: "?bs \<noteq> []" using assms(12) by (metis bytes_at_length length_greater_0_conv zero_less_nat_eq)
    let ?h = "take (nat off) (fst (file k fd)) @ replicate (nat off - length (fst (file k fd))) 0"
    have h: "length ?h = nat off" by simp
    have "fst (file k1 fd) = ?h @ ?bs @ drop (nat off + nat n) (fst (file k fd))"
      unfolding c using ne assms(15) by (simp add: file_put_def put_at_def)
    then have l: "?bs = take (nat n) (drop (nat off) (fst (file k1 fd)))" using h by simp
    have "\<exists>r' s' k'. syncio_fread K f dst n off s k1 = Some (r', s', k') \<and> runtime_heap os s' L \<and> frame {d} L s L s' \<and>
      (\<lambda>fd. fst (file k' fd)) = (\<lambda>fd. fst (file k1 fd)) \<and>
      (r' = int (length ?bs) \<and> bytes_at s' d (length ?bs) = ?bs \<or> r' = - 1 \<and> pread_failed K fd k')"
      by (rule al.fread_total [OF assms(2,3,6,7) _ assms(5,9,11,10,12,13) _ assms(16) l]) (use assms(15,17) in auto)
    then show ?thesis using w(1) True assms(12) c by (simp add: pread_failed_def) blast
  next
    case False
    then show ?thesis using w by (auto simp: write_result_def)
  qed
qed

text \<open>The system of above with a position for every file.\<close>

type_synonym demo_disk_state = "nat list \<times> (int \<Rightarrow> int list \<times> nat)"

definition demo_disk :: "demo_disk_state kernel" where
  "demo_disk = \<lparr>
     k_read = (\<lambda>fd n k. (Inr [], k)),
     k_pread = (\<lambda>fd n off (sc, fs). if sc \<noteq> [] \<and> hd sc = 0 then (Inl EINTR, tl sc, fs)
       else (Inr (take (demo_chunk sc n) (drop (nat off) (fst (fs fd)))), tl sc, fs)),
     k_write = (\<lambda>fd bs (sc, fs). if sc \<noteq> [] \<and> hd sc = 0 then (Inl EINTR, tl sc, fs)
       else (Inr (demo_chunk sc (length bs)), tl sc, fs(fd := file_put (fs fd) (take (demo_chunk sc (length bs)) bs)))),
     k_fileno = (\<lambda>f k. 3),
     k_stdout = 1,
     k_fopen = (\<lambda>m f md k. (1, k)),
     k_fclose = (\<lambda>f k. (0, k)),
     k_fseek = (\<lambda>f off wh k. (0, k)),
     k_fflush = (\<lambda>f k. (0, k))\<rparr>"

lemma demo_disk_ok: "accepts file_put demo_disk snd (length \<circ> fst)" "pread_ok demo_disk (\<lambda>k fd. fst (snd k fd)) (length \<circ> fst)"
  using demo_chunk by (auto simp: accepts_def demo_disk_def) (auto simp: pread_ok_def demo_disk_def demo_chunk_def min_def split: list.splits)

lemma demo_disk_no_error: "k_write demo_disk fd bs k = (Inl e, k') \<Longrightarrow> e = EINTR" "k_pread demo_disk fd n off k = (Inl e, k') \<Longrightarrow> e = EINTR"
  "k_fileno demo_disk f k = 3"
  by (auto simp: demo_disk_def split: prod.splits if_splits)

theorem fwrite_fread_witness:
  "\<exists>s f src dst k1 s' k' d. syncio_fwrite demo_disk f src 3 1 s ([2, 0], \<lambda>_. ([7, 7, 7], 2)) = Some (3, s, k1) \<and>
     snd k1 3 = ([7, 7, 20, 30, 40], 5) \<and> syncio_fread demo_disk f dst 3 2 s k1 = Some (3, s', k') \<and> bytes_at s' d (nat 3) = [20, 30, 40]"
proof -
  let ?k = "([2, 0], \<lambda>_. ([7, 7, 7], 2)) :: demo_disk_state"
  obtain s L p d q e where s: "runtime_heap demo_os s L" "str_rep s L p d 5 [10, 20, 30, 40]" "str_rep s L q e 5 [0, 0, 0, 0]"
    and nz: "p \<noteq> 0" "q \<noteq> 0" "d \<noteq> 0" by (rule demo_two)
  note rp = str_repD [OF s(2)] and rq = str_repD [OF s(3)]
  have h: "3 = k_fileno demo_disk (hmem s p) ?k" "(0 :: int) \<le> 3" "hmem s p \<noteq> NULL" "0 < (3 :: int)" "(3 :: int) \<le> 5" "0 \<le> (1 :: int)"
    "2 = int (snd (snd ?k 3))" "2 + 3 < (2 ^ 31 :: int)" "\<forall>k'. k_fileno demo_disk (hmem s p) k' = 3" using nz rp(4) by (simp_all add: demo_disk_no_error(3))
  have b: "bytes_at s (hmem s p + 1) (nat 3) = [20, 30, 40]" using rp(4,7) by (simp add: bytes_at_def numeral_3_eq_3 upt_rec eval_nat_numeral algebra_simps)
  obtain r k1 where r: "syncio_fwrite demo_disk p p 3 1 s ?k = Some (r, s, k1)"
    "r = 3 \<and> snd k1 = (snd ?k)(3 := file_put (snd ?k 3) (bytes_at s (hmem s p + 1) (nat 3))) \<and>
      (\<exists>r' s' k'. syncio_fread demo_disk p q 3 2 s k1 = Some (r', s', k') \<and> frame {e} L s L s' \<and>
        (r' = 3 \<and> bytes_at s' e (nat 3) = bytes_at s (hmem s p + 1) (nat 3) \<or>
         r' = - 1 \<and> (\<exists>ka m o' e. k_pread demo_disk 3 m o' ka = (Inl e, k') \<and> e \<noteq> 4))) \<or>
     r = - 1 \<and> (\<exists>bs ka e. k_write demo_disk 3 bs ka = (Inl e, k1) \<and> e \<noteq> 4)"
    using fwrite_fread [OF demo_disk_ok s(1) h(1,2) nz(1) h(3) nz(1,2) rq(2,4) h(4-9)] by blast
  have f: "r = 3 \<and> snd k1 = (snd ?k)(3 := file_put (snd ?k 3) [20, 30, 40]) \<and>
      (\<exists>r' s' k'. syncio_fread demo_disk p q 3 2 s k1 = Some (r', s', k') \<and> r' = 3 \<and> bytes_at s' e (nat 3) = [20, 30, 40])"
    using r(2) demo_disk_no_error(1,2) unfolding b by blast
  then have "snd k1 3 = file_put ([7, 7, 7], 2) [20, 30, 40]" by simp
  moreover have "file_put ([7, 7, 7], 2) [20, 30, 40] = ([7, 7, 20, 30, 40], 5)" by (simp add: file_put_def put_at_def numeral_eq_Suc)
  ultimately show ?thesis using r(1) f by metis
qed

end
