(* ===== verification/Async.thy ===== *)
theory Async
  imports Diskio Tasks
begin

text \<open>
  The asynchronous part of the disk I/O, \<^verbatim>\<open>src/runtime/src/diskio.c\<close>: a task prepares a request on the
  \<open>io_uring\<close> of its scheduler thread, submits it and yields; the system completes requests in any order;
  the worker thread of the ring stores the result in the task and pushes the task on the ready queue
  of its scheduler thread, which resumes it. The functions the language calls are split at the yield,
  into what runs before it and what runs when the task is resumed.
\<close>

section \<open>State\<close>

text \<open>Requests, with the task as their user data.\<close>

datatype sqe = Prep_read tid int addr int int | Prep_write tid int addr int int

fun sqe_task :: "sqe \<Rightarrow> tid" where
  "sqe_task (Prep_read t fd p n off) = t"
| "sqe_task (Prep_write t fd p n off) = t"

fun sqe_len :: "sqe \<Rightarrow> int" where
  "sqe_len (Prep_read t fd p n off) = n"
| "sqe_len (Prep_write t fd p n off) = n"

text \<open>
  Per scheduler thread: prepared requests, submitted requests, completions, the wait queue and the
  ready queue. All tasks share one memory.
\<close>

record disk =
  sq :: "nat \<Rightarrow> sqe list"
  inflight :: "nat \<Rightarrow> sqe list"
  cq :: "nat \<Rightarrow> (tid \<times> int) list"
  wait_q :: "nat \<Rightarrow> tid list"
  ready_q :: "nat \<Rightarrow> tid list"
  io :: "tid \<Rightarrow> io_metadata_t"
  heap :: heap_state

abbreviation (input) DISKIO_QUEUE_DEPTH :: nat where "DISKIO_QUEUE_DEPTH \<equiv> 256"

abbreviation (input) DISKIO_THREAD_POOL_SIZE :: nat where "DISKIO_THREAD_POOL_SIZE \<equiv> 4"

section \<open>Submitting a request\<close>

text \<open>
  How a submitting function leaves its task: waiting for a free entry, waiting for the completion, or
  running. A task that waits for a free entry is on no queue.
\<close>

datatype outcome = Spins | Yields | Returns

text \<open>
  \<open>io_uring_submit\<close> with the result \<open>ret\<close>: so many of the prepared entries are passed to the system, in order, or
  it fails; the others stay prepared.
\<close>

definition io_uring_submit :: "nat \<Rightarrow> int \<Rightarrow> disk \<Rightarrow> disk" where
  "io_uring_submit w ret d =
     (if ret < 0 then d else d\<lparr>inflight := (inflight d)(w := inflight d w @ take (nat ret) (sq d w)), sq := (sq d)(w := drop (nat ret) (sq d w))\<rparr>)"

text \<open>The steps the four functions share: entry, wait queue, submission, error fields.\<close>

definition submit_sqe :: "nat \<Rightarrow> tid \<Rightarrow> sqe \<Rightarrow> int \<Rightarrow> disk \<Rightarrow> disk" where
  "submit_sqe w t e ret d =
     (let d = d\<lparr>sq := (sq d)(w := sq d w @ [e])\<rparr>;
          d = d\<lparr>wait_q := (wait_q d)(w := t # wait_q d w)\<rparr>;
          d = io_uring_submit w ret d
      in if ret < 0 then d\<lparr>io := (io d)(t := (io d t)\<lparr>io_err := - ret, done_n := - 1, io_done := True\<rparr>)\<rparr> else d)"

definition async_stdin_read :: "(tid \<Rightarrow> nat) \<Rightarrow> tid \<Rightarrow> int \<Rightarrow> disk \<Rightarrow> disk \<times> outcome" where
  "async_stdin_read sched t ret d =
     (if length (sq d (sched t)) \<ge> DISKIO_QUEUE_DEPTH then (d, Spins)
      else (submit_sqe (sched t) t (Prep_read t STDIN_FILENO (io_buf (io d t)) (req_n (io d t)) 0) ret d,
            if ret < 0 then Returns else Yields))"

definition async_stdout_write :: "(tid \<Rightarrow> nat) \<Rightarrow> tid \<Rightarrow> int \<Rightarrow> disk \<Rightarrow> disk \<times> outcome" where
  "async_stdout_write sched t ret d =
     (if length (sq d (sched t)) \<ge> DISKIO_QUEUE_DEPTH then (d, Spins)
      else (submit_sqe (sched t) t (Prep_write t STDOUT_FILENO (io_buf (io d t)) (req_n (io d t)) 0) ret d,
            if ret < 0 then Returns else Yields))"

text \<open>After a failed submission \<open>async_file_read\<close> does not return: it yields like after a successful one.\<close>

definition async_file_read :: "(tid \<Rightarrow> nat) \<Rightarrow> tid \<Rightarrow> int \<Rightarrow> disk \<Rightarrow> disk \<times> outcome" where
  "async_file_read sched t ret d =
     (if length (sq d (sched t)) \<ge> DISKIO_QUEUE_DEPTH then (d, Spins)
      else (submit_sqe (sched t) t (Prep_read t (io_fd (io d t)) (io_buf (io d t)) (req_n (io d t)) (io_offset (io d t))) ret d, Yields))"

definition async_file_write :: "(tid \<Rightarrow> nat) \<Rightarrow> tid \<Rightarrow> int \<Rightarrow> disk \<Rightarrow> disk \<times> outcome" where
  "async_file_write sched t ret d =
     (if length (sq d (sched t)) \<ge> DISKIO_QUEUE_DEPTH then (d, Spins)
      else (submit_sqe (sched t) t (Prep_write t (io_fd (io d t)) (io_buf (io d t)) (req_n (io d t)) (io_offset (io d t))) ret d,
            if ret < 0 then Returns else Yields))"

section \<open>The functions the language calls\<close>

text \<open>A call in progress, with the variables it needs after the yield, and the results.\<close>

datatype dcall = Ascan addr int | Aprintf | Afread | Afwrite

datatype dres = RInt int | RBuf addr

text \<open>Before the yield: an immediate result, or the I/O fields and the call.\<close>

type_synonym begun = "(dres + io_metadata_t \<times> dcall) \<times> heap_state"

definition ascan_begin :: "alloc_fun \<Rightarrow> release_fun \<Rightarrow> int \<Rightarrow> heap_state \<Rightarrow> begun option" where
  "ascan_begin al rl n s =
     (if n \<le> 0 then Some (Inl (RBuf NULL), s)
      else do {
        (buf, s) \<leftarrow> alloc_array al rl 8 1 [n + 1] s;
        if buf = NULL then Some (Inl (RBuf NULL), s)
        else Some (Inr (io_zero\<lparr>io_fd := STDIN_FILENO, io_buf := hmem s buf, req_n := n\<rparr>, Ascan buf n), s)
      })"

definition ascan_end :: "addr \<Rightarrow> int \<Rightarrow> io_metadata_t \<Rightarrow> heap_state \<Rightarrow> dres \<times> heap_state" where
  "ascan_end buf n m s =
     (if done_n m < 0 then (RBuf NULL, s)
      else if done_n m < n then (RBuf buf, set_byte (hmem s buf + done_n m) 0 s)
      else (RBuf buf, set_byte (hmem s buf + n) 0 s))"

definition asyncio_printf_begin :: "'d fpu \<Rightarrow> alloc_fun \<Rightarrow> addr \<Rightarrow> 'd arg list \<Rightarrow> heap_state \<Rightarrow> begun option" where
  "asyncio_printf_begin fp al fmt args s =
     (if fmt = NULL \<or> hmem s fmt = NULL then Some (Inl (RInt 0), s)
      else do {
        (b, s) \<leftarrow> format_loop True fp al (hmem s fmt) (hmem s (fmt + 8)) 0 \<lparr>out = NULL, cap = 0, len = 0\<rparr> args s;
        Some (Inr (io_zero\<lparr>io_fd := STDOUT_FILENO, io_buf := out b, req_n := len b\<rparr>, Aprintf), s)
      })"

definition asyncio_printf_end :: "io_metadata_t \<Rightarrow> dres" where
  "asyncio_printf_end m = (if done_n m < 0 then RInt 0 else RInt (done_n m))"

definition asyncio_fread_begin :: "(addr \<Rightarrow> int) \<Rightarrow> addr \<Rightarrow> addr \<Rightarrow> int \<Rightarrow> int \<Rightarrow> heap_state \<Rightarrow> begun option" where
  "asyncio_fread_begin fileno f buf n offset s =
     Some (if f = NULL \<or> hmem s f = NULL \<or> buf = NULL \<or> n \<le> 0 \<or> offset < 0 then Inl (RInt (- 1))
      else
        let fd = fileno (hmem s f) in
        if fd < 0 then Inl (RInt (- 1))
        else Inr (io_zero\<lparr>io_fd := fd, io_buf := hmem s buf, req_n := n, io_offset := offset\<rparr>, Afread), s)"

definition asyncio_fread_end :: "io_metadata_t \<Rightarrow> dres" where
  "asyncio_fread_end m = (if done_n m < 0 then RInt (- 1) else RInt (done_n m))"

definition asyncio_fwrite_begin :: "(addr \<Rightarrow> int) \<Rightarrow> addr \<Rightarrow> addr \<Rightarrow> int \<Rightarrow> int \<Rightarrow> heap_state \<Rightarrow> begun option" where
  "asyncio_fwrite_begin fileno f buf n offset s =
     Some (if f = NULL \<or> hmem s f = NULL \<or> buf = NULL \<or> n \<le> 0 \<or> offset < 0 then Inl (RInt (- 1))
      else
        let fd = fileno (hmem s f) in
        if fd < 0 then Inl (RInt (- 1))
        else Inr (io_zero\<lparr>io_fd := fd, io_buf := hmem s buf, req_n := n, io_offset := offset\<rparr>, Afwrite), s)"

definition asyncio_fwrite_end :: "io_metadata_t \<Rightarrow> dres" where
  "asyncio_fwrite_end m = (if done_n m < 0 then RInt (- 1) else RInt (done_n m))"

text \<open>The submitting function of a call, and the code after its yield.\<close>

fun submit_for :: "dcall \<Rightarrow> (tid \<Rightarrow> nat) \<Rightarrow> tid \<Rightarrow> int \<Rightarrow> disk \<Rightarrow> disk \<times> outcome" where
  "submit_for (Ascan buf n) = async_stdin_read"
| "submit_for Aprintf = async_stdout_write"
| "submit_for Afread = async_file_read"
| "submit_for Afwrite = async_file_write"

fun end_of :: "dcall \<Rightarrow> io_metadata_t \<Rightarrow> heap_state \<Rightarrow> dres \<times> heap_state" where
  "end_of (Ascan buf n) m s = ascan_end buf n m s"
| "end_of Aprintf m s = (asyncio_printf_end m, s)"
| "end_of Afread m s = (asyncio_fread_end m, s)"
| "end_of Afwrite m s = (asyncio_fwrite_end m, s)"

section \<open>The worker, the system and the scheduler\<close>

text \<open>One round of the worker of the ring \<open>w\<close>; without a completion it waits.\<close>

definition diskio_worker :: "(tid \<Rightarrow> nat) \<Rightarrow> nat \<Rightarrow> disk \<Rightarrow> disk option" where
  "diskio_worker sched w d =
     (case cq d w of
        [] \<Rightarrow> None
      | (t, r) # cs \<Rightarrow>
          let m = io d t;
              m = (if r < 0 then m\<lparr>io_err := - r, done_n := - 1\<rparr> else m\<lparr>done_n := r, io_err := 0\<rparr>);
              m = m\<lparr>io_done := True\<rparr>;
              d = d\<lparr>io := (io d)(t := m), cq := (cq d)(w := cs)\<rparr>
          in Some (d\<lparr>ready_q := (ready_q d)(sched t := ready_q d (sched t) @ [t])\<rparr>))"

text \<open>The system completes a submitted request with the result \<open>r\<close>; a read stores \<open>bs\<close>.\<close>

definition complete :: "nat \<Rightarrow> sqe \<Rightarrow> int \<Rightarrow> int list \<Rightarrow> disk \<Rightarrow> disk" where
  "complete w e r bs d =
     d\<lparr>inflight := (inflight d)(w := remove1 e (inflight d w)), cq := (cq d)(w := cq d w @ [(sqe_task e, r)]),
       heap := (case e of Prep_read t fd p n off \<Rightarrow> memput p bs (heap d) | _ \<Rightarrow> heap d)\<rparr>"

text \<open>
  What \<open>scheduler_run\<close> does to the queues when it takes the next task (\<open>task_resume\<close> then continues the
  task after its yield).
\<close>

definition scheduler_next :: "nat \<Rightarrow> disk \<Rightarrow> (tid \<times> disk) option" where
  "scheduler_next w d =
     (case ready_q d w of
        [] \<Rightarrow> None
      | t # ts \<Rightarrow> Some (t, d\<lparr>ready_q := (ready_q d)(w := ts), wait_q := (wait_q d)(w := remove1 t (wait_q d w))\<rparr>))"

section \<open>The system of all tasks\<close>

text \<open>
  The program point of a task: in its own code, asleep for a free entry, or asleep for a completion. The
  logs keep, for every task, the calls that reached the ring, the results the system gave to its
  requests (and of submissions that failed), and the results the calls returned.
\<close>

datatype apc = User | Spinning dcall | Asleep dcall

record async =
  dk :: disk
  pcs :: "tid \<Rightarrow> apc"
  calls :: "tid \<Rightarrow> dcall list"
  results :: "tid \<Rightarrow> int list"
  returned :: "tid \<Rightarrow> dres list"

definition async_init :: "heap_state \<Rightarrow> async" where
  "async_init s = \<lparr>dk = \<lparr>sq = \<lambda>_. [], inflight = \<lambda>_. [], cq = \<lambda>_. [], wait_q = \<lambda>_. [], ready_q = \<lambda>_. [], io = \<lambda>_. io_zero, heap = s\<rparr>,
     pcs = \<lambda>_. User, calls = \<lambda>_. [], results = \<lambda>_. [], returned = \<lambda>_. []\<rparr>"

text \<open>The end of a call: the code after the yield runs and the result is returned.\<close>

definition finish_call :: "tid \<Rightarrow> dcall \<Rightarrow> async \<Rightarrow> async" where
  "finish_call t c y =
     (let (v, s) = end_of c (io (dk y) t) (heap (dk y)) in
      y\<lparr>dk := (dk y)\<lparr>heap := s\<rparr>, pcs := (pcs y)(t := User), returned := (returned y)(t := returned y t @ [v])\<rparr>)"

text \<open>The submitting function runs up to its yield or to the end of the call.\<close>

definition start_call :: "(tid \<Rightarrow> nat) \<Rightarrow> tid \<Rightarrow> dcall \<Rightarrow> int \<Rightarrow> async \<Rightarrow> async" where
  "start_call sched t c ret y =
     (case submit_for c sched t ret (dk y) of
        (d, Spins) \<Rightarrow> y\<lparr>dk := d, pcs := (pcs y)(t := Spinning c)\<rparr>
      | (d, Yields) \<Rightarrow> y\<lparr>dk := d, pcs := (pcs y)(t := Asleep c), calls := (calls y)(t := calls y t @ [c])\<rparr>
      | (d, Returns) \<Rightarrow> finish_call t c (y\<lparr>dk := d, calls := (calls y)(t := calls y t @ [c]), results := (results y)(t := results y t @ [ret])\<rparr>))"

text \<open>
  What the system depends on: the scheduler thread of each task, the floating-point operations,
  \<open>fileno\<close> and the allocator. A call begins when the code before its yield sets the I/O fields \<open>m\<close>.
\<close>

record 'd aenv =
  sched_id :: "tid \<Rightarrow> nat"
  a_fpu :: "'d fpu"
  a_fileno :: "addr \<Rightarrow> int"
  a_alloc :: alloc_fun
  a_release :: release_fun

definition begins :: "'d aenv \<Rightarrow> dcall \<Rightarrow> io_metadata_t \<Rightarrow> heap_state \<Rightarrow> heap_state \<Rightarrow> bool" where
  "begins E c m s s' \<longleftrightarrow> (\<exists>n. ascan_begin (a_alloc E) (a_release E) n s = Some (Inr (m, c), s')) \<or>
     (\<exists>fmt args. asyncio_printf_begin (a_fpu E) (a_alloc E) fmt args s = Some (Inr (m, c), s')) \<or>
     (\<exists>f buf n off. asyncio_fread_begin (a_fileno E) f buf n off s = Some (Inr (m, c), s')) \<or>
     (\<exists>f buf n off. asyncio_fwrite_begin (a_fileno E) f buf n off s = Some (Inr (m, c), s'))"

text \<open>
  The steps. \<open>ok\<close> says that submissions do not fail and pass on all prepared entries. Other code changes the memory at will. There are
  \<open>DISKIO_THREAD_POOL_SIZE\<close> rings and the ring of a task is the entry of \<open>diskio_ring_map\<close> at the number
  of its scheduler thread, so only the tasks of the first four of the twelve scheduler threads have
  one: the others read past the array, and the steps leave that out.
\<close>

inductive astep :: "'d aenv \<Rightarrow> bool \<Rightarrow> async \<Rightarrow> async \<Rightarrow> bool" for E ok where
  call: "pcs y t = User \<Longrightarrow> begins E c m (heap (dk y)) s \<Longrightarrow> (ok \<longrightarrow> int (length (sq (dk y) (sched_id E t))) < ret) \<Longrightarrow> sched_id E t < DISKIO_THREAD_POOL_SIZE \<Longrightarrow>
    astep E ok y (start_call (sched_id E) t c ret (y\<lparr>dk := (dk y)\<lparr>io := (io (dk y))(t := m), heap := s\<rparr>\<rparr>))"
| completes: "e \<in> set (inflight (dk y) w) \<Longrightarrow> r \<le> sqe_len e \<Longrightarrow> length bs = nat r \<Longrightarrow>
    astep E ok y (y\<lparr>dk := complete w e r bs (dk y), results := (results y)(sqe_task e := results y (sqe_task e) @ [r])\<rparr>)"
| worker: "diskio_worker (sched_id E) w (dk y) = Some d \<Longrightarrow> astep E ok y (y\<lparr>dk := d\<rparr>)"
| resume: "scheduler_next w (dk y) = Some (t, d) \<Longrightarrow> pcs y t = Asleep c \<Longrightarrow> astep E ok y (finish_call t c (y\<lparr>dk := d\<rparr>))"
| retry: "scheduler_next w (dk y) = Some (t, d) \<Longrightarrow> pcs y t = Spinning c \<Longrightarrow> (ok \<longrightarrow> int (length (sq (dk y) (sched_id E t))) < ret) \<Longrightarrow>
    astep E ok y (start_call (sched_id E) t c ret (y\<lparr>dk := d\<rparr>))"
| other: "astep E ok y (y\<lparr>dk := (dk y)\<lparr>heap := s\<rparr>\<rparr>)"

inductive areach :: "'d aenv \<Rightarrow> bool \<Rightarrow> async \<Rightarrow> nat \<Rightarrow> async \<Rightarrow> bool" for E ok y where
  start: "areach E ok y 0 y"
| move: "areach E ok y n z \<Longrightarrow> astep E ok z z' \<Longrightarrow> areach E ok y (Suc n) z'"

inductive_cases astep_cases [consumes 1, case_names call completes worker resume retry other]: "astep E ok y z"

section \<open>The specification of one task\<close>

text \<open>
  What a task sees of its requests: none, one that is submitted, completed with a result, or completed
  with the task made ready. The result of a call is a function of the call and the result of its
  request.
\<close>

datatype phase = Idle | Sent dcall | Done dcall int | Woken dcall int

fun answer :: "dcall \<Rightarrow> int \<Rightarrow> dres" where
  "answer (Ascan buf n) r = RBuf (if r < 0 then NULL else buf)"
| "answer Aprintf r = RInt (if r < 0 then 0 else r)"
| "answer Afread r = RInt (if r < 0 then - 1 else r)"
| "answer Afwrite r = RInt (if r < 0 then - 1 else r)"

fun phase_pc :: "phase \<Rightarrow> apc" where
  "phase_pc Idle = User"
| "phase_pc (Sent c) = Asleep c"
| "phase_pc (Done c r) = Asleep c"
| "phase_pc (Woken c r) = Asleep c"

fun log_ok :: "phase \<Rightarrow> dcall list \<Rightarrow> int list \<Rightarrow> dres list \<Rightarrow> bool" where
  "log_ok Idle cs rs vs \<longleftrightarrow> length rs = length cs \<and> vs = map2 answer cs rs"
| "log_ok (Sent c) cs rs vs \<longleftrightarrow> (\<exists>cs'. cs = cs' @ [c] \<and> length rs = length cs' \<and> vs = map2 answer cs' rs)"
| "log_ok (Done c r) cs rs vs \<longleftrightarrow> (\<exists>cs' rs'. cs = cs' @ [c] \<and> rs = rs' @ [r] \<and> length rs' = length cs' \<and> vs = map2 answer cs' rs')"
| "log_ok (Woken c r) cs rs vs \<longleftrightarrow> (\<exists>cs' rs'. cs = cs' @ [c] \<and> rs = rs' @ [r] \<and> length rs' = length cs' \<and> vs = map2 answer cs' rs')"

definition holds :: "'a list \<Rightarrow> ('a \<Rightarrow> bool) \<Rightarrow> bool" where
  "holds l P \<longleftrightarrow> distinct l \<and> (\<forall>x. x \<in> set l \<longleftrightarrow> P x)"

text \<open>
  The queues hold exactly the tasks in the phase they stand for, each once, and on the ring and the
  queues of its own scheduler thread.
\<close>

definition async_rep :: "'d aenv \<Rightarrow> async \<Rightarrow> (tid \<Rightarrow> phase) \<Rightarrow> bool" where
  "async_rep E y ph \<longleftrightarrow>
     (\<forall>w. sq (dk y) w = [] \<and>
       holds (map sqe_task (inflight (dk y) w)) (\<lambda>t. sched_id E t = w \<and> (\<exists>c. ph t = Sent c)) \<and>
       distinct (map fst (cq (dk y) w)) \<and> (\<forall>t r. (t, r) \<in> set (cq (dk y) w) \<longleftrightarrow> sched_id E t = w \<and> (\<exists>c. ph t = Done c r)) \<and>
       holds (ready_q (dk y) w) (\<lambda>t. sched_id E t = w \<and> (\<exists>c r. ph t = Woken c r)) \<and>
       holds (wait_q (dk y) w) (\<lambda>t. sched_id E t = w \<and> ph t \<noteq> Idle)) \<and>
     (\<forall>t. pcs y t = phase_pc (ph t) \<and> log_ok (ph t) (calls y t) (results y t) (returned y t) \<and>
       (\<forall>c r. ph t = Woken c r \<longrightarrow> done_n (io (dk y) t) = (if r < 0 then - 1 else r)))"

lemma map_remove1_distinct: "distinct (map f l) \<Longrightarrow> x \<in> set l \<Longrightarrow> map f (remove1 x l) = remove1 (f x) (map f l)"
  by (induction l) (auto simp: rev_image_eqI)

lemma holds_mem: "holds l P \<Longrightarrow> x \<in> set l \<Longrightarrow> P x"
  by (simp add: holds_def)

lemma holds_snoc: "holds l P \<Longrightarrow> \<not> P x \<Longrightarrow> (\<And>z. Q z \<longleftrightarrow> P z \<or> z = x) \<Longrightarrow> holds (l @ [x]) Q \<and> holds (x # l) Q"
  by (auto simp: holds_def)

lemma holds_cong: "holds l P \<Longrightarrow> (\<And>z. Q z \<longleftrightarrow> P z) \<Longrightarrow> holds l Q"
  by (simp add: holds_def)

lemma holds_remove1: "holds l P \<Longrightarrow> (\<And>z. Q z \<longleftrightarrow> P z \<and> z \<noteq> x) \<Longrightarrow> holds (remove1 x l) Q"
  by (auto simp: holds_def)

lemma async_repD:
  assumes "async_rep E y ph"
  shows "sq (dk y) w = []" "holds (map sqe_task (inflight (dk y) w)) (\<lambda>t. sched_id E t = w \<and> (\<exists>c. ph t = Sent c))"
    "distinct (map fst (cq (dk y) w))" "(t, r) \<in> set (cq (dk y) w) \<longleftrightarrow> sched_id E t = w \<and> (\<exists>c. ph t = Done c r)"
    "holds (ready_q (dk y) w) (\<lambda>t. sched_id E t = w \<and> (\<exists>c r. ph t = Woken c r))"
    "holds (wait_q (dk y) w) (\<lambda>t. sched_id E t = w \<and> ph t \<noteq> Idle)"
    "pcs y t = phase_pc (ph t)" "log_ok (ph t) (calls y t) (results y t) (returned y t)"
    "ph t = Woken c r \<Longrightarrow> done_n (io (dk y) t) = (if r < 0 then - 1 else r)"
  using assms by (auto simp: async_rep_def)

text \<open>A step of one task \<open>t\<close>, and of its ring and queues \<open>w\<close>, keeps what the others see.\<close>

lemma async_rep_upd:
  assumes r: "async_rep E y ph" and w: "w = sched_id E t"
    and q: "\<And>v. v \<noteq> w \<Longrightarrow> inflight (dk z) v = inflight (dk y) v \<and> cq (dk z) v = cq (dk y) v \<and> ready_q (dk z) v = ready_q (dk y) v \<and> wait_q (dk z) v = wait_q (dk y) v"
    and s: "sq (dk z) = sq (dk y)"
    and o': "\<And>u. u \<noteq> t \<Longrightarrow> pcs z u = pcs y u \<and> calls z u = calls y u \<and> results z u = results y u \<and> returned z u = returned y u \<and> io (dk z) u = io (dk y) u"
    and i: "holds (map sqe_task (inflight (dk z) w)) (\<lambda>u. if u = t then \<exists>c. p = Sent c else sched_id E u = w \<and> (\<exists>c. ph u = Sent c))"
    and c: "distinct (map fst (cq (dk z) w))" "\<And>u r. (u, r) \<in> set (cq (dk z) w) \<longleftrightarrow> (if u = t then \<exists>c. p = Done c r else sched_id E u = w \<and> (\<exists>c. ph u = Done c r))"
    and d: "holds (ready_q (dk z) w) (\<lambda>u. if u = t then \<exists>c r. p = Woken c r else sched_id E u = w \<and> (\<exists>c r. ph u = Woken c r))"
    and a: "holds (wait_q (dk z) w) (\<lambda>u. if u = t then p \<noteq> Idle else sched_id E u = w \<and> ph u \<noteq> Idle)"
    and l: "pcs z t = phase_pc p" "log_ok p (calls z t) (results z t) (returned z t)" "\<And>c r. p = Woken c r \<Longrightarrow> done_n (io (dk z) t) = (if r < 0 then - 1 else r)"
  shows "async_rep E z (ph(t := p))"
  unfolding async_rep_def
proof (intro conjI allI impI)
  fix v
  note y = async_repD [OF r]
  show "sq (dk z) v = []" using s y(1) by simp
  show "holds (map sqe_task (inflight (dk z) v)) (\<lambda>u. sched_id E u = v \<and> (\<exists>c. (ph(t := p)) u = Sent c))"
    using i q [of v] w y(2) [of v] by (cases "v = w") (auto elim!: holds_cong)
  show "distinct (map fst (cq (dk z) v))" using c(1) q [of v] y(3) [of v] by (cases "v = w") auto
  show "(u, r) \<in> set (cq (dk z) v) \<longleftrightarrow> sched_id E u = v \<and> (\<exists>c. (ph(t := p)) u = Done c r)" for u r
    using c(2) [of u r] q [of v] w y(4) [of u r v] by (cases "v = w") auto
  show "holds (ready_q (dk z) v) (\<lambda>u. sched_id E u = v \<and> (\<exists>c r. (ph(t := p)) u = Woken c r))"
    using d q [of v] w y(5) [of v] by (cases "v = w") (auto elim!: holds_cong)
  show "holds (wait_q (dk z) v) (\<lambda>u. sched_id E u = v \<and> (ph(t := p)) u \<noteq> Idle)"
    using a q [of v] w y(6) [of v] by (cases "v = w") (auto elim!: holds_cong)
next
  fix u
  note y = async_repD [OF r]
  show "pcs z u = phase_pc ((ph(t := p)) u)" using l(1) o' [of u] y(7) [of u] by simp
  show "log_ok ((ph(t := p)) u) (calls z u) (results z u) (returned z u)" using l(2) o' [of u] y(8) [of u] by simp
  show "(ph(t := p)) u = Woken c r \<Longrightarrow> done_n (io (dk z) u) = (if r < 0 then - 1 else r)" for c r
    using l(3) o' [of u] y(9) [of u c r] by (cases "u = t") auto
qed

section \<open>The steps refine the specification\<close>

definition sqe_for :: "dcall \<Rightarrow> tid \<Rightarrow> io_metadata_t \<Rightarrow> sqe" where
  "sqe_for c t m = (case c of Ascan b n \<Rightarrow> Prep_read t 0 (io_buf m) (req_n m) 0 | Aprintf \<Rightarrow> Prep_write t 1 (io_buf m) (req_n m) 0
     | Afread \<Rightarrow> Prep_read t (io_fd m) (io_buf m) (req_n m) (io_offset m) | Afwrite \<Rightarrow> Prep_write t (io_fd m) (io_buf m) (req_n m) (io_offset m))"

lemma sqe_for_task [simp]: "sqe_task (sqe_for c t m) = t"
  by (cases c) (simp_all add: sqe_for_def)

lemma submit_for_ok:
  assumes "sq d (sched t) = []" "0 < ret"
  shows "submit_for c sched t ret d =
    (d\<lparr>sq := (sq d)(sched t := []), inflight := (inflight d)(sched t := inflight d (sched t) @ [sqe_for c t (io d t)]),
      wait_q := (wait_q d)(sched t := t # wait_q d (sched t))\<rparr>, Yields)"
  using assms by (cases c) (simp_all add: async_stdin_read_def async_stdout_write_def async_file_read_def async_file_write_def
    submit_sqe_def io_uring_submit_def sqe_for_def Let_def)

lemma end_of_answer: "done_n m = (if r < 0 then - 1 else r) \<Longrightarrow> fst (end_of c m s) = answer c r"
  by (cases c) (simp_all add: ascan_end_def asyncio_printf_end_def asyncio_fread_end_def asyncio_fwrite_end_def)

lemma finish_call_simps [simp]:
  "sq (dk (finish_call t c y)) = sq (dk y)" "inflight (dk (finish_call t c y)) = inflight (dk y)" "cq (dk (finish_call t c y)) = cq (dk y)"
  "wait_q (dk (finish_call t c y)) = wait_q (dk y)" "ready_q (dk (finish_call t c y)) = ready_q (dk y)" "io (dk (finish_call t c y)) = io (dk y)"
  "pcs (finish_call t c y) = (pcs y)(t := User)" "calls (finish_call t c y) = calls y" "results (finish_call t c y) = results y"
  "returned (finish_call t c y) = (returned y)(t := returned y t @ [fst (end_of c (io (dk y) t) (heap (dk y)))])"
  by (simp_all add: finish_call_def split: prod.splits)

lemma call_rep:
  assumes r: "async_rep E y ph" and p: "ph t = Idle" and ret: "0 < ret"
  shows "async_rep E (start_call (sched_id E) t c ret (y\<lparr>dk := (dk y)\<lparr>io := (io (dk y))(t := m), heap := s\<rparr>\<rparr>)) (ph(t := Sent c))"
proof -
  note y = async_repD [OF r]
  let ?w = "sched_id E t"
  let ?z = "start_call (sched_id E) t c ret (y\<lparr>dk := (dk y)\<lparr>io := (io (dk y))(t := m), heap := s\<rparr>\<rparr>)"
  have z: "?z = y\<lparr>dk := (dk y)\<lparr>sq := (sq (dk y))(?w := []), inflight := (inflight (dk y))(?w := inflight (dk y) ?w @ [sqe_for c t m]),
      wait_q := (wait_q (dk y))(?w := t # wait_q (dk y) ?w), io := (io (dk y))(t := m), heap := s\<rparr>,
    pcs := (pcs y)(t := Asleep c), calls := (calls y)(t := calls y t @ [c])\<rparr>"
    using submit_for_ok [of "(dk y)\<lparr>io := (io (dk y))(t := m), heap := s\<rparr>" "sched_id E" t ret c] y(1) ret by (simp add: start_call_def)
  have l: "log_ok Idle (calls y t) (results y t) (returned y t)" using y(8) [of t] p by simp
  show ?thesis
  proof (rule async_rep_upd [OF r refl])
    show "sq (dk ?z) = sq (dk y)" using y(1) by (auto simp: z)
    show "holds (map sqe_task (inflight (dk ?z) ?w)) (\<lambda>u. if u = t then \<exists>c'. Sent c = Sent c' else sched_id E u = ?w \<and> (\<exists>c. ph u = Sent c))"
      using holds_snoc [OF y(2) [of ?w], of t] p by (simp add: z)
    show "holds (ready_q (dk ?z) ?w) (\<lambda>u. if u = t then \<exists>c' r. Sent c = Woken c' r else sched_id E u = ?w \<and> (\<exists>c r. ph u = Woken c r))"
      by (rule holds_cong [where P = "\<lambda>u. sched_id E u = ?w \<and> (\<exists>c r. ph u = Woken c r)"]) (use y(5) [of ?w] p in \<open>auto simp: z\<close>)
    show "holds (wait_q (dk ?z) ?w) (\<lambda>u. if u = t then Sent c \<noteq> Idle else sched_id E u = ?w \<and> ph u \<noteq> Idle)"
      using holds_snoc [OF y(6) [of ?w], of t] p by (simp add: z)
    show "distinct (map fst (cq (dk ?z) ?w))" using y(3) [of ?w] by (simp add: z)
    show "(u, r) \<in> set (cq (dk ?z) ?w) \<longleftrightarrow> (if u = t then \<exists>c'. Sent c = Done c' r else sched_id E u = ?w \<and> (\<exists>c. ph u = Done c r))" for u r
      using y(4) [of u r ?w] p by (simp add: z)
    show "log_ok (Sent c) (calls ?z t) (results ?z t) (returned ?z t)" using l by (simp add: z)
  qed (simp_all add: z)
qed

lemma complete_rep:
  assumes r: "async_rep E y ph" and e: "e \<in> set (inflight (dk y) w)" and t: "t = sqe_task e"
  shows "\<exists>c. ph t = Sent c \<and> async_rep E (y\<lparr>dk := complete w e v bs (dk y), results := (results y)(t := results y t @ [v])\<rparr>) (ph(t := Done c v))"
proof -
  note y = async_repD [OF r]
  obtain c where c: "w = sched_id E t" "ph t = Sent c" using holds_mem [OF y(2) [of w], of t] e t by auto
  let ?z = "y\<lparr>dk := complete w e v bs (dk y), results := (results y)(t := results y t @ [v])\<rparr>"
  have dm: "distinct (map sqe_task (inflight (dk y) w))" using y(2) [of w] by (simp add: holds_def)
  have i: "map sqe_task (remove1 e (inflight (dk y) w)) = remove1 t (map sqe_task (inflight (dk y) w))"
    using map_remove1_distinct [OF dm e] t by simp
  have l: "log_ok (Sent c) (calls y t) (results y t) (returned y t)" using y(8) [of t] c by simp
  have "async_rep E ?z (ph(t := Done c v))"
  proof (rule async_rep_upd [OF r c(1)])
    show "holds (map sqe_task (inflight (dk ?z) w)) (\<lambda>u. if u = t then \<exists>c'. Done c v = Sent c' else sched_id E u = w \<and> (\<exists>c. ph u = Sent c))"
      using holds_remove1 [OF y(2) [of w], of _ t] i by (simp add: complete_def)
    show "distinct (map fst (cq (dk ?z) w))" using y(3) [of w] y(4) [of t _ w] c t by (force simp: complete_def)
    show "(u, r) \<in> set (cq (dk ?z) w) \<longleftrightarrow> (if u = t then \<exists>c'. Done c v = Done c' r else sched_id E u = w \<and> (\<exists>c. ph u = Done c r))" for u r
      using y(4) [of u r w] c t by (auto simp: complete_def)
    show "holds (ready_q (dk ?z) w) (\<lambda>u. if u = t then \<exists>c' r. Done c v = Woken c' r else sched_id E u = w \<and> (\<exists>c r. ph u = Woken c r))"
      by (rule holds_cong [where P = "\<lambda>u. sched_id E u = w \<and> (\<exists>c r. ph u = Woken c r)"]) (use y(5) [of w] c in \<open>auto simp: complete_def\<close>)
    show "holds (wait_q (dk ?z) w) (\<lambda>u. if u = t then Done c v \<noteq> Idle else sched_id E u = w \<and> ph u \<noteq> Idle)"
      by (rule holds_cong [where P = "\<lambda>u. sched_id E u = w \<and> ph u \<noteq> Idle"]) (use y(6) [of w] c in \<open>auto simp: complete_def\<close>)
    show "pcs ?z t = phase_pc (Done c v)" using y(7) [of t] c by simp
    show "log_ok (Done c v) (calls ?z t) (results ?z t) (returned ?z t)" using l by simp
  qed (simp_all add: complete_def)
  then show ?thesis using c by blast
qed

lemma worker_rep:
  assumes r: "async_rep E y ph" and d: "cq (dk y) w = (t, v) # cs"
  shows "\<exists>c d. ph t = Done c v \<and> diskio_worker (sched_id E) w (dk y) = Some d \<and> async_rep E (y\<lparr>dk := d\<rparr>) (ph(t := Woken c v)) \<and>
    cq d w = cs \<and> ready_q d w = ready_q (dk y) w @ [t]"
proof -
  note y = async_repD [OF r]
  obtain c where c: "w = sched_id E t" "ph t = Done c v" using y(4) [of t v w] d by auto
  obtain m where m: "diskio_worker (sched_id E) w (dk y) = Some ((dk y)\<lparr>io := (io (dk y))(t := m), cq := (cq (dk y))(w := cs),
      ready_q := (ready_q (dk y))(w := ready_q (dk y) w @ [t])\<rparr>)" "done_n m = (if v < 0 then - 1 else v)"
    using d c(1) by (simp add: diskio_worker_def Let_def)
  let ?z = "y\<lparr>dk := (dk y)\<lparr>io := (io (dk y))(t := m), cq := (cq (dk y))(w := cs), ready_q := (ready_q (dk y))(w := ready_q (dk y) w @ [t])\<rparr>\<rparr>"
  have dc: "distinct (map fst ((t, v) # cs))" using y(3) [of w] d by simp
  have "async_rep E ?z (ph(t := Woken c v))"
  proof (rule async_rep_upd [OF r c(1)])
    show "holds (map sqe_task (inflight (dk ?z) w)) (\<lambda>u. if u = t then \<exists>c'. Woken c v = Sent c' else sched_id E u = w \<and> (\<exists>c. ph u = Sent c))"
      by (rule holds_cong [where P = "\<lambda>u. sched_id E u = w \<and> (\<exists>c. ph u = Sent c)"]) (use y(2) [of w] c in auto)
    show "distinct (map fst (cq (dk ?z) w))" using dc by simp
    show "(u, r) \<in> set (cq (dk ?z) w) \<longleftrightarrow> (if u = t then \<exists>c'. Woken c v = Done c' r else sched_id E u = w \<and> (\<exists>c. ph u = Done c r))" for u r
      using y(4) [of u r w] d dc by (cases "u = t") (force simp: rev_image_eqI)+
    show "holds (ready_q (dk ?z) w) (\<lambda>u. if u = t then \<exists>c' r. Woken c v = Woken c' r else sched_id E u = w \<and> (\<exists>c r. ph u = Woken c r))"
      using holds_snoc [OF y(5) [of w], of t] c by simp
    show "holds (wait_q (dk ?z) w) (\<lambda>u. if u = t then Woken c v \<noteq> Idle else sched_id E u = w \<and> ph u \<noteq> Idle)"
      by (rule holds_cong [where P = "\<lambda>u. sched_id E u = w \<and> ph u \<noteq> Idle"]) (use y(6) [of w] c in auto)
    show "pcs ?z t = phase_pc (Woken c v)" using y(7) [of t] c by simp
    show "log_ok (Woken c v) (calls ?z t) (results ?z t) (returned ?z t)" using y(8) [of t] c by simp
  qed (auto simp: m(2))
  then show ?thesis using c m(1) by auto
qed

lemma resume_rep:
  assumes r: "async_rep E y ph" and d: "ready_q (dk y) w = t # ts"
  shows "\<exists>c v d. ph t = Woken c v \<and> pcs y t = Asleep c \<and> scheduler_next w (dk y) = Some (t, d) \<and> async_rep E (finish_call t c (y\<lparr>dk := d\<rparr>)) (ph(t := Idle)) \<and>
    ready_q d w = ts"
proof -
  note y = async_repD [OF r]
  obtain c v where c: "w = sched_id E t" "ph t = Woken c v" using holds_mem [OF y(5) [of w], of t] d by auto
  let ?d = "(dk y)\<lparr>ready_q := (ready_q (dk y))(w := ts), wait_q := (wait_q (dk y))(w := remove1 t (wait_q (dk y) w))\<rparr>"
  let ?z = "finish_call t c (y\<lparr>dk := ?d\<rparr>)"
  have n: "scheduler_next w (dk y) = Some (t, ?d)" using d by (simp add: scheduler_next_def)
  have l: "log_ok (Woken c v) (calls y t) (results y t) (returned y t)" using y(8) [of t] c by simp
  have a: "fst (end_of c (io (dk y) t) s) = answer c v" for s by (rule end_of_answer) (use y(9) c in blast)
  have "async_rep E ?z (ph(t := Idle))"
  proof (rule async_rep_upd [OF r c(1)])
    show "holds (map sqe_task (inflight (dk ?z) w)) (\<lambda>u. if u = t then \<exists>c'. Idle = Sent c' else sched_id E u = w \<and> (\<exists>c. ph u = Sent c))"
      by (rule holds_cong [where P = "\<lambda>u. sched_id E u = w \<and> (\<exists>c. ph u = Sent c)"]) (use y(2) [of w] c in auto)
    show "distinct (map fst (cq (dk ?z) w))" using y(3) [of w] by simp
    show "(u, r) \<in> set (cq (dk ?z) w) \<longleftrightarrow> (if u = t then \<exists>c'. Idle = Done c' r else sched_id E u = w \<and> (\<exists>c. ph u = Done c r))" for u r
      using y(4) [of u r w] c by auto
    show "holds (ready_q (dk ?z) w) (\<lambda>u. if u = t then \<exists>c' r. Idle = Woken c' r else sched_id E u = w \<and> (\<exists>c r. ph u = Woken c r))"
      using y(5) [of w] d by (auto simp: holds_def)
    show "holds (wait_q (dk ?z) w) (\<lambda>u. if u = t then Idle \<noteq> Idle else sched_id E u = w \<and> ph u \<noteq> Idle)"
      using holds_remove1 [OF y(6) [of w], of _ t] by simp
    show "log_ok Idle (calls ?z t) (results ?z t) (returned ?z t)" using l a by auto
  qed auto
  then show ?thesis using c y(7) [of t] n by auto
qed

section \<open>Reachable states\<close>

lemma async_init_rep: "async_rep E (async_init s) (\<lambda>_. Idle)"
  by (simp add: async_rep_def async_init_def holds_def)

lemma astep_rep:
  assumes "astep E True y z" "async_rep E y ph"
  shows "\<exists>ph'. async_rep E z ph'"
  using assms(1)
proof (cases rule: astep_cases)
  case (call t c m s ret)
  have "ph t = Idle" using call(2) async_repD(7) [OF assms(2), of t] by (cases "ph t") simp_all
  then show ?thesis using call_rep [OF assms(2), where t = t and ret = ret and c = c and m = m and s = s] call by auto
next
  case (completes e w r bs)
  then show ?thesis using complete_rep [OF assms(2), of e w "sqe_task e" r bs] by auto
next
  case (worker w d)
  obtain t v cs where "cq (dk y) w = (t, v) # cs" using worker(2) by (auto simp: diskio_worker_def split: list.splits)
  then show ?thesis using worker_rep [OF assms(2)] worker by fastforce
next
  case (resume w t d c)
  obtain ts where "ready_q (dk y) w = t # ts" using resume(2) by (auto simp: scheduler_next_def split: list.splits)
  then obtain c' d' where r: "pcs y t = Asleep c'" "scheduler_next w (dk y) = Some (t, d')" "async_rep E (finish_call t c' (y\<lparr>dk := d'\<rparr>)) (ph(t := Idle))"
    using resume_rep [OF assms(2)] by blast
  then show ?thesis using resume by auto
next
  case (retry w t d c ret)
  then show ?thesis using async_repD(7) [OF assms(2), of t] by (cases "ph t") simp_all
next
  case (other s)
  then show ?thesis using assms(2) by (auto simp: async_rep_def)
qed

lemma areach_rep: "areach E True (async_init s) n y \<Longrightarrow> \<exists>ph. async_rep E y ph"
  by (induction rule: areach.induct) (use async_init_rep astep_rep in blast)+

lemma areach_trans: "areach E ok b m c \<Longrightarrow> areach E ok a n b \<Longrightarrow> areach E ok a (n + m) c"
  by (induction rule: areach.induct) (auto intro: areach.intros)

lemma areach_step: "astep E ok a b \<Longrightarrow> areach E ok b m c \<Longrightarrow> areach E ok a (Suc m) c"
  using areach_trans [of E ok b m c a 1] areach.move [OF areach.start] by fastforce

text \<open>Every sleeping task can be resumed: its request completes, the worker and the scheduler reach it.\<close>

lemma ready_returns:
  "async_rep E y ph \<Longrightarrow> ready_q (dk y) w = us @ t # ts \<Longrightarrow>
    \<exists>z. areach E True y (Suc (length us)) z \<and> pcs z t = User \<and> returned z t = returned y t @ [answer (last (calls y t)) (last (results y t))]"
proof (induction us arbitrary: y ph)
  case Nil
  obtain c v d where r: "ph t = Woken c v" "pcs y t = Asleep c" "scheduler_next w (dk y) = Some (t, d)" "async_rep E (finish_call t c (y\<lparr>dk := d\<rparr>)) (ph(t := Idle))"
    using resume_rep [OF Nil.prems(1), of w t ts] Nil.prems(2) by auto
  let ?z = "finish_call t c (y\<lparr>dk := d\<rparr>)"
  have l: "log_ok (Woken c v) (calls y t) (results y t) (returned y t)" "log_ok Idle (calls ?z t) (results ?z t) (returned ?z t)"
    using async_repD(8) [OF Nil.prems(1), of t] async_repD(8) [OF r(4), of t] r(1) by simp_all
  have "returned ?z t = returned y t @ [answer (last (calls y t)) (last (results y t))]" using l by auto
  moreover have "astep E True y ?z" by (rule astep.resume [OF r(3,2)])
  ultimately show ?case using areach.move [OF areach.start] by force
next
  case (Cons u us)
  obtain c v d where r: "pcs y u = Asleep c" "scheduler_next w (dk y) = Some (u, d)" "async_rep E (finish_call u c (y\<lparr>dk := d\<rparr>)) (ph(u := Idle))"
      "ready_q d w = us @ t # ts"
    using resume_rep [OF Cons.prems(1), of w u "us @ t # ts"] Cons.prems(2) by auto
  have ut: "u \<noteq> t" using async_repD(5) [OF Cons.prems(1), of w] Cons.prems(2) by (auto simp: holds_def)
  have "astep E True y (finish_call u c (y\<lparr>dk := d\<rparr>))" by (rule astep.resume [OF r(2,1)])
  then show ?case using Cons.IH [OF r(3)] r(4) ut areach_step by fastforce
qed

lemma completed_returns:
  "async_rep E y ph \<Longrightarrow> cq (dk y) w = us @ (t, v) # ts \<Longrightarrow>
    \<exists>m z. areach E True y m z \<and> pcs z t = User \<and> returned z t = returned y t @ [answer (last (calls y t)) (last (results y t))]"
proof (induction us arbitrary: y ph)
  case Nil
  obtain c d where r: "diskio_worker (sched_id E) w (dk y) = Some d" "async_rep E (y\<lparr>dk := d\<rparr>) (ph(t := Woken c v))" "ready_q d w = ready_q (dk y) w @ [t]"
    using worker_rep [OF Nil.prems(1)] Nil.prems(2) by fastforce
  have "astep E True y (y\<lparr>dk := d\<rparr>)" by (rule astep.worker [OF r(1)])
  then show ?case using ready_returns [OF r(2), of w _ t "[]"] r(3) areach_step by fastforce
next
  case (Cons x us)
  obtain u v' where x: "x = (u, v')" by (cases x)
  obtain c d where r: "diskio_worker (sched_id E) w (dk y) = Some d" "async_rep E (y\<lparr>dk := d\<rparr>) (ph(u := Woken c v'))" "cq d w = us @ (t, v) # ts"
    using worker_rep [OF Cons.prems(1), of w u v'] Cons.prems(2) x by fastforce
  have "astep E True y (y\<lparr>dk := d\<rparr>)" by (rule astep.worker [OF r(1)])
  then show ?case using Cons.IH [OF r(2)] r(3) areach_step by fastforce
qed

lemma asleep_returns:
  assumes r: "async_rep E y ph" and p: "pcs y t = Asleep c"
  shows "\<exists>m z. areach E True y m z \<and> pcs z t = User \<and> length (returned z t) = Suc (length (returned y t))"
proof -
  note y = async_repD [OF r]
  let ?w = "sched_id E t"
  have done_case: "\<exists>m z. areach E True y m z \<and> pcs z t = User \<and> length (returned z t) = Suc (length (returned y t))"
    if a: "async_rep E y ph" and b: "ph t = Done c v" for y ph v
  proof -
    obtain us ts where "cq (dk y) ?w = us @ (t, v) # ts" using async_repD(4) [OF a, of t v ?w] b by (auto dest: split_list)
    then show ?thesis using completed_returns [OF a] by fastforce
  qed
  show ?thesis
  proof (cases "ph t")
    case Idle
    then show ?thesis using p y(7) [of t] by simp
  next
    case (Sent c')
    then have "t \<in> set (map sqe_task (inflight (dk y) ?w))" using y(2) [of ?w] by (simp add: holds_def)
    then obtain e where e: "e \<in> set (inflight (dk y) ?w)" "t = sqe_task e" by auto
    let ?v = "min (- 1) (sqe_len e)"
    let ?z = "y\<lparr>dk := complete ?w e ?v [] (dk y), results := (results y)(t := results y t @ [?v])\<rparr>"
    have "astep E True y ?z" using astep.completes [OF e(1), of ?v "[]"] e(2) by simp
    moreover have "async_rep E ?z (ph(t := Done c ?v))" using complete_rep [OF r e, of ?v "[]"] Sent p y(7) [of t] by auto
    from done_case [OF this] have "\<exists>m z. areach E True ?z m z \<and> pcs z t = User \<and> length (returned z t) = Suc (length (returned y t))" by simp
    ultimately show ?thesis using areach_step by blast
  next
    case (Done c' v)
    then show ?thesis using done_case [OF r] p y(7) [of t] by simp
  next
    case (Woken c' v)
    then have "t \<in> set (ready_q (dk y) ?w)" using y(5) [of ?w] by (simp add: holds_def)
    then obtain us ts where "ready_q (dk y) ?w = us @ t # ts" by (auto dest: split_list)
    then show ?thesis using ready_returns [OF r] by fastforce
  qed
qed

end
