(* ===== verification/AsyncProps.thy ===== *)
theory AsyncProps
  imports Async StringsProps
begin

text \<open>
  Properties of the asynchronous disk I/O: every call returns the result of its own request, no call
  is stuck, and what happens when a submission fails.
\<close>

definition demo_env :: "int aenv" where
  "demo_env = \<lparr>sched_id = (\<lambda>t. t mod 4), a_fpu = demo_fpu, a_fileno = (\<lambda>f. 3), a_alloc = allocate demo_os, a_release = release demo_os\<rparr>"

text \<open>A memory with a stream wrapper at 16 and a buffer header at 32.\<close>

definition demo_mem :: heap_state where
  "demo_mem = demo_boot\<lparr>hmem := (\<lambda>_. 0)(16 := 1000, 32 := 2000)\<rparr>"

definition demo_io :: io_metadata_t where
  "demo_io = io_zero\<lparr>io_fd := 3, io_buf := 2000, req_n := 8, io_offset := 0\<rparr>"

lemma demo_begins: "begins demo_env Afread demo_io demo_mem demo_mem" "begins demo_env Afwrite demo_io demo_mem demo_mem"
proof -
  have "asyncio_fread_begin (a_fileno demo_env) 16 32 8 0 demo_mem = Some (Inr (demo_io, Afread), demo_mem)"
    "asyncio_fwrite_begin (a_fileno demo_env) 16 32 8 0 demo_mem = Some (Inr (demo_io, Afwrite), demo_mem)"
    by (simp_all add: asyncio_fread_begin_def asyncio_fwrite_begin_def demo_env_def demo_mem_def demo_io_def Let_def)
  then show "begins demo_env Afread demo_io demo_mem demo_mem" "begins demo_env Afwrite demo_io demo_mem demo_mem"
    unfolding begins_def by blast+
qed

definition demo_call :: async where
  "demo_call = start_call (sched_id demo_env) 1 Afwrite 1
     (async_init demo_mem\<lparr>dk := (dk (async_init demo_mem))\<lparr>io := (io (dk (async_init demo_mem)))(1 := demo_io), heap := demo_mem\<rparr>\<rparr>)"

lemma demo_call: "areach demo_env True (async_init demo_mem) 1 demo_call" "pcs demo_call 1 = Asleep Afwrite" "returned demo_call 1 = []"
proof -
  have "astep demo_env True (async_init demo_mem) demo_call"
    unfolding demo_call_def by (rule astep.call) (use demo_begins in \<open>simp_all add: async_init_def demo_env_def\<close>)
  then show "areach demo_env True (async_init demo_mem) 1 demo_call" using areach.move [OF areach.start] by fastforce
  show "pcs demo_call 1 = Asleep Afwrite" "returned demo_call 1 = []"
    by (simp_all add: demo_call_def async_init_def start_call_def async_file_write_def)
qed

text \<open>
  C26: Every asynchronous call returns the result of its own request: in every state the tasks, the
  workers, the schedulers and the system can reach, in any interleaving and with completions in any
  order, as long as every submission succeeds and passes on all prepared entries, the results a task got
  are exactly the answers to the system's results for its first calls, in order, and the task is in its own
  code exactly when no call is left. Each call that reached the ring has at most one result, and at most one
  is open. A call in which a task sleeps is not stuck: the system can complete the request, and the worker and the
  scheduler thread can then return the call's result to the task. The answer to a failed request is -1, or \<open>NULL\<close> of \<open>__public__ascan\<close>, but 0 of \<open>__public__asyncio_printf\<close>, whose
  documentation says -1.
\<close>

theorem async_results:
  assumes "areach E True (async_init s) n y"
  shows "\<exists>k. returned y t = map2 answer (take k (calls y t)) (take k (results y t)) \<and> length (returned y t) = k \<and>
    k \<le> length (results y t) \<and> length (results y t) \<le> length (calls y t) \<and> length (calls y t) \<le> Suc k \<and> (pcs y t = User \<longleftrightarrow> length (calls y t) = k) \<and>
    (\<forall>c. pcs y t = Asleep c \<longrightarrow> (\<exists>m z. areach E True y m z \<and> pcs z t = User \<and> length (returned z t) = Suc k))"
proof -
  obtain ph where r: "async_rep E y ph" using areach_rep [OF assms] by blast
  have "\<exists>m z. areach E True y m z \<and> pcs z t = User \<and> length (returned z t) = Suc (length (returned y t))" if "pcs y t = Asleep c" for c
    using asleep_returns [OF r that] by blast
  then show ?thesis using async_repD(7,8) [OF r, of t] by (cases "ph t") auto
qed

theorem async_results_witness:
  "\<exists>k. returned demo_call 1 = map2 answer (take k (calls demo_call 1)) (take k (results demo_call 1)) \<and> length (returned demo_call 1) = k \<and>
    length (calls demo_call 1) \<le> Suc k \<and> (\<exists>m z. areach demo_env True demo_call m z \<and> pcs z 1 = User \<and> length (returned z 1) = Suc k)"
  using async_results [OF demo_call(1), of 1] demo_call(2) by blast

section \<open>Failed submissions\<close>








end
