(* ===== verification/Netio.thy ===== *)
theory Netio
  imports Strings Tasks
begin

unbundle bit_operations_syntax

text \<open>
  The network I/O, \<^verbatim>\<open>src/runtime/src/netio.c\<close> and \<^verbatim>\<open>src/runtime/src/platform/linux/epoll.c\<close>. A task that
  accepts, reads or writes registers its descriptor with the poller for one event and yields. The
  worker thread waits for events, performs the operation of the task an event belongs to, and either
  arms the descriptor again or makes the task ready. The results of the socket calls are chosen by the
  system, within their documented bounds. The worker has created the poller and stored it in \<open>netpoller\<close>: a task
  that calls before that fails an assertion of \<open>netpoll_add\<close>.
\<close>

section \<open>The poller\<close>

abbreviation (input) NETPOLL_IN :: "32 word" where "NETPOLL_IN \<equiv> 1"
abbreviation (input) NETPOLL_OUT :: "32 word" where "NETPOLL_OUT \<equiv> 2"
abbreviation (input) NETPOLL_ERR :: "32 word" where "NETPOLL_ERR \<equiv> 4"
abbreviation (input) NETPOLL_HUP :: "32 word" where "NETPOLL_HUP \<equiv> 8"
abbreviation (input) NETPOLL_ONESHOT :: "32 word" where "NETPOLL_ONESHOT \<equiv> 16"
abbreviation (input) EPOLLIN :: "32 word" where "EPOLLIN \<equiv> 1"
abbreviation (input) EPOLLOUT :: "32 word" where "EPOLLOUT \<equiv> 4"
abbreviation (input) EPOLLERR :: "32 word" where "EPOLLERR \<equiv> 8"
abbreviation (input) EPOLLHUP :: "32 word" where "EPOLLHUP \<equiv> 16"
abbreviation (input) EPOLLONESHOT :: "32 word" where "EPOLLONESHOT \<equiv> 1073741824"

definition to_epoll_events :: "32 word \<Rightarrow> 32 word" where
  "to_epoll_events ev =
     (let e = 0;
          e = (if ev AND NETPOLL_IN \<noteq> 0 then e OR EPOLLIN else e);
          e = (if ev AND NETPOLL_OUT \<noteq> 0 then e OR EPOLLOUT else e);
          e = (if ev AND NETPOLL_ERR \<noteq> 0 then e OR EPOLLERR else e);
          e = (if ev AND NETPOLL_HUP \<noteq> 0 then e OR EPOLLHUP else e);
          e = (if ev AND NETPOLL_ONESHOT \<noteq> 0 then e OR EPOLLONESHOT else e)
      in e)"

definition from_epoll_events :: "32 word \<Rightarrow> 32 word" where
  "from_epoll_events ev =
     (let e = 0;
          e = (if ev AND EPOLLIN \<noteq> 0 then e OR NETPOLL_IN else e);
          e = (if ev AND EPOLLOUT \<noteq> 0 then e OR NETPOLL_OUT else e);
          e = (if ev AND EPOLLERR \<noteq> 0 then e OR NETPOLL_ERR else e);
          e = (if ev AND EPOLLHUP \<noteq> 0 then e OR NETPOLL_HUP else e)
      in e)"

text \<open>
  The \<open>epoll\<close> instance: the events and the user data (a task) of each registered descriptor, and
  whether it will report an event. A one-shot registration is not armed any more after its event.
\<close>

record epoll =
  reg :: "int \<rightharpoonup> 32 word \<times> tid"
  armed :: "int \<Rightarrow> bool"

abbreviation (input) EAGAIN :: int where "EAGAIN \<equiv> 11"
abbreviation (input) EEXIST :: int where "EEXIST \<equiv> 17"
abbreviation (input) ENOENT :: int where "ENOENT \<equiv> 2"

text \<open>
  Adding a descriptor fails when it is registered, and for other reasons of the system (\<open>sys\<close>). The first
  result is the error number.
\<close>

definition netpoll_add :: "int \<Rightarrow> 32 word \<Rightarrow> tid \<Rightarrow> int option \<Rightarrow> epoll \<Rightarrow> int option \<times> epoll" where
  "netpoll_add fd events ud sys p =
     (if sys \<noteq> None then (sys, p)
      else if reg p fd \<noteq> None then (Some EEXIST, p)
      else (None, p\<lparr>reg := (reg p)(fd \<mapsto> (to_epoll_events events, ud)), armed := (armed p)(fd := True)\<rparr>))"

text \<open>
  Changing a registration fails when there is none. That the system fails to change one, for lack of memory, is
  left out; no caller looks at the result.
\<close>

definition netpoll_mod :: "int \<Rightarrow> 32 word \<Rightarrow> tid \<Rightarrow> epoll \<Rightarrow> int option \<times> epoll" where
  "netpoll_mod fd events ud p =
     (if reg p fd = None then (Some ENOENT, p)
      else (None, p\<lparr>reg := (reg p)(fd \<mapsto> (to_epoll_events events, ud)), armed := (armed p)(fd := True)\<rparr>))"

definition netpoll_del :: "int \<Rightarrow> epoll \<Rightarrow> int option \<times> epoll" where
  "netpoll_del fd p =
     (if reg p fd = None then (Some ENOENT, p) else (None, p\<lparr>reg := (reg p)(fd := None), armed := (armed p)(fd := False)\<rparr>))"

text \<open>
  The system reports events \<open>evs\<close> on armed descriptors; the poller hands on the user data and the
  translated flags, at most \<open>max_events\<close> and at most 128.
\<close>

record netpoll_event =
  ev_fd :: int
  ev_events :: "32 word"
  ev_ud :: tid

definition epoll_report :: "(int \<times> 32 word) list \<Rightarrow> epoll \<Rightarrow> epoll" where
  "epoll_report evs p = p\<lparr>armed := (\<lambda>fd. armed p fd \<and> fd \<notin> fst ` set evs)\<rparr>"

definition netpoll_wait :: "nat \<Rightarrow> (int \<times> 32 word) list \<Rightarrow> epoll \<Rightarrow> netpoll_event list \<times> epoll" where
  "netpoll_wait max_events evs p =
     (let evs = take (min max_events 128) evs
      in (map (\<lambda>(fd, bits). \<lparr>ev_fd = - 1, ev_events = from_epoll_events bits, ev_ud = snd (the (reg p fd))\<rparr>) evs, epoll_report evs p))"

section \<open>State\<close>

text \<open>
  The poller, the tasks of the events the worker has fetched and not handled yet, the queues of the
  scheduler threads, the I/O fields, the memory, what passed the sockets: the bytes the system
  accepted and delivered on each descriptor, and the status flags and descriptor flags of each descriptor.
\<close>

record net =
  ep :: epoll
  pend :: "tid list"
  nwait :: "nat \<Rightarrow> tid list"
  nready :: "nat \<Rightarrow> tid list"
  nio :: "tid \<Rightarrow> io_metadata_t"
  nheap :: heap_state
  sent :: "int \<Rightarrow> int list"
  got :: "int \<Rightarrow> int list"
  fdflags :: "int \<Rightarrow> int \<times> int"

abbreviation (input) O_NONBLOCK :: int where "O_NONBLOCK \<equiv> 2048"
abbreviation (input) FD_CLOEXEC :: int where "FD_CLOEXEC \<equiv> 1"

abbreviation upd_io :: "tid \<Rightarrow> (io_metadata_t \<Rightarrow> io_metadata_t) \<Rightarrow> net \<Rightarrow> net" where
  "upd_io t f d \<equiv> d\<lparr>nio := (nio d)(t := f (nio d t))\<rparr>"

section \<open>The functions the language calls, up to their yield\<close>

text \<open>
  The steps they share: registration, wait queue, yield (\<open>True\<close>), or a return with -1. Their code after
  the yield returns \<open>done_n\<close> (\<open>net_end\<close>).
\<close>

definition net_block :: "(tid \<Rightarrow> nat) \<Rightarrow> tid \<Rightarrow> int \<Rightarrow> 32 word \<Rightarrow> int option \<Rightarrow> net \<Rightarrow> net \<times> bool" where
  "net_block sched t fd events sys d =
     (case netpoll_add fd events t sys (ep d) of
        (None, p) \<Rightarrow> (d\<lparr>ep := p, nwait := (nwait d)(sched t := t # nwait d (sched t))\<rparr>, True)
      | (Some e, p) \<Rightarrow>
          if e \<noteq> EEXIST then (d\<lparr>ep := p\<rparr>, False)
          else (d\<lparr>ep := snd (netpoll_mod fd events t p), nwait := (nwait d)(sched t := t # nwait d (sched t))\<rparr>, True))"

definition net_accept_begin :: "(tid \<Rightarrow> nat) \<Rightarrow> tid \<Rightarrow> int \<Rightarrow> int option \<Rightarrow> net \<Rightarrow> net \<times> bool" where
  "net_accept_begin sched t listen_fd sys d =
     net_block sched t (to_int32 listen_fd) (NETPOLL_IN OR NETPOLL_ONESHOT) sys
       (upd_io t (\<lambda>_. io_zero\<lparr>io_fd := to_int32 listen_fd, io_op := IO_ACCEPT\<rparr>) d)"

definition net_read_begin :: "(tid \<Rightarrow> nat) \<Rightarrow> tid \<Rightarrow> int \<Rightarrow> addr \<Rightarrow> int \<Rightarrow> int option \<Rightarrow> net \<Rightarrow> net \<times> bool" where
  "net_read_begin sched t fd buf n sys d =
     net_block sched t (to_int32 fd) (NETPOLL_IN OR NETPOLL_ONESHOT) sys
       (upd_io t (\<lambda>_. io_zero\<lparr>io_fd := to_int32 fd, io_buf := hmem (nheap d) buf, req_n := n, io_offset := 0, io_op := IO_READ\<rparr>) d)"

definition net_write_begin :: "(tid \<Rightarrow> nat) \<Rightarrow> tid \<Rightarrow> int \<Rightarrow> addr \<Rightarrow> int \<Rightarrow> int option \<Rightarrow> net \<Rightarrow> net \<times> bool" where
  "net_write_begin sched t fd buf n sys d =
     net_block sched t (to_int32 fd) (NETPOLL_OUT OR NETPOLL_ONESHOT) sys
       (upd_io t (\<lambda>_. io_zero\<lparr>io_fd := to_int32 fd, io_buf := hmem (nheap d) buf, req_n := n, io_offset := 0, io_op := IO_WRITE\<rparr>) d)"

definition net_end :: "io_metadata_t \<Rightarrow> int" where
  "net_end m = done_n m"

section \<open>The worker\<close>

text \<open>The operation is over: the task is made ready.\<close>

definition wake :: "(tid \<Rightarrow> nat) \<Rightarrow> tid \<Rightarrow> net \<Rightarrow> net" where
  "wake sched t d =
     (let d = upd_io t (\<lambda>m. m\<lparr>io_done := True\<rparr>) d in d\<lparr>nready := (nready d)(sched t := nready d (sched t) @ [t])\<rparr>)"

text \<open>What a socket call returns: an error number (\<open>Inl\<close>) or a result.\<close>

definition handle_connect :: "(tid \<Rightarrow> nat) \<Rightarrow> tid \<Rightarrow> int + int \<Rightarrow> net \<Rightarrow> net" where
  "handle_connect sched t r d =
     (let fd = io_fd (nio d t) in
      wake sched t
        (case r of
           Inl e \<Rightarrow> (upd_io t (\<lambda>m. m\<lparr>io_err := e, done_n := - 1\<rparr>) d)\<lparr>ep := snd (netpoll_del fd (ep d))\<rparr>
         | Inr err \<Rightarrow>
             if err \<noteq> 0 then (upd_io t (\<lambda>m. m\<lparr>io_err := err, done_n := - 1\<rparr>) d)\<lparr>ep := snd (netpoll_del fd (ep d))\<rparr>
             else upd_io t (\<lambda>m. m\<lparr>done_n := fd\<rparr>) d))"

text \<open>\<open>fcntl\<close> on a descriptor that was just accepted succeeds.\<close>

definition handle_accept :: "(tid \<Rightarrow> nat) \<Rightarrow> tid \<Rightarrow> int + int \<Rightarrow> net \<Rightarrow> net" where
  "handle_accept sched t r d =
     (case r of
        Inl e \<Rightarrow>
          if e = EAGAIN then d\<lparr>ep := snd (netpoll_mod (io_fd (nio d t)) (NETPOLL_IN OR NETPOLL_ONESHOT) t (ep d))\<rparr>
          else wake sched t (upd_io t (\<lambda>m. m\<lparr>io_err := e, done_n := - 1\<rparr>) d)
      | Inr cfd \<Rightarrow>
          let flags = fst (fdflags d cfd);
              d = d\<lparr>fdflags := (fdflags d)(cfd := (flags OR O_NONBLOCK, snd (fdflags d cfd)))\<rparr>;
              d = d\<lparr>fdflags := (fdflags d)(cfd := (fst (fdflags d cfd), FD_CLOEXEC))\<rparr>
          in wake sched t (upd_io t (\<lambda>m. m\<lparr>done_n := cfd\<rparr>) d))"

text \<open>The assertion of the code is a \<open>None\<close> when it fails.\<close>

definition handle_read :: "(tid \<Rightarrow> nat) \<Rightarrow> tid \<Rightarrow> int + int list \<Rightarrow> net \<Rightarrow> net option" where
  "handle_read sched t r d =
     (let m = nio d t; fd = io_fd m in
      case r of
        Inl e \<Rightarrow>
          if e = EAGAIN then Some (d\<lparr>ep := snd (netpoll_mod fd (NETPOLL_IN OR NETPOLL_ONESHOT) t (ep d))\<rparr>)
          else
            let d = (upd_io t (\<lambda>m. m\<lparr>io_err := e, done_n := - 1\<rparr>) d)\<lparr>ep := snd (netpoll_del fd (ep d))\<rparr>
            in if done_n (nio d t) \<le> req_n (nio d t) then Some (wake sched t d) else None
      | Inr bs \<Rightarrow>
          let d = (if bs \<noteq> [] then
                     (upd_io t (\<lambda>m. m\<lparr>io_offset := io_offset m + int (length bs), done_n := io_offset m + int (length bs)\<rparr>) d)
                       \<lparr>nheap := memput (io_buf m + io_offset m) bs (nheap d), got := (got d)(fd := got d fd @ bs)\<rparr>
                   else (upd_io t (\<lambda>m. m\<lparr>done_n := io_offset m\<rparr>) d)\<lparr>ep := snd (netpoll_del fd (ep d))\<rparr>)
          in if done_n (nio d t) \<le> req_n (nio d t) then Some (wake sched t d) else None)"

definition handle_write :: "(tid \<Rightarrow> nat) \<Rightarrow> tid \<Rightarrow> int + nat \<Rightarrow> net \<Rightarrow> net" where
  "handle_write sched t r d =
     (let m = nio d t; fd = io_fd m in
      case r of
        Inl e \<Rightarrow>
          if e = EAGAIN then d\<lparr>ep := snd (netpoll_mod fd (NETPOLL_OUT OR NETPOLL_ONESHOT) t (ep d))\<rparr>
          else wake sched t ((upd_io t (\<lambda>m. m\<lparr>io_err := e, done_n := - 1\<rparr>) d)\<lparr>ep := snd (netpoll_del fd (ep d))\<rparr>)
      | Inr w \<Rightarrow>
          let d = (upd_io t (\<lambda>m. m\<lparr>io_offset := io_offset m + int w, done_n := io_offset m + int w\<rparr>) d)
                    \<lparr>sent := (sent d)(fd := sent d fd @ bytes_at (nheap d) (io_buf m + io_offset m) w)\<rparr>
          in if io_offset (nio d t) < req_n (nio d t)
             then d\<lparr>ep := snd (netpoll_mod fd (NETPOLL_OUT OR NETPOLL_ONESHOT) t (ep d))\<rparr>
             else wake sched t d)"

text \<open>What the system answers to the worker, and its bounds.\<close>

datatype reply = RConnect "int + int" | RAccept "int + int" | RRecv "int + int list" | RSend "int + nat"

text \<open>One event: the worker performs the operation of the task. A reply to another operation has no meaning.\<close>

definition netio_worker :: "(tid \<Rightarrow> nat) \<Rightarrow> tid \<Rightarrow> reply \<Rightarrow> net \<Rightarrow> net option" where
  "netio_worker sched t r d =
     (let d = upd_io t (\<lambda>m. m\<lparr>io_err := 0\<rparr>) d in
      case (io_op (nio d t), r) of
        (IO_LISTEN, _) \<Rightarrow> Some d
      | (IO_CONNECT, RConnect x) \<Rightarrow> Some (handle_connect sched t x d)
      | (IO_ACCEPT, RAccept x) \<Rightarrow> Some (handle_accept sched t x d)
      | (IO_READ, RRecv x) \<Rightarrow> handle_read sched t x d
      | (IO_WRITE, RSend x) \<Rightarrow> Some (handle_write sched t x d)
      | _ \<Rightarrow> None)"

text \<open>
  \<open>recv\<close> and \<open>send\<close> transfer at most what was asked for; error numbers are positive and an accepted
  descriptor is not negative.
\<close>

fun reply_ok :: "io_metadata_t \<Rightarrow> reply \<Rightarrow> bool" where
  "reply_ok m (RConnect x) \<longleftrightarrow> True"
| "reply_ok m (RAccept x) \<longleftrightarrow> (case x of Inl e \<Rightarrow> 0 < e | Inr cfd \<Rightarrow> 0 \<le> cfd)"
| "reply_ok m (RRecv x) \<longleftrightarrow> (case x of Inl e \<Rightarrow> 0 < e | Inr bs \<Rightarrow> int (length bs) \<le> req_n m - io_offset m)"
| "reply_ok m (RSend x) \<longleftrightarrow> (case x of Inl e \<Rightarrow> 0 < e | Inr w \<Rightarrow> int w \<le> req_n m - io_offset m)"

section \<open>The system of all tasks\<close>

datatype ncall = Net_accept int | Net_read int addr int | Net_write int addr int

fun net_begin :: "(tid \<Rightarrow> nat) \<Rightarrow> tid \<Rightarrow> ncall \<Rightarrow> int option \<Rightarrow> net \<Rightarrow> net \<times> bool" where
  "net_begin sched t (Net_accept fd) = net_accept_begin sched t fd"
| "net_begin sched t (Net_read fd buf n) = net_read_begin sched t fd buf n"
| "net_begin sched t (Net_write fd buf n) = net_write_begin sched t fd buf n"

fun fd_of :: "ncall \<Rightarrow> int" where
  "fd_of (Net_accept fd) = to_int32 fd"
| "fd_of (Net_read fd buf n) = to_int32 fd"
| "fd_of (Net_write fd buf n) = to_int32 fd"

text \<open>The memory of a call: the bytes it reads or writes.\<close>

fun area_of :: "heap_state \<Rightarrow> ncall \<Rightarrow> int set" where
  "area_of s (Net_accept fd) = {}"
| "area_of s (Net_read fd buf n) = {hmem s buf..<hmem s buf + n}"
| "area_of s (Net_write fd buf n) = {hmem s buf..<hmem s buf + n}"

definition io_area :: "io_metadata_t \<Rightarrow> int set" where
  "io_area m = {io_buf m..<io_buf m + req_n m}"

fun amount :: "ncall \<Rightarrow> int" where
  "amount (Net_accept fd) = 0"
| "amount (Net_read fd buf n) = n"
| "amount (Net_write fd buf n) = n"

datatype npc = NUser | NAsleep ncall

text \<open>
  A finished call, for the record: what it was, the bytes of its buffer when it began, the bytes the
  system accepted or delivered on its descriptor meanwhile, the bytes of the buffer at the end, and its
  result. \<open>base\<close> and \<open>data\<close> remember where a call in progress began.
\<close>

record nentry =
  e_call :: ncall
  e_data :: "int list"
  e_moved :: "int list"
  e_buf :: "int list"
  e_res :: int

record nsys =
  nd :: net
  npcs :: "tid \<Rightarrow> npc"
  base :: "tid \<Rightarrow> int list \<times> int list"
  data :: "tid \<Rightarrow> int list"
  nlog :: "tid \<Rightarrow> nentry list"

definition net_init :: "heap_state \<Rightarrow> nsys" where
  "net_init s = \<lparr>nd = \<lparr>ep = \<lparr>reg = Map.empty, armed = \<lambda>_. False\<rparr>, pend = [], nwait = \<lambda>_. [], nready = \<lambda>_. [], nio = \<lambda>_. io_zero, nheap = s,
      sent = \<lambda>_. [], got = \<lambda>_. [], fdflags = \<lambda>_. (0, 0)\<rparr>, npcs = \<lambda>_. NUser, base = \<lambda>_. ([], []), data = \<lambda>_. [], nlog = \<lambda>_. []\<rparr>"

text \<open>The bytes that passed the descriptor of the task \<open>t\<close> since its call began.\<close>

definition moved :: "nsys \<Rightarrow> tid \<Rightarrow> ncall \<Rightarrow> int list" where
  "moved y t c = (case c of Net_accept fd \<Rightarrow> []
     | Net_read fd buf n \<Rightarrow> drop (length (snd (base y t))) (got (nd y) (fd_of c))
     | Net_write fd buf n \<Rightarrow> drop (length (fst (base y t))) (sent (nd y) (fd_of c)))"

definition entry :: "nsys \<Rightarrow> tid \<Rightarrow> ncall \<Rightarrow> nentry" where
  "entry y t c = (let m = nio (nd y) t in
     \<lparr>e_call = c, e_data = data y t, e_moved = moved y t c, e_buf = bytes_at (nheap (nd y)) (io_buf m) (nat (done_n m)), e_res = net_end m\<rparr>)"

text \<open>
  A call is exclusive when no task in a call uses its descriptor, or memory that overlaps its buffer.
\<close>

definition exclusive :: "nsys \<Rightarrow> ncall \<Rightarrow> bool" where
  "exclusive y c \<longleftrightarrow> (\<forall>u. npcs y u \<noteq> NUser \<longrightarrow>
     io_fd (nio (nd y) u) \<noteq> fd_of c \<and> io_area (nio (nd y) u) \<inter> area_of (nheap (nd y)) c = {})"

definition begin_call :: "tid \<Rightarrow> ncall \<Rightarrow> nsys \<Rightarrow> net \<Rightarrow> nsys" where
  "begin_call t c y d = y\<lparr>nd := d, npcs := (npcs y)(t := NAsleep c), base := (base y)(t := (sent d (fd_of c), got d (fd_of c))),
     data := (data y)(t := bytes_at (nheap d) (io_buf (nio d t)) (nat (amount c)))\<rparr>"

text \<open>
  The steps; with \<open>ex\<close>, all calls are exclusive. Other code changes the memory outside of the buffers
  of calls in progress.
\<close>

inductive nstep :: "(tid \<Rightarrow> nat) \<Rightarrow> bool \<Rightarrow> nsys \<Rightarrow> nsys \<Rightarrow> bool" for sched ex where
  call: "npcs y t = NUser \<Longrightarrow> 0 \<le> amount c \<Longrightarrow> amount c < 2 ^ 63 \<Longrightarrow> sys \<noteq> Some EEXIST \<Longrightarrow> (ex \<longrightarrow> exclusive y c) \<Longrightarrow>
    net_begin sched t c sys (nd y) = (d, True) \<Longrightarrow>
    nstep sched ex y (begin_call t c y d)"
| refused: "npcs y t = NUser \<Longrightarrow> net_begin sched t c sys (nd y) = (d, False) \<Longrightarrow> nstep sched ex y (y\<lparr>nd := d\<rparr>)"
| poll: "pend (nd y) = [] \<Longrightarrow> distinct (map fst evs) \<Longrightarrow> (\<forall>fd \<in> fst ` set evs. armed (ep (nd y)) fd) \<Longrightarrow>
    netpoll_wait 128 evs (ep (nd y)) = (es, p) \<Longrightarrow> nstep sched ex y (y\<lparr>nd := (nd y)\<lparr>ep := p, pend := map ev_ud es\<rparr>\<rparr>)"
| event: "pend (nd y) = t # ts \<Longrightarrow> reply_ok (nio (nd y) t) r \<Longrightarrow> netio_worker sched t r ((nd y)\<lparr>pend := ts\<rparr>) = Some d \<Longrightarrow>
    nstep sched ex y (y\<lparr>nd := d\<rparr>)"
| resume: "nready (nd y) w = t # ts \<Longrightarrow> npcs y t = NAsleep c \<Longrightarrow>
    nstep sched ex y (y\<lparr>nd := (nd y)\<lparr>nready := (nready (nd y))(w := ts), nwait := (nwait (nd y))(w := remove1 t (nwait (nd y) w))\<rparr>,
      npcs := (npcs y)(t := NUser), nlog := (nlog y)(t := nlog y t @ [entry y t c])\<rparr>)"
| other: "(\<forall>u. npcs y u \<noteq> NUser \<longrightarrow> (\<forall>a \<in> io_area (nio (nd y) u). hbytes s a = hbytes (nheap (nd y)) a)) \<Longrightarrow>
    nstep sched ex y (y\<lparr>nd := (nd y)\<lparr>nheap := s\<rparr>\<rparr>)"

inductive nreach :: "(tid \<Rightarrow> nat) \<Rightarrow> bool \<Rightarrow> nsys \<Rightarrow> nat \<Rightarrow> nsys \<Rightarrow> bool" for sched ex y where
  start: "nreach sched ex y 0 y"
| move: "nreach sched ex y n z \<Longrightarrow> nstep sched ex z z' \<Longrightarrow> nreach sched ex y (Suc n) z'"

inductive_cases nstep_cases [consumes 1, case_names call refused poll event resume other]: "nstep sched ex y z"

section \<open>What a finished call promises\<close>

text \<open>
  A write has delivered exactly its buffer, or a part of it and an error; a read has stored exactly the
  bytes that were delivered, at most as many as asked for, or reports an error and nothing was
  delivered.
\<close>

definition entry_ok :: "nentry \<Rightarrow> bool" where
  "entry_ok e \<longleftrightarrow> (case e_call e of
       Net_accept fd \<Rightarrow> - 1 \<le> e_res e
     | Net_read fd buf n \<Rightarrow> e_res e = int (length (e_moved e)) \<and> e_res e \<le> n \<and> e_buf e = e_moved e \<or> e_res e = - 1 \<and> e_moved e = []
     | Net_write fd buf n \<Rightarrow> length (e_data e) = nat n \<and> (e_res e = n \<and> e_moved e = e_data e \<or> e_res e = - 1 \<and> (\<exists>j. e_moved e = take j (e_data e))))"

text \<open>The phases of a call: its descriptor is armed, its event is fetched, its task is ready.\<close>

datatype nphase = NIdle | NArmed ncall | NPend ncall | NReady ncall

fun nphase_call :: "nphase \<Rightarrow> ncall option" where
  "nphase_call NIdle = None"
| "nphase_call (NArmed c) = Some c"
| "nphase_call (NPend c) = Some c"
| "nphase_call (NReady c) = Some c"

text \<open>The I/O fields and the streams of a call in progress.\<close>

definition in_progress :: "nsys \<Rightarrow> tid \<Rightarrow> ncall \<Rightarrow> bool" where
  "in_progress y t c \<longleftrightarrow> (let m = nio (nd y) t; fd = fd_of c in case c of
       Net_accept f \<Rightarrow> io_op m = IO_ACCEPT
     | Net_read f buf n \<Rightarrow> io_op m = IO_READ \<and> io_offset m = 0 \<and> got (nd y) fd = snd (base y t)
     | Net_write f buf n \<Rightarrow> io_op m = IO_WRITE \<and> 0 \<le> io_offset m \<and> io_offset m \<le> n \<and>
         data y t = bytes_at (nheap (nd y)) (io_buf m) (nat n) \<and> sent (nd y) fd = fst (base y t) @ take (nat (io_offset m)) (data y t))"

definition ncall_ok :: "nsys \<Rightarrow> tid \<Rightarrow> nphase \<Rightarrow> bool" where
  "ncall_ok y t p \<longleftrightarrow> (case p of NIdle \<Rightarrow> True
     | NArmed c \<Rightarrow> in_progress y t c
     | NPend c \<Rightarrow> in_progress y t c
     | NReady c \<Rightarrow> entry_ok (entry y t c))"

definition poll_ok :: "nsys \<Rightarrow> (tid \<Rightarrow> nphase) \<Rightarrow> bool" where
  "poll_ok y ph \<longleftrightarrow>
     (\<forall>fd. armed (ep (nd y)) fd \<longrightarrow> (\<exists>ev t c. reg (ep (nd y)) fd = Some (ev, t) \<and> ph t = NArmed c \<and> fd_of c = fd)) \<and>
     (\<forall>t c. ph t = NArmed c \<longrightarrow> armed (ep (nd y)) (fd_of c) \<and> (\<exists>ev. reg (ep (nd y)) (fd_of c) = Some (ev, t))) \<and>
     (\<forall>t c. ph t = NPend c \<longrightarrow> reg (ep (nd y)) (fd_of c) \<noteq> None)"

definition queues_ok :: "(tid \<Rightarrow> nat) \<Rightarrow> nsys \<Rightarrow> (tid \<Rightarrow> nphase) \<Rightarrow> bool" where
  "queues_ok sched y ph \<longleftrightarrow> queue_inv (\<lambda>p. \<exists>c. p = NPend c) (pend (nd y)) ph \<and>
     (\<forall>w. distinct (nready (nd y) w) \<and> (\<forall>t. t \<in> set (nready (nd y) w) \<longleftrightarrow> sched t = w \<and> (\<exists>c. ph t = NReady c))) \<and>
     (\<forall>w. distinct (nwait (nd y) w) \<and> (\<forall>t. t \<in> set (nwait (nd y) w) \<longleftrightarrow> sched t = w \<and> ph t \<noteq> NIdle))"

definition fields_ok :: "nsys \<Rightarrow> (tid \<Rightarrow> nphase) \<Rightarrow> bool" where
  "fields_ok y ph \<longleftrightarrow>
     (\<forall>t c. nphase_call (ph t) = Some c \<longrightarrow> io_fd (nio (nd y) t) = fd_of c \<and> req_n (nio (nd y) t) = amount c \<and> 0 \<le> amount c) \<and>
     (\<forall>t u c c'. t \<noteq> u \<longrightarrow> nphase_call (ph t) = Some c \<longrightarrow> nphase_call (ph u) = Some c' \<longrightarrow>
        fd_of c \<noteq> fd_of c' \<and> io_area (nio (nd y) t) \<inter> io_area (nio (nd y) u) = {})"

definition tasks_ok :: "nsys \<Rightarrow> (tid \<Rightarrow> nphase) \<Rightarrow> bool" where
  "tasks_ok y ph \<longleftrightarrow>
     (\<forall>t. npcs y t = (case nphase_call (ph t) of None \<Rightarrow> NUser | Some c \<Rightarrow> NAsleep c) \<and> ncall_ok y t (ph t) \<and> (\<forall>e \<in> set (nlog y t). entry_ok e))"

definition net_rep :: "(tid \<Rightarrow> nat) \<Rightarrow> nsys \<Rightarrow> (tid \<Rightarrow> nphase) \<Rightarrow> bool" where
  "net_rep sched y ph \<longleftrightarrow> poll_ok y ph \<and> queues_ok sched y ph \<and> fields_ok y ph \<and> tasks_ok y ph"

end
