(* ===== verification/NetioSteps.thy ===== *)
theory NetioSteps
  imports Netio
begin

unbundle bit_operations_syntax

text \<open>
  The network I/O with exclusive calls: every step keeps the representation \<open>net_rep\<close>, so that every
  finished call has kept its promise; and every sleeping task can be resumed.
\<close>

section \<open>The steps keep the promise\<close>

lemma net_repD:
  assumes "net_rep sched y ph"
  shows "armed (ep (nd y)) fd \<Longrightarrow> \<exists>ev t c. reg (ep (nd y)) fd = Some (ev, t) \<and> ph t = NArmed c \<and> fd_of c = fd"
    "ph t = NArmed c \<Longrightarrow> armed (ep (nd y)) (fd_of c) \<and> (\<exists>ev. reg (ep (nd y)) (fd_of c) = Some (ev, t))"
    "ph t = NPend c \<Longrightarrow> reg (ep (nd y)) (fd_of c) \<noteq> None"
    "queue_inv (\<lambda>p. \<exists>c. p = NPend c) (pend (nd y)) ph"
    "distinct (nready (nd y) w)" "t \<in> set (nready (nd y) w) \<longleftrightarrow> sched t = w \<and> (\<exists>c. ph t = NReady c)"
    "distinct (nwait (nd y) w)" "t \<in> set (nwait (nd y) w) \<longleftrightarrow> sched t = w \<and> ph t \<noteq> NIdle"
    "nphase_call (ph t) = Some c \<Longrightarrow> io_fd (nio (nd y) t) = fd_of c \<and> req_n (nio (nd y) t) = amount c \<and> 0 \<le> amount c"
    "t \<noteq> u \<Longrightarrow> nphase_call (ph t) = Some c \<Longrightarrow> nphase_call (ph u) = Some c' \<Longrightarrow>
        fd_of c \<noteq> fd_of c' \<and> io_area (nio (nd y) t) \<inter> io_area (nio (nd y) u) = {}"
    "npcs y t = (case nphase_call (ph t) of None \<Rightarrow> NUser | Some c \<Rightarrow> NAsleep c)" "ncall_ok y t (ph t)" "e \<in> set (nlog y t) \<Longrightarrow> entry_ok e"
proof -
  have p: "poll_ok y ph" "queues_ok sched y ph" "fields_ok y ph" "tasks_ok y ph" using assms by (simp_all add: net_rep_def)
  show "armed (ep (nd y)) fd \<Longrightarrow> \<exists>ev t c. reg (ep (nd y)) fd = Some (ev, t) \<and> ph t = NArmed c \<and> fd_of c = fd"
    "ph t = NArmed c \<Longrightarrow> armed (ep (nd y)) (fd_of c) \<and> (\<exists>ev. reg (ep (nd y)) (fd_of c) = Some (ev, t))"
    "ph t = NPend c \<Longrightarrow> reg (ep (nd y)) (fd_of c) \<noteq> None" using p(1) unfolding poll_ok_def by blast+
  show "queue_inv (\<lambda>p. \<exists>c. p = NPend c) (pend (nd y)) ph" "distinct (nready (nd y) w)" "t \<in> set (nready (nd y) w) \<longleftrightarrow> sched t = w \<and> (\<exists>c. ph t = NReady c)"
    "distinct (nwait (nd y) w)" "t \<in> set (nwait (nd y) w) \<longleftrightarrow> sched t = w \<and> ph t \<noteq> NIdle" using p(2) unfolding queues_ok_def by blast+
  show "nphase_call (ph t) = Some c \<Longrightarrow> io_fd (nio (nd y) t) = fd_of c \<and> req_n (nio (nd y) t) = amount c \<and> 0 \<le> amount c"
    using p(3) unfolding fields_ok_def by blast
  show "t \<noteq> u \<Longrightarrow> nphase_call (ph t) = Some c \<Longrightarrow> nphase_call (ph u) = Some c' \<Longrightarrow>
        fd_of c \<noteq> fd_of c' \<and> io_area (nio (nd y) t) \<inter> io_area (nio (nd y) u) = {}" using p(3) unfolding fields_ok_def by blast
  show "npcs y t = (case nphase_call (ph t) of None \<Rightarrow> NUser | Some c \<Rightarrow> NAsleep c)" "ncall_ok y t (ph t)" "e \<in> set (nlog y t) \<Longrightarrow> entry_ok e"
    using p(4) unfolding tasks_ok_def by blast+
qed

lemma area_bytes:
  assumes "\<forall>a \<in> io_area m. hbytes s' a = hbytes s a" "int k \<le> req_n m"
  shows "bytes_at s' (io_buf m) k = bytes_at s (io_buf m) k"
  by (rule bytes_at_cong, rule assms(1) [THEN bspec]) (use assms(2) in \<open>auto simp: io_area_def\<close>)

lemma ncall_ok_cong:
  assumes p: "nphase_call p = Some c" and n: "req_n (nio (nd y) u) = amount c" "0 \<le> amount c"
    and e: "nio (nd z) u = nio (nd y) u" "sent (nd z) (fd_of c) = sent (nd y) (fd_of c)" "got (nd z) (fd_of c) = got (nd y) (fd_of c)"
      "base z u = base y u" "data z u = data y u" "\<forall>a \<in> io_area (nio (nd y) u). hbytes (nheap (nd z)) a = hbytes (nheap (nd y)) a"
    and o': "ncall_ok y u p"
  shows "ncall_ok z u p"
proof -
  note b = area_bytes [OF e(6)]
  have ip: "in_progress z u c" if "in_progress y u c"
    using that e b [of "nat (amount c)"] n by (cases c) (simp_all add: in_progress_def Let_def)
  have "entry_ok (entry z u c)" if en: "entry_ok (entry y u c)"
  proof (cases c)
    case (Net_read f bf k)
    have m: "moved z u c = moved y u c" using e Net_read by (simp add: moved_def)
    have "bytes_at (nheap (nd z)) (io_buf (nio (nd y) u)) (nat (done_n (nio (nd y) u))) = bytes_at (nheap (nd y)) (io_buf (nio (nd y) u)) (nat (done_n (nio (nd y) u)))"
      by (rule b) (use en n Net_read in \<open>auto simp: entry_ok_def entry_def Let_def net_end_def\<close>)
    then show ?thesis using en m Net_read e(1) by (simp add: entry_ok_def entry_def Let_def net_end_def)
  qed (use en e in \<open>simp_all add: entry_ok_def entry_def moved_def Let_def net_end_def\<close>)
  then show ?thesis using o' p ip by (cases p) (auto simp: ncall_ok_def)
qed

text \<open>
  A step of the task \<open>t\<close> on its descriptor \<open>fd\<close>, from the phase \<open>ph t\<close> to the phase \<open>p\<close>. The other tasks
  see no change.
\<close>

lemma net_rep_upd:
  assumes r: "net_rep sched y ph" and fd: "\<And>c. nphase_call (ph t) = Some c \<or> nphase_call p = Some c \<Longrightarrow> fd_of c = fd"
    and x: "\<And>u c c'. u \<noteq> t \<Longrightarrow> nphase_call (ph u) = Some c \<Longrightarrow> nphase_call p = Some c' \<Longrightarrow>
      fd_of c \<noteq> fd \<and> io_area (nio (nd y) u) \<inter> io_area (nio (nd z) t) = {}"
    and o1: "\<And>u. u \<noteq> t \<Longrightarrow> nio (nd z) u = nio (nd y) u \<and> npcs z u = npcs y u \<and> base z u = base y u \<and> data z u = data y u \<and> nlog z u = nlog y u"
    and o2: "\<And>f. f \<noteq> fd \<Longrightarrow> reg (ep (nd z)) f = reg (ep (nd y)) f \<and> armed (ep (nd z)) f = armed (ep (nd y)) f \<and> sent (nd z) f = sent (nd y) f \<and> got (nd z) f = got (nd y) f"
    and o3: "\<And>u. u \<noteq> t \<Longrightarrow> ph u \<noteq> NIdle \<Longrightarrow> \<forall>a \<in> io_area (nio (nd y) u). hbytes (nheap (nd z)) a = hbytes (nheap (nd y)) a"
    and a: "armed (ep (nd z)) fd \<longleftrightarrow> (\<exists>c. p = NArmed c)" "armed (ep (nd z)) fd \<Longrightarrow> \<exists>ev. reg (ep (nd z)) fd = Some (ev, t)"
      "(\<exists>c. p = NPend c) \<Longrightarrow> reg (ep (nd z)) fd \<noteq> None"
    and nofd: "\<And>u c. u \<noteq> t \<Longrightarrow> nphase_call (ph u) = Some c \<Longrightarrow> fd_of c \<noteq> fd"
    and q: "queue_inv (\<lambda>p. \<exists>c. p = NPend c) (pend (nd z)) (ph(t := p))"
    and w1: "\<And>w. distinct (nready (nd z) w)" "\<And>w u. u \<in> set (nready (nd z) w) \<longleftrightarrow> sched u = w \<and> (\<exists>c. (ph(t := p)) u = NReady c)"
    and w2: "\<And>w. distinct (nwait (nd z) w)" "\<And>w u. u \<in> set (nwait (nd z) w) \<longleftrightarrow> sched u = w \<and> (ph(t := p)) u \<noteq> NIdle"
    and m: "\<And>c. nphase_call p = Some c \<Longrightarrow> io_fd (nio (nd z) t) = fd_of c \<and> req_n (nio (nd z) t) = amount c \<and> 0 \<le> amount c"
    and l: "npcs z t = (case nphase_call p of None \<Rightarrow> NUser | Some c \<Rightarrow> NAsleep c)" "ncall_ok z t p" "\<And>e. e \<in> set (nlog z t) \<Longrightarrow> entry_ok e"
  shows "net_rep sched z (ph(t := p))"
  unfolding net_rep_def poll_ok_def queues_ok_def fields_ok_def tasks_ok_def
proof (intro conjI allI impI ballI)
  note y = net_repD [OF r]
  show "queue_inv (\<lambda>p. \<exists>c. p = NPend c) (pend (nd z)) (ph(t := p))" by (rule q)
  show "distinct (nready (nd z) w)" "(u \<in> set (nready (nd z) w)) = (sched u = w \<and> (\<exists>c. (ph(t := p)) u = NReady c))"
    "distinct (nwait (nd z) w)" "(u \<in> set (nwait (nd z) w)) = (sched u = w \<and> (ph(t := p)) u \<noteq> NIdle)" for w u
    using w1 w2 by blast+
  show "\<exists>ev u c. reg (ep (nd z)) f = Some (ev, u) \<and> (ph(t := p)) u = NArmed c \<and> fd_of c = f" if f: "armed (ep (nd z)) f" for f
  proof (cases "f = fd")
    case True
    then show ?thesis using f a(1,2) fd by fastforce
  next
    case False
    then obtain ev u c where u: "reg (ep (nd y)) f = Some (ev, u)" "ph u = NArmed c" "fd_of c = f" using y(1) [of f] o2 [of f] f by auto
    have "u \<noteq> t" using u fd [of c] False by auto
    then show ?thesis using u o2 [OF False] by auto
  qed
  show "armed (ep (nd z)) (fd_of c)" "\<exists>ev. reg (ep (nd z)) (fd_of c) = Some (ev, u)" if f: "(ph(t := p)) u = NArmed c" for u c
  proof -
    have "armed (ep (nd z)) (fd_of c) \<and> (\<exists>ev. reg (ep (nd z)) (fd_of c) = Some (ev, u))"
    proof (cases "u = t")
      case True
      then show ?thesis using f a(1,2) fd [of c] by auto
    next
      case False
      then show ?thesis using f y(2) [of u c] o2 [of "fd_of c"] nofd [of u c] by auto
    qed
    then show "armed (ep (nd z)) (fd_of c)" "\<exists>ev. reg (ep (nd z)) (fd_of c) = Some (ev, u)" by blast+
  qed
  show "reg (ep (nd z)) (fd_of c) \<noteq> None" if "(ph(t := p)) u = NPend c" for u c
    using that a(3) fd [of c] y(3) [of u c] o2 [of "fd_of c"] nofd [of u c] by (cases "u = t") auto
  show "io_fd (nio (nd z) u) = fd_of c" "req_n (nio (nd z) u) = amount c" "0 \<le> amount c" if "nphase_call ((ph(t := p)) u) = Some c" for u c
  proof -
    have "io_fd (nio (nd z) u) = fd_of c \<and> req_n (nio (nd z) u) = amount c \<and> 0 \<le> amount c"
      using that m [of c] y(9) [of u c] o1 [of u] by (cases "u = t") simp_all
    then show "io_fd (nio (nd z) u) = fd_of c" "req_n (nio (nd z) u) = amount c" "0 \<le> amount c" by blast+
  qed
  show "fd_of c \<noteq> fd_of c'" "io_area (nio (nd z) u) \<inter> io_area (nio (nd z) v) = {}"
    if uv: "u \<noteq> v" "nphase_call ((ph(t := p)) u) = Some c" "nphase_call ((ph(t := p)) v) = Some c'" for u v c c'
  proof -
    have "fd_of c \<noteq> fd_of c' \<and> io_area (nio (nd z) u) \<inter> io_area (nio (nd z) v) = {}"
    proof -
      consider "u = t" "v \<noteq> t" | "v = t" "u \<noteq> t" | "u \<noteq> t" "v \<noteq> t" using uv(1) by blast
      then show ?thesis
      proof cases
        case 1
        have c: "nphase_call p = Some c" "nphase_call (ph v) = Some c'" using uv 1 by simp_all
        show ?thesis using x [OF 1(2) c(2,1)] fd [of c] c(1) o1 [OF 1(2)] 1(1) by (simp add: Int_commute)
      next
        case 2
        have c: "nphase_call p = Some c'" "nphase_call (ph u) = Some c" using uv 2 by simp_all
        show ?thesis using x [OF 2(2) c(2,1)] fd [of c'] c(1) o1 [OF 2(2)] 2(1) by simp
      next
        case 3
        then show ?thesis using uv y(10) [of u v c c'] o1 [of u] o1 [of v] by simp
      qed
    qed
    then show "fd_of c \<noteq> fd_of c'" "io_area (nio (nd z) u) \<inter> io_area (nio (nd z) v) = {}" by blast+
  qed
  show "npcs z u = (case nphase_call ((ph(t := p)) u) of None \<Rightarrow> NUser | Some c \<Rightarrow> NAsleep c)" for u using l(1) y(11) [of u] o1 [of u] by (cases "u = t") auto
  show "entry_ok e" if "e \<in> set (nlog z u)" for u e using that l(3) y(13) [of e u] o1 [of u] by (cases "u = t") auto
  show "ncall_ok z u ((ph(t := p)) u)" for u
  proof (cases "u = t")
    case False
    show ?thesis
    proof (cases "nphase_call (ph u)")
      case None
      then show ?thesis using False by (cases "ph u") (simp_all add: ncall_ok_def)
    next
      case (Some c)
      have i: "ph u \<noteq> NIdle" using Some by auto
      have "ncall_ok z u (ph u)"
        by (rule ncall_ok_cong [OF Some]) (use y(9) [OF Some] y(12) [of u] o1 [OF False] o2 [OF nofd [OF False Some]] o3 [OF False i] in simp_all)
      then show ?thesis using False by simp
    qed
  qed (simp add: l(2))
qed

text \<open>What a call leaves behind when it yields: an armed registration of its descriptor for its task.\<close>

lemma net_begin_blocks:
  assumes b: "net_begin sched t c sys d0 = (d, True)" and s: "sys \<noteq> Some EEXIST"
  obtains ev m where "d = d0\<lparr>ep := (ep d0)\<lparr>reg := (reg (ep d0))(fd_of c \<mapsto> (ev, t)), armed := (armed (ep d0))(fd_of c := True)\<rparr>,
      nwait := (nwait d0)(sched t := t # nwait d0 (sched t)), nio := (nio d0)(t := m)\<rparr>"
    "io_fd m = fd_of c" "req_n m = amount c" "io_area m \<subseteq> area_of (nheap d0) c" "io_offset m = 0"
    "io_op m = (case c of Net_accept fd \<Rightarrow> IO_ACCEPT | Net_read fd b n \<Rightarrow> IO_READ | Net_write fd b n \<Rightarrow> IO_WRITE)"
proof -
  define m where "m = (case c of Net_accept fd \<Rightarrow> io_zero\<lparr>io_fd := to_int32 fd, io_op := IO_ACCEPT\<rparr>
    | Net_read fd b n \<Rightarrow> io_zero\<lparr>io_fd := to_int32 fd, io_buf := hmem (nheap d0) b, req_n := n, io_offset := 0, io_op := IO_READ\<rparr>
    | Net_write fd b n \<Rightarrow> io_zero\<lparr>io_fd := to_int32 fd, io_buf := hmem (nheap d0) b, req_n := n, io_offset := 0, io_op := IO_WRITE\<rparr>)"
  obtain ev where e: "net_begin sched t c sys d0 = net_block sched t (fd_of c) ev sys (d0\<lparr>nio := (nio d0)(t := m)\<rparr>)"
    by (cases c) (simp_all add: net_accept_begin_def net_read_begin_def net_write_begin_def m_def)
  have "d = d0\<lparr>ep := (ep d0)\<lparr>reg := (reg (ep d0))(fd_of c \<mapsto> (to_epoll_events ev, t)), armed := (armed (ep d0))(fd_of c := True)\<rparr>,
      nwait := (nwait d0)(sched t := t # nwait d0 (sched t)), nio := (nio d0)(t := m)\<rparr>"
    using b s unfolding e by (auto simp: net_block_def netpoll_add_def netpoll_mod_def split: if_splits option.splits)
  then show thesis by (rule that) (cases c; simp add: m_def io_zero_def io_area_def)+
qed

lemma net_begin_refused: "net_begin sched t c sys d0 = (d, False) \<Longrightarrow> \<exists>m. d = d0\<lparr>nio := (nio d0)(t := m)\<rparr>"
  by (cases c) (auto simp: net_accept_begin_def net_read_begin_def net_write_begin_def net_block_def netpoll_add_def split: if_splits option.splits)

lemma queue_inv_cong: "queue_inv Q l ph \<Longrightarrow> Q p = Q (ph t) \<Longrightarrow> queue_inv Q l (ph(t := p))"
  using queue_step [of Q l ph l p t] by simp

lemma net_call_rep:
  assumes r: "net_rep sched y ph" and i: "ph t = NIdle" and n: "0 \<le> amount c" and x: "exclusive y c" and s: "sys \<noteq> Some EEXIST"
    and b: "net_begin sched t c sys (nd y) = (d, True)"
  shows "net_rep sched (begin_call t c y d) (ph(t := NArmed c))"
proof -
  note y = net_repD [OF r]
  obtain ev m where d: "d = (nd y)\<lparr>ep := (ep (nd y))\<lparr>reg := (reg (ep (nd y)))(fd_of c \<mapsto> (ev, t)), armed := (armed (ep (nd y)))(fd_of c := True)\<rparr>,
      nwait := (nwait (nd y))(sched t := t # nwait (nd y) (sched t)), nio := (nio (nd y))(t := m)\<rparr>"
    and m: "io_fd m = fd_of c" "req_n m = amount c" "io_area m \<subseteq> area_of (nheap (nd y)) c" "io_offset m = 0"
      "io_op m = (case c of Net_accept fd \<Rightarrow> IO_ACCEPT | Net_read fd b n \<Rightarrow> IO_READ | Net_write fd b n \<Rightarrow> IO_WRITE)"
    by (rule net_begin_blocks [OF b s])
  have x': "fd_of c' \<noteq> fd_of c \<and> io_area (nio (nd y) u) \<inter> io_area m = {}" if u: "u \<noteq> t" "nphase_call (ph u) = Some c'" for u c'
  proof -
    have "npcs y u \<noteq> NUser" using y(11) [of u] u by simp
    then have "io_fd (nio (nd y) u) \<noteq> fd_of c \<and> io_area (nio (nd y) u) \<inter> area_of (nheap (nd y)) c = {}" using x unfolding exclusive_def by blast
    then show ?thesis using y(9) [OF u(2)] m(3) by auto
  qed
  show ?thesis
  proof (rule net_rep_upd [OF r, where fd = "fd_of c"])
    show "ncall_ok (begin_call t c y d) t (NArmed c)"
      using m n by (cases c) (simp_all add: ncall_ok_def in_progress_def begin_call_def d Let_def)
    show "queue_inv (\<lambda>p. \<exists>c. p = NPend c) (pend (nd (begin_call t c y d))) (ph(t := NArmed c))"
      using queue_inv_cong [OF y(4), of "NArmed c" t] i by (simp add: begin_call_def d)
    show "u \<in> set (nready (nd (begin_call t c y d)) w) \<longleftrightarrow> sched u = w \<and> (\<exists>c'. (ph(t := NArmed c)) u = NReady c')" for w u
      using y(6) [of u w] i by (cases "u = t") (simp_all add: begin_call_def d)
    show "u \<in> set (nwait (nd (begin_call t c y d)) w) \<longleftrightarrow> sched u = w \<and> (ph(t := NArmed c)) u \<noteq> NIdle" for w u
      using y(8) [of u w] i by (cases "u = t"; cases "w = sched t") (simp_all add: begin_call_def d)
    show "distinct (nwait (nd (begin_call t c y d)) w)" for w
      using y(7) [of w] y(8) [of t "sched t"] i by (cases "w = sched t") (simp_all add: begin_call_def d)
    show "distinct (nready (nd (begin_call t c y d)) w)" for w using y(5) [of w] by (simp add: begin_call_def d)
    show "e \<in> set (nlog (begin_call t c y d) t) \<Longrightarrow> entry_ok e" for e using y(13) [of e t] by (simp add: begin_call_def)
  qed (use x' i m n in \<open>auto simp: begin_call_def d\<close>)
qed

lemma pend_not_armed: "net_rep sched y ph \<Longrightarrow> nphase_call (ph t) = Some c \<Longrightarrow> ph t \<noteq> NArmed c \<Longrightarrow> \<not> armed (ep (nd y)) (fd_of c)"
proof
  assume r: "net_rep sched y ph" and p: "nphase_call (ph t) = Some c" "ph t \<noteq> NArmed c" and a: "armed (ep (nd y)) (fd_of c)"
  note y = net_repD [OF r]
  obtain u c' where u: "ph u = NArmed c'" "fd_of c' = fd_of c" using y(1) [OF a] by blast
  have "u \<noteq> t" using u(1) p by auto
  then show False using y(10) [of u t c' c] u p(1) by simp
qed

lemma pend_hd:
  assumes r: "net_rep sched y ph" and p: "pend (nd y) = t # ts"
  obtains c where "ph t = NPend c" "queue_inv (\<lambda>p. \<exists>c. p = NPend c) ts (ph(t := NArmed c))" "queue_inv (\<lambda>p. \<exists>c. p = NPend c) ts (ph(t := NReady c))"
proof -
  have q: "queue_inv (\<lambda>p. \<exists>c. p = NPend c) (t # ts) ph" using net_repD(4) [OF r] p by simp
  then obtain c where c: "ph t = NPend c" by (auto simp: queue_inv_def)
  show thesis using that [OF c] queue_step [OF q, of ts "NArmed c" t] queue_step [OF q, of ts "NReady c" t] c by simp
qed

lemma rearm_rep:
  assumes r: "net_rep sched y ph" and p: "pend (nd y) = t # ts" "ph t = NPend c"
    and d: "d = (nd y)\<lparr>pend := ts, ep := snd (netpoll_mod (fd_of c) ev t (ep (nd y))), nio := (nio (nd y))(t := m), sent := (sent (nd y))(fd_of c := sl)\<rparr>"
    and m: "io_fd m = fd_of c" "req_n m = amount c" "io_buf m = io_buf (nio (nd y) t)" and k: "in_progress (y\<lparr>nd := d\<rparr>) t c"
  shows "net_rep sched (y\<lparr>nd := d\<rparr>) (ph(t := NArmed c))"
proof -
  note y = net_repD [OF r]
  have c: "nphase_call (ph t) = Some c" using p by simp
  have rg: "reg (ep (nd y)) (fd_of c) \<noteq> None" by (rule y(3) [OF p(2)])
  have area: "io_area m = io_area (nio (nd y) t)" using m y(9) [OF c] by (simp add: io_area_def)
  have x: "fd_of c' \<noteq> fd_of c \<and> io_area (nio (nd y) u) \<inter> io_area m = {}" if "u \<noteq> t" "nphase_call (ph u) = Some c'" for u c'
    using y(10) [OF that(1,2) c] area by simp
  have q: "queue_inv (\<lambda>p. \<exists>c. p = NPend c) ts (ph(t := NArmed c))" using pend_hd [OF r p(1)] p(2) by (metis nphase.inject(2))
  show ?thesis
  proof (rule net_rep_upd [OF r, where fd = "fd_of c"])
    show "ncall_ok (y\<lparr>nd := d\<rparr>) t (NArmed c)" using k by (simp add: ncall_ok_def)
    show "queue_inv (\<lambda>p. \<exists>c. p = NPend c) (pend (nd (y\<lparr>nd := d\<rparr>))) (ph(t := NArmed c))" using q by (simp add: d)
    show "u \<in> set (nready (nd (y\<lparr>nd := d\<rparr>)) w) \<longleftrightarrow> sched u = w \<and> (\<exists>c'. (ph(t := NArmed c)) u = NReady c')" for w u
      using y(6) [of u w] p(2) by (cases "u = t") (simp_all add: d)
    show "u \<in> set (nwait (nd (y\<lparr>nd := d\<rparr>)) w) \<longleftrightarrow> sched u = w \<and> (ph(t := NArmed c)) u \<noteq> NIdle" for w u
      using y(8) [of u w] p(2) by (cases "u = t") (simp_all add: d)
    show "distinct (nwait (nd (y\<lparr>nd := d\<rparr>)) w)" "distinct (nready (nd (y\<lparr>nd := d\<rparr>)) w)" for w using y(5,7) [of w] by (simp_all add: d)
    show "e \<in> set (nlog (y\<lparr>nd := d\<rparr>) t) \<Longrightarrow> entry_ok e" for e using y(13) [of e t] by simp
    show "npcs (y\<lparr>nd := d\<rparr>) t = (case nphase_call (NArmed c) of None \<Rightarrow> NUser | Some c \<Rightarrow> NAsleep c)" using y(11) [of t] c by simp
  qed (use x p(2) m y(9) [OF c] rg in \<open>auto simp: d netpoll_mod_def\<close>)
qed

lemma wake_rep:
  assumes r: "net_rep sched y ph" and p: "pend (nd y) = t # ts" "ph t = NPend c" and e': "e' = ep (nd y) \<or> e' = snd (netpoll_del (fd_of c) (ep (nd y)))"
    and d: "d = wake sched t ((nd y)\<lparr>pend := ts, ep := e', nio := (nio (nd y))(t := m), nheap := s, sent := (sent (nd y))(fd_of c := sl), got := (got (nd y))(fd_of c := gl)\<rparr>)"
    and m: "io_fd m = fd_of c" "req_n m = amount c" "io_buf m = io_buf (nio (nd y) t)" and k: "entry_ok (entry (y\<lparr>nd := d\<rparr>) t c)"
    and s: "\<And>a. a \<notin> io_area (nio (nd y) t) \<Longrightarrow> hbytes s a = hbytes (nheap (nd y)) a"
  shows "net_rep sched (y\<lparr>nd := d\<rparr>) (ph(t := NReady c))"
proof -
  note y = net_repD [OF r]
  have c: "nphase_call (ph t) = Some c" using p by simp
  have na: "\<not> armed (ep (nd y)) (fd_of c)" by (rule pend_not_armed [OF r c]) (simp add: p(2))
  have area: "io_area (m\<lparr>io_done := True\<rparr>) = io_area (nio (nd y) t)" using m y(9) [OF c] by (simp add: io_area_def)
  have x: "fd_of c' \<noteq> fd_of c \<and> io_area (nio (nd y) u) \<inter> io_area (m\<lparr>io_done := True\<rparr>) = {}" if "u \<noteq> t" "nphase_call (ph u) = Some c'" for u c'
    using y(10) [OF that(1,2) c] area by simp
  have hb: "\<forall>a \<in> io_area (nio (nd y) u). hbytes s a = hbytes (nheap (nd y)) a" if u: "u \<noteq> t" "ph u \<noteq> NIdle" for u
  proof -
    obtain c' where c': "nphase_call (ph u) = Some c'" using u(2) by (cases "ph u") simp_all
    show ?thesis using y(10) [OF u(1) c' c] s by blast
  qed
  have q: "queue_inv (\<lambda>p. \<exists>c. p = NPend c) ts (ph(t := NReady c))" using pend_hd [OF r p(1)] p(2) by (metis nphase.inject(2))
  show ?thesis
  proof (rule net_rep_upd [OF r, where fd = "fd_of c"])
    show "ncall_ok (y\<lparr>nd := d\<rparr>) t (NReady c)" using k by (simp add: ncall_ok_def)
    show "queue_inv (\<lambda>p. \<exists>c. p = NPend c) (pend (nd (y\<lparr>nd := d\<rparr>))) (ph(t := NReady c))" using q by (simp add: d wake_def Let_def)
    show "u \<in> set (nready (nd (y\<lparr>nd := d\<rparr>)) w) \<longleftrightarrow> sched u = w \<and> (\<exists>c'. (ph(t := NReady c)) u = NReady c')" for w u
      using y(6) [of u w] p(2) by (cases "u = t"; cases "w = sched t") (simp_all add: d wake_def Let_def)
    show "u \<in> set (nwait (nd (y\<lparr>nd := d\<rparr>)) w) \<longleftrightarrow> sched u = w \<and> (ph(t := NReady c)) u \<noteq> NIdle" for w u
      using y(8) [of u w] p(2) by (cases "u = t") (simp_all add: d wake_def Let_def)
    show "distinct (nwait (nd (y\<lparr>nd := d\<rparr>)) w)" for w using y(7) [of w] by (simp add: d wake_def Let_def)
    show "distinct (nready (nd (y\<lparr>nd := d\<rparr>)) w)" for w
      using y(5) [of w] y(6) [of t w] p(2) by (cases "w = sched t") (simp_all add: d wake_def Let_def)
    show "e \<in> set (nlog (y\<lparr>nd := d\<rparr>) t) \<Longrightarrow> entry_ok e" for e using y(13) [of e t] by simp
    show "npcs (y\<lparr>nd := d\<rparr>) t = (case nphase_call (NReady c) of None \<Rightarrow> NUser | Some c \<Rightarrow> NAsleep c)" using y(11) [of t] c by simp
    show "u \<noteq> t \<Longrightarrow> ph u \<noteq> NIdle \<Longrightarrow> \<forall>a \<in> io_area (nio (nd y) u). hbytes (nheap (nd (y\<lparr>nd := d\<rparr>))) a = hbytes (nheap (nd y)) a" for u
      using hb [of u] by (simp add: d wake_def Let_def)
    show "armed (ep (nd (y\<lparr>nd := d\<rparr>))) (fd_of c) \<longleftrightarrow> (\<exists>c'. NReady c = NArmed c')" using e' na by (auto simp: d wake_def Let_def netpoll_del_def split: if_splits)
    show "f \<noteq> fd_of c \<Longrightarrow> reg (ep (nd (y\<lparr>nd := d\<rparr>))) f = reg (ep (nd y)) f \<and> armed (ep (nd (y\<lparr>nd := d\<rparr>))) f = armed (ep (nd y)) f \<and>
      sent (nd (y\<lparr>nd := d\<rparr>)) f = sent (nd y) f \<and> got (nd (y\<lparr>nd := d\<rparr>)) f = got (nd y) f" for f
      using e' by (auto simp: d wake_def Let_def netpoll_del_def split: if_splits)
    show "io_fd (nio (nd (y\<lparr>nd := d\<rparr>)) t) = fd_of c' \<and> req_n (nio (nd (y\<lparr>nd := d\<rparr>)) t) = amount c' \<and> 0 \<le> amount c'" if "nphase_call (NReady c) = Some c'" for c'
      using that m y(9) [OF c] by (simp add: d wake_def Let_def)
    show "fd_of c' \<noteq> fd_of c \<and> io_area (nio (nd y) u) \<inter> io_area (nio (nd (y\<lparr>nd := d\<rparr>)) t) = {}"
      if "u \<noteq> t" "nphase_call (ph u) = Some c'" for u c' using x [OF that] by (simp add: d wake_def Let_def)
    show "armed (ep (nd (y\<lparr>nd := d\<rparr>))) (fd_of c) \<Longrightarrow> \<exists>ev. reg (ep (nd (y\<lparr>nd := d\<rparr>))) (fd_of c) = Some (ev, t)"
      using e' na by (auto simp: d wake_def Let_def netpoll_del_def split: if_splits)
  qed (use x p(2) in \<open>auto simp: d wake_def Let_def\<close>)
qed

text \<open>The flags of descriptors do not matter for it.\<close>

lemma net_rep_flags: "net_rep sched (y\<lparr>nd := d\<lparr>fdflags := g\<rparr>\<rparr>) ph = net_rep sched (y\<lparr>nd := d\<rparr>) ph"
proof -
  have "entry (y\<lparr>nd := d\<lparr>fdflags := g\<rparr>\<rparr>) t c = entry (y\<lparr>nd := d\<rparr>) t c" "in_progress (y\<lparr>nd := d\<lparr>fdflags := g\<rparr>\<rparr>) t c = in_progress (y\<lparr>nd := d\<rparr>) t c" for t c
    by (auto simp: entry_def in_progress_def moved_def Let_def split: ncall.splits)
  then have "ncall_ok (y\<lparr>nd := d\<lparr>fdflags := g\<rparr>\<rparr>) t p = ncall_ok (y\<lparr>nd := d\<rparr>) t p" for t p by (cases p) (simp_all add: ncall_ok_def)
  then show ?thesis by (simp add: net_rep_def poll_ok_def queues_ok_def fields_ok_def tasks_ok_def)
qed

text \<open>The three operations: the descriptor is armed again and the call goes on, or it is over and keeps its promise.\<close>

lemma accept_rep:
  assumes r: "net_rep sched y ph" and p: "pend (nd y) = t # ts" "ph t = NPend c" and c: "c = Net_accept f" and k: "reply_ok (nio (nd y) t) (RAccept x)"
    and d: "d = handle_accept sched t x (upd_io t (\<lambda>m. m\<lparr>io_err := 0\<rparr>) ((nd y)\<lparr>pend := ts\<rparr>))"
  shows "\<exists>q. net_rep sched (y\<lparr>nd := d\<rparr>) (ph(t := q)) \<and> (q = NArmed c \<or> q = NReady c)"
proof -
  note y = net_repD [OF r]
  have nc: "nphase_call (ph t) = Some c" using p by simp
  have f: "io_fd (nio (nd y) t) = fd_of c" "req_n (nio (nd y) t) = amount c" using y(9) [OF nc] by simp_all
  have ip: "in_progress y t c" using y(12) [of t] p(2) by (simp add: ncall_ok_def)
  show ?thesis
  proof (cases "x = Inl 11")
    case True
    have "net_rep sched (y\<lparr>nd := d\<rparr>) (ph(t := NArmed c))"
    proof (rule rearm_rep [OF r p])
      show "d = (nd y)\<lparr>pend := ts, ep := snd (netpoll_mod (fd_of c) (NETPOLL_IN OR NETPOLL_ONESHOT) t (ep (nd y))),
          nio := (nio (nd y))(t := (nio (nd y) t)\<lparr>io_err := 0\<rparr>), sent := (sent (nd y))(fd_of c := sent (nd y) (fd_of c))\<rparr>"
        using True d f by (auto simp: handle_accept_def intro!: net.equality)
      then show "in_progress (y\<lparr>nd := d\<rparr>) t c" using ip c by (simp add: in_progress_def Let_def)
    qed (use f in simp_all)
    then show ?thesis by blast
  next
    case False
    define m where "m = (case x of Inl e \<Rightarrow> (nio (nd y) t)\<lparr>io_err := e, done_n := - 1\<rparr> | Inr cfd \<Rightarrow> (nio (nd y) t)\<lparr>io_err := 0, done_n := cfd\<rparr>)"
    have m: "io_fd m = fd_of c" "req_n m = amount c" "io_buf m = io_buf (nio (nd y) t)" "- 1 \<le> done_n m"
      using f k by (auto simp: m_def split: sum.splits)
    define d1 where "d1 = wake sched t ((nd y)\<lparr>pend := ts, ep := ep (nd y), nio := (nio (nd y))(t := m), nheap := nheap (nd y),
          sent := (sent (nd y))(fd_of c := sent (nd y) (fd_of c)), got := (got (nd y))(fd_of c := got (nd y) (fd_of c))\<rparr>)"
    have d2: "d = d1\<lparr>fdflags := fdflags d\<rparr>"
      using False d by (cases x) (auto simp: handle_accept_def d1_def m_def wake_def Let_def intro!: net.equality)
    have "net_rep sched (y\<lparr>nd := d1\<rparr>) (ph(t := NReady c))"
      by (rule wake_rep [OF r p _ d1_def]) (use m d1_def c in \<open>simp_all add: entry_ok_def entry_def net_end_def wake_def Let_def\<close>)
    then have "net_rep sched (y\<lparr>nd := d\<rparr>) (ph(t := NReady c))" using net_rep_flags [where d = d1 and g = "fdflags d"] d2 by simp
    then show ?thesis by blast
  qed
qed

lemma read_rep:
  assumes r: "net_rep sched y ph" and p: "pend (nd y) = t # ts" "ph t = NPend c" and c: "c = Net_read f b n" and k: "reply_ok (nio (nd y) t) (RRecv x)"
    and d: "handle_read sched t x (upd_io t (\<lambda>m. m\<lparr>io_err := 0\<rparr>) ((nd y)\<lparr>pend := ts\<rparr>)) = d'"
  shows "\<exists>d q. d' = Some d \<and> net_rep sched (y\<lparr>nd := d\<rparr>) (ph(t := q)) \<and> (q = NArmed c \<or> q = NReady c)"
proof -
  note y = net_repD [OF r]
  have nc: "nphase_call (ph t) = Some c" using p by simp
  have f: "io_fd (nio (nd y) t) = fd_of c" "req_n (nio (nd y) t) = n" "0 \<le> n" using y(9) [OF nc] c by simp_all
  have ip: "io_op (nio (nd y) t) = IO_READ" "io_offset (nio (nd y) t) = 0" "got (nd y) (fd_of c) = snd (base y t)"
    using y(12) [of t] p(2) c by (simp_all add: ncall_ok_def in_progress_def Let_def)
  let ?m = "nio (nd y) t"
  show ?thesis
  proof (cases x)
    case (Inl e)
    show ?thesis
    proof (cases "e = 11")
      case True
      define d1 where "d1 = (nd y)\<lparr>pend := ts, ep := snd (netpoll_mod (fd_of c) (NETPOLL_IN OR NETPOLL_ONESHOT) t (ep (nd y))),
          nio := (nio (nd y))(t := ?m\<lparr>io_err := 0\<rparr>), sent := (sent (nd y))(fd_of c := sent (nd y) (fd_of c))\<rparr>"
      have "in_progress (y\<lparr>nd := d1\<rparr>) t c" using ip c by (simp add: in_progress_def d1_def Let_def)
      then have "net_rep sched (y\<lparr>nd := d1\<rparr>) (ph(t := NArmed c))" by (intro rearm_rep [OF r p d1_def]) (use f c in simp_all)
      moreover have "d' = Some d1" using d Inl True f by (auto simp: handle_read_def Let_def d1_def wake_def intro!: net.equality)
      ultimately show ?thesis by blast
    next
      case False
      define d1 where "d1 = wake sched t ((nd y)\<lparr>pend := ts, ep := snd (netpoll_del (fd_of c) (ep (nd y))), nio := (nio (nd y))(t := ?m\<lparr>io_err := e, done_n := - 1\<rparr>),
          nheap := nheap (nd y), sent := (sent (nd y))(fd_of c := sent (nd y) (fd_of c)), got := (got (nd y))(fd_of c := got (nd y) (fd_of c))\<rparr>)"
      have "entry_ok (entry (y\<lparr>nd := d1\<rparr>) t c)"
        using ip c by (simp add: entry_ok_def entry_def net_end_def moved_def d1_def wake_def Let_def)
      then have "net_rep sched (y\<lparr>nd := d1\<rparr>) (ph(t := NReady c))" by (intro wake_rep [OF r p _ d1_def]) (use f c in simp_all)
      moreover have "d' = Some d1" using d Inl False f by (auto simp: handle_read_def Let_def d1_def wake_def intro!: net.equality)
      ultimately show ?thesis by blast
    qed
  next
    case (Inr bs)
    have bs: "int (length bs) \<le> n" using k Inr f ip by simp
    define e' where "e' = (if bs \<noteq> [] then ep (nd y) else snd (netpoll_del (fd_of c) (ep (nd y))))"
    define d1 where "d1 = wake sched t ((nd y)\<lparr>pend := ts, ep := e', nio := (nio (nd y))(t := ?m\<lparr>io_err := 0, io_offset := int (length bs), done_n := int (length bs)\<rparr>),
        nheap := memput (io_buf ?m) bs (nheap (nd y)), sent := (sent (nd y))(fd_of c := sent (nd y) (fd_of c)), got := (got (nd y))(fd_of c := got (nd y) (fd_of c) @ bs)\<rparr>)"
    have mp: "memput a [] s = s" for a s by (rule heap_state.equality) (simp_all add: memput_def write_list_def fun_eq_iff)
    have "d' = Some d1" using d Inr f ip bs by (cases "bs = []") (auto simp: handle_read_def Let_def d1_def e'_def mp wake_def intro!: net.equality)
    moreover have "entry_ok (entry (y\<lparr>nd := d1\<rparr>) t c)"
      using ip c bs bytes_at_memput [OF refl, of "io_buf ?m" bs "nheap (nd y)"]
      by (simp add: entry_ok_def entry_def net_end_def moved_def d1_def wake_def Let_def bytes_at_def)
    then have "net_rep sched (y\<lparr>nd := d1\<rparr>) (ph(t := NReady c))"
      by (intro wake_rep [OF r p _ d1_def]) (use f c bs in \<open>auto simp: e'_def io_area_def write_list_def\<close>)
    ultimately show ?thesis by blast
  qed
qed

lemma write_rep:
  assumes r: "net_rep sched y ph" and p: "pend (nd y) = t # ts" "ph t = NPend c" and c: "c = Net_write f b n" and k: "reply_ok (nio (nd y) t) (RSend x)"
    and d: "d = handle_write sched t x (upd_io t (\<lambda>m. m\<lparr>io_err := 0\<rparr>) ((nd y)\<lparr>pend := ts\<rparr>))"
  shows "\<exists>q. net_rep sched (y\<lparr>nd := d\<rparr>) (ph(t := q)) \<and> (q = NArmed c \<or> q = NReady c)"
proof -
  note y = net_repD [OF r]
  have nc: "nphase_call (ph t) = Some c" using p by simp
  let ?m = "nio (nd y) t" and ?D = "data y t"
  have f: "io_fd ?m = fd_of c" "req_n ?m = n" "0 \<le> n" using y(9) [OF nc] c by simp_all
  have ip: "io_op ?m = IO_WRITE" "0 \<le> io_offset ?m" "io_offset ?m \<le> n" "?D = bytes_at (nheap (nd y)) (io_buf ?m) (nat n)"
      "sent (nd y) (fd_of c) = fst (base y t) @ take (nat (io_offset ?m)) ?D"
    using y(12) [of t] p(2) c by (simp_all add: ncall_ok_def in_progress_def Let_def)
  have lD: "length ?D = nat n" unfolding ip(4) by simp
  show ?thesis
  proof (cases x)
    case (Inl e)
    show ?thesis
    proof (cases "e = 11")
      case True
      have d1: "d = (nd y)\<lparr>pend := ts, ep := snd (netpoll_mod (fd_of c) (NETPOLL_OUT OR NETPOLL_ONESHOT) t (ep (nd y))),
          nio := (nio (nd y))(t := ?m\<lparr>io_err := 0\<rparr>), sent := (sent (nd y))(fd_of c := sent (nd y) (fd_of c))\<rparr>"
        using d Inl True f by (auto simp: handle_write_def Let_def wake_def intro!: net.equality)
      have "in_progress (y\<lparr>nd := d\<rparr>) t c" using ip c by (simp add: in_progress_def d1 Let_def)
      then show ?thesis using rearm_rep [OF r p d1] f c by auto
    next
      case False
      have d1: "d = wake sched t ((nd y)\<lparr>pend := ts, ep := snd (netpoll_del (fd_of c) (ep (nd y))), nio := (nio (nd y))(t := ?m\<lparr>io_err := e, done_n := - 1\<rparr>),
          nheap := nheap (nd y), sent := (sent (nd y))(fd_of c := sent (nd y) (fd_of c)), got := (got (nd y))(fd_of c := got (nd y) (fd_of c))\<rparr>)"
        using d Inl False f by (auto simp: handle_write_def Let_def wake_def intro!: net.equality)
      have "entry_ok (entry (y\<lparr>nd := d\<rparr>) t c)"
        using ip c lD by (auto simp: entry_ok_def entry_def net_end_def moved_def d1 wake_def Let_def)
      then show ?thesis using wake_rep [OF r p _ d1] f c by auto
    qed
  next
    case (Inr w)
    define o' where "o' = io_offset ?m + int w"
    have w: "o' \<le> n" "0 \<le> o'" "nat o' = nat (io_offset ?m) + w" using k Inr f ip(2) by (simp_all add: o'_def nat_add_distrib)
    define sl where "sl = sent (nd y) (fd_of c) @ bytes_at (nheap (nd y)) (io_buf ?m + io_offset ?m) w"
    have "bytes_at (nheap (nd y)) (io_buf ?m + io_offset ?m) w = take w (drop (nat (io_offset ?m)) ?D)"
    proof -
      have "?D = bytes_at (nheap (nd y)) (io_buf ?m) (nat (io_offset ?m) + (w + (nat n - nat o')))" unfolding ip(4) using w by (intro arg_cong2 [where f = "bytes_at _"]) auto
      then show ?thesis using ip(2) by (simp add: bytes_at_append)
    qed
    then have sl: "sl = fst (base y t) @ take (nat o') ?D" using ip(5) w(3) by (simp add: sl_def take_add)
    show ?thesis
    proof (cases "o' < n")
      case True
      have d1: "d = (nd y)\<lparr>pend := ts, ep := snd (netpoll_mod (fd_of c) (NETPOLL_OUT OR NETPOLL_ONESHOT) t (ep (nd y))),
          nio := (nio (nd y))(t := ?m\<lparr>io_err := 0, io_offset := o', done_n := o'\<rparr>), sent := (sent (nd y))(fd_of c := sl)\<rparr>"
        using d Inr True f by (auto simp: handle_write_def Let_def o'_def sl_def wake_def intro!: net.equality)
      have "in_progress (y\<lparr>nd := d\<rparr>) t c" using ip c w sl by (simp add: in_progress_def d1 Let_def)
      then show ?thesis using rearm_rep [OF r p d1] f c by auto
    next
      case False
      then have on: "o' = n" using w by simp
      have d1: "d = wake sched t ((nd y)\<lparr>pend := ts, ep := ep (nd y), nio := (nio (nd y))(t := ?m\<lparr>io_err := 0, io_offset := o', done_n := o'\<rparr>),
          nheap := nheap (nd y), sent := (sent (nd y))(fd_of c := sl), got := (got (nd y))(fd_of c := got (nd y) (fd_of c))\<rparr>)"
        using d Inr False f by (auto simp: handle_write_def Let_def o'_def sl_def wake_def intro!: net.equality)
      have "entry_ok (entry (y\<lparr>nd := d\<rparr>) t c)"
        using c lD sl on by (simp add: entry_ok_def entry_def net_end_def moved_def d1 wake_def Let_def)
      then show ?thesis using wake_rep [OF r p _ d1] f c by auto
    qed
  qed
qed

lemma event_rep:
  assumes r: "net_rep sched y ph" and p: "pend (nd y) = t # ts" and k: "reply_ok (nio (nd y) t) x"
    and e: "netio_worker sched t x ((nd y)\<lparr>pend := ts\<rparr>) = Some d"
  shows "\<exists>c q. ph t = NPend c \<and> net_rep sched (y\<lparr>nd := d\<rparr>) (ph(t := q)) \<and> (q = NArmed c \<or> q = NReady c)"
proof -
  obtain c where c: "ph t = NPend c" by (rule pend_hd [OF r p])
  have ip: "in_progress y t c" using net_repD(12) [OF r, of t] c by (simp add: ncall_ok_def)
  show ?thesis
  proof (cases c)
    case (Net_accept f)
    then obtain v where v: "x = RAccept v" using ip e by (cases x) (auto simp: netio_worker_def in_progress_def Let_def)
    then show ?thesis using accept_rep [OF r p c Net_accept k [unfolded v] refl] ip e c Net_accept by (auto simp: netio_worker_def in_progress_def Let_def)
  next
    case (Net_read f b n)
    then obtain v where v: "x = RRecv v" using ip e by (cases x) (auto simp: netio_worker_def in_progress_def Let_def)
    then show ?thesis using read_rep [OF r p c Net_read k [unfolded v] refl] ip e c Net_read by (auto simp: netio_worker_def in_progress_def Let_def)
  next
    case (Net_write f b n)
    then obtain v where v: "x = RSend v" using ip e by (cases x) (auto simp: netio_worker_def in_progress_def Let_def)
    then show ?thesis using write_rep [OF r p c Net_write k [unfolded v] refl] ip e c Net_write by (auto simp: netio_worker_def in_progress_def Let_def)
  qed
qed

text \<open>The worker fetches the events of the descriptors \<open>F\<close>.\<close>

definition fetched :: "int set \<Rightarrow> nphase \<Rightarrow> nphase" where
  "fetched F p = (case p of NArmed c \<Rightarrow> if fd_of c \<in> F then NPend c else NArmed c | _ \<Rightarrow> p)"

lemma fetched_simps [simp]: "nphase_call (fetched F p) = nphase_call p" "fetched F p = NIdle \<longleftrightarrow> p = NIdle" "fetched F p = NReady c \<longleftrightarrow> p = NReady c"
  "fetched F p = NArmed c \<longleftrightarrow> p = NArmed c \<and> fd_of c \<notin> F" "fetched F p = NPend c \<longleftrightarrow> p = NPend c \<or> p = NArmed c \<and> fd_of c \<in> F"
  by (auto simp: fetched_def split: nphase.splits if_splits)

lemma poll_rep:
  assumes r: "net_rep sched y ph" and p: "pend (nd y) = []" and d: "distinct (map fst evs)" and a: "\<forall>fd \<in> fst ` set evs. armed (ep (nd y)) fd"
    and e: "netpoll_wait 128 evs (ep (nd y)) = (es, p')"
  shows "net_rep sched (y\<lparr>nd := (nd y)\<lparr>ep := p', pend := map ev_ud es\<rparr>\<rparr>) (\<lambda>t. fetched (fst ` set (take 128 evs)) (ph t))"
proof -
  note y = net_repD [OF r]
  define fs where "fs = map fst (take 128 evs)"
  define own where "own fd = snd (the (reg (ep (nd y)) fd))" for fd
  let ?z = "y\<lparr>nd := (nd y)\<lparr>ep := p', pend := map ev_ud es\<rparr>\<rparr>" and ?ph = "\<lambda>t. fetched (set fs) (ph t)"
  have F: "fst ` set (take 128 evs) = set fs" by (simp add: fs_def)
  have df: "distinct fs" using d by (simp add: fs_def take_map [symmetric])
  have af: "armed (ep (nd y)) fd" if "fd \<in> set fs" for fd using a that set_take_subset [of 128 evs] by (auto simp: fs_def)
  have z0: "p' = epoll_report (take 128 evs) (ep (nd y))" "map ev_ud es = map (\<lambda>e. own (fst e)) (take 128 evs)"
    using e by (auto simp: netpoll_wait_def Let_def own_def)
  have z: "p' = (ep (nd y))\<lparr>armed := \<lambda>fd. armed (ep (nd y)) fd \<and> fd \<notin> set fs\<rparr>" "map ev_ud es = map own fs"
    unfolding z0 epoll_report_def F by (simp_all add: fs_def)
  have own: "own fd = t \<longleftrightarrow> (\<exists>c. ph t = NArmed c \<and> fd_of c = fd)" if fd: "fd \<in> set fs" for fd t
  proof -
    obtain ev u c where u: "reg (ep (nd y)) fd = Some (ev, u)" "ph u = NArmed c" "fd_of c = fd" using y(1) [OF af [OF fd]] by blast
    have "own fd = u" using u(1) by (simp add: own_def)
    moreover have "t = u" if "ph t = NArmed c'" "fd_of c' = fd" for c'
      using y(10) [of t u c' c] u(2,3) that by (cases "t = u") simp_all
    ultimately show ?thesis using u(2,3) by blast
  qed
  have inj: "inj_on own (set fs)"
  proof (rule inj_onI)
    fix f g assume fg: "f \<in> set fs" "g \<in> set fs" "own f = own g"
    obtain c where "ph (own f) = NArmed c" "fd_of c = f" using own [OF fg(1), of "own f"] by blast
    moreover obtain c' where "ph (own g) = NArmed c'" "fd_of c' = g" using own [OF fg(2), of "own g"] by blast
    ultimately show "f = g" using fg(3) by simp
  qed
  have q: "queue_inv (\<lambda>p. \<exists>c. p = NPend c) (map own fs) ?ph"
    unfolding queue_inv_def
  proof (intro conjI allI)
    show "distinct (map own fs)" using df inj by (simp add: distinct_map)
    have n: "ph t \<noteq> NPend c" for t c using y(4) p by (auto simp: queue_inv_def)
    show "(t \<in> set (map own fs)) = (\<exists>c. ?ph t = NPend c)" for t
    proof
      assume "t \<in> set (map own fs)"
      then obtain fd where fd: "fd \<in> set fs" "own fd = t" by auto
      then show "\<exists>c. ?ph t = NPend c" using own [OF fd(1), of t] by auto
    next
      assume "\<exists>c. ?ph t = NPend c"
      then obtain c where c: "ph t = NArmed c" "fd_of c \<in> set fs" using n by auto
      then have "own (fd_of c) = t" using own [OF c(2), of t] by blast
      then show "t \<in> set (map own fs)" using c(2) by auto
    qed
  qed
  have ok: "ncall_ok ?z t (?ph t)" for t
  proof -
    have "ncall_ok ?z t (ph t)"
    proof (cases "nphase_call (ph t)")
      case None
      then show ?thesis by (cases "ph t") (simp_all add: ncall_ok_def)
    next
      case (Some c)
      show ?thesis by (rule ncall_ok_cong [OF Some]) (use y(9) [OF Some] y(12) [of t] in simp_all)
    qed
    then show ?thesis by (cases "ph t") (simp_all add: ncall_ok_def fetched_def)
  qed
  have "poll_ok ?z ?ph" unfolding poll_ok_def
  proof (intro conjI allI impI)
    show "\<exists>ev t c. reg (ep (nd ?z)) fd = Some (ev, t) \<and> ?ph t = NArmed c \<and> fd_of c = fd" if "armed (ep (nd ?z)) fd" for fd
      using y(1) [of fd] that z by auto
    show "armed (ep (nd ?z)) (fd_of c)" "\<exists>ev. reg (ep (nd ?z)) (fd_of c) = Some (ev, t)" if "?ph t = NArmed c" for t c
      using y(2) [of t c] that z by auto
    show "reg (ep (nd ?z)) (fd_of c) \<noteq> None" if "?ph t = NPend c" for t c using y(2,3) [of t c] that z by auto
  qed
  moreover have "queues_ok sched ?z ?ph" unfolding queues_ok_def using q z(2) y(5-8) by simp
  moreover have "fields_ok ?z ?ph" using r by (simp add: net_rep_def fields_ok_def)
  moreover have "tasks_ok ?z ?ph" unfolding tasks_ok_def using ok y(11,13) by simp
  ultimately show ?thesis unfolding F by (simp add: net_rep_def)
qed

lemma net_resume_rep:
  assumes r: "net_rep sched y ph" and q: "nready (nd y) w = t # ts"
  shows "\<exists>c. ph t = NReady c \<and> npcs y t = NAsleep c \<and> w = sched t \<and>
    net_rep sched (y\<lparr>nd := (nd y)\<lparr>nready := (nready (nd y))(w := ts), nwait := (nwait (nd y))(w := remove1 t (nwait (nd y) w))\<rparr>,
      npcs := (npcs y)(t := NUser), nlog := (nlog y)(t := nlog y t @ [entry y t c])\<rparr>) (ph(t := NIdle))"
proof -
  note y = net_repD [OF r]
  obtain c where c: "ph t = NReady c" "sched t = w" using y(6) [of t w] q by auto
  have nc: "nphase_call (ph t) = Some c" using c by simp
  have na: "\<not> armed (ep (nd y)) (fd_of c)" by (rule pend_not_armed [OF r nc]) (simp add: c)
  have ok: "entry_ok (entry y t c)" using y(12) [of t] c by (simp add: ncall_ok_def)
  let ?z = "y\<lparr>nd := (nd y)\<lparr>nready := (nready (nd y))(w := ts), nwait := (nwait (nd y))(w := remove1 t (nwait (nd y) w))\<rparr>,
      npcs := (npcs y)(t := NUser), nlog := (nlog y)(t := nlog y t @ [entry y t c])\<rparr>"
  have dt: "distinct (t # ts)" using y(5) [of w] q by simp
  have "net_rep sched ?z (ph(t := NIdle))"
  proof (rule net_rep_upd [OF r, where fd = "fd_of c"])
    show "queue_inv (\<lambda>p. \<exists>c. p = NPend c) (pend (nd ?z)) (ph(t := NIdle))" using queue_inv_cong [OF y(4), of NIdle t] c by simp
    show "u \<in> set (nready (nd ?z) v) \<longleftrightarrow> sched u = v \<and> (\<exists>c'. (ph(t := NIdle)) u = NReady c')" for v u
      using y(6) [of u v] q dt c(2) by (cases "v = w"; cases "u = t") auto
    show "u \<in> set (nwait (nd ?z) v) \<longleftrightarrow> sched u = v \<and> (ph(t := NIdle)) u \<noteq> NIdle" for v u
      using y(7) [of v] y(8) [of u v] c(2) by (cases "v = w"; cases "u = t") auto
    show "distinct (nwait (nd ?z) v)" "distinct (nready (nd ?z) v)" for v using y(5,7) [of v] dt by (auto split: if_splits)
    show "e \<in> set (nlog ?z t) \<Longrightarrow> entry_ok e" for e using y(13) [of e t] ok by auto
    show "u \<noteq> t \<Longrightarrow> nphase_call (ph u) = Some c' \<Longrightarrow> fd_of c' \<noteq> fd_of c" for u c' using y(10) [of u t c' c] nc by simp
  qed (use c na in \<open>auto simp: ncall_ok_def\<close>)
  then show ?thesis using c y(11) [of t] by auto
qed

lemma net_init_rep: "net_rep sched (net_init s) (\<lambda>_. NIdle)"
  by (simp add: net_rep_def poll_ok_def queues_ok_def fields_ok_def tasks_ok_def net_init_def queue_inv_def ncall_ok_def)

lemma quiet_rep:
  assumes r: "net_rep sched y ph" and z: "nd z = (nd y)\<lparr>nio := (nio (nd y))(t := m), nheap := s\<rparr>" "npcs z = npcs y" "base z = base y" "data z = data y" "nlog z = nlog y"
    and t: "ph t = NIdle" and s: "\<And>u. ph u \<noteq> NIdle \<Longrightarrow> \<forall>a \<in> io_area (nio (nd y) u). hbytes s a = hbytes (nheap (nd y)) a"
  shows "net_rep sched z ph"
proof -
  note y = net_repD [OF r]
  have "net_rep sched z (ph(t := NIdle))"
  proof (rule net_rep_upd [OF r, where fd = "- (2 ^ 40)"])
    have fd: "fd_of c \<noteq> - (2 ^ 40)" for c by (cases c) (auto simp: to_int32_def algebra_simps dest!: arg_cong [where f = "\<lambda>x. x + 2 ^ 31"])
    then show "nphase_call (ph u) = Some c \<Longrightarrow> fd_of c \<noteq> - (2 ^ 40)" for u c by blast
    show na: "armed (ep (nd z)) (- (2 ^ 40)) \<longleftrightarrow> (\<exists>c. NIdle = NArmed c)" using y(1) [of "- (2 ^ 40)"] fd z(1) by auto
    then show "armed (ep (nd z)) (- (2 ^ 40)) \<Longrightarrow> \<exists>ev. reg (ep (nd z)) (- (2 ^ 40)) = Some (ev, t)" by simp
    show "queue_inv (\<lambda>p. \<exists>c. p = NPend c) (pend (nd z)) (ph(t := NIdle))" using y(4) t z(1) fun_upd_triv [of ph t] by simp
    show "u \<in> set (nready (nd z) w) \<longleftrightarrow> sched u = w \<and> (\<exists>c. (ph(t := NIdle)) u = NReady c)" for w u using y(6) [of u w] t z(1) by auto
    show "u \<in> set (nwait (nd z) w) \<longleftrightarrow> sched u = w \<and> (ph(t := NIdle)) u \<noteq> NIdle" for w u using y(8) [of u w] t z(1) by auto
    show "distinct (nready (nd z) w)" "distinct (nwait (nd z) w)" for w using y(5,7) [of w] z(1) by simp_all
    show "npcs z t = (case nphase_call NIdle of None \<Rightarrow> NUser | Some c \<Rightarrow> NAsleep c)" using y(11) [of t] t z(2) by simp
    show "e \<in> set (nlog z t) \<Longrightarrow> entry_ok e" for e using y(13) [of e t] z(5) by simp
  qed (use z t s in \<open>auto simp: ncall_ok_def\<close>)
  moreover have "ph(t := NIdle) = ph" using t by auto
  ultimately show ?thesis by simp
qed

section \<open>Reachable states\<close>

lemma nstep_rep:
  assumes "nstep sched True y z" and r: "net_rep sched y ph"
  shows "\<exists>ph'. net_rep sched z ph'"
  using assms(1)
proof (cases rule: nstep_cases)
  case (call t c sys d)
  have "ph t = NIdle" using call(2) net_repD(11) [OF r, of t] by (cases "ph t") simp_all
  then show ?thesis using net_call_rep [OF r] call by blast
next
  case (refused t c sys d)
  have i: "ph t = NIdle" using refused(2) net_repD(11) [OF r, of t] by (cases "ph t") simp_all
  obtain m where "d = (nd y)\<lparr>nio := (nio (nd y))(t := m)\<rparr>" using net_begin_refused [OF refused(3)] by blast
  then have "nd z = (nd y)\<lparr>nio := (nio (nd y))(t := m), nheap := nheap (nd y)\<rparr>" using refused(1) by simp
  then have "net_rep sched z ph" by (rule quiet_rep [OF r _ _ _ _ _ i]) (simp_all add: refused(1))
  then show ?thesis by blast
next
  case (poll evs es p)
  then show ?thesis using poll_rep [OF r] by blast
next
  case (event t ts x d)
  then show ?thesis using event_rep [OF r] by blast
next
  case (resume w t ts c)
  obtain c' where c': "npcs y t = NAsleep c'"
    "net_rep sched (y\<lparr>nd := (nd y)\<lparr>nready := (nready (nd y))(w := ts), nwait := (nwait (nd y))(w := remove1 t (nwait (nd y) w))\<rparr>,
      npcs := (npcs y)(t := NUser), nlog := (nlog y)(t := nlog y t @ [entry y t c'])\<rparr>) (ph(t := NIdle))"
    using net_resume_rep [OF r resume(2)] by blast
  then show ?thesis using resume(1,3) by auto
next
  case (other s)
  have h: "\<forall>a \<in> io_area (nio (nd y) u). hbytes s a = hbytes (nheap (nd y)) a" if "ph u \<noteq> NIdle" for u
  proof -
    have "npcs y u \<noteq> NUser" using that net_repD(11) [OF r, of u] by (cases "ph u") simp_all
    then show ?thesis using other(2) by blast
  qed
  note y = net_repD [OF r]
  have "ncall_ok z t (ph t)" for t
  proof (cases "nphase_call (ph t)")
    case None
    then show ?thesis by (cases "ph t") (simp_all add: ncall_ok_def)
  next
    case (Some c)
    have "ph t \<noteq> NIdle" using Some by auto
    note hb = h [OF this]
    show ?thesis by (rule ncall_ok_cong [OF Some, where y = y]) (use y(9) [OF Some] y(12) [of t] hb in \<open>simp_all add: other(1)\<close>)
  qed
  then have "tasks_ok z ph" unfolding tasks_ok_def using y(11,13) other(1) by simp
  moreover have "poll_ok z ph" "queues_ok sched z ph" "fields_ok z ph"
    using r by (simp_all add: net_rep_def other(1)) (simp_all add: poll_ok_def queues_ok_def fields_ok_def)
  ultimately have "net_rep sched z ph" by (simp add: net_rep_def)
  then show ?thesis by blast
qed

lemma nreach_rep: "nreach sched True (net_init s) n y \<Longrightarrow> \<exists>ph. net_rep sched y ph"
  by (induction rule: nreach.induct) (use net_init_rep nstep_rep in blast)+

lemma nreach_trans: "nreach sched ex b m c \<Longrightarrow> nreach sched ex a n b \<Longrightarrow> nreach sched ex a (n + m) c"
  by (induction rule: nreach.induct) (auto intro: nreach.intros)

lemma nreach_step: "nstep sched ex a b \<Longrightarrow> nreach sched ex b m c \<Longrightarrow> nreach sched ex a (Suc m) c"
  using nreach_trans [of sched ex b m c a 1] nreach.move [OF nreach.start] by fastforce

text \<open>Every sleeping task can be resumed, for instance when the system reports errors from now on.\<close>

definition returns_from :: "(tid \<Rightarrow> nat) \<Rightarrow> tid \<Rightarrow> nsys \<Rightarrow> bool" where
  "returns_from sched t y \<longleftrightarrow> (\<exists>m z. nreach sched True y m z \<and> npcs z t = NUser \<and> length (nlog z t) = Suc (length (nlog y t)))"

lemma returns_step: "nstep sched True y z \<Longrightarrow> nlog z t = nlog y t \<Longrightarrow> returns_from sched t z \<Longrightarrow> returns_from sched t y"
  unfolding returns_from_def using nreach_step by fastforce

lemma ready_returns_net: "net_rep sched y ph \<Longrightarrow> nready (nd y) w = us @ t # ts \<Longrightarrow> returns_from sched t y"
proof (induction us arbitrary: y ph)
  case Nil
  obtain c where c: "npcs y t = NAsleep c" using net_resume_rep [OF Nil.prems(1)] Nil.prems(2) by fastforce
  have n: "nready (nd y) w = t # ts" using Nil.prems(2) by simp
  have s: "nstep sched True y (y\<lparr>nd := (nd y)\<lparr>nready := (nready (nd y))(w := ts), nwait := (nwait (nd y))(w := remove1 t (nwait (nd y) w))\<rparr>,
      npcs := (npcs y)(t := NUser), nlog := (nlog y)(t := nlog y t @ [entry y t c])\<rparr>)" (is "nstep _ _ _ ?z") by (rule nstep.resume [OF n c])
  have "nreach sched True y 1 ?z" using nreach.move [OF nreach.start s] by simp
  then show ?case unfolding returns_from_def by (intro exI [of _ 1] exI [of _ ?z]) simp
next
  case (Cons u us)
  have n: "nready (nd y) w = u # us @ t # ts" using Cons.prems(2) by simp
  let ?z = "\<lambda>c. y\<lparr>nd := (nd y)\<lparr>nready := (nready (nd y))(w := us @ t # ts), nwait := (nwait (nd y))(w := remove1 u (nwait (nd y) w))\<rparr>,
      npcs := (npcs y)(u := NUser), nlog := (nlog y)(u := nlog y u @ [entry y u c])\<rparr>"
  obtain c where c: "npcs y u = NAsleep c" "net_rep sched (?z c) (ph(u := NIdle))" using net_resume_rep [OF Cons.prems(1) n] by blast
  have "u \<noteq> t" using net_repD(5) [OF Cons.prems(1), of w] n by auto
  then show ?case using returns_step [OF nstep.resume [OF n c(1)], of t] Cons.IH [OF c(2)] by simp
qed

text \<open>An event for the first fetched task with an error as the reply makes this task ready.\<close>

lemma error_event:
  assumes r: "net_rep sched y ph" and p: "pend (nd y) = t # ts"
  obtains d ph' where "nstep sched True y (y\<lparr>nd := d\<rparr>)" "net_rep sched (y\<lparr>nd := d\<rparr>) ph'" "pend d = ts" "nready d (sched t) = nready (nd y) (sched t) @ [t]"
    "\<forall>u. u \<noteq> t \<longrightarrow> ph' u = ph u"
proof -
  obtain c where c: "ph t = NPend c" by (rule pend_hd [OF r p])
  have ip: "in_progress y t c" using net_repD(12) [OF r, of t] c by (simp add: ncall_ok_def)
  have n: "0 \<le> req_n (nio (nd y) t)" using net_repD(9) [OF r, of t c] c by simp
  define x where "x = (case c of Net_accept f \<Rightarrow> RAccept (Inl 5) | Net_read f b n \<Rightarrow> RRecv (Inl 5) | Net_write f b n \<Rightarrow> RSend (Inl 5))"
  have k: "reply_ok (nio (nd y) t) x" by (cases c) (simp_all add: x_def)
  obtain d where d: "netio_worker sched t x ((nd y)\<lparr>pend := ts\<rparr>) = Some d" "pend d = ts" "nready d (sched t) = nready (nd y) (sched t) @ [t]"
    using ip n by (cases c) (simp_all add: x_def in_progress_def netio_worker_def handle_accept_def handle_read_def handle_write_def wake_def Let_def)
  obtain q where "net_rep sched (y\<lparr>nd := d\<rparr>) (ph(t := q))" using event_rep [OF r p k d(1)] by blast
  then show thesis using that [OF nstep.event [OF p k d(1)] _ d(2,3)] by auto
qed

lemma pend_returns: "net_rep sched y ph \<Longrightarrow> pend (nd y) = us @ t # ts \<Longrightarrow> returns_from sched t y"
proof (induction us arbitrary: y ph)
  case Nil
  have p: "pend (nd y) = t # ts" using Nil.prems(2) by simp
  obtain d ph' where d: "nstep sched True y (y\<lparr>nd := d\<rparr>)" "net_rep sched (y\<lparr>nd := d\<rparr>) ph'" "nready d (sched t) = nready (nd y) (sched t) @ [t]"
    by (rule error_event [OF Nil.prems(1) p])
  have "returns_from sched t (y\<lparr>nd := d\<rparr>)" by (rule ready_returns_net [OF d(2), where w = "sched t" and us = "nready (nd y) (sched t)" and ts = "[]"]) (simp add: d(3))
  then show ?case by (rule returns_step [OF d(1), rotated]) simp
next
  case (Cons u us)
  have p: "pend (nd y) = u # us @ t # ts" using Cons.prems(2) by simp
  obtain d ph' where d: "nstep sched True y (y\<lparr>nd := d\<rparr>)" "net_rep sched (y\<lparr>nd := d\<rparr>) ph'" "pend d = us @ t # ts"
    by (rule error_event [OF Cons.prems(1) p])
  have "returns_from sched t (y\<lparr>nd := d\<rparr>)" by (rule Cons.IH [OF d(2)]) (simp add: d(3))
  then show ?case by (rule returns_step [OF d(1), rotated]) simp
qed

lemma armed_returns: "net_rep sched y ph \<Longrightarrow> ph t = NArmed c \<Longrightarrow> returns_from sched t y"
proof (induction "pend (nd y)" arbitrary: y ph)
  case Nil
  note y = net_repD [OF Nil.prems(1)]
  have a: "armed (ep (nd y)) (fd_of c)" "\<exists>ev. reg (ep (nd y)) (fd_of c) = Some (ev, t)" using y(2) [OF Nil.prems(2)] by simp_all
  obtain es p where e: "netpoll_wait 128 [(fd_of c, 1)] (ep (nd y)) = (es, p)" by (cases "netpoll_wait 128 [(fd_of c, 1)] (ep (nd y))")
  have es: "map ev_ud es = [t]" using e a(2) by (auto simp: netpoll_wait_def Let_def)
  have h: "pend (nd y) = []" "distinct (map fst [(fd_of c, 1 :: 32 word)])" "\<forall>fd \<in> fst ` set [(fd_of c, 1 :: 32 word)]. armed (ep (nd y)) fd" using Nil.hyps a by simp_all
  let ?z = "y\<lparr>nd := (nd y)\<lparr>ep := p, pend := map ev_ud es\<rparr>\<rparr>"
  have "returns_from sched t ?z" by (rule pend_returns [OF poll_rep [OF Nil.prems(1) h e], where us = "[]" and ts = "[]"]) (simp add: es)
  then show ?case by (rule returns_step [OF nstep.poll [OF h e], rotated]) simp
next
  case (Cons u us)
  have p: "pend (nd y) = u # us" using Cons.hyps(2) by simp
  obtain d ph' where d: "nstep sched True y (y\<lparr>nd := d\<rparr>)" "net_rep sched (y\<lparr>nd := d\<rparr>) ph'" "pend d = us" "\<forall>v. v \<noteq> u \<longrightarrow> ph' v = ph v"
    by (rule error_event [OF Cons.prems(1) p])
  obtain c' where "ph u = NPend c'" by (rule pend_hd [OF Cons.prems(1) p])
  then have "t \<noteq> u" using Cons.prems(2) by auto
  then have "ph' t = NArmed c" using d(4) Cons.prems(2) by simp
  then have "returns_from sched t (y\<lparr>nd := d\<rparr>)" by (intro Cons.hyps(1) [OF _ d(2)]) (simp_all add: d(3))
  then show ?case by (rule returns_step [OF d(1), rotated]) simp
qed

lemma net_asleep_returns:
  assumes r: "net_rep sched y ph" and p: "npcs y t = NAsleep c"
  shows "returns_from sched t y"
proof (cases "ph t")
  case NIdle
  then show ?thesis using p net_repD(11) [OF r, of t] by simp
next
  case (NArmed c')
  then show ?thesis by (rule armed_returns [OF r])
next
  case (NPend c')
  then have "t \<in> set (pend (nd y))" using net_repD(4) [OF r] by (simp add: queue_inv_def)
  then show ?thesis using pend_returns [OF r] by (auto dest: split_list)
next
  case (NReady c')
  then have "t \<in> set (nready (nd y) (sched t))" using net_repD(6) [OF r, of t] by simp
  then show ?thesis using ready_returns_net [OF r] by (auto dest: split_list)
qed

end
