(* ===== verification/NetioProps.thy ===== *)
theory NetioProps
  imports NetioSteps AllocProps
begin

unbundle bit_operations_syntax

text \<open>
  Properties of the network I/O: what finished calls have transferred, that no call is stuck as long as
  a descriptor is used by one task at a time, and what happens otherwise.
\<close>

text \<open>A memory with a buffer header at 32, and a task that writes three bytes.\<close>

definition demo_net :: nsys where
  "demo_net = net_init (demo_boot\<lparr>hmem := (\<lambda>_. 0)(32 := 2000)\<rparr>)"

definition demo_write :: ncall where
  "demo_write = Net_write 5 32 3"

definition demo_net1 :: nsys where
  "demo_net1 = begin_call 1 demo_write demo_net (fst (net_begin (\<lambda>t. t mod 4) 1 demo_write None (nd demo_net)))"

lemma demo_net1: "nstep (\<lambda>t. t mod 4) True demo_net demo_net1" "npcs demo_net1 1 = NAsleep demo_write" "npcs demo_net1 2 = NUser"
  "armed (ep (nd demo_net1)) 5" "nlog demo_net1 1 = []" "reg (ep (nd demo_net1)) 5 \<noteq> None"
proof -
  have b: "net_begin (\<lambda>t. t mod 4) 1 demo_write None (nd demo_net) = (fst (net_begin (\<lambda>t. t mod 4) 1 demo_write None (nd demo_net)), True)"
    by (simp add: demo_net_def demo_write_def net_init_def net_write_begin_def net_block_def netpoll_add_def to_int32_def)
  show "nstep (\<lambda>t. t mod 4) True demo_net demo_net1"
    unfolding demo_net1_def by (rule nstep.call [OF _ _ _ _ _ b]) (simp_all add: demo_net_def demo_write_def net_init_def exclusive_def)
  show "npcs demo_net1 1 = NAsleep demo_write" "npcs demo_net1 2 = NUser" "armed (ep (nd demo_net1)) 5" "nlog demo_net1 1 = []" "reg (ep (nd demo_net1)) 5 \<noteq> None"
    by (simp_all add: demo_net1_def begin_call_def demo_net_def demo_write_def net_init_def net_write_begin_def net_block_def netpoll_add_def to_int32_def)
qed

lemma demo_reach: "nreach (\<lambda>t. t mod 4) True (net_init (demo_boot\<lparr>hmem := (\<lambda>_. 0)(32 := 2000)\<rparr>)) 1 demo_net1"
  using nreach.move [OF nreach.start demo_net1(1) [unfolded demo_net_def]] by simp

text \<open>
  C28: When no two tasks in a call share a descriptor or memory, every finished network call did what
  it reports, in all interleavings of tasks, worker and schedulers and with any partial transfers: a
  \<open>__public__net_write\<close> of \<open>k\<close> bytes returned \<open>k\<close> and exactly the bytes of its buffer, in order, were
  accepted on its descriptor, or it returned -1 and a prefix of them was; a \<open>__public__net_read\<close>
  returned the number of bytes delivered, at most \<open>k\<close>, and the buffer starts with exactly these bytes,
  or it returned -1 and none was delivered.
\<close>

theorem net_delivers:
  assumes "nreach sched True (net_init s) n y" "e \<in> set (nlog y t)"
  shows "case e_call e of
       Net_accept fd \<Rightarrow> - 1 \<le> e_res e
     | Net_read fd buf k \<Rightarrow> e_res e = int (length (e_moved e)) \<and> e_res e \<le> k \<and> e_buf e = e_moved e \<or> e_res e = - 1 \<and> e_moved e = []
     | Net_write fd buf k \<Rightarrow> length (e_data e) = nat k \<and> (e_res e = k \<and> e_moved e = e_data e \<or> e_res e = - 1 \<and> (\<exists>j. e_moved e = take j (e_data e)))"
proof -
  obtain ph where "net_rep sched y ph" using nreach_rep [OF assms(1)] by blast
  then show ?thesis using net_repD(13) [OF _ assms(2)] by (simp add: entry_ok_def)
qed

theorem net_delivers_witness:
  "\<exists>m y e. nreach (\<lambda>t. t mod 4) True (net_init (demo_boot\<lparr>hmem := (\<lambda>_. 0)(32 := 2000)\<rparr>)) m y \<and> nlog y 1 = [e] \<and>
    (case e_call e of
       Net_accept fd \<Rightarrow> - 1 \<le> e_res e
     | Net_read fd buf k \<Rightarrow> e_res e = int (length (e_moved e)) \<and> e_res e \<le> k \<and> e_buf e = e_moved e \<or> e_res e = - 1 \<and> e_moved e = []
     | Net_write fd buf k \<Rightarrow> length (e_data e) = nat k \<and> (e_res e = k \<and> e_moved e = e_data e \<or> e_res e = - 1 \<and> (\<exists>j. e_moved e = take j (e_data e))))"
proof -
  obtain ph where "net_rep (\<lambda>t. t mod 4) demo_net1 ph" using nreach_rep [OF demo_reach] by blast
  then obtain m z where z: "nreach (\<lambda>t. t mod 4) True demo_net1 m z" "length (nlog z 1) = 1"
    using net_asleep_returns [OF _ demo_net1(2)] demo_net1(5) unfolding returns_from_def by fastforce
  then obtain e where e: "nlog z 1 = [e]" by (auto simp: length_Suc_conv)
  have r: "nreach (\<lambda>t. t mod 4) True (net_init (demo_boot\<lparr>hmem := (\<lambda>_. 0)(32 := 2000)\<rparr>)) (1 + m) z" by (rule nreach_trans [OF z(1) demo_reach])
  show ?thesis using net_delivers [OF r, of e 1] e r by auto
qed

text \<open>
  C29: Under the same condition no network call is stuck: from every reachable state in which a task
  sleeps in a call, the call can return.
\<close>

theorem net_no_stuck:
  assumes "nreach sched True (net_init s) n y" "npcs y t = NAsleep c"
  shows "\<exists>m z. nreach sched True y m z \<and> npcs z t = NUser \<and> length (nlog z t) = Suc (length (nlog y t))"
  using nreach_rep [OF assms(1)] net_asleep_returns [OF _ assms(2)] by (auto simp: returns_from_def)

theorem net_no_stuck_witness: "\<exists>m z. nreach (\<lambda>t. t mod 4) True demo_net1 m z \<and> npcs z 1 = NUser \<and> length (nlog z 1) = 1"
  using net_no_stuck [OF demo_reach demo_net1(2)] demo_net1(5) by simp

text \<open>
  The flags of the poller and of \<open>epoll\<close>: the translation is injective on the flags, the four event flags
  come back, and the one-shot flag is set for the system exactly when it was asked for.
\<close>

lemma and_bit: "(ev :: 32 word) AND 1 \<noteq> 0 \<longleftrightarrow> bit ev 0" "ev AND 2 \<noteq> 0 \<longleftrightarrow> bit ev 1" "ev AND 4 \<noteq> 0 \<longleftrightarrow> bit ev 2" "ev AND 8 \<noteq> 0 \<longleftrightarrow> bit ev 3"
  "ev AND 16 \<noteq> 0 \<longleftrightarrow> bit ev 4" "ev AND 1073741824 \<noteq> 0 \<longleftrightarrow> bit ev 30"
proof -
  have p: "(ev AND 2 ^ n \<noteq> 0) = bit ev n" for n using and_exp_eq_0_iff_not_bit [of ev n] by blast
  show "ev AND 1 \<noteq> 0 \<longleftrightarrow> bit ev 0" "ev AND 2 \<noteq> 0 \<longleftrightarrow> bit ev 1" "ev AND 4 \<noteq> 0 \<longleftrightarrow> bit ev 2" "ev AND 8 \<noteq> 0 \<longleftrightarrow> bit ev 3"
    "ev AND 16 \<noteq> 0 \<longleftrightarrow> bit ev 4" "ev AND 1073741824 \<noteq> 0 \<longleftrightarrow> bit ev 30"
    using p [of 0] p [of 1] p [of 2] p [of 3] p [of 4] p [of 30] by simp_all
qed

lemma epoll_events_roundtrip: "from_epoll_events (to_epoll_events ev) = ev AND 15" "to_epoll_events ev AND 1073741824 \<noteq> 0 \<longleftrightarrow> ev AND 16 \<noteq> 0"
proof -
  have m: "ev AND 15 = (if bit ev 0 then 1 else 0 :: 32 word) OR (if bit ev 1 then 2 else 0 :: 32 word) OR (if bit ev 2 then 4 else 0 :: 32 word) OR (if bit ev 3 then 8 else 0 :: 32 word)"
  proof (rule bit_word_eqI)
    fix n assume n: "n < LENGTH(32)"
    have "bit (15 :: 32 word) n \<longleftrightarrow> n < 4" using n bit_mask_iff [of 4 n, where ?'a = "32 word"] by (simp add: mask_eq_exp_minus_1)
    moreover have "bit (1 :: 32 word) n \<longleftrightarrow> n = 0" "bit (2 :: 32 word) n \<longleftrightarrow> n = 1" "bit (4 :: 32 word) n \<longleftrightarrow> n = 2" "bit (8 :: 32 word) n \<longleftrightarrow> n = 3"
      using n bit_exp_iff [of 0 n, where ?'a = "32 word"] bit_exp_iff [of 1 n, where ?'a = "32 word"] bit_exp_iff [of 2 n, where ?'a = "32 word"]
        bit_exp_iff [of 3 n, where ?'a = "32 word"] by auto
    ultimately show "bit (ev AND 15) n = bit ((if bit ev 0 then 1 else 0 :: 32 word) OR (if bit ev 1 then 2 else 0 :: 32 word) OR (if bit ev 2 then 4 else 0 :: 32 word) OR (if bit ev 3 then 8 else 0 :: 32 word)) n"
      unfolding bit_and_iff bit_or_iff if_distrib [where f = "\<lambda>x. bit x n"] bit_0_eq bot_apply bot_bool_def by auto
  qed
  show "from_epoll_events (to_epoll_events ev) = ev AND 15"
    unfolding m from_epoll_events_def to_epoll_events_def Let_def and_bit
    by (cases "bit ev 0"; cases "bit ev 1"; cases "bit ev 2"; cases "bit ev 3"; cases "bit ev 4") simp_all
  show "to_epoll_events ev AND 1073741824 \<noteq> 0 \<longleftrightarrow> ev AND 16 \<noteq> 0"
    unfolding to_epoll_events_def Let_def and_bit
    by (cases "bit ev 0"; cases "bit ev 1"; cases "bit ev 2"; cases "bit ev 3"; cases "bit ev 4") simp_all
qed

section \<open>Two tasks on one descriptor\<close>

text \<open>
  No event can reach the task \<open>t\<close>: the worker has fetched none, no armed descriptor belongs to it, and
  it is on no ready queue.
\<close>

definition unknown :: "tid \<Rightarrow> net \<Rightarrow> bool" where
  "unknown t d \<longleftrightarrow> t \<notin> set (pend d) \<and> (\<forall>w. t \<notin> set (nready d w)) \<and> (\<forall>fd. armed (ep d) fd \<longrightarrow> (\<exists>ev u. reg (ep d) fd = Some (ev, u) \<and> u \<noteq> t))"

definition lost :: "tid \<Rightarrow> ncall \<Rightarrow> nsys \<Rightarrow> bool" where
  "lost t c y \<longleftrightarrow> npcs y t = NAsleep c \<and> unknown t (nd y)"

lemma unknown_mod: "unknown t d \<Longrightarrow> u \<noteq> t \<Longrightarrow> ep d' = snd (netpoll_mod fd ev u (ep d)) \<Longrightarrow> pend d' = pend d \<Longrightarrow> nready d' = nready d \<Longrightarrow> unknown t d'"
  by (auto simp: unknown_def netpoll_mod_def)

lemma unknown_del: "unknown t d \<Longrightarrow> ep d' = snd (netpoll_del fd (ep d)) \<Longrightarrow> pend d' = pend d \<Longrightarrow> nready d' = nready d \<Longrightarrow> unknown t d'"
  by (auto simp: unknown_def netpoll_del_def split: if_splits)

lemma unknown_same: "unknown t d \<Longrightarrow> ep d' = ep d \<Longrightarrow> pend d' = pend d \<Longrightarrow> nready d' = nready d \<Longrightarrow> unknown t d'"
  by (simp add: unknown_def)

lemma unknown_wake: "unknown t d \<Longrightarrow> u \<noteq> t \<Longrightarrow> unknown t (wake sched u d)"
  by (auto simp: unknown_def wake_def Let_def)

lemma unknown_worker:
  assumes d: "unknown t d" and u: "u \<noteq> t" and w: "netio_worker sched u r d = Some d'"
  shows "unknown t d'"
proof -
  define d0 where "d0 = upd_io u (\<lambda>m. m\<lparr>io_err := 0\<rparr>) d"
  have d0: "unknown t d0" by (rule unknown_same [OF d]) (simp_all add: d0_def)
  note k = unknown_wake [OF unknown_del [OF d0] u] unknown_wake [OF unknown_same [OF d0] u] unknown_mod [OF d0 u]
  note w' = w [unfolded netio_worker_def, folded d0_def, unfolded Let_def]
  show ?thesis
  proof (cases r)
    case (RConnect v)
    then have "d' = d0 \<or> d' = handle_connect sched u v d0" using w' by (cases "io_op (nio d0 u)") simp_all
    then show ?thesis using d0 k by (auto simp: handle_connect_def Let_def split: sum.splits)
  next
    case (RAccept v)
    then have "d' = d0 \<or> d' = handle_accept sched u v d0" using w' by (cases "io_op (nio d0 u)") simp_all
    then show ?thesis using d0 k by (auto simp: handle_accept_def Let_def split: sum.splits)
  next
    case (RRecv v)
    then have "d' = d0 \<or> handle_read sched u v d0 = Some d'" using w' by (cases "io_op (nio d0 u)") simp_all
    then show ?thesis using d0 k by (auto simp: handle_read_def Let_def split: sum.splits if_splits)
  next
    case (RSend v)
    then have "d' = d0 \<or> d' = handle_write sched u v d0" using w' by (cases "io_op (nio d0 u)") simp_all
    then show ?thesis using d0 k by (auto simp: handle_write_def Let_def split: sum.splits if_splits)
  qed
qed

lemma unknown_begin:
  assumes d: "unknown t d" and u: "u \<noteq> t" and b: "net_begin sched u c sys d = (d', bl)" and s: "sys \<noteq> Some EEXIST"
  shows "unknown t d'"
proof (cases bl)
  case True
  have b': "net_begin sched u c sys d = (d', True)" using b True by simp
  obtain ev m where "d' = d\<lparr>ep := (ep d)\<lparr>reg := (reg (ep d))(fd_of c \<mapsto> (ev, u)), armed := (armed (ep d))(fd_of c := True)\<rparr>,
      nwait := (nwait d)(sched u := u # nwait d (sched u)), nio := (nio d)(u := m)\<rparr>"
    by (rule net_begin_blocks [OF b' s])
  then show ?thesis using d u by (auto simp: unknown_def)
next
  case False
  then show ?thesis using net_begin_refused [of sched u c sys d d'] b d by (auto simp: unknown_def)
qed

lemma lost_step:
  assumes "nstep sched False y z" and l: "lost t c y"
  shows "lost t c z"
proof -
  have p: "npcs y t = NAsleep c" and k: "unknown t (nd y)" using l by (simp_all add: lost_def)
  show ?thesis using assms(1)
  proof (cases rule: nstep_cases)
    case (call u c' sys d)
    have u: "u \<noteq> t" using call(2) p by auto
    then show ?thesis using unknown_begin [OF k u call(7,5)] p call(1) by (simp add: lost_def begin_call_def)
  next
    case (refused u c' sys d)
    have u: "u \<noteq> t" using refused(2) p by auto
    have "unknown t d" using net_begin_refused [OF refused(3)] k by (auto simp: unknown_def)
    then show ?thesis using p refused(1) by (simp add: lost_def)
  next
    case (poll evs es p')
    have "t \<noteq> snd (the (reg (ep (nd y)) fd))" if "fd \<in> fst ` set evs" for fd
    proof -
      have "armed (ep (nd y)) fd" using poll(4) that by blast
      then show ?thesis using k by (auto simp: unknown_def)
    qed
    then have "t \<notin> set (map ev_ud es)" using poll(5) set_take_subset [of 128 evs] by (fastforce simp: netpoll_wait_def Let_def)
    moreover have "reg p' = reg (ep (nd y))" "\<And>fd. armed p' fd \<Longrightarrow> armed (ep (nd y)) fd" using poll(5) by (auto simp: netpoll_wait_def epoll_report_def Let_def)
    ultimately show ?thesis using k p poll(1) by (auto simp: lost_def unknown_def)
  next
    case (event u ts x d)
    have u: "u \<noteq> t" using k event(2) by (auto simp: unknown_def)
    have "unknown t ((nd y)\<lparr>pend := ts\<rparr>)" using k event(2) by (auto simp: unknown_def)
    then show ?thesis using unknown_worker [OF _ u event(4)] p event(1) by (simp add: lost_def)
  next
    case (resume w u ts c')
    have q: "t \<notin> set (nready (nd y) v)" for v using k by (simp add: unknown_def)
    then have u: "u \<noteq> t" "t \<notin> set ts" using resume(2) q [of w] by auto
    then show ?thesis using k p resume(1) q by (auto simp: lost_def unknown_def)
  next
    case (other s)
    then show ?thesis using k p by (simp add: lost_def unknown_def)
  qed
qed

lemma lost_reach: "nreach sched False y n z \<Longrightarrow> lost t c y \<Longrightarrow> lost t c z"
  by (induction rule: nreach.induct) (auto intro: lost_step)

text \<open>
  C30: A descriptor cannot be read and written at the same time: when a task waits for an event on a
  descriptor and another task begins a call on the same descriptor, the registration is replaced, and
  the first task sleeps in every state that can follow.
\<close>

theorem net_registration_lost:
  assumes "nreach sched True (net_init s) n y" "npcs y t = NAsleep c" "armed (ep (nd y)) (fd_of c)" "npcs y u = NUser" "fd_of c' = fd_of c"
    "0 \<le> amount c'" "amount c' < 2 ^ 63" "nreach sched False (begin_call u c' y (fst (net_begin sched u c' None (nd y)))) m z"
  shows "nstep sched False y (begin_call u c' y (fst (net_begin sched u c' None (nd y)))) \<and> npcs z t = NAsleep c"
proof -
  obtain ph where r: "net_rep sched y ph" using nreach_rep [OF assms(1)] by blast
  note y = net_repD [OF r]
  have nc: "nphase_call (ph t) = Some c" using y(11) [of t] assms(2) by (auto split: option.splits)
  have ph: "ph t = NArmed c" using pend_not_armed [OF r nc] assms(3) by blast
  have ut: "u \<noteq> t" using assms(2,4) by auto
  have rg: "reg (ep (nd y)) (fd_of c') \<noteq> None" using y(2) [OF ph] assms(5) by auto
  let ?d = "fst (net_begin sched u c' None (nd y))" and ?z = "begin_call u c' y (fst (net_begin sched u c' None (nd y)))"
  have b: "net_begin sched u c' None (nd y) = (?d, True)"
    using rg by (cases c') (simp_all add: net_accept_begin_def net_read_begin_def net_write_begin_def net_block_def netpoll_add_def)
  have s: "nstep sched False y ?z" by (rule nstep.call [OF _ _ _ _ _ b]) (use assms in simp_all)
  obtain ev k where d: "?d = (nd y)\<lparr>ep := (ep (nd y))\<lparr>reg := (reg (ep (nd y)))(fd_of c' \<mapsto> (ev, u)), armed := (armed (ep (nd y)))(fd_of c' := True)\<rparr>,
      nwait := (nwait (nd y))(sched u := u # nwait (nd y) (sched u)), nio := (nio (nd y))(u := k)\<rparr>" by (rule net_begin_blocks [OF b]) simp_all
  have "t \<notin> set (pend (nd y))" using y(4) ph by (simp add: queue_inv_def)
  moreover have "t \<notin> set (nready (nd y) w)" for w using y(6) [of t w] ph by simp
  moreover have "\<exists>ev v. reg (ep ?d) fd = Some (ev, v) \<and> v \<noteq> t" if a: "armed (ep ?d) fd" for fd
  proof (cases "fd = fd_of c")
    case True
    then show ?thesis using d ut assms(5) by simp
  next
    case False
    then have "armed (ep (nd y)) fd" "reg (ep ?d) fd = reg (ep (nd y)) fd" using a d assms(5) by simp_all
    then obtain ev v c'' where "reg (ep ?d) fd = Some (ev, v)" "ph v = NArmed c''" "fd_of c'' = fd" using y(1) [of fd] by auto
    then show ?thesis using ph False by auto
  qed
  ultimately have "unknown t ?d" using d by (simp add: unknown_def)
  then have "lost t c ?z" using assms(2) ut by (simp add: lost_def begin_call_def)
  then have "lost t c z" by (rule lost_reach [OF assms(8)])
  then show ?thesis using s by (simp add: lost_def)
qed

theorem net_registration_lost_witness:
  "\<exists>y z. nreach (\<lambda>t. t mod 4) True (net_init (demo_boot\<lparr>hmem := (\<lambda>_. 0)(32 := 2000)\<rparr>)) 1 y \<and> nstep (\<lambda>t. t mod 4) False y z \<and> npcs z 1 = NAsleep demo_write"
proof -
  have h: "armed (ep (nd demo_net1)) (fd_of demo_write)" "fd_of (Net_read 5 32 3) = fd_of demo_write" "0 \<le> amount (Net_read 5 32 3)" "amount (Net_read 5 32 3) < 2 ^ 63"
    using demo_net1(4) by (simp_all add: demo_write_def to_int32_def)
  show ?thesis using net_registration_lost [OF demo_reach demo_net1(2) h(1) demo_net1(3) h(2-4) nreach.start] demo_reach by blast
qed

end
