(* ===== verification/Sockets.thy ===== *)
theory Sockets
  imports Prelude
begin

unbundle bit_operations_syntax

text \<open>
  The two functions of \<^verbatim>\<open>src/runtime/src/netio.c\<close> that make sockets, \<open>__public__net_listen\<close> and \<open>__public__net_dial\<close>,
  on system calls that are a parameter. Both try the addresses of a name one after the other.
\<close>

section \<open>System calls\<close>

record addrinfo =
  ai_family :: int
  ai_socktype :: int
  ai_protocol :: int
  ai_addr :: "int list"

datatype fcmd = F_GETFL | F_SETFL int | F_GETFD | F_SETFD int

text \<open>Options with their values.\<close>

datatype sockopt = SO_REUSEADDR | SO_REUSEPORT | SO_RCVBUF int | SO_SNDBUF int | SO_KEEPALIVE | IPV6_V6ONLY | TCP_NODELAY
  | TCP_DEFER_ACCEPT int | TCP_FASTOPEN int

text \<open>
  \<open>'k\<close> is the state of the system. Calls that can fail return a negative number, \<open>getaddrinfo\<close> gives no list, and
  \<open>connect\<close>, \<open>netpoll_add\<close> and \<open>getsockopt\<close> report an error number. \<open>k_blocks\<close> is the allocation of the two blocks that
  hold the address, and \<open>k_await\<close> what happens until the poller reports the socket of a sleeping task.
\<close>

record 'k syscalls =
  k_getaddrinfo :: "int list \<Rightarrow> int list \<Rightarrow> bool \<Rightarrow> 'k \<Rightarrow> addrinfo list option \<times> 'k"
  k_freeaddrinfo :: "addrinfo list \<Rightarrow> 'k \<Rightarrow> 'k"
  k_socket :: "addrinfo \<Rightarrow> 'k \<Rightarrow> int \<times> 'k"
  k_fcntl :: "int \<Rightarrow> fcmd \<Rightarrow> 'k \<Rightarrow> int \<times> 'k"
  k_setsockopt :: "int \<Rightarrow> sockopt \<Rightarrow> 'k \<Rightarrow> 'k"
  k_bind :: "int \<Rightarrow> addrinfo \<Rightarrow> 'k \<Rightarrow> int \<times> 'k"
  k_listen :: "int \<Rightarrow> int \<Rightarrow> 'k \<Rightarrow> int \<times> 'k"
  k_connect :: "int \<Rightarrow> addrinfo \<Rightarrow> 'k \<Rightarrow> int option \<times> 'k"
  k_blocks :: "addrinfo \<Rightarrow> 'k \<Rightarrow> bool \<times> 'k"
  k_netpoll_add :: "int \<Rightarrow> 'k \<Rightarrow> int option \<times> 'k"
  k_netpoll_mod :: "int \<Rightarrow> 'k \<Rightarrow> 'k"
  k_netpoll_del :: "int \<Rightarrow> 'k \<Rightarrow> 'k"
  k_await :: "int \<Rightarrow> 'k \<Rightarrow> 'k"
  k_so_error :: "int \<Rightarrow> 'k \<Rightarrow> (int + int) \<times> 'k"
  k_close :: "int \<Rightarrow> 'k \<Rightarrow> 'k"

abbreviation (input) O_NONBLOCK :: int where "O_NONBLOCK \<equiv> 2048"
abbreviation (input) FD_CLOEXEC :: int where "FD_CLOEXEC \<equiv> 1"
abbreviation (input) AF_INET6 :: int where "AF_INET6 \<equiv> 10"
abbreviation (input) EINPROGRESS :: int where "EINPROGRESS \<equiv> 115"
abbreviation (input) E_EXIST :: int where "E_EXIST \<equiv> 17"
abbreviation (input) SOMAXCONN :: int where "SOMAXCONN \<equiv> 4096"

section \<open>Listening\<close>

record listen_args =
  backlog :: int
  close_on_exec :: bool
  reuse_addr :: bool
  reuse_port :: bool
  tcp_nodelay :: bool
  tcp_defer_accept :: int
  tcp_fastopen :: int
  keepalive :: bool
  rcvbuf :: int
  sndbuf :: int
  ipv6_only :: bool

definition when_set :: "bool \<Rightarrow> 'k syscalls \<Rightarrow> int \<Rightarrow> sockopt \<Rightarrow> 'k \<Rightarrow> 'k" where
  "when_set b K fd p k = (if b then k_setsockopt K fd p k else k)"

text \<open>\<open>fcntl\<close> reads the flags, adds one, and writes them back; whether both calls succeeded.\<close>

definition set_nonblock :: "'k syscalls \<Rightarrow> int \<Rightarrow> 'k \<Rightarrow> bool \<times> 'k" where
  "set_nonblock K fd k =
     (let (f, k) = k_fcntl K fd F_GETFL k in
      if f < 0 then (False, k)
      else let (r, k) = k_fcntl K fd (F_SETFL (f OR O_NONBLOCK)) k in (\<not> r < 0, k))"

definition set_cloexec :: "'k syscalls \<Rightarrow> int \<Rightarrow> 'k \<Rightarrow> bool \<times> 'k" where
  "set_cloexec K fd k =
     (let (f, k) = k_fcntl K fd F_GETFD k in
      if f < 0 then (False, k)
      else let (r, k) = k_fcntl K fd (F_SETFD (f OR FD_CLOEXEC)) k in (\<not> r < 0, k))"

text \<open>One address: the bound socket, or a negative number.\<close>

definition listen_try :: "'k syscalls \<Rightarrow> listen_args \<Rightarrow> addrinfo \<Rightarrow> 'k \<Rightarrow> int \<times> 'k" where
  "listen_try K a ai k =
     (let (fd, k) = k_socket K ai k in
      if fd < 0 then (fd, k)
      else
        let (b, k) = set_nonblock K fd k in
        if \<not> b then (- 1, k_close K fd k)
        else
          let (b, k) = (if close_on_exec a then set_cloexec K fd k else (True, k)) in
          if \<not> b then (- 1, k_close K fd k)
          else
            let k = when_set (reuse_addr a) K fd SO_REUSEADDR k;
                k = when_set (reuse_port a) K fd SO_REUSEPORT k;
                k = when_set (0 < rcvbuf a) K fd (SO_RCVBUF (rcvbuf a)) k;
                k = when_set (0 < sndbuf a) K fd (SO_SNDBUF (sndbuf a)) k;
                k = when_set (keepalive a) K fd SO_KEEPALIVE k;
                k = when_set (ai_family ai = AF_INET6 \<and> ipv6_only a) K fd IPV6_V6ONLY k;
                (r, k) = k_bind K fd ai k
            in if r = 0 then (fd, k) else (- 1, k_close K fd k))"

fun listen_loop :: "'k syscalls \<Rightarrow> listen_args \<Rightarrow> addrinfo list \<Rightarrow> int \<Rightarrow> 'k \<Rightarrow> int \<times> 'k" where
  "listen_loop K a [] fd k = (fd, k)"
| "listen_loop K a (ai # ais) fd k = (let (fd, k) = listen_try K a ai k in if fd < 0 then listen_loop K a ais fd k else (fd, k))"

text \<open>
  The name is cut to the 127 characters that fit the buffer; without one, all interfaces are used. \<open>port\<close> is
  the text of the port.
\<close>

definition net_listen :: "'k syscalls \<Rightarrow> int list option \<Rightarrow> int list \<Rightarrow> listen_args \<Rightarrow> 'k \<Rightarrow> int \<times> 'k" where
  "net_listen K addr port a k =
     (let host = (case addr of Some (c # cs) \<Rightarrow> take 127 (c # cs) | _ \<Rightarrow> [48, 46, 48, 46, 48, 46, 48]) in
      case k_getaddrinfo K host port True k of
        (None, k) \<Rightarrow> (- 1, k)
      | (Some ais, k) \<Rightarrow>
          let (fd, k) = listen_loop K a ais (- 1) k;
              k = k_freeaddrinfo K ais k
          in if fd < 0 then (- 1, k)
             else
               let k = when_set (tcp_nodelay a) K fd TCP_NODELAY k;
                   k = when_set (0 < tcp_defer_accept a) K fd (TCP_DEFER_ACCEPT (tcp_defer_accept a)) k;
                   k = when_set (0 < tcp_fastopen a) K fd (TCP_FASTOPEN (tcp_fastopen a)) k;
                   (r, k) = k_listen K fd (if 0 < backlog a then backlog a else SOMAXCONN) k
               in if r < 0 then (- 1, k_close K fd k) else (fd, k))"

section \<open>Connecting\<close>

text \<open>
  The worker thread, when the socket of a task that connects is reported: it reads the socket's error, and
  takes a socket with an error out of the poller. What it stores in the task, \<open>net_dial\<close> does not read.
\<close>

definition connect_event :: "'k syscalls \<Rightarrow> int \<Rightarrow> 'k \<Rightarrow> 'k" where
  "connect_event K fd k =
     (case k_so_error K fd k of
        (Inl e, k) \<Rightarrow> k_netpoll_del K fd k
      | (Inr err, k) \<Rightarrow> if err \<noteq> 0 then k_netpoll_del K fd k else k)"

text \<open>One address: \<open>Inr\<close> the socket that is returned, or \<open>Inl\<close> for the next address.\<close>

definition dial_try :: "'k syscalls \<Rightarrow> addrinfo \<Rightarrow> 'k \<Rightarrow> (unit + int) \<times> 'k" where
  "dial_try K ai k =
     (let (fd, k) = k_socket K ai k in
      if fd < 0 then (Inl (), k)
      else
        let (b, k) = set_nonblock K fd k in
        if \<not> b then (Inl (), k_close K fd k)
        else
          let (r, k) = k_fcntl K fd (F_SETFD FD_CLOEXEC) k in
          if r < 0 then (Inl (), k_close K fd k)
          else
            case k_connect K fd ai k of
              (None, k) \<Rightarrow> (Inr fd, k)
            | (Some e, k) \<Rightarrow>
                if e \<noteq> EINPROGRESS then (Inl (), k_close K fd k)
                else
                  let (b, k) = k_blocks K ai k in
                  if \<not> b then (Inl (), k_close K fd k)
                  else
                    let (add, k) = k_netpoll_add K fd k in
                    if add \<noteq> None \<and> add \<noteq> Some E_EXIST then (Inl (), k_close K fd k)
                    else
                      let k = (if add = None then k else k_netpoll_mod K fd k);
                          k = k_await K fd k;
                          k = connect_event K fd k
                      in case k_so_error K fd k of
                           (Inr err, k) \<Rightarrow> if err = 0 then (Inr fd, k) else (Inl (), k_close K fd k)
                         | (Inl e, k) \<Rightarrow> (Inl (), k_close K fd k))"

fun dial_loop :: "'k syscalls \<Rightarrow> addrinfo list \<Rightarrow> 'k \<Rightarrow> (unit + int) \<times> 'k" where
  "dial_loop K [] k = (Inl (), k)"
| "dial_loop K (ai # ais) k = (case dial_try K ai k of (Inr fd, k) \<Rightarrow> (Inr fd, k) | (Inl _, k) \<Rightarrow> dial_loop K ais k)"

definition net_dial :: "'k syscalls \<Rightarrow> int list \<Rightarrow> int list \<Rightarrow> 'k \<Rightarrow> int \<times> 'k" where
  "net_dial K addr port k =
     (case k_getaddrinfo K addr port False k of
        (None, k) \<Rightarrow> (- 1, k)
      | (Some ais, k) \<Rightarrow>
          (case dial_loop K ais k of
             (Inr fd, k) \<Rightarrow> (fd, k_freeaddrinfo K ais k)
           | (Inl _, k) \<Rightarrow> (- 1, k_freeaddrinfo K ais k)))"

section \<open>What the calls do\<close>

text \<open>
  \<open>socks k\<close> are the sockets the task has open, and what has been done to them; \<open>lists k\<close> is the number of address
  lists that are not freed. The hypothesis states the effect of every call on these, and of what it returns only
  the pending error of a socket: every call may fail. An attempt to connect that is in progress ends before the
  socket is reported, with a connection or with a pending error; reading the error (\<open>SO_ERROR\<close>) clears it.
\<close>

record sock =
  nonblock :: bool
  cloexec :: bool
  bound :: bool
  listening :: bool
  connecting :: bool
  connected :: bool
  so_err :: int

definition fresh_sock :: sock where
  "fresh_sock = \<lparr>nonblock = False, cloexec = False, bound = False, listening = False, connecting = False, connected = False, so_err = 0\<rparr>"

record 'k view =
  socks :: "'k \<Rightarrow> int \<Rightarrow> sock option"
  lists :: "'k \<Rightarrow> int"

definition upd_sock :: "(int \<Rightarrow> sock option) \<Rightarrow> int \<Rightarrow> (sock \<Rightarrow> sock) \<Rightarrow> int \<Rightarrow> sock option" where
  "upd_sock m fd f = m(fd := map_option f (m fd))"

fun fcntl_effect :: "fcmd \<Rightarrow> sock \<Rightarrow> sock" where
  "fcntl_effect (F_SETFL f) s = s\<lparr>nonblock := f AND O_NONBLOCK \<noteq> 0\<rparr>"
| "fcntl_effect (F_SETFD f) s = s\<lparr>cloexec := f AND FD_CLOEXEC \<noteq> 0\<rparr>"
| "fcntl_effect c s = s"

definition attempt_ends :: "int \<Rightarrow> sock \<Rightarrow> sock" where
  "attempt_ends e s =
     (if \<not> connecting s then s
      else if e = 0 then s\<lparr>connecting := False, connected := True\<rparr> else s\<lparr>connecting := False, so_err := e\<rparr>)"

definition effect :: "'k view \<Rightarrow> 'k \<Rightarrow> 'k \<Rightarrow> (int \<Rightarrow> sock option) \<Rightarrow> bool" where
  "effect V k k' m \<longleftrightarrow> socks V k' = m \<and> lists V k' = lists V k"

definition syscalls_ok :: "'k syscalls \<Rightarrow> 'k view \<Rightarrow> bool" where
  "syscalls_ok K V \<longleftrightarrow>
     (\<forall>h p b k r k'. k_getaddrinfo K h p b k = (r, k') \<longrightarrow> socks V k' = socks V k \<and> lists V k' = lists V k + (if r = None then 0 else 1)) \<and>
     (\<forall>l k. socks V (k_freeaddrinfo K l k) = socks V k \<and> lists V (k_freeaddrinfo K l k) = lists V k - 1) \<and>
     (\<forall>ai k fd k'. k_socket K ai k = (fd, k') \<longrightarrow> (0 \<le> fd \<longrightarrow> socks V k fd = None) \<and>
        effect V k k' (if 0 \<le> fd then (socks V k)(fd \<mapsto> fresh_sock) else socks V k)) \<and>
     (\<forall>fd c k r k'. k_fcntl K fd c k = (r, k') \<longrightarrow> effect V k k' (if 0 \<le> r then upd_sock (socks V k) fd (fcntl_effect c) else socks V k)) \<and>
     (\<forall>fd p k. effect V k (k_setsockopt K fd p k) (socks V k)) \<and>
     (\<forall>fd ai k r k'. k_bind K fd ai k = (r, k') \<longrightarrow> effect V k k' (if r = 0 then upd_sock (socks V k) fd (\<lambda>s. s\<lparr>bound := True\<rparr>) else socks V k)) \<and>
     (\<forall>fd n k r k'. k_listen K fd n k = (r, k') \<longrightarrow> effect V k k' (if 0 \<le> r then upd_sock (socks V k) fd (\<lambda>s. s\<lparr>listening := True\<rparr>) else socks V k)) \<and>
     (\<forall>fd ai k r k'. k_connect K fd ai k = (r, k') \<longrightarrow> effect V k k'
        (if r = None then upd_sock (socks V k) fd (\<lambda>s. s\<lparr>connected := True\<rparr>)
         else if r = Some EINPROGRESS then upd_sock (socks V k) fd (\<lambda>s. s\<lparr>connecting := True\<rparr>) else socks V k)) \<and>
     (\<forall>ai k r k'. k_blocks K ai k = (r, k') \<longrightarrow> effect V k k' (socks V k)) \<and>
     (\<forall>fd k r k'. k_netpoll_add K fd k = (r, k') \<longrightarrow> effect V k k' (socks V k)) \<and>
     (\<forall>fd k. effect V k (k_netpoll_mod K fd k) (socks V k)) \<and>
     (\<forall>fd k. \<exists>e. effect V k (k_await K fd k) (upd_sock (socks V k) fd (attempt_ends e))) \<and>
     (\<forall>fd k r k'. k_so_error K fd k = (r, k') \<longrightarrow> effect V k k' (if \<not> isl r then upd_sock (socks V k) fd (\<lambda>s. s\<lparr>so_err := 0\<rparr>) else socks V k) \<and>
        (\<forall>s. \<not> isl r \<longrightarrow> socks V k fd = Some s \<longrightarrow> r = Inr (so_err s))) \<and>
     (\<forall>fd k. effect V k (k_netpoll_del K fd k) (socks V k)) \<and>
     (\<forall>fd k. effect V k (k_close K fd k) ((socks V k)(fd := None)))"

text \<open>The effect of each call.\<close>

lemmas ok_getaddrinfo = syscalls_ok_def [THEN iffD1, THEN conjunct1, rule_format]
lemmas ok_freeaddrinfo = syscalls_ok_def [THEN iffD1, THEN conjunct2, THEN conjunct1, rule_format]
lemmas ok_socket = syscalls_ok_def [THEN iffD1, THEN conjunct2, THEN conjunct2, THEN conjunct1, rule_format]
lemmas ok_fcntl = syscalls_ok_def [THEN iffD1, THEN conjunct2, THEN conjunct2, THEN conjunct2, THEN conjunct1, rule_format]
lemmas ok_setsockopt = syscalls_ok_def [THEN iffD1, THEN conjunct2, THEN conjunct2, THEN conjunct2, THEN conjunct2, THEN conjunct1, rule_format]
lemmas ok_bind = syscalls_ok_def [THEN iffD1, THEN conjunct2, THEN conjunct2, THEN conjunct2, THEN conjunct2, THEN conjunct2, THEN conjunct1, rule_format]
lemmas ok_listen = syscalls_ok_def [THEN iffD1, THEN conjunct2, THEN conjunct2, THEN conjunct2, THEN conjunct2, THEN conjunct2, THEN conjunct2, THEN conjunct1, rule_format]
lemmas ok_connect = syscalls_ok_def [THEN iffD1, THEN conjunct2, THEN conjunct2, THEN conjunct2, THEN conjunct2, THEN conjunct2, THEN conjunct2, THEN conjunct2, THEN conjunct1, rule_format]
lemmas ok_blocks = syscalls_ok_def [THEN iffD1, THEN conjunct2, THEN conjunct2, THEN conjunct2, THEN conjunct2, THEN conjunct2, THEN conjunct2, THEN conjunct2, THEN conjunct2, THEN conjunct1, rule_format]
lemmas ok_add = syscalls_ok_def [THEN iffD1, THEN conjunct2, THEN conjunct2, THEN conjunct2, THEN conjunct2, THEN conjunct2, THEN conjunct2, THEN conjunct2, THEN conjunct2, THEN conjunct2, THEN conjunct1, rule_format]
lemmas ok_mod = syscalls_ok_def [THEN iffD1, THEN conjunct2, THEN conjunct2, THEN conjunct2, THEN conjunct2, THEN conjunct2, THEN conjunct2, THEN conjunct2, THEN conjunct2, THEN conjunct2, THEN conjunct2, THEN conjunct1, rule_format]
lemmas ok_await = syscalls_ok_def [THEN iffD1, THEN conjunct2, THEN conjunct2, THEN conjunct2, THEN conjunct2, THEN conjunct2, THEN conjunct2, THEN conjunct2, THEN conjunct2, THEN conjunct2, THEN conjunct2, THEN conjunct2, THEN conjunct1, rule_format]
lemmas ok_so_error = syscalls_ok_def [THEN iffD1, THEN conjunct2, THEN conjunct2, THEN conjunct2, THEN conjunct2, THEN conjunct2, THEN conjunct2, THEN conjunct2, THEN conjunct2, THEN conjunct2, THEN conjunct2, THEN conjunct2, THEN conjunct2, THEN conjunct1, rule_format]
lemmas ok_del = syscalls_ok_def [THEN iffD1, THEN conjunct2, THEN conjunct2, THEN conjunct2, THEN conjunct2, THEN conjunct2, THEN conjunct2, THEN conjunct2, THEN conjunct2, THEN conjunct2, THEN conjunct2, THEN conjunct2, THEN conjunct2, THEN conjunct2, THEN conjunct1, rule_format]
lemmas ok_close = syscalls_ok_def [THEN iffD1, THEN conjunct2, THEN conjunct2, THEN conjunct2, THEN conjunct2, THEN conjunct2, THEN conjunct2, THEN conjunct2, THEN conjunct2, THEN conjunct2, THEN conjunct2, THEN conjunct2, THEN conjunct2, THEN conjunct2, THEN conjunct2, rule_format]

text \<open>The socket \<open>fd\<close> was opened after \<open>k\<close> and is now \<open>s\<close>; nothing else has changed.\<close>

definition has :: "'k view \<Rightarrow> 'k \<Rightarrow> int \<Rightarrow> sock \<Rightarrow> 'k \<Rightarrow> bool" where
  "has V k fd s k' \<longleftrightarrow> socks V k fd = None \<and> socks V k' = (socks V k)(fd \<mapsto> s) \<and> lists V k' = lists V k"

definition unchanged :: "'k view \<Rightarrow> 'k \<Rightarrow> 'k \<Rightarrow> bool" where
  "unchanged V k k' \<longleftrightarrow> socks V k' = socks V k \<and> lists V k' = lists V k"

lemma or_and_flag: "(f OR (c :: int)) AND c = 0 \<longleftrightarrow> c = 0"
  by (auto simp: bit.conj_disj_distrib2 or_eq_0_iff)

lemma socket_has: "syscalls_ok K V \<Longrightarrow> k_socket K ai k = (fd, k') \<Longrightarrow> if 0 \<le> fd then has V k fd fresh_sock k' else unchanged V k k'"
  using ok_socket [of K V ai k fd k'] by (auto simp: has_def unchanged_def effect_def)

lemma close_has: "syscalls_ok K V \<Longrightarrow> has V k fd s k' \<Longrightarrow> unchanged V k (k_close K fd k')"
  using ok_close [of K V k' fd] by (auto simp: has_def unchanged_def effect_def)

lemma effect_has: "has V k fd s k' \<Longrightarrow> effect V k' k'' (if b then upd_sock (socks V k') fd f else socks V k') \<Longrightarrow> has V k fd (if b then f s else s) k''"
  by (auto simp: has_def effect_def upd_sock_def)

lemma effect_same: "has V k fd s k' \<Longrightarrow> effect V k' k'' (socks V k') \<Longrightarrow> has V k fd s k''"
  by (auto simp: has_def effect_def)

lemma so_error_has:
  assumes "syscalls_ok K V" "has V k fd s k'" "k_so_error K fd k' = (w, k'')"
  shows "has V k fd (if \<not> isl w then s\<lparr>so_err := 0\<rparr> else s) k'' \<and> (\<not> isl w \<longrightarrow> w = Inr (so_err s))"
proof -
  have "socks V k' fd = Some s" using assms(2) by (simp add: has_def)
  then show ?thesis using effect_has [OF assms(2) ok_so_error [OF assms(1,3), THEN conjunct1]] ok_so_error [OF assms(1,3)] by blast
qed

lemma fcntl_has: "syscalls_ok K V \<Longrightarrow> has V k fd s k' \<Longrightarrow> k_fcntl K fd c k' = (i, k'') \<Longrightarrow> has V k fd (if 0 \<le> i then fcntl_effect c s else s) k''"
  by (rule effect_has [OF _ ok_fcntl])

lemma when_set_has: "syscalls_ok K V \<Longrightarrow> has V k fd s k' \<Longrightarrow> has V k fd s (when_set b K fd p k')"
  using effect_same [OF _ ok_setsockopt [of K V k' fd p]] by (simp add: when_set_def)

lemma nonblock_has:
  assumes K: "syscalls_ok K V" and "has V k fd s k'" "set_nonblock K fd k' = (b, k'')"
  shows "has V k fd (if b then s\<lparr>nonblock := True\<rparr> else s) k''"
proof -
  obtain f k1 where f: "k_fcntl K fd F_GETFL k' = (f, k1)" by fastforce
  have h: "has V k fd s k1" using fcntl_has [OF K assms(2) f] by (simp split: if_splits)
  obtain r k2 where r: "k_fcntl K fd (F_SETFL (f OR O_NONBLOCK)) k1 = (r, k2)" by fastforce
  have "has V k fd (if 0 \<le> r then s\<lparr>nonblock := True\<rparr> else s) k2" using fcntl_has [OF K h r] by (simp add: or_and_flag split: if_splits)
  then show ?thesis using assms(3) h f r by (auto simp: set_nonblock_def split: if_splits)
qed

lemma cloexec_has:
  assumes K: "syscalls_ok K V" and "has V k fd s k'" "set_cloexec K fd k' = (b, k'')"
  shows "has V k fd (if b then s\<lparr>cloexec := True\<rparr> else s) k''"
proof -
  obtain f k1 where f: "k_fcntl K fd F_GETFD k' = (f, k1)" by fastforce
  have h: "has V k fd s k1" using fcntl_has [OF K assms(2) f] by (simp split: if_splits)
  obtain r k2 where r: "k_fcntl K fd (F_SETFD (f OR FD_CLOEXEC)) k1 = (r, k2)" by fastforce
  have "has V k fd (if 0 \<le> r then s\<lparr>cloexec := True\<rparr> else s) k2" using fcntl_has [OF K h r] by (simp add: or_and_flag split: if_splits)
  then show ?thesis using assms(3) h f r by (auto simp: set_cloexec_def split: if_splits)
qed

section \<open>One address and all addresses\<close>

lemma listen_try_has:
  assumes K: "syscalls_ok K V" and t: "listen_try K a ai k = (fd, k')"
  shows "if fd < 0 then unchanged V k k' else \<exists>s. has V k fd s k' \<and> nonblock s \<and> bound s \<and> (close_on_exec a \<longrightarrow> cloexec s)"
proof -
  obtain fd1 k1 where 1: "k_socket K ai k = (fd1, k1)" by fastforce
  show ?thesis
  proof (cases "fd1 < 0")
    case True
    then show ?thesis using t 1 socket_has [OF K 1] by (auto simp: listen_try_def)
  next
    case False
    then have h1: "has V k fd1 fresh_sock k1" using socket_has [OF K 1] by simp
    obtain b2 k2 where 2: "set_nonblock K fd1 k1 = (b2, k2)" by fastforce
    note h2 = nonblock_has [OF K h1 2]
    obtain b3 k3 where 3: "(if close_on_exec a then set_cloexec K fd1 k2 else (True, k2)) = (b3, k3)" by fastforce
    have h3: "has V k fd1 (if close_on_exec a \<and> b3 then fresh_sock\<lparr>nonblock := True, cloexec := True\<rparr> else fresh_sock\<lparr>nonblock := True\<rparr>) k3" if b2
      using cloexec_has [OF K h2] 3 h2 that by (cases "close_on_exec a"; cases b3) fastforce+
    define k4 where "k4 = when_set (ai_family ai = AF_INET6 \<and> ipv6_only a) K fd1 IPV6_V6ONLY (when_set (keepalive a) K fd1 SO_KEEPALIVE
      (when_set (0 < sndbuf a) K fd1 (SO_SNDBUF (sndbuf a)) (when_set (0 < rcvbuf a) K fd1 (SO_RCVBUF (rcvbuf a))
      (when_set (reuse_port a) K fd1 SO_REUSEPORT (when_set (reuse_addr a) K fd1 SO_REUSEADDR k3)))))"
    obtain r5 k5 where 5: "k_bind K fd1 ai k4 = (r5, k5)" by fastforce
    have e: "listen_try K a ai k = (if \<not> b2 then (- 1, k_close K fd1 k2) else if \<not> b3 then (- 1, k_close K fd1 k3) else if r5 = 0 then (fd1, k5) else (- 1, k_close K fd1 k5))"
      using 1 2 3 5 False by (simp add: listen_try_def k4_def Let_def)
    have h5: "\<exists>s. has V k fd1 s k5 \<and> nonblock s \<and> (r5 = 0 \<longrightarrow> bound s) \<and> (close_on_exec a \<longrightarrow> cloexec s)" if b: b2 b3
    proof -
      let ?s = "if close_on_exec a then fresh_sock\<lparr>nonblock := True, cloexec := True\<rparr> else fresh_sock\<lparr>nonblock := True\<rparr>"
      have "has V k fd1 ?s k4" unfolding k4_def by (intro when_set_has [OF K]) (use h3 b in simp)
      from effect_has [OF this ok_bind [OF K 5]] show ?thesis by (intro exI conjI) auto
    qed
    show ?thesis
    proof (cases "b2 \<and> b3")
      case True
      then obtain s where "has V k fd1 s k5" "nonblock s" "r5 = 0 \<longrightarrow> bound s" "close_on_exec a \<longrightarrow> cloexec s" using h5 by blast
      then show ?thesis using t e True False close_has [OF K] by (auto split: if_splits)
    next
      case n: False
      then show ?thesis using t e h2 h3 close_has [OF K] by (auto split: if_splits)
    qed
  qed
qed

lemma unchanged_trans: "unchanged V a b \<Longrightarrow> unchanged V b c \<Longrightarrow> unchanged V a c" "unchanged V a b \<Longrightarrow> has V b fd s c \<Longrightarrow> has V a fd s c"
  by (simp_all add: unchanged_def has_def)

lemma listen_loop_has:
  assumes K: "syscalls_ok K V"
  shows "listen_loop K a ais fd0 k = (fd, k') \<Longrightarrow> fd0 < 0 \<Longrightarrow>
    if fd < 0 then unchanged V k k' else \<exists>s. has V k fd s k' \<and> nonblock s \<and> bound s \<and> (close_on_exec a \<longrightarrow> cloexec s)"
proof (induction ais arbitrary: fd0 k)
  case (Cons ai ais)
  obtain fd1 k1 where 1: "listen_try K a ai k = (fd1, k1)" by fastforce
  note h = listen_try_has [OF K 1]
  show ?case
  proof (cases "fd1 < 0")
    case True
    then have "if fd < 0 then unchanged V k1 k' else \<exists>s. has V k1 fd s k' \<and> nonblock s \<and> bound s \<and> (close_on_exec a \<longrightarrow> cloexec s)"
      using Cons.IH [of fd1 k1] Cons.prems 1 by simp
    then show ?thesis using h True unchanged_trans [of V k k1] by (simp split: if_splits) blast
  next
    case False
    then show ?thesis using h Cons.prems 1 by simp
  qed
qed (auto simp: unchanged_def)

text \<open>The worker has read the pending error of the socket, so that it is cleared, or could not read it.\<close>

lemma connect_event_has:
  assumes K: "syscalls_ok K V" and h: "has V k fd s k'"
  shows "has V k fd s (connect_event K fd k') \<or> has V k fd (s\<lparr>so_err := 0\<rparr>) (connect_event K fd k')"
    "\<not> isl (fst (k_so_error K fd k')) \<Longrightarrow> has V k fd (s\<lparr>so_err := 0\<rparr>) (connect_event K fd k')"
proof -
  obtain w k1 where w: "k_so_error K fd k' = (w, k1)" by fastforce
  note h1 = so_error_has [OF K h w]
  have "has V k fd (if \<not> isl w then s\<lparr>so_err := 0\<rparr> else s) (connect_event K fd k')"
    using h1 w effect_same [OF conjunct1 [OF h1] ok_del [OF K, of k1 fd]] by (auto simp: connect_event_def split: sum.splits)
  then show "has V k fd s (connect_event K fd k') \<or> has V k fd (s\<lparr>so_err := 0\<rparr>) (connect_event K fd k')"
    "\<not> isl (fst (k_so_error K fd k')) \<Longrightarrow> has V k fd (s\<lparr>so_err := 0\<rparr>) (connect_event K fd k')" using w by (auto split: if_splits)
qed

text \<open>No attempt to connect ends in an error while its task sleeps.\<close>

definition never_refuses :: "'k syscalls \<Rightarrow> 'k view \<Rightarrow> bool" where
  "never_refuses K V \<longleftrightarrow> (\<forall>fd k s. socks V k fd = Some s \<longrightarrow> connecting s \<longrightarrow> (\<exists>s'. socks V (k_await K fd k) fd = Some s' \<and> connected s'))"

definition dialled :: "'k syscalls \<Rightarrow> 'k view \<Rightarrow> sock \<Rightarrow> bool" where
  "dialled K V s \<longleftrightarrow> nonblock s \<and> cloexec s \<and> \<not> connecting s \<and> so_err s = 0 \<and> (never_refuses K V \<longrightarrow> connected s)"

lemma attempt_has:
  assumes K: "syscalls_ok K V" and h: "has V k fd s k'" and c: "connecting s" "nonblock s" "cloexec s"
    and w: "k_so_error K fd (connect_event K fd (k_await K fd k')) = (w, k'')"
  shows "\<exists>s'. has V k fd s' k'' \<and> (w = Inr 0 \<longrightarrow> dialled K V s')"
proof -
  have s: "socks V k' fd = Some s" using h by (simp add: has_def)
  obtain e where e: "effect V k' (k_await K fd k') (upd_sock (socks V k') fd (attempt_ends e))" using ok_await [OF K] by blast
  have a: "has V k fd (attempt_ends e s) (k_await K fd k')" using effect_has [OF h, of _ True] e by simp
  have n: "connected (attempt_ends e s)" if "never_refuses K V" using that a s c(1) unfolding never_refuses_def has_def by fastforce
  obtain s1 where s1: "has V k fd s1 (connect_event K fd (k_await K fd k'))" "s1 = attempt_ends e s \<or> s1 = (attempt_ends e s)\<lparr>so_err := 0\<rparr>"
    using connect_event_has(1) [OF K a] by blast
  have b: "nonblock s1" "cloexec s1" "\<not> connecting s1" "connected s1 = connected (attempt_ends e s)" using s1(2) c by (auto simp: attempt_ends_def split: if_splits)
  show ?thesis using so_error_has [OF K s1(1) w] b n by (cases w) (auto simp: dialled_def)
qed

lemma dial_try_has:
  assumes K: "syscalls_ok K V" and t: "dial_try K ai k = (r, k')"
  shows "case r of Inl _ \<Rightarrow> unchanged V k k' | Inr fd \<Rightarrow> 0 \<le> fd \<and> (\<exists>s. has V k fd s k' \<and> dialled K V s)"
proof -
  obtain fd k1 where 1: "k_socket K ai k = (fd, k1)" by fastforce
  show ?thesis
  proof (cases "fd < 0")
    case True
    then show ?thesis using t 1 socket_has [OF K 1] by (auto simp: dial_try_def)
  next
    case False
    then have h1: "has V k fd fresh_sock k1" using socket_has [OF K 1] by simp
    obtain b2 k2 where 2: "set_nonblock K fd k1 = (b2, k2)" by fastforce
    note h2 = nonblock_has [OF K h1 2]
    obtain r3 k3 where 3: "k_fcntl K fd (F_SETFD FD_CLOEXEC) k2 = (r3, k3)" by fastforce
    note h3 = fcntl_has [OF K h2 3]
    obtain e4 k4 where 4: "k_connect K fd ai k3 = (e4, k4)" by fastforce
    obtain b5 k5 where 5: "k_blocks K ai k4 = (b5, k5)" by fastforce
    obtain e6 k6 where 6: "k_netpoll_add K fd k5 = (e6, k6)" by fastforce
    define k7 where "k7 = (if e6 = None then k6 else k_netpoll_mod K fd k6)"
    obtain w k8 where 8: "k_so_error K fd (connect_event K fd (k_await K fd k7)) = (w, k8)" by fastforce
    have e: "dial_try K ai k = (if \<not> b2 then (Inl (), k_close K fd k2) else if r3 < 0 then (Inl (), k_close K fd k3) else if e4 = None then (Inr fd, k4)
      else if e4 \<noteq> Some EINPROGRESS then (Inl (), k_close K fd k4) else if \<not> b5 then (Inl (), k_close K fd k5)
      else if e6 \<noteq> None \<and> e6 \<noteq> Some E_EXIST then (Inl (), k_close K fd k6) else if w = Inr 0 then (Inr fd, k8) else (Inl (), k_close K fd k8))"
      using 1 2 3 4 5 6 8 False unfolding k7_def by (auto simp: dial_try_def Let_def split: option.splits sum.splits)
    have h3': "has V k fd (fresh_sock\<lparr>nonblock := True, cloexec := True\<rparr>) k3" if "b2" "\<not> r3 < 0" using h3 that by simp
    let ?s = "fresh_sock\<lparr>nonblock := True, cloexec := True\<rparr>"
    have h4: "has V k fd (if e4 = None then ?s\<lparr>connected := True\<rparr> else if e4 = Some EINPROGRESS then ?s\<lparr>connecting := True\<rparr> else ?s) k4" if "b2" "\<not> r3 < 0"
      using h3' [OF that] ok_connect [OF K 4] by (auto simp: has_def effect_def upd_sock_def)
    have h8: "has V k fd (?s\<lparr>connecting := True\<rparr>) k5" "has V k fd (?s\<lparr>connecting := True\<rparr>) k6" "\<exists>s. has V k fd s k8 \<and> (w = Inr 0 \<longrightarrow> dialled K V s)"
      if b: "b2" "\<not> r3 < 0" "e4 = Some EINPROGRESS"
    proof -
      show 5: "has V k fd (?s\<lparr>connecting := True\<rparr>) k5" by (rule effect_same [OF _ ok_blocks [OF K 5]]) (use h4 [OF b(1,2)] b(3) in simp)
      show 6: "has V k fd (?s\<lparr>connecting := True\<rparr>) k6" by (rule effect_same [OF 5 ok_add [OF K 6]])
      have "has V k fd (?s\<lparr>connecting := True\<rparr>) k7" unfolding k7_def using effect_same [OF 6 ok_mod [OF K, of k6 fd]] 6 by simp
      then show "\<exists>s. has V k fd s k8 \<and> (w = Inr 0 \<longrightarrow> dialled K V s)" by (rule attempt_has [OF K _ _ _ _ 8]) simp_all
    qed
    show ?thesis
    proof (cases "b2 \<and> \<not> r3 < 0")
      case True
      note h4 = h4 [of] h8 [of]
      show ?thesis
      proof (cases "e4 = Some EINPROGRESS")
        case p: True
        obtain s where "has V k fd s k8" "w = Inr 0 \<longrightarrow> dialled K V s" using h4(4) True p by blast
        then show ?thesis using t e True False p h4(2,3) close_has [OF K] by (auto split: if_splits)
      next
        case p: False
        have "dialled K V (?s\<lparr>connected := True\<rparr>)" by (simp add: dialled_def fresh_sock_def)
        then show ?thesis using t e True False p h4(1) close_has [OF K] by (auto split: if_splits)
      qed
    next
      case n: False
      show ?thesis using t e n h2 h3 close_has [OF K] by (auto split: if_splits)
    qed
  qed
qed

lemma dial_loop_has:
  assumes K: "syscalls_ok K V"
  shows "dial_loop K ais k = (r, k') \<Longrightarrow>
    case r of Inl _ \<Rightarrow> unchanged V k k' | Inr fd \<Rightarrow> 0 \<le> fd \<and> (\<exists>s. has V k fd s k' \<and> dialled K V s)"
proof (induction ais arbitrary: k)
  case (Cons ai ais)
  obtain r1 k1 where 1: "dial_try K ai k = (r1, k1)" by fastforce
  note h = dial_try_has [OF K 1]
  show ?case
  proof (cases r1)
    case (Inl u)
    then have "case r of Inl _ \<Rightarrow> unchanged V k1 k' | Inr fd \<Rightarrow> 0 \<le> fd \<and> (\<exists>s. has V k1 fd s k' \<and> dialled K V s)"
      using Cons.IH [of k1] Cons.prems 1 by simp
    then show ?thesis using h Inl unchanged_trans [of V k k1] by (auto split: sum.splits) blast+
  next
    case (Inr fd)
    then show ?thesis using h Cons.prems 1 by auto
  qed
qed (auto simp: unchanged_def)

end
