(* ===== verification/SocketsProps.thy ===== *)
theory SocketsProps
  imports Sockets
begin

text \<open>
  Properties of the functions that make sockets: what a returned socket is, and that neither a socket nor an
  address list is left behind, whichever calls fail.
\<close>

text \<open>
  A system in which every call succeeds, \<open>connect\<close> takes its time, and the attempt ends with the error \<open>e\<close>, or with
  a connection for \<open>e = 0\<close>: the descriptors with their sockets, and the number of lists.
\<close>

type_synonym demo_net = "sock option list \<times> int"

definition demo_view :: "demo_net view" where
  "demo_view = \<lparr>socks = (\<lambda>k fd. if 0 \<le> fd \<and> fd < int (length (fst k)) then fst k ! nat fd else None), lists = snd\<rparr>"

definition demo_upd :: "int \<Rightarrow> (sock option \<Rightarrow> sock option) \<Rightarrow> demo_net \<Rightarrow> demo_net" where
  "demo_upd fd f k = (if 0 \<le> fd \<and> fd < int (length (fst k)) then ((fst k)[nat fd := f (fst k ! nat fd)], snd k) else k)"

definition demo_ai :: addrinfo where
  "demo_ai = \<lparr>ai_family = 2, ai_socktype = 1, ai_protocol = 6, ai_addr = [127, 0, 0, 1]\<rparr>"

definition demo_calls :: "int \<Rightarrow> demo_net syscalls" where
  "demo_calls e = \<lparr>k_getaddrinfo = (\<lambda>h p b k. (Some [demo_ai], fst k, snd k + 1)), k_freeaddrinfo = (\<lambda>_ k. (fst k, snd k - 1)),
     k_socket = (\<lambda>ai k. (int (length (fst k)), fst k @ [Some fresh_sock], snd k)),
     k_fcntl = (\<lambda>fd c k. (0, demo_upd fd (map_option (fcntl_effect c)) k)), k_setsockopt = (\<lambda>fd p k. k),
     k_bind = (\<lambda>fd ai k. (0, demo_upd fd (map_option (\<lambda>s. s\<lparr>bound := True\<rparr>)) k)),
     k_listen = (\<lambda>fd n k. (0, demo_upd fd (map_option (\<lambda>s. s\<lparr>listening := True\<rparr>)) k)),
     k_connect = (\<lambda>fd ai k. (Some EINPROGRESS, demo_upd fd (map_option (\<lambda>s. s\<lparr>connecting := True\<rparr>)) k)), k_blocks = (\<lambda>ai k. (True, k)),
     k_netpoll_add = (\<lambda>fd k. (None, k)), k_netpoll_mod = (\<lambda>fd k. k), k_netpoll_del = (\<lambda>fd k. k),
     k_await = (\<lambda>fd k. demo_upd fd (map_option (attempt_ends e)) k),
     k_so_error = (\<lambda>fd k. (Inr (case socks demo_view k fd of None \<Rightarrow> 0 | Some s \<Rightarrow> so_err s), demo_upd fd (map_option (\<lambda>s. s\<lparr>so_err := 0\<rparr>)) k)),
     k_close = (\<lambda>fd k. demo_upd fd (\<lambda>_. None) k)\<rparr>"

lemma demo_upd_view: "socks demo_view (demo_upd fd (map_option f) k) = upd_sock (socks demo_view k) fd f" "socks demo_view (demo_upd fd (\<lambda>_. None) k) = (socks demo_view k)(fd := None)"
  "lists demo_view (demo_upd fd g k) = lists demo_view k"
  by (auto simp: demo_view_def demo_upd_def upd_sock_def fun_eq_iff nth_list_update)

lemma demo_socket_view: "socks demo_view (fst k @ [Some s], l) = (socks demo_view k)(int (length (fst k)) \<mapsto> s)"
  by (auto simp: demo_view_def fun_eq_iff nth_append nat_less_iff)

lemma demo_calls_ok: "syscalls_ok (demo_calls e) demo_view"
  unfolding syscalls_ok_def effect_def
  by (intro conjI allI impI) (auto simp: demo_calls_def demo_upd_view demo_socket_view, auto simp: demo_view_def)

definition demo_args :: listen_args where
  "demo_args = \<lparr>backlog = 0, close_on_exec = True, reuse_addr = True, reuse_port = False, tcp_nodelay = True, tcp_defer_accept = 0,
     tcp_fastopen = 0, keepalive = False, rcvbuf = 0, sndbuf = 4096, ipv6_only = False\<rparr>"

text \<open>
  C38: \<open>__public__net_listen\<close> returns -1 and leaves the task's sockets as they were, or it returns a new socket that
  is non-blocking, bound and listening, and close-on-exec if asked for, and no other socket is left open. The
  address list is freed in every case.
\<close>

theorem listen_socket:
  assumes K: "syscalls_ok K V" and l: "net_listen K addr port a k = (r, k')"
  shows "lists V k' = lists V k \<and>
    (if r < 0 then r = - 1 \<and> socks V k' = socks V k
     else \<exists>s. socks V k r = None \<and> socks V k' = (socks V k)(r \<mapsto> s) \<and> nonblock s \<and> bound s \<and> listening s \<and> (close_on_exec a \<longrightarrow> cloexec s))"
proof -
  define host where "host = (case addr of Some (c # cs) \<Rightarrow> take 127 (c # cs) | _ \<Rightarrow> [48, 46, 48, 46, 48, 46, 48])"
  obtain g k1 where 1: "k_getaddrinfo K host port True k = (g, k1)" by fastforce
  note h1 = ok_getaddrinfo [OF K 1]
  show ?thesis
  proof (cases g)
    case None
    then show ?thesis using l 1 h1 by (simp add: net_listen_def host_def [symmetric])
  next
    case (Some ais)
    obtain fd k2 where 2: "listen_loop K a ais (- 1) k1 = (fd, k2)" by fastforce
    note h2 = listen_loop_has [OF K 2]
    define k3 where "k3 = k_freeaddrinfo K ais k2"
    have h3: "socks V k3 = socks V k2" "lists V k3 = lists V k2 - 1" using ok_freeaddrinfo [OF K, of ais k2] by (simp_all add: k3_def)
    show ?thesis
    proof (cases "fd < 0")
      case True
      then show ?thesis using l 1 2 h1 h2 h3 Some by (simp add: net_listen_def host_def [symmetric] k3_def unchanged_def)
    next
      case False
      then obtain s where s: "has V k1 fd s k2" "nonblock s" "bound s" "close_on_exec a \<longrightarrow> cloexec s" using h2 by auto
      define k0 where "k0 = k_freeaddrinfo K ais k1"
      have k0: "socks V k0 = socks V k" "lists V k0 = lists V k" using ok_freeaddrinfo [OF K, of ais k1] h1 Some by (simp_all add: k0_def)
      have 3: "has V k0 fd s k3" using s(1) h1 h3 k0 Some by (simp add: has_def)
      define k4 where "k4 = when_set (0 < tcp_fastopen a) K fd (TCP_FASTOPEN (tcp_fastopen a)) (when_set (0 < tcp_defer_accept a) K fd (TCP_DEFER_ACCEPT (tcp_defer_accept a))
        (when_set (tcp_nodelay a) K fd TCP_NODELAY k3))"
      have 4: "has V k0 fd s k4" unfolding k4_def by (intro when_set_has [OF K] 3)
      obtain q k5 where 5: "k_listen K fd (if 0 < backlog a then backlog a else SOMAXCONN) k4 = (q, k5)" by fastforce
      note h5 = effect_has [OF 4 ok_listen [OF K 5]]
      have "(r, k') = (if q < 0 then (- 1, k_close K fd k5) else (fd, k5))"
        using l 1 2 5 Some False by (simp add: net_listen_def host_def [symmetric] k4_def k3_def Let_def)
      then show ?thesis using h5 close_has [OF K h5] s False k0 by (auto simp: has_def unchanged_def split: if_splits)
    qed
  qed
qed

theorem listen_socket_witness: "\<exists>k s. net_listen (demo_calls 0) None [56, 48] demo_args ([None, None, None], 0) = (3, k) \<and> socks demo_view k 3 = Some s \<and> listening s \<and> lists demo_view k = 0"
proof -
  obtain k where k: "net_listen (demo_calls 0) None [56, 48] demo_args ([None, None, None], 0) = (3, k)"
    by (simp add: net_listen_def demo_calls_def listen_try_def set_nonblock_def set_cloexec_def when_set_def demo_args_def demo_upd_def)
  have "lists demo_view ([None, None, None], 0) = 0" by (simp add: demo_view_def)
  then show ?thesis using listen_socket [OF demo_calls_ok k] k by auto
qed

text \<open>
  C39: \<open>__public__net_dial\<close> returns -1 and leaves the task's sockets as they were, or it returns a new socket that is
  non-blocking and close-on-exec, on which no attempt to connect is going on and no error is pending, and no other
  socket is left open, however many addresses were tried and whether the task slept or not. The socket is
  connected if no attempt ends in an error while the task sleeps. The address list is freed in every case.
\<close>

theorem dial_socket:
  assumes K: "syscalls_ok K V" and d: "net_dial K addr port k = (r, k')"
  shows "lists V k' = lists V k \<and>
    (if r < 0 then r = - 1 \<and> socks V k' = socks V k
     else \<exists>s. socks V k r = None \<and> socks V k' = (socks V k)(r \<mapsto> s) \<and> nonblock s \<and> cloexec s \<and> \<not> connecting s \<and> so_err s = 0 \<and>
       (never_refuses K V \<longrightarrow> connected s))"
proof -
  obtain g k1 where 1: "k_getaddrinfo K addr port False k = (g, k1)" by fastforce
  note h1 = ok_getaddrinfo [OF K 1]
  show ?thesis
  proof (cases g)
    case None
    then show ?thesis using d 1 h1 by (simp add: net_dial_def)
  next
    case (Some ais)
    obtain w k2 where 2: "dial_loop K ais k1 = (w, k2)" by fastforce
    show ?thesis using d 1 2 h1 dial_loop_has [OF K 2] ok_freeaddrinfo [OF K, of ais k2] Some
      by (cases w) (auto simp: net_dial_def has_def unchanged_def dialled_def)
  qed
qed

lemma demo_never_refuses: "never_refuses (demo_calls 0) demo_view"
  by (auto simp: never_refuses_def demo_calls_def demo_upd_view upd_sock_def attempt_ends_def)

theorem dial_socket_witness: "\<exists>k s. net_dial (demo_calls 0) [104] [56, 48] ([None, None, None], 0) = (3, k) \<and> socks demo_view k 3 = Some s \<and> connected s"
proof -
  have "fst (net_dial (demo_calls 0) [104] [56, 48] ([None, None, None], 0)) = 3" by code_simp
  then obtain k where k: "net_dial (demo_calls 0) [104] [56, 48] ([None, None, None], 0) = (3, k)" by (metis prod.collapse)
  show ?thesis using dial_socket [OF demo_calls_ok k] k demo_never_refuses by auto
qed

section \<open>Refused connections\<close>

text \<open>A system in which no call fails, but every attempt to connect takes its time and ends in an error.\<close>

definition refusing :: "'k syscalls \<Rightarrow> 'k view \<Rightarrow> bool" where
  "refusing K V \<longleftrightarrow> (\<forall>ai k. 0 \<le> fst (k_socket K ai k)) \<and> (\<forall>fd c k. 0 \<le> fst (k_fcntl K fd c k)) \<and>
     (\<forall>fd ai k. fst (k_connect K fd ai k) = Some EINPROGRESS) \<and> (\<forall>ai k. fst (k_blocks K ai k)) \<and> (\<forall>fd k. fst (k_netpoll_add K fd k) = None) \<and>
     (\<forall>fd k. \<not> isl (fst (k_so_error K fd k))) \<and>
     (\<forall>fd k s. socks V k fd = Some s \<longrightarrow> connecting s \<longrightarrow> (\<exists>s'. socks V (k_await K fd k) fd = Some s' \<and> so_err s' \<noteq> 0))"

lemma refusing_dial:
  assumes K: "syscalls_ok K V" and f: "refusing K V"
  shows "\<exists>fd k' s. dial_try K ai k = (Inr fd, k') \<and> 0 \<le> fd \<and> has V k fd s k' \<and> \<not> connected s"
proof -
  obtain fd k1 where 1: "k_socket K ai k = (fd, k1)" by fastforce
  have p: "0 \<le> fd" using f 1 by (metis fst_conv refusing_def)
  then have h1: "has V k fd fresh_sock k1" using socket_has [OF K 1] by simp
  have fc: "\<not> fst (k_fcntl K fd c k') < 0" for c k' using f by (simp add: refusing_def linorder_not_less)
  obtain k2 where 2: "set_nonblock K fd k1 = (True, k2)" using fc by (simp add: set_nonblock_def split_beta Let_def)
  note h2 = nonblock_has [OF K h1 2]
  obtain r3 k3 where 3: "k_fcntl K fd (F_SETFD FD_CLOEXEC) k2 = (r3, k3)" by fastforce
  have r3: "0 \<le> r3" using f 3 by (metis fst_conv refusing_def)
  have "fst (k_connect K fd ai k3) = Some EINPROGRESS" "fst (k_blocks K ai k')" "fst (k_netpoll_add K fd k') = None" for k'
    using f by (simp_all add: refusing_def)
  then obtain k4 k5 k6 where 4: "k_connect K fd ai k3 = (Some EINPROGRESS, k4)" and 5: "k_blocks K ai k4 = (True, k5)"
    and 6: "k_netpoll_add K fd k5 = (None, k6)" by (metis prod.collapse)
  define s where "s = fresh_sock\<lparr>nonblock := True, cloexec := True, connecting := True\<rparr>"
  have h3: "has V k fd (fresh_sock\<lparr>nonblock := True, cloexec := True\<rparr>) k3" using fcntl_has [OF K h2 3] r3 by simp
  have h4: "has V k fd s k4" using h3 ok_connect [OF K 4] by (auto simp: has_def effect_def upd_sock_def s_def)
  have h6: "has V k fd s k6" by (rule effect_same [OF effect_same [OF h4 ok_blocks [OF K 5]] ok_add [OF K 6]])
  obtain e where e: "effect V k6 (k_await K fd k6) (upd_sock (socks V k6) fd (attempt_ends e))" using ok_await [OF K] by blast
  have h7: "has V k fd (attempt_ends e s) (k_await K fd k6)" using effect_has [OF h6, of _ True] e by simp
  have s6: "socks V k6 fd = Some s" "connecting s" using h6 by (simp_all add: has_def s_def)
  have "so_err (attempt_ends e s) \<noteq> 0" using f s6 h7 unfolding refusing_def has_def by fastforce
  then have n: "\<not> connected (attempt_ends e s)" by (auto simp: attempt_ends_def s_def fresh_sock_def split: if_splits)
  have i: "\<not> isl (fst (k_so_error K fd k'))" for k' using f by (simp add: refusing_def)
  note h8 = connect_event_has(2) [OF K h7 i]
  obtain w k9 where 9: "k_so_error K fd (connect_event K fd (k_await K fd k6)) = (w, k9)" by fastforce
  have "\<not> isl w" using i [of "connect_event K fd (k_await K fd k6)"] 9 by simp
  then have h9: "has V k fd ((attempt_ends e s)\<lparr>so_err := 0\<rparr>) k9" "w = Inr 0" using so_error_has [OF K h8 9] by auto
  have "dial_try K ai k = (Inr fd, k9)" using 1 2 3 4 5 6 9 p r3 h9(2) by (simp add: dial_try_def Let_def)
  then show ?thesis using p h9(1) n by fastforce
qed

text \<open>
  C40: A refused connection is returned as a socket: on a system where every attempt to connect ends in an error while
  the task sleeps and no other call fails, \<open>__public__net_dial\<close> returns a socket that is not connected. The worker
  thread has read the pending error of the socket, which clears it, and \<open>net_dial\<close> reads it again.
\<close>

theorem dial_refused:
  assumes K: "syscalls_ok K V" and f: "refusing K V" and g: "k_getaddrinfo K addr port False k = (Some (ai # ais), k1)"
  shows "\<exists>r k' s. net_dial K addr port k = (r, k') \<and> 0 \<le> r \<and> socks V k' r = Some s \<and> \<not> connected s"
proof -
  obtain fd k2 s where d: "dial_try K ai k1 = (Inr fd, k2)" "0 \<le> fd" "has V k1 fd s k2" "\<not> connected s" using refusing_dial [OF K f] by blast
  have "net_dial K addr port k = (fd, k_freeaddrinfo K (ai # ais) k2)" using g d(1) by (simp add: net_dial_def)
  moreover have "socks V (k_freeaddrinfo K (ai # ais) k2) fd = Some s" using ok_freeaddrinfo [OF K] d(3) by (simp add: has_def)
  ultimately show ?thesis using d(2,4) by blast
qed

theorem dial_refused_witness: "\<exists>r k' s. net_dial (demo_calls 111) [104] [56, 48] ([None, None, None], 0) = (r, k') \<and> socks demo_view k' r = Some s \<and> \<not> connected s"
proof -
  have "refusing (demo_calls 111) demo_view"
    by (auto simp: refusing_def demo_calls_def demo_upd_view upd_sock_def attempt_ends_def)
  from dial_refused [OF demo_calls_ok this, of "[104]" "[56, 48]" "([None, None, None], 0)"] show ?thesis by (auto simp: demo_calls_def)
qed

end
