(* ===== verification/Scheduler.thy ===== *)
theory Scheduler
  imports Tasks
begin

text \<open>
  The scheduler: \<open>scheduler_run\<close> and \<open>self_yield\<close> of \<^verbatim>\<open>src/runtime/src/scheduler.c\<close>, \<open>thread\<close> and
  \<open>wait_for_schedulers\<close> of \<^verbatim>\<open>src/runtime/src/initutils.c\<close> and \<open>main\<close>. Twelve scheduler threads take tasks from
  their run queues and run them; a running task starts tasks, yields, goes to sleep in a blocking call, or
  finishes; the thread that finishes the last task tells all threads to end, and \<open>main\<close> waits for them.
  Every access to shared state is a step of its own, in any interleaving.

  What wakes a sleeping task (a mutex, a wait group, a ring, the poller) is not part of the scheduler: a sleeping
  task may be pushed on its run queue at any later time, or never. Tasks that the blocking calls lose are therefore
  included. A sleeping task is pushed at most once for each time it goes to sleep.
\<close>

section \<open>State\<close>

abbreviation (input) SCHEDULER_THREAD_POOL_SIZE :: nat where "SCHEDULER_THREAD_POOL_SIZE \<equiv> 12"

text \<open>
  The program point of a scheduler thread: waiting for a task, counting itself, running the task, back
  from it, checking its state, counting it out, destroying it, sleeping before the second look at the
  count, telling the thread \<open>j\<close> to end, and returned.
\<close>

datatype kpc = KPop | KCount tid | KRun tid | KBack tid | KCheck tid | KDec tid | KDestroy tid int | KSleep | KPush nat | KExit

text \<open>
  The program point of a task: created by a task or by \<open>main\<close> (\<open>None\<close>), counted but not in a queue yet,
  in its own code, in \<open>thread\<close> before it counts or pushes the new task, in \<open>self_yield\<close> before the
  switch, in a blocking call before the switch, finished, counted out, and destroyed.
\<close>

datatype tpc = TNew "tid option" | TCounted "tid option" | TUser | TSpawn tid | TPush tid | TYield | TPark | TFinished | TDying | TGone

datatype mpc = MThread | MSpawn tid | MPush tid | MGc | MJoin nat | MEnd

text \<open>
  \<open>kernel_thread_map\<close> gives every thread a run queue (\<open>rq\<close>, with \<open>None\<close> for \<open>NULL\<close>) and a program point;
  \<open>home\<close> is the \<open>sched_id\<close> of a task. \<open>asleep\<close> are the tasks that went to sleep in a blocking call and have not been
  woken.
\<close>

record sched =
  task_count :: int
  threads_total :: int
  rq :: "nat \<Rightarrow> tid option list"
  kpcs :: "nat \<Rightarrow> kpc"
  tpcs :: "tid \<Rightarrow> tpc option"
  home :: "tid \<Rightarrow> nat"
  asleep :: "tid set"
  mainpc :: mpc

definition init_scheduler :: sched where
  "init_scheduler = \<lparr>task_count = 0, threads_total = 0, rq = \<lambda>_. [], kpcs = \<lambda>_. KPop, tpcs = \<lambda>_. None, home = \<lambda>_. 0,
     asleep = {}, mainpc = MThread\<rparr>"

section \<open>Operations\<close>

definition push :: "nat \<Rightarrow> tid option \<Rightarrow> sched \<Rightarrow> sched" where
  "push i x y = y\<lparr>rq := (rq y)(i := rq y i @ [x])\<rparr>"

definition goto :: "nat \<Rightarrow> kpc \<Rightarrow> sched \<Rightarrow> sched" where
  "goto i p y = y\<lparr>kpcs := (kpcs y)(i := p)\<rparr>"

definition set_tpc :: "tid \<Rightarrow> tpc \<Rightarrow> sched \<Rightarrow> sched" where
  "set_tpc t p y = y\<lparr>tpcs := (tpcs y)(t \<mapsto> p)\<rparr>"

text \<open>The loop of a scheduler thread, up to its next access; \<open>None\<close> while it waits, runs a task or has returned.\<close>

definition scheduler_loop :: "nat \<Rightarrow> sched \<Rightarrow> sched option" where
  "scheduler_loop i y =
     (case kpcs y i of
        KPop \<Rightarrow>
          (case rq y i of
             [] \<Rightarrow> None
           | None # q \<Rightarrow> Some (goto i KExit (y\<lparr>rq := (rq y)(i := q)\<rparr>))
           | Some t # q \<Rightarrow> Some (goto i (KCount t) (y\<lparr>rq := (rq y)(i := q)\<rparr>)))
      | KCount t \<Rightarrow> Some (goto i (KRun t) (y\<lparr>threads_total := threads_total y + 1\<rparr>))
      | KRun t \<Rightarrow> None
      | KBack t \<Rightarrow> Some (goto i (KCheck t) (y\<lparr>threads_total := threads_total y - 1\<rparr>))
      | KCheck t \<Rightarrow> Some (goto i (if tpcs y t = Some TFinished then KDec t else KPop) y)
      | KDec t \<Rightarrow> Some (goto i (KDestroy t (task_count y - 1)) (set_tpc t TDying (y\<lparr>task_count := task_count y - 1\<rparr>)))
      | KDestroy t remaining \<Rightarrow> Some (goto i (if remaining = 0 then KSleep else KPop) (set_tpc t TGone y))
      | KSleep \<Rightarrow> Some (goto i (if task_count y = 0 then KPush 0 else KPop) y)
      | KPush j \<Rightarrow> Some (if j < SCHEDULER_THREAD_POOL_SIZE then goto i (KPush (Suc j)) (push j None y) else goto i KExit y)
      | KExit \<Rightarrow> None)"

text \<open>\<open>thread\<close>: the new task, on the scheduler thread \<open>kid\<close>, is created, counted, and pushed.\<close>

definition thread_create :: "tid option \<Rightarrow> tid \<Rightarrow> nat \<Rightarrow> sched \<Rightarrow> sched" where
  "thread_create by u kid y = (set_tpc u (TNew by) y)\<lparr>home := (home y)(u := kid)\<rparr>"

definition thread_count :: "tid option \<Rightarrow> tid \<Rightarrow> sched \<Rightarrow> sched" where
  "thread_count by u y = (set_tpc u (TCounted by) y)\<lparr>task_count := task_count y + 1\<rparr>"

definition thread_push :: "tid \<Rightarrow> sched \<Rightarrow> sched" where
  "thread_push u y = push (home y u) (Some u) (set_tpc u TUser y)"

text \<open>The task \<open>t\<close> switches back to the scheduler of its thread \<open>i\<close>.\<close>

definition task_yield :: "nat \<Rightarrow> tid \<Rightarrow> sched \<Rightarrow> sched" where [simp]:
  "task_yield i t y = goto i (KBack t) (set_tpc t TUser y)"

text \<open>What a task in its own code decides to do.\<close>

datatype act = Spawn tid nat | Yield | Park | Finish

text \<open>
  The task \<open>t\<close>, run by the thread \<open>i\<close>, up to its next access. A task that goes to sleep may be woken before it
  switches back to the scheduler.
\<close>

definition task_step :: "act \<Rightarrow> nat \<Rightarrow> tid \<Rightarrow> sched \<Rightarrow> sched option" where
  "task_step a i t y =
     (case tpcs y t of
        Some TUser \<Rightarrow>
          (case a of
             Spawn u kid \<Rightarrow>
               if tpcs y u = None \<and> kid < SCHEDULER_THREAD_POOL_SIZE then Some (set_tpc t (TSpawn u) (thread_create (Some t) u kid y)) else None
           | Yield \<Rightarrow> Some (set_tpc t TYield (push i (Some t) y))
           | Park \<Rightarrow> Some (set_tpc t TPark (y\<lparr>asleep := insert t (asleep y)\<rparr>))
           | Finish \<Rightarrow> Some (goto i (KBack t) (set_tpc t TFinished y)))
      | Some (TSpawn u) \<Rightarrow> Some (set_tpc t (TPush u) (thread_count (Some t) u y))
      | Some (TPush u) \<Rightarrow> Some (set_tpc t TUser (thread_push u y))
      | Some TYield \<Rightarrow> Some (task_yield i t y)
      | Some TPark \<Rightarrow> Some (task_yield i t y)
      | _ \<Rightarrow> None)"

text \<open>A sleeping task is woken.\<close>

definition waker_step :: "tid \<Rightarrow> sched \<Rightarrow> sched" where
  "waker_step t y = push (home y t) (Some t) (y\<lparr>asleep := asleep y - {t}\<rparr>)"

text \<open>
  \<open>main\<close> starts the first task, then the collector, and waits for the threads one after the other. Of the state here
  \<open>gc_start\<close> changes the number of running threads, to which it stores 0.
\<close>

definition wait_for_schedulers :: "nat \<Rightarrow> sched \<Rightarrow> sched option" where [simp]:
  "wait_for_schedulers i y =
     (if i < SCHEDULER_THREAD_POOL_SIZE then if kpcs y i = KExit then Some (y\<lparr>mainpc := MJoin (Suc i)\<rparr>) else None
      else Some (y\<lparr>mainpc := MEnd\<rparr>))"

definition main_step :: "tid \<Rightarrow> nat \<Rightarrow> sched \<Rightarrow> sched option" where
  "main_step u kid y =
     (case mainpc y of
        MThread \<Rightarrow> if tpcs y u = None \<and> kid < SCHEDULER_THREAD_POOL_SIZE then Some ((thread_create None u kid y)\<lparr>mainpc := MSpawn u\<rparr>) else None
      | MSpawn u \<Rightarrow> Some ((thread_count None u y)\<lparr>mainpc := MPush u\<rparr>)
      | MPush u \<Rightarrow> Some ((thread_push u y)\<lparr>mainpc := MGc\<rparr>)
      | MGc \<Rightarrow> Some (y\<lparr>threads_total := 0, mainpc := MJoin 0\<rparr>)
      | MJoin i \<Rightarrow> wait_for_schedulers i y
      | MEnd \<Rightarrow> None)"

inductive sstep :: "sched \<Rightarrow> sched \<Rightarrow> bool" where
  loop: "i < SCHEDULER_THREAD_POOL_SIZE \<Longrightarrow> scheduler_loop i y = Some z \<Longrightarrow> sstep y z"
| task: "i < SCHEDULER_THREAD_POOL_SIZE \<Longrightarrow> kpcs y i = KRun t \<Longrightarrow> task_step a i t y = Some z \<Longrightarrow> sstep y z"
| waker: "t \<in> asleep y \<Longrightarrow> sstep y (waker_step t y)"
| main: "main_step u kid y = Some z \<Longrightarrow> sstep y z"

text \<open>The steps of the threads, of the tasks they run and of \<open>main\<close>, without those of the wakers.\<close>

inductive own_step :: "sched \<Rightarrow> sched \<Rightarrow> bool" where
  loop: "i < SCHEDULER_THREAD_POOL_SIZE \<Longrightarrow> scheduler_loop i y = Some z \<Longrightarrow> own_step y z"
| task: "i < SCHEDULER_THREAD_POOL_SIZE \<Longrightarrow> kpcs y i = KRun t \<Longrightarrow> task_step a i t y = Some z \<Longrightarrow> own_step y z"
| main: "main_step u kid y = Some z \<Longrightarrow> own_step y z"

lemma own_sstep: "own_step y z \<Longrightarrow> sstep y z"
  by (induction rule: own_step.induct) (auto intro: sstep.intros)

inductive sreach :: "sched \<Rightarrow> nat \<Rightarrow> sched \<Rightarrow> bool" for y where
  start: "sreach y 0 y"
| move: "sreach y n z \<Longrightarrow> sstep z z' \<Longrightarrow> sreach y (Suc n) z'"

inductive_cases sstep_cases [consumes 1, case_names loop task waker main]: "sstep y z"

section \<open>Where a task is\<close>

text \<open>The task a scheduler thread is busy with, and how often a task is in its queue or asleep.\<close>

fun attached :: "kpc \<Rightarrow> tid option" where
  "attached (KCount t) = Some t"
| "attached (KRun t) = Some t"
| "attached (KBack t) = Some t"
| "attached (KCheck t) = Some t"
| "attached (KDec t) = Some t"
| "attached (KDestroy t r) = Some t"
| "attached k = None"

definition token :: "sched \<Rightarrow> tid \<Rightarrow> nat" where
  "token y t = count_list (rq y (home y t)) (Some t) + (if t \<in> asleep y then 1 else 0)"

text \<open>
  The number of tokens a task has to have, by the point of its thread and its own point; \<open>None\<close> where
  the two do not go together.
\<close>

fun held :: "kpc \<Rightarrow> tpc \<Rightarrow> nat option" where
  "held (KCount t) TUser = Some 0"
| "held (KRun t) TUser = Some 0"
| "held (KRun t) (TSpawn u) = Some 0"
| "held (KRun t) (TPush u) = Some 0"
| "held (KRun t) TYield = Some 1"
| "held (KRun t) TPark = Some 1"
| "held (KBack t) TUser = Some 1"
| "held (KBack t) TFinished = Some 0"
| "held (KCheck t) TUser = Some 1"
| "held (KCheck t) TFinished = Some 0"
| "held (KDec t) TFinished = Some 0"
| "held (KDestroy t r) TDying = Some 0"
| "held k p = None"

fun loose :: "tpc option \<Rightarrow> nat option" where
  "loose None = Some 0"
| "loose (Some (TNew b)) = Some 0"
| "loose (Some (TCounted b)) = Some 0"
| "loose (Some TUser) = Some 1"
| "loose (Some TGone) = Some 0"
| "loose p = None"

definition expected :: "tid \<Rightarrow> kpc \<Rightarrow> tpc option \<Rightarrow> nat option" where
  "expected t k p = (if attached k = Some t then (case p of None \<Rightarrow> None | Some p \<Rightarrow> held k p) else loose p)"

definition places_ok :: "sched \<Rightarrow> bool" where
  "places_ok y \<longleftrightarrow> (\<forall>t. expected t (kpcs y (home y t)) (tpcs y t) = Some (token y t)) \<and>
     (\<forall>i t. Some t \<in> set (rq y i) \<longrightarrow> home y t = i) \<and> (\<forall>i t. attached (kpcs y i) = Some t \<longrightarrow> home y t = i) \<and> (\<forall>t. home y t < SCHEDULER_THREAD_POOL_SIZE)"

text \<open>A task that is not in a queue yet has exactly one creator, which is about to count or to push it.\<close>

fun task_making :: "tpc option \<Rightarrow> (bool \<times> tid) option" where
  "task_making (Some (TSpawn u)) = Some (False, u)"
| "task_making (Some (TPush u)) = Some (True, u)"
| "task_making p = None"

fun main_making :: "mpc \<Rightarrow> (bool \<times> tid) option" where
  "main_making (MSpawn u) = Some (False, u)"
| "main_making (MPush u) = Some (True, u)"
| "main_making p = None"

definition making :: "sched \<Rightarrow> tid option \<Rightarrow> (bool \<times> tid) option" where
  "making y b = (case b of None \<Rightarrow> main_making (mainpc y) | Some t \<Rightarrow> task_making (tpcs y t))"

fun birth :: "tpc option \<Rightarrow> (bool \<times> tid option) option" where
  "birth (Some (TNew b)) = Some (False, b)"
| "birth (Some (TCounted b)) = Some (True, b)"
| "birth p = None"

definition births_ok :: "sched \<Rightarrow> bool" where
  "births_ok y \<longleftrightarrow> (\<forall>b u c. birth (tpcs y u) = Some (c, b) \<longleftrightarrow> making y b = Some (c, u))"

lemmas sched_ops = push_def goto_def set_tpc_def thread_create_def thread_count_def thread_push_def waker_step_def

lemma count_list_snoc: "count_list (xs @ [x]) y = count_list xs y + (if x = y then 1 else 0)"
  by (induction xs) simp_all

lemma places_okD:
  assumes "places_ok y"
  shows "expected t (kpcs y (home y t)) (tpcs y t) = Some (token y t)" "Some t \<in> set (rq y i) \<Longrightarrow> home y t = i"
    "attached (kpcs y i) = Some t \<Longrightarrow> home y t = i" "home y t < SCHEDULER_THREAD_POOL_SIZE"
  using assms unfolding places_ok_def by blast+

text \<open>A step that changes the places of the tasks in \<open>T\<close> only.\<close>

lemma places_upd:
  assumes y: "places_ok y" and same: "\<And>u. u \<notin> T \<Longrightarrow> home z u = home y u \<and> tpcs z u = tpcs y u \<and> token z u = token y u"
    and changed: "\<And>u. u \<in> T \<Longrightarrow> expected u (kpcs z (home z u)) (tpcs z u) = Some (token z u) \<and> home z u < SCHEDULER_THREAD_POOL_SIZE"
    and k: "\<And>j u. u \<notin> T \<Longrightarrow> kpcs z j \<noteq> kpcs y j \<Longrightarrow> attached (kpcs y j) \<noteq> Some u \<and> attached (kpcs z j) \<noteq> Some u"
    and q: "\<And>j u. u \<in> T \<Longrightarrow> Some u \<in> set (rq z j) \<Longrightarrow> home z u = j" "\<And>j u. u \<notin> T \<Longrightarrow> Some u \<in> set (rq z j) \<Longrightarrow> Some u \<in> set (rq y j)"
    and a: "\<And>j u. u \<in> T \<Longrightarrow> attached (kpcs z j) = Some u \<Longrightarrow> home z u = j"
  shows "places_ok z"
  unfolding places_ok_def
proof (intro conjI allI impI)
  fix t
  show "expected t (kpcs z (home z t)) (tpcs z t) = Some (token z t)"
  proof (cases "t \<in> T")
    case False
    then have "expected t (kpcs z (home y t)) (tpcs y t) = expected t (kpcs y (home y t)) (tpcs y t)"
      using k [OF False, of "home y t"] by (cases "kpcs z (home y t) = kpcs y (home y t)") (simp_all add: expected_def)
    then show ?thesis using same [OF False] places_okD(1) [OF y, of t] by simp
  qed (use changed in blast)
next
  fix j t
  show "home z t = j" if "Some t \<in> set (rq z j)" using that q same places_okD(2) [OF y] by (cases "t \<in> T") auto
  show "home z t = j" if b: "attached (kpcs z j) = Some t"
  proof (cases "t \<in> T")
    case False
    then have "kpcs z j = kpcs y j" using k [OF False, of j] b by auto
    then show ?thesis using b same [OF False] places_okD(3) [OF y, of j t] by simp
  qed (use a b in blast)
next
  show "home z t < SCHEDULER_THREAD_POOL_SIZE" for t using changed same places_okD(4) [OF y, of t] by (cases "t \<in> T") auto
qed

lemma expected_attached: "attached k = Some t \<Longrightarrow> expected t k (Some p) = held k p"
  by (simp add: expected_def)

lemma token_zero: "token y t = 0 \<Longrightarrow> places_ok y \<Longrightarrow> Some t \<notin> set (rq y i)"
  using places_okD(2) [of y t i] by (auto simp: token_def count_list_0_iff split: if_splits)

lemma count_list_other: "x \<noteq> y \<Longrightarrow> count_list (xs @ [x]) y = count_list xs y"
  by (induction xs) simp_all

lemma attached_expected: "places_ok y \<Longrightarrow> attached (kpcs y i) = Some t \<Longrightarrow> \<exists>p. tpcs y t = Some p \<and> held (kpcs y i) p = Some (token y t) \<and> home y t = i"
  using places_okD(1) [of y t] places_okD(3) [of y i t] by (cases "tpcs y t") (simp_all add: expected_def)

text \<open>The thread \<open>i\<close> or its task \<open>t\<close> goes on.\<close>

lemma places_move:
  assumes y: "places_ok y" and t: "attached (kpcs y i) = Some t" and k: "kpcs z = (kpcs y)(i := k)" "attached k = None \<or> attached k = Some t"
    and z: "tpcs z = (tpcs y)(t := p)" "home z = home y" "\<And>u. u \<noteq> t \<Longrightarrow> token z u = token y u" "\<And>j u. Some u \<in> set (rq z j) \<Longrightarrow> Some u \<in> set (rq y j) \<or> u = t \<and> j = i"
    and e: "expected t k p = Some (token z t)"
  shows "places_ok z"
proof (rule places_upd [OF y, where T = "{t}"])
  have h: "home y t = i" by (rule places_okD(3) [OF y t])
  show "expected u (kpcs z (home z u)) (tpcs z u) = Some (token z u) \<and> home z u < SCHEDULER_THREAD_POOL_SIZE" if "u \<in> {t}" for u
    using that e k(1) z(1,2) h places_okD(4) [OF y, of t] by simp
  show "home z u = j" if "u \<in> {t}" "Some u \<in> set (rq z j)" for j u using that z(2) z(4) [of u j] h places_okD(2) [OF y, of t j] by auto
  show "home z u = j" if "u \<in> {t}" "attached (kpcs z j) = Some u" for j u
    using that k z(2) h places_okD(3) [OF y, of j t] by (cases "j = i") auto
qed (use t k z in \<open>auto split: if_splits\<close>)

lemma loop_places:
  assumes y: "places_ok y" and s: "scheduler_loop i y = Some z"
  shows "places_ok z"
proof (cases "kpcs y i")
  case KPop
  obtain x q where q: "rq y i = x # q" using s KPop by (cases "rq y i") (simp_all add: scheduler_loop_def)
  show ?thesis
  proof (cases x)
    case None
    have z: "z = goto i KExit (y\<lparr>rq := (rq y)(i := q)\<rparr>)" using s KPop q None by (simp add: scheduler_loop_def)
    show ?thesis by (rule places_upd [OF y, where T = "{}"]) (use KPop q None in \<open>auto simp: z goto_def token_def split: if_splits\<close>)
  next
    case (Some t)
    have z: "z = goto i (KCount t) (y\<lparr>rq := (rq y)(i := q)\<rparr>)" using s KPop q Some by (simp add: scheduler_loop_def)
    have h: "home y t = i" using places_okD(2) [OF y, of t i] q Some by simp
    have e: "loose (tpcs y t) = Some (token y t)" using places_okD(1) [OF y, of t] KPop h by (simp add: expected_def)
    have "tpcs y t = Some TUser \<and> token y t = 1" using e q Some h by (cases "tpcs y t" rule: loose.cases) (simp_all add: token_def)
    then show ?thesis
      by (intro places_upd [OF y, where T = "{t}"])
        (use KPop q Some h places_okD(2) [OF y, of t] places_okD(3) [OF y, where t = t] places_okD(4) [OF y, of t] in \<open>auto simp: z goto_def token_def expected_def split: if_splits\<close>)
  qed
next
  case (KPush j)
  then show ?thesis using s
    by (intro places_upd [OF y, where T = "{}"]) (auto simp: scheduler_loop_def goto_def push_def token_def count_list_other split: if_splits)
next
  case KSleep
  then show ?thesis using s by (intro places_upd [OF y, where T = "{}"]) (auto simp: scheduler_loop_def goto_def token_def split: if_splits)
next
  case KExit
  then show ?thesis using s by (simp add: scheduler_loop_def)
next
  case (KRun t)
  then show ?thesis using s by (simp add: scheduler_loop_def)
next
  case (KCount t)
  then obtain p where p: "tpcs y t = Some p" "held (KCount t) p = Some (token y t)" using attached_expected [OF y, of i t] by auto
  show ?thesis using s KCount p
    by (intro places_move [OF y, where i = i and t = t and k = "KRun t" and p = "Some p"])
      (auto simp: scheduler_loop_def goto_def token_def expected_def intro!: ext elim!: held.elims)
next
  case (KBack t)
  then obtain p where p: "tpcs y t = Some p" "held (KBack t) p = Some (token y t)" using attached_expected [OF y, of i t] by auto
  show ?thesis using s KBack p
    by (intro places_move [OF y, where i = i and t = t and k = "KCheck t" and p = "Some p"])
      (auto simp: scheduler_loop_def goto_def token_def expected_def intro!: ext elim!: held.elims)
next
  case (KCheck t)
  then obtain p where p: "tpcs y t = Some p" "held (KCheck t) p = Some (token y t)" using attached_expected [OF y, of i t] by auto
  show ?thesis using s KCheck p
    by (intro places_move [OF y, where i = i and t = t and k = "if p = TFinished then KDec t else KPop" and p = "Some p"])
      (auto simp: scheduler_loop_def goto_def token_def expected_def intro!: ext elim!: held.elims)
next
  case (KDec t)
  then obtain p where p: "tpcs y t = Some p" "held (KDec t) p = Some (token y t)" using attached_expected [OF y, of i t] by auto
  show ?thesis using s KDec p
    by (intro places_move [OF y, where i = i and t = t and k = "KDestroy t (task_count y - 1)" and p = "Some TDying"])
      (auto simp: scheduler_loop_def sched_ops token_def expected_def elim!: held.elims)
next
  case (KDestroy t r)
  then obtain p where p: "tpcs y t = Some p" "held (KDestroy t r) p = Some (token y t)" using attached_expected [OF y, of i t] by auto
  show ?thesis using s KDestroy p
    by (intro places_move [OF y, where i = i and t = t and k = "if r = 0 then KSleep else KPop" and p = "Some TGone"])
      (auto simp: scheduler_loop_def sched_ops token_def expected_def elim!: held.elims)
qed

lemma waker_places:
  assumes y: "places_ok y" and t: "t \<in> asleep y"
  shows "places_ok (waker_step t y)"
  by (rule places_upd [OF y, where T = "{t}"])
    (use t places_okD(1,4) [OF y, of t] places_okD(2) [OF y, of t] places_okD(3) [OF y, where t = t] in
      \<open>auto simp: waker_step_def push_def token_def count_list_snoc expected_def split: if_splits\<close>)

text \<open>A task that is in no queue yet is nowhere.\<close>

fun unborn :: "tpc option \<Rightarrow> bool" where
  "unborn None = True"
| "unborn (Some (TNew b)) = True"
| "unborn (Some (TCounted b)) = True"
| "unborn p = False"

lemma unborn_nowhere:
  assumes y: "places_ok y" and u: "unborn (tpcs y u)"
  shows "attached (kpcs y j) \<noteq> Some u" "Some u \<notin> set (rq y j)" "u \<notin> asleep y"
proof -
  have n: "attached (kpcs y j) \<noteq> Some u" for j using attached_expected [OF y, of j u] u by (cases "kpcs y j") (auto elim!: unborn.elims)
  then have t: "token y u = 0" using places_okD(1) [OF y, of u] u by (auto simp: expected_def elim!: unborn.elims)
  show "attached (kpcs y j) \<noteq> Some u" by (rule n)
  show "Some u \<notin> set (rq y j)" by (rule token_zero [OF t y])
  show "u \<notin> asleep y" using t by (simp add: token_def split: if_splits)
qed

lemma create_places:
  assumes y: "places_ok y" and u: "tpcs y u = None" and k: "kid < SCHEDULER_THREAD_POOL_SIZE"
  shows "places_ok (thread_create b u kid y)"
  by (rule places_upd [OF y, where T = "{u}"])
    (use unborn_nowhere [OF y, of u] u k in \<open>auto simp: thread_create_def set_tpc_def token_def expected_def count_list_0_iff\<close>)

lemma count_places:
  assumes y: "places_ok y" and u: "tpcs y u = Some (TNew b')"
  shows "places_ok (thread_count b u y)"
  by (rule places_upd [OF y, where T = "{u}"])
    (use unborn_nowhere [OF y, of u] u places_okD(4) [OF y, of u] in \<open>auto simp: thread_count_def set_tpc_def token_def expected_def count_list_0_iff\<close>)

lemma push_places:
  assumes y: "places_ok y" and u: "tpcs y u = Some (TCounted b')"
  shows "places_ok (thread_push u y)"
  by (rule places_upd [OF y, where T = "{u}"])
    (use unborn_nowhere [OF y, of u] u places_okD(4) [OF y, of u] in
      \<open>auto simp: thread_push_def push_def set_tpc_def token_def expected_def count_list_0_iff split: if_splits\<close>)

lemma births_okD: "births_ok y \<Longrightarrow> birth (tpcs y u) = Some (c, b) \<longleftrightarrow> making y b = Some (c, u)"
  by (simp add: births_ok_def)

lemma made_new: "births_ok y \<Longrightarrow> making y b = Some (False, u) \<Longrightarrow> \<exists>b'. tpcs y u = Some (TNew b')"
  by (cases "tpcs y u" rule: birth.cases) (use births_okD [of y u False b] in simp_all)

lemma made_counted: "births_ok y \<Longrightarrow> making y b = Some (True, u) \<Longrightarrow> \<exists>b'. tpcs y u = Some (TCounted b')"
  by (cases "tpcs y u" rule: birth.cases) (use births_okD [of y u True b] in simp_all)

lemma task_places:
  assumes y: "places_ok y" and b: "births_ok y" and t: "kpcs y i = KRun t" and s: "task_step a i t y = Some z"
  shows "places_ok z"
proof -
  obtain p where p: "tpcs y t = Some p" "held (KRun t) p = Some (token y t)" and h: "home y t = i" using attached_expected [OF y, of i t] t by auto
  have tk: "attached (kpcs y i) = Some t" using t by simp
  have move: "places_ok (set_tpc t p' x)" if x: "places_ok x" "kpcs x = kpcs y" "home x t = i" "tpcs x t = Some p" "held (KRun t) p' = held (KRun t) p" for x p'
  proof -
    have "held (KRun t) p = Some (token x t)" using attached_expected [OF x(1), of i t] x t by auto
    then show ?thesis
      by (intro places_move [OF x(1), where i = i and t = t and k = "KRun t" and p = "Some p'"]) (use x t in \<open>auto simp: set_tpc_def token_def expected_def\<close>)
  qed
  show ?thesis
  proof (cases p)
    case TUser
    show ?thesis
    proof (cases a)
      case (Spawn u kid)
      then have u: "tpcs y u = None" "kid < SCHEDULER_THREAD_POOL_SIZE" "z = set_tpc t (TSpawn u) (thread_create (Some t) u kid y)"
        using s p TUser by (auto simp: task_step_def split: if_splits)
      show ?thesis unfolding u(3)
        by (rule move [OF create_places [OF y u(1,2)]]) (use u p TUser h in \<open>auto simp: thread_create_def set_tpc_def\<close>)
    next
      case Yield
      then show ?thesis using s p TUser h t
        by (intro places_move [OF y tk, where k = "KRun t" and p = "Some TYield"])
          (auto simp: task_step_def push_def set_tpc_def token_def expected_def count_list_snoc split: if_splits)
    next
      case Park
      then show ?thesis using s p TUser h t
        by (intro places_move [OF y tk, where k = "KRun t" and p = "Some TPark"])
          (auto simp: task_step_def set_tpc_def token_def expected_def split: if_splits)
    next
      case Finish
      then show ?thesis using s p TUser h t
        by (intro places_move [OF y tk, where k = "KBack t" and p = "Some TFinished"])
          (auto simp: task_step_def goto_def set_tpc_def token_def expected_def split: if_splits)
    qed
  next
    case (TSpawn u)
    obtain b' where u: "tpcs y u = Some (TNew b')" using made_new [OF b, of "Some t" u] p TSpawn by (auto simp: making_def)
    have z: "z = set_tpc t (TPush u) (thread_count (Some t) u y)" using s p TSpawn by (simp add: task_step_def)
    show ?thesis unfolding z
      by (rule move [OF count_places [OF y u]]) (use u p TSpawn h in \<open>auto simp: thread_count_def set_tpc_def\<close>)
  next
    case (TPush u)
    obtain b' where u: "tpcs y u = Some (TCounted b')" using made_counted [OF b, of "Some t" u] p TPush by (auto simp: making_def)
    have z: "z = set_tpc t TUser (thread_push u y)" using s p TPush by (simp add: task_step_def)
    show ?thesis unfolding z
      by (rule move [OF push_places [OF y u]]) (use u p TPush h in \<open>auto simp: thread_push_def push_def set_tpc_def\<close>)
  next
    case TYield
    then have z: "z = goto i (KBack t) (set_tpc t TUser y)" and one: "token y t = 1" using s p by (simp_all add: task_step_def)
    show ?thesis unfolding z
      by (rule places_move [OF y tk, where k = "KBack t" and p = "Some TUser"]) (use one in \<open>simp_all add: goto_def set_tpc_def token_def expected_def\<close>)
  next
    case TPark
    then have z: "z = goto i (KBack t) (set_tpc t TUser y)" and one: "token y t = 1" using s p by (simp_all add: task_step_def)
    show ?thesis unfolding z
      by (rule places_move [OF y tk, where k = "KBack t" and p = "Some TUser"]) (use one in \<open>simp_all add: goto_def set_tpc_def token_def expected_def\<close>)
  qed (use s p in \<open>simp_all add: task_step_def\<close>)
qed

lemma places_mainpc: "places_ok (y\<lparr>mainpc := m\<rparr>) = places_ok y" "places_ok (y\<lparr>threads_total := n\<rparr>) = places_ok y"
  by (simp_all add: places_ok_def token_def)

lemma main_places:
  assumes y: "places_ok y" and b: "births_ok y" and s: "main_step u kid y = Some z"
  shows "places_ok z"
proof (cases "mainpc y")
  case MThread
  then show ?thesis using s create_places [OF y] by (auto simp: main_step_def places_mainpc split: if_splits)
next
  case (MSpawn v)
  moreover obtain b' where "tpcs y v = Some (TNew b')" using made_new [OF b, of None v] MSpawn by (auto simp: making_def)
  ultimately show ?thesis using s count_places [OF y, of v b' None] by (auto simp: main_step_def places_mainpc)
next
  case (MPush v)
  moreover obtain b' where "tpcs y v = Some (TCounted b')" using made_counted [OF b, of None v] MPush by (auto simp: making_def)
  ultimately show ?thesis using s push_places [OF y, of v b'] by (auto simp: main_step_def places_mainpc)
qed (use s y in \<open>auto simp: main_step_def places_mainpc split: if_splits\<close>)

section \<open>Creators and counts\<close>

text \<open>The creator \<open>b\<close> and the new task \<open>u\<close> go on together.\<close>

lemma births_upd:
  assumes y: "births_ok y" and z: "\<And>a. a \<noteq> b \<Longrightarrow> making z a = making y a" "\<And>v. v \<noteq> u \<Longrightarrow> birth (tpcs z v) = birth (tpcs y v)"
    and o: "making y b = None \<and> birth (tpcs y u) = None \<or> making y b = Some (c, u)"
    and n: "making z b = None \<and> birth (tpcs z u) = None \<or> making z b = Some (c', u) \<and> birth (tpcs z u) = Some (c', b)"
  shows "births_ok z"
  unfolding births_ok_def
proof (intro allI)
  fix a v d
  show "birth (tpcs z v) = Some (d, a) \<longleftrightarrow> making z a = Some (d, v)"
    using births_okD [OF y, of v d a] births_okD [OF y, of u d a] births_okD [OF y, of v d b] births_okD [OF y, of u c b] o n z(1) [of a] z(2) [of v]
    by (cases "a = b"; cases "v = u") auto
qed

lemma births_same: "births_ok y \<Longrightarrow> making z = making y \<Longrightarrow> (\<And>u. birth (tpcs z u) = birth (tpcs y u)) \<Longrightarrow> births_ok z"
  by (simp add: births_ok_def)

lemma births_plain:
  assumes y: "births_ok y" and z: "tpcs z = (tpcs y)(t := p)" "main_making (mainpc z) = main_making (mainpc y)"
    and p: "task_making (tpcs y t) = None" "task_making p = None" "birth (tpcs y t) = None" "birth p = None"
  shows "births_ok z"
  by (rule births_same [OF y]) (use z p in \<open>auto simp: making_def fun_eq_iff split: option.splits\<close>)

lemma loop_births:
  assumes y: "places_ok y" and b: "births_ok y" and s: "scheduler_loop i y = Some z"
  shows "births_ok z"
proof -
  have same: "births_ok z" if "tpcs z = tpcs y" "mainpc z = mainpc y" by (rule births_same [OF b]) (simp_all add: making_def that fun_eq_iff split: option.splits)
  show ?thesis
  proof (cases "kpcs y i")
    case (KDec t)
    then have "tpcs y t = Some TFinished" using attached_expected [OF y, of i t] by (auto elim: held.elims)
    then show ?thesis using KDec s by (intro births_plain [OF b, of z t "Some TDying"]) (auto simp: scheduler_loop_def goto_def set_tpc_def)
  next
    case (KDestroy t r)
    then have "tpcs y t = Some TDying" using attached_expected [OF y, of i t] by (auto elim: held.elims)
    then show ?thesis using KDestroy s by (intro births_plain [OF b, of z t "Some TGone"]) (auto simp: scheduler_loop_def goto_def set_tpc_def)
  qed (use s same in \<open>auto simp: scheduler_loop_def goto_def push_def split: list.splits option.splits if_splits\<close>)
qed

lemma task_births:
  assumes y: "places_ok y" and b: "births_ok y" and t: "kpcs y i = KRun t" and s: "task_step a i t y = Some z"
  shows "births_ok z"
proof -
  obtain p where p: "tpcs y t = Some p" using attached_expected [OF y, of i t] t by auto
  show ?thesis
  proof (cases p)
    case TUser
    show ?thesis
    proof (cases a)
      case (Spawn u kid)
      then have "tpcs y u = None" "z = set_tpc t (TSpawn u) (thread_create (Some t) u kid y)"
        using s p TUser by (auto simp: task_step_def split: if_splits)
      then show ?thesis using p TUser
        by (intro births_upd [OF b, where b = "Some t" and u = u and c = False and c' = False]) (auto simp: making_def thread_create_def set_tpc_def split: option.splits)
    next
      case Yield
      then show ?thesis using s p TUser by (intro births_plain [OF b, of z t "Some TYield"]) (auto simp: task_step_def push_def set_tpc_def)
    next
      case Park
      then show ?thesis using s p TUser by (intro births_plain [OF b, of z t "Some TPark"]) (auto simp: task_step_def set_tpc_def)
    next
      case Finish
      then show ?thesis using s p TUser by (intro births_plain [OF b, of z t "Some TFinished"]) (auto simp: task_step_def goto_def set_tpc_def)
    qed
  next
    case (TSpawn u)
    have m: "making y (Some t) = Some (False, u)" using p TSpawn by (simp add: making_def)
    have u: "birth (tpcs y u) = Some (False, Some t)" using births_okD [OF b, of u False "Some t"] m by simp
    then have "t \<noteq> u" "task_making (tpcs y u) = None" using p TSpawn by (auto elim!: birth.elims)
    moreover have "z = set_tpc t (TPush u) (thread_count (Some t) u y)" using s p TSpawn by (simp add: task_step_def)
    ultimately show ?thesis using m
      by (intro births_upd [OF b, where b = "Some t" and u = u and c = False and c' = True]) (use p TSpawn in \<open>auto simp: making_def thread_count_def set_tpc_def split: option.splits\<close>)
  next
    case (TPush u)
    have m: "making y (Some t) = Some (True, u)" using p TPush by (simp add: making_def)
    have u: "birth (tpcs y u) = Some (True, Some t)" using births_okD [OF b, of u True "Some t"] m by simp
    then have "t \<noteq> u" "task_making (tpcs y u) = None" using p TPush by (auto elim!: birth.elims)
    moreover have "z = set_tpc t TUser (thread_push u y)" using s p TPush by (simp add: task_step_def)
    ultimately show ?thesis using m
      by (intro births_upd [OF b, where b = "Some t" and u = u and c = True and c' = True])
        (use p TPush in \<open>auto simp: making_def thread_push_def push_def set_tpc_def split: option.splits\<close>)
  next
    case TYield
    then show ?thesis using s p by (intro births_plain [OF b, of z t "Some TUser"]) (auto simp: task_step_def goto_def set_tpc_def)
  next
    case TPark
    then show ?thesis using s p by (intro births_plain [OF b, of z t "Some TUser"]) (auto simp: task_step_def goto_def set_tpc_def)
  qed (use s p in \<open>simp_all add: task_step_def\<close>)
qed

lemma main_births:
  assumes b: "births_ok y" and s: "main_step v kid y = Some z"
  shows "births_ok z"
proof (cases "mainpc y")
  case MThread
  then have "tpcs y v = None" "z = (thread_create None v kid y)\<lparr>mainpc := MSpawn v\<rparr>" using s by (auto simp: main_step_def split: if_splits)
  then show ?thesis using MThread
    by (intro births_upd [OF b, where b = None and u = v and c = False and c' = False]) (auto simp: making_def thread_create_def set_tpc_def split: option.splits)
next
  case (MSpawn u)
  then have m: "making y None = Some (False, u)" by (simp add: making_def)
  then have "task_making (tpcs y u) = None" using births_okD [OF b, of u False None] by (auto elim!: birth.elims)
  moreover have "z = (thread_count None u y)\<lparr>mainpc := MPush u\<rparr>" using s MSpawn by (simp add: main_step_def)
  ultimately show ?thesis using m
    by (intro births_upd [OF b, where b = None and u = u and c = False and c' = True]) (auto simp: making_def thread_count_def set_tpc_def split: option.splits)
next
  case (MPush u)
  then have m: "making y None = Some (True, u)" by (simp add: making_def)
  then have "task_making (tpcs y u) = None" using births_okD [OF b, of u True None] by (auto elim!: birth.elims)
  moreover have "z = (thread_push u y)\<lparr>mainpc := MGc\<rparr>" using s MPush by (simp add: main_step_def)
  ultimately show ?thesis using m
    by (intro births_upd [OF b, where b = None and u = u and c = True and c' = True]) (auto simp: making_def thread_push_def push_def set_tpc_def split: option.splits)
next
  case (MJoin i)
  then show ?thesis using s by (intro births_same [OF b]) (auto simp: main_step_def making_def fun_eq_iff split: option.splits if_splits)
next
  case MGc
  then show ?thesis using s by (intro births_same [OF b]) (auto simp: main_step_def making_def fun_eq_iff split: option.splits)
qed (use s in \<open>simp add: main_step_def\<close>)

end
