(* ===== verification/Shutdown.thy ===== *)
theory Shutdown
  imports Scheduler
begin

text \<open>
  The counters of the scheduler and its shutdown: \<open>task_count\<close> is the number of tasks that are started and
  not finished, \<open>threads_total\<close> the number of threads that run a task until \<open>gc_start\<close> resets it, and when the last
  task has finished, one thread tells all of them to end.
\<close>

section \<open>Counters\<close>

fun counted :: "tpc option \<Rightarrow> bool" where
  "counted None = False"
| "counted (Some (TNew b)) = False"
| "counted (Some TDying) = False"
| "counted (Some TGone) = False"
| "counted p = True"

fun active :: "kpc \<Rightarrow> bool" where
  "active (KRun t) = True"
| "active (KBack t) = True"
| "active k = False"

definition tasks_counted :: "sched \<Rightarrow> bool" where
  "tasks_counted y \<longleftrightarrow> finite {t. counted (tpcs y t)} \<and> task_count y = int (card {t. counted (tpcs y t)})"

text \<open>The number of running threads, and that the counter is too low by \<open>d\<close>.\<close>

definition running :: "sched \<Rightarrow> int" where
  "running y = int (card {i. i < SCHEDULER_THREAD_POOL_SIZE \<and> active (kpcs y i)})"

definition threads_counted :: "int \<Rightarrow> sched \<Rightarrow> bool" where
  "threads_counted d y \<longleftrightarrow> threads_total y = running y - d"

fun gc_started :: "mpc \<Rightarrow> bool" where
  "gc_started (MJoin i) \<longleftrightarrow> True"
| "gc_started MEnd \<longleftrightarrow> True"
| "gc_started m \<longleftrightarrow> False"

lemma card_upd:
  assumes f: "finite {u. u \<in> A \<and> P (f u)}" and t: "t \<in> A"
  shows "finite {u. u \<in> A \<and> P ((f(t := p)) u)}"
    "int (card {u. u \<in> A \<and> P ((f(t := p)) u)}) = int (card {u. u \<in> A \<and> P (f u)}) - (if P (f t) then 1 else 0) + (if P p then 1 else 0)"
proof -
  let ?R = "{u. u \<in> A \<and> P (f u)} - {t}"
  have n: "{u. u \<in> A \<and> P ((f(t := p)) u)} = (if P p then insert t ?R else ?R)" using t by auto
  have r: "finite ?R" "t \<notin> ?R" using f by auto
  have o: "int (card {u. u \<in> A \<and> P (f u)}) = int (card ?R) + (if P (f t) then 1 else 0)"
  proof (cases "P (f t)")
    case True
    then have "{u. u \<in> A \<and> P (f u)} = insert t ?R" using t by auto
    then have "card {u. u \<in> A \<and> P (f u)} = Suc (card ?R)" using card_insert_disjoint [OF r] by metis
    then show ?thesis using True by simp
  next
    case False
    then have "{u. u \<in> A \<and> P (f u)} = ?R" by auto
    then show ?thesis using False by simp
  qed
  show "finite {u. u \<in> A \<and> P ((f(t := p)) u)}" unfolding n using r(1) by simp
  show "int (card {u. u \<in> A \<and> P ((f(t := p)) u)}) = int (card {u. u \<in> A \<and> P (f u)}) - (if P (f t) then 1 else 0) + (if P p then 1 else 0)"
    unfolding n o using card_insert_disjoint [OF r] by (cases "P p") simp_all
qed

lemma tasks_upd:
  assumes y: "tasks_counted y" and z: "tpcs z = (tpcs y)(t := p)" "task_count z = task_count y - (if counted (tpcs y t) then 1 else 0) + (if counted p then 1 else 0)"
  shows "tasks_counted z"
  using card_upd [of UNIV counted "tpcs y" t p] y z by (simp add: tasks_counted_def)

lemma threads_upd:
  assumes y: "threads_counted d y" and i: "i < SCHEDULER_THREAD_POOL_SIZE"
    and z: "kpcs z = (kpcs y)(i := k)" "threads_total z = threads_total y - (if active (kpcs y i) then 1 else 0) + (if active k then 1 else 0)"
  shows "threads_counted d z"
  using card_upd [of "{i. i < SCHEDULER_THREAD_POOL_SIZE}" active "kpcs y" i k] y z i by (simp add: threads_counted_def running_def)

lemma no_tasks: "tasks_counted y \<Longrightarrow> task_count y = 0 \<Longrightarrow> \<not> counted (tpcs y t)"
  by (auto simp: tasks_counted_def)

lemma some_task: "tasks_counted y \<Longrightarrow> counted (tpcs y t) \<Longrightarrow> 0 < task_count y"
  by (auto simp: tasks_counted_def card_gt_0_iff)

lemma step_threads:
  assumes y: "threads_counted d y" and s: "sstep y z" and m: "mainpc y = MGc \<longrightarrow> mainpc z = MGc"
  shows "threads_counted d z"
  using s
proof (cases rule: sstep_cases)
  case (loop i)
  then show ?thesis by (intro threads_upd [OF y, of i z "kpcs z i"])
    (auto simp: scheduler_loop_def goto_def push_def set_tpc_def split: kpc.splits list.splits option.splits if_splits)
next
  case (task i t a)
  then show ?thesis by (intro threads_upd [OF y, of i z "kpcs z i"])
    (auto simp: task_step_def sched_ops split: tpc.splits act.splits option.splits if_splits)
next
  case (main u kid)
  then show ?thesis using y m by (auto simp: main_step_def sched_ops threads_counted_def running_def split: mpc.splits if_splits)
qed (use y in \<open>simp add: waker_step_def threads_counted_def running_def push_def\<close>)

lemma step_main: "sstep y z \<Longrightarrow> mainpc z = mainpc y \<or> (\<exists>u kid. main_step u kid y = Some z)"
  by (elim sstep_cases) (auto simp: waker_step_def scheduler_loop_def task_step_def sched_ops split: kpc.splits tpc.splits act.splits list.splits option.splits if_splits)

lemma step_gc_started:
  assumes "sstep y z"
  shows "gc_started (mainpc y) \<Longrightarrow> gc_started (mainpc z)" "\<not> gc_started (mainpc z) \<Longrightarrow> mainpc y = MGc \<longrightarrow> mainpc z = MGc"
  using step_main [OF assms] by (cases "mainpc y"; auto simp: main_step_def split: if_splits)+

lemma tasks_same [simp]: "tasks_counted (goto j k y) = tasks_counted y" "tasks_counted (push j x y) = tasks_counted y"
  "tasks_counted (y\<lparr>asleep := w\<rparr>) = tasks_counted y" "tasks_counted (y\<lparr>mainpc := q\<rparr>) = tasks_counted y"
  "tasks_counted (y\<lparr>threads_total := n\<rparr>) = tasks_counted y"
  by (simp_all add: tasks_counted_def goto_def push_def)

lemma loop_tasks:
  assumes y: "places_ok y" and c: "tasks_counted y" and s: "scheduler_loop i y = Some z"
  shows "tasks_counted z"
proof (cases "kpcs y i")
  case (KDec t)
  then have "tpcs y t = Some TFinished" using attached_expected [OF y, of i t] by (auto elim: held.elims)
  then show ?thesis using KDec s by (intro tasks_upd [OF c, of z t "Some TDying"]) (auto simp: scheduler_loop_def goto_def set_tpc_def)
next
  case (KDestroy t r)
  then have "tpcs y t = Some TDying" using attached_expected [OF y, of i t] by (auto elim: held.elims)
  then show ?thesis using KDestroy s by (intro tasks_upd [OF c, of z t "Some TGone"]) (auto simp: scheduler_loop_def goto_def set_tpc_def)
qed (use s c in \<open>auto simp: scheduler_loop_def goto_def push_def tasks_counted_def split: list.splits option.splits if_splits\<close>)

lemma made_tasks:
  assumes c: "tasks_counted y"
  shows "tpcs y u = None \<Longrightarrow> tasks_counted (thread_create b u kid y)" "tpcs y u = Some (TNew b') \<Longrightarrow> tasks_counted (thread_count b u y)"
    "tpcs y u = Some (TCounted b') \<Longrightarrow> tasks_counted (thread_push u y)"
  by (rule tasks_upd [OF c, of _ u "Some (TNew b)"], simp_all add: thread_create_def set_tpc_def)
    (rule tasks_upd [OF c, of _ u "Some (TCounted b)"], simp_all add: thread_count_def set_tpc_def,
     rule tasks_upd [OF c, of _ u "Some TUser"], simp_all add: thread_push_def push_def set_tpc_def)

lemma task_tasks:
  assumes y: "places_ok y" and b: "births_ok y" and c: "tasks_counted y" and t: "kpcs y i = KRun t" and s: "task_step a i t y = Some z"
  shows "tasks_counted z"
proof -
  obtain p where p: "tpcs y t = Some p" "held (KRun t) p \<noteq> None" using attached_expected [OF y, of i t] t by auto
  have go: "tasks_counted (set_tpc t p' x)" if "tasks_counted x" "tpcs x t = Some p" "counted (Some p')" for x p'
    using that p(2) by (intro tasks_upd [OF that(1), of _ t "Some p'"]) (auto simp: set_tpc_def elim: held.elims)
  show ?thesis
  proof (cases p)
    case TUser
    show ?thesis
    proof (cases a)
      case (Spawn u kid)
      then have u: "tpcs y u = None" "z = set_tpc t (TSpawn u) (thread_create (Some t) u kid y)" using s p TUser by (auto simp: task_step_def split: if_splits)
      show ?thesis unfolding u(2) by (rule go [OF made_tasks(1) [OF c u(1)]]) (use u p in \<open>auto simp: thread_create_def set_tpc_def\<close>)
    next
      case Yield
      then show ?thesis using s p TUser go [of "push i (Some t) y"] c by (auto simp: task_step_def push_def [THEN arg_cong [where f = tpcs]])
    next
      case Park
      then show ?thesis using s p TUser go [of "y\<lparr>asleep := insert t (asleep y)\<rparr>"] c by (auto simp: task_step_def)
    next
      case Finish
      then show ?thesis using s p TUser go [OF c] by (auto simp: task_step_def)
    qed
  next
    case (TSpawn u)
    obtain b' where u: "tpcs y u = Some (TNew b')" using made_new [OF b, of "Some t" u] p TSpawn by (auto simp: making_def)
    have z: "z = set_tpc t (TPush u) (thread_count (Some t) u y)" using s p TSpawn by (simp add: task_step_def)
    show ?thesis unfolding z by (rule go [OF made_tasks(2) [OF c u]]) (use u p TSpawn in \<open>auto simp: thread_count_def set_tpc_def\<close>)
  next
    case (TPush u)
    obtain b' where u: "tpcs y u = Some (TCounted b')" using made_counted [OF b, of "Some t" u] p TPush by (auto simp: making_def)
    have z: "z = set_tpc t TUser (thread_push u y)" using s p TPush by (simp add: task_step_def)
    show ?thesis unfolding z by (rule go [OF made_tasks(3) [OF c u]]) (use u p TPush in \<open>auto simp: thread_push_def push_def set_tpc_def\<close>)
  qed (use s p go [OF c] in \<open>auto simp: task_step_def\<close>)
qed

lemma main_tasks:
  assumes b: "births_ok y" and c: "tasks_counted y" and s: "main_step u kid y = Some z"
  shows "tasks_counted z"
proof (cases "mainpc y")
  case (MSpawn v)
  moreover obtain b' where "tpcs y v = Some (TNew b')" using made_new [OF b, of None v] MSpawn by (auto simp: making_def)
  ultimately show ?thesis using s made_tasks(2) [OF c, of v b' None] by (auto simp: main_step_def)
  next
  case (MPush v)
  moreover obtain b' where "tpcs y v = Some (TCounted b')" using made_counted [OF b, of None v] MPush by (auto simp: making_def)
  ultimately show ?thesis using s made_tasks(3) [OF c, of v b'] by (auto simp: main_step_def)
qed (use s c made_tasks(1) [OF c, of u None kid] in \<open>auto simp: main_step_def split: if_splits\<close>)

section \<open>Shutdown\<close>

text \<open>Points after the last task was counted out, and how many threads have been told to end.\<close>

fun shutting :: "kpc \<Rightarrow> bool" where
  "shutting (KDestroy t r) \<longleftrightarrow> r = 0"
| "shutting KSleep \<longleftrightarrow> True"
| "shutting (KPush j) \<longleftrightarrow> True"
| "shutting k \<longleftrightarrow> False"

fun pushed :: "kpc \<Rightarrow> nat" where
  "pushed (KPush j) = j"
| "pushed k = 0"

fun started :: "mpc \<Rightarrow> bool" where
  "started MThread \<longleftrightarrow> False"
| "started (MSpawn u) \<longleftrightarrow> False"
| "started m \<longleftrightarrow> True"

definition told :: "sched \<Rightarrow> nat \<Rightarrow> bool" where
  "told y j \<longleftrightarrow> count_list (rq y j) None \<le> 1 \<and> (kpcs y j = KExit \<or> count_list (rq y j) None = 1)"

definition untold :: "sched \<Rightarrow> nat \<Rightarrow> bool" where
  "untold y j \<longleftrightarrow> count_list (rq y j) None = 0 \<and> kpcs y j \<noteq> KExit"

datatype closing = Open | Closing nat | Closed

fun closing_ok :: "closing \<Rightarrow> sched \<Rightarrow> bool" where
  "closing_ok Open y \<longleftrightarrow> (\<forall>j < SCHEDULER_THREAD_POOL_SIZE. \<not> shutting (kpcs y j) \<and> untold y j) \<and> (started (mainpc y) \<longleftrightarrow> task_count y \<noteq> 0)"
| "closing_ok (Closing i) y \<longleftrightarrow> i < SCHEDULER_THREAD_POOL_SIZE \<and> shutting (kpcs y i) \<and> pushed (kpcs y i) \<le> SCHEDULER_THREAD_POOL_SIZE \<and>
     started (mainpc y) \<and> task_count y = 0 \<and>
     (\<forall>j < SCHEDULER_THREAD_POOL_SIZE. (j \<noteq> i \<longrightarrow> \<not> shutting (kpcs y j)) \<and> (if j < pushed (kpcs y i) then told y j else untold y j))"
| "closing_ok Closed y \<longleftrightarrow> started (mainpc y) \<and> task_count y = 0 \<and> (\<forall>j < SCHEDULER_THREAD_POOL_SIZE. \<not> shutting (kpcs y j) \<and> told y j)"

definition sinv :: "sched \<Rightarrow> bool" where
  "sinv y \<longleftrightarrow> places_ok y \<and> births_ok y \<and> tasks_counted y \<and> (\<not> gc_started (mainpc y) \<longrightarrow> threads_counted 0 y) \<and> (\<exists>c. closing_ok c y)"

text \<open>A step that changes nothing of this.\<close>

lemma closing_same:
  assumes c: "closing_ok c y" and z: "started (mainpc z) = started (mainpc y)" "task_count z = task_count y"
    and v: "\<And>j. j < SCHEDULER_THREAD_POOL_SIZE \<Longrightarrow> shutting (kpcs z j) = shutting (kpcs y j) \<and> (kpcs z j = KExit) = (kpcs y j = KExit) \<and>
      pushed (kpcs z j) = pushed (kpcs y j) \<and> count_list (rq z j) None = count_list (rq y j) None"
  shows "closing_ok c z"
proof (cases c)
  case Open
  then show ?thesis using c z v by (simp add: untold_def)
next
  case (Closing i)
  have t: "told z j = told y j" "untold z j = untold y j" if "j < SCHEDULER_THREAD_POOL_SIZE" for j using v [OF that] by (simp_all add: told_def untold_def)
  show ?thesis using c z v [of i] v t unfolding Closing closing_ok.simps by (metis (no_types, lifting))
next
  case Closed
  then show ?thesis using c z v by (simp add: told_def)
qed

lemma counted_started: "tasks_counted y \<Longrightarrow> counted (tpcs y t) \<Longrightarrow> closing_ok c y \<Longrightarrow> c = Open \<and> started (mainpc y) \<and> 0 < task_count y"
  using some_task [of y t] by (cases c) auto

lemma loop_closing:
  assumes y: "sinv y" and i: "i < SCHEDULER_THREAD_POOL_SIZE" and s: "scheduler_loop i y = Some z"
  shows "\<exists>c. closing_ok c z"
proof -
  obtain c where c: "closing_ok c y" and p: "places_ok y" and n: "tasks_counted y" using y by (auto simp: sinv_def)
  have same: "\<exists>c. closing_ok c z" if "mainpc z = mainpc y" "task_count z = task_count y" "\<And>j. count_list (rq z j) None = count_list (rq y j) None"
    "kpcs z = (kpcs y)(i := k)" "shutting k = shutting (kpcs y i)" "k \<noteq> KExit" "kpcs y i \<noteq> KExit" "pushed k = pushed (kpcs y i)" for k
    by (rule exI [of _ c], rule closing_same [OF c]) (use that in auto)
  show ?thesis
  proof (cases "kpcs y i")
    case KPop
    show ?thesis
    proof (cases "rq y i")
      case Nil
      then show ?thesis using s KPop by (simp add: scheduler_loop_def)
    next
      case (Cons x q)
      show ?thesis
      proof (cases x)
        case None
        have z: "z = goto i KExit (y\<lparr>rq := (rq y)(i := q)\<rparr>)" using s KPop Cons None by (simp add: scheduler_loop_def)
        have t: "told z i" if "told y i" using that Cons None by (simp add: told_def z goto_def)
        have o: "told z j = told y j" "untold z j = untold y j" "kpcs z j = kpcs y j" if "j \<noteq> i" for j using that by (simp_all add: told_def untold_def z goto_def)
        have u: "\<not> untold y i" using Cons None by (simp add: untold_def)
        have e: "mainpc z = mainpc y" "task_count z = task_count y" "kpcs z i = KExit" by (simp_all add: z goto_def)
        have "closing_ok c z"
        proof (cases c)
          case Open
          then show ?thesis using c i u by simp
        next
          case (Closing k)
          then have k: "k \<noteq> i" using c KPop by auto
          have y': "(j \<noteq> k \<longrightarrow> \<not> shutting (kpcs y j)) \<and> (if j < pushed (kpcs y k) then told y j else untold y j)" if "j < SCHEDULER_THREAD_POOL_SIZE" for j
            using c that by (simp add: Closing)
          have "(j \<noteq> k \<longrightarrow> \<not> shutting (kpcs z j)) \<and> (if j < pushed (kpcs y k) then told z j else untold z j)" if "j < SCHEDULER_THREAD_POOL_SIZE" for j
            using y' [OF that] u t o [of j] e(3) by (cases "j = i") (simp_all split: if_splits)
          then show ?thesis using c Closing k e o(3) [OF k] by simp
        next
          case Closed
          have "\<not> shutting (kpcs z j) \<and> told z j" if "j < SCHEDULER_THREAD_POOL_SIZE" for j using c that t o [of j] e(3) Closed by (cases "j = i") simp_all
          then show ?thesis using c Closed e by simp
        qed
        then show ?thesis by blast
      next
        case (Some t)
        then show ?thesis using s KPop Cons by (intro same [of "KCount t"]) (auto simp: scheduler_loop_def goto_def)
      qed
    qed
  next
    case (KCount t)
    then show ?thesis using s by (intro same [of "KRun t"]) (auto simp: scheduler_loop_def goto_def)
  next
    case (KBack t)
    then show ?thesis using s by (intro same [of "KCheck t"]) (auto simp: scheduler_loop_def goto_def)
  next
    case (KCheck t)
    then show ?thesis using s by (intro same [of "if tpcs y t = Some TFinished then KDec t else KPop"]) (auto simp: scheduler_loop_def goto_def)
  next
    case (KDestroy t r)
    then show ?thesis using s by (intro same [of "if r = 0 then KSleep else KPop"]) (auto simp: scheduler_loop_def goto_def set_tpc_def)
  next
    case KSleep
    then have "task_count y = 0" using c i by (cases c) auto
    then show ?thesis using s KSleep by (intro same [of "KPush 0"]) (auto simp: scheduler_loop_def goto_def)
  next
    case (KDec t)
    have "counted (tpcs y t)" using attached_expected [OF p, of i t] KDec by (auto elim: held.elims)
    then have o: "c = Open" "started (mainpc y)" "0 < task_count y" using counted_started [OF n _ c] by auto
    have z: "mainpc z = mainpc y" "task_count z = task_count y - 1" "rq z = rq y" "kpcs z = (kpcs y)(i := KDestroy t (task_count y - 1))"
      using s KDec by (auto simp: scheduler_loop_def goto_def set_tpc_def)
    show ?thesis
    proof (cases "task_count y = 1")
      case True
      then have "closing_ok (Closing i) z" using c o z i by (simp add: untold_def)
      then show ?thesis by blast
    next
      case False
      then have "closing_ok Open z" using c o z by (simp add: untold_def)
      then show ?thesis by blast
    qed
  next
    case (KPush k)
    then have o: "c = Closing i" "k \<le> 12" using c i by (cases c; auto)+
    show ?thesis
    proof (cases "k < 12")
      case True
      then have z: "mainpc z = mainpc y" "task_count z = task_count y" "rq z = (rq y)(k := rq y k @ [None])" "kpcs z = (kpcs y)(i := KPush (Suc k))"
        using s KPush by (auto simp: scheduler_loop_def goto_def push_def)
      have y': "(j \<noteq> i \<longrightarrow> \<not> shutting (kpcs y j)) \<and> (if j < k then told y j else untold y j)" if "j < SCHEDULER_THREAD_POOL_SIZE" for j
        using c that by (simp add: o KPush)
      have "(j \<noteq> i \<longrightarrow> \<not> shutting (kpcs z j)) \<and> (if j < Suc k then told z j else untold z j)" if "j < SCHEDULER_THREAD_POOL_SIZE" for j
        using y' [OF that] KPush by (cases j k rule: linorder_cases; cases "j = i") (simp_all add: told_def untold_def z count_list_snoc)
      then have "closing_ok (Closing i) z" using c o z i KPush True by simp
      then show ?thesis by blast
    next
      case False
      then have z: "mainpc z = mainpc y" "task_count z = task_count y" "rq z = rq y" "kpcs z = (kpcs y)(i := KExit)"
        using s KPush by (auto simp: scheduler_loop_def goto_def)
      have "closing_ok Closed z" using c o z i KPush False by (auto simp: told_def)
      then show ?thesis by blast
    qed
  qed (use s in \<open>simp_all add: scheduler_loop_def\<close>)
qed

lemma task_closing:
  assumes y: "sinv y" and t: "kpcs y i = KRun t" and s: "task_step a i t y = Some z"
  shows "\<exists>c. closing_ok c z"
proof -
  obtain c where c: "closing_ok c y" and p: "places_ok y" and n: "tasks_counted y" and b: "births_ok y" using y by (auto simp: sinv_def)
  have "counted (tpcs y t)" using attached_expected [OF p, of i t] t by (auto elim: held.elims)
  then have o: "c = Open" "started (mainpc y)" "0 < task_count y" using counted_started [OF n _ c] by auto
  have "tasks_counted z" by (rule task_tasks [OF p b n t s])
  moreover have "task_count y \<le> task_count z" "mainpc z = mainpc y" using s by (auto simp: task_step_def sched_ops split: tpc.splits act.splits option.splits if_splits)
  moreover have "shutting (kpcs z j) = shutting (kpcs y j) \<and> untold z j = untold y j" for j
    using s t by (auto simp: task_step_def sched_ops untold_def count_list_other split: tpc.splits act.splits option.splits if_splits)
  ultimately have "closing_ok Open z" using c o by simp
  then show ?thesis by blast
qed

lemma waker_parts:
  assumes y: "sinv y" and t: "t \<in> asleep y"
  shows "places_ok (waker_step t y)" "births_ok (waker_step t y)" "tasks_counted (waker_step t y)" "\<exists>c. closing_ok c (waker_step t y)"
proof -
  obtain c where c: "closing_ok c y" using y by (auto simp: sinv_def)
  have "closing_ok c (waker_step t y)" by (rule closing_same [OF c]) (auto simp: waker_step_def push_def count_list_other)
  then show "\<exists>c. closing_ok c (waker_step t y)" by blast
  show "births_ok (waker_step t y)" by (rule births_same [of y]) (use y in \<open>auto simp: sinv_def waker_step_def push_def making_def fun_eq_iff split: option.splits\<close>)
  show "places_ok (waker_step t y)" using waker_places [OF _ t] y by (simp add: sinv_def)
  show "tasks_counted (waker_step t y)" using y by (simp add: sinv_def waker_step_def push_def tasks_counted_def)
qed

lemma main_closing:
  assumes c: "closing_ok c y" and s: "main_step u kid y = Some z"
  shows "\<exists>c. closing_ok c z"
proof (cases "mainpc y")
  case (MSpawn v)
  then have z: "started (mainpc z)" "task_count z = task_count y + 1" "kpcs z = kpcs y" "rq z = rq y" using s by (auto simp: main_step_def thread_count_def set_tpc_def)
  have "c = Open" "task_count y = 0" using c MSpawn by (cases c; simp)+
  then have "closing_ok Open z" using c z by (simp add: untold_def)
  then show ?thesis by blast
qed (intro exI [of _ c] closing_same [OF c], use s in \<open>auto simp: main_step_def sched_ops count_list_other split: if_splits\<close>)+

lemma sstep_sinv:
  assumes y: "sinv y" and s: "sstep y z"
  shows "sinv z"
proof -
  have i: "places_ok y" "births_ok y" "tasks_counted y" and c: "\<exists>c. closing_ok c y" using y by (auto simp: sinv_def)
  have "threads_counted 0 z" if "\<not> gc_started (mainpc z)"
    using step_threads [OF _ s step_gc_started(2) [OF s that]] step_gc_started(1) [OF s] that y by (auto simp: sinv_def)
  moreover have "places_ok z \<and> births_ok z \<and> tasks_counted z \<and> (\<exists>c. closing_ok c z)" using s
  proof (cases rule: sstep_cases)
    case (loop i)
    then show ?thesis using loop_places [OF i(1)] loop_births [OF i(1,2)] loop_tasks [OF i(1,3)] loop_closing [OF y] by simp
  next
    case (task i t a)
    then show ?thesis using task_places [OF i(1,2)] task_births [OF i(1,2)] task_tasks [OF i(1,2,3)] task_closing [OF y] by simp
  next
    case (waker t)
    then show ?thesis using waker_parts [OF y] by simp
  next
    case (main u kid)
    then show ?thesis using main_places [OF i(1,2)] main_births [OF i(2)] main_tasks [OF i(2,3)] main_closing c by blast
  qed
  ultimately show ?thesis by (simp add: sinv_def)
qed

lemma init_sinv: "sinv init_scheduler"
proof -
  have "closing_ok Open init_scheduler" by (simp add: init_scheduler_def untold_def)
  moreover have "places_ok init_scheduler" "births_ok init_scheduler" "tasks_counted init_scheduler" "threads_counted 0 init_scheduler"
    by (simp_all add: init_scheduler_def places_ok_def expected_def token_def births_ok_def making_def tasks_counted_def threads_counted_def running_def split: option.splits)
  ultimately show ?thesis unfolding sinv_def by blast
qed

lemma sreach_sinv: "sreach y n z \<Longrightarrow> sinv y \<Longrightarrow> sinv z"
  by (induction rule: sreach.induct) (auto intro: sstep_sinv)

text \<open>The threads \<open>main\<close> has waited for have returned.\<close>

fun joined :: "mpc \<Rightarrow> nat" where
  "joined (MJoin i) = i"
| "joined MEnd = SCHEDULER_THREAD_POOL_SIZE"
| "joined m = 0"

definition joins_ok :: "sched \<Rightarrow> bool" where
  "joins_ok y \<longleftrightarrow> joined (mainpc y) \<le> SCHEDULER_THREAD_POOL_SIZE \<and> (\<forall>j < joined (mainpc y). kpcs y j = KExit)"

lemma exit_stays:
  assumes s: "sstep y z" and j: "kpcs y j = KExit"
  shows "kpcs z j = KExit"
  using s
proof (cases rule: sstep_cases)
  case (loop i)
  have "i \<noteq> j" using loop(2) j by (auto simp: scheduler_loop_def)
  moreover have "kpcs z = (kpcs y)(i := kpcs z i)" using loop(2) by (auto simp: scheduler_loop_def sched_ops split: kpc.splits list.splits option.splits if_splits)
  ultimately show ?thesis using j by (metis fun_upd_other)
next
  case (task i t a)
  have "i \<noteq> j" using task(2) j by auto
  moreover have "kpcs z = (kpcs y)(i := kpcs z i)" using task(3) by (auto simp: task_step_def sched_ops split: tpc.splits act.splits option.splits if_splits)
  ultimately show ?thesis using j by (metis fun_upd_other)
qed (use j in \<open>auto simp: waker_step_def push_def main_step_def sched_ops split: mpc.splits if_splits\<close>)

lemma sstep_joins:
  assumes y: "joins_ok y" and s: "sstep y z"
  shows "joins_ok z"
proof (cases "mainpc z = mainpc y")
  case True
  then show ?thesis using y exit_stays [OF s] by (auto simp: joins_ok_def)
next
  case False
  then obtain u kid where m: "main_step u kid y = Some z"
    using s False by (elim sstep_cases) (auto simp: waker_step_def scheduler_loop_def task_step_def sched_ops split: kpc.splits tpc.splits act.splits list.splits option.splits if_splits)
  then show ?thesis using y False by (auto simp: main_step_def joins_ok_def sched_ops less_Suc_eq split: mpc.splits if_splits)
qed

lemma sreach_joins: "sreach y n z \<Longrightarrow> joins_ok y \<Longrightarrow> joins_ok z"
  by (induction rule: sreach.induct) (auto intro: sstep_joins)

section \<open>Progress\<close>

lemma loop_moves: "scheduler_loop i y = None \<longleftrightarrow> kpcs y i = KPop \<and> rq y i = [] \<or> (\<exists>t. kpcs y i = KRun t) \<or> kpcs y i = KExit"
  by (auto simp: scheduler_loop_def split: kpc.splits list.splits option.splits)

lemma attached_moves:
  assumes y: "places_ok y" and t: "attached (kpcs y i) = Some t"
  shows "\<exists>z. own_step y z"
proof (cases "kpcs y i = KRun t")
  case True
  obtain p where p: "tpcs y t = Some p" "held (KRun t) p \<noteq> None" "home y t = i" using attached_expected [OF y t] True by auto
  have "task_step Finish i t y \<noteq> None" using p by (cases p) (simp_all add: task_step_def)
  moreover have "i < SCHEDULER_THREAD_POOL_SIZE" using places_okD(4) [OF y, of t] p(3) by simp
  ultimately show ?thesis using own_step.task [OF _ True] by blast
next
  case False
  have "i < SCHEDULER_THREAD_POOL_SIZE" using places_okD(3) [OF y t] places_okD(4) [OF y, of t] by simp
  moreover have "scheduler_loop i y \<noteq> None" using False t by (auto simp: loop_moves)
  ultimately show ?thesis using own_step.loop by blast
qed

text \<open>Every task that is started, not finished and not asleep can go on, or the one that is about to push it can.\<close>

lemma counted_moves:
  assumes y: "sinv y" and t: "counted (tpcs y t)" and a: "t \<notin> asleep y \<or> tpcs y t \<noteq> Some TUser \<or> attached (kpcs y (home y t)) = Some t"
  shows "\<exists>z. own_step y z"
proof -
  have i: "places_ok y" "births_ok y" "tasks_counted y" using y by (auto simp: sinv_def)
  let ?h = "home y t"
  show ?thesis
  proof (cases "attached (kpcs y ?h) = Some t")
    case True
    then show ?thesis by (rule attached_moves [OF i(1)])
  next
    case False
    then have l: "loose (tpcs y t) = Some (token y t)" using places_okD(1) [OF i(1), of t] by (simp add: expected_def)
    then consider b where "tpcs y t = Some (TCounted b)" | "tpcs y t = Some TUser" "token y t = 1" using t by (cases "tpcs y t" rule: counted.cases) auto
    then show ?thesis
    proof cases
      case 1
      then have m: "making y b = Some (True, t)" using births_okD [OF i(2), of t True b] by simp
      show ?thesis
      proof (cases b)
        case None
        then have "mainpc y = MPush t" using m by (cases "mainpc y") (simp_all add: making_def)
        then show ?thesis using own_step.main [of 0 0 y] by (auto simp: main_step_def)
      next
        case (Some v)
        then have "tpcs y v = Some (TPush t)" using m by (cases "tpcs y v" rule: task_making.cases) (simp_all add: making_def)
        then have "attached (kpcs y (home y v)) = Some v" using places_okD(1) [OF i(1), of v] by (auto simp: expected_def split: if_splits)
        then show ?thesis by (rule attached_moves [OF i(1)])
      qed
    next
      case 2
      then have q: "rq y ?h \<noteq> []" using a False by (auto simp: token_def)
      obtain c where c: "closing_ok c y" using y by (auto simp: sinv_def)
      have "c = Open" using counted_started [OF i(3) t c] by simp
      then have "kpcs y ?h \<noteq> KExit" using c places_okD(4) [OF i(1), of t] by (simp add: untold_def)
      then show ?thesis using q attached_moves [OF i(1), of ?h] own_step.loop [of ?h y] places_okD(4) [OF i(1), of t] loop_moves [of ?h y]
        by (cases "attached (kpcs y ?h)") auto
    qed
  qed
qed

text \<open>After the last task has finished, the threads or \<open>main\<close> can go on.\<close>

lemma closing_moves:
  assumes y: "sinv y" and j: "joins_ok y" and m: "started (mainpc y)" "mainpc y \<noteq> MEnd" and z: "task_count y = 0"
  shows "\<exists>z. own_step y z"
proof (rule ccontr)
  assume n: "\<nexists>z. own_step y z"
  obtain c where c: "closing_ok c y" and p: "places_ok y" and b: "births_ok y" and k: "tasks_counted y" using y by (auto simp: sinv_def)
  have stuck: "kpcs y i = KPop \<and> rq y i = [] \<or> kpcs y i = KExit" if "i < SCHEDULER_THREAD_POOL_SIZE" for i
  proof -
    have "scheduler_loop i y = None" using n own_step.loop [OF that, of y] by (cases "scheduler_loop i y") auto
    then show ?thesis using loop_moves [of i y] attached_moves [OF p, of i] n by auto
  qed
  have "c = Closed" using c z m(1) stuck by (cases c) fastforce+
  then have e: "kpcs y i = KExit" if "i < SCHEDULER_THREAD_POOL_SIZE" for i using c that stuck [OF that] by (auto simp: told_def)
  have "mainpc y \<noteq> MPush u" for u using made_counted [OF b, of None u] no_tasks [OF k z, of u] by (auto simp: making_def)
  then have "main_step 0 0 y \<noteq> None" using m e by (cases "mainpc y") (auto simp: main_step_def)
  then show False using n own_step.main by blast
qed

text \<open>Before \<open>main\<close> has created the first task, nothing happens.\<close>

lemma thread_first: "sreach init_scheduler n y \<Longrightarrow> mainpc y = MThread \<Longrightarrow> y = init_scheduler"
proof (induction rule: sreach.induct)
  case (move n z z')
  have m: "mainpc z = MThread" using move.hyps(2) move.prems
    by (elim sstep_cases) (auto simp: waker_step_def scheduler_loop_def task_step_def main_step_def sched_ops split: kpc.splits tpc.splits act.splits list.splits option.splits if_splits mpc.splits)
  then have "sstep init_scheduler z'" using move.IH move.hyps(2) by simp
  then show ?case using move.prems
    by (elim sstep_cases) (auto simp: init_scheduler_def scheduler_loop_def main_step_def thread_create_def split: if_splits)
qed simp

section \<open>Termination\<close>

definition ended :: "sched \<Rightarrow> bool" where
  "ended y \<longleftrightarrow> started (mainpc y) \<and> (\<forall>t. tpcs y t \<in> {None, Some TFinished, Some TDying, Some TGone})"

fun kweight :: "kpc \<Rightarrow> nat" where
  "kweight KExit = 0"
| "kweight KPop = 1"
| "kweight (KPush j) = 3 * (12 - j) + 1"
| "kweight KSleep = 38"
| "kweight (KDestroy t r) = 39"
| "kweight (KDec t) = 40"
| "kweight (KCheck t) = 41"
| "kweight k = 42"

fun mweight :: "mpc \<Rightarrow> nat" where
  "mweight (MJoin i) = Suc (12 - i)"
| "mweight MEnd = 0"
| "mweight m = 14"

definition weight :: "sched \<Rightarrow> nat" where
  "weight y = (\<Sum>i < SCHEDULER_THREAD_POOL_SIZE. kweight (kpcs y i)) + 2 * (\<Sum>i < SCHEDULER_THREAD_POOL_SIZE. length (rq y i)) + mweight (mainpc y)"

lemma sum_upd: "i < (n :: nat) \<Longrightarrow> (\<Sum>j < n. g ((f(i := x)) j)) + g (f i) = (\<Sum>j < n. g (f j)) + (g x :: nat)"
proof -
  assume i: "i < n"
  have "(\<Sum>j \<in> {..<n} - {i}. g ((f(i := x)) j)) = (\<Sum>j \<in> {..<n} - {i}. g (f j))" by (rule sum.cong) auto
  then show ?thesis using sum.remove [of "{..<n}" i "\<lambda>j. g ((f(i := x)) j)"] sum.remove [of "{..<n}" i "\<lambda>j. g (f j)"] i by simp
qed

lemma ended_tokens:
  assumes y: "sinv y" and e: "ended y"
  shows "token y t = 0" "kpcs y i \<noteq> KRun t" "kpcs y i \<noteq> KCount t" "Some t \<notin> set (rq y i)" "t \<notin> asleep y" "mainpc y \<noteq> MPush t"
proof -
  have p: "places_ok y" "births_ok y" using y by (auto simp: sinv_def)
  have t: "tpcs y u \<in> {None, Some TFinished, Some TDying, Some TGone}" for u using e by (simp add: ended_def)
  show k: "token y t = 0" using places_okD(1) [OF p(1), of t] t [of t] by (cases "kpcs y (home y t)") (auto simp: expected_def split: if_splits)
  show "kpcs y i \<noteq> KRun t" "kpcs y i \<noteq> KCount t" using attached_expected [OF p(1), of i t] t [of t] by auto
  show "Some t \<notin> set (rq y i)" by (rule token_zero [OF k p(1)])
  show "t \<notin> asleep y" using k by (simp add: token_def split: if_splits)
  show "mainpc y \<noteq> MPush t" using made_counted [OF p(2), of None t] t [of t] by (auto simp: making_def)
qed

lemma ended_step:
  assumes y: "sinv y" and e: "ended y" and s: "sstep y z"
  shows "ended z \<and> weight z < weight y"
proof -
  note n = ended_tokens [OF y e]
  obtain c where c: "closing_ok c y" using y by (auto simp: sinv_def)
  show ?thesis using s
  proof (cases rule: sstep_cases)
    case (loop i)
    have k: "(\<Sum>j < SCHEDULER_THREAD_POOL_SIZE. kweight (kpcs z j)) + kweight (kpcs y i) = (\<Sum>j < SCHEDULER_THREAD_POOL_SIZE. kweight (kpcs y j)) + kweight (kpcs z i)"
    proof -
      have "kpcs z = (kpcs y)(i := kpcs z i)" using loop(2) by (auto simp: scheduler_loop_def sched_ops split: kpc.splits list.splits option.splits if_splits)
      then show ?thesis using sum_upd [OF loop(1), of kweight "kpcs y" "kpcs z i"] by metis
    qed
    have m: "mainpc z = mainpc y" using loop(2) by (auto simp: scheduler_loop_def sched_ops split: kpc.splits list.splits option.splits if_splits)
    have q: "(\<Sum>j < SCHEDULER_THREAD_POOL_SIZE. length (rq z j)) + length (rq y j') = (\<Sum>j < SCHEDULER_THREAD_POOL_SIZE. length (rq y j)) + length (rq z j')"
      if "j' < SCHEDULER_THREAD_POOL_SIZE" "rq z = (rq y)(j' := rq z j')" for j' using sum_upd [OF that(1), of length "rq y" "rq z j'"] that(2) by metis
    have "tpcs z t = tpcs y t \<or> tpcs z t \<in> {Some TDying, Some TGone}" for t
      using loop(2) by (auto simp: scheduler_loop_def sched_ops split: kpc.splits list.splits option.splits if_splits)
    then have "ended z" using e m unfolding ended_def by (metis insert_iff)
    moreover have "weight z < weight y"
    proof (cases "kpcs y i")
      case KPop
      obtain q' where r: "rq y i = None # q'" using loop(2) n(4) [of _ i] KPop by (auto simp: scheduler_loop_def split: list.splits option.splits)
      then have "kpcs z i = KExit" "rq z = (rq y)(i := q')" using loop(2) KPop by (auto simp: scheduler_loop_def goto_def)
      then show ?thesis using k q [OF loop(1)] m r KPop by (simp add: weight_def)
    next
      case (KPush j)
      show ?thesis
      proof (cases "j < 12")
        case True
        then have "kpcs z i = KPush (Suc j)" "rq z = (rq y)(j := rq y j @ [None])" using loop(2) KPush by (auto simp: scheduler_loop_def goto_def push_def)
        then show ?thesis using k q [OF True] m KPush True by (simp add: weight_def)
      next
        case False
        then have "kpcs z i = KExit" "rq z = rq y" using loop(2) KPush by (auto simp: scheduler_loop_def goto_def)
        then show ?thesis using k m KPush by (simp add: weight_def)
      qed
    next
      case (KRun t)
      then show ?thesis using n(2) by simp
    next
      case (KCount t)
      then show ?thesis using n(3) by simp
    qed (use loop(2) k m in \<open>auto simp: scheduler_loop_def sched_ops weight_def split: if_splits\<close>)
    ultimately show ?thesis by blast
  next
    case (task i t a)
    then show ?thesis using n(2) by simp
  next
    case (waker t)
    then show ?thesis using n(5) by simp
  next
    case (main u kid)
    then have t: "tpcs z = tpcs y" "kpcs z = kpcs y" "rq z = rq y" and m: "started (mainpc z)" "mweight (mainpc z) < mweight (mainpc y)"
      using e n(6) unfolding ended_def by (auto simp: main_step_def split: mpc.splits if_splits)
    show ?thesis using e t m by (simp add: ended_def weight_def)
  qed
qed

lemma ended_runs:
  assumes "sreach y n z" "sinv y" "ended y"
  shows "ended z \<and> sinv z \<and> weight z + n \<le> weight y"
  using assms
proof (induction rule: sreach.induct)
  case (move n z z')
  then show ?case using ended_step [of z z'] sstep_sinv [of z z'] by fastforce
qed simp

lemma ended_weight:
  assumes y: "sinv y" and e: "ended y"
  shows "weight y \<le> 518"
proof -
  obtain c where c: "closing_ok c y" and p: "places_ok y" and k: "tasks_counted y" using y by (auto simp: sinv_def)
  have none: "length (rq y i) = count_list (rq y i) None" for i
  proof -
    have "\<forall>x \<in> set (rq y i). None = x" using ended_tokens(4) [OF y e, of _ i] by (metis option.exhaust)
    then show ?thesis by (simp add: count_list_eq_length_filter filter_id_conv)
  qed
  have m: "mweight (mainpc y) \<le> 14" by (cases "mainpc y") auto
  have bound: "weight y \<le> 12 * a + 2 * (12 * b) + 14" if "\<And>i. i < SCHEDULER_THREAD_POOL_SIZE \<Longrightarrow> kweight (kpcs y i) \<le> a \<and> length (rq y i) \<le> b" for a b
    using sum_mono [of "{..<SCHEDULER_THREAD_POOL_SIZE}" "\<lambda>i. kweight (kpcs y i)" "\<lambda>_. a"]
      sum_mono [of "{..<SCHEDULER_THREAD_POOL_SIZE}" "\<lambda>i. length (rq y i)" "\<lambda>_. b"] that m by (simp add: weight_def)
  show ?thesis
  proof (cases "task_count y = 0")
    case True
    have "kweight (kpcs y i) \<le> 39 \<and> length (rq y i) \<le> 1" if "i < SCHEDULER_THREAD_POOL_SIZE" for i
    proof -
      have "\<exists>q. tpcs y t = Some q \<and> held (kpcs y i) q \<noteq> None \<and> \<not> counted (Some q)" if "attached (kpcs y i) = Some t" for t
        using attached_expected [OF p that] no_tasks [OF k True, of t] by auto
      then have "kweight (kpcs y i) \<le> 39" by (cases "kpcs y i") (fastforce elim: held.elims)+
      moreover have "count_list (rq y i) None \<le> 1" using c that by (cases c) (auto simp: told_def untold_def split: if_splits)
      ultimately show ?thesis by (simp add: none)
    qed
    then show ?thesis using bound [of 39 1] by simp
  next
    case False
    then have "c = Open" using c by (cases c) auto
    moreover have "kweight l \<le> 42" for l by (cases l) auto
    ultimately show ?thesis using bound [of 42 0] c none by (simp add: untold_def)
  qed
qed

end
