(* ===== verification/SchedulerProps.thy ===== *)
theory SchedulerProps
  imports Shutdown
begin

text \<open>
  Properties of the scheduler: where a task can be, what the counters count, when the scheduler has nothing to
  do, and that the program ends exactly when all tasks have finished.
\<close>

section \<open>Schedules\<close>

text \<open>A schedule names the part that makes the next step.\<close>

datatype move = Loop nat | Task act nat | Wake tid | Main tid nat

fun perform :: "move \<Rightarrow> sched \<Rightarrow> sched option" where
  "perform (Loop i) y = (if i < SCHEDULER_THREAD_POOL_SIZE then scheduler_loop i y else None)"
| "perform (Task a i) y = (case kpcs y i of KRun t \<Rightarrow> if i < SCHEDULER_THREAD_POOL_SIZE then task_step a i t y else None | _ \<Rightarrow> None)"
| "perform (Wake t) y = (if t \<in> asleep y then Some (waker_step t y) else None)"
| "perform (Main u kid) y = main_step u kid y"

fun performs :: "move list \<Rightarrow> sched \<Rightarrow> sched option" where
  "performs [] y = Some y"
| "performs (m # ms) y = (case perform m y of None \<Rightarrow> None | Some z \<Rightarrow> performs ms z)"

lemma perform_step: "perform m y = Some z \<Longrightarrow> sstep y z"
  by (cases m) (auto intro: sstep.intros split: if_splits kpc.splits)

lemma sreach_trans: "sreach b m c \<Longrightarrow> sreach a n b \<Longrightarrow> sreach a (n + m) c"
  by (induction rule: sreach.induct) (auto intro: sreach.move)

lemma performs_reach: "performs ms y = Some z \<Longrightarrow> sreach y (length ms) z"
proof (induction ms arbitrary: y)
  case (Cons m ms)
  then obtain x where x: "perform m y = Some x" "performs ms x = Some z" by (auto split: option.splits)
  have "sreach y (Suc 0) x" by (rule sreach.move [OF sreach.start perform_step [OF x(1)]])
  then show ?case using sreach_trans [OF Cons.IH [OF x(2)]] by fastforce
qed (simp add: sreach.start)

text \<open>
  One task is created on the thread 3, parks, is woken while it is still about to switch, runs again and
  finishes; the thread tells all threads to end; they do, and \<open>main\<close> returns.
\<close>

definition demo_start :: "move list" where
  "demo_start = [Main 7 3, Main 7 3, Main 7 3, Main 7 3, Loop 3, Loop 3, Task Park 3, Wake 7, Task Park 3]"

definition demo_finish :: "move list" where
  "demo_finish = [Loop 3, Loop 3, Loop 3, Loop 3, Task Finish 3]"

definition demo_close :: "move list" where
  "demo_close = replicate 18 (Loop 3) @ map Loop [0, 1, 2, 4, 5, 6, 7, 8, 9, 10, 11] @ replicate 13 (Main 0 0)"

definition demo_parked :: sched where
  "demo_parked = the (performs demo_start init_scheduler)"

definition demo_ended :: sched where
  "demo_ended = the (performs (demo_start @ demo_finish) init_scheduler)"

definition demo_over :: sched where
  "demo_over = the (performs demo_close demo_ended)"

lemma demo_runs: "performs demo_start init_scheduler = Some demo_parked" "performs (demo_start @ demo_finish) init_scheduler = Some demo_ended"
  "performs demo_close demo_ended = Some demo_over"
proof -
  have "performs demo_start init_scheduler \<noteq> None" "performs (demo_start @ demo_finish) init_scheduler \<noteq> None" "performs demo_close demo_ended \<noteq> None"
    by code_simp+
  then show "performs demo_start init_scheduler = Some demo_parked" "performs (demo_start @ demo_finish) init_scheduler = Some demo_ended"
    "performs demo_close demo_ended = Some demo_over" by (auto simp: demo_parked_def demo_ended_def demo_over_def)
qed

lemma demo_states: "attached (kpcs demo_parked 3) = Some 7" "home demo_parked 7 = 3" "token demo_parked 7 = 1" "tpcs demo_ended 7 = Some TFinished"
  "started (mainpc demo_ended)" "mainpc demo_over = MEnd" "tpcs demo_over 7 = Some TGone" "mainpc demo_parked = MJoin 0"
  by code_simp+

lemma demo_tpcs: "tpcs demo_ended = Map.empty(7 \<mapsto> TFinished)"
  by (simp add: demo_ended_def demo_start_def demo_finish_def init_scheduler_def main_step_def scheduler_loop_def task_step_def sched_ops)

section \<open>Tasks and counters\<close>

text \<open>
  C31: In every reachable state a task is in the hands of its own thread only and in the queue of its own
  thread only, and it has at most one entry there, and none while it sleeps in a blocking call; a task that has
  started, has not finished and is not in the hands of its thread is in its queue or asleep. So the scheduler
  neither loses a task nor runs it twice, whether or not sleeping tasks are woken, if nothing wakes a task
  twice for one time it goes to sleep.
\<close>

theorem task_one_place:
  assumes "sreach init_scheduler n y"
  shows "(attached (kpcs y i) = Some t \<longrightarrow> i = home y t) \<and> (Some t \<in> set (rq y i) \<longrightarrow> i = home y t) \<and>
    count_list (rq y (home y t)) (Some t) + (if t \<in> asleep y then 1 else 0) \<le> 1 \<and>
    (tpcs y t = Some TUser \<and> attached (kpcs y (home y t)) \<noteq> Some t \<longrightarrow> Some t \<in> set (rq y (home y t)) \<or> t \<in> asleep y)"
proof -
  have p: "places_ok y" using sreach_sinv [OF assms init_sinv] by (simp add: sinv_def)
  have e: "expected t (kpcs y (home y t)) (tpcs y t) = Some (token y t)" by (rule places_okD(1) [OF p])
  have "held k q \<noteq> None \<Longrightarrow> the (held k q) \<le> 1" "loose r \<noteq> None \<Longrightarrow> the (loose r) \<le> 1" for k q r
    by (cases k; cases q; simp) (cases r rule: loose.cases; simp)
  then have "token y t \<le> 1" using e by (fastforce simp: expected_def split: if_splits option.splits)
  moreover have "token y t = 1" if "tpcs y t = Some TUser" "attached (kpcs y (home y t)) \<noteq> Some t" using e that by (simp add: expected_def)
  then have "tpcs y t = Some TUser \<and> attached (kpcs y (home y t)) \<noteq> Some t \<longrightarrow> Some t \<in> set (rq y (home y t)) \<or> t \<in> asleep y"
    using count_list_0_iff [of "rq y (home y t)" "Some t"] by (auto simp: token_def split: if_splits)
  ultimately show ?thesis using places_okD(2) [OF p, of t i] places_okD(3) [OF p, of i t] unfolding token_def by blast
qed

theorem task_one_place_witness: "count_list (rq demo_parked 3) (Some 7) + (if 7 \<in> asleep demo_parked then 1 else 0) \<le> (1 :: nat) \<and> home demo_parked 7 = 3"
  using task_one_place [OF performs_reach [OF demo_runs(1)], of 3 7] demo_states(1,2) by simp

lemma sreach_threads: "sreach z m x \<Longrightarrow> gc_started (mainpc z) \<Longrightarrow> threads_counted d z \<Longrightarrow> gc_started (mainpc x) \<and> threads_counted d x"
proof (induction rule: sreach.induct)
  case (move n x x')
  then have "gc_started (mainpc x)" "threads_counted d x" by simp_all
  moreover have "mainpc x \<noteq> MGc" using calculation(1) by auto
  ultimately show ?case using step_threads [OF _ move.hyps(2)] step_gc_started(1) [OF move.hyps(2)] by blast
qed simp

text \<open>
  C32: In every reachable state \<open>task_count\<close> is the number of tasks that are counted and not finished with. The
  counter \<open>total_threads\<close>, which the collector compares with the number of stopped threads, is the number of
  threads that run a task or have just come back from one until \<open>gc_start\<close> stores 0 into it; from then on it is
  too low, for ever, by the number of threads that ran a task at that moment.
\<close>

theorem scheduler_counts:
  assumes "sreach init_scheduler n y"
  shows "finite {t. counted (tpcs y t)} \<and> task_count y = int (card {t. counted (tpcs y t)}) \<and>
    (\<not> gc_started (mainpc y) \<longrightarrow> threads_total y = running y) \<and>
    (mainpc y = MGc \<and> main_step u kid y = Some z \<and> sreach z m x \<longrightarrow> threads_total x = running x - running y)"
proof -
  have s: "tasks_counted y" "\<not> gc_started (mainpc y) \<Longrightarrow> threads_counted 0 y" using sreach_sinv [OF assms init_sinv] by (auto simp: sinv_def)
  have "threads_total x = running x - running y" if m: "mainpc y = MGc" "main_step u kid y = Some z" "sreach z m x"
  proof -
    have "z = y\<lparr>threads_total := 0, mainpc := MJoin 0\<rparr>" using m(1,2) by (simp add: main_step_def)
    then have "gc_started (mainpc z)" "threads_counted (running y) z" by (simp_all add: threads_counted_def running_def)
    then show ?thesis using sreach_threads [OF m(3)] by (simp add: threads_counted_def)
  qed
  then show ?thesis using s by (auto simp: tasks_counted_def threads_counted_def)
qed

definition demo_early :: sched where
  "demo_early = the (performs ([Main 7 3, Main 7 3, Main 7 3, Loop 3, Loop 3]) init_scheduler)"

theorem scheduler_counts_witness: "\<exists>n z. sreach init_scheduler n demo_early \<and> main_step 0 0 demo_early = Some z \<and> threads_total z = running z - 1 \<and>
  task_count demo_early = int (card {t. counted (tpcs demo_early t)})"
proof -
  have "performs ([Main 7 3, Main 7 3, Main 7 3, Loop 3, Loop 3]) init_scheduler \<noteq> None" by code_simp
  then have e: "performs ([Main 7 3, Main 7 3, Main 7 3, Loop 3, Loop 3]) init_scheduler = Some demo_early" by (auto simp: demo_early_def)
  note r = performs_reach [OF e]
  have m: "mainpc demo_early = MGc" "threads_total demo_early = 1" by code_simp+
  then obtain z where z: "main_step 0 0 demo_early = Some z" by (simp add: main_step_def)
  have "running demo_early = 1" using scheduler_counts [OF r] m by simp
  then show ?thesis using scheduler_counts [OF r, of 0 0 z 0 z] m z r sreach.start by auto
qed

section \<open>Progress and shutdown\<close>

lemma sreach_moves:
  assumes "sreach init_scheduler n y" "mainpc y \<noteq> MEnd"
  shows "\<exists>z. sstep y z"
proof -
  have s: "sinv y" by (rule sreach_sinv [OF assms(1) init_sinv])
  have j: "joins_ok y" by (rule sreach_joins [OF assms(1)]) (simp add: joins_ok_def init_scheduler_def)
  show ?thesis
  proof (cases "started (mainpc y)")
    case True
    show ?thesis
    proof (cases "task_count y = 0")
      case False
      then obtain t where t: "counted (tpcs y t)" using s by (auto simp: sinv_def tasks_counted_def card_eq_0_iff)
      show ?thesis using counted_moves [OF s t] sstep.waker own_sstep by blast
    qed (use closing_moves [OF s j True assms(2)] own_sstep in blast)
  next
    case False
    have "main_step 0 0 y \<noteq> None" using False thread_first [OF assms(1)] by (cases "mainpc y") (auto simp: main_step_def init_scheduler_def)
    then show ?thesis using sstep.main by blast
  qed
qed




text \<open>
  C34: A scheduler thread returns only when every task that was created has finished, and when \<open>main\<close> returns
  all tasks have been destroyed.
\<close>

theorem scheduler_exit:
  assumes "sreach init_scheduler n y"
  shows "(i < SCHEDULER_THREAD_POOL_SIZE \<and> kpcs y i = KExit \<longrightarrow> tpcs y t \<in> {None, Some TDying, Some TGone}) \<and>
    (mainpc y = MEnd \<longrightarrow> tpcs y t \<in> {None, Some TGone})"
proof -
  have s: "sinv y" by (rule sreach_sinv [OF assms init_sinv])
  have j: "joins_ok y" by (rule sreach_joins [OF assms]) (simp add: joins_ok_def init_scheduler_def)
  obtain c where c: "closing_ok c y" and p: "places_ok y" and b: "births_ok y" and k: "tasks_counted y" using s by (auto simp: sinv_def)
  have gone: "tpcs y t \<in> {None, Some TDying, Some TGone}" if "i < SCHEDULER_THREAD_POOL_SIZE" "kpcs y i = KExit" for i
  proof -
    have o: "started (mainpc y)" "task_count y = 0" using c that by (cases c; auto simp: untold_def)+
    have "tpcs y t \<noteq> Some (TNew v)" for v
    proof
      assume "tpcs y t = Some (TNew v)"
      then have "making y v = Some (False, t)" using births_okD [OF b, of t False v] by simp
      moreover have "task_making (tpcs y u) = None" for u using no_tasks [OF k o(2), of u] by (cases "tpcs y u" rule: task_making.cases) auto
      ultimately show False using o(1) by (cases v; cases "mainpc y") (auto simp: making_def)
    qed
    then show ?thesis using no_tasks [OF k o(2), of t] by (cases "tpcs y t" rule: counted.cases) auto
  qed
  have "tpcs y t \<in> {None, Some TGone}" if m: "mainpc y = MEnd"
  proof -
    have e: "kpcs y (home y t) = KExit" using j m places_okD(4) [OF p, of t] by (simp add: joins_ok_def)
    have "tpcs y t \<noteq> Some TDying" using places_okD(1) [OF p, of t] e by (auto simp: expected_def)
    then show ?thesis using gone [OF places_okD(4) [OF p, of t] e] by auto
  qed
  then show ?thesis using gone by blast
qed

theorem scheduler_exit_witness: "mainpc demo_over = MEnd \<and> tpcs demo_over 7 \<in> {None, Some TGone}"
  using scheduler_exit [OF sreach_trans [OF performs_reach [OF demo_runs(3)] performs_reach [OF demo_runs(2)]], of 0 7] demo_states(6) by blast

text \<open>
  C35: The shutdown terminates: once every task has finished, whatever the schedule, at most 518 more steps
  are possible; all of them lead to states from which \<open>main\<close> returns, and only its return ends the run.
\<close>

theorem shutdown_terminates:
  assumes "sreach init_scheduler n y" "started (mainpc y)" "\<And>t. tpcs y t \<in> {None, Some TFinished, Some TDying, Some TGone}" "sreach y m z"
  shows "m \<le> 518 \<and> (mainpc z = MEnd \<or> (\<exists>z'. sstep z z')) \<and> (\<exists>k v. sreach z k v \<and> mainpc v = MEnd)"
proof -
  have s: "sinv y" by (rule sreach_sinv [OF assms(1) init_sinv])
  have e: "ended y" using assms(2,3) by (simp add: ended_def)
  have z: "ended z" "sinv z" "weight z + m \<le> weight y" using ended_runs [OF assms(4) s e] by auto
  have r: "sreach init_scheduler (n + m) z" by (rule sreach_trans [OF assms(4,1)])
  have "\<exists>k v. sreach x k v \<and> mainpc v = MEnd" if "sreach init_scheduler q x" "ended x" for q x
    using that
  proof (induction "weight x" arbitrary: x q rule: less_induct)
    case less
    show ?case
    proof (cases "mainpc x = MEnd")
      case True
      then show ?thesis using sreach.start by blast
    next
      case False
      then obtain x' where x: "sstep x x'" using sreach_moves [OF less.prems(1)] by blast
      have "ended x' \<and> weight x' < weight x" by (rule ended_step [OF sreach_sinv [OF less.prems(1) init_sinv] less.prems(2) x])
      then obtain k v where "sreach x' k v" "mainpc v = MEnd" using less.hyps sreach.move [OF less.prems(1) x] by blast
      then show ?thesis using sreach_trans [OF _ sreach.move [OF sreach.start x]] by blast
    qed
  qed
  then show ?thesis using sreach_moves [OF r] r z ended_weight [OF s e] by fastforce
qed

theorem shutdown_terminates_witness: "(\<exists>k v. sreach demo_ended k v \<and> mainpc v = MEnd) \<and> tpcs demo_ended 7 = Some TFinished"
  using shutdown_terminates [OF performs_reach [OF demo_runs(2)] demo_states(5) _ sreach.start] demo_tpcs demo_states(4) by auto

end
