(* ===== verification/Environ.thy ===== *)
theory Environ
  imports Prelude
begin

text \<open>
  The environment variables of \<^verbatim>\<open>src/runtime/src/platform/linux/os.c\<close>: \<open>__public__os_getenv\<close>, \<open>__public__os_setenv\<close>
  and \<open>__public__os_unsetenv\<close>, which walk and change the array \<open>environ\<close> themselves.
\<close>

section \<open>Operations\<close>

text \<open>
  An entry is a block of bytes, with its terminating NUL if it has one, and whether it came from \<open>malloc\<close>; the
  array has the same mark. What the process inherits did not come from \<open>malloc\<close>.
\<close>

record entry =
  chars :: "int list"
  owned :: bool

record environment =
  environ :: "entry list"
  array_owned :: bool

text \<open>Whether \<open>strncmp\<close> is zero; \<open>None\<close> when it reads behind the end of a block.\<close>

fun strncmp_equal :: "int list \<Rightarrow> int list \<Rightarrow> nat \<Rightarrow> bool option" where
  "strncmp_equal a b 0 = Some True"
| "strncmp_equal (x # a) (y # b) (Suc n) = (if x \<noteq> y then Some False else if x = 0 then Some True else strncmp_equal a b n)"
| "strncmp_equal a b (Suc n) = None"

text \<open>The test of an entry; \<open>None\<close> when it reads behind the entry.\<close>

definition key_test :: "int list \<Rightarrow> int list \<Rightarrow> bool option" where
  "key_test e k =
     (case strncmp_equal e k (length k) of
        None \<Rightarrow> None
      | Some False \<Rightarrow> Some False
      | Some True \<Rightarrow> if length k < length e then Some (e ! length k = 61) else None)"

text \<open>
  The result is a pointer into the entry, given by the bytes from there to the end of the block; the caller reads
  them as a string (\<open>c_text\<close>), up to the first NUL, and behind the block if there is none.
\<close>

fun getenv_loop :: "entry list \<Rightarrow> int list \<Rightarrow> int list option option" where
  "getenv_loop [] k = Some None"
| "getenv_loop (e # es) k =
     (case key_test (chars e) k of
        None \<Rightarrow> None
      | Some True \<Rightarrow> Some (Some (drop (length k + 1) (chars e)))
      | Some False \<Rightarrow> getenv_loop es k)"

definition os_getenv :: "int list \<Rightarrow> environment \<Rightarrow> int list option option" where
  "os_getenv k v = getenv_loop (environ v) k"

definition c_text :: "int list \<Rightarrow> int list option" where
  "c_text bs = (if 0 \<in> set bs then Some (takeWhile (\<lambda>c. c \<noteq> 0) bs) else None)"

text \<open>The loop that replaces the first entry of the key; \<open>Inl\<close> when there is none.\<close>

fun setenv_loop :: "entry list \<Rightarrow> int list \<Rightarrow> entry \<Rightarrow> (unit + entry list) option" where
  "setenv_loop [] k buf = Some (Inl ())"
| "setenv_loop (e # es) k buf =
     (case key_test (chars e) k of
        None \<Rightarrow> None
      | Some True \<Rightarrow> Some (Inr (buf # es))
      | Some False \<Rightarrow> map_option (map_sum id (Cons e)) (setenv_loop es k buf))"

text \<open>
  \<open>x\<close> are the characters of the value and \<open>z\<close> is the byte behind them, which is copied with them. \<open>m1\<close> and \<open>m2\<close> say
  whether \<open>malloc\<close> and \<open>realloc\<close> have memory. Reallocating an array that did not come from \<open>malloc\<close> is undefined.
\<close>

definition os_setenv :: "bool \<Rightarrow> bool \<Rightarrow> int list \<Rightarrow> int list \<Rightarrow> int \<Rightarrow> bool \<Rightarrow> environment \<Rightarrow> (int \<times> environment) option" where
  "os_setenv m1 m2 k x z overwrite v =
     (case if overwrite then Some None else os_getenv k v of
        None \<Rightarrow> None
      | Some (Some _) \<Rightarrow> Some (0, v)
      | Some None \<Rightarrow>
          if \<not> m1 then Some (- 1, v)
          else
            let buf = \<lparr>chars = k @ [61] @ x @ [z], owned = True\<rparr> in
            (case setenv_loop (environ v) k buf of
               None \<Rightarrow> None
             | Some (Inr es) \<Rightarrow> Some (0, v\<lparr>environ := es\<rparr>)
             | Some (Inl _) \<Rightarrow>
                 if \<not> array_owned v then None
                 else if \<not> m2 then Some (- 1, v)
                 else Some (0, v\<lparr>environ := environ v @ [buf]\<rparr>)))"

text \<open>The entry is freed, which is undefined unless it came from \<open>malloc\<close>, and the entries behind it move up.\<close>

fun unsetenv_loop :: "entry list \<Rightarrow> int list \<Rightarrow> entry list option" where
  "unsetenv_loop [] k = Some []"
| "unsetenv_loop (e # es) k =
     (case key_test (chars e) k of
        None \<Rightarrow> None
      | Some True \<Rightarrow> if owned e then Some es else None
      | Some False \<Rightarrow> map_option (Cons e) (unsetenv_loop es k))"

definition os_unsetenv :: "int list \<Rightarrow> environment \<Rightarrow> (int \<times> environment) option" where
  "os_unsetenv k v = map_option (\<lambda>es. (0, v\<lparr>environ := es\<rparr>)) (unsetenv_loop (environ v) k)"

section \<open>The environment as a map\<close>

text \<open>
  Names of variables have no NUL and no equals sign; an entry names the part before its first one. Every entry has
  a NUL or an equals sign, so that no search for a name reads behind it.
\<close>

definition name_ok :: "int list \<Rightarrow> bool" where
  "name_ok k \<longleftrightarrow> 0 \<notin> set k \<and> 61 \<notin> set k"

definition entry_ok :: "entry \<Rightarrow> bool" where
  "entry_ok e \<longleftrightarrow> 0 \<in> set (chars e) \<or> 61 \<in> set (chars e)"

definition env_ok :: "environment \<Rightarrow> bool" where
  "env_ok v \<longleftrightarrow> (\<forall>e \<in> set (environ v). entry_ok e)"

definition names :: "entry \<Rightarrow> int list \<Rightarrow> bool" where
  "names e k \<longleftrightarrow> (\<exists>x. chars e = k @ 61 # x)"

definition env_map :: "environment \<Rightarrow> int list \<Rightarrow> int list option" where
  "env_map v k = map_option (\<lambda>e. drop (length k + 1) (chars e)) (find (\<lambda>e. names e k) (environ v))"

lemma strncmp_equal_iff:
  assumes "0 \<notin> set k" "0 \<in> set e \<or> 61 \<in> set e" "61 \<notin> set k"
  shows "strncmp_equal e k (length k) = Some (\<exists>r. e = k @ r)"
  using assms
proof (induction k arbitrary: e)
  case (Cons y k)
  then show ?case by (cases e) auto
qed simp

lemma key_test_iff:
  assumes "name_ok k" "entry_ok e"
  shows "key_test (chars e) k = Some (names e k)"
proof (cases "\<exists>r. chars e = k @ r")
  case True
  then obtain r where r: "chars e = k @ r" by blast
  then have "r \<noteq> []" using assms by (auto simp: name_ok_def entry_ok_def)
  then show ?thesis using assms r strncmp_equal_iff [of k "chars e"]
    by (cases r) (auto simp: key_test_def name_ok_def entry_ok_def names_def)
next
  case False
  then show ?thesis using assms strncmp_equal_iff [of k "chars e"] by (auto simp: key_test_def name_ok_def entry_ok_def names_def)
qed

lemma names_unique: "names e k \<Longrightarrow> names e l \<Longrightarrow> name_ok k \<Longrightarrow> name_ok l \<Longrightarrow> k = l"
proof -
  have "takeWhile (\<lambda>c. c \<noteq> 61) (k @ 61 # x) = k" if "name_ok k" for k x :: "int list"
    using that by (subst takeWhile_append2) (auto simp: name_ok_def)
  then show "names e k \<Longrightarrow> names e l \<Longrightarrow> name_ok k \<Longrightarrow> name_ok l \<Longrightarrow> k = l" by (metis names_def)
qed

lemma getenv_loop_find: "name_ok k \<Longrightarrow> \<forall>e \<in> set es. entry_ok e \<Longrightarrow>
    getenv_loop es k = Some (map_option (\<lambda>e. drop (length k + 1) (chars e)) (find (\<lambda>e. names e k) es))"
  by (induction es) (auto simp: key_test_iff)

lemma os_getenv_map: "name_ok k \<Longrightarrow> env_ok v \<Longrightarrow> os_getenv k v = Some (env_map v k)"
  by (simp add: os_getenv_def env_map_def getenv_loop_find env_ok_def)

lemma setenv_loop_none: "getenv_loop es k = Some None \<Longrightarrow> setenv_loop es k buf = Some (Inl ())"
  by (induction es) (auto split: option.splits bool.splits)

lemma setenv_loop_find:
  assumes k: "name_ok k" and b: "chars buf = k @ 61 # x"
  shows "\<forall>e \<in> set es. entry_ok e \<Longrightarrow> find (\<lambda>e. names e k) es \<noteq> None \<Longrightarrow> \<exists>es'. setenv_loop es k buf = Some (Inr es') \<and> set es' \<subseteq> insert buf (set es) \<and>
      find (\<lambda>e. names e k) es' = Some buf \<and> (\<forall>l. name_ok l \<longrightarrow> l \<noteq> k \<longrightarrow> find (\<lambda>e. names e l) es' = find (\<lambda>e. names e l) es)"
proof (induction es)
  case (Cons e es)
  have t: "key_test (chars e) k = Some (names e k)" using key_test_iff [OF k] Cons.prems(1) by simp
  have n: "names buf k" by (simp add: names_def b)
  have u: "\<not> names e l" if "names e k" "name_ok l" "l \<noteq> k" for e l using names_unique [OF that(1) _ k that(2)] that(3) by blast
  show ?case
  proof (cases "names e k")
    case True
    then show ?thesis using n u t by auto
  next
    case False
    then obtain es' where "setenv_loop es k buf = Some (Inr es')" "set es' \<subseteq> insert buf (set es)" "find (\<lambda>e. names e k) es' = Some buf"
      "\<forall>l. name_ok l \<longrightarrow> l \<noteq> k \<longrightarrow> find (\<lambda>e. names e l) es' = find (\<lambda>e. names e l) es" using Cons by auto
    then show ?thesis using False t by auto
  qed
qed simp

end
