(* ===== verification/EnvironProps.thy ===== *)
theory EnvironProps
  imports Environ
begin

text \<open>
  Properties of the environment variables: a variable that is set is read back and no other changes, what
  removing does, and which calls are undefined in a process that inherited its environment.
\<close>

lemma find_snoc: "find P (xs @ [x]) = (case find P xs of None \<Rightarrow> if P x then Some x else None | Some y \<Rightarrow> Some y)"
  by (induction xs) auto

lemma find_holds: "find P xs = Some x \<Longrightarrow> P x"
  by (induction xs) (auto split: if_splits)

lemma c_text_snoc: "0 \<notin> set x \<Longrightarrow> c_text (x @ [z]) = (if z = 0 then Some x else None)"
proof -
  assume "0 \<notin> set x"
  then have "takeWhile (\<lambda>c. c \<noteq> 0) (x @ [0]) = x" by (subst takeWhile_append2) auto
  then show ?thesis using \<open>0 \<notin> set x\<close> by (simp add: c_text_def)
qed

text \<open>
  C36: \<open>__public__os_setenv\<close>, when it is defined, either fails for lack of memory and changes nothing, or
  returns 0 and updates the map that \<open>__public__os_getenv\<close> reads: the variable has the new value with the byte behind it
  (or keeps its old value, if it had one and was not to be overwritten), and every other variable keeps its value. The new
  value is read back as the string that was given if this byte is a NUL and the value has none inside; if there
  is no NUL, the reader runs behind the entry.
\<close>

theorem setenv_getenv:
  assumes k: "name_ok k" and v: "env_ok v" and s: "os_setenv m1 m2 k x z overwrite v = Some (r, v')"
  shows "env_ok v' \<and> (r = - 1 \<and> v' = v \<and> \<not> (m1 \<and> m2) \<or>
    r = 0 \<and> os_getenv k v' = Some (Some (case os_getenv k v of Some (Some old) \<Rightarrow> if overwrite then x @ [z] else old | _ \<Rightarrow> x @ [z])) \<and>
      (\<forall>l. name_ok l \<and> l \<noteq> k \<longrightarrow> os_getenv l v' = os_getenv l v)) \<and>
    (0 \<notin> set x \<longrightarrow> c_text (x @ [z]) = (if z = 0 then Some x else None))"
proof -
  let ?buf = "\<lparr>chars = k @ [61] @ x @ [z], owned = True\<rparr>"
  have b: "chars ?buf = k @ 61 # (x @ [z])" "drop (length k + 1) (chars ?buf) = x @ [z]" "entry_ok ?buf" by (simp_all add: entry_ok_def)
  have n: "names ?buf l \<longleftrightarrow> l = k" if "name_ok l" for l using names_unique [OF _ _ that k, of ?buf] by (auto simp: names_def)
  have "env_ok v' \<and> (r = - 1 \<and> v' = v \<and> \<not> (m1 \<and> m2) \<or>
    r = 0 \<and> os_getenv k v' = Some (Some (case os_getenv k v of Some (Some old) \<Rightarrow> if overwrite then x @ [z] else old | _ \<Rightarrow> x @ [z])) \<and>
      (\<forall>l. name_ok l \<and> l \<noteq> k \<longrightarrow> os_getenv l v' = os_getenv l v))"
  proof (cases "find (\<lambda>e. names e k) (environ v)")
    case None
    then have g: "os_getenv k v = Some None" using os_getenv_map [OF k v] by (simp add: env_map_def)
    then have "setenv_loop (environ v) k ?buf = Some (Inl ())" by (intro setenv_loop_none) (simp add: os_getenv_def)
    then have c: "r = - 1 \<and> v' = v \<and> \<not> (m1 \<and> m2) \<or> r = 0 \<and> v' = v\<lparr>environ := environ v @ [?buf]\<rparr>"
      using s g by (auto simp: os_setenv_def Let_def split: if_splits)
    have w: "env_ok (v\<lparr>environ := environ v @ [?buf]\<rparr>)" using v b(3) by (auto simp: env_ok_def)
    have "os_getenv l (v\<lparr>environ := environ v @ [?buf]\<rparr>) = (if l = k then Some (Some (x @ [z])) else os_getenv l v)" if "name_ok l" for l
      unfolding os_getenv_map [OF that w] os_getenv_map [OF that v] using n [OF that] None b(2) by (auto simp: env_map_def find_snoc split: option.splits)
    then show ?thesis using k g c w v by auto
  next
    case (Some e)
    then obtain old where g: "os_getenv k v = Some (Some old)" using os_getenv_map [OF k v] by (simp add: env_map_def)
    obtain es where es: "setenv_loop (environ v) k ?buf = Some (Inr es)" "set es \<subseteq> insert ?buf (set (environ v))" "find (\<lambda>e. names e k) es = Some ?buf"
      "\<And>l. name_ok l \<Longrightarrow> l \<noteq> k \<Longrightarrow> find (\<lambda>e. names e l) es = find (\<lambda>e. names e l) (environ v)"
      using setenv_loop_find [OF k b(1), of "environ v"] Some v by (auto simp: env_ok_def)
    have c: "r = - 1 \<and> v' = v \<and> \<not> m1 \<or> r = 0 \<and> v' = v \<and> \<not> overwrite \<or> r = 0 \<and> v' = v\<lparr>environ := es\<rparr> \<and> overwrite"
      using s g es(1) by (cases overwrite) (auto simp: os_setenv_def Let_def split: if_splits)
    have w: "env_ok (v\<lparr>environ := es\<rparr>)" using v b(3) es(2) by (auto simp: env_ok_def)
    have "os_getenv l (v\<lparr>environ := es\<rparr>) = (if l = k then Some (Some (x @ [z])) else os_getenv l v)" if "name_ok l" for l
      unfolding os_getenv_map [OF that w] os_getenv_map [OF that v] using es(3) es(4) [OF that] b(2) by (simp add: env_map_def)
    then show ?thesis using k g c w v by auto
  qed
  then show ?thesis using c_text_snoc by blast
qed

text \<open>An inherited environment with \<open>A=1\<close> and \<open>B=2\<close>.\<close>

definition demo_environ :: environment where
  "demo_environ = \<lparr>environ = [\<lparr>chars = [65, 61, 49, 0], owned = False\<rparr>, \<lparr>chars = [66, 61, 50, 0], owned = False\<rparr>], array_owned = False\<rparr>"

theorem setenv_getenv_witness: "\<exists>v. os_setenv True True [66] [51] 0 True demo_environ = Some (0, v) \<and> os_getenv [66] v = Some (Some [51, 0]) \<and>
  c_text [51, 0] = Some [51] \<and> os_getenv [65] v = os_getenv [65] demo_environ"
proof -
  obtain v where v: "os_setenv True True [66] [51] 0 True demo_environ = Some (0, v)"
    by (simp add: os_setenv_def demo_environ_def key_test_def)
  have n: "name_ok [66]" "name_ok [65]" "env_ok demo_environ" by (simp_all add: name_ok_def env_ok_def entry_ok_def demo_environ_def)
  have "os_getenv [66] demo_environ = Some (Some [50, 0])" by (simp add: os_getenv_def demo_environ_def key_test_def)
  then show ?thesis using setenv_getenv [OF n(1,3) v] v n(2) by auto
qed

text \<open>Removing a variable: undefined exactly when its first entry was inherited; otherwise this entry is gone.\<close>

lemma unsetenv_loop_find:
  assumes k: "name_ok k" and es: "\<forall>e \<in> set es. entry_ok e"
  shows "unsetenv_loop es k = (case find (\<lambda>e. names e k) es of None \<Rightarrow> Some es | Some e \<Rightarrow> if owned e then Some (remove1 e es) else None)"
  using es by (induction es) (auto simp: key_test_iff [OF k] split: option.splits dest: find_holds)

lemma find_remove1: "\<not> P e \<Longrightarrow> find P (remove1 e es) = find P es"
  by (induction es) auto

lemma find_remove1_only: "length (filter P es) \<le> 1 \<Longrightarrow> find P es = Some e \<Longrightarrow> find P (remove1 e es) = None"
proof -
  assume f: "length (filter P es) \<le> 1" "find P es = Some e"
  have e: "P e" "e \<in> set es" using f(2) find_holds by (force simp: find_Some_iff)+
  then have "e \<in> set (filter P es)" by simp
  then have "filter P es = [e]" using f(1) by (cases "filter P es") auto
  then have "filter P (remove1 e es) = []" using filter_remove1 [of P e es] by simp
  then show ?thesis by (simp add: find_None_iff filter_empty_conv)
qed

lemma unsetenv_getenv:
  assumes k: "name_ok k" and v: "env_ok v" and s: "os_unsetenv k v = Some (r, v')"
  shows "r = 0 \<and> env_ok v' \<and> (\<forall>l. name_ok l \<and> l \<noteq> k \<longrightarrow> os_getenv l v' = os_getenv l v) \<and>
    (length (filter (\<lambda>e. names e k) (environ v)) \<le> 1 \<longrightarrow> os_getenv k v' = Some None)"
proof (cases "find (\<lambda>e. names e k) (environ v)")
  case None
  then show ?thesis using s v unsetenv_loop_find [OF k, of "environ v"] by (auto simp: os_unsetenv_def os_getenv_map [OF k] env_map_def env_ok_def)
next
  case (Some e)
  then have e: "r = 0" "v' = v\<lparr>environ := remove1 e (environ v)\<rparr>"
    using s v unsetenv_loop_find [OF k, of "environ v"] by (auto simp: os_unsetenv_def env_ok_def split: if_splits)
  have w: "env_ok v'" using v set_remove1_subset [of e "environ v"] by (auto simp: env_ok_def e(2))
  have "\<not> names e l" if "name_ok l" "l \<noteq> k" for l using names_unique [OF find_holds [OF Some] _ k that(1)] that(2) by blast
  then have "os_getenv l v' = os_getenv l v" if "name_ok l" "l \<noteq> k" for l
    using that by (simp add: os_getenv_map v w) (simp add: e(2) env_map_def find_remove1)
  moreover have "os_getenv k v' = Some None" if "length (filter (\<lambda>e. names e k) (environ v)) \<le> 1"
    unfolding os_getenv_map [OF k w] using find_remove1_only [OF that Some] by (simp add: e(2) env_map_def)
  ultimately show ?thesis using e(1) w by blast
qed

section \<open>Inherited environments\<close>

text \<open>The environments a process reaches by calls that are defined.\<close>

inductive env_reach :: "environment \<Rightarrow> environment \<Rightarrow> bool" for v0 where
  start: "env_reach v0 v0"
| set: "env_reach v0 v \<Longrightarrow> os_setenv m1 m2 k x z overwrite v = Some (r, v') \<Longrightarrow> env_reach v0 v'"
| unset: "env_reach v0 v \<Longrightarrow> os_unsetenv k v = Some (r, v') \<Longrightarrow> env_reach v0 v'"

lemma env_reach_array: "env_reach v0 v \<Longrightarrow> array_owned v = array_owned v0"
  by (induction rule: env_reach.induct) (auto simp: os_setenv_def os_unsetenv_def Let_def split: option.splits sum.splits if_splits)

text \<open>
  C37: \<open>__public__os_setenv\<close> cannot add a variable: in a process that inherited its environment, after any
  number of calls, setting a variable that does not exist is undefined (it reallocates the inherited array)
  whenever \<open>malloc\<close> has memory.
\<close>

theorem setenv_cannot_add:
  assumes "env_reach v0 v" "\<not> array_owned v0" "os_getenv k v = Some None"
  shows "os_setenv True m2 k x z overwrite v = None"
  using setenv_loop_none [of "environ v" k] assms(2,3) env_reach_array [OF assms(1)] by (simp add: os_setenv_def os_getenv_def)

theorem setenv_cannot_add_witness: "os_setenv True True [67] [51] 0 True demo_environ = None"
  by (rule setenv_cannot_add [OF env_reach.start]) (simp_all add: demo_environ_def os_getenv_def key_test_def)

end
