(* ===== verification/Crypto.thy ===== *)
theory Crypto
  imports Prelude
begin

text \<open>
  The hash function of \<^verbatim>\<open>src/runtime/src/crypto.c\<close>, on the bytes of its argument: one step per byte, in unsigned
  64-bit arithmetic.
\<close>

unbundle bit_operations_syntax

definition hash_step :: "64 word \<Rightarrow> int \<Rightarrow> 64 word" where
  "hash_step h b = (h XOR word_of_int b) * 1099511628211"

definition hash :: "int list \<Rightarrow> 64 word" where
  "hash bs = foldl hash_step 1469598103934665603 bs"

text \<open>The factor is odd, so that a step can be undone: it is injective in the state and in the byte.\<close>

lemma factor_inverse: "(1099511628211 :: 64 word) * 14886173955864302971 = 1"
  by simp

lemma hash_step_inj: "hash_step h b = hash_step h' c \<longleftrightarrow> h XOR word_of_int b = h' XOR word_of_int c"
proof -
  have "x * 1099511628211 * 14886173955864302971 = x" for x :: "64 word" by (simp only: mult.assoc factor_inverse mult_1_right)
  then show ?thesis unfolding hash_step_def by metis
qed

lemma xor_cancel: "(x :: 64 word) XOR y = x XOR z \<longleftrightarrow> y = z" "y XOR x = z XOR x \<longleftrightarrow> y = z"
proof -
  have l: "x XOR (x XOR v) = v" for v by (simp flip: xor.assoc)
  then show "x XOR y = x XOR z \<longleftrightarrow> y = z" by metis
  then show "y XOR x = z XOR x \<longleftrightarrow> y = z" by (simp add: xor.commute)
qed

lemma foldl_hash_inj: "foldl hash_step h bs = foldl hash_step h' bs \<longleftrightarrow> h = h'"
  by (induction bs arbitrary: h h') (simp_all add: hash_step_inj xor_cancel)

text \<open>Two inputs that differ in one byte have different hashes.\<close>

lemma hash_one_byte:
  assumes "b \<noteq> c" "0 \<le> b" "b < 256" "0 \<le> c" "c < 256"
  shows "hash (us @ b # vs) \<noteq> hash (us @ c # vs)"
proof -
  have "uint (word_of_int b :: 64 word) = b" "uint (word_of_int c :: 64 word) = c" using assms by (simp_all add: uint_word_of_int)
  then have "word_of_int b \<noteq> (word_of_int c :: 64 word)" using assms(1) by metis
  then show ?thesis by (simp add: hash_def foldl_hash_inj hash_step_inj xor_cancel)
qed

lemma hash_one_byte_witness: "hash [1, 2, 3] \<noteq> hash [1, 7, 3]"
  using hash_one_byte [of 2 7 "[1]" "[3]"] by simp

end
