(* ===== verification/Spec2Isabelle.thy ===== *)
theory Spec2Isabelle
  imports AllocProps QueueProps AtomicsProps StringsProps ArrayProps SyncProps GcProps WorldProps
    DiskioProps AsyncProps NetioProps SocketsProps SchedulerProps EnvironProps Crypto
begin

text \<open>
  The runtime of the picasso language (\<^verbatim>\<open>src/runtime\<close>, in C), verified.

  A picasso program is compiled to native code that calls this runtime. The runtime runs the program's tasks on a
  pool of scheduler threads, each with a run queue and an arena of its own; it allocates the program's
  strings and arrays in that arena, gives the program mutexes, wait groups and atomic cells, and collects garbage
  from a separate thread that first stops all scheduler threads. A global arena holds what the runtime itself
  allocates, such as the nodes of its queues.

  \<^bold>\<open>Theories.\<close>

  \<^item> \<open>Prelude\<close>: machine integers as \<open>int\<close> with their wrap-around written out (\<open>u64\<close>, \<open>s32\<close>, ...), memories and rings
    of linked cells, generic lemmas.
  \<^item> \<open>Alloc\<close>: \<^verbatim>\<open>alloc.c\<close>, every function, on a flat memory. \<open>arena_t\<close> is the arena's record, \<open>heap_state\<close> the memory with
    the arena and the mappings of the operating system, which is a parameter (\<open>os\<close>) with the documented
    behaviour of \<open>mmap\<close> and \<open>munmap\<close> as the hypotheses \<open>mmap_ok\<close> and \<open>munmap_ok\<close>.
    \<open>Chunk\<close>, \<open>Arena\<close>, \<open>ArenaLists\<close>, \<open>ArenaOps\<close>, \<open>ArenaBins\<close>, \<open>ArenaHeap\<close>, \<open>ArenaAlloc\<close> and \<open>ArenaRelease\<close> build its invariant,
    from header words and list operations to splitting, merging, growing and releasing. \<open>Allocator\<close> states the
    contract as the locale \<open>allocator\<close> over live blocks and interprets it on \<open>allocate\<close> and \<open>release\<close>;
    \<open>Room\<close> adds that allocation succeeds while the system has memory (locale \<open>roomy_allocator\<close>), \<open>Client\<close> what a client
    does with its blocks (\<open>memcpy\<close>, single cells and bytes). \<open>AllocProps\<close> has the properties.
  \<^item> \<open>Queue\<close>, \<open>QueueProps\<close>: \<^verbatim>\<open>queue.c\<close>, the run queue and the two circular wait queues, with nodes in the arena. They
    refine a FIFO list and a set of parked tasks.
  \<^item> \<open>Atomics\<close>, \<open>AtomicsProps\<close>: \<^verbatim>\<open>atomics.c\<close>, the 105 operations on cells of fifteen types in a byte memory; they refine an
    abstract register under every interleaving.
  \<^item> \<open>Numbers\<close>, \<open>Strings\<close>, \<open>Format\<close>, \<open>StringsProps\<close>: \<^verbatim>\<open>strings.c\<close>, the number formats, the operations on strings in the arena
    and \<open>strings_format\<close>, which refines the text its format describes.
  \<^item> \<open>Array\<close>, \<open>ArrayProps\<close>: \<^verbatim>\<open>array.c\<close>, arrays of any rank.
  \<^item> \<open>Tasks\<close>: interleaved tasks on a shared object, with the locale \<open>sync_object\<close> for its invariants. \<open>Mutex\<close>, \<open>Rwmutex\<close>,
    \<open>Waitgroup\<close>, \<open>SyncProps\<close>: \<^verbatim>\<open>sync.c\<close> as step functions with a program point between any two atomic accesses.
  \<^item> \<open>Gc\<close>, \<open>Sweep\<close>, \<open>GcProps\<close>: \<^verbatim>\<open>gc.c\<close>. \<open>Gc\<close> has the code, the rows of chunks that an arena's heaps are, and what marking does
    to any number of arenas; \<open>Sweep\<close> follows the walk over a heap while \<open>release\<close> merges its chunks, for one arena.
    \<open>World\<close>, \<open>WorldProps\<close>: the protocol between the collector, the scheduler loop and \<open>self_yield\<close> that stops and resumes
    the world, with \<open>gc_start\<close> running beside the scheduler threads as in \<open>main\<close>.
  \<^item> \<open>Scheduler\<close>, \<open>Shutdown\<close>, \<open>SchedulerProps\<close>: the loop of the scheduler threads (\<^verbatim>\<open>scheduler.c\<close>), \<open>thread\<close> and
    \<open>wait_for_schedulers\<close> (\<^verbatim>\<open>initutils.c\<close>) and \<open>main\<close>, as interleaved steps of twelve threads and their tasks. A task that
    sleeps in a blocking call is in the set \<open>asleep\<close>; a step may wake it, once, and none has to: whether it is woken is the
    matter of the components it sleeps in. \<open>Shutdown\<close> has the counters and the end of a program.
  \<^item> \<open>Diskio\<close>, \<open>DiskioProps\<close>: the blocking functions of \<^verbatim>\<open>diskio.c\<close>, on a kernel that is a parameter. \<open>Async\<close>, \<open>AsyncProps\<close>: its
    asynchronous functions, split where the task yields, with the request rings, the completion workers and the
    scheduler threads as interleaved steps.
  \<^item> \<open>Netio\<close>, \<open>NetioSteps\<close>, \<open>NetioProps\<close>: accepting, reading and writing of \<^verbatim>\<open>netio.c\<close>, its worker thread and the poller
    \<^verbatim>\<open>platform/linux/epoll.c\<close>, as steps of tasks, worker and kernel. \<open>Sockets\<close>, \<open>SocketsProps\<close>: \<open>net_listen\<close> and \<open>net_dial\<close>, on
    system calls that are a parameter; \<open>connect_event\<close> is the part of the worker in a connection.
  \<^item> \<open>Environ\<close>, \<open>EnvironProps\<close>: the environment variables of \<^verbatim>\<open>platform/linux/os.c\<close>. \<open>Crypto\<close>: the hash function of \<^verbatim>\<open>crypto.c\<close>.

  \<^bold>\<open>Conventions.\<close> An operation returns \<open>None\<close> where the code aborts, fails an assertion, runs out of memory or has undefined
  behaviour; loops over linked cells are partial functions, and the properties show that they return. A block of memory
  is read and written in two planes, 8-byte cells (\<open>hmem\<close>: headers, links, pointers, counters) and bytes
  (\<open>hbytes\<close>: characters and elements); the code never reads a location in both ways. Requested sizes are below
  \<open>2 ^ 40\<close>, addresses below \<open>2 ^ 47\<close>, as on the platforms the runtime supports. No fuel is used: a loop
  over system calls that may be interrupted for ever is a partial function, and what its property needs of the calls is a
  hypothesis on them (such as \<open>write_ok\<close> and \<open>accepts\<close>, which say what a write does to a stream or to a file with a
  position, \<open>pread_ok\<close>, \<open>syscalls_ok\<close>), met by a concrete kernel in the witness. There are twelve
  scheduler threads and four request rings, as in the headers; the asynchronous calls are treated for tasks of a
  thread that has a ring. Atomic operations are sequentially consistent
  single steps. Floating-point operations are a parameter of the number formats.

  \<^bold>\<open>What is shown.\<close> Of the allocator: blocks are fresh, aligned and never overlap, contents of live blocks survive every
  operation, allocation returns while memory is left, in all runs that release no block of 131025 to 131056 bytes (which \<open>release\<close>
  may unmap from the middle of a heap). Of the queues: order of delivery with every node released, and removal in
  any order. Of the atomics: linearizability and its uses (counter, tickets, one winner). Of strings and arrays: contents,
  round trips, bounds, and the errors of each operation. Of the synchronisation objects: exclusion, no lost wake-up, joining
  and termination in every interleaving, and the schedules in which the code fails to give them. Of the collector: it
  marks exactly the blocks the roots point into, releases exactly the other heap blocks and keeps the allocator's
  invariant, for a single arena whose top chunk is not flagged in use and stacks outside the heaps (and how such a flag,
  left by \<open>release\<close>, breaks it); it works alone unless a thread takes a task before \<open>gc_start\<close> is done or slips through the gap
  before \<open>add_lock\<close>, and both happen. Of the scheduler: a task is in one place only, \<open>task_count\<close> is exact and \<open>total_threads\<close> is
  until \<open>gc_start\<close> resets it, the program comes to rest only when every unfinished task sleeps, and once all tasks have
  finished every schedule ends within 518 steps. Of the I/O: blocking calls transfer exactly the bytes they report in spite of partial transfers and
  interruptions; asynchronous calls get the result of their own request in every interleaving and can be resumed as long as
  all submissions succeed, network calls as long as there is one call per descriptor, with the cases in which the code loses a
  task otherwise; sockets are set up as asked or closed, but a refused connection is returned as a socket. Of the
  environment: setting and getting agree with a map, up to the byte that is copied behind the value, and a variable cannot be added to an inherited environment.
  Of the hash: inputs that differ in one byte have different hashes.

  \<^bold>\<open>Not modelled.\<close> Contexts, stacks, timers and signals (\<^verbatim>\<open>platform/*/context.c\<close>, \<^verbatim>\<open>platform/*/sigerr.c\<close>) are machine state
  that the tasks are abstracted from, and with them the blocks that hold a task and its payload (\<open>task_create\<close>,
  \<open>task_trampoline\<close>, \<open>task_destroy\<close>) and the argument array that \<open>main\<close> builds. The other functions of \<^verbatim>\<open>platform/linux/os.c\<close>
  and the creation of the poller are single system calls; the darwin files, with the poller on \<open>kqueue\<close>, are the
  counterparts of the Linux files. \<^verbatim>\<open>ggc.c\<close> and \<^verbatim>\<open>utils.c\<close> give other names to functions above and to \<open>vsnprintf\<close>. The compiler
  (\<^verbatim>\<open>src/irgen\<close>) is written in Go, the command line tool starts processes, the libraries are declarations of the functions
  above, and \<^verbatim>\<open>src/dist\<close> holds copies of the runtime.
\<close>

end
